(* ===== verification/Prelude.thy ===== *)
theory Prelude
  imports Main "HOL-Library.Word" "HOL-Library.Sublist"
begin

unbundle bit_operations_syntax

text \<open>
  Shared vocabulary of the development: the byte and machine-word types the sources use,
  little-endian byte strings (the memory layout that \<^verbatim>\<open>memcpy\<close> and \<^verbatim>\<open>FLATDATA\<close> rely on),
  and generic facts on lists, options, sums and words that the component theories use
  through the collections below.
\<close>

section \<open>Types\<close>

type_synonym byte = "8 word"
type_synonym u32 = "32 word"
type_synonym u64 = "64 word"
type_synonym u256 = "256 word"

text \<open>
  \<^verbatim>\<open>valtype\<close> (script/script.h) is \<^verbatim>\<open>std::vector<unsigned char>\<close>.
\<close>

type_synonym valtype = "byte list"

section \<open>Collections of facts\<close>

named_theorems le_simps "little-endian byte strings"
named_theorems script_defs "definitions of the script operations, for evaluation"
named_theorems view_simps "behaviour of the coins views"

section \<open>Results\<close>

text \<open>
  A fallible operation returns a sum: the left summand is the error.
\<close>

abbreviation is_ok :: "'e + 'a \<Rightarrow> bool" where
  "is_ok r \<equiv> \<not> isl r"

lemma is_ok_iff: "is_ok r \<longleftrightarrow> (\<exists>x. r = Inr x)"
  by (cases r) auto

lemma case_sum_eq_Inr:
  "(case r of Inl e \<Rightarrow> Inl e | Inr x \<Rightarrow> f x) = Inr y \<longleftrightarrow> (\<exists>x. r = Inr x \<and> f x = Inr y)"
  by (cases r) auto

section \<open>Little-endian byte strings\<close>

text \<open>
  \<open>le_bytes k n\<close> is the memory image of the \<open>k\<close>-byte unsigned integer \<open>n\<close> on a
  little-endian machine; \<open>le_val\<close> reads it back.
\<close>

fun le_bytes :: "nat \<Rightarrow> nat \<Rightarrow> byte list" where
  "le_bytes 0 n = []"
| "le_bytes (Suc k) n = word_of_nat (n mod 256) # le_bytes k (n div 256)"

fun le_val :: "byte list \<Rightarrow> nat" where
  "le_val [] = 0"
| "le_val (b # bs) = unat b + 256 * le_val bs"

lemma length_le_bytes [simp, le_simps]: "length (le_bytes k n) = k"
  by (induction k arbitrary: n) auto

lemma unat_byte_less: "unat (b :: byte) < 256"
  using unsigned_less [of b] by simp

lemma unat_byte_le: "unat (b :: byte) \<le> 255"
  using unat_byte_less [of b] by linarith

lemma unat_byte_of_nat: "n < 256 \<Longrightarrow> unat (word_of_nat n :: byte) = n"
  by (simp add: unat_of_nat)

lemma unat_byte_mod [simp]: "unat (word_of_nat (n mod 256) :: byte) = n mod 256"
  by (simp add: unat_of_nat)

lemma byte_eq_iff_unat: "(a :: byte) = b \<longleftrightarrow> unat a = unat b"
  by (rule word_unat_eq_iff)

lemma le_val_less: "le_val bs < 256 ^ length bs"
proof (induction bs)
  case Nil
  show ?case by simp
next
  case (Cons b bs)
  have "unat b + 256 * le_val bs \<le> 255 + 256 * (256 ^ length bs - 1)"
    using Cons.IH unat_byte_le [of b] by (intro add_mono mult_le_mono) auto
  also have "\<dots> < 256 * 256 ^ length bs"
  proof -
    have "(0::nat) < 256 ^ length bs" by simp
    then show ?thesis by (simp only: diff_mult_distrib2)
  qed
  finally show ?case by simp
qed

lemma le_val_le_bytes [le_simps]: "le_val (le_bytes k n) = n mod 256 ^ k"
proof (induction k arbitrary: n)
  case 0
  show ?case by simp
next
  case (Suc k)
  have "le_val (le_bytes (Suc k) n) = n mod 256 + 256 * (n div 256 mod 256 ^ k)"
    by (simp add: Suc.IH)
  also have "\<dots> = n mod (256 * 256 ^ k)"
    by (simp add: mod_mult2_eq)
  finally show ?case by simp
qed

lemma le_bytes_le_val [le_simps]: "le_bytes (length bs) (le_val bs) = bs"
proof (induction bs)
  case Nil
  show ?case by simp
next
  case (Cons b bs)
  have "(unat b + 256 * le_val bs) mod 256 = unat b"
    and "(unat b + 256 * le_val bs) div 256 = le_val bs"
    by (simp_all add: unat_byte_less)
  with Cons.IH show ?case by simp
qed

lemma le_val_append: "le_val (xs @ ys) = le_val xs + 256 ^ length xs * le_val ys"
  by (induction xs) (auto simp: algebra_simps)

lemma le_val_inject:
  "length xs = length ys \<Longrightarrow> le_val xs = le_val ys \<longleftrightarrow> xs = ys"
  by (metis le_bytes_le_val)

section \<open>Big-endian byte strings\<close>

definition be_val :: "valtype \<Rightarrow> nat" where
  "be_val xs = le_val (rev xs)"

lemma be_val_Nil [simp]: "be_val [] = 0"
  by (simp add: be_val_def)

lemma be_val_Cons [simp]: "be_val (x # xs) = 256 ^ length xs * unat x + be_val xs"
  by (simp add: be_val_def le_val_append)

lemma be_val_less: "be_val xs < 256 ^ length xs"
  using le_val_less [of "rev xs"] by (simp add: be_val_def)

lemma be_val_Cons_less:
  "length xs = length ys \<Longrightarrow> x < y \<Longrightarrow> be_val (x # xs) < be_val (y # ys)"
proof -
  assume l: "length xs = length ys" and "x < y"
  then have "Suc (unat x) \<le> unat y" by (simp add: word_less_nat_alt)
  then have "256 ^ length ys * Suc (unat x) \<le> 256 ^ length ys * unat y" by (rule mult_le_mono2)
  with l be_val_less [of xs] show ?thesis by simp
qed

lemma sgn_diff_nat:
  "m < n \<Longrightarrow> sgn (int m - int n) = - 1"
  "n < m \<Longrightarrow> sgn (int m - int n) = 1"
  by (simp_all add: sgn_if)

lemma be_val_pos_bound: "c \<noteq> [] \<Longrightarrow> hd c \<noteq> 0 \<Longrightarrow> length d < length c \<Longrightarrow> be_val d < be_val c"
proof -
  assume c: "c \<noteq> []" "hd c \<noteq> 0" and l: "length d < length c"
  obtain x xs where x: "c = x # xs" using c(1) by (cases c) auto
  have "be_val d < 256 ^ length d" by (rule be_val_less)
  also have "\<dots> \<le> 256 ^ length xs" using l x by (simp add: power_increasing)
  also have "\<dots> \<le> be_val c"
    using c(2) x mult_le_mono2 [of 1 "unat x" "256 ^ length xs"] by (simp add: unat_gt_0 Suc_le_eq trans_le_add1)
  finally show ?thesis .
qed

section \<open>Bits of a byte\<close>

lemma byte_and_0x80: "b AND 0x80 = 0 \<longleftrightarrow> unat b < 128" for b :: byte
proof -
  have "b AND 0x80 = 0 \<longleftrightarrow> \<not> bit b 7"
    using and_exp_eq_0_iff_not_bit [of b 7] by simp
  also have "\<dots> \<longleftrightarrow> \<not> bit (unat b) 7"
    by (simp add: bit_unsigned_iff)
  also have "\<dots> \<longleftrightarrow> unat b < 128"
  proof -
    have "unat b div 128 = (if unat b < 128 then 0 else 1)"
      using unat_byte_less [of b] by (auto intro: div_nat_eqI)
    then show ?thesis by (simp add: bit_iff_odd)
  qed
  finally show ?thesis .
qed

lemma byte_and_0x7f: "b AND 0x7f = 0 \<longleftrightarrow> unat b mod 128 = 0" for b :: byte
proof -
  have "b AND 0x7f = take_bit 7 b"
    by (simp add: take_bit_eq_mask mask_eq_exp_minus_1)
  moreover have "unat (take_bit 7 b) = unat b mod 128"
    by (simp add: unsigned_take_bit_eq) (simp add: take_bit_eq_mod)
  ultimately show ?thesis by (metis unat_eq_zero)
qed

lemma byte_or_0x80: "unat b < 128 \<Longrightarrow> unat (b OR 0x80) = unat b + 128" for b :: byte
proof -
  assume b: "unat b < 128"
  then have "b OR 0x80 = b + 0x80"
    by (subst disjunctive_add_eq_or) (simp_all add: byte_and_0x80)
  with b show ?thesis by (simp add: unat_word_ariths)
qed

lemma byte_0x80: "(b AND 0x80 \<noteq> 0) = (128 \<le> unat b)" for b :: byte
  using byte_and_0x80 [of b] by auto

lemma byte_of_unat: "unat b = n \<Longrightarrow> b = word_of_nat n" for b :: byte
  by auto

section \<open>Lists\<close>

lemma length_1_list: "length xs = 1 \<Longrightarrow> \<exists>a. xs = [a]"
  by (cases xs) auto

lemma length_2_list: "length xs = 2 \<Longrightarrow> \<exists>a b. xs = [a, b]"
  by (auto simp: eval_nat_numeral length_Suc_conv)

lemma length_4_list: "length xs = 4 \<Longrightarrow> \<exists>a b c d. xs = [a, b, c, d]"
  by (auto simp: eval_nat_numeral length_Suc_conv)

lemma take_drop_length_append:
  "xs = ys @ zs \<Longrightarrow> take (length xs - length zs) xs = ys"
  by simp

lemma nth_append_length_plus [simp]: "(xs @ ys) ! (length xs + i) = ys ! i"
  by simp

lemma drop_append_length_plus [simp]: "drop (length xs + n) (xs @ ys) = drop n ys"
  by simp

lemma sum_list_map_le:
  "(\<And>x. x \<in> set xs \<Longrightarrow> f x \<le> g x) \<Longrightarrow> sum_list (map f xs) \<le> sum_list (map g xs)"
  for f g :: "'a \<Rightarrow> 'b :: ordered_comm_monoid_add"
  by (induction xs) (auto intro: add_mono)

lemma sum_list_nonneg_prefix:
  fixes f :: "'a \<Rightarrow> int"
  assumes "\<And>x. x \<in> set xs \<Longrightarrow> 0 \<le> f x"
  shows "0 \<le> sum_list (map f xs)"
  using assms by (induction xs) auto

section \<open>Signed machine integers\<close>

text \<open>
  The value a two's complement register of \<open>n\<close> bits holds after an operation whose exact
  result is \<open>x\<close>; \<^verbatim>\<open>int64_t\<close> is \<open>n = 64\<close>, \<^verbatim>\<open>int\<close> is \<open>n = 32\<close>.
\<close>

definition swrap :: "nat \<Rightarrow> int \<Rightarrow> int" where
  "swrap n x = (x + 2 ^ (n - 1)) mod 2 ^ n - 2 ^ (n - 1)"

definition in_sint :: "nat \<Rightarrow> int \<Rightarrow> bool" where
  "in_sint n x \<longleftrightarrow> - (2 ^ (n - 1)) \<le> x \<and> x < 2 ^ (n - 1)"

lemma swrap_id: "0 < n \<Longrightarrow> in_sint n x \<Longrightarrow> swrap n x = x"
proof -
  assume n: "0 < n" and x: "in_sint n x"
  have e: "(2::int) ^ n = 2 * 2 ^ (n - 1)"
    using n by (simp flip: power_Suc)
  have "0 \<le> x + 2 ^ (n - 1)" "x + 2 ^ (n - 1) < 2 ^ n"
    using x unfolding in_sint_def e by linarith+
  then show ?thesis by (simp add: swrap_def)
qed

lemma in_sint_swrap: "0 < n \<Longrightarrow> in_sint n (swrap n x)"
proof -
  assume n: "0 < n"
  have e: "(2::int) ^ n = 2 * 2 ^ (n - 1)"
    using n by (simp flip: power_Suc)
  have "0 \<le> (x + 2 ^ (n - 1)) mod 2 ^ n" "(x + 2 ^ (n - 1)) mod 2 ^ n < 2 ^ n"
    by simp_all
  then show ?thesis unfolding in_sint_def swrap_def e by linarith
qed

section \<open>Flags\<close>

text \<open>\<^verbatim>\<open>(flags & f) != 0\<close>.\<close>

definition has_flag :: "u32 \<Rightarrow> u32 \<Rightarrow> bool" where
  "has_flag flags f \<longleftrightarrow> flags AND f \<noteq> 0"

subsection \<open>Sums modulo the width\<close>

lemma swrap_cong: "x mod 2 ^ n = y mod 2 ^ n \<Longrightarrow> swrap n x = swrap n y"
  unfolding swrap_def by (metis mod_add_left_eq)

lemma swrap_mod: "0 < n \<Longrightarrow> swrap n x mod 2 ^ n = x mod 2 ^ n"
  by (simp add: swrap_def mod_simps)

lemma swrap_add_left: "0 < n \<Longrightarrow> swrap n (swrap n x + y) = swrap n (x + y)"
  by (rule swrap_cong) (metis mod_add_left_eq swrap_mod)

lemma swrap_add_right: "0 < n \<Longrightarrow> swrap n (x + swrap n y) = swrap n (x + y)"
  by (rule swrap_cong) (metis mod_add_right_eq swrap_mod)

lemma swrap_diff_left: "0 < n \<Longrightarrow> swrap n (swrap n x - y) = swrap n (x - y)"
  by (rule swrap_cong) (metis mod_diff_left_eq swrap_mod)

lemma swrap_diff_right: "0 < n \<Longrightarrow> swrap n (x - swrap n y) = swrap n (x - y)"
  by (rule swrap_cong) (metis mod_diff_right_eq swrap_mod)

lemma swrap_sum_diff: "swrap 64 (a + swrap 64 x - swrap 64 y) = swrap 64 (a + (x - y))"
  by (rule swrap_cong, unfold add_diff_eq) (intro mod_diff_cong mod_add_cong refl swrap_mod; simp)

lemma swrap_diff_sum: "swrap 64 (swrap 64 x - swrap 64 y + swrap 64 z) = swrap 64 (x - y + z)"
  by (rule swrap_cong) (intro mod_diff_cong mod_add_cong refl swrap_mod; simp)

lemma swrap_swrap: "0 < n \<Longrightarrow> swrap n (swrap n x) = swrap n x"
  by (simp add: swrap_id in_sint_swrap)

lemmas swrap_simps = swrap_add_left swrap_add_right swrap_diff_left swrap_diff_right swrap_swrap

end
