(* ===== verification/Uint256.thy ===== *)
theory Uint256
  imports Prelude
begin

unbundle bit_operations_syntax

text \<open>
  Big unsigned integers (uint256.h, uint256.cpp): the template \<^verbatim>\<open>base_uint\<close> on an array of
  32-bit limbs with the least significant limb first, and the compact form of targets. A
  number is the list of its limbs; the list's length is \<^verbatim>\<open>WIDTH\<close>. The operations are the
  loops of the source on 32- and 64-bit words, and are proved to be arithmetic modulo
  \<open>2 ^ (32 * WIDTH)\<close>.
\<close>

type_synonym base_uint = "u32 list"

abbreviation (input) WIDTH :: nat where
  "WIDTH \<equiv> 8"

section \<open>Operations\<close>

text \<open>\<^verbatim>\<open>operator=(uint64_t)\<close>, for a number of \<open>w\<close> limbs.\<close>

definition uint_of_u64 :: "nat \<Rightarrow> u64 \<Rightarrow> base_uint" where
  "uint_of_u64 w b = ucast b # ucast (drop_bit 32 b) # replicate (w - 2) 0"

definition uint_IsNull :: "base_uint \<Rightarrow> bool" where
  "uint_IsNull pn \<longleftrightarrow> list_all (\<lambda>x. x = 0) pn"

definition uint_not :: "base_uint \<Rightarrow> base_uint" where
  "uint_not pn = map NOT pn"

fun uint_inc :: "base_uint \<Rightarrow> base_uint" where
  "uint_inc [] = []"
| "uint_inc (x # pn) = (if x + 1 = 0 \<and> pn \<noteq> [] then (x + 1) # uint_inc pn else (x + 1) # pn)"

fun uint_dec :: "base_uint \<Rightarrow> base_uint" where
  "uint_dec [] = []"
| "uint_dec (x # pn) = (if x - 1 = - 1 \<and> pn \<noteq> [] then (x - 1) # uint_dec pn else (x - 1) # pn)"

definition uint_neg :: "base_uint \<Rightarrow> base_uint" where
  "uint_neg pn = uint_inc (uint_not pn)"

fun uint_add_loop :: "u64 \<Rightarrow> base_uint \<Rightarrow> base_uint \<Rightarrow> base_uint" where
  "uint_add_loop carry (x # pn) (y # b) =
     (let n = carry + ucast x + ucast y in
      ucast (n AND 0xffffffff) # uint_add_loop (drop_bit 32 n) pn b)"
| "uint_add_loop carry pn b = []"

definition uint_add :: "base_uint \<Rightarrow> base_uint \<Rightarrow> base_uint" where
  "uint_add pn b = uint_add_loop 0 pn b"

definition uint_sub :: "base_uint \<Rightarrow> base_uint \<Rightarrow> base_uint" where
  "uint_sub pn b = uint_add pn (uint_neg b)"

fun uint_mul32_loop :: "u64 \<Rightarrow> u32 \<Rightarrow> base_uint \<Rightarrow> base_uint" where
  "uint_mul32_loop carry b32 [] = []"
| "uint_mul32_loop carry b32 (x # pn) =
     (let n = carry + ucast b32 * ucast x in
      ucast (n AND 0xffffffff) # uint_mul32_loop (drop_bit 32 n) b32 pn)"

definition uint_mul32 :: "base_uint \<Rightarrow> u32 \<Rightarrow> base_uint" where
  "uint_mul32 pn b32 = uint_mul32_loop 0 b32 pn"

text \<open>
  The inner loop of the multiplication, for the limbs of the result from position \<open>j\<close> on, and
  the outer loop: limb \<open>j\<close> has its final value after round \<open>j\<close>.
\<close>

fun uint_mul_row :: "u64 \<Rightarrow> u32 \<Rightarrow> base_uint \<Rightarrow> base_uint \<Rightarrow> base_uint" where
  "uint_mul_row carry a (y # b) (x # pn) =
     (let n = carry + ucast x + ucast a * ucast y in
      ucast (n AND 0xffffffff) # uint_mul_row (drop_bit 32 n) a b pn)"
| "uint_mul_row carry a b pn = []"

fun uint_mul_loop :: "base_uint \<Rightarrow> base_uint \<Rightarrow> base_uint \<Rightarrow> base_uint" where
  "uint_mul_loop [] b pn = pn"
| "uint_mul_loop (x # a) b pn =
     (case uint_mul_row 0 x b pn of
        [] \<Rightarrow> []
      | y # pn' \<Rightarrow> y # uint_mul_loop a b pn')"

definition uint_mul :: "base_uint \<Rightarrow> base_uint \<Rightarrow> base_uint" where
  "uint_mul a b = uint_mul_loop a b (replicate (length a) 0)"

text \<open>The shifts: the body of the loop, and the loop over the limbs of the operand.\<close>

definition shl_step :: "base_uint \<Rightarrow> nat \<Rightarrow> nat \<Rightarrow> nat \<Rightarrow> base_uint \<Rightarrow> base_uint" where
  "shl_step a k shift i pn =
     (let pn = (if i + k + 1 < length a \<and> shift \<noteq> 0
                then pn[i + k + 1 := pn ! (i + k + 1) OR drop_bit (32 - shift) (a ! i)] else pn)
      in if i + k < length a then pn[i + k := pn ! (i + k) OR push_bit shift (a ! i)] else pn)"

definition uint_shl :: "base_uint \<Rightarrow> nat \<Rightarrow> base_uint" where
  "uint_shl a shift =
     fold (shl_step a (shift div 32) (shift mod 32)) [0..<length a] (replicate (length a) 0)"

definition shr_step :: "base_uint \<Rightarrow> nat \<Rightarrow> nat \<Rightarrow> nat \<Rightarrow> base_uint \<Rightarrow> base_uint" where
  "shr_step a k shift i pn =
     (let pn = (if i \<ge> k + 1 \<and> shift \<noteq> 0
                then pn[i - k - 1 := pn ! (i - k - 1) OR push_bit (32 - shift) (a ! i)] else pn)
      in if i \<ge> k then pn[i - k := pn ! (i - k) OR drop_bit shift (a ! i)] else pn)"

definition uint_shr :: "base_uint \<Rightarrow> nat \<Rightarrow> base_uint" where
  "uint_shr a shift =
     fold (shr_step a (shift div 32) (shift mod 32)) [0..<length a] (replicate (length a) 0)"

text \<open>\<^verbatim>\<open>CompareTo\<close>, from the most significant limb down.\<close>

fun CompareTo_loop :: "base_uint \<Rightarrow> base_uint \<Rightarrow> int" where
  "CompareTo_loop (x # a) (y # b) = (if x < y then - 1 else if x > y then 1 else CompareTo_loop a b)"
| "CompareTo_loop a b = 0"

definition CompareTo :: "base_uint \<Rightarrow> base_uint \<Rightarrow> int" where
  "CompareTo a b = CompareTo_loop (rev a) (rev b)"

definition EqualTo :: "base_uint \<Rightarrow> u64 \<Rightarrow> bool" where
  "EqualTo pn b \<longleftrightarrow>
     list_all (\<lambda>x. x = 0) (drop 2 pn) \<and> pn ! 1 = ucast (drop_bit 32 b) \<and> pn ! 0 = ucast (b AND 0xffffffff)"

text \<open>\<^verbatim>\<open>bits\<close>: the loop over the bits of a limb, and over the limbs from the top.\<close>

fun limb_bits :: "nat \<Rightarrow> u32 \<Rightarrow> nat" where
  "limb_bits 0 x = 1"
| "limb_bits (Suc b) x = (if x AND push_bit (Suc b) 1 \<noteq> 0 then Suc b + 1 else limb_bits b x)"

fun bits_loop :: "base_uint \<Rightarrow> nat" where
  "bits_loop [] = 0"
| "bits_loop (x # pn) = (if x \<noteq> 0 then 32 * length pn + limb_bits 31 x else bits_loop pn)"

definition uint_bits :: "base_uint \<Rightarrow> nat" where
  "uint_bits pn = bits_loop (rev pn)"

text \<open>The loop of the division, for the values \<open>n - 1\<close> down to zero of \<^verbatim>\<open>shift\<close>.\<close>

fun uint_div_loop :: "nat \<Rightarrow> base_uint \<Rightarrow> base_uint \<Rightarrow> base_uint \<Rightarrow> base_uint" where
  "uint_div_loop 0 num dv pn = pn"
| "uint_div_loop (Suc shift) num dv pn =
     (let (num, pn) =
        (if CompareTo num dv \<ge> 0
         then (uint_sub num dv, pn[shift div 32 := pn ! (shift div 32) OR push_bit (shift mod 32) 1])
         else (num, pn))
      in uint_div_loop shift num (uint_shr dv 1) pn)"

text \<open>\<open>None\<close> is the exception \<^verbatim>\<open>uint_error("Division by zero")\<close>.\<close>

definition uint_div :: "base_uint \<Rightarrow> base_uint \<Rightarrow> base_uint option" where
  "uint_div num b =
     (let pn = replicate (length num) 0; num_bits = uint_bits num; div_bits = uint_bits b in
      if div_bits = 0 then None
      else if div_bits > num_bits then Some pn
      else
        let shift = num_bits - div_bits
        in Some (uint_div_loop (shift + 1) num (uint_shl b shift) pn))"

definition GetLow64 :: "base_uint \<Rightarrow> u64" where
  "GetLow64 pn = ucast (pn ! 0) OR push_bit 32 (ucast (pn ! 1))"

section \<open>The compact form\<close>

text \<open>\<^verbatim>\<open>SetCompact\<close>: the number, \<^verbatim>\<open>*pfNegative\<close> and \<^verbatim>\<open>*pfOverflow\<close>.\<close>

definition SetCompact :: "u32 \<Rightarrow> base_uint \<times> bool \<times> bool" where
  "SetCompact nCompact =
     (let nSize = unat (drop_bit 24 nCompact);
          nWord = nCompact AND 0x007fffff;
          nWord = (if nSize \<le> 3 then drop_bit (8 * (3 - nSize)) nWord else nWord);
          pn = (if nSize \<le> 3 then uint_of_u64 WIDTH (ucast nWord)
                else uint_shl (uint_of_u64 WIDTH (ucast nWord)) (8 * (nSize - 3)));
          fNegative = (nWord \<noteq> 0 \<and> nCompact AND 0x00800000 \<noteq> 0);
          fOverflow = (nWord \<noteq> 0 \<and>
            (nSize > 34 \<or> (nWord > 0xff \<and> nSize > 33) \<or> (nWord > 0xffff \<and> nSize > 32)))
      in (pn, fNegative, fOverflow))"

text \<open>\<^verbatim>\<open>GetCompact\<close>; \<open>None\<close> is a failed assertion.\<close>

definition GetCompact :: "base_uint \<Rightarrow> bool \<Rightarrow> u32 option" where
  "GetCompact pn fNegative =
     (let nSize = (uint_bits pn + 7) div 8;
          nCompact = (if nSize \<le> 3 then ucast (push_bit (8 * (3 - nSize)) (GetLow64 pn))
                      else ucast (GetLow64 (uint_shr pn (8 * (nSize - 3)))));
          (nCompact, nSize) = (if nCompact AND 0x00800000 \<noteq> 0 then (drop_bit 8 nCompact, nSize + 1)
                               else (nCompact, nSize))
      in if nCompact AND NOT 0x007fffff \<noteq> (0 :: u32) \<or> \<not> nSize < 256 then None
         else
           let nCompact = nCompact OR push_bit 24 (word_of_nat nSize)
           in Some (nCompact OR (if fNegative \<and> nCompact AND 0x007fffff \<noteq> 0 then 0x00800000 else 0)))"

section \<open>The value of a number\<close>

fun uval :: "base_uint \<Rightarrow> nat" where
  "uval [] = 0"
| "uval (x # pn) = unat x + 2 ^ 32 * uval pn"

lemma limb_step:
  fixes B M x U :: nat
  assumes "0 < B"
  shows "x mod B + B * ((x div B + U) mod M) = (x + B * U) mod (B * M)"
  using assms by (simp add: mod_mult2_eq div_add1_eq)

lemma limb_low: "unat (ucast (n AND 0xffffffff) :: u32) = unat n mod 2 ^ 32" for n :: u64
proof -
  have "n AND 0xffffffff = take_bit 32 n" by (simp add: take_bit_eq_mask mask_eq_exp_minus_1)
  then have "unat (ucast (n AND 0xffffffff) :: u32) = take_bit 32 (take_bit 32 (unat n))"
    by (simp only: unsigned_ucast_eq unsigned_take_bit_eq) simp
  then show ?thesis by (simp add: take_bit_eq_mod)
qed

lemma limb_high: "unat (drop_bit 32 n) = unat n div 2 ^ 32" for n :: u64
  by (simp only: unsigned_drop_bit_eq take_bit_nat_eq_self [OF unsigned_less]) (simp add: drop_bit_eq_div)

lemma unat_ucast_64 [simp]: "unat (ucast x :: u64) = unat x" for x :: u32
  using unsigned_less [of x, where ?'a = nat] by (simp add: unsigned_ucast_eq take_bit_nat_eq_self)

lemma limb_less: "unat x < 2 ^ 32" for x :: u32
  using unsigned_less [of x] by simp

lemma uval_less: "uval pn < 2 ^ (32 * length pn)"
proof (induction pn)
  case (Cons x pn)
  have "unat x + 2 ^ 32 * uval pn < 2 ^ 32 * (uval pn + 1)" using limb_less [of x] by simp
  also have "\<dots> \<le> 2 ^ 32 * 2 ^ (32 * length pn)" using Cons by (intro mult_le_mono2) simp
  finally show ?case by (simp add: power_add)
qed simp

lemma uval_append: "uval (a @ b) = uval a + 2 ^ (32 * length a) * uval b"
  by (induction a) (simp_all add: power_add algebra_simps)

lemma uval_replicate_0 [simp]: "uval (replicate n 0) = 0"
  by (induction n) simp_all

lemma uval_inject: "length a = length b \<Longrightarrow> uval a = uval b \<Longrightarrow> a = b"
proof (induction a b rule: list_induct2)
  case (Cons x a y b)
  have "unat x = unat y"
    using arg_cong [OF Cons.prems, of "\<lambda>n. n mod 2 ^ 32"] limb_less [of x] limb_less [of y] by simp
  with Cons show ?case by (simp add: unsigned_word_eqI)
qed simp

section \<open>Addition and subtraction\<close>

lemma unat_add3:
  fixes a b c :: u64
  assumes "unat a + unat b + unat c < 2 ^ 64"
  shows "unat (a + b + c) = unat a + unat b + unat c"
proof -
  have "unat (a + b) = unat a + unat b" using assms by (simp add: unat_add_lem [THEN iffD1])
  then show ?thesis using assms unat_add_lem [of "a + b" c] by simp
qed

lemma length_uint_add_loop [simp]: "length (uint_add_loop c a b) = min (length a) (length b)"
  by (induction c a b rule: uint_add_loop.induct) (simp_all add: Let_def)

lemma uval_add_loop:
  assumes "length a = length b" "unat c \<le> 1"
  shows "uval (uint_add_loop c a b) = (unat c + uval a + uval b) mod 2 ^ (32 * length a)"
  using assms
proof (induction a b arbitrary: c rule: list_induct2)
  case (Cons x a y b)
  let ?n = "c + ucast x + ucast y :: u64"
  have b: "unat c + unat x + unat y < 2 ^ 33" using Cons.prems limb_less [of x] limb_less [of y] by simp
  have n: "unat ?n = unat c + unat x + unat y"
    using b by (subst unat_add3) simp_all
  have "unat (drop_bit 32 ?n) \<le> 1" using b unfolding limb_high n by simp
  then have "uval (uint_add_loop (drop_bit 32 ?n) a b) = (unat ?n div 2 ^ 32 + (uval a + uval b)) mod 2 ^ (32 * length a)"
    using Cons.IH by (simp add: limb_high add.assoc)
  then have "uval (uint_add_loop c (x # a) (y # b)) =
      unat ?n mod 2 ^ 32 + 2 ^ 32 * ((unat ?n div 2 ^ 32 + (uval a + uval b)) mod 2 ^ (32 * length a))"
    by (simp only: uint_add_loop.simps Let_def uval.simps limb_low)
  also have "\<dots> = (unat ?n + 2 ^ 32 * (uval a + uval b)) mod (2 ^ 32 * 2 ^ (32 * length a))"
    by (rule limb_step) simp
  finally show ?case unfolding n by (simp add: power_add algebra_simps)
qed simp

lemma uval_add:
  "length a = length b \<Longrightarrow> uval (uint_add a b) = (uval a + uval b) mod 2 ^ (32 * length a)"
  using uval_add_loop [of a b 0] by (simp add: uint_add_def)

lemma length_uint_add [simp]: "length (uint_add a b) = min (length a) (length b)"
  by (simp add: uint_add_def)

lemma length_uint_inc [simp]: "length (uint_inc a) = length a"
  by (induction a) simp_all

lemma unat_plus1: "unat (x + 1) = (unat x + 1) mod 2 ^ 32" for x :: u32
  by (simp add: unat_word_ariths)

lemma uval_inc: "a \<noteq> [] \<Longrightarrow> uval (uint_inc a) = (uval a + 1) mod 2 ^ (32 * length a)"
proof (induction a)
  case (Cons x a)
  show ?case
  proof (cases "x + 1 = 0")
    case True
    then have x: "unat x + 1 = 2 ^ 32"
      using unat_plus1 [of x] limb_less [of x] by (metis Suc_eq_plus1 Suc_lessI mod_less nat.distinct(1) unsigned_0)
    show ?thesis
    proof (cases "a = []")
      case True
      with x \<open>x + 1 = 0\<close> show ?thesis by simp
    next
      case False
      have "(uval (x # a) + 1) mod 2 ^ (32 * length (x # a)) = (2 ^ 32 * (uval a + 1)) mod (2 ^ 32 * 2 ^ (32 * length a))"
        using x by (simp add: power_add algebra_simps)
      also have "\<dots> = 2 ^ 32 * ((uval a + 1) mod 2 ^ (32 * length a))" by (simp only: mod_mult_mult1)
      finally show ?thesis using Cons False \<open>x + 1 = 0\<close> by simp
    qed
  next
    case False
    then have "unat (x + 1) = unat x + 1" by (metis add.commute unatSuc Suc_eq_plus1)
    moreover have "uval ((x + 1) # a) < 2 ^ (32 * length (x # a))" using uval_less [of "(x + 1) # a"] by simp
    ultimately show ?thesis using False by simp
  qed
qed simp

lemma uval_not: "uval (uint_not a) + uval a + 1 = 2 ^ (32 * length a)"
proof (induction a)
  case (Cons x a)
  have "NOT x = - 1 - x" by (simp add: not_eq_complement)
  then have "unat (NOT x) + unat x + 1 = 2 ^ 32"
    using unat_sub [of x "- 1"] limb_less [of x] by (simp add: unsigned_minus_1_eq_mask mask_eq_exp_minus_1)
  moreover have "2 ^ 32 * (uval (uint_not a) + uval a + 1) = 2 ^ 32 * 2 ^ (32 * length a)" using Cons by simp
  ultimately show ?case by (simp add: uint_not_def power_add algebra_simps)
qed (simp add: uint_not_def)

lemma length_uint_not [simp]: "length (uint_not a) = length a"
  by (simp add: uint_not_def)

lemma length_uint_neg [simp]: "length (uint_neg a) = length a"
  by (simp add: uint_neg_def)

lemma uval_neg: "a \<noteq> [] \<Longrightarrow> uval (uint_neg a) = (2 ^ (32 * length a) - uval a) mod 2 ^ (32 * length a)"
  using uval_not [of a] uval_inc [of "uint_not a"] uval_less [of a]
  by (cases a) (auto simp: uint_neg_def uint_not_def intro: arg_cong [of _ _ "\<lambda>n. n mod _"])

lemma uval_sub:
  assumes "length a = length b" "a \<noteq> []"
  shows "int (uval (uint_sub a b)) = (int (uval a) - int (uval b)) mod 2 ^ (32 * length a)"
proof -
  have b: "b \<noteq> []" using assms by auto
  have l: "uval b \<le> 2 ^ (32 * length a)" using uval_less [of b] assms(1) by simp
  have "uval (uint_sub a b) = (uval a + (2 ^ (32 * length a) - uval b)) mod 2 ^ (32 * length a)"
    using assms b by (simp add: uint_sub_def uval_add uval_neg mod_add_right_eq)
  then have "int (uval (uint_sub a b)) = (int (uval a) + (2 ^ (32 * length a) - int (uval b))) mod 2 ^ (32 * length a)"
    using l by (simp add: zmod_int of_nat_diff add_diff_eq)
  also have "\<dots> = (int (uval a) - int (uval b)) mod 2 ^ (32 * length a)"
    by (metis add_diff_eq diff_add_eq mod_add_self2)
  finally show ?thesis .
qed

lemma uval_sub_le:
  assumes "length a = length b" "a \<noteq> []" "uval b \<le> uval a"
  shows "uval (uint_sub a b) = uval a - uval b"
proof -
  have "int (uval a - uval b) < 2 ^ (32 * length a)"
    using uval_less [of a] by (metis less_imp_diff_less of_nat_less_numeral_power_cancel_iff)
  then have "(int (uval a) - int (uval b)) mod 2 ^ (32 * length a) = int (uval a - uval b)"
    using assms(3) by (simp add: of_nat_diff mod_pos_pos_trivial)
  with uval_sub [OF assms(1,2)] show ?thesis by simp
qed

lemma length_uint_sub [simp]: "length a = length b \<Longrightarrow> length (uint_sub a b) = length b"
  by (simp add: uint_sub_def)

section \<open>Multiplication\<close>

lemma limb_product: "unat c + unat p + unat x * unat y < 2 ^ 64"
  if "unat c < 2 ^ 32" for c :: u64 and p x y :: u32
proof -
  have "unat x * unat y \<le> (2 ^ 32 - 1) * (2 ^ 32 - 1)"
    using limb_less [of x] limb_less [of y] by (intro mult_le_mono) simp_all
  moreover have "unat c + unat p \<le> 2 * (2 ^ 32 - 1)" using that limb_less [of p] by simp
  ultimately show ?thesis by simp
qed

lemma unat_limb_product:
  fixes c :: u64 and p x y :: u32
  assumes "unat c < 2 ^ 32"
  shows "unat (c + ucast p + ucast x * ucast y :: u64) = unat c + unat p + unat x * unat y"
proof -
  note b = limb_product [OF assms, of p x y]
  have "unat x * unat y < 2 ^ 64" using b by linarith
  then have "unat (ucast x * ucast y :: u64) = unat x * unat y"
    using unat_mult_lem [of "ucast x :: u64" "ucast y"] by simp
  then show ?thesis using b by (subst unat_add3) simp_all
qed

lemma limb_high_less: "unat (drop_bit 32 n) < 2 ^ 32" for n :: u64
  unfolding limb_high using unsigned_less [of n, where ?'a = nat] by simp

lemma uval_mul_row:
  assumes "length pn \<le> length b" "unat c < 2 ^ 32"
  shows "uval (uint_mul_row c a b pn) = (unat c + uval pn + unat a * uval b) mod 2 ^ (32 * length pn)"
  using assms
proof (induction pn arbitrary: b c)
  case (Cons x pn)
  then obtain y b' where b: "b = y # b'" by (cases b) auto
  let ?n = "c + ucast x + ucast a * ucast y :: u64"
  have n: "unat ?n = unat c + unat x + unat a * unat y" by (rule unat_limb_product [OF Cons.prems(2)])
  have "uval (uint_mul_row (drop_bit 32 ?n) a b' pn) =
      (unat ?n div 2 ^ 32 + (uval pn + unat a * uval b')) mod 2 ^ (32 * length pn)"
    using Cons b limb_high_less [of ?n] by (simp add: limb_high add.assoc)
  then have "uval (uint_mul_row c a b (x # pn)) =
      unat ?n mod 2 ^ 32 + 2 ^ 32 * ((unat ?n div 2 ^ 32 + (uval pn + unat a * uval b')) mod 2 ^ (32 * length pn))"
    unfolding b by (simp only: uint_mul_row.simps Let_def uval.simps limb_low)
  also have "\<dots> = (unat ?n + 2 ^ 32 * (uval pn + unat a * uval b')) mod (2 ^ 32 * 2 ^ (32 * length pn))"
    by (rule limb_step) simp
  finally show ?case unfolding n b by (simp add: power_add algebra_simps)
qed (cases b; simp)

lemma length_uint_mul_row: "length pn \<le> length b \<Longrightarrow> length (uint_mul_row c a b pn) = length pn"
  by (induction c a b pn rule: uint_mul_row.induct) (simp_all add: Let_def)

lemma uval_mul_loop:
  assumes "length a = length pn" "length pn \<le> length b"
  shows "uval (uint_mul_loop a b pn) = (uval pn + uval a * uval b) mod 2 ^ (32 * length pn) \<and>
    length (uint_mul_loop a b pn) = length pn"
  using assms
proof (induction a arbitrary: pn)
  case Nil
  then show ?case by simp
next
  case (Cons x a)
  define R where "R = uval (uint_mul_row 0 x b pn)"
  have "length (uint_mul_row 0 x b pn) = Suc (length a)" using Cons.prems by (simp add: length_uint_mul_row)
  then obtain y r where r: "uint_mul_row 0 x b pn = y # r" "length r = length a"
    by (cases "uint_mul_row 0 x b pn") auto
  have R: "R = (uval pn + unat x * uval b) mod 2 ^ (32 * length pn)"
    using Cons.prems by (simp add: uval_mul_row R_def)
  have y: "unat y = R mod 2 ^ 32" "uval r = R div 2 ^ 32" using r limb_less [of y] by (simp_all add: R_def)
  have IH: "uval (uint_mul_loop a b r) = (R div 2 ^ 32 + uval a * uval b) mod 2 ^ (32 * length a)"
    "length (uint_mul_loop a b r) = length a"
    using Cons.IH [of r] Cons.prems r(2) y(2) by auto
  have "uval (uint_mul_loop (x # a) b pn) =
      R mod 2 ^ 32 + 2 ^ 32 * ((R div 2 ^ 32 + uval a * uval b) mod 2 ^ (32 * length a))"
    using IH(1) y(1) r(1) by simp
  also have "\<dots> = (R + 2 ^ 32 * (uval a * uval b)) mod (2 ^ 32 * 2 ^ (32 * length a))"
    by (rule limb_step) simp
  also have "2 ^ 32 * 2 ^ (32 * length a) = (2 :: nat) ^ (32 * length pn)"
    using Cons.prems(1) by (metis length_Cons mult_Suc_right power_add)
  finally have "uval (uint_mul_loop (x # a) b pn) = (uval pn + unat x * uval b + 2 ^ 32 * (uval a * uval b)) mod 2 ^ (32 * length pn)"
    unfolding R by (simp only: mod_add_left_eq)
  then show ?case using IH(2) r Cons.prems by (simp add: algebra_simps)
qed

lemma length_uint_mul: "length a \<le> length b \<Longrightarrow> length (uint_mul a b) = length a"
  using uval_mul_loop [of a "replicate (length a) 0" b] by (simp add: uint_mul_def)

lemma uval_mul:
  "length a = length b \<Longrightarrow> uval (uint_mul a b) = (uval a * uval b) mod 2 ^ (32 * length a)"
  using uval_mul_loop [of a "replicate (length a) 0" b] by (simp add: uint_mul_def)

lemma uval_mul32: "uval (uint_mul32 a b) = (uval a * unat b) mod 2 ^ (32 * length a)"
proof -
  have "unat c < 2 ^ 32 \<Longrightarrow> uval (uint_mul32_loop c b a) = (unat c + uval a * unat b) mod 2 ^ (32 * length a)" for c
  proof (induction a arbitrary: c)
    case (Cons x a)
    let ?n = "c + ucast b * ucast x :: u64"
    have n: "unat ?n = unat c + unat b * unat x" using unat_limb_product [OF Cons.prems, of 0 b x] by simp
    have "uval (uint_mul32_loop c b (x # a)) =
        unat ?n mod 2 ^ 32 + 2 ^ 32 * ((unat ?n div 2 ^ 32 + uval a * unat b) mod 2 ^ (32 * length a))"
      using Cons.IH [OF limb_high_less [of ?n]] by (simp only: uint_mul32_loop.simps Let_def uval.simps limb_low limb_high)
    also have "\<dots> = (unat ?n + 2 ^ 32 * (uval a * unat b)) mod (2 ^ 32 * 2 ^ (32 * length a))"
      by (rule limb_step) simp
    finally show ?case unfolding n by (simp add: power_add algebra_simps)
  qed simp
  from this [of 0] show ?thesis by (simp add: uint_mul32_def)
qed

section \<open>Comparison\<close>

lemma uval_rev_Cons: "uval (rev (x # a)) = uval (rev a) + 2 ^ (32 * length a) * unat x"
  by (simp add: uval_append)

lemma CompareTo_loop_sgn:
  "length a = length b \<Longrightarrow> CompareTo_loop a b = sgn (int (uval (rev a)) - int (uval (rev b)))"
proof (induction a b rule: list_induct2)
  case (Cons x a y b)
  have l: "uval (rev a) < 2 ^ (32 * length a)" "uval (rev b) < 2 ^ (32 * length a)"
    using uval_less [of "rev a"] uval_less [of "rev b"] Cons.hyps by simp_all
  have less: "u + P * m < v + P * n" if "m < n" "u < P" for u v P m n :: nat
  proof -
    have "u + P * m < P * (m + 1)" using that(2) by simp
    also have "\<dots> \<le> P * n" using that(1) by (intro mult_le_mono2) simp
    finally show ?thesis by simp
  qed
  show ?case
  proof (cases x y rule: linorder_cases)
    case less
    then have "uval (rev (x # a)) < uval (rev (y # b))"
      unfolding uval_rev_Cons using \<open>length a = length b\<close> l
      by (simp only: word_less_nat_alt) (rule \<open>\<And>u v P m n. m < n \<Longrightarrow> u < P \<Longrightarrow> u + P * m < v + P * n\<close>)
    with less show ?thesis by simp
  next
    case equal
    then show ?thesis using Cons by (simp add: uval_append)
  next
    case greater
    then have "uval (rev (y # b)) < uval (rev (x # a))"
      unfolding uval_rev_Cons using \<open>length a = length b\<close> l
      by (simp only: word_less_nat_alt) (rule \<open>\<And>u v P m n. m < n \<Longrightarrow> u < P \<Longrightarrow> u + P * m < v + P * n\<close>)
    with greater show ?thesis by simp
  qed
qed simp

lemma CompareTo_sgn:
  "length a = length b \<Longrightarrow> CompareTo a b = sgn (int (uval a) - int (uval b))"
  using CompareTo_loop_sgn [of "rev a" "rev b"] by (simp add: CompareTo_def)

section \<open>Shifts\<close>

lemma uval_Cons_or: "uval (x # pn) = unat x OR push_bit 32 (uval pn)"
proof -
  have "unat x AND push_bit 32 (uval pn) = 0"
    by (rule bit_eqI) (auto simp: bit_simps dest: bit_imp_le_length)
  then show ?thesis by (simp add: disjunctive_add_eq_or [symmetric] push_bit_eq_mult)
qed

lemma bit_uval: "bit (uval pn) i \<longleftrightarrow> i < 32 * length pn \<and> bit (pn ! (i div 32)) (i mod 32)"
proof (induction pn arbitrary: i)
  case (Cons x pn)
  show ?case
  proof (cases "i < 32")
    case True
    then show ?thesis by (simp only: uval_Cons_or) (simp add: bit_simps)
  next
    case False
    then have "i div 32 = Suc ((i - 32) div 32)" "i mod 32 = (i - 32) mod 32" by (simp_all add: le_div_geq le_mod_geq)
    then show ?thesis
      using False Cons [of "i - 32"]
      by (simp only: uval_Cons_or) (auto simp: bit_simps dest: bit_imp_le_length)
  qed
qed simp

lemma uval_eqI:
  assumes "\<And>j r. j < length pn \<Longrightarrow> r < 32 \<Longrightarrow> bit (pn ! j) r \<longleftrightarrow> bit n (32 * j + r)"
  shows "uval pn = take_bit (32 * length pn) n"
proof (rule bit_eqI)
  fix i :: nat
  have i: "i = 32 * (i div 32) + i mod 32" "i mod 32 < 32" by simp_all
  show "bit (uval pn) i = bit (take_bit (32 * length pn) n) i"
  proof (cases "i < 32 * length pn")
    case True
    then have "i div 32 < length pn" by (simp add: less_mult_imp_div_less mult.commute)
    with assms [OF this i(2)] i(1) True show ?thesis by (simp add: bit_uval bit_take_bit_iff)
  qed (simp add: bit_uval bit_take_bit_iff)
qed

text \<open>What the loops have written after \<open>m\<close> rounds.\<close>

lemma length_shl_step [simp]: "length (shl_step a k s i pn) = length pn"
  by (simp add: shl_step_def Let_def)

lemma nth_shl_step:
  "length pn = length a \<Longrightarrow> j < length a \<Longrightarrow> shl_step a k s i pn ! j =
     pn ! j OR (if j = i + k then push_bit s (a ! i) else 0) OR
     (if j = i + k + 1 \<and> s \<noteq> 0 then drop_bit (32 - s) (a ! i) else 0)"
  by (auto simp: shl_step_def Let_def nth_list_update)

lemma shl_loop:
  fixes k s :: nat
  assumes "m \<le> length a"
  shows "length (fold (shl_step a k s) [0..<m] (replicate (length a) 0)) = length a \<and>
    (\<forall>j < length a. fold (shl_step a k s) [0..<m] (replicate (length a) 0) ! j =
      (if k \<le> j \<and> j - k < m then push_bit s (a ! (j - k)) else 0) OR
      (if k + 1 \<le> j \<and> j - k - 1 < m \<and> s \<noteq> 0 then drop_bit (32 - s) (a ! (j - k - 1)) else 0))"
  using assms
proof (induction m)
  case (Suc m)
  let ?p = "fold (shl_step a k s) [0..<m] (replicate (length a) 0)"
  have IH: "length ?p = length a" "\<And>j. j < length a \<Longrightarrow> ?p ! j =
      (if k \<le> j \<and> j - k < m then push_bit s (a ! (j - k)) else 0) OR
      (if k + 1 \<le> j \<and> j - k - 1 < m \<and> s \<noteq> 0 then drop_bit (32 - s) (a ! (j - k - 1)) else 0)"
    using Suc by auto
  have p: "fold (shl_step a k s) [0..<Suc m] (replicate (length a) 0) = shl_step a k s m ?p" by simp
  have "shl_step a k s m ?p ! j =
      (if k \<le> j \<and> j - k < Suc m then push_bit s (a ! (j - k)) else 0) OR
      (if k + 1 \<le> j \<and> j - k - 1 < Suc m \<and> s \<noteq> 0 then drop_bit (32 - s) (a ! (j - k - 1)) else 0)"
    if j: "j < length a" for j
  proof -
    have A: "(k \<le> j \<and> j - k < Suc m) = ((k \<le> j \<and> j - k < m) \<or> j = m + k)" by auto
    have B: "(k + 1 \<le> j \<and> j - k - 1 < Suc m \<and> s \<noteq> 0) =
        ((k + 1 \<le> j \<and> j - k - 1 < m \<and> s \<noteq> 0) \<or> (j = m + k + 1 \<and> s \<noteq> 0))" by auto
    show ?thesis unfolding nth_shl_step [OF IH(1) j] IH(2) [OF j] A B by (auto simp: or.assoc or.commute or.left_commute)
  qed
  then show ?case unfolding p using IH(1) by simp
qed simp

lemma bit_uint_shl:
  assumes "j < length a" "r < 32"
  shows "bit (uint_shl a s ! j) r \<longleftrightarrow> s \<le> 32 * j + r \<and> bit (uval a) (32 * j + r - s)"
proof -
  define k t where kt: "k = s div 32" "t = s mod 32"
  have s: "s = 32 * k + t" "t < 32" by (simp_all add: kt)
  have e: "uint_shl a s ! j = (if k \<le> j then push_bit t (a ! (j - k)) else 0) OR
      (if k + 1 \<le> j \<and> t \<noteq> 0 then drop_bit (32 - t) (a ! (j - k - 1)) else 0)"
    using shl_loop [of "length a" a k t] assms(1) by (auto simp: uint_shl_def kt)
  show ?thesis
  proof (cases "t \<le> r")
    case True
    have "bit (uint_shl a s ! j) r \<longleftrightarrow> k \<le> j \<and> bit (a ! (j - k)) (r - t)"
      unfolding e using True assms(2) s(2) by (auto simp: bit_simps dest: bit_imp_le_length)
    also have "\<dots> \<longleftrightarrow> s \<le> 32 * j + r \<and> bit (uval a) (32 * j + r - s)"
    proof (cases "k \<le> j")
      case True
      have i: "32 * j + r - s = 32 * (j - k) + (r - t)" using True \<open>t \<le> r\<close> s(1) by (simp add: algebra_simps)
      have "(32 * j + r - s) div 32 = j - k" "(32 * j + r - s) mod 32 = r - t"
        unfolding i using assms(2) by simp_all
      moreover have "32 * j + r - s < 32 * length a" using assms by simp
      moreover have "s \<le> 32 * j + r" using True \<open>t \<le> r\<close> s(1) by linarith
      ultimately show ?thesis using True by (simp add: bit_uval)
    next
      case False
      then have "32 * (j + 1) \<le> 32 * k" by simp
      then have "\<not> s \<le> 32 * j + r" using assms(2) s(1) by simp
      with False show ?thesis by simp
    qed
    finally show ?thesis .
  next
    case False
    have "bit (uint_shl a s ! j) r \<longleftrightarrow> k + 1 \<le> j \<and> bit (a ! (j - k - 1)) (32 + r - t)"
      unfolding e using False assms(2) s(2) by (auto simp: bit_simps add.commute)
    also have "\<dots> \<longleftrightarrow> s \<le> 32 * j + r \<and> bit (uval a) (32 * j + r - s)"
    proof (cases "k + 1 \<le> j")
      case True
      have i: "32 * j + r - s = 32 * (j - k - 1) + (32 + r - t)" using True False s by (simp add: algebra_simps)
      have "32 + r - t < 32" using False s(2) by linarith
      then have "(32 * j + r - s) div 32 = j - k - 1" "(32 * j + r - s) mod 32 = 32 + r - t"
        unfolding i by simp_all
      moreover have "32 * j + r - s < 32 * length a" using assms by simp
      moreover have "s \<le> 32 * j + r" using True False s by linarith
      ultimately show ?thesis using True by (simp add: bit_uval)
    next
      case k: False
      then have "\<not> s \<le> 32 * j + r" using s(1) assms(2) False by linarith
      with k show ?thesis by simp
    qed
    finally show ?thesis .
  qed
qed

lemma length_uint_shl [simp]: "length (uint_shl a s) = length a"
  using shl_loop [of "length a" a "s div 32" "s mod 32"] by (simp add: uint_shl_def)

lemma uval_shl: "uval (uint_shl a s) = (uval a * 2 ^ s) mod 2 ^ (32 * length a)"
proof -
  have "uval (uint_shl a s) = take_bit (32 * length (uint_shl a s)) (push_bit s (uval a))"
    by (rule uval_eqI) (simp add: bit_uint_shl bit_push_bit_iff)
  then show ?thesis by (simp add: take_bit_eq_mod push_bit_eq_mult)
qed

lemma length_shr_step [simp]: "length (shr_step a k s i pn) = length pn"
  by (simp add: shr_step_def Let_def)

lemma nth_shr_step:
  "length pn = length a \<Longrightarrow> j < length a \<Longrightarrow> i < length a \<Longrightarrow> shr_step a k s i pn ! j =
     pn ! j OR (if i = j + k then drop_bit s (a ! i) else 0) OR
     (if i = j + k + 1 \<and> s \<noteq> 0 then push_bit (32 - s) (a ! i) else 0)"
  by (auto simp: shr_step_def Let_def nth_list_update)

lemma shr_loop:
  fixes k s :: nat
  assumes "m \<le> length a"
  shows "length (fold (shr_step a k s) [0..<m] (replicate (length a) 0)) = length a \<and>
    (\<forall>j < length a. fold (shr_step a k s) [0..<m] (replicate (length a) 0) ! j =
      (if j + k < m then drop_bit s (a ! (j + k)) else 0) OR
      (if j + k + 1 < m \<and> s \<noteq> 0 then push_bit (32 - s) (a ! (j + k + 1)) else 0))"
  using assms
proof (induction m)
  case (Suc m)
  let ?p = "fold (shr_step a k s) [0..<m] (replicate (length a) 0)"
  have IH: "length ?p = length a" "\<And>j. j < length a \<Longrightarrow> ?p ! j =
      (if j + k < m then drop_bit s (a ! (j + k)) else 0) OR
      (if j + k + 1 < m \<and> s \<noteq> 0 then push_bit (32 - s) (a ! (j + k + 1)) else 0)"
    using Suc by auto
  have p: "fold (shr_step a k s) [0..<Suc m] (replicate (length a) 0) = shr_step a k s m ?p" by simp
  have "shr_step a k s m ?p ! j =
      (if j + k < Suc m then drop_bit s (a ! (j + k)) else 0) OR
      (if j + k + 1 < Suc m \<and> s \<noteq> 0 then push_bit (32 - s) (a ! (j + k + 1)) else 0)"
    if j: "j < length a" for j
  proof -
    have A: "(j + k < Suc m) = (j + k < m \<or> m = j + k)" by auto
    have B: "(j + k + 1 < Suc m \<and> s \<noteq> 0) = ((j + k + 1 < m \<and> s \<noteq> 0) \<or> (m = j + k + 1 \<and> s \<noteq> 0))" by auto
    have m: "m < length a" using Suc.prems by simp
    show ?thesis unfolding nth_shr_step [OF IH(1) j m] IH(2) [OF j] A B by (auto simp: or.assoc or.commute or.left_commute)
  qed
  then show ?case unfolding p using IH(1) by simp
qed simp

lemma divmod32: "v < 32 \<Longrightarrow> (32 * u + v) div 32 = u" "v < 32 \<Longrightarrow> (32 * u + v) mod 32 = v"
  "v < 32 \<Longrightarrow> 32 * u + v < 32 * n \<longleftrightarrow> u < n" for u v n :: nat
  by (simp, simp, presburger)

lemma bit_uint_shr:
  assumes "j < length a" "r < 32"
  shows "bit (uint_shr a s ! j) r \<longleftrightarrow> bit (uval a) (32 * j + r + s)"
proof -
  let ?n = "length a"
  define k t where kt: "k = s div 32" "t = s mod 32"
  have s: "s = 32 * k + t" "t < 32" by (simp_all add: kt)
  have e: "uint_shr a s ! j = (if j + k < ?n then drop_bit t (a ! (j + k)) else 0) OR
      (if j + k + 1 < ?n \<and> t \<noteq> 0 then push_bit (32 - t) (a ! (j + k + 1)) else 0)"
    using shr_loop [of ?n a k t] assms(1) by (auto simp: uint_shr_def kt)
  show ?thesis
  proof (cases "r + t < 32")
    case True
    have i: "32 * j + r + s = 32 * (j + k) + (r + t)" using s(1) by (simp add: algebra_simps)
    have d: "(32 * j + r + s) div 32 = j + k" "(32 * j + r + s) mod 32 = r + t"
      unfolding i by (rule divmod32 [OF True])+
    have l: "32 * j + r + s < 32 * ?n \<longleftrightarrow> j + k < ?n" unfolding i by (rule divmod32 [OF True])
    have "bit (uint_shr a s ! j) r \<longleftrightarrow> j + k < ?n \<and> bit (a ! (j + k)) (r + t)"
      unfolding e using True assms(2) by (auto simp: bit_simps add.commute)
    then show ?thesis by (simp add: bit_uval d l)
  next
    case False
    have i: "32 * j + r + s = 32 * (j + k + 1) + (r + t - 32)" using s(1) False by (simp add: algebra_simps)
    have b: "r + t - 32 < 32" using assms(2) s(2) by linarith
    have d: "(32 * j + r + s) div 32 = j + k + 1" "(32 * j + r + s) mod 32 = r + t - 32"
      unfolding i by (rule divmod32 [OF b])+
    have l: "32 * j + r + s < 32 * ?n \<longleftrightarrow> j + k + 1 < ?n" unfolding i by (rule divmod32 [OF b])
    have "r - (32 - t) = r + t - 32" using False s(2) by simp
    then have "bit (uint_shr a s ! j) r \<longleftrightarrow> j + k + 1 < ?n \<and> bit (a ! (j + k + 1)) (r + t - 32)"
      unfolding e using False assms(2) by (auto simp: bit_simps dest: bit_imp_le_length)
    then show ?thesis by (simp add: bit_uval d l)
  qed
qed

lemma length_uint_shr [simp]: "length (uint_shr a s) = length a"
  using shr_loop [of "length a" a "s div 32" "s mod 32"] by (simp add: uint_shr_def)

lemma uval_shr: "uval (uint_shr a s) = uval a div 2 ^ s"
proof -
  have "uval (uint_shr a s) = take_bit (32 * length (uint_shr a s)) (drop_bit s (uval a))"
    by (rule uval_eqI) (simp add: bit_uint_shr bit_drop_bit_eq add.commute)
  also have "\<dots> = drop_bit s (uval a)"
    using le_less_trans [OF div_le_dividend uval_less [of a], of "2 ^ s"]
    by (intro take_bit_nat_eq_self) (simp add: drop_bit_eq_div)
  finally show ?thesis by (simp add: drop_bit_eq_div)
qed

section \<open>Bits and division\<close>

lemma limb_bits_bounds:
  assumes "x \<noteq> 0" "unat x < 2 ^ Suc b" "b < 32"
  shows "2 ^ (limb_bits b x - 1) \<le> unat x \<and> unat x < 2 ^ limb_bits b x \<and> 1 \<le> limb_bits b x"
  using assms
proof (induction b)
  case 0
  then show ?case using unat_gt_0 [of x] by simp
next
  case (Suc b)
  have p: "x AND push_bit (Suc b) 1 \<noteq> 0 \<longleftrightarrow> bit x (Suc b)" by (simp add: bit_iff_and_push_bit_not_eq_0)
  have "bit x (Suc b) \<longleftrightarrow> odd (unat x div 2 ^ Suc b)"
    using bit_unsigned_iff [of x "Suc b", where ?'a = nat] Suc.prems(3) by (auto simp: bit_iff_odd)
  moreover have "unat x div 2 ^ Suc b < 2" using Suc.prems(2) by (simp add: less_mult_imp_div_less)
  then have "unat x div 2 ^ Suc b = 0 \<or> unat x div 2 ^ Suc b = 1" by linarith
  ultimately have b: "bit x (Suc b) \<longleftrightarrow> 2 ^ Suc b \<le> unat x"
    by (metis One_nat_def div_eq_0_iff even_zero not_le odd_one power_not_zero zero_neq_numeral)
  show ?case
  proof (cases "bit x (Suc b)")
    case True
    then show ?thesis using p b Suc.prems(2) by simp
  next
    case False
    then show ?thesis using p b Suc by simp
  qed
qed

lemma bits_loop_bounds:
  "uval (rev pn) < 2 ^ bits_loop pn \<and>
   (uval (rev pn) \<noteq> 0 \<longrightarrow> 1 \<le> bits_loop pn \<and> 2 ^ (bits_loop pn - 1) \<le> uval (rev pn)) \<and>
   (uval (rev pn) = 0 \<longleftrightarrow> bits_loop pn = 0)"
proof (induction pn)
  case (Cons x pn)
  show ?case
  proof (cases "x = 0")
    case True
    then show ?thesis using Cons by (auto simp: uval_append)
  next
    case False
    let ?P = "2 ^ (32 * length pn) :: nat" and ?b = "limb_bits 31 x"
    have b: "2 ^ (?b - 1) \<le> unat x" "unat x < 2 ^ ?b" "1 \<le> ?b"
      using limb_bits_bounds [OF False, of 31] limb_less [of x] by auto
    have v: "uval (rev (x # pn)) = uval (rev pn) + ?P * unat x" by (rule uval_rev_Cons)
    have "uval (rev pn) + ?P * unat x < ?P * (unat x + 1)" using uval_less [of "rev pn"] by simp
    also have "\<dots> \<le> ?P * 2 ^ ?b" using b(2) by (intro mult_le_mono2) simp
    finally have u: "uval (rev (x # pn)) < 2 ^ (32 * length pn + ?b)" using v by (simp add: power_add)
    have "?P * 2 ^ (?b - 1) \<le> ?P * unat x" using b(1) by (rule mult_le_mono2)
    then have "2 ^ (32 * length pn + (?b - 1)) \<le> uval (rev (x # pn))"
      unfolding v power_add by (rule trans_le_add2)
    moreover have "32 * length pn + (?b - 1) = 32 * length pn + ?b - 1" using b(3) by simp
    moreover have "0 < uval (rev (x # pn))" using calculation(1) by (metis less_le_trans zero_less_numeral zero_less_power)
    ultimately show ?thesis using False u b(3) by simp
  qed
qed simp

lemma uint_bits_bounds:
  "uval pn < 2 ^ uint_bits pn" "uval pn \<noteq> 0 \<Longrightarrow> 2 ^ (uint_bits pn - 1) \<le> uval pn"
  "uint_bits pn = 0 \<longleftrightarrow> uval pn = 0"
  using bits_loop_bounds [of "rev pn"] by (auto simp: uint_bits_def)

lemma uval_set_bit:
  assumes "i < 32 * length pn" "\<not> bit (uval pn) i"
  shows "uval (pn[i div 32 := pn ! (i div 32) OR push_bit (i mod 32) 1]) = uval pn + 2 ^ i"
proof -
  let ?p = "pn[i div 32 := pn ! (i div 32) OR push_bit (i mod 32) 1]"
  have l: "i div 32 < length pn" using assms(1) by (simp add: less_mult_imp_div_less mult.commute)
  have "uval pn AND 2 ^ i = 0" using assms(2) by (intro bit_eqI) (auto simp: bit_simps)
  then have "uval pn + 2 ^ i = uval pn OR 2 ^ i" by (simp add: disjunctive_add_eq_or)
  moreover have "bit (uval ?p) n = bit (uval pn OR 2 ^ i) n" for n
  proof -
    have "n = i \<longleftrightarrow> n div 32 = i div 32 \<and> n mod 32 = i mod 32" by (metis div_mult_mod_eq)
    then show ?thesis
      using assms(1) l by (auto simp: bit_uval bit_simps nth_list_update less_mult_imp_div_less)
  qed
  ultimately show ?thesis by (metis bit_eqI)
qed

text \<open>
  The invariant of the division: what has been subtracted is the quotient's bits, and what is
  left is below the divisor at the next position.
\<close>

lemma uval_div_loop:
  assumes "length num = w" "length dv = w" "length pn = w" "0 < w" "0 < D"
    and "uval dv = (if n = 0 then uval dv else D * 2 ^ (n - 1))" "n \<le> 32 * w"
    and "uval num < D * 2 ^ n" "2 ^ n dvd uval pn" "uval pn < 2 ^ (32 * w)"
  shows "uval (uint_div_loop n num dv pn) = uval pn + uval num div D \<and> length (uint_div_loop n num dv pn) = w"
  using assms
proof (induction n arbitrary: num dv pn)
  case (Suc n)
  let ?d = "D * 2 ^ n"
  have d: "uval dv = ?d" using Suc.prems(6) by simp
  have d': "uval (uint_shr dv 1) = (if n = 0 then uval (uint_shr dv 1) else D * 2 ^ (n - 1))"
    by (cases n) (simp_all add: uval_shr d)
  have nz: "num \<noteq> []" using Suc.prems by auto
  have n: "n < 32 * w" using Suc.prems(7) by simp
  have "CompareTo num dv \<ge> 0 \<longleftrightarrow> uval dv \<le> uval num"
    using CompareTo_sgn [of num dv] Suc.prems(1,2) by (simp add: sgn_if)
  then have c: "CompareTo num dv \<ge> 0 \<longleftrightarrow> ?d \<le> uval num" unfolding d .
  have dvd: "2 ^ n dvd uval pn" using Suc.prems(9) by (metis dvd_mult_left power_Suc2)
  show ?case
  proof (cases "?d \<le> uval num")
    case True
    let ?num = "uint_sub num dv" and ?pn = "pn[n div 32 := pn ! (n div 32) OR push_bit (n mod 32) 1]"
    have s: "uval ?num = uval num - ?d"
      using uval_sub_le [of num dv] Suc.prems(1,2) True nz unfolding d by simp
    have "\<not> bit (uval pn) n"
      using Suc.prems(9) by (auto simp: bit_iff_odd dvd_def)
    then have q: "uval ?pn = uval pn + 2 ^ n" using n Suc.prems(3) by (intro uval_set_bit) simp_all
    have "uval (uint_div_loop n ?num (uint_shr dv 1) ?pn) = uval ?pn + uval ?num div D \<and>
        length (uint_div_loop n ?num (uint_shr dv 1) ?pn) = w"
    proof (rule Suc.IH)
      show "uval ?num < D * 2 ^ n" using Suc.prems(8) s True by simp
      show "2 ^ n dvd uval ?pn" unfolding q using dvd by simp
      show "uval ?pn < 2 ^ (32 * w)" using uval_less [of ?pn] Suc.prems(3) by simp
    qed (use Suc.prems d' n in simp_all)
    moreover have "uval num div D = 2 ^ n + uval ?num div D"
    proof -
      have "uval num = uval ?num + D * 2 ^ n" using s True by simp
      then show ?thesis using Suc.prems(5) by (metis add.commute div_mult_self2 not_gr_zero)
    qed
    ultimately show ?thesis using True c q by (simp add: Let_def)
  next
    case False
    have "uval (uint_div_loop n num (uint_shr dv 1) pn) = uval pn + uval num div D \<and>
        length (uint_div_loop n num (uint_shr dv 1) pn) = w"
      using False d' n dvd Suc.prems by (intro Suc.IH) simp_all
    then show ?thesis using False c by (simp add: Let_def)
  qed
qed simp

lemma uval_div:
  assumes "length a = length b" "a \<noteq> []"
  shows "uint_div a b = None \<longleftrightarrow> uval b = 0"
    and "uint_div a b = Some q \<Longrightarrow> uval q = uval a div uval b \<and> length q = length a"
proof -
  let ?s = "uint_bits a - uint_bits b"
  note ba = uint_bits_bounds [of a] and bb = uint_bits_bounds [of b]
  show "uint_div a b = None \<longleftrightarrow> uval b = 0" using bb(3) by (auto simp: uint_div_def Let_def)
  assume q: "uint_div a b = Some q"
  then have b: "uval b \<noteq> 0" using bb(3) by (auto simp: uint_div_def Let_def split: if_splits)
  show "uval q = uval a div uval b \<and> length q = length a"
  proof (cases "uint_bits b > uint_bits a")
    case True
    then have "(2 :: nat) ^ uint_bits a \<le> 2 ^ (uint_bits b - 1)" by (intro power_increasing) simp_all
    then have "uval a < uval b" using ba(1) bb(2) [OF b] by linarith
    then show ?thesis using q True b bb(3) by (auto simp: uint_div_def Let_def split: if_splits)
  next
    case False
    have q': "q = uint_div_loop (?s + 1) a (uint_shl b ?s) (replicate (length a) 0)"
      using q False bb(3) b by (auto simp: uint_div_def Let_def split: if_splits)
    have an: "uval a \<noteq> 0" using False ba(3) bb(3) b by auto
    have pa: "uint_bits a \<le> 32 * length a"
    proof (rule ccontr)
      assume "\<not> uint_bits a \<le> 32 * length a"
      then have "(2 :: nat) ^ (32 * length a) \<le> 2 ^ (uint_bits a - 1)" by (intro power_increasing) simp_all
      then show False using ba(2) [OF an] uval_less [of a] by linarith
    qed
    have e: "uint_bits b + ?s = uint_bits a" using False by simp
    have "uval b * 2 ^ ?s < 2 ^ uint_bits b * 2 ^ ?s" using bb(1) by simp
    also have "\<dots> = 2 ^ uint_bits a" by (simp only: power_add [symmetric] e)
    also have "\<dots> \<le> 2 ^ (32 * length b)" using pa assms(1) by (intro power_increasing) simp_all
    finally have sh: "uval (uint_shl b ?s) = uval b * 2 ^ ?s" by (simp add: uval_shl)
    have "uval a < 2 ^ uint_bits a" by (rule ba(1))
    also have "\<dots> = 2 ^ (uint_bits b - 1) * 2 ^ (?s + 1)"

    proof -
      have "uint_bits b - 1 + (?s + 1) = uint_bits a" using e b bb(3) by simp
      then show ?thesis by (simp only: power_add [symmetric])
    qed
    also have "\<dots> \<le> uval b * 2 ^ (?s + 1)" using bb(2) [OF b] by simp
    finally have lt: "uval a < uval b * 2 ^ (?s + 1)" .
    have "?s + 1 \<le> 32 * length a" using pa e b bb(3) by simp
    then have "uval q = uval (replicate (length a) 0) + uval a div uval b \<and> length q = length a"
      unfolding q' using assms b sh lt by (intro uval_div_loop) (auto simp: mult.assoc)
    then show ?thesis by simp
  qed
qed

section \<open>The compact form is a truncation\<close>

lemma uval_of_u64: "uval (uint_of_u64 w b) = unat b"
proof -
  have "unat (ucast b :: u32) = unat b mod 2 ^ 32"
    by (simp only: unsigned_ucast_eq take_bit_eq_mod) simp
  moreover have "unat (ucast (drop_bit 32 b) :: u32) = unat b div 2 ^ 32"
    using limb_high_less [of b] by (simp only: unsigned_ucast_eq take_bit_nat_eq_self limb_high) (simp add: limb_high take_bit_nat_eq_self)
  ultimately show ?thesis by (simp add: uint_of_u64_def)
qed

lemma length_uint_of_u64 [simp]: "2 \<le> w \<Longrightarrow> length (uint_of_u64 w b) = w"
  by (simp add: uint_of_u64_def)

lemma unat_and_mask: "unat (c AND 0x007fffff) = unat c mod 2 ^ 23" for c :: u32
proof -
  have "c AND 0x007fffff = take_bit 23 c" by (simp add: take_bit_eq_mask mask_eq_exp_minus_1)
  then show ?thesis by (simp only: unsigned_take_bit_eq) (simp add: take_bit_eq_mod)
qed

lemma unat_drop_bit_u32: "unat (drop_bit k c) = unat c div 2 ^ k" for c :: u32
  by (simp only: unsigned_drop_bit_eq take_bit_nat_eq_self [OF unsigned_less]) (simp add: drop_bit_eq_div)

text \<open>The exponent and the mantissa of a compact number, and the value they stand for.\<close>

definition compact_value :: "nat \<Rightarrow> nat \<Rightarrow> nat" where
  "compact_value s m = (if s \<le> 3 then m div 256 ^ (3 - s) else m * 256 ^ (s - 3))"

lemma SetCompact_value:
  fixes nCompact :: u32
  defines "s \<equiv> unat nCompact div 2 ^ 24" and "m \<equiv> unat nCompact mod 2 ^ 23"
  shows "uval (fst (SetCompact nCompact)) = compact_value s m mod 2 ^ 256"
    and "length (fst (SetCompact nCompact)) = WIDTH"
proof -
  have p: "(2 :: nat) ^ (8 * k) = 256 ^ k" for k by (simp add: power_mult)
  define w where "w = nCompact AND 0x007fffff"
  have w: "unat w = m" by (simp add: w_def unat_and_mask m_def)
  have s: "unat (drop_bit 24 nCompact) = s" by (simp only: unat_drop_bit_u32 s_def)
  show "uval (fst (SetCompact nCompact)) = compact_value s m mod 2 ^ 256"
  proof (cases "s \<le> 3")
    case True
    have "m div 256 ^ (3 - s) < 2 ^ 256"
      by (rule le_less_trans [OF div_le_dividend]) (simp add: m_def less_imp_le mod_less_divisor [THEN less_trans])
    moreover have "uval (fst (SetCompact nCompact)) = unat (drop_bit (8 * (3 - s)) w)"
      unfolding SetCompact_def Let_def fst_conv s w_def [symmetric] using True by (simp add: uval_of_u64)
    ultimately show ?thesis using True by (simp only: unat_drop_bit_u32 w p compact_value_def if_True mod_less)
  next
    case False
    have "uval (fst (SetCompact nCompact)) = uval (uint_shl (uint_of_u64 WIDTH (ucast w)) (8 * (s - 3)))"
      unfolding SetCompact_def Let_def fst_conv s w_def [symmetric] using False by simp
    then show ?thesis using False by (simp only: uval_shl uval_of_u64 unat_ucast_64 w p compact_value_def) simp
  qed
  show "length (fst (SetCompact nCompact)) = WIDTH" by (simp add: SetCompact_def Let_def)
qed

lemma unat_GetLow64:
  assumes "2 \<le> length pn"
  shows "unat (GetLow64 pn) = uval pn mod 2 ^ 64"
proof -
  obtain a b r where pn: "pn = a # b # r" using assms by (metis Suc_le_length_iff numeral_2_eq_2)
  have "unat (GetLow64 pn) = uval [a, b]"
    unfolding uval_Cons_or by (rule bit_eqI) (auto simp: pn GetLow64_def bit_simps dest: bit_imp_le_length)
  also have "uval [a, b] = uval pn mod 2 ^ 64"
    using uval_less [of "[a, b]"] by (simp add: pn) (metis (no_types, opaque_lifting) add.assoc mod_less mod_mult_self2)
  finally show ?thesis .
qed

text \<open>
  The digits of the compact form: the number scaled so that its three leading bytes are the
  integer part. A pair \<open>s\<close>, \<open>m\<close> represents a number when the mantissa is its scaled value and
  neither has a leading zero byte nor the sign bit.
\<close>

definition compact_scale :: "nat \<Rightarrow> nat \<Rightarrow> nat" where
  "compact_scale x s = (if s \<le> 3 then x * 256 ^ (3 - s) else x div 256 ^ (s - 3))"

definition compact_rep :: "nat \<Rightarrow> nat \<Rightarrow> nat \<Rightarrow> bool" where
  "compact_rep x s m \<longleftrightarrow> m = compact_scale x s \<and> (if x = 0 then s = 0 else 2 ^ 15 \<le> m \<and> m < 2 ^ 23)"

lemma compact_scale_bounds:
  "a * 256 ^ s \<le> x * 2 ^ 24 \<longleftrightarrow> a \<le> compact_scale x s"
  "x * 2 ^ 24 < a * 256 ^ s \<longleftrightarrow> compact_scale x s < a"
proof -
  show "a * 256 ^ s \<le> x * 2 ^ 24 \<longleftrightarrow> a \<le> compact_scale x s"
  proof (cases "s \<le> 3")
    case True
    have "x * 2 ^ 24 = x * 256 ^ (3 - s) * 256 ^ s"
      using True by (simp add: mult.assoc power_add [symmetric])
    then have "a * 256 ^ s \<le> x * 2 ^ 24 \<longleftrightarrow> a * 256 ^ s \<le> x * 256 ^ (3 - s) * 256 ^ s" by (simp only:)
    then show ?thesis using True by (simp only: compact_scale_def if_True mult_le_cancel2) simp
  next
    case False
    have "a * 256 ^ s = a * 256 ^ (s - 3) * 2 ^ 24"
      using False power_add [of "256 :: nat" "s - 3" 3] by simp
    then have "a * 256 ^ s \<le> x * 2 ^ 24 \<longleftrightarrow> a * 256 ^ (s - 3) * 2 ^ 24 \<le> x * 2 ^ 24" by (simp only:)
    then show ?thesis using False
      by (simp only: compact_scale_def if_False mult_le_cancel2) (simp add: less_eq_div_iff_mult_less_eq)
  qed
  then show "x * 2 ^ 24 < a * 256 ^ s \<longleftrightarrow> compact_scale x s < a" by (meson not_less)
qed

lemma compact_scale_Suc: "compact_scale x (Suc s) = compact_scale x s div 256"
proof (cases "s < 3")
  case True
  then have "(256 :: nat) ^ (3 - s) = 256 ^ (3 - Suc s) * 256"
    by (metis Suc_diff_Suc power_Suc2)
  then show ?thesis using True by (simp add: compact_scale_def)
next
  case False
  then have "(256 :: nat) ^ (Suc s - 3) = 256 ^ (s - 3) * 256"
    by (metis Suc_diff_le linorder_not_less power_Suc2)
  then show ?thesis using False by (auto simp: compact_scale_def div_mult2_eq)
qed

lemma compact_rep_unique:
  assumes "compact_rep x s m" "compact_rep x s' m'"
  shows "s = s' \<and> m = m'"
proof (cases "x = 0")
  case False
  have *: "\<not> s < s'" if "compact_rep x s m" "compact_rep x s' m'" for s m s' m'
  proof
    assume "s < s'"
    then have "(256 :: nat) ^ Suc s \<le> 256 ^ s'" by (intro power_increasing) simp_all
    then have "2 ^ 23 * 256 ^ s \<le> 2 ^ 15 * (256 :: nat) ^ s'" by simp
    also have "\<dots> \<le> x * 2 ^ 24" using that False by (simp only: compact_scale_bounds compact_rep_def) simp
    also have "\<dots> < 2 ^ 23 * 256 ^ s" using that False by (simp only: compact_scale_bounds compact_rep_def) simp
    finally show False by simp
  qed
  have "s = s'" using * [OF assms] * [OF assms(2) assms(1)] by simp
  then show ?thesis using assms by (simp add: compact_rep_def)
qed (use assms in \<open>simp add: compact_rep_def\<close>)

lemma compact_value_scale:
  "compact_value s (compact_scale x s) \<le> x"
  "s \<le> 3 \<Longrightarrow> compact_value s (compact_scale x s) = x"
  by (simp_all add: compact_value_def compact_scale_def)

lemma compact_value_close:
  assumes "compact_rep x s m"
  shows "2 ^ 15 * (x - compact_value s m) \<le> x"
proof (cases "s \<le> 3 \<or> x = 0")
  case False
  then have m: "m = x div 256 ^ (s - 3)" "2 ^ 15 \<le> m" "compact_value s m = m * 256 ^ (s - 3)"
    using assms by (auto simp: compact_rep_def compact_scale_def compact_value_def)
  have "x - compact_value s m = x mod 256 ^ (s - 3)" by (simp add: m(3)) (simp add: m(1) minus_div_mult_eq_mod)
  also have "\<dots> \<le> 256 ^ (s - 3)" by (simp add: less_imp_le)
  finally have "2 ^ 15 * (x - compact_value s m) \<le> m * 256 ^ (s - 3)" using m(2) by (intro mult_le_mono)
  also have "\<dots> \<le> x" by (simp add: m(1))
  finally show ?thesis .
qed (use assms in \<open>auto simp: compact_rep_def compact_value_scale\<close>)

lemma compact_value_rep:
  assumes "compact_rep x s m"
  shows "compact_rep (compact_value s m) s m"
proof (cases "s \<le> 3")
  case True
  then show ?thesis using assms compact_value_scale(2) [OF True, of x] by (auto simp: compact_rep_def)
next
  case False
  then show ?thesis using assms
    by (auto simp: compact_rep_def compact_value_def compact_scale_def split: if_splits)
qed


lemma bit23: "c AND 0x00800000 \<noteq> 0 \<longleftrightarrow> 2 ^ 23 \<le> unat c" if "unat c < 2 ^ 24" for c :: u32
proof -
  have "c AND 0x00800000 \<noteq> 0 \<longleftrightarrow> bit c 23"
    using and_exp_eq_0_iff_not_bit [of c 23] by simp
  also have "\<dots> \<longleftrightarrow> odd (unat c div 2 ^ 23)" 
    using bit_iff_odd [of "unat c" 23] by (simp add: bit_unsigned_iff)
  also have "\<dots> \<longleftrightarrow> 2 ^ 23 \<le> unat c"
  proof (cases "2 ^ 23 \<le> unat c")
    case True
    then have "unat c div 2 ^ 23 = 1" using that by (intro div_nat_eqI) simp_all
    then show ?thesis using True by simp
  qed simp
  finally show ?thesis .
qed

lemma and_not_mask: "c AND NOT 0x007fffff = 0" if "unat c < 2 ^ 23" for c :: u32
proof -
  have "take_bit 23 c = c" using that
    by (intro unsigned_word_eqI [where ?'a = nat]) (simp add: unsigned_take_bit_eq take_bit_nat_eq_self)
  then have "c = c AND mask 23" by (simp add: take_bit_eq_mask)
  moreover have "(c AND mask 23) AND NOT 0x007fffff = c AND (mask 23 AND NOT 0x007fffff)"
    by (simp only: and.assoc)
  moreover have "mask 23 AND NOT 0x007fffff = (0 :: u32)" by (simp add: mask_eq_exp_minus_1)
  ultimately show ?thesis by (metis and_zero_eq)
qed

lemma unat_or_size:
  assumes "unat c < 2 ^ 24" "s < 256"
  shows "unat (c OR push_bit 24 (word_of_nat s :: u32)) = s * 2 ^ 24 + unat c"
proof -
  have "push_bit 24 (word_of_nat s :: u32) = word_of_nat (s * 2 ^ 24)" by (simp add: push_bit_eq_mult)
  then have s: "unat (push_bit 24 (word_of_nat s :: u32)) = push_bit 24 s"
    using assms(2) by (simp only: unat_of_nat push_bit_eq_mult) simp
  have c: "take_bit 24 (unat c) = unat c" using assms(1) by (simp add: take_bit_nat_eq_self)
  have "unat c AND push_bit 24 s = 0"
    by (subst c [symmetric], rule bit_eqI) (auto simp: bit_simps)
  then have "unat c OR push_bit 24 s = unat c + push_bit 24 s" by (rule disjunctive_add_eq_or [symmetric])
  then show ?thesis by (simp only: unsigned_or_eq s) (simp add: push_bit_eq_mult)
qed


text \<open>The size in bytes frames the number.\<close>

lemma size_bounds:
  fixes pn :: base_uint
  defines "s \<equiv> (uint_bits pn + 7) div 8"
  shows "compact_scale (uval pn) s < 2 ^ 24"
    and "uval pn \<noteq> 0 \<Longrightarrow> 2 ^ 16 \<le> compact_scale (uval pn) s"
    and "uval pn = 0 \<Longrightarrow> s = 0"
proof -
  have p: "(256 :: nat) ^ k = 2 ^ (8 * k)" for k by (simp add: power_mult)
  have "uval pn < 2 ^ uint_bits pn" by (rule uint_bits_bounds)
  also have "\<dots> \<le> 256 ^ s" unfolding p s_def by (intro power_increasing) presburger+
  finally show "compact_scale (uval pn) s < 2 ^ 24" unfolding compact_scale_bounds(2) [symmetric] by simp
  show "2 ^ 16 \<le> compact_scale (uval pn) s" if "uval pn \<noteq> 0"
  proof -
    have "0 < uint_bits pn" using that uint_bits_bounds(3) [of pn] by simp
    then have "16 + 8 * s \<le> uint_bits pn - 1 + 24" unfolding s_def by presburger
    then have "(2 :: nat) ^ (16 + 8 * s) \<le> 2 ^ (uint_bits pn - 1 + 24)" by (intro power_increasing) simp_all
    also have "\<dots> \<le> uval pn * 2 ^ 24" using uint_bits_bounds(2) [OF that] by (simp add: power_add)
    finally show ?thesis unfolding compact_scale_bounds(1) [symmetric] p power_add .
  qed
  show "s = 0" if "uval pn = 0" using that uint_bits_bounds(3) [of pn] by (simp add: s_def)
qed

text \<open>The first three bytes as the code computes them.\<close>

definition compact_word :: "base_uint \<Rightarrow> nat \<Rightarrow> u32" where
  "compact_word pn s = (if s \<le> 3 then ucast (push_bit (8 * (3 - s)) (GetLow64 pn))
                        else ucast (GetLow64 (uint_shr pn (8 * (s - 3)))))"

lemma unat_compact_word:
  assumes "2 \<le> length pn" "compact_scale (uval pn) s < 2 ^ 24"
  shows "unat (compact_word pn s) = compact_scale (uval pn) s"
proof -
  have p: "(2 :: nat) ^ (8 * k) = 256 ^ k" for k by (simp add: power_mult)
  have u: "unat (ucast x :: u32) = unat x mod 2 ^ 32" for x :: u64
    by (simp only: unsigned_ucast_eq take_bit_eq_mod) simp
  show ?thesis
  proof (cases "s \<le> 3")
    case True
    then have e: "compact_scale (uval pn) s = uval pn * 256 ^ (3 - s)" by (simp add: compact_scale_def)
    have "uval pn * 1 \<le> uval pn * 256 ^ (3 - s)" by (rule mult_le_mono2) simp
    then have "uval pn < 2 ^ 24" using assms(2) unfolding e by linarith
    then have "unat (GetLow64 pn) = uval pn" using unat_GetLow64 [OF assms(1)] by simp
    then have "unat (push_bit (8 * (3 - s)) (GetLow64 pn)) = uval pn * 256 ^ (3 - s)"
      using assms(2) e unsigned_push_bit_eq [of "8 * (3 - s)" "GetLow64 pn", where ?'a = nat]
      by (simp only: push_bit_eq_mult p take_bit_eq_mod) simp
    then have "unat (compact_word pn s) = uval pn * 256 ^ (3 - s) mod 2 ^ 32"
      using True by (simp only: compact_word_def if_True u)
    then show ?thesis using assms(2) e by simp
  next
    case False
    then have e: "compact_scale (uval pn) s = uval pn div 256 ^ (s - 3)" by (simp add: compact_scale_def)
    have "unat (GetLow64 (uint_shr pn (8 * (s - 3)))) = uval pn div 256 ^ (s - 3)"
      using assms e by (simp only: unat_GetLow64 length_uint_shr uval_shr p) simp
    then show ?thesis using False assms(2) e by (simp add: compact_word_def u)
  qed
qed

lemma GetCompact_rep:
  assumes "length pn = WIDTH"
  obtains c s m where "GetCompact pn False = Some c" "unat c = s * 2 ^ 24 + m" "compact_rep (uval pn) s m"
    "m < 2 ^ 23" "s \<le> 33"
proof -
  define s where "s = (uint_bits pn + 7) div 8"
  define c where "c = compact_word pn s"
  note sb = size_bounds [of pn, folded s_def]
  have c: "unat c = compact_scale (uval pn) s"
    unfolding c_def using assms sb(1) by (intro unat_compact_word) simp_all
  have lt: "unat c < 2 ^ 24" using c sb(1) by simp
  have s32: "s \<le> 32"
  proof (rule ccontr)
    assume "\<not> s \<le> 32"
    then have s33: "33 \<le> s" by simp
    then have "uval pn \<noteq> 0" using sb(3) by auto
    have "2 ^ 16 * 2 ^ 264 \<le> 2 ^ 16 * (256 :: nat) ^ s"
      using power_increasing [OF s33, of "256 :: nat"] by simp
    also have "\<dots> \<le> uval pn * 2 ^ 24" unfolding compact_scale_bounds(1) by (rule sb(2)) fact
    finally show False using uval_less [of pn] assms by simp
  qed
  define s' where "s' = (if c AND 0x00800000 \<noteq> 0 then s + 1 else s)"
  define c' where "c' = (if c AND 0x00800000 \<noteq> 0 then drop_bit 8 c else c)"
  have b: "c AND 0x00800000 \<noteq> 0 \<longleftrightarrow> 2 ^ 23 \<le> unat c" by (rule bit23 [OF lt])
  have c': "unat c' = compact_scale (uval pn) s'" "unat c' < 2 ^ 23"
    using c lt b by (auto simp: c'_def s'_def compact_scale_Suc unat_drop_bit_u32)
  have "uval pn \<noteq> 0 \<Longrightarrow> 2 ^ 15 \<le> unat c'"
    using sb(2) c b by (auto simp: c'_def unat_drop_bit_u32 less_eq_div_iff_mult_less_eq)
  moreover have "uval pn = 0 \<Longrightarrow> s' = 0"
    using sb(3) c b by (auto simp: s'_def compact_scale_def)
  ultimately have "compact_rep (uval pn) s' (unat c')" using c' by (simp add: compact_rep_def)
  moreover have "s' \<le> 33" using s32 by (simp add: s'_def)
  moreover have "GetCompact pn False = Some (c' OR push_bit 24 (word_of_nat s'))"
    using and_not_mask [OF c'(2)] \<open>s' \<le> 33\<close>
    unfolding GetCompact_def Let_def compact_word_def [symmetric] s_def [symmetric] c_def [symmetric]
    by (auto simp: c'_def s'_def split: if_splits)
  moreover have "unat (c' OR push_bit 24 (word_of_nat s')) = s' * 2 ^ 24 + unat c'"
    using c'(2) \<open>s' \<le> 33\<close> by (intro unat_or_size) simp_all
  ultimately show ?thesis using c'(2) by (intro that)
qed


lemma compact_mantissa:
  fixes x s m :: nat
  assumes "x = s * 2 ^ 24 + m" "m < 2 ^ 23"
  shows "x mod 2 ^ 23 = m"
proof -
  have "x = m + 2 ^ 23 * (s * 2)" using assms(1) by simp
  then show ?thesis using assms(2) by (simp only: mod_mult_self2 mod_less)
qed

lemma SetCompact_flags:
  assumes "unat c = s * 2 ^ 24 + m" "m < 2 ^ 23" "s \<le> 33" "s = 33 \<Longrightarrow> m < 2 ^ 16"
  shows "snd (SetCompact c) = (False, False)"
proof -
  have s: "unat (drop_bit 24 c) = s" using assms(1,2) by (simp only: unat_drop_bit_u32) simp
  have "unat c div 2 ^ 23 = s * 2" using assms(1,2) by simp
  then have "\<not> bit c 23" using bit_iff_odd [of "unat c" 23] by (simp add: bit_unsigned_iff)
  then have n: "c AND 0x00800000 = 0" using and_exp_eq_0_iff_not_bit [of c 23] by simp
  have "unat (c AND 0x007fffff) = m" using compact_mantissa [OF assms(1,2)] by (simp add: unat_and_mask)
  then have w: "\<not> 0xffff < c AND 0x007fffff" if "s = 33"
    using assms(4) [OF that] by (simp add: word_less_nat_alt)
  show ?thesis unfolding SetCompact_def Let_def snd_conv s n using assms(3) w by auto
qed

lemma SetCompact_rep:
  assumes "unat c = s * 2 ^ 24 + m" "m < 2 ^ 23"
  shows "uval (fst (SetCompact c)) = compact_value s m mod 2 ^ 256"
proof -
  have "unat c div 2 ^ 24 = s" using assms by simp
  moreover have "unat c mod 2 ^ 23 = m" by (rule compact_mantissa [OF assms])
  ultimately show ?thesis using SetCompact_value(1) [of c] by simp
qed

lemma GetCompact_eqI:
  assumes "length pn = WIDTH" "compact_rep (uval pn) s m" "unat c = s * 2 ^ 24 + m"
  shows "GetCompact pn False = Some c"
proof (rule GetCompact_rep [OF assms(1)])
  fix c' s' m'
  assume *: "GetCompact pn False = Some c'" "unat c' = s' * 2 ^ 24 + m'" "compact_rep (uval pn) s' m'"
  then have "s' = s \<and> m' = m" using compact_rep_unique [OF _ assms(2)] by blast
  then have "c' = c" using *(2) assms(3) by (intro unsigned_word_eqI [where ?'a = nat]) simp
  then show ?thesis using *(1) by simp
qed

lemma compact_truncation:
  assumes "length pn = WIDTH"
  shows "\<exists>c. GetCompact pn False = Some c \<and> snd (SetCompact c) = (False, False)
    \<and> uval (fst (SetCompact c)) \<le> uval pn
    \<and> 2 ^ 15 * (uval pn - uval (fst (SetCompact c))) \<le> uval pn
    \<and> GetCompact (fst (SetCompact c)) False = Some c"
proof (rule GetCompact_rep [OF assms])
  fix c s m
  assume c: "GetCompact pn False = Some c" "unat c = s * 2 ^ 24 + m" "compact_rep (uval pn) s m"
    "m < 2 ^ 23" "s \<le> 33"
  have le: "compact_value s m \<le> uval pn" using c(3) by (simp add: compact_rep_def compact_value_scale)
  have x: "uval pn < 2 ^ 256" using uval_less [of pn] assms by simp
  then have v: "uval (fst (SetCompact c)) = compact_value s m"
    using SetCompact_rep [OF c(2,4)] le by simp
  have "m < 2 ^ 16" if "s = 33"
  proof -
    have "uval pn * 2 ^ 24 < 2 ^ 16 * 256 ^ s" using x that by simp
    then show ?thesis using c(3) unfolding compact_scale_bounds(2) by (simp add: compact_rep_def)
  qed
  then have "snd (SetCompact c) = (False, False)" by (rule SetCompact_flags [OF c(2,4,5)])
  moreover have "GetCompact (fst (SetCompact c)) False = Some c"
    using compact_value_rep [OF c(3)] c(2) v SetCompact_value(2) by (intro GetCompact_eqI [of _ s m]) simp_all
  ultimately show ?thesis using c(1) v le compact_value_close [OF c(3)] by auto
qed

section \<open>Properties\<close>

text \<open>
  C37: the loops over 32-bit limbs compute arithmetic modulo \<open>2 ^ (32 * WIDTH)\<close>: sum,
  difference, product, the two shifts, the comparison (the sign of the difference), and the
  division, which fails exactly on a zero divisor and otherwise returns the quotient.
\<close>

theorem uint_arithmetic:
  assumes "length a = length b" "a \<noteq> []"
  shows "uval (uint_add a b) = (uval a + uval b) mod 2 ^ (32 * length a)
    \<and> int (uval (uint_sub a b)) = (int (uval a) - int (uval b)) mod 2 ^ (32 * length a)
    \<and> uval (uint_mul a b) = (uval a * uval b) mod 2 ^ (32 * length a)
    \<and> uval (uint_mul32 a k) = (uval a * unat k) mod 2 ^ (32 * length a)
    \<and> uval (uint_shl a n) = (uval a * 2 ^ n) mod 2 ^ (32 * length a)
    \<and> uval (uint_shr a n) = uval a div 2 ^ n
    \<and> CompareTo a b = sgn (int (uval a) - int (uval b))
    \<and> map_option uval (uint_div a b) = (if uval b = 0 then None else Some (uval a div uval b))"
proof -
  have "map_option uval (uint_div a b) = (if uval b = 0 then None else Some (uval a div uval b))"
    using uval_div [OF assms] by (cases "uint_div a b") auto
  then show ?thesis
    using assms by (simp only: uval_add uval_sub uval_mul uval_mul32 uval_shl uval_shr CompareTo_sgn simp_thms)
qed

theorem uint_arithmetic_witness:
  "uval (uint_sub [5, 0] [7, 0]) = 2 ^ 64 - 2 \<and> uint_div [5, 0] [0, 0] = None
    \<and> map_option uval (uint_div [0, 9] [2, 0]) = Some (9 * 2 ^ 31)"
proof -
  have "int (uval (uint_sub [5, 0] [7, 0])) = (int (uval [5, 0]) - int (uval [7, 0])) mod 2 ^ 64"
    using uint_arithmetic [of "[5, 0]" "[7, 0]"] by simp
  moreover have "uint_div [5, 0] [0, 0] = None" using uint_arithmetic [of "[5, 0]" "[0, 0]"] by simp
  moreover have "map_option uval (uint_div [0, 9] [2, 0]) = Some (9 * 2 ^ 31)"
    using uint_arithmetic [of "[0, 9]" "[2, 0]"] by simp
  ultimately show ?thesis by simp
qed

text \<open>
  the compact form of a target exists for every 256-bit number (no assertion of
  \<^verbatim>\<open>GetCompact\<close> fails); expanding it gives a number that is not larger, is smaller by less than
  one part in \<open>2 ^ 15\<close>, raises neither the sign nor the overflow flag, and has the same compact
  form again.
\<close>

theorem compact_truncates:
  assumes "length pn = WIDTH"
  shows "\<exists>c. GetCompact pn False = Some c \<and> snd (SetCompact c) = (False, False)
    \<and> uval (fst (SetCompact c)) \<le> uval pn
    \<and> 2 ^ 15 * (uval pn - uval (fst (SetCompact c))) \<le> uval pn
    \<and> GetCompact (fst (SetCompact c)) False = Some c"
  using assms by (rule compact_truncation)

theorem compact_truncates_witness:
  "\<exists>c. GetCompact [0x89abcdef, 0x01234567, 0, 0, 0, 0, 0, 0] False = Some c
     \<and> snd (SetCompact c) = (False, False)"
  using compact_truncates [of "[0x89abcdef, 0x01234567, 0, 0, 0, 0, 0, 0]"] by auto

end
