(* ===== verification/Script.thy ===== *)
theory Script
  imports Prelude
begin

unbundle bit_operations_syntax

text \<open>
  The serialized script (\<^verbatim>\<open>CScript\<close>) and script numbers (\<^verbatim>\<open>CScriptNum\<close>) of
  script/script.h and script/script.cpp: opcodes, decoding of one instruction
  (\<^verbatim>\<open>GetOp2\<close>), encoding of pushes (\<^verbatim>\<open>operator<<\<close>), \<^verbatim>\<open>FindAndDelete\<close>, signature
  operation counting and the shape tests. A script is the list of its bytes, and an
  iterator into a script is the list of the bytes from it to the end.
\<close>

type_synonym CScript = "byte list"

section \<open>Opcodes\<close>

text \<open>
  \<^verbatim>\<open>enum opcodetype\<close>: the code compares opcodes as numbers, so an opcode is its byte.
\<close>

type_synonym opcodetype = byte

abbreviation (input) OP_0 :: opcodetype where "OP_0 \<equiv> 0x00"
abbreviation (input) OP_PUSHDATA1 :: opcodetype where "OP_PUSHDATA1 \<equiv> 0x4c"
abbreviation (input) OP_PUSHDATA2 :: opcodetype where "OP_PUSHDATA2 \<equiv> 0x4d"
abbreviation (input) OP_PUSHDATA4 :: opcodetype where "OP_PUSHDATA4 \<equiv> 0x4e"
abbreviation (input) OP_1NEGATE :: opcodetype where "OP_1NEGATE \<equiv> 0x4f"
abbreviation (input) OP_RESERVED :: opcodetype where "OP_RESERVED \<equiv> 0x50"
abbreviation (input) OP_1 :: opcodetype where "OP_1 \<equiv> 0x51"
abbreviation (input) OP_16 :: opcodetype where "OP_16 \<equiv> 0x60"
abbreviation (input) OP_NOP :: opcodetype where "OP_NOP \<equiv> 0x61"
abbreviation (input) OP_VER :: opcodetype where "OP_VER \<equiv> 0x62"
abbreviation (input) OP_IF :: opcodetype where "OP_IF \<equiv> 0x63"
abbreviation (input) OP_NOTIF :: opcodetype where "OP_NOTIF \<equiv> 0x64"
abbreviation (input) OP_VERIF :: opcodetype where "OP_VERIF \<equiv> 0x65"
abbreviation (input) OP_VERNOTIF :: opcodetype where "OP_VERNOTIF \<equiv> 0x66"
abbreviation (input) OP_ELSE :: opcodetype where "OP_ELSE \<equiv> 0x67"
abbreviation (input) OP_ENDIF :: opcodetype where "OP_ENDIF \<equiv> 0x68"
abbreviation (input) OP_VERIFY :: opcodetype where "OP_VERIFY \<equiv> 0x69"
abbreviation (input) OP_RETURN :: opcodetype where "OP_RETURN \<equiv> 0x6a"
abbreviation (input) OP_TOALTSTACK :: opcodetype where "OP_TOALTSTACK \<equiv> 0x6b"
abbreviation (input) OP_FROMALTSTACK :: opcodetype where "OP_FROMALTSTACK \<equiv> 0x6c"
abbreviation (input) OP_2DROP :: opcodetype where "OP_2DROP \<equiv> 0x6d"
abbreviation (input) OP_2DUP :: opcodetype where "OP_2DUP \<equiv> 0x6e"
abbreviation (input) OP_3DUP :: opcodetype where "OP_3DUP \<equiv> 0x6f"
abbreviation (input) OP_2OVER :: opcodetype where "OP_2OVER \<equiv> 0x70"
abbreviation (input) OP_2ROT :: opcodetype where "OP_2ROT \<equiv> 0x71"
abbreviation (input) OP_2SWAP :: opcodetype where "OP_2SWAP \<equiv> 0x72"
abbreviation (input) OP_IFDUP :: opcodetype where "OP_IFDUP \<equiv> 0x73"
abbreviation (input) OP_DEPTH :: opcodetype where "OP_DEPTH \<equiv> 0x74"
abbreviation (input) OP_DROP :: opcodetype where "OP_DROP \<equiv> 0x75"
abbreviation (input) OP_DUP :: opcodetype where "OP_DUP \<equiv> 0x76"
abbreviation (input) OP_NIP :: opcodetype where "OP_NIP \<equiv> 0x77"
abbreviation (input) OP_OVER :: opcodetype where "OP_OVER \<equiv> 0x78"
abbreviation (input) OP_PICK :: opcodetype where "OP_PICK \<equiv> 0x79"
abbreviation (input) OP_ROLL :: opcodetype where "OP_ROLL \<equiv> 0x7a"
abbreviation (input) OP_ROT :: opcodetype where "OP_ROT \<equiv> 0x7b"
abbreviation (input) OP_SWAP :: opcodetype where "OP_SWAP \<equiv> 0x7c"
abbreviation (input) OP_TUCK :: opcodetype where "OP_TUCK \<equiv> 0x7d"
abbreviation (input) OP_CAT :: opcodetype where "OP_CAT \<equiv> 0x7e"
abbreviation (input) OP_SUBSTR :: opcodetype where "OP_SUBSTR \<equiv> 0x7f"
abbreviation (input) OP_LEFT :: opcodetype where "OP_LEFT \<equiv> 0x80"
abbreviation (input) OP_RIGHT :: opcodetype where "OP_RIGHT \<equiv> 0x81"
abbreviation (input) OP_SIZE :: opcodetype where "OP_SIZE \<equiv> 0x82"
abbreviation (input) OP_INVERT :: opcodetype where "OP_INVERT \<equiv> 0x83"
abbreviation (input) OP_AND :: opcodetype where "OP_AND \<equiv> 0x84"
abbreviation (input) OP_OR :: opcodetype where "OP_OR \<equiv> 0x85"
abbreviation (input) OP_XOR :: opcodetype where "OP_XOR \<equiv> 0x86"
abbreviation (input) OP_EQUAL :: opcodetype where "OP_EQUAL \<equiv> 0x87"
abbreviation (input) OP_EQUALVERIFY :: opcodetype where "OP_EQUALVERIFY \<equiv> 0x88"
abbreviation (input) OP_RESERVED1 :: opcodetype where "OP_RESERVED1 \<equiv> 0x89"
abbreviation (input) OP_RESERVED2 :: opcodetype where "OP_RESERVED2 \<equiv> 0x8a"
abbreviation (input) OP_1ADD :: opcodetype where "OP_1ADD \<equiv> 0x8b"
abbreviation (input) OP_1SUB :: opcodetype where "OP_1SUB \<equiv> 0x8c"
abbreviation (input) OP_2MUL :: opcodetype where "OP_2MUL \<equiv> 0x8d"
abbreviation (input) OP_2DIV :: opcodetype where "OP_2DIV \<equiv> 0x8e"
abbreviation (input) OP_NEGATE :: opcodetype where "OP_NEGATE \<equiv> 0x8f"
abbreviation (input) OP_ABS :: opcodetype where "OP_ABS \<equiv> 0x90"
abbreviation (input) OP_NOT :: opcodetype where "OP_NOT \<equiv> 0x91"
abbreviation (input) OP_0NOTEQUAL :: opcodetype where "OP_0NOTEQUAL \<equiv> 0x92"
abbreviation (input) OP_ADD :: opcodetype where "OP_ADD \<equiv> 0x93"
abbreviation (input) OP_SUB :: opcodetype where "OP_SUB \<equiv> 0x94"
abbreviation (input) OP_MUL :: opcodetype where "OP_MUL \<equiv> 0x95"
abbreviation (input) OP_DIV :: opcodetype where "OP_DIV \<equiv> 0x96"
abbreviation (input) OP_MOD :: opcodetype where "OP_MOD \<equiv> 0x97"
abbreviation (input) OP_LSHIFT :: opcodetype where "OP_LSHIFT \<equiv> 0x98"
abbreviation (input) OP_RSHIFT :: opcodetype where "OP_RSHIFT \<equiv> 0x99"
abbreviation (input) OP_BOOLAND :: opcodetype where "OP_BOOLAND \<equiv> 0x9a"
abbreviation (input) OP_BOOLOR :: opcodetype where "OP_BOOLOR \<equiv> 0x9b"
abbreviation (input) OP_NUMEQUAL :: opcodetype where "OP_NUMEQUAL \<equiv> 0x9c"
abbreviation (input) OP_NUMEQUALVERIFY :: opcodetype where "OP_NUMEQUALVERIFY \<equiv> 0x9d"
abbreviation (input) OP_NUMNOTEQUAL :: opcodetype where "OP_NUMNOTEQUAL \<equiv> 0x9e"
abbreviation (input) OP_LESSTHAN :: opcodetype where "OP_LESSTHAN \<equiv> 0x9f"
abbreviation (input) OP_GREATERTHAN :: opcodetype where "OP_GREATERTHAN \<equiv> 0xa0"
abbreviation (input) OP_LESSTHANOREQUAL :: opcodetype where "OP_LESSTHANOREQUAL \<equiv> 0xa1"
abbreviation (input) OP_GREATERTHANOREQUAL :: opcodetype where "OP_GREATERTHANOREQUAL \<equiv> 0xa2"
abbreviation (input) OP_MIN :: opcodetype where "OP_MIN \<equiv> 0xa3"
abbreviation (input) OP_MAX :: opcodetype where "OP_MAX \<equiv> 0xa4"
abbreviation (input) OP_WITHIN :: opcodetype where "OP_WITHIN \<equiv> 0xa5"
abbreviation (input) OP_RIPEMD160 :: opcodetype where "OP_RIPEMD160 \<equiv> 0xa6"
abbreviation (input) OP_SHA1 :: opcodetype where "OP_SHA1 \<equiv> 0xa7"
abbreviation (input) OP_SHA256 :: opcodetype where "OP_SHA256 \<equiv> 0xa8"
abbreviation (input) OP_HASH160 :: opcodetype where "OP_HASH160 \<equiv> 0xa9"
abbreviation (input) OP_HASH256 :: opcodetype where "OP_HASH256 \<equiv> 0xaa"
abbreviation (input) OP_CODESEPARATOR :: opcodetype where "OP_CODESEPARATOR \<equiv> 0xab"
abbreviation (input) OP_CHECKSIG :: opcodetype where "OP_CHECKSIG \<equiv> 0xac"
abbreviation (input) OP_CHECKSIGVERIFY :: opcodetype where "OP_CHECKSIGVERIFY \<equiv> 0xad"
abbreviation (input) OP_CHECKMULTISIG :: opcodetype where "OP_CHECKMULTISIG \<equiv> 0xae"
abbreviation (input) OP_CHECKMULTISIGVERIFY :: opcodetype where "OP_CHECKMULTISIGVERIFY \<equiv> 0xaf"
abbreviation (input) OP_NOP1 :: opcodetype where "OP_NOP1 \<equiv> 0xb0"
abbreviation (input) OP_NOP10 :: opcodetype where "OP_NOP10 \<equiv> 0xb9"
abbreviation (input) OP_SMALLINTEGER :: opcodetype where "OP_SMALLINTEGER \<equiv> 0xfa"
abbreviation (input) OP_PUBKEYS :: opcodetype where "OP_PUBKEYS \<equiv> 0xfb"
abbreviation (input) OP_PUBKEYHASH :: opcodetype where "OP_PUBKEYHASH \<equiv> 0xfd"
abbreviation (input) OP_PUBKEY :: opcodetype where "OP_PUBKEY \<equiv> 0xfe"
abbreviation (input) OP_INVALIDOPCODE :: opcodetype where "OP_INVALIDOPCODE \<equiv> 0xff"

section \<open>Script numbers\<close>

text \<open>
  \<^verbatim>\<open>CScriptNum\<close> holds an \<^verbatim>\<open>int64_t\<close>; the model keeps its value as an integer.
  \<open>scriptnum_bytes\<close> is the loop of \<^verbatim>\<open>serialize\<close> over the absolute value.
\<close>

fun scriptnum_bytes :: "nat \<Rightarrow> byte list" where
  "scriptnum_bytes absvalue =
     (if absvalue = 0 then []
      else word_of_nat (absvalue mod 256) # scriptnum_bytes (absvalue div 256))"

declare scriptnum_bytes.simps [simp del]

definition CScriptNum_serialize :: "int \<Rightarrow> valtype" where
  "CScriptNum_serialize value =
     (if value = 0 then []
      else
        let neg = value < 0;
            result = scriptnum_bytes (nat \<bar>value\<bar>)
        in if last result AND 0x80 \<noteq> 0 then result @ [if neg then 0x80 else 0]
           else if neg then butlast result @ [last result OR 0x80]
           else result)"

text \<open>
  \<^verbatim>\<open>set_vch\<close>: the bytes are or-ed together at their positions, and a set top bit of
  the last byte is cleared and negates the result.
\<close>

fun set_vch_loop :: "nat \<Rightarrow> valtype \<Rightarrow> int \<Rightarrow> int" where
  "set_vch_loop i [] result = result"
| "set_vch_loop i (b # bs) result =
     set_vch_loop (Suc i) bs (result OR push_bit (8 * i) (uint b))"

definition CScriptNum_set_vch :: "valtype \<Rightarrow> int" where
  "CScriptNum_set_vch vch =
     (if vch = [] then 0
      else
        let result = set_vch_loop 0 vch 0
        in if last vch AND 0x80 \<noteq> 0
           then - (result AND NOT (push_bit (8 * (length vch - 1)) 0x80))
           else result)"

abbreviation (input) nMaxNumSize :: nat where
  "nMaxNumSize \<equiv> 4"

text \<open>The two \<^verbatim>\<open>scriptnum_error\<close> exceptions of the constructor from bytes.\<close>

datatype scriptnum_error = ScriptNumOverflow | ScriptNumNonMinimal

definition is_minimal_num :: "valtype \<Rightarrow> bool" where
  "is_minimal_num vch \<longleftrightarrow>
     \<not> (vch \<noteq> [] \<and> last vch AND 0x7f = 0 \<and>
        (length vch \<le> 1 \<or> vch ! (length vch - 2) AND 0x80 = 0))"

definition CScriptNum :: "valtype \<Rightarrow> bool \<Rightarrow> scriptnum_error + int" where
  "CScriptNum vch fRequireMinimal =
     (if length vch > nMaxNumSize then Inl ScriptNumOverflow
      else if fRequireMinimal \<and> \<not> is_minimal_num vch then Inl ScriptNumNonMinimal
      else Inr (CScriptNum_set_vch vch))"

definition CScriptNum_getint :: "int \<Rightarrow> int" where
  "CScriptNum_getint m_value =
     (if m_value > 2147483647 then 2147483647
      else if m_value < - 2147483648 then - 2147483648
      else m_value)"

section \<open>Encoding\<close>

text \<open>\<^verbatim>\<open>operator<<(const std::vector<unsigned char>&)\<close>: the bytes that are appended.\<close>

definition push_data :: "valtype \<Rightarrow> CScript" where
  "push_data b =
     (if length b < unat OP_PUSHDATA1 then word_of_nat (length b) # b
      else if length b \<le> 0xff then OP_PUSHDATA1 # word_of_nat (length b) # b
      else if length b \<le> 0xffff then OP_PUSHDATA2 # le_bytes 2 (length b) @ b
      else OP_PUSHDATA4 # le_bytes 4 (length b) @ b)"

text \<open>\<^verbatim>\<open>push_int64\<close>, which is \<^verbatim>\<open>operator<<(int64_t)\<close>.\<close>

definition push_int64 :: "int \<Rightarrow> CScript" where
  "push_int64 n =
     (if n = -1 \<or> (1 \<le> n \<and> n \<le> 16) then [word_of_int (n + 0x50)]
      else if n = 0 then [OP_0]
      else push_data (CScriptNum_serialize n))"

text \<open>
  \<^verbatim>\<open>EncodeOP_N\<close> asserts \<^verbatim>\<open>n >= 0 && n <= 16\<close>: a failed assertion is \<open>None\<close>. Both callers
  of \<^verbatim>\<open>DecodeOP_N\<close> test the range that it asserts before they call it.
\<close>

definition EncodeOP_N :: "int \<Rightarrow> opcodetype option" where
  "EncodeOP_N n =
     (if 0 \<le> n \<and> n \<le> 16 then
        if n = 0 then Some OP_0 else Some (word_of_int (0x51 + n - 1))
      else None)"

definition DecodeOP_N :: "opcodetype \<Rightarrow> nat" where
  "DecodeOP_N opcode = (if opcode = OP_0 then 0 else unat opcode - 0x50)"

section \<open>Decoding one instruction\<close>

text \<open>
  \<^verbatim>\<open>GetOp2\<close> returns whether it succeeded, the opcode (\<^verbatim>\<open>OP_INVALIDOPCODE\<close> unless it
  succeeded), the pushed bytes, and the advanced iterator. The iterator is advanced on
  failure too: past the opcode, and past the size bytes when they were present.
\<close>

definition GetOp2_data :: "opcodetype \<Rightarrow> nat \<Rightarrow> CScript \<Rightarrow> bool \<times> opcodetype \<times> valtype \<times> CScript" where
  "GetOp2_data opcode nSize pc =
     (if length pc < nSize then (False, OP_INVALIDOPCODE, [], pc)
      else (True, opcode, take nSize pc, drop nSize pc))"

fun GetOp2 :: "CScript \<Rightarrow> bool \<times> opcodetype \<times> valtype \<times> CScript" where
  "GetOp2 [] = (False, OP_INVALIDOPCODE, [], [])"
| "GetOp2 (opcode # pc) =
     (if opcode \<le> OP_PUSHDATA4 then
        if opcode < OP_PUSHDATA1 then GetOp2_data opcode (unat opcode) pc
        else if opcode = OP_PUSHDATA1 then
          (if length pc < 1 then (False, OP_INVALIDOPCODE, [], pc)
           else GetOp2_data opcode (le_val (take 1 pc)) (drop 1 pc))
        else if opcode = OP_PUSHDATA2 then
          (if length pc < 2 then (False, OP_INVALIDOPCODE, [], pc)
           else GetOp2_data opcode (le_val (take 2 pc)) (drop 2 pc))
        else
          (if length pc < 4 then (False, OP_INVALIDOPCODE, [], pc)
           else GetOp2_data opcode (le_val (take 4 pc)) (drop 4 pc))
      else (True, opcode, [], pc))"

lemma GetOp2_data_length:
  "GetOp2_data opcode n pc = (ok, opc, v, pc') \<Longrightarrow> length pc' \<le> length pc"
  by (auto simp: GetOp2_data_def split: if_splits)

lemma GetOp2_shorter:
  "GetOp2 pc = (ok, opcode, v, pc') \<Longrightarrow> pc \<noteq> [] \<Longrightarrow> length pc' < length pc"
proof (cases pc)
  case (Cons a pc1)
  assume "GetOp2 pc = (ok, opcode, v, pc')"
  with Cons have "length pc' \<le> length pc1"
    by (auto split: if_splits dest: GetOp2_data_length)
  with Cons show ?thesis by simp
qed simp

lemma GetOp2_ok_nonempty: "GetOp2 pc = (True, opcode, v, pc') \<Longrightarrow> pc \<noteq> []"
  by (cases pc) auto

lemma GetOp2_ok_shorter:
  "GetOp2 pc = (True, opcode, v, pc') \<Longrightarrow> length pc' < length pc"
  by (metis GetOp2_ok_nonempty GetOp2_shorter)

section \<open>Scanning a script\<close>

text \<open>
  \<^verbatim>\<open>FindAndDelete\<close>: from each instruction boundary on, every occurrence of \<open>b\<close> that
  starts there is erased before the next instruction is decoded. The result is the
  remaining script and the number of deletions.
\<close>

function FindAndDelete_loop :: "CScript \<Rightarrow> CScript \<Rightarrow> CScript \<times> nat" where
  "FindAndDelete_loop b pc =
     (if b \<noteq> [] \<and> prefix b pc then
        (case FindAndDelete_loop b (drop (length b) pc) of (r, nFound) \<Rightarrow> (r, Suc nFound))
      else
        (case GetOp2 pc of (ok, opcode, v, pc') \<Rightarrow>
           if ok then
             (case FindAndDelete_loop b pc' of (r, nFound) \<Rightarrow>
                (take (length pc - length pc') pc @ r, nFound))
           else (pc, 0)))"
  by pat_completeness auto
termination
proof (relation "measure (\<lambda>(b, pc). length pc)", goal_cases)
  case 1
  show ?case by simp
next
  case (2 b pc)
  then show ?case by (cases pc) auto
next
  case (3 b pc x y xa ya xb yb)
  then have "GetOp2 pc = (True, xa, xb, yb)" by simp
  then show ?case by (simp add: GetOp2_ok_shorter)
qed

declare FindAndDelete_loop.simps [simp del]

definition FindAndDelete :: "CScript \<Rightarrow> CScript \<Rightarrow> CScript \<times> nat" where
  "FindAndDelete script b = (if b = [] then (script, 0) else FindAndDelete_loop b script)"

text \<open>
  \<^verbatim>\<open>GetSigOpCount(bool)\<close>. The C++ counter is 32 bits wide; \<open>GetSigOpCount_bound\<close> below
  bounds it by twenty times the length of the script.
\<close>

function GetSigOpCount_loop :: "bool \<Rightarrow> opcodetype \<Rightarrow> CScript \<Rightarrow> nat \<Rightarrow> nat" where
  "GetSigOpCount_loop fAccurate lastOpcode pc n =
     (if pc = [] then n
      else
        (case GetOp2 pc of (ok, opcode, v, pc') \<Rightarrow>
           if \<not> ok then n
           else
             GetSigOpCount_loop fAccurate opcode pc'
               (if opcode = OP_CHECKSIG \<or> opcode = OP_CHECKSIGVERIFY then n + 1
                else if opcode = OP_CHECKMULTISIG \<or> opcode = OP_CHECKMULTISIGVERIFY then
                  (if fAccurate \<and> OP_1 \<le> lastOpcode \<and> lastOpcode \<le> OP_16
                   then n + DecodeOP_N lastOpcode
                   else n + 20)
                else n)))"
  by pat_completeness auto
termination
  by (relation "measure (\<lambda>(f, l, pc, n). length pc)") (auto dest: GetOp2_shorter [OF sym])

declare GetSigOpCount_loop.simps [simp del]

definition GetSigOpCount :: "bool \<Rightarrow> CScript \<Rightarrow> nat" where
  "GetSigOpCount fAccurate script = GetSigOpCount_loop fAccurate OP_INVALIDOPCODE script 0"

definition IsPayToScriptHash :: "CScript \<Rightarrow> bool" where
  "IsPayToScriptHash script \<longleftrightarrow>
     length script = 23 \<and> script ! 0 = OP_HASH160 \<and> script ! 1 = 0x14 \<and> script ! 22 = OP_EQUAL"

text \<open>
  \<^verbatim>\<open>GetSigOpCount(const CScript& scriptSig)\<close>: for a script-hash output, the count of the
  last item that the \<^verbatim>\<open>scriptSig\<close> pushes. \<open>last_push\<close> is its loop; \<open>None\<close> is the
  early \<^verbatim>\<open>return 0\<close>.
\<close>

function last_push :: "CScript \<Rightarrow> valtype \<Rightarrow> valtype option" where
  "last_push pc data =
     (if pc = [] then Some data
      else
        (case GetOp2 pc of (ok, opcode, v, pc') \<Rightarrow>
           if \<not> ok then None
           else if opcode > OP_16 then None
           else last_push pc' v))"
  by pat_completeness auto
termination
  by (relation "measure (\<lambda>(pc, d). length pc)") (auto dest: GetOp2_shorter [OF sym])

declare last_push.simps [simp del]

definition GetSigOpCount_P2SH :: "CScript \<Rightarrow> CScript \<Rightarrow> nat" where
  "GetSigOpCount_P2SH script scriptSig =
     (if \<not> IsPayToScriptHash script then GetSigOpCount True script
      else
        (case last_push scriptSig [] of
           None \<Rightarrow> 0
         | Some data \<Rightarrow> GetSigOpCount True data))"

function IsPushOnly :: "CScript \<Rightarrow> bool" where
  "IsPushOnly pc =
     (if pc = [] then True
      else
        (case GetOp2 pc of (ok, opcode, v, pc') \<Rightarrow>
           if \<not> ok then False
           else if opcode > OP_16 then False
           else IsPushOnly pc'))"
  by pat_completeness auto
termination
  by (relation "measure length") (auto dest: GetOp2_shorter [OF sym])

declare IsPushOnly.simps [simp del]

text \<open>
  \<^verbatim>\<open>IsNormalPaymentScript\<close> ignores the result of \<^verbatim>\<open>GetOp\<close> and looks at the opcode only,
  which is \<^verbatim>\<open>OP_INVALIDOPCODE\<close> where decoding failed.
\<close>

function IsNormalPaymentScript_loop :: "nat \<Rightarrow> CScript \<Rightarrow> bool" where
  "IsNormalPaymentScript_loop i pc =
     (if pc = [] then True
      else
        (case GetOp2 pc of (ok, opcode, v, pc') \<Rightarrow>
           if i = 0 \<and> opcode \<noteq> OP_DUP then False
           else if i = 1 \<and> opcode \<noteq> OP_HASH160 then False
           else if i = 3 \<and> opcode \<noteq> OP_EQUALVERIFY then False
           else if i = 4 \<and> opcode \<noteq> OP_CHECKSIG then False
           else if i = 5 then False
           else IsNormalPaymentScript_loop (Suc i) pc'))"
  by pat_completeness auto
termination
  by (relation "measure (\<lambda>(i, pc). length pc)") (auto dest: GetOp2_shorter [OF sym])

declare IsNormalPaymentScript_loop.simps [simp del]

definition IsNormalPaymentScript :: "CScript \<Rightarrow> bool" where
  "IsNormalPaymentScript script \<longleftrightarrow> length script = 25 \<and> IsNormalPaymentScript_loop 0 script"

definition IsUnspendable :: "CScript \<Rightarrow> bool" where
  "IsUnspendable script \<longleftrightarrow> 0 < length script \<and> hd script = OP_RETURN"

function Find_loop :: "opcodetype \<Rightarrow> CScript \<Rightarrow> nat \<Rightarrow> nat" where
  "Find_loop op pc nFound =
     (if pc = [] then nFound
      else
        (case GetOp2 pc of (ok, opcode, v, pc') \<Rightarrow>
           if \<not> ok then nFound
           else Find_loop op pc' (if opcode = op then nFound + 1 else nFound)))"
  by pat_completeness auto
termination
  by (relation "measure (\<lambda>(op, pc, n). length pc)") (auto dest: GetOp2_shorter [OF sym])

declare Find_loop.simps [simp del]

section \<open>Facts on bytes, pushes and script numbers\<close>

lemma GetOp2_push_data:
  assumes "length b < 2 ^ 32"
  shows "\<exists>opcode. GetOp2 (push_data b @ rest) = (True, opcode, b, rest) \<and> opcode \<le> OP_PUSHDATA4"
proof -
  consider "length b < 76" | "76 \<le> length b" "length b \<le> 255" | "255 < length b" "length b \<le> 65535"
    | "65535 < length b" by linarith
  then show ?thesis
  proof cases
    case 1
    then have "(word_of_nat (length b) :: byte) < 0x4c"
      by (simp add: word_less_nat_alt unat_byte_of_nat)
    moreover from this have "(word_of_nat (length b) :: byte) \<le> 0x4e"
      by (rule order.trans [OF order.strict_implies_order]) simp
    ultimately show ?thesis
      using 1 by (auto simp: push_data_def GetOp2_data_def unat_byte_of_nat)
  next
    case 2
    then show ?thesis by (auto simp: push_data_def GetOp2_data_def unat_byte_of_nat)
  next
    case 3
    then have "le_val (le_bytes 2 (length b)) = length b"
      by (simp add: le_val_le_bytes)
    moreover have "take 2 (le_bytes 2 (length b) @ b @ rest) = le_bytes 2 (length b)"
      and "drop 2 (le_bytes 2 (length b) @ b @ rest) = b @ rest"
      by simp_all
    ultimately show ?thesis
      using 3 by (simp add: push_data_def GetOp2_data_def)
  next
    case 4
    have "take 4 (le_bytes 4 (length b) @ b @ rest) = le_bytes 4 (length b)"
      and "drop 4 (le_bytes 4 (length b) @ b @ rest) = b @ rest"
      by simp_all
    moreover have "le_val (le_bytes 4 (length b)) = length b"
      using assms by (simp add: le_val_le_bytes)
    ultimately show ?thesis
      using 4 by (simp add: push_data_def GetOp2_data_def)
  qed
qed

lemma le_val_scriptnum_bytes: "le_val (scriptnum_bytes n) = n"
proof (induction n rule: scriptnum_bytes.induct)
  case (1 n)
  then show ?case by (subst scriptnum_bytes.simps) simp
qed

lemma scriptnum_bytes_eq_Nil [simp]: "scriptnum_bytes n = [] \<longleftrightarrow> n = 0"
  by (subst scriptnum_bytes.simps) simp

lemma scriptnum_bytes_last: "n \<noteq> 0 \<Longrightarrow> last (scriptnum_bytes n) \<noteq> 0"
proof (induction n rule: scriptnum_bytes.induct)
  case (1 n)
  show ?case
  proof (cases "n div 256 = 0")
    case True
    then have "scriptnum_bytes n = [word_of_nat n]" and "n < 256"
      using 1 by (simp_all add: scriptnum_bytes.simps [of n] div_eq_0_iff)
    then show ?thesis using 1(2) by (simp add: byte_eq_iff_unat unat_byte_of_nat)
  next
    case False
    with 1 show ?thesis by (subst scriptnum_bytes.simps) simp
  qed
qed

lemma set_vch_loop_eq:
  "0 \<le> result \<Longrightarrow> result < 2 ^ (8 * i) \<Longrightarrow>
     set_vch_loop i bs result = result + 2 ^ (8 * i) * int (le_val bs)"
proof (induction i bs result rule: set_vch_loop.induct)
  case (1 i result)
  then show ?case by simp
next
  case (2 i b bs result)
  have "result AND push_bit (8 * i) (uint b) = 0"
  proof (rule bit_eqI)
    fix n
    show "bit (result AND push_bit (8 * i) (uint b)) n \<longleftrightarrow> bit 0 n"
    proof (cases "n < 8 * i")
      case False
      then have "result < 2 ^ n"
        using 2(3) by (meson leI less_le_trans one_le_numeral power_increasing)
      then have "\<not> bit result n"
        using 2(2) by (simp add: bit_iff_odd)
      then show ?thesis by (simp add: bit_and_iff)
    qed (simp add: bit_simps)
  qed
  then have e: "result OR push_bit (8 * i) (uint b) = result + 2 ^ (8 * i) * uint b"
    by (simp add: push_bit_eq_mult mult.commute flip: disjunctive_add_eq_or)
  have b: "0 \<le> uint b" "uint b \<le> 255"
    using uint_range_size [of b] by (simp_all add: word_size)
  have "result + 2 ^ (8 * i) * uint b < 2 ^ (8 * i) + 2 ^ (8 * i) * 255"
    using 2(3) b by (intro add_less_le_mono mult_left_mono) auto
  also have "\<dots> = 2 ^ (8 * Suc i)"
    by (simp add: power_add)
  finally have "set_vch_loop i (b # bs) result =
      result + 2 ^ (8 * i) * uint b + 2 ^ (8 * Suc i) * int (le_val bs)"
    using 2(1) 2(2) b by (simp add: e)
  then show ?case
    by (simp add: power_add algebra_simps)
qed

text \<open>The number that a byte vector denotes: little-endian magnitude, sign in the top bit.\<close>

lemma set_vch_Nil [simp]: "CScriptNum_set_vch [] = 0"
  by (simp add: CScriptNum_set_vch_def)

lemma set_vch_loop_0: "set_vch_loop 0 vch 0 = int (le_val vch)"
  using set_vch_loop_eq [of 0 0 vch] by simp

lemma set_vch_snoc:
  "CScriptNum_set_vch (vch @ [b]) =
     (if unat b < 128 then int (le_val vch + 256 ^ length vch * unat b)
      else - int (le_val vch + 256 ^ length vch * (unat b - 128)))"
proof (cases "unat b < 128")
  case True
  then show ?thesis
    by (simp add: CScriptNum_set_vch_def set_vch_loop_0 byte_and_0x80 le_val_append)
next
  case False
  define m where "m = le_val vch + 256 ^ length vch * (unat b - 128)"
  define k where "k = 8 * length vch + 7"
  have p: "(256::nat) ^ length vch * 128 = 2 ^ k"
    by (simp add: k_def power_add power_mult)
  have "m < 256 ^ length vch + 256 ^ length vch * 127"
    using le_val_less [of vch] unat_byte_less [of b] unfolding m_def
    by (intro add_less_le_mono mult_left_mono) (auto simp: le_diff_conv)
  with p have "m < 2 ^ k" by simp
  then have m: "int m < 2 ^ k" by (metis of_nat_less_iff of_nat_numeral of_nat_power)
  have "le_val (vch @ [b]) = m + 2 ^ k"
    using False by (simp add: le_val_append m_def add.assoc flip: p distrib_left)
  then have l: "int (le_val (vch @ [b])) = int m + 2 ^ k" by simp
  have "bit (int m + 2 ^ k) k"
  proof -
    have "int m div 2 ^ k = 0"
      by (rule div_pos_pos_trivial [OF _ m]) simp
    then have "(int m + 2 ^ k) div 2 ^ k = 1"
      by (subst div_add_self2) simp_all
    then show ?thesis by (simp add: bit_iff_odd)
  qed
  then have "unset_bit k (int m + 2 ^ k) = int m"
    by (simp add: unset_bit_eq)
  moreover have "push_bit (8 * length vch) 128 = push_bit k (1::int)"
    by (simp add: k_def push_bit_eq_mult power_add)
  ultimately have "int (le_val (vch @ [b])) AND NOT (push_bit (8 * length vch) 128) = int m"
    using l by (simp add: unset_bit_eq_and_not)
  then show ?thesis using False
    by (simp add: CScriptNum_set_vch_def set_vch_loop_0 byte_and_0x80 m_def)
qed

lemma set_vch_serialize: "CScriptNum_set_vch (CScriptNum_serialize n) = n"
proof (cases "n = 0")
  case True
  then show ?thesis by (simp add: CScriptNum_serialize_def)
next
  case False
  define r where "r = scriptnum_bytes (nat \<bar>n\<bar>)"
  have r: "r \<noteq> []" "le_val r = nat \<bar>n\<bar>"
    using False by (simp_all add: r_def le_val_scriptnum_bytes)
  obtain bs b where rb: "r = bs @ [b]" using r(1) by (metis append_butlast_last_id)
  have v: "int (le_val bs + 256 ^ length bs * unat b) = \<bar>n\<bar>"
    using r(2) by (simp add: rb le_val_append)
  show ?thesis
  proof (cases "unat b < 128")
    case True
    have "CScriptNum_serialize n = (if n < 0 then bs @ [b OR 0x80] else bs @ [b])"
      using False True by (simp add: CScriptNum_serialize_def rb byte_and_0x80 flip: r_def)
    then show ?thesis using v True by (auto simp: set_vch_snoc byte_or_0x80)
  next
    case bge: False
    have "CScriptNum_serialize n = r @ [if n < 0 then 0x80 else 0]"
      using False bge by (simp add: CScriptNum_serialize_def rb byte_and_0x80 flip: r_def)
    then show ?thesis using r(2) by (auto simp: set_vch_snoc)
  qed
qed

lemma set_vch_bound:
  assumes "length vch \<le> k" "0 < k"
  shows "\<bar>CScriptNum_set_vch vch\<bar> < 2 ^ (8 * k - 1)"
proof (cases vch rule: rev_cases)
  case Nil
  then show ?thesis by simp
next
  case (snoc bs b)
  define m where "m = (if unat b < 128 then unat b else unat b - 128)"
  have "m \<le> 127" using unat_byte_less [of b] by (auto simp: m_def)
  have "\<bar>CScriptNum_set_vch vch\<bar> = int (le_val bs + 256 ^ length bs * m)"
    by (simp add: snoc set_vch_snoc m_def del: of_nat_add of_nat_mult)
  moreover have "le_val bs + 256 ^ length bs * m < 256 ^ length bs + 256 ^ length bs * 127"
    using le_val_less [of bs] \<open>m \<le> 127\<close> by (intro add_less_le_mono mult_left_mono) auto
  moreover have "256 ^ length bs + 256 ^ length bs * 127 = (2::nat) ^ (8 * length bs + 7)"
    by (simp add: power_add power_mult)
  moreover have "(2::nat) ^ (8 * length bs + 7) \<le> 2 ^ (8 * k - 1)"
    using assms by (intro power_increasing) (auto simp: snoc)
  ultimately have "int (le_val bs + 256 ^ length bs * m) < int (2 ^ (8 * k - 1))"
    and "\<bar>CScriptNum_set_vch vch\<bar> = int (le_val bs + 256 ^ length bs * m)"
    by (simp_all only: of_nat_less_iff)
  then show ?thesis by simp
qed

lemma scriptnum_bytes_le_val:
  "v \<noteq> [] \<Longrightarrow> last v \<noteq> 0 \<Longrightarrow> scriptnum_bytes (le_val v) = v"
proof (induction v)
  case Nil
  then show ?case by simp
next
  case (Cons b bs)
  show ?case
  proof (cases "bs = []")
    case True
    with Cons.prems show ?thesis
      by (subst scriptnum_bytes.simps) (simp add: unat_eq_zero unat_byte_less)
  next
    case False
    with Cons have IH: "scriptnum_bytes (le_val bs) = bs" by simp
    with False have "le_val bs \<noteq> 0" by (metis scriptnum_bytes_eq_Nil)
    with IH show ?thesis by (subst scriptnum_bytes.simps) (simp add: unat_byte_less)
  qed
qed

lemma is_minimal_num_Nil [simp]: "is_minimal_num []"
  by (simp add: is_minimal_num_def)

lemma is_minimal_num_snoc:
  "is_minimal_num (bs @ [b]) \<longleftrightarrow>
     unat b mod 128 \<noteq> 0 \<or> (bs \<noteq> [] \<and> 128 \<le> unat (last bs))"
  by (cases bs rule: rev_cases)
    (auto simp: is_minimal_num_def byte_and_0x7f byte_and_0x80 nth_append not_less)

lemma serialize_minimal: "is_minimal_num (CScriptNum_serialize n)"
proof (cases "n = 0")
  case True
  then show ?thesis by (simp add: CScriptNum_serialize_def)
next
  case False
  define r where "r = scriptnum_bytes (nat \<bar>n\<bar>)"
  have r: "r \<noteq> []" "last r \<noteq> 0"
    using False by (simp_all add: r_def scriptnum_bytes_last)
  obtain bs b where rb: "r = bs @ [b]" using r(1) by (metis append_butlast_last_id)
  have b: "unat b \<noteq> 0" using r(2) by (simp add: rb unat_eq_zero)
  show ?thesis
  proof (cases "unat b < 128")
    case True
    have "CScriptNum_serialize n = (if n < 0 then bs @ [b OR 0x80] else bs @ [b])"
      using False True by (simp add: CScriptNum_serialize_def rb byte_and_0x80 flip: r_def)
    then show ?thesis using True b by (auto simp: is_minimal_num_snoc byte_or_0x80)
  next
    case bge: False
    have "CScriptNum_serialize n = r @ [if n < 0 then 0x80 else 0]"
      using False bge by (simp add: CScriptNum_serialize_def rb byte_and_0x80 flip: r_def)
    then show ?thesis using bge is_minimal_num_snoc [of r] by (simp add: rb)
  qed
qed

lemma serialize_of_bytes:
  assumes "unat c \<noteq> 0"
  shows "n = int (le_val (cs @ [c])) \<or> n = - int (le_val (cs @ [c])) \<Longrightarrow>
    CScriptNum_serialize n =
      (if 128 \<le> unat c then cs @ [c, if n < 0 then 0x80 else 0]
       else if n < 0 then cs @ [c OR 0x80] else cs @ [c])"
proof -
  assume n: "n = int (le_val (cs @ [c])) \<or> n = - int (le_val (cs @ [c]))"
  have "c \<noteq> 0" using assms by auto
  then have s: "scriptnum_bytes (le_val (cs @ [c])) = cs @ [c]"
    by (intro scriptnum_bytes_le_val) auto
  then have "le_val (cs @ [c]) \<noteq> 0" by (metis scriptnum_bytes_eq_Nil snoc_eq_iff_butlast)
  with n have "n \<noteq> 0" and "nat \<bar>n\<bar> = le_val (cs @ [c])" by auto
  with s show ?thesis
    by (simp add: CScriptNum_serialize_def byte_and_0x80 not_less)
qed

lemma serialize_set_vch:
  assumes "is_minimal_num v"
  shows "CScriptNum_serialize (CScriptNum_set_vch v) = v"
proof (cases v rule: rev_cases)
  case Nil
  then show ?thesis by (simp add: CScriptNum_serialize_def)
next
  case (snoc bs b)
  show ?thesis
  proof (cases "unat b mod 128 = 0")
    case False
    define c :: byte where "c = word_of_nat (if unat b < 128 then unat b else unat b - 128)"
    have c: "unat c = (if unat b < 128 then unat b else unat b - 128)"
      using unat_byte_less [of b] unfolding c_def by (subst unat_byte_of_nat) auto
    have cb: "unat c < 128" "unat c \<noteq> 0"
    proof -
      have "unat b \<noteq> 128" "unat b \<noteq> 0" using False by (metis mod_self, metis mod_0)
      then show "unat c < 128" "unat c \<noteq> 0"
        using unat_byte_less [of b] by (auto simp: c)
    qed
    have "128 \<le> unat b \<Longrightarrow> c OR 0x80 = b"
      using cb c by (simp add: byte_eq_iff_unat byte_or_0x80)
    moreover have "unat b < 128 \<Longrightarrow> c = b"
      using c by (simp add: byte_eq_iff_unat)
    moreover have "le_val (bs @ [c]) \<noteq> 0"
      using cb by (simp add: le_val_append)
    moreover have "CScriptNum_set_vch v =
        (if unat b < 128 then int (le_val (bs @ [c])) else - int (le_val (bs @ [c])))"
      by (simp add: snoc set_vch_snoc c le_val_append)
    ultimately show ?thesis
      using serialize_of_bytes [OF cb(2), of "CScriptNum_set_vch v" bs] cb
      by (auto simp: snoc)
  next
    case True
    with assms snoc obtain cs c where bs: "bs = cs @ [c]" and c: "128 \<le> unat c"
      by (metis append_butlast_last_id is_minimal_num_snoc)
    have b: "b = 0 \<or> b = 0x80"
      using True unat_byte_less [of b] by (auto simp: byte_eq_iff_unat)
    have "le_val (cs @ [c]) \<noteq> 0" using c by (simp add: le_val_append)
    moreover have "CScriptNum_set_vch v =
        (if b = 0 then int (le_val (cs @ [c])) else - int (le_val (cs @ [c])))"
      using b set_vch_snoc [of bs b] by (auto simp: snoc bs)
    ultimately show ?thesis
      using serialize_of_bytes [of c "CScriptNum_set_vch v" cs] c b
      by (auto simp: snoc bs)
  qed
qed

lemma CScriptNum_Inr_bound: "CScriptNum vch fm = Inr n \<Longrightarrow> \<bar>n\<bar> < 2 ^ 31"
  using set_vch_bound [of vch 4] by (auto simp: CScriptNum_def split: if_splits)

lemma CScriptNum_minimal_iff:
  "CScriptNum vch True = Inr n \<longleftrightarrow> vch = CScriptNum_serialize n \<and> length vch \<le> nMaxNumSize"
  by (auto simp: CScriptNum_def serialize_minimal serialize_set_vch set_vch_serialize)

section \<open>Facts on decoding\<close>

lemma GetOp2_data_suffix:
  "GetOp2_data opcode n pc = (ok, opc, v, pc') \<Longrightarrow> suffix pc' pc"
  by (auto simp: GetOp2_data_def suffix_drop split: if_splits)

lemma GetOp2_suffix: "GetOp2 pc = (ok, opcode, v, pc') \<Longrightarrow> suffix pc' pc"
proof (cases pc)
  case (Cons a pc1)
  assume "GetOp2 pc = (ok, opcode, v, pc')"
  with Cons have "suffix pc' pc1"
    by (auto split: if_splits dest!: GetOp2_data_suffix intro: suffix_order.trans suffix_drop)
  with Cons show ?thesis by (simp add: suffix_Cons)
qed simp

lemma GetOp2_split:
  assumes "GetOp2 pc = (ok, opcode, v, pc')"
  shows "take (length pc - length pc') pc @ pc' = pc"
  using GetOp2_suffix [OF assms] by (auto simp: suffix_def)

lemma GetOp2_big_opcode:
  assumes "OP_PUSHDATA4 < opcode"
  shows "GetOp2 (opcode # pc) = (True, opcode, [], pc)"
proof -
  have "\<not> opcode \<le> OP_PUSHDATA4" using assms by (simp add: not_le)
  then show ?thesis by simp
qed

lemma GetOp2_ok_cases:
  assumes "GetOp2 pc = (True, opcode, v, pc')"
  shows "OP_PUSHDATA4 < opcode \<and> v = [] \<and> pc = opcode # pc' \<or>
         opcode \<le> OP_PUSHDATA4 \<and> hd pc = opcode"
  using assms by (cases pc) (auto simp: GetOp2_data_def not_le split: if_splits)

section \<open>Facts on scanning\<close>

lemma DecodeOP_N_le: "opcode \<le> OP_16 \<Longrightarrow> DecodeOP_N opcode \<le> 16"
  by (auto simp: DecodeOP_N_def word_le_nat_alt)

lemma GetSigOpCount_loop_bound:
  "GetSigOpCount_loop fAccurate lastOpcode pc n \<le> n + 20 * length pc"
proof (induction fAccurate lastOpcode pc n rule: GetSigOpCount_loop.induct)
  case (1 fAccurate lastOpcode pc n)
  obtain ok opcode v pc' where g: "GetOp2 pc = (ok, opcode, v, pc')"
    using prod_cases4 by blast
  show ?case
  proof (cases "pc = [] \<or> \<not> ok")
    case True
    with g show ?thesis by (subst GetSigOpCount_loop.simps) auto
  next
    case False
    have l: "length pc' < length pc" using False GetOp2_shorter [OF g] by simp
    define n' where "n' = (if opcode = OP_CHECKSIG \<or> opcode = OP_CHECKSIGVERIFY then n + 1
        else if opcode = OP_CHECKMULTISIG \<or> opcode = OP_CHECKMULTISIGVERIFY then
          (if fAccurate \<and> OP_1 \<le> lastOpcode \<and> lastOpcode \<le> OP_16
           then n + DecodeOP_N lastOpcode else n + 20)
        else n)"
    have "n' \<le> n + 20" using DecodeOP_N_le [of lastOpcode] by (auto simp: n'_def)
    moreover have "GetSigOpCount_loop fAccurate lastOpcode pc n =
        GetSigOpCount_loop fAccurate opcode pc' n'"
      using False g by (subst GetSigOpCount_loop.simps) (auto simp: n'_def)
    moreover have "GetSigOpCount_loop fAccurate opcode pc' n' \<le> n' + 20 * length pc'"
      using False unfolding n'_def by (intro 1 [OF _ g [symmetric] refl refl]) auto
    ultimately show ?thesis using l by simp
  qed
qed

lemma GetSigOpCount_bound: "GetSigOpCount fAccurate script \<le> 20 * length script"
  using GetSigOpCount_loop_bound [of fAccurate _ script 0] by (simp add: GetSigOpCount_def)

lemma GetSigOpCount_loop_accurate_le:
  "m \<le> n \<Longrightarrow> GetSigOpCount_loop True lastOpcode pc m \<le> GetSigOpCount_loop False lastOpcode pc n"
proof (induction "length pc" arbitrary: lastOpcode pc m n rule: less_induct)
  case less
  obtain ok opcode v pc' where g: "GetOp2 pc = (ok, opcode, v, pc')"
    using prod_cases4 by blast
  show ?case
  proof (cases "pc = [] \<or> \<not> ok")
    case True
    with g less.prems show ?thesis by (subst (1 2) GetSigOpCount_loop.simps) auto
  next
    case False
    then have l: "length pc' < length pc" using GetOp2_shorter [OF g] by simp
    have d: "lastOpcode \<le> OP_16 \<Longrightarrow> m + DecodeOP_N lastOpcode \<le> n + 20"
      using DecodeOP_N_le [of lastOpcode] less.prems by simp
    show ?thesis
      using False g less.prems d
      by (subst (1 2) GetSigOpCount_loop.simps) (auto intro!: less.hyps [OF l])
  qed
qed

lemma FindAndDelete_loop_length:
  "FindAndDelete_loop b pc = (r, n) \<Longrightarrow> length r + n * length b = length pc"
proof (induction b pc arbitrary: r n rule: FindAndDelete_loop.induct)
  case (1 b pc)
  obtain ok opcode v pc' where g: "GetOp2 pc = (ok, opcode, v, pc')"
    using prod_cases4 by blast
  show ?case
  proof (cases "b \<noteq> [] \<and> prefix b pc")
    case True
    obtain r' n' where f: "FindAndDelete_loop b (drop (length b) pc) = (r', n')" by fastforce
    with 1(3) True have "r = r'" "n = Suc n'"
      by (auto simp: FindAndDelete_loop.simps [of b pc])
    moreover have "length r' + n' * length b = length (drop (length b) pc)"
      using 1(1) True f by blast
    moreover have "length b \<le> length pc" using True prefix_length_le by blast
    ultimately show ?thesis by simp
  next
    case np: False
    show ?thesis
    proof (cases ok)
      case False
      with np g 1(3) show ?thesis by (auto simp: FindAndDelete_loop.simps [of b pc])
    next
      case True
      obtain r' n' where f: "FindAndDelete_loop b pc' = (r', n')" by fastforce
      have "length r' + n' * length b = length pc'"
        by (rule 1(2) [OF np g [symmetric] refl refl True f])
      moreover have "length pc' < length pc" using g True by (simp add: GetOp2_ok_shorter)
      moreover have "r = take (length pc - length pc') pc @ r'" "n = n'"
        using 1(3) np g True f by (auto simp: FindAndDelete_loop.simps [of b pc])
      ultimately show ?thesis by simp
    qed
  qed
qed

lemma FindAndDelete_loop_no_match:
  "\<not> sublist b pc \<Longrightarrow> FindAndDelete_loop b pc = (pc, 0)"
proof (induction b pc rule: FindAndDelete_loop.induct)
  case (1 b pc)
  obtain ok opcode v pc' where g: "GetOp2 pc = (ok, opcode, v, pc')"
    using prod_cases4 by blast
  have np: "\<not> (b \<noteq> [] \<and> prefix b pc)" using 1(3) by auto
  have s: "suffix pc' pc" using g by (rule GetOp2_suffix)
  have "\<not> sublist b pc'"
    using 1(3) s by (meson sublist_order.order.trans suffix_imp_sublist)
  then have "ok \<Longrightarrow> FindAndDelete_loop b pc' = (pc', 0)"
    using 1(2) [OF np g [symmetric] refl refl] by simp
  then show ?case
    using np g GetOp2_split [OF g] by (auto simp: FindAndDelete_loop.simps [of b pc])
qed

lemma FindAndDelete_no_match: "\<not> sublist b script \<Longrightarrow> FindAndDelete script b = (script, 0)"
  by (simp add: FindAndDelete_def FindAndDelete_loop_no_match)

lemma FindAndDelete_longer: "length script < length b \<Longrightarrow> FindAndDelete script b = (script, 0)"
  by (rule FindAndDelete_no_match) (metis leD sublist_length_le)

lemma IsPushOnly_Nil [simp]: "IsPushOnly []"
  by (simp add: IsPushOnly.simps)

lemma IsPushOnly_push_data:
  "length b < 2 ^ 32 \<Longrightarrow> IsPushOnly (push_data b @ rest) = IsPushOnly rest"
proof -
  assume "length b < 2 ^ 32"
  then obtain opcode where g: "GetOp2 (push_data b @ rest) = (True, opcode, b, rest)"
    and "opcode \<le> OP_PUSHDATA4"
    using GetOp2_push_data by blast
  then have "\<not> OP_16 < opcode" by (auto simp: word_le_nat_alt word_less_nat_alt)
  moreover have "push_data b @ rest \<noteq> []" using g GetOp2_ok_nonempty by blast
  ultimately show ?thesis
    using g by (subst IsPushOnly.simps) simp
qed

section \<open>Properties\<close>

text \<open>
  Script numbers have one encoding: with the minimality rule on, the constructor of
  \<^verbatim>\<open>CScriptNum\<close> accepts exactly the bytes that \<^verbatim>\<open>serialize\<close> writes for the value, and at most four
  of them.
\<close>

theorem scriptnum_canonical:
  "CScriptNum vch True = Inr n \<longleftrightarrow> vch = CScriptNum_serialize n \<and> length vch \<le> nMaxNumSize"
  by (rule CScriptNum_minimal_iff)

text \<open>
  A pushed byte string is the next operation of the script: \<^verbatim>\<open>GetOp2\<close> decodes what
  \<^verbatim>\<open>operator<<\<close> appended into a push opcode with the same data, and stands behind it.
\<close>

theorem push_data_decodes:
  assumes "length b < 2 ^ 32"
  shows "\<exists>opcode. GetOp2 (push_data b @ rest) = (True, opcode, b, rest) \<and> opcode \<le> OP_PUSHDATA4"
  by (rule GetOp2_push_data [OF assms])

theorem push_data_decodes_witness:
  "\<exists>opcode. GetOp2 (push_data [1, 2] @ [OP_DUP]) = (True, opcode, [1, 2], [OP_DUP]) \<and> opcode \<le> OP_PUSHDATA4"
  by (rule push_data_decodes) simp

text \<open>
  \<^verbatim>\<open>FindAndDelete\<close> removes exactly the occurrences it counts, and leaves a script that does
  not contain the pattern as it is.
\<close>

theorem FindAndDelete_conserves:
  "length (fst (FindAndDelete script b)) + snd (FindAndDelete script b) * length b = length script \<and>
   (sublist b script \<or> FindAndDelete script b = (script, 0))"
  using FindAndDelete_loop_length [of b script] FindAndDelete_no_match [of b script]
  by (cases "b = []") (auto simp: FindAndDelete_def split: prod.split)

text \<open>
  The signature operations of a script are bounded by its size, and counting the keys of a
  multisignature accurately never counts more than the flat count that the block limit uses.
\<close>

theorem GetSigOpCount_bounds:
  "GetSigOpCount True script \<le> GetSigOpCount False script \<and>
   GetSigOpCount False script \<le> 20 * length script"
  using GetSigOpCount_bound [of False script] GetSigOpCount_loop_accurate_le [of 0 0]
  by (simp add: GetSigOpCount_def)

end
