(* ===== verification/Sigencoding.thy ===== *)
theory Sigencoding
  imports Script
begin

unbundle bit_operations_syntax

text \<open>
  Encoding rules for signatures and public keys: the static helpers of
  script/interpreter.cpp in front of \<^verbatim>\<open>EvalScript\<close>, the error codes of
  script/script_error.h, the verification flags of script/interpreter.h, and the range
  test of eccryptoverify.cpp.
\<close>

section \<open>Error codes and flags\<close>

datatype ScriptError =
    SCRIPT_ERR_OK
  | SCRIPT_ERR_UNKNOWN_ERROR
  | SCRIPT_ERR_EVAL_FALSE
  | SCRIPT_ERR_OP_RETURN
  | SCRIPT_ERR_SCRIPT_SIZE
  | SCRIPT_ERR_PUSH_SIZE
  | SCRIPT_ERR_OP_COUNT
  | SCRIPT_ERR_STACK_SIZE
  | SCRIPT_ERR_SIG_COUNT
  | SCRIPT_ERR_PUBKEY_COUNT
  | SCRIPT_ERR_VERIFY
  | SCRIPT_ERR_EQUALVERIFY
  | SCRIPT_ERR_CHECKMULTISIGVERIFY
  | SCRIPT_ERR_CHECKSIGVERIFY
  | SCRIPT_ERR_NUMEQUALVERIFY
  | SCRIPT_ERR_BAD_OPCODE
  | SCRIPT_ERR_DISABLED_OPCODE
  | SCRIPT_ERR_INVALID_STACK_OPERATION
  | SCRIPT_ERR_INVALID_ALTSTACK_OPERATION
  | SCRIPT_ERR_UNBALANCED_CONDITIONAL
  | SCRIPT_ERR_SIG_HASHTYPE
  | SCRIPT_ERR_SIG_DER
  | SCRIPT_ERR_MINIMALDATA
  | SCRIPT_ERR_SIG_PUSHONLY
  | SCRIPT_ERR_SIG_HIGH_S
  | SCRIPT_ERR_SIG_NULLDUMMY
  | SCRIPT_ERR_PUBKEYTYPE
  | SCRIPT_ERR_DISCOURAGE_UPGRADABLE_NOPS
  | SCRIPT_ERR_ERROR_COUNT

abbreviation (input) SCRIPT_VERIFY_NONE :: u32 where "SCRIPT_VERIFY_NONE \<equiv> 0"
abbreviation (input) SCRIPT_VERIFY_P2SH :: u32 where "SCRIPT_VERIFY_P2SH \<equiv> 0x01"
abbreviation (input) SCRIPT_VERIFY_STRICTENC :: u32 where "SCRIPT_VERIFY_STRICTENC \<equiv> 0x02"
abbreviation (input) SCRIPT_VERIFY_DERSIG :: u32 where "SCRIPT_VERIFY_DERSIG \<equiv> 0x04"
abbreviation (input) SCRIPT_VERIFY_LOW_S :: u32 where "SCRIPT_VERIFY_LOW_S \<equiv> 0x08"
abbreviation (input) SCRIPT_VERIFY_NULLDUMMY :: u32 where "SCRIPT_VERIFY_NULLDUMMY \<equiv> 0x10"
abbreviation (input) SCRIPT_VERIFY_SIGPUSHONLY :: u32 where "SCRIPT_VERIFY_SIGPUSHONLY \<equiv> 0x20"
abbreviation (input) SCRIPT_VERIFY_MINIMALDATA :: u32 where "SCRIPT_VERIFY_MINIMALDATA \<equiv> 0x40"
abbreviation (input) SCRIPT_VERIFY_DISCOURAGE_UPGRADABLE_NOPS :: u32 where
  "SCRIPT_VERIFY_DISCOURAGE_UPGRADABLE_NOPS \<equiv> 0x80"

abbreviation (input) SIGHASH_ALL :: byte where "SIGHASH_ALL \<equiv> 1"
abbreviation (input) SIGHASH_NONE :: byte where "SIGHASH_NONE \<equiv> 2"
abbreviation (input) SIGHASH_SINGLE :: byte where "SIGHASH_SINGLE \<equiv> 3"
abbreviation (input) SIGHASH_ANYONECANPAY :: byte where "SIGHASH_ANYONECANPAY \<equiv> 0x80"

section \<open>Public keys and signatures\<close>

definition IsCompressedOrUncompressedPubKey :: "valtype \<Rightarrow> bool" where
  "IsCompressedOrUncompressedPubKey vchPubKey =
     (if length vchPubKey < 33 then False
      else if vchPubKey ! 0 = 0x04 then length vchPubKey = 65
      else if vchPubKey ! 0 = 0x02 \<or> vchPubKey ! 0 = 0x03 then length vchPubKey = 33
      else False)"

definition IsValidSignatureEncoding :: "valtype \<Rightarrow> bool" where
  "IsValidSignatureEncoding sig =
     (if length sig < 9 then False
      else if length sig > 73 then False
      else if sig ! 0 \<noteq> 0x30 then False
      else if unat (sig ! 1) \<noteq> length sig - 3 then False
      else
        let lenR = unat (sig ! 3) in
        if 5 + lenR \<ge> length sig then False
        else
          let lenS = unat (sig ! (5 + lenR)) in
          if lenR + lenS + 7 \<noteq> length sig then False
          else if sig ! 2 \<noteq> 0x02 then False
          else if lenR = 0 then False
          else if sig ! 4 AND 0x80 \<noteq> 0 then False
          else if lenR > 1 \<and> sig ! 4 = 0x00 \<and> sig ! 5 AND 0x80 = 0 then False
          else if sig ! (lenR + 4) \<noteq> 0x02 then False
          else if lenS = 0 then False
          else if sig ! (lenR + 6) AND 0x80 \<noteq> 0 then False
          else if lenS > 1 \<and> sig ! (lenR + 6) = 0x00 \<and> sig ! (lenR + 7) AND 0x80 = 0 then False
          else True)"

text \<open>
  \<^verbatim>\<open>CompareBigEndian\<close> compares two byte strings as big-endian numbers. The first two
  loops skip the leading zeros of the longer one.
\<close>

fun CompareBigEndian_eq :: "valtype \<Rightarrow> valtype \<Rightarrow> int" where
  "CompareBigEndian_eq (a # as) (b # bs) =
     (if a > b then 1 else if b > a then - 1 else CompareBigEndian_eq as bs)"
| "CompareBigEndian_eq _ _ = 0"

fun CompareBigEndian :: "valtype \<Rightarrow> valtype \<Rightarrow> int" where
  "CompareBigEndian c1 c2 =
     (if length c1 > length c2 then
        if hd c1 \<noteq> 0 then 1 else CompareBigEndian (tl c1) c2
      else if length c2 > length c1 then
        if hd c2 \<noteq> 0 then - 1 else CompareBigEndian c1 (tl c2)
      else CompareBigEndian_eq c1 c2)"

declare CompareBigEndian.simps [simp del]

definition vchMaxModOrder :: valtype where
  "vchMaxModOrder =
    [0xFF, 0xFF, 0xFF, 0xFF, 0xFF, 0xFF, 0xFF, 0xFF,
     0xFF, 0xFF, 0xFF, 0xFF, 0xFF, 0xFF, 0xFF, 0xFE,
     0xBA, 0xAE, 0xDC, 0xE6, 0xAF, 0x48, 0xA0, 0x3B,
     0xBF, 0xD2, 0x5E, 0x8C, 0xD0, 0x36, 0x41, 0x40]"

definition vchMaxModHalfOrder :: valtype where
  "vchMaxModHalfOrder =
    [0x7F, 0xFF, 0xFF, 0xFF, 0xFF, 0xFF, 0xFF, 0xFF,
     0xFF, 0xFF, 0xFF, 0xFF, 0xFF, 0xFF, 0xFF, 0xFF,
     0x5D, 0x57, 0x6E, 0x73, 0x57, 0xA4, 0x50, 0x1D,
     0xDF, 0xE9, 0x2F, 0x46, 0x68, 0x1B, 0x20, 0xA0]"

definition CheckSignatureElement :: "valtype \<Rightarrow> bool \<Rightarrow> bool" where
  "CheckSignatureElement vch half \<longleftrightarrow>
     CompareBigEndian vch [] > 0 \<and>
     CompareBigEndian vch (if half then vchMaxModHalfOrder else vchMaxModOrder) \<le> 0"

text \<open>
  A check that returns \<^verbatim>\<open>false\<close> after \<^verbatim>\<open>set_error\<close> is \<open>Some\<close> of the error it set; a
  passed check is \<open>None\<close>.
\<close>

definition IsLowDERSignature :: "valtype \<Rightarrow> ScriptError option" where
  "IsLowDERSignature vchSig =
     (if \<not> IsValidSignatureEncoding vchSig then Some SCRIPT_ERR_SIG_DER
      else
        let nLenR = unat (vchSig ! 3);
            nLenS = unat (vchSig ! (5 + nLenR));
            S = take nLenS (drop (6 + nLenR) vchSig)
        in if \<not> CheckSignatureElement S True then Some SCRIPT_ERR_SIG_HIGH_S else None)"

definition IsDefinedHashtypeSignature :: "valtype \<Rightarrow> bool" where
  "IsDefinedHashtypeSignature vchSig =
     (if vchSig = [] then False
      else
        let nHashType = last vchSig AND NOT SIGHASH_ANYONECANPAY
        in \<not> (nHashType < SIGHASH_ALL \<or> nHashType > SIGHASH_SINGLE))"

definition CheckSignatureEncoding :: "valtype \<Rightarrow> u32 \<Rightarrow> ScriptError option" where
  "CheckSignatureEncoding vchSig flags =
     (if vchSig = [] then None
      else if has_flag flags (SCRIPT_VERIFY_DERSIG OR SCRIPT_VERIFY_LOW_S OR SCRIPT_VERIFY_STRICTENC)
        \<and> \<not> IsValidSignatureEncoding vchSig then Some SCRIPT_ERR_SIG_DER
      else if has_flag flags SCRIPT_VERIFY_LOW_S \<and> IsLowDERSignature vchSig \<noteq> None
        then IsLowDERSignature vchSig
      else if has_flag flags SCRIPT_VERIFY_STRICTENC \<and> \<not> IsDefinedHashtypeSignature vchSig
        then Some SCRIPT_ERR_SIG_HASHTYPE
      else None)"

definition CheckPubKeyEncoding :: "valtype \<Rightarrow> u32 \<Rightarrow> ScriptError option" where
  "CheckPubKeyEncoding vchPubKey flags =
     (if has_flag flags SCRIPT_VERIFY_STRICTENC \<and> \<not> IsCompressedOrUncompressedPubKey vchPubKey
      then Some SCRIPT_ERR_PUBKEYTYPE
      else None)"

definition CheckMinimalPush :: "valtype \<Rightarrow> opcodetype \<Rightarrow> bool" where
  "CheckMinimalPush data opcode =
     (if length data = 0 then opcode = OP_0
      else if length data = 1 \<and> data ! 0 \<ge> 1 \<and> data ! 0 \<le> 16 then opcode = OP_1 + (data ! 0 - 1)
      else if length data = 1 \<and> data ! 0 = 0x81 then opcode = OP_1NEGATE
      else if length data \<le> 75 then unat opcode = length data
      else if length data \<le> 255 then opcode = OP_PUSHDATA1
      else if length data \<le> 65535 then opcode = OP_PUSHDATA2
      else True)"

section \<open>The declarative form of the signature encoding\<close>

text \<open>
  A positive DER integer: not empty, its first byte without the sign bit, and a leading
  zero byte only where the next byte would otherwise read as a sign.
\<close>

definition der_int :: "valtype \<Rightarrow> bool" where
  "der_int x \<longleftrightarrow>
     x \<noteq> [] \<and> unat (hd x) < 128 \<and>
     (1 < length x \<and> hd x = 0 \<longrightarrow> 128 \<le> unat (x ! 1))"

definition der_sig :: "valtype \<Rightarrow> valtype \<Rightarrow> valtype \<Rightarrow> byte \<Rightarrow> bool" where
  "der_sig sig R S hashtype \<longleftrightarrow>
     length sig \<le> 73 \<and> der_int R \<and> der_int S \<and>
     sig = [0x30, word_of_nat (length R + length S + 4), 0x02, word_of_nat (length R)] @ R @
           [0x02, word_of_nat (length S)] @ S @ [hashtype]"

lemma list_split_fields:
  assumes "length sig = r + s + 7"
  obtains a0 a1 a2 a3 R b0 b1 S h where
    "sig = [a0, a1, a2, a3] @ R @ [b0, b1] @ S @ [h]" "length R = r" "length S = s"
proof -
  have "drop (6 + r) sig = take s (drop (6 + r) sig) @ drop (6 + r + s) sig"
    by (metis add.commute append_take_drop_id drop_drop)
  moreover have "drop (4 + r) sig = take 2 (drop (4 + r) sig) @ drop (6 + r) sig"
    using append_take_drop_id [of 2 "drop (4 + r) sig"] by simp
  moreover have "drop 4 sig = take r (drop 4 sig) @ drop (4 + r) sig"
    by (metis add.commute append_take_drop_id drop_drop)
  ultimately have 1: "sig = take 4 sig @ take r (drop 4 sig) @ take 2 (drop (4 + r) sig) @
      take s (drop (6 + r) sig) @ drop (6 + r + s) sig"
    by (metis append_take_drop_id)
  have "length (take 4 sig) = 4" "length (take 2 (drop (4 + r) sig)) = 2"
    "length (drop (6 + r + s) sig) = 1"
    using assms by simp_all
  then obtain a0 a1 a2 a3 b0 b1 h where "take 4 sig = [a0, a1, a2, a3]"
    "take 2 (drop (4 + r) sig) = [b0, b1]" "drop (6 + r + s) sig = [h]"
    by (metis length_1_list length_2_list length_4_list)
  moreover have "length (take r (drop 4 sig)) = r" "length (take s (drop (6 + r) sig)) = s"
    using assms by simp_all
  ultimately show ?thesis using that 1 by metis
qed

lemma der_int_iff_nth:
  "der_int x \<longleftrightarrow> x \<noteq> [] \<and> unat (x ! 0) < 128 \<and> \<not> (1 < length x \<and> x ! 0 = 0 \<and> unat (x ! 1) < 128)"
  by (cases x) (auto simp: der_int_def)

lemma IsValidSignatureEncoding_fields:
  assumes sig: "sig = [a0, a1, a2, a3] @ R @ [b0, b1] @ S @ [h]"
    and r: "unat a3 = length R"
  shows "IsValidSignatureEncoding sig \<longleftrightarrow>
    length sig \<le> 73 \<and> a0 = 0x30 \<and> unat a1 = length R + length S + 4 \<and> a2 = 0x02 \<and> b0 = 0x02 \<and>
    unat b1 = length S \<and> der_int R \<and> der_int S"
proof -
  have len: "length sig = length R + length S + 7" by (simp add: sig)
  have n: "sig ! 0 = a0" "sig ! 1 = a1" "sig ! 2 = a2" "sig ! 3 = a3"
    by (simp_all add: sig)
  have b: "sig ! (5 + length R) = b1" "sig ! (length R + 4) = b0"
    by (simp_all add: sig nth_append)
  have R: "R \<noteq> [] \<Longrightarrow> sig ! 4 = R ! 0" "1 < length R \<Longrightarrow> sig ! 5 = R ! 1"
    by (simp_all add: sig nth_append)
  have S: "S \<noteq> [] \<Longrightarrow> sig ! (length R + 6) = S ! 0" "1 < length S \<Longrightarrow> sig ! (length R + 7) = S ! 1"
    by (simp_all add: sig nth_append)
  have two: "R \<noteq> [] \<Longrightarrow> S \<noteq> [] \<Longrightarrow> 2 \<le> length R + length S"
    by (cases R; cases S) auto
  show ?thesis
    unfolding IsValidSignatureEncoding_def Let_def n r b len der_int_iff_nth byte_0x80 byte_and_0x80
    using R S two by (cases "R = []"; cases "S = []") auto
qed

lemma IsValidSignatureEncoding_iff: "IsValidSignatureEncoding sig \<longleftrightarrow> (\<exists>R S h. der_sig sig R S h)"
proof
  assume v: "IsValidSignatureEncoding sig"
  define r where "r = unat (sig ! 3)"
  define s where "s = unat (sig ! (5 + r))"
  have "length sig = r + s + 7"
    using v by (auto simp: IsValidSignatureEncoding_def Let_def r_def s_def split: if_splits)
  then obtain a0 a1 a2 a3 R b0 b1 S h where
    sig: "sig = [a0, a1, a2, a3] @ R @ [b0, b1] @ S @ [h]" and R: "length R = r" "length S = s"
    by (rule list_split_fields)
  have a3: "unat a3 = length R" using R by (simp add: r_def sig)
  note f = v [unfolded IsValidSignatureEncoding_fields [OF sig a3]]
  then have "a1 = word_of_nat (length R + length S + 4)" "a3 = word_of_nat (length R)"
    "b1 = word_of_nat (length S)"
    using a3 by (blast intro: byte_of_unat)+
  with f sig show "\<exists>R S h. der_sig sig R S h" unfolding der_sig_def by blast
next
  assume "\<exists>R S h. der_sig sig R S h"
  then obtain R S h where d: "der_sig sig R S h" by blast
  then have sig: "sig = [0x30, word_of_nat (length R + length S + 4), 0x02, word_of_nat (length R)] @ R @
           [0x02, word_of_nat (length S)] @ S @ [h]"
    and l: "length sig \<le> 73" and i: "der_int R" "der_int S"
    unfolding der_sig_def by blast+
  have "length sig = length R + length S + 7" by (subst sig) simp
  with l have lr: "length R + length S + 7 \<le> 73" by simp
  have u: "unat (word_of_nat (length R) :: byte) = length R"
    "unat (word_of_nat (length S) :: byte) = length S"
    "unat (word_of_nat (length R + length S + 4) :: byte) = length R + length S + 4"
    using lr by (subst unat_byte_of_nat; simp)+
  show "IsValidSignatureEncoding sig"
    unfolding IsValidSignatureEncoding_fields [OF sig u(1)] using l i u by simp
qed

lemma CompareBigEndian_eq_spec:
  "length c1 = length c2 \<Longrightarrow> CompareBigEndian_eq c1 c2 = sgn (int (be_val c1) - int (be_val c2))"
proof (induction c1 c2 rule: CompareBigEndian_eq.induct)
  case (1 a as b bs)
  consider "a < b" | "b < a" | "a = b" by fastforce
  then show ?case
  proof cases
    case 1
    then have "be_val (a # as) < be_val (b # bs)"
      using "1.prems" by (intro be_val_Cons_less) simp_all
    then have "sgn (int (be_val (a # as)) - int (be_val (b # bs))) = - 1"
      by (rule sgn_diff_nat)
    with 1 show ?thesis by (simp del: be_val_Cons)
  next
    case 2
    then have "be_val (b # bs) < be_val (a # as)"
      using "1.prems" by (intro be_val_Cons_less) simp_all
    then have "sgn (int (be_val (a # as)) - int (be_val (b # bs))) = 1"
      by (rule sgn_diff_nat)
    with 2 show ?thesis by (simp del: be_val_Cons)
  next
    case 3
    with 1 show ?thesis by simp
  qed
qed auto

lemma CompareBigEndian_spec:
  "CompareBigEndian c1 c2 = sgn (int (be_val c1) - int (be_val c2))"
proof (induction c1 c2 rule: CompareBigEndian.induct)
  case (1 c1 c2)
  consider "length c2 < length c1" | "length c1 < length c2" | "length c1 = length c2" by linarith
  then show ?case
  proof cases
    case 1
    then obtain x xs where x: "c1 = x # xs" by (cases c1) auto
    show ?thesis
    proof (cases "x = 0")
      case True
      with 1 "1.IH"(1) x show ?thesis by (subst CompareBigEndian.simps) simp
    next
      case False
      then have "be_val c2 < be_val c1" using 1 x by (intro be_val_pos_bound) auto
      then have "sgn (int (be_val c1) - int (be_val c2)) = 1" by (rule sgn_diff_nat)
      with False 1 x show ?thesis by (subst CompareBigEndian.simps) (simp del: be_val_Cons)
    qed
  next
    case 2
    then obtain x xs where x: "c2 = x # xs" by (cases c2) auto
    show ?thesis
    proof (cases "x = 0")
      case True
      with 2 "1.IH"(2) x show ?thesis by (subst CompareBigEndian.simps) simp
    next
      case False
      then have "be_val c1 < be_val c2" using 2 x by (intro be_val_pos_bound) auto
      then have "sgn (int (be_val c1) - int (be_val c2)) = - 1" by (rule sgn_diff_nat)
      with False 2 x show ?thesis by (subst CompareBigEndian.simps) (simp del: be_val_Cons)
    qed
  next
    case 3
    then show ?thesis
      by (subst CompareBigEndian.simps) (simp add: CompareBigEndian_eq_spec)
  qed
qed

lemma be_val_MaxModHalfOrder:
  "be_val vchMaxModHalfOrder =
     0x7FFFFFFFFFFFFFFFFFFFFFFFFFFFFFFF5D576E7357A4501DDFE92F46681B20A0"
  unfolding vchMaxModHalfOrder_def by simp

lemma be_val_MaxModOrder:
  "be_val vchMaxModOrder =
     0xFFFFFFFFFFFFFFFFFFFFFFFFFFFFFFFEBAAEDCE6AF48A03BBFD25E8CD0364140"
  unfolding vchMaxModOrder_def by simp

lemma CheckSignatureElement_spec:
  "CheckSignatureElement vch half \<longleftrightarrow>
     0 < be_val vch \<and>
     be_val vch \<le> (if half then 0x7FFFFFFFFFFFFFFFFFFFFFFFFFFFFFFF5D576E7357A4501DDFE92F46681B20A0
                   else 0xFFFFFFFFFFFFFFFFFFFFFFFFFFFFFFFEBAAEDCE6AF48A03BBFD25E8CD0364140)"
  by (auto simp: CheckSignatureElement_def CompareBigEndian_spec sgn_if
        be_val_MaxModHalfOrder be_val_MaxModOrder split: if_splits)

section \<open>Properties\<close>

text \<open>
  C38: The byte tests of \<^verbatim>\<open>IsValidSignatureEncoding\<close> accept exactly the strict DER form: the
  sequence of two positive minimal integers, of at most 73 bytes with the hash type, with the
  lengths that the headers announce.
\<close>

theorem signature_encoding_strict_der:
  "IsValidSignatureEncoding sig \<longleftrightarrow> (\<exists>R S hashtype. der_sig sig R S hashtype)"
  by (rule IsValidSignatureEncoding_iff)

text \<open>
  \<^verbatim>\<open>CheckSignatureElement\<close> compares byte strings of any length as numbers: it accepts the
  big-endian numbers from one to the group order minus one, or to half of the order for the
  low-S rule.
\<close>

theorem signature_element_range:
  "CheckSignatureElement vch half \<longleftrightarrow>
     0 < be_val vch \<and>
     be_val vch \<le> (if half then 0x7FFFFFFFFFFFFFFFFFFFFFFFFFFFFFFF5D576E7357A4501DDFE92F46681B20A0
                   else 0xFFFFFFFFFFFFFFFFFFFFFFFFFFFFFFFEBAAEDCE6AF48A03BBFD25E8CD0364140)"
  by (rule CheckSignatureElement_spec)

end
