(* ===== verification/Interpreter.thy ===== *)
theory Interpreter
  imports Sigencoding
begin

unbundle bit_operations_syntax

text \<open>
  The script machine of script/interpreter.cpp: \<^verbatim>\<open>EvalScript\<close>, with one definition per
  group of \<^verbatim>\<open>case\<close> labels of its switch, and \<^verbatim>\<open>VerifyScript\<close>. A stack is a list with
  its top (the vector's \<^verbatim>\<open>back\<close>) at the head. Every \<^verbatim>\<open>return set_error(...)\<close> and every
  exception that the surrounding \<^verbatim>\<open>try\<close> turns into \<^verbatim>\<open>SCRIPT_ERR_UNKNOWN_ERROR\<close> is a left
  summand. The three digests and the signature checker are fields of an environment.
\<close>

section \<open>Environment and state\<close>

text \<open>
  The parameters of \<^verbatim>\<open>EvalScript\<close>: the flags, the virtual \<^verbatim>\<open>BaseSignatureChecker::CheckSig\<close>
  and the digests \<^verbatim>\<open>CRIPEMD160\<close>, \<^verbatim>\<open>CSHA1\<close> and \<^verbatim>\<open>CSHA256\<close>.
\<close>

record eval_env =
  env_flags :: u32
  env_CheckSig :: "valtype \<Rightarrow> valtype \<Rightarrow> CScript \<Rightarrow> bool"
  env_ripemd160 :: "valtype \<Rightarrow> valtype"
  env_sha1 :: "valtype \<Rightarrow> valtype"
  env_sha256 :: "valtype \<Rightarrow> valtype"

text \<open>
  The local variables of \<^verbatim>\<open>EvalScript\<close> other than \<^verbatim>\<open>pc\<close>. \<open>es_vfExec\<close> has the innermost
  condition at its head; \<open>es_codehash\<close> is the script from \<^verbatim>\<open>pbegincodehash\<close> on.
\<close>

record eval_state =
  es_stack :: "valtype list"
  es_altstack :: "valtype list"
  es_vfExec :: "bool list"
  es_nOpCount :: nat
  es_codehash :: CScript

type_synonym stack_result = "ScriptError + valtype list"

definition fRequireMinimal :: "eval_env \<Rightarrow> bool" where
  "fRequireMinimal env = has_flag (env_flags env) SCRIPT_VERIFY_MINIMALDATA"

text \<open>\<^verbatim>\<open>CHash160\<close> and \<^verbatim>\<open>CHash256\<close> of hash.h.\<close>

definition Hash160 :: "eval_env \<Rightarrow> valtype \<Rightarrow> valtype" where
  "Hash160 env vch = env_ripemd160 env (env_sha256 env vch)"

definition Hash256 :: "eval_env \<Rightarrow> valtype \<Rightarrow> valtype" where
  "Hash256 env vch = env_sha256 env (env_sha256 env vch)"

fun CastToBool :: "valtype \<Rightarrow> bool" where
  "CastToBool [] = False"
| "CastToBool (b # bs) = (if b \<noteq> 0 then \<not> (bs = [] \<and> b = 0x80) else CastToBool bs)"

definition vchBool :: "bool \<Rightarrow> valtype" where
  "vchBool f = (if f then [1] else [])"

text \<open>Reading a number operand: a \<^verbatim>\<open>scriptnum_error\<close> ends in the \<^verbatim>\<open>catch\<close> of \<^verbatim>\<open>EvalScript\<close>.\<close>

definition stacknum :: "eval_env \<Rightarrow> valtype \<Rightarrow> ScriptError + int" where
  "stacknum env vch =
     (case CScriptNum vch (fRequireMinimal env) of
        Inl _ \<Rightarrow> Inl SCRIPT_ERR_UNKNOWN_ERROR
      | Inr n \<Rightarrow> Inr n)"

section \<open>Stack operations\<close>

fun op_verify :: "valtype list \<Rightarrow> stack_result" where
  "op_verify (x # s) = (if CastToBool x then Inr s else Inl SCRIPT_ERR_VERIFY)"
| "op_verify _ = Inl SCRIPT_ERR_INVALID_STACK_OPERATION"

fun op_2drop :: "valtype list \<Rightarrow> stack_result" where
  "op_2drop (x2 # x1 # s) = Inr s"
| "op_2drop _ = Inl SCRIPT_ERR_INVALID_STACK_OPERATION"

fun op_2dup :: "valtype list \<Rightarrow> stack_result" where
  "op_2dup (x2 # x1 # s) = Inr (x2 # x1 # x2 # x1 # s)"
| "op_2dup _ = Inl SCRIPT_ERR_INVALID_STACK_OPERATION"

fun op_3dup :: "valtype list \<Rightarrow> stack_result" where
  "op_3dup (x3 # x2 # x1 # s) = Inr (x3 # x2 # x1 # x3 # x2 # x1 # s)"
| "op_3dup _ = Inl SCRIPT_ERR_INVALID_STACK_OPERATION"

fun op_2over :: "valtype list \<Rightarrow> stack_result" where
  "op_2over (x4 # x3 # x2 # x1 # s) = Inr (x2 # x1 # x4 # x3 # x2 # x1 # s)"
| "op_2over _ = Inl SCRIPT_ERR_INVALID_STACK_OPERATION"

fun op_2rot :: "valtype list \<Rightarrow> stack_result" where
  "op_2rot (x6 # x5 # x4 # x3 # x2 # x1 # s) = Inr (x2 # x1 # x6 # x5 # x4 # x3 # s)"
| "op_2rot _ = Inl SCRIPT_ERR_INVALID_STACK_OPERATION"

fun op_2swap :: "valtype list \<Rightarrow> stack_result" where
  "op_2swap (x4 # x3 # x2 # x1 # s) = Inr (x2 # x1 # x4 # x3 # s)"
| "op_2swap _ = Inl SCRIPT_ERR_INVALID_STACK_OPERATION"

fun op_ifdup :: "valtype list \<Rightarrow> stack_result" where
  "op_ifdup (x # s) = Inr (if CastToBool x then x # x # s else x # s)"
| "op_ifdup _ = Inl SCRIPT_ERR_INVALID_STACK_OPERATION"

definition op_depth :: "valtype list \<Rightarrow> stack_result" where
  "op_depth s = Inr (CScriptNum_serialize (int (length s)) # s)"

fun op_drop :: "valtype list \<Rightarrow> stack_result" where
  "op_drop (x # s) = Inr s"
| "op_drop _ = Inl SCRIPT_ERR_INVALID_STACK_OPERATION"

fun op_dup :: "valtype list \<Rightarrow> stack_result" where
  "op_dup (x # s) = Inr (x # x # s)"
| "op_dup _ = Inl SCRIPT_ERR_INVALID_STACK_OPERATION"

fun op_nip :: "valtype list \<Rightarrow> stack_result" where
  "op_nip (x2 # x1 # s) = Inr (x2 # s)"
| "op_nip _ = Inl SCRIPT_ERR_INVALID_STACK_OPERATION"

fun op_over :: "valtype list \<Rightarrow> stack_result" where
  "op_over (x2 # x1 # s) = Inr (x1 # x2 # x1 # s)"
| "op_over _ = Inl SCRIPT_ERR_INVALID_STACK_OPERATION"

text \<open>\<^verbatim>\<open>OP_PICK\<close> copies and \<^verbatim>\<open>OP_ROLL\<close> moves the element at depth \<open>n\<close> to the top.\<close>

fun op_pick_roll :: "eval_env \<Rightarrow> opcodetype \<Rightarrow> valtype list \<Rightarrow> stack_result" where
  "op_pick_roll env opcode (x # y # s) =
     (case stacknum env x of
        Inl e \<Rightarrow> Inl e
      | Inr bn \<Rightarrow>
          let n = CScriptNum_getint bn; st = y # s in
          if n < 0 \<or> n \<ge> int (length st) then Inl SCRIPT_ERR_INVALID_STACK_OPERATION
          else
            let vch = st ! nat n in
            if opcode = OP_ROLL then Inr (vch # take (nat n) st @ drop (Suc (nat n)) st)
            else Inr (vch # st))"
| "op_pick_roll env opcode _ = Inl SCRIPT_ERR_INVALID_STACK_OPERATION"

fun op_rot :: "valtype list \<Rightarrow> stack_result" where
  "op_rot (x3 # x2 # x1 # s) = Inr (x1 # x3 # x2 # s)"
| "op_rot _ = Inl SCRIPT_ERR_INVALID_STACK_OPERATION"

fun op_swap :: "valtype list \<Rightarrow> stack_result" where
  "op_swap (x2 # x1 # s) = Inr (x1 # x2 # s)"
| "op_swap _ = Inl SCRIPT_ERR_INVALID_STACK_OPERATION"

fun op_tuck :: "valtype list \<Rightarrow> stack_result" where
  "op_tuck (x2 # x1 # s) = Inr (x2 # x1 # x2 # s)"
| "op_tuck _ = Inl SCRIPT_ERR_INVALID_STACK_OPERATION"

fun op_size :: "valtype list \<Rightarrow> stack_result" where
  "op_size (x # s) = Inr (CScriptNum_serialize (int (length x)) # x # s)"
| "op_size _ = Inl SCRIPT_ERR_INVALID_STACK_OPERATION"

text \<open>\<^verbatim>\<open>OP_EQUAL\<close>, \<^verbatim>\<open>OP_EQUALVERIFY\<close>.\<close>

fun op_equal :: "opcodetype \<Rightarrow> valtype list \<Rightarrow> stack_result" where
  "op_equal opcode (x2 # x1 # s) =
     (let fEqual = (x1 = x2) in
      if opcode = OP_EQUALVERIFY then
        if fEqual then Inr s else Inl SCRIPT_ERR_EQUALVERIFY
      else Inr (vchBool fEqual # s))"
| "op_equal opcode _ = Inl SCRIPT_ERR_INVALID_STACK_OPERATION"

section \<open>Numeric operations\<close>

definition of_bool_num :: "bool \<Rightarrow> int" where
  "of_bool_num f = (if f then 1 else 0)"

definition unary_num :: "opcodetype \<Rightarrow> int \<Rightarrow> int" where
  "unary_num opcode bn =
     (if opcode = OP_1ADD then bn + 1
      else if opcode = OP_1SUB then bn - 1
      else if opcode = OP_NEGATE then - bn
      else if opcode = OP_ABS then (if bn < 0 then - bn else bn)
      else if opcode = OP_NOT then of_bool_num (bn = 0)
      else of_bool_num (bn \<noteq> 0))"

fun op_unary_num :: "eval_env \<Rightarrow> opcodetype \<Rightarrow> valtype list \<Rightarrow> stack_result" where
  "op_unary_num env opcode (x # s) =
     (case stacknum env x of
        Inl e \<Rightarrow> Inl e
      | Inr bn \<Rightarrow> Inr (CScriptNum_serialize (unary_num opcode bn) # s))"
| "op_unary_num env opcode _ = Inl SCRIPT_ERR_INVALID_STACK_OPERATION"

definition binary_num :: "opcodetype \<Rightarrow> int \<Rightarrow> int \<Rightarrow> int" where
  "binary_num opcode bn1 bn2 =
     (if opcode = OP_ADD then bn1 + bn2
      else if opcode = OP_SUB then bn1 - bn2
      else if opcode = OP_BOOLAND then of_bool_num (bn1 \<noteq> 0 \<and> bn2 \<noteq> 0)
      else if opcode = OP_BOOLOR then of_bool_num (bn1 \<noteq> 0 \<or> bn2 \<noteq> 0)
      else if opcode = OP_NUMEQUAL then of_bool_num (bn1 = bn2)
      else if opcode = OP_NUMEQUALVERIFY then of_bool_num (bn1 = bn2)
      else if opcode = OP_NUMNOTEQUAL then of_bool_num (bn1 \<noteq> bn2)
      else if opcode = OP_LESSTHAN then of_bool_num (bn1 < bn2)
      else if opcode = OP_GREATERTHAN then of_bool_num (bn1 > bn2)
      else if opcode = OP_LESSTHANOREQUAL then of_bool_num (bn1 \<le> bn2)
      else if opcode = OP_GREATERTHANOREQUAL then of_bool_num (bn1 \<ge> bn2)
      else if opcode = OP_MIN then (if bn1 < bn2 then bn1 else bn2)
      else (if bn1 > bn2 then bn1 else bn2))"

fun op_binary_num :: "eval_env \<Rightarrow> opcodetype \<Rightarrow> valtype list \<Rightarrow> stack_result" where
  "op_binary_num env opcode (x2 # x1 # s) =
     (case stacknum env x1 of
        Inl e \<Rightarrow> Inl e
      | Inr bn1 \<Rightarrow>
          (case stacknum env x2 of
             Inl e \<Rightarrow> Inl e
           | Inr bn2 \<Rightarrow>
               let vch = CScriptNum_serialize (binary_num opcode bn1 bn2) in
               if opcode = OP_NUMEQUALVERIFY then
                 if CastToBool vch then Inr s else Inl SCRIPT_ERR_NUMEQUALVERIFY
               else Inr (vch # s)))"
| "op_binary_num env opcode _ = Inl SCRIPT_ERR_INVALID_STACK_OPERATION"

fun op_within :: "eval_env \<Rightarrow> valtype list \<Rightarrow> stack_result" where
  "op_within env (x3 # x2 # x1 # s) =
     (case stacknum env x1 of
        Inl e \<Rightarrow> Inl e
      | Inr bn1 \<Rightarrow>
          (case stacknum env x2 of
             Inl e \<Rightarrow> Inl e
           | Inr bn2 \<Rightarrow>
               (case stacknum env x3 of
                  Inl e \<Rightarrow> Inl e
                | Inr bn3 \<Rightarrow> Inr (vchBool (bn2 \<le> bn1 \<and> bn1 < bn3) # s))))"
| "op_within env _ = Inl SCRIPT_ERR_INVALID_STACK_OPERATION"

section \<open>Cryptographic operations\<close>

fun op_hash :: "eval_env \<Rightarrow> opcodetype \<Rightarrow> valtype list \<Rightarrow> stack_result" where
  "op_hash env opcode (vch # s) =
     Inr ((if opcode = OP_RIPEMD160 then env_ripemd160 env vch
           else if opcode = OP_SHA1 then env_sha1 env vch
           else if opcode = OP_SHA256 then env_sha256 env vch
           else if opcode = OP_HASH160 then Hash160 env vch
           else Hash256 env vch) # s)"
| "op_hash env opcode _ = Inl SCRIPT_ERR_INVALID_STACK_OPERATION"

text \<open>Both encoding checks of a signature and the key it is checked against.\<close>

definition CheckEncodings :: "eval_env \<Rightarrow> valtype \<Rightarrow> valtype \<Rightarrow> ScriptError option" where
  "CheckEncodings env vchSig vchPubKey =
     (case CheckSignatureEncoding vchSig (env_flags env) of
        Some e \<Rightarrow> Some e
      | None \<Rightarrow> CheckPubKeyEncoding vchPubKey (env_flags env))"

text \<open>\<^verbatim>\<open>OP_CHECKSIG\<close>, \<^verbatim>\<open>OP_CHECKSIGVERIFY\<close>.\<close>

fun op_checksig :: "eval_env \<Rightarrow> opcodetype \<Rightarrow> CScript \<Rightarrow> valtype list \<Rightarrow> stack_result" where
  "op_checksig env opcode codehash (vchPubKey # vchSig # s) =
     (let scriptCode = fst (FindAndDelete codehash (push_data vchSig)) in
      case CheckEncodings env vchSig vchPubKey of
        Some e \<Rightarrow> Inl e
      | None \<Rightarrow>
          let fSuccess = env_CheckSig env vchSig vchPubKey scriptCode in
          if opcode = OP_CHECKSIGVERIFY then
            if fSuccess then Inr s else Inl SCRIPT_ERR_CHECKSIGVERIFY
          else Inr (vchBool fSuccess # s))"
| "op_checksig env opcode codehash _ = Inl SCRIPT_ERR_INVALID_STACK_OPERATION"

text \<open>
  The matching loop of \<^verbatim>\<open>OP_CHECKMULTISIG\<close>, over the signatures and keys that are left;
  \<^verbatim>\<open>nSigsCount\<close> and \<^verbatim>\<open>nKeysCount\<close> are the lengths of the two lists. The caller has made sure
  that there are at least as many keys as signatures, and the loop keeps it so: the last
  equation is not reached.
\<close>

fun multisig_loop :: "eval_env \<Rightarrow> CScript \<Rightarrow> valtype list \<Rightarrow> valtype list \<Rightarrow> ScriptError + bool" where
  "multisig_loop env scriptCode [] keys = Inr True"
| "multisig_loop env scriptCode (vchSig # sigs) (vchPubKey # keys) =
     (case CheckEncodings env vchSig vchPubKey of
        Some e \<Rightarrow> Inl e
      | None \<Rightarrow>
          let fOk = env_CheckSig env vchSig vchPubKey scriptCode;
              sigs' = (if fOk then sigs else vchSig # sigs)
          in if length sigs' > length keys then Inr False
             else multisig_loop env scriptCode sigs' keys)"
| "multisig_loop env scriptCode (vchSig # sigs) [] = Inr False"

text \<open>
  \<^verbatim>\<open>OP_CHECKMULTISIG\<close>, \<^verbatim>\<open>OP_CHECKMULTISIGVERIFY\<close>: the new stack and the operation count
  increased by the number of keys.
\<close>

definition op_checkmultisig ::
    "eval_env \<Rightarrow> opcodetype \<Rightarrow> CScript \<Rightarrow> nat \<Rightarrow> valtype list \<Rightarrow> ScriptError + valtype list \<times> nat" where
  "op_checkmultisig env opcode codehash nOpCount stack =
     (if length stack < 1 then Inl SCRIPT_ERR_INVALID_STACK_OPERATION
      else case stacknum env (stack ! 0) of Inl e \<Rightarrow> Inl e | Inr bnKeys \<Rightarrow>
      if CScriptNum_getint bnKeys < 0 \<or> CScriptNum_getint bnKeys > 20 then Inl SCRIPT_ERR_PUBKEY_COUNT
      else
        let nKeysCount = nat (CScriptNum_getint bnKeys); nOpCount = nOpCount + nKeysCount in
        if nOpCount > 201 then Inl SCRIPT_ERR_OP_COUNT
        else if length stack < 2 + nKeysCount then Inl SCRIPT_ERR_INVALID_STACK_OPERATION
        else case stacknum env (stack ! (1 + nKeysCount)) of Inl e \<Rightarrow> Inl e | Inr bnSigs \<Rightarrow>
        if CScriptNum_getint bnSigs < 0 \<or> CScriptNum_getint bnSigs > int nKeysCount
        then Inl SCRIPT_ERR_SIG_COUNT
        else
          let nSigsCount = nat (CScriptNum_getint bnSigs) in
          if length stack < 3 + nKeysCount + nSigsCount
          then Inl SCRIPT_ERR_INVALID_STACK_OPERATION
          else
            let keys = take nKeysCount (drop 1 stack);
                sigs = take nSigsCount (drop (2 + nKeysCount) stack);
                scriptCode = foldl (\<lambda>sc vchSig. fst (FindAndDelete sc (push_data vchSig))) codehash sigs
            in case multisig_loop env scriptCode sigs keys of Inl e \<Rightarrow> Inl e | Inr fSuccess \<Rightarrow>
            let stack = drop (2 + nKeysCount + nSigsCount) stack in
            if length stack < 1 then Inl SCRIPT_ERR_INVALID_STACK_OPERATION
            else if has_flag (env_flags env) SCRIPT_VERIFY_NULLDUMMY \<and> length (hd stack) \<noteq> 0
            then Inl SCRIPT_ERR_SIG_NULLDUMMY
            else
              let stack = tl stack in
              if opcode = OP_CHECKMULTISIGVERIFY then
                if fSuccess then Inr (stack, nOpCount) else Inl SCRIPT_ERR_CHECKMULTISIGVERIFY
              else Inr (vchBool fSuccess # stack, nOpCount))"

section \<open>The machine\<close>

text \<open>Running a stack operation on the main stack.\<close>

definition on_stack :: "(valtype list \<Rightarrow> stack_result) \<Rightarrow> eval_state \<Rightarrow> ScriptError + eval_state" where
  "on_stack f st =
     (case f (es_stack st) of
        Inl e \<Rightarrow> Inl e
      | Inr s \<Rightarrow> Inr (st\<lparr>es_stack := s\<rparr>))"

definition fExec :: "eval_state \<Rightarrow> bool" where
  "fExec st \<longleftrightarrow> False \<notin> set (es_vfExec st)"

definition exec_push_num :: "opcodetype \<Rightarrow> eval_state \<Rightarrow> ScriptError + eval_state" where
  "exec_push_num opcode st =
     Inr (st\<lparr>es_stack := CScriptNum_serialize (int (unat opcode) - 0x50) # es_stack st\<rparr>)"

definition exec_nop :: "eval_env \<Rightarrow> eval_state \<Rightarrow> ScriptError + eval_state" where
  "exec_nop env st =
     (if has_flag (env_flags env) SCRIPT_VERIFY_DISCOURAGE_UPGRADABLE_NOPS
      then Inl SCRIPT_ERR_DISCOURAGE_UPGRADABLE_NOPS
      else Inr st)"

definition exec_if :: "opcodetype \<Rightarrow> eval_state \<Rightarrow> ScriptError + eval_state" where
  "exec_if opcode st =
     (if fExec st then
        (case es_stack st of
           [] \<Rightarrow> Inl SCRIPT_ERR_UNBALANCED_CONDITIONAL
         | vch # s \<Rightarrow>
             let fValue = (if opcode = OP_NOTIF then \<not> CastToBool vch else CastToBool vch)
             in Inr (st\<lparr>es_stack := s, es_vfExec := fValue # es_vfExec st\<rparr>))
      else Inr (st\<lparr>es_vfExec := False # es_vfExec st\<rparr>))"

definition exec_else :: "eval_state \<Rightarrow> ScriptError + eval_state" where
  "exec_else st =
     (case es_vfExec st of
        [] \<Rightarrow> Inl SCRIPT_ERR_UNBALANCED_CONDITIONAL
      | b # bs \<Rightarrow> Inr (st\<lparr>es_vfExec := (\<not> b) # bs\<rparr>))"

definition exec_endif :: "eval_state \<Rightarrow> ScriptError + eval_state" where
  "exec_endif st =
     (case es_vfExec st of
        [] \<Rightarrow> Inl SCRIPT_ERR_UNBALANCED_CONDITIONAL
      | b # bs \<Rightarrow> Inr (st\<lparr>es_vfExec := bs\<rparr>))"

definition exec_toaltstack :: "eval_state \<Rightarrow> ScriptError + eval_state" where
  "exec_toaltstack st =
     (case es_stack st of
        [] \<Rightarrow> Inl SCRIPT_ERR_INVALID_STACK_OPERATION
      | x # s \<Rightarrow> Inr (st\<lparr>es_stack := s, es_altstack := x # es_altstack st\<rparr>))"

definition exec_fromaltstack :: "eval_state \<Rightarrow> ScriptError + eval_state" where
  "exec_fromaltstack st =
     (case es_altstack st of
        [] \<Rightarrow> Inl SCRIPT_ERR_INVALID_ALTSTACK_OPERATION
      | x # s \<Rightarrow> Inr (st\<lparr>es_stack := x # es_stack st, es_altstack := s\<rparr>))"

definition exec_checkmultisig :: "eval_env \<Rightarrow> opcodetype \<Rightarrow> eval_state \<Rightarrow> ScriptError + eval_state" where
  "exec_checkmultisig env opcode st =
     (case op_checkmultisig env opcode (es_codehash st) (es_nOpCount st) (es_stack st) of
        Inl e \<Rightarrow> Inl e
      | Inr (s, n) \<Rightarrow> Inr (st\<lparr>es_stack := s, es_nOpCount := n\<rparr>))"

text \<open>
  The \<^verbatim>\<open>switch\<close> over the opcode; \<open>pc\<close> is the iterator behind the instruction.
\<close>

definition exec_opcode :: "eval_env \<Rightarrow> opcodetype \<Rightarrow> CScript \<Rightarrow> eval_state \<Rightarrow> ScriptError + eval_state" where
  "exec_opcode env opcode pc st =
     (if opcode = OP_1NEGATE \<or> (OP_1 \<le> opcode \<and> opcode \<le> OP_16) then exec_push_num opcode st
      else if opcode = OP_NOP then Inr st
      else if OP_NOP1 \<le> opcode \<and> opcode \<le> OP_NOP10 then exec_nop env st
      else if opcode = OP_IF \<or> opcode = OP_NOTIF then exec_if opcode st
      else if opcode = OP_ELSE then exec_else st
      else if opcode = OP_ENDIF then exec_endif st
      else if opcode = OP_VERIFY then on_stack op_verify st
      else if opcode = OP_RETURN then Inl SCRIPT_ERR_OP_RETURN
      else if opcode = OP_TOALTSTACK then exec_toaltstack st
      else if opcode = OP_FROMALTSTACK then exec_fromaltstack st
      else if opcode = OP_2DROP then on_stack op_2drop st
      else if opcode = OP_2DUP then on_stack op_2dup st
      else if opcode = OP_3DUP then on_stack op_3dup st
      else if opcode = OP_2OVER then on_stack op_2over st
      else if opcode = OP_2ROT then on_stack op_2rot st
      else if opcode = OP_2SWAP then on_stack op_2swap st
      else if opcode = OP_IFDUP then on_stack op_ifdup st
      else if opcode = OP_DEPTH then on_stack op_depth st
      else if opcode = OP_DROP then on_stack op_drop st
      else if opcode = OP_DUP then on_stack op_dup st
      else if opcode = OP_NIP then on_stack op_nip st
      else if opcode = OP_OVER then on_stack op_over st
      else if opcode = OP_PICK \<or> opcode = OP_ROLL then on_stack (op_pick_roll env opcode) st
      else if opcode = OP_ROT then on_stack op_rot st
      else if opcode = OP_SWAP then on_stack op_swap st
      else if opcode = OP_TUCK then on_stack op_tuck st
      else if opcode = OP_SIZE then on_stack op_size st
      else if opcode = OP_EQUAL \<or> opcode = OP_EQUALVERIFY then on_stack (op_equal opcode) st
      else if opcode = OP_1ADD \<or> opcode = OP_1SUB \<or> opcode = OP_NEGATE \<or> opcode = OP_ABS \<or>
              opcode = OP_NOT \<or> opcode = OP_0NOTEQUAL
      then on_stack (op_unary_num env opcode) st
      else if opcode = OP_ADD \<or> opcode = OP_SUB \<or> (OP_BOOLAND \<le> opcode \<and> opcode \<le> OP_MAX)
      then on_stack (op_binary_num env opcode) st
      else if opcode = OP_WITHIN then on_stack (op_within env) st
      else if OP_RIPEMD160 \<le> opcode \<and> opcode \<le> OP_HASH256 then on_stack (op_hash env opcode) st
      else if opcode = OP_CODESEPARATOR then Inr (st\<lparr>es_codehash := pc\<rparr>)
      else if opcode = OP_CHECKSIG \<or> opcode = OP_CHECKSIGVERIFY
      then on_stack (op_checksig env opcode (es_codehash st)) st
      else if opcode = OP_CHECKMULTISIG \<or> opcode = OP_CHECKMULTISIGVERIFY
      then exec_checkmultisig env opcode st
      else Inl SCRIPT_ERR_BAD_OPCODE)"

definition is_disabled :: "opcodetype \<Rightarrow> bool" where
  "is_disabled opcode \<longleftrightarrow>
     opcode \<in> set [OP_CAT, OP_SUBSTR, OP_LEFT, OP_RIGHT, OP_INVERT, OP_AND, OP_OR, OP_XOR,
       OP_2MUL, OP_2DIV, OP_MUL, OP_DIV, OP_MOD, OP_LSHIFT, OP_RSHIFT]"

abbreviation (input) MAX_SCRIPT_ELEMENT_SIZE :: nat where
  "MAX_SCRIPT_ELEMENT_SIZE \<equiv> 520"

text \<open>
  One pass through the loop body. The instruction's own effect is \<open>exec_instr\<close>; around it
  stand the checks that precede it and the size limit that follows it.
\<close>

definition exec_instr ::
    "eval_env \<Rightarrow> opcodetype \<Rightarrow> valtype \<Rightarrow> CScript \<Rightarrow> eval_state \<Rightarrow> ScriptError + eval_state" where
  "exec_instr env opcode vchPushValue pc st =
     (if fExec st \<and> opcode \<le> OP_PUSHDATA4 then
        if fRequireMinimal env \<and> \<not> CheckMinimalPush vchPushValue opcode
        then Inl SCRIPT_ERR_MINIMALDATA
        else Inr (st\<lparr>es_stack := vchPushValue # es_stack st\<rparr>)
      else if fExec st \<or> (OP_IF \<le> opcode \<and> opcode \<le> OP_ENDIF) then exec_opcode env opcode pc st
      else Inr st)"

definition count_op :: "opcodetype \<Rightarrow> eval_state \<Rightarrow> eval_state" where
  "count_op opcode st =
     (if opcode > OP_16 then st\<lparr>es_nOpCount := es_nOpCount st + 1\<rparr> else st)"

definition eval_step :: "eval_env \<Rightarrow> CScript \<Rightarrow> eval_state \<Rightarrow> ScriptError + eval_state \<times> CScript" where
  "eval_step env pc st =
     (case GetOp2 pc of (ok, opcode, vchPushValue, pc') \<Rightarrow>
        if \<not> ok then Inl SCRIPT_ERR_BAD_OPCODE
        else if length vchPushValue > MAX_SCRIPT_ELEMENT_SIZE then Inl SCRIPT_ERR_PUSH_SIZE
        else if opcode > OP_16 \<and> es_nOpCount st + 1 > 201 then Inl SCRIPT_ERR_OP_COUNT
        else if is_disabled opcode then Inl SCRIPT_ERR_DISABLED_OPCODE
        else
          (case exec_instr env opcode vchPushValue pc' (count_op opcode st) of
             Inl e \<Rightarrow> Inl e
           | Inr st' \<Rightarrow>
               if length (es_stack st') + length (es_altstack st') > 1000
               then Inl SCRIPT_ERR_STACK_SIZE
               else Inr (st', pc')))"

lemma eval_step_GetOp2:
  "eval_step env pc st = Inr (st', pc') \<Longrightarrow> \<exists>opcode v. GetOp2 pc = (True, opcode, v, pc')"
  by (auto simp: eval_step_def split: prod.splits if_splits sum.splits)

lemma eval_step_shorter: "eval_step env pc st = Inr (st', pc') \<Longrightarrow> length pc' < length pc"
  by (auto dest!: eval_step_GetOp2 intro: GetOp2_ok_shorter)

function eval_loop :: "eval_env \<Rightarrow> CScript \<Rightarrow> eval_state \<Rightarrow> ScriptError + eval_state" where
  "eval_loop env pc st =
     (if pc = [] then Inr st
      else
        (case eval_step env pc st of
           Inl e \<Rightarrow> Inl e
         | Inr (st', pc') \<Rightarrow> eval_loop env pc' st'))"
  by pat_completeness auto
termination
  by (relation "measure (\<lambda>(env, pc, st). length pc)") (auto dest: eval_step_shorter)

declare eval_loop.simps [simp del]

definition init_state :: "valtype list \<Rightarrow> CScript \<Rightarrow> eval_state" where
  "init_state stack script =
     \<lparr>es_stack = stack, es_altstack = [], es_vfExec = [], es_nOpCount = 0, es_codehash = script\<rparr>"

definition EvalScript :: "eval_env \<Rightarrow> valtype list \<Rightarrow> CScript \<Rightarrow> stack_result" where
  "EvalScript env stack script =
     (if length script > 10000 then Inl SCRIPT_ERR_SCRIPT_SIZE
      else
        (case eval_loop env script (init_state stack script) of
           Inl e \<Rightarrow> Inl e
         | Inr st \<Rightarrow>
             if es_vfExec st \<noteq> [] then Inl SCRIPT_ERR_UNBALANCED_CONDITIONAL
             else Inr (es_stack st)))"

text \<open>
  \<^verbatim>\<open>VerifyScript\<close>. \<^verbatim>\<open>assert(!stackCopy.empty())\<close> cannot fail, as its comment says:
  \<open>EvalScript_empty_stack_P2SH\<close> below.
\<close>

definition VerifyScript :: "eval_env \<Rightarrow> CScript \<Rightarrow> CScript \<Rightarrow> ScriptError + unit" where
  "VerifyScript env scriptSig scriptPubKey =
     (if has_flag (env_flags env) SCRIPT_VERIFY_SIGPUSHONLY \<and> \<not> IsPushOnly scriptSig
      then Inl SCRIPT_ERR_SIG_PUSHONLY
      else
        case EvalScript env [] scriptSig of Inl e \<Rightarrow> Inl e | Inr stackCopy \<Rightarrow>
        (case EvalScript env stackCopy scriptPubKey of Inl e \<Rightarrow> Inl e | Inr stack \<Rightarrow>
         if stack = [] then Inl SCRIPT_ERR_EVAL_FALSE
         else if \<not> CastToBool (hd stack) then Inl SCRIPT_ERR_EVAL_FALSE
         else if has_flag (env_flags env) SCRIPT_VERIFY_P2SH \<and> IsPayToScriptHash scriptPubKey then
           if \<not> IsPushOnly scriptSig then Inl SCRIPT_ERR_SIG_PUSHONLY
           else
             (case EvalScript env (tl stackCopy) (hd stackCopy) of Inl e \<Rightarrow> Inl e | Inr stack2 \<Rightarrow>
              if stack2 = [] then Inl SCRIPT_ERR_EVAL_FALSE
              else if \<not> CastToBool (hd stack2) then Inl SCRIPT_ERR_EVAL_FALSE
              else Inr ())
         else Inr ()))"

section \<open>Multisignature matching\<close>

lemma multisig_loop_Inr:
  "multisig_loop env sc sigs keys = Inr b \<Longrightarrow>
     b = list_emb (\<lambda>s k. env_CheckSig env s k sc) sigs keys"
proof (induction env sc sigs keys rule: multisig_loop.induct)
  case (2 env sc s sigs k keys)
  then show ?case
    by (auto simp: Let_def split: option.splits if_splits dest: list_emb_length)
qed auto

lemma multisig_loop_ok:
  assumes "\<forall>s \<in> set sigs. \<forall>k \<in> set keys. CheckEncodings env s k = None"
  shows "\<exists>b. multisig_loop env sc sigs keys = Inr b"
  using assms
  by (induction env sc sigs keys rule: multisig_loop.induct) (auto simp: Let_def)

lemma multisig_loop_matches:
  "\<forall>s \<in> set sigs. \<forall>k \<in> set keys. CheckEncodings env s k = None \<Longrightarrow>
     multisig_loop env sc sigs keys = Inr (list_emb (\<lambda>s k. env_CheckSig env s k sc) sigs keys)"
  using multisig_loop_ok multisig_loop_Inr by blast

section \<open>Sizes\<close>

lemma length_scriptnum_bytes: "n < 256 ^ k \<Longrightarrow> length (scriptnum_bytes n) \<le> k"
proof (induction k arbitrary: n)
  case 0
  then show ?case by simp
next
  case (Suc k)
  show ?case
  proof (cases "n = 0")
    case False
    have "n div 256 < 256 ^ k" using Suc.prems by (simp add: less_mult_imp_div_less mult.commute)
    from Suc.IH [OF this] False show ?thesis by (subst scriptnum_bytes.simps) simp
  next
    case True
    then show ?thesis by (simp add: scriptnum_bytes.simps)
  qed
qed

lemma length_CScriptNum_serialize:
  assumes "\<bar>n\<bar> < 256 ^ k"
  shows "length (CScriptNum_serialize n) \<le> Suc k"
proof -
  have "nat \<bar>n\<bar> < 256 ^ k" using assms by (simp add: nat_less_iff)
  from length_scriptnum_bytes [OF this] show ?thesis
    by (auto simp: CScriptNum_serialize_def Let_def)
qed

lemma stacknum_bound: "stacknum env x = Inr n \<Longrightarrow> \<bar>n\<bar> < 2 ^ 31"
  by (auto simp: stacknum_def split: sum.splits dest: CScriptNum_Inr_bound)

lemma unary_num_bound: "\<bar>n\<bar> < 2 ^ 31 \<Longrightarrow> \<bar>unary_num opcode n\<bar> \<le> 2 ^ 31"
  by (auto simp: unary_num_def of_bool_num_def)

lemma binary_num_bound: "\<bar>m\<bar> < 2 ^ 31 \<Longrightarrow> \<bar>n\<bar> < 2 ^ 31 \<Longrightarrow> \<bar>binary_num opcode m n\<bar> < 2 ^ 32"
  by (auto simp: binary_num_def of_bool_num_def)

definition stack_ok :: "valtype list \<Rightarrow> bool" where
  "stack_ok s \<longleftrightarrow> (\<forall>x \<in> set s. length x \<le> MAX_SCRIPT_ELEMENT_SIZE)"

lemma stack_ok_simps [simp]:
  "stack_ok []" "stack_ok (x # s) \<longleftrightarrow> length x \<le> 520 \<and> stack_ok s"
  "stack_ok (s @ t) \<longleftrightarrow> stack_ok s \<and> stack_ok t"
  by (auto simp: stack_ok_def)

lemma stack_ok_take [intro]: "stack_ok s \<Longrightarrow> stack_ok (take n s)"
  and stack_ok_drop [intro]: "stack_ok s \<Longrightarrow> stack_ok (drop n s)"
  and stack_ok_nth [intro]: "stack_ok s \<Longrightarrow> n < length s \<Longrightarrow> length (s ! n) \<le> 520"
  by (auto simp: stack_ok_def dest: in_set_takeD in_set_dropD)

lemma length_vchBool [simp]: "length (vchBool b) \<le> 520"
  by (simp add: vchBool_def)

lemma length_serialize_520: "\<bar>n\<bar> < 2 ^ 64 \<Longrightarrow> length (CScriptNum_serialize n) \<le> 520"
  using length_CScriptNum_serialize [of n 8] by simp

text \<open>What the loop relies on of the digests: their documented output sizes.\<close>

definition digest_sizes :: "eval_env \<Rightarrow> bool" where
  "digest_sizes env \<longleftrightarrow>
     (\<forall>x. length (env_ripemd160 env x) = 20) \<and> (\<forall>x. length (env_sha1 env x) = 20) \<and>
     (\<forall>x. length (env_sha256 env x) = 32)"

text \<open>
  An operation on the main stack grows it by at most three elements and keeps all its
  elements within the size limit.
\<close>

definition grows :: "valtype list \<Rightarrow> stack_result \<Rightarrow> bool" where
  "grows s r \<longleftrightarrow>
     (\<forall>s'. r = Inr s' \<longrightarrow> length s' \<le> length s + 3 \<and> (length s \<le> 1000 \<longrightarrow> stack_ok s \<longrightarrow> stack_ok s'))"

named_theorems grows_intros "stack operations respect the limits"

lemma grows_verify [grows_intros]: "grows s (op_verify s)"
  by (cases s rule: op_verify.cases) (auto simp: grows_def)

lemma grows_2drop [grows_intros]: "grows s (op_2drop s)"
  by (cases s rule: op_2drop.cases) (auto simp: grows_def)

lemma grows_2dup [grows_intros]: "grows s (op_2dup s)"
  by (cases s rule: op_2dup.cases) (auto simp: grows_def)

lemma grows_3dup [grows_intros]: "grows s (op_3dup s)"
  by (cases s rule: op_3dup.cases) (auto simp: grows_def)

lemma grows_2over [grows_intros]: "grows s (op_2over s)"
  by (cases s rule: op_2over.cases) (auto simp: grows_def)

lemma grows_2rot [grows_intros]: "grows s (op_2rot s)"
  by (cases s rule: op_2rot.cases) (auto simp: grows_def)

lemma grows_2swap [grows_intros]: "grows s (op_2swap s)"
  by (cases s rule: op_2swap.cases) (auto simp: grows_def)

lemma grows_ifdup [grows_intros]: "grows s (op_ifdup s)"
  by (cases s rule: op_ifdup.cases) (auto simp: grows_def)

lemma grows_depth [grows_intros]: "grows s (op_depth s)"
  using length_serialize_520 [of "int (length s)"] by (auto simp: grows_def op_depth_def)

lemma grows_drop [grows_intros]: "grows s (op_drop s)"
  by (cases s rule: op_drop.cases) (auto simp: grows_def)

lemma grows_dup [grows_intros]: "grows s (op_dup s)"
  by (cases s rule: op_dup.cases) (auto simp: grows_def)

lemma grows_nip [grows_intros]: "grows s (op_nip s)"
  by (cases s rule: op_nip.cases) (auto simp: grows_def)

lemma grows_over [grows_intros]: "grows s (op_over s)"
  by (cases s rule: op_over.cases) (auto simp: grows_def)

lemma grows_rot [grows_intros]: "grows s (op_rot s)"
  by (cases s rule: op_rot.cases) (auto simp: grows_def)

lemma grows_swap [grows_intros]: "grows s (op_swap s)"
  by (cases s rule: op_swap.cases) (auto simp: grows_def)

lemma grows_tuck [grows_intros]: "grows s (op_tuck s)"
  by (cases s rule: op_tuck.cases) (auto simp: grows_def)

lemma grows_size [grows_intros]: "grows s (op_size s)"
  by (cases s rule: op_size.cases) (auto simp: grows_def intro!: length_serialize_520)

lemma grows_pick_roll [grows_intros]: "grows s (op_pick_roll env opcode s)"
proof (cases "(env, opcode, s)" rule: op_pick_roll.cases)
  case (1 env' opcode' x y t)
  have nth: "stack_ok (y # t) \<Longrightarrow> n < length (y # t) \<Longrightarrow> length ((y # t) ! n) \<le> 520" for n
    by (rule stack_ok_nth)
  have move: "stack_ok (y # t) \<Longrightarrow> stack_ok (take n (y # t) @ drop (Suc n) (y # t))" for n
    by (simp only: stack_ok_simps(3)) (blast intro: stack_ok_take stack_ok_drop)
  show ?thesis
  proof (cases "stacknum env x")
    case (Inr b)
    then show ?thesis
      using 1 nth [of "nat (CScriptNum_getint b)"] move [of "nat (CScriptNum_getint b)"]
      by (auto simp: grows_def Let_def)
  qed (use 1 in \<open>auto simp: grows_def\<close>)
qed (auto simp: grows_def)

lemma grows_equal [grows_intros]: "grows s (op_equal opcode s)"
  by (cases "(opcode, s)" rule: op_equal.cases)
    (auto simp: grows_def Let_def split: if_splits)

lemma grows_unary_num [grows_intros]: "grows s (op_unary_num env opcode s)"
proof (cases s)
  case (Cons x t)
  have "length (CScriptNum_serialize (unary_num opcode n)) \<le> 520" if "stacknum env x = Inr n" for n
    using unary_num_bound [OF stacknum_bound [OF that], of opcode] by (intro length_serialize_520) simp
  with Cons show ?thesis by (auto simp: grows_def split: sum.splits)
qed (simp add: grows_def)

lemma grows_binary_num [grows_intros]: "grows s (op_binary_num env opcode s)"
proof (cases "(env, opcode, s)" rule: op_binary_num.cases)
  case (1 env' opcode' x2 x1 t)
  have "length (CScriptNum_serialize (binary_num opcode m n)) \<le> 520"
    if "stacknum env x1 = Inr m" "stacknum env x2 = Inr n" for m n
    using binary_num_bound [OF stacknum_bound [OF that(1)] stacknum_bound [OF that(2)], of opcode]
    by (intro length_serialize_520) simp
  with 1 show ?thesis by (auto simp: grows_def Let_def split: sum.splits if_splits)
qed (auto simp: grows_def)

lemma grows_within [grows_intros]: "grows s (op_within env s)"
  by (cases "(env, s)" rule: op_within.cases) (auto simp: grows_def split: sum.splits)

lemma grows_hash [grows_intros]: "digest_sizes env \<Longrightarrow> grows s (op_hash env opcode s)"
  by (cases s) (auto simp: grows_def digest_sizes_def Hash160_def Hash256_def)

lemma grows_checksig [grows_intros]: "grows s (op_checksig env opcode codehash s)"
  by (cases "(env, opcode, codehash, s)" rule: op_checksig.cases)
    (auto simp: grows_def Let_def split: option.splits if_splits)

lemma checkmultisig_Inr:
  assumes "op_checkmultisig env opcode codehash n s = Inr (s', n')"
  obtains k m fSuccess where
    "n' = n + k" "n' \<le> 201" "k \<le> 20" "m \<le> k" "3 + k + m \<le> length s"
    "multisig_loop env
       (foldl (\<lambda>sc vchSig. fst (FindAndDelete sc (push_data vchSig))) codehash (take m (drop (2 + k) s)))
       (take m (drop (2 + k) s)) (take k (drop 1 s)) = Inr fSuccess"
    "s' = (if opcode = OP_CHECKMULTISIGVERIFY then drop (3 + k + m) s else vchBool fSuccess # drop (3 + k + m) s)"
    "opcode = OP_CHECKMULTISIGVERIFY \<longrightarrow> fSuccess"
proof -
  let ?g = "\<lambda>x. nat (CScriptNum_getint x)"
  have *: "tl (drop (Suc (Suc j)) s) = drop (3 + j) s" for j
    by (simp add: eval_nat_numeral) (metis drop_Suc tl_drop)
  obtain bk where bk: "stacknum env (s ! 0) = Inr bk"
    using assms by (auto simp: op_checkmultisig_def split: if_splits sum.splits)
  define k where "k = ?g bk"
  obtain bm where bm: "stacknum env (s ! (1 + k)) = Inr bm"
    using assms bk by (auto simp: op_checkmultisig_def Let_def k_def split: if_splits sum.splits)
  define m where "m = ?g bm"
  let ?sigs = "take m (drop (2 + k) s)"
  obtain fs where fs: "multisig_loop env
       (foldl (\<lambda>sc vchSig. fst (FindAndDelete sc (push_data vchSig))) codehash ?sigs)
       ?sigs (take k (drop 1 s)) = Inr fs"
    using assms bk bm
    by (auto simp: op_checkmultisig_def Let_def k_def [symmetric] m_def [symmetric]
        split: if_splits sum.splits)
  have "k \<le> 20" "m \<le> k" "n + k \<le> 201" "3 + k + m \<le> length s"
    using assms bk bm
    by (auto simp: op_checkmultisig_def Let_def k_def [symmetric] m_def [symmetric]
        split: if_splits sum.splits; simp add: k_def m_def)+
  moreover have "n' = n + k"
      "s' = (if opcode = OP_CHECKMULTISIGVERIFY then drop (3 + k + m) s else vchBool fs # drop (3 + k + m) s)"
      "opcode = OP_CHECKMULTISIGVERIFY \<longrightarrow> fs"
    using assms bk bm fs
    by (auto simp: op_checkmultisig_def Let_def k_def [symmetric] m_def [symmetric] * add.assoc
        split: if_splits sum.splits)
  ultimately show thesis using fs that [of k m fs] by blast
qed

section \<open>Steps and invariants\<close>

lemma on_stack_Inr:
  "on_stack f st = Inr st' \<longleftrightarrow> (\<exists>s. f (es_stack st) = Inr s \<and> st' = st\<lparr>es_stack := s\<rparr>)"
  by (auto simp: on_stack_def split: sum.splits)

text \<open>
  The states that the loop can be in, as a transition system: \<open>eval_reach env stack script pc st\<close>
  holds of every iterator and state at the head of the loop.
\<close>

inductive eval_reach ::
    "eval_env \<Rightarrow> valtype list \<Rightarrow> CScript \<Rightarrow> CScript \<Rightarrow> eval_state \<Rightarrow> bool"
  for env stack script where
  reach_init: "eval_reach env stack script script (init_state stack script)"
| reach_step: "eval_reach env stack script pc' st'"
    if "eval_reach env stack script pc st" "pc \<noteq> []" "eval_step env pc st = Inr (st', pc')"

inductive_cases eval_reachE: "eval_reach env stack script pc st"

lemma eval_loop_reach:
  "eval_loop env pc st = Inr st' \<Longrightarrow> eval_reach env stack script pc st \<Longrightarrow>
     eval_reach env stack script [] st'"
proof (induction env pc st rule: eval_loop.induct)
  case (1 env pc st)
  show ?case
  proof (cases "pc = []")
    case True
    with 1 show ?thesis by (simp add: eval_loop.simps)
  next
    case False
    with "1.prems"(1) obtain st1 pc1 where s: "eval_step env pc st = Inr (st1, pc1)"
      and l: "eval_loop env pc1 st1 = Inr st'"
      by (subst (asm) eval_loop.simps) (auto split: sum.splits)
    from "1.IH" [OF False s _ l] s False "1.prems"(2) show ?thesis
      by (auto intro: reach_step)
  qed
qed

lemma EvalScript_reach:
  assumes "EvalScript env stack script = Inr s"
  obtains st where "eval_reach env stack script [] st" "es_stack st = s" "es_vfExec st = []"
    "length script \<le> 10000"
proof -
  from assms obtain st where "eval_loop env script (init_state stack script) = Inr st"
      "es_stack st = s" "es_vfExec st = []" "length script \<le> 10000"
    by (auto simp: EvalScript_def split: if_splits sum.splits)
  with eval_loop_reach [OF _ reach_init] that show thesis by blast
qed

definition eval_inv :: "CScript \<Rightarrow> CScript \<Rightarrow> eval_state \<Rightarrow> bool" where
  "eval_inv script pc st \<longleftrightarrow>
     length (es_stack st) + length (es_altstack st) \<le> 1000 \<and>
     stack_ok (es_stack st) \<and> stack_ok (es_altstack st) \<and>
     es_nOpCount st \<le> 201 \<and> suffix pc script \<and> suffix (es_codehash st) script"

lemma grows_on_stack:
  assumes "on_stack f st = Inr st'" "grows (es_stack st) (f (es_stack st))"
    "length (es_stack st) \<le> 1000" "stack_ok (es_stack st)"
  shows "length (es_stack st') \<le> length (es_stack st) + 3 \<and> stack_ok (es_stack st') \<and>
    es_altstack st' = es_altstack st \<and> es_nOpCount st' = es_nOpCount st \<and>
    es_codehash st' = es_codehash st"
  using assms by (auto simp: on_stack_Inr grows_def)

text \<open>What one executed opcode may do to a state within the limits.\<close>

definition exec_ok :: "CScript \<Rightarrow> eval_state \<Rightarrow> eval_state \<Rightarrow> bool" where
  "exec_ok pc st st' \<longleftrightarrow>
     length (es_stack st') + length (es_altstack st') \<le> length (es_stack st) + length (es_altstack st) + 3 \<and>
     stack_ok (es_stack st') \<and> stack_ok (es_altstack st') \<and>
     es_nOpCount st' \<le> 201 \<and>
     (es_codehash st' = es_codehash st \<or> es_codehash st' = pc)"

lemma exec_ok_on_stack:
  assumes "on_stack f st = Inr st'" "grows (es_stack st) (f (es_stack st))"
    "length (es_stack st) \<le> 1000" "stack_ok (es_stack st)" "stack_ok (es_altstack st)"
    "es_nOpCount st \<le> 201"
  shows "exec_ok pc st st'"
  using grows_on_stack [OF assms(1-4)] assms(5,6) by (auto simp: exec_ok_def)

lemma exec_ok_checkmultisig:
  assumes "exec_checkmultisig env opcode st = Inr st'" "stack_ok (es_stack st)" "stack_ok (es_altstack st)"
  shows "exec_ok pc st st'"
proof -
  from assms(1) obtain s n where
      m: "op_checkmultisig env opcode (es_codehash st) (es_nOpCount st) (es_stack st) = Inr (s, n)"
    and st': "st' = st\<lparr>es_stack := s, es_nOpCount := n\<rparr>"
    by (auto simp: exec_checkmultisig_def split: sum.splits)
  from m show ?thesis
    by (rule checkmultisig_Inr) (use assms st' in \<open>auto simp: exec_ok_def split: if_splits\<close>)
qed

text \<open>A property of the value of every successful branch.\<close>

definition on_ok :: "('a \<Rightarrow> bool) \<Rightarrow> 'e + 'a \<Rightarrow> bool" where
  "on_ok P r \<longleftrightarrow> (\<forall>x. r = Inr x \<longrightarrow> P x)"

lemma on_ok_if: "on_ok P r \<Longrightarrow> on_ok P r' \<Longrightarrow> on_ok P (if c then r else r')"
  by simp

lemma on_ok_simps [simp]: "on_ok P (Inl e)" "on_ok P (Inr x) \<longleftrightarrow> P x"
  by (auto simp: on_ok_def)

lemma exec_opcode_on_ok:
  assumes os: "\<And>f. f \<in> {op_verify, op_2drop, op_2dup, op_3dup, op_2over, op_2rot, op_2swap, op_ifdup,
      op_depth, op_drop, op_dup, op_nip, op_over, op_pick_roll env opcode, op_rot, op_swap, op_tuck,
      op_size, op_equal opcode, op_unary_num env opcode, op_binary_num env opcode, op_within env,
      op_hash env opcode, op_checksig env opcode (es_codehash st)} \<Longrightarrow> on_ok P (on_stack f st)"
    and "on_ok P (exec_push_num opcode st)" "P st" "on_ok P (exec_if opcode st)"
      "on_ok P (exec_else st)" "on_ok P (exec_endif st)" "on_ok P (exec_toaltstack st)"
      "on_ok P (exec_fromaltstack st)" "P (st\<lparr>es_codehash := pc\<rparr>)"
      "on_ok P (exec_checkmultisig env opcode st)"
  shows "on_ok P (exec_opcode env opcode pc st)"
proof -
  have nop: "on_ok P (exec_nop env st)" using assms by (simp add: exec_nop_def)
  show ?thesis
    unfolding exec_opcode_def
    by (intro on_ok_if; ((rule os, simp) | rule nop assms(2-) | simp add: assms(2-)))
qed

lemma exec_opcode_ok:
  assumes d: "digest_sizes env"
    and i: "length (es_stack st) + length (es_altstack st) \<le> 1000" "stack_ok (es_stack st)"
      "stack_ok (es_altstack st)" "es_nOpCount st \<le> 201"
  shows "on_ok (exec_ok pc st) (exec_opcode env opcode pc st)"
proof (rule exec_opcode_on_ok, goal_cases)
  case (1 f)
  then have "grows (es_stack st) (f (es_stack st))"
    using d by (auto intro: grows_intros)
  with i exec_ok_on_stack [of f st] show ?case by (auto simp: on_ok_def)
next
  case 2
  have "\<bar>int (unat opcode) - 80\<bar> < 256" using unat_byte_less [of opcode] by linarith
  then have "length (CScriptNum_serialize (int (unat opcode) - 80)) \<le> 520"
    by (intro length_serialize_520, rule less_trans) simp_all
  with i show ?case by (simp add: exec_push_num_def exec_ok_def)
next
  case 10
  from i show ?case by (auto simp: on_ok_def intro: exec_ok_checkmultisig)
qed (use i in \<open>auto simp: exec_ok_def exec_if_def exec_else_def exec_endif_def exec_toaltstack_def
      exec_fromaltstack_def Let_def split: list.splits\<close>)

lemma count_op_simps [simp]:
  "es_stack (count_op opcode st) = es_stack st" "es_altstack (count_op opcode st) = es_altstack st"
  "es_vfExec (count_op opcode st) = es_vfExec st" "es_codehash (count_op opcode st) = es_codehash st"
  "fExec (count_op opcode st) = fExec st"
  by (simp_all add: count_op_def fExec_def)

lemma eval_step_Inr:
  assumes "eval_step env pc st = Inr (st', pc')"
  obtains opcode v where "GetOp2 pc = (True, opcode, v, pc')" "length v \<le> 520"
    "es_nOpCount (count_op opcode st) \<le> max 201 (es_nOpCount st)" "\<not> is_disabled opcode"
    "exec_instr env opcode v pc' (count_op opcode st) = Inr st'"
    "length (es_stack st') + length (es_altstack st') \<le> 1000"
  using assms that
  by (auto simp: eval_step_def count_op_def split: prod.splits if_splits sum.splits)

lemma exec_instr_ok:
  assumes "digest_sizes env" "length v \<le> 520"
      "length (es_stack st) + length (es_altstack st) \<le> 1000" "stack_ok (es_stack st)"
      "stack_ok (es_altstack st)" "es_nOpCount st \<le> 201"
  shows "on_ok (exec_ok pc st) (exec_instr env opcode v pc st)"
  using assms exec_opcode_ok [OF assms(1,3-6), of pc opcode]
  by (auto simp: exec_instr_def exec_ok_def)

lemma eval_step_inv:
  assumes "digest_sizes env" "eval_inv script pc st" "eval_step env pc st = Inr (st', pc')"
  shows "eval_inv script pc' st'"
proof -
  from assms(3) obtain opcode v where o: "GetOp2 pc = (True, opcode, v, pc')" "length v \<le> 520"
    "es_nOpCount (count_op opcode st) \<le> max 201 (es_nOpCount st)"
    "exec_instr env opcode v pc' (count_op opcode st) = Inr st'"
    "length (es_stack st') + length (es_altstack st') \<le> 1000"
    by (rule eval_step_Inr)
  have "exec_ok pc' (count_op opcode st) st'"
    using exec_instr_ok [OF assms(1) o(2), of "count_op opcode st" pc' opcode] o(3,4) assms(2)
    by (simp add: eval_inv_def)
  moreover have "suffix pc' script"
    using GetOp2_suffix [OF o(1)] assms(2) by (auto simp: eval_inv_def intro: suffix_order.trans)
  ultimately show ?thesis using assms(2) o(5) by (auto simp: eval_inv_def exec_ok_def)
qed

lemma eval_reach_inv:
  assumes "eval_reach env stack script pc st"
    and "digest_sizes env" "length stack \<le> 1000" "stack_ok stack"
  shows "eval_inv script pc st"
  using assms
  by (induction rule: eval_reach.induct) (auto simp: eval_inv_def init_state_def dest: eval_step_inv)

lemma EvalScript_limits:
  assumes "digest_sizes env" "length stack \<le> 1000" "stack_ok stack"
    and "EvalScript env stack script = Inr s"
  shows "length s \<le> 1000 \<and> stack_ok s"
proof -
  from assms(4) obtain st where "eval_reach env stack script [] st" "es_stack st = s"
    by (rule EvalScript_reach)
  with eval_reach_inv [OF _ assms(1-3), of script "[]" st] show ?thesis
    by (simp add: eval_inv_def)
qed

section \<open>Branches that are not executed\<close>

lemma control_opcodes:
  "OP_IF \<le> opcode \<Longrightarrow> opcode \<le> OP_ENDIF \<Longrightarrow>
     opcode = OP_IF \<or> opcode = OP_NOTIF \<or> opcode = OP_VERIF \<or> opcode = OP_VERNOTIF \<or>
     opcode = OP_ELSE \<or> opcode = OP_ENDIF"
proof -
  assume "OP_IF \<le> opcode" "opcode \<le> OP_ENDIF"
  then have "99 \<le> unat opcode" "unat opcode \<le> 104" by (simp_all add: word_le_nat_alt)
  then have "unat opcode \<in> {99, 100, 101, 102, 103, 104}" by auto
  then show ?thesis by (auto dest!: byte_of_unat)
qed

lemma exec_opcode_control:
  "exec_opcode env OP_IF pc st = exec_if OP_IF st"
  "exec_opcode env OP_NOTIF pc st = exec_if OP_NOTIF st"
  "exec_opcode env OP_VERIF pc st = Inl SCRIPT_ERR_BAD_OPCODE"
  "exec_opcode env OP_VERNOTIF pc st = Inl SCRIPT_ERR_BAD_OPCODE"
  "exec_opcode env OP_ELSE pc st = exec_else st"
  "exec_opcode env OP_ENDIF pc st = exec_endif st"
  by (simp_all add: exec_opcode_def)

text \<open>The fields that an instruction of a branch not taken leaves alone.\<close>

definition same_stacks :: "eval_state \<Rightarrow> eval_state \<Rightarrow> bool" where
  "same_stacks st st' \<longleftrightarrow>
     es_stack st' = es_stack st \<and> es_altstack st' = es_altstack st \<and>
     es_codehash st' = es_codehash st \<and> es_nOpCount st' = es_nOpCount st"

lemma exec_instr_skip:
  assumes "\<not> fExec st"
  shows "on_ok (same_stacks st) (exec_instr env opcode v pc st)"
proof -
  have e: "on_ok (same_stacks st) (exec_else st)" "on_ok (same_stacks st) (exec_endif st)"
    "on_ok (same_stacks st) (exec_if opc st)" for opc
    using assms
    by (auto simp: same_stacks_def exec_if_def exec_else_def exec_endif_def split: list.splits)
  have "on_ok (same_stacks st) (exec_opcode env opcode pc st)" if "OP_IF \<le> opcode" "opcode \<le> OP_ENDIF"
    using control_opcodes [OF that] by (elim disjE) (simp_all only: exec_opcode_control e on_ok_simps)
  with assms show ?thesis by (simp add: exec_instr_def same_stacks_def)
qed

section \<open>Symbolic execution\<close>

lemma eval_loop_Nil [simp]: "eval_loop env [] st = Inr st"
  by (simp add: eval_loop.simps)

text \<open>One executed operation in front of \<open>pc\<close>; the instance for a single opcode is closed by \<open>simp\<close>.\<close>

lemma eval_loop_op:
  assumes "OP_PUSHDATA4 < opcode" "fExec st" "\<not> is_disabled opcode"
    "OP_16 < opcode \<longrightarrow> es_nOpCount st < 201"
  shows "eval_loop env (opcode # pc) st =
    (case exec_opcode env opcode pc (count_op opcode st) of
       Inl e \<Rightarrow> Inl e
     | Inr st' \<Rightarrow>
         if length (es_stack st') + length (es_altstack st') > 1000 then Inl SCRIPT_ERR_STACK_SIZE
         else eval_loop env pc st')"
proof -
  have "\<not> (fExec (count_op opcode st) \<and> opcode \<le> OP_PUSHDATA4)" using assms(1) by auto
  then show ?thesis
    using assms by (subst eval_loop.simps)
      (auto simp: eval_step_def GetOp2_big_opcode exec_instr_def split: sum.splits)
qed

definition push_ok :: "eval_env \<Rightarrow> valtype \<Rightarrow> bool" where
  "push_ok env v \<longleftrightarrow>
     length v \<le> MAX_SCRIPT_ELEMENT_SIZE \<and>
     (fRequireMinimal env \<longrightarrow> (\<forall>pc. CheckMinimalPush v (fst (snd (GetOp2 (push_data v @ pc))))))"

lemma push_data_not_Nil [simp]: "push_data b \<noteq> []"
  by (simp add: push_data_def)

lemma eval_loop_push:
  assumes "push_ok env v" "fExec st" "length (es_stack st) + length (es_altstack st) < 1000"
  shows "eval_loop env (push_data v @ pc) st = eval_loop env pc (st\<lparr>es_stack := v # es_stack st\<rparr>)"
proof -
  have "length v < 2 ^ 32" using assms(1) by (simp add: push_ok_def)
  from GetOp2_push_data [OF this, of pc] obtain opcode where
    g: "GetOp2 (push_data v @ pc) = (True, opcode, v, pc)" "opcode \<le> OP_PUSHDATA4" by blast
  from g(2) have n: "\<not> OP_16 < opcode" "opcode < 0x7e"
    by (auto simp: word_less_nat_alt word_le_nat_alt)
  then have "\<not> is_disabled opcode" by (auto simp: is_disabled_def)
  moreover have "count_op opcode st = st" using n by (simp add: count_op_def)
  moreover have "fRequireMinimal env \<longrightarrow> CheckMinimalPush v opcode"
    using assms(1) g(1) by (auto simp: push_ok_def dest: spec [of _ pc])
  ultimately have "exec_instr env opcode v pc (count_op opcode st) = Inr (st\<lparr>es_stack := v # es_stack st\<rparr>)"
    using assms(2) g(2) by (auto simp: exec_instr_def)
  then show ?thesis
    using assms n g \<open>\<not> is_disabled opcode\<close>
    by (subst eval_loop.simps) (auto simp: eval_step_def push_ok_def)
qed

lemma eval_loop_pushes:
  assumes "\<forall>v \<in> set vs. push_ok env v" "fExec st"
    "length (es_stack st) + length (es_altstack st) + length vs \<le> 1000"
  shows "eval_loop env (concat (map push_data vs) @ pc) st =
    eval_loop env pc (st\<lparr>es_stack := rev vs @ es_stack st\<rparr>)"
  using assms
proof (induction vs arbitrary: st)
  case (Cons v vs)
  have "eval_loop env (concat (map push_data (v # vs)) @ pc) st =
      eval_loop env (concat (map push_data vs) @ pc) (st\<lparr>es_stack := v # es_stack st\<rparr>)"
    using Cons.prems by (simp add: eval_loop_push)
  also have "\<dots> = eval_loop env pc (st\<lparr>es_stack := rev (v # vs) @ es_stack st\<rparr>)"
    using Cons.prems by (subst Cons.IH) (auto simp: fExec_def)
  finally show ?case .
qed simp

lemma EvalScript_pushes:
  assumes "\<forall>v \<in> set vs. push_ok env v" "length stack + length vs \<le> 1000"
    "length (concat (map push_data vs)) \<le> 10000"
  shows "EvalScript env stack (concat (map push_data vs)) = Inr (rev vs @ stack)"
  using assms eval_loop_pushes [of vs env "init_state stack (concat (map push_data vs))" "[]"]
  by (simp add: EvalScript_def init_state_def fExec_def)

section \<open>Scripts of the standard forms\<close>

definition p2pkh_script :: "valtype \<Rightarrow> CScript" where
  "p2pkh_script h = [OP_DUP, OP_HASH160] @ push_data h @ [OP_EQUALVERIFY, OP_CHECKSIG]"

definition p2sh_script :: "valtype \<Rightarrow> CScript" where
  "p2sh_script h = [OP_HASH160] @ push_data h @ [OP_EQUAL]"

lemma EvalScript_Cons_op:
  assumes "OP_16 < opcode" "\<not> is_disabled opcode" "length (opcode # pc) \<le> 10000"
    "exec_opcode env opcode pc (count_op opcode (init_state stack (opcode # pc))) = Inl e"
  shows "EvalScript env stack (opcode # pc) = Inl e"
  using assms
  by (simp add: EvalScript_def eval_loop_op init_state_def fExec_def word_less_nat_alt)

lemma EvalScript_unspendable:
  assumes "IsUnspendable script"
  shows "\<exists>e. EvalScript env stack script = Inl e"
proof (cases "length script > 10000")
  case False
  obtain pc where s: "script = OP_RETURN # pc"
    using assms by (cases script) (auto simp: IsUnspendable_def)
  show ?thesis
    unfolding s
    by (rule exI, rule EvalScript_Cons_op) (use False s in \<open>simp_all add: is_disabled_def exec_opcode_def\<close>)
qed (simp add: EvalScript_def)

lemma EvalScript_empty_stack_P2SH:
  assumes "IsPayToScriptHash script"
  shows "EvalScript env [] script = Inl SCRIPT_ERR_INVALID_STACK_OPERATION"
proof -
  obtain pc where s: "script = OP_HASH160 # pc"
    using assms by (cases script) (auto simp: IsPayToScriptHash_def)
  show ?thesis
    unfolding s
    by (rule EvalScript_Cons_op)
      (use assms s in \<open>simp_all add: IsPayToScriptHash_def is_disabled_def exec_opcode_def on_stack_def
        init_state_def count_op_def\<close>)
qed

lemma exec_opcode_std:
  "exec_opcode env OP_DUP pc st = on_stack op_dup st"
  "exec_opcode env OP_HASH160 pc st = on_stack (op_hash env OP_HASH160) st"
  "exec_opcode env OP_EQUAL pc st = on_stack (op_equal OP_EQUAL) st"
  "exec_opcode env OP_EQUALVERIFY pc st = on_stack (op_equal OP_EQUALVERIFY) st"
  "exec_opcode env OP_CHECKSIG pc st = on_stack (op_checksig env OP_CHECKSIG (es_codehash st)) st"
  by (simp_all add: exec_opcode_def)

text \<open>
  Pay to public key hash: what the output script does with the two items on top of the
  stack that the spender's script left.
\<close>

lemma length_push_data_20: "length h = 20 \<Longrightarrow> push_data h = 0x14 # h"
  by (simp add: push_data_def)

lemma eval_p2pkh:
  assumes h: "length h = 20" "push_ok env h" and st: "length st \<le> 990"
  shows "EvalScript env (pk # sig # st) (p2pkh_script h) =
    (if Hash160 env pk \<noteq> h then Inl SCRIPT_ERR_EQUALVERIFY
     else case CheckEncodings env sig pk of
        Some e \<Rightarrow> Inl e
      | None \<Rightarrow>
          Inr (vchBool (env_CheckSig env sig pk
            (fst (FindAndDelete (p2pkh_script h) (push_data sig)))) # st))"
proof -
  note ops = eval_loop_op is_disabled_def exec_opcode_std count_op_def on_stack_def fExec_def
  let ?s = "p2pkh_script h"
  have l: "length ?s \<le> 10000"
    using h by (simp add: p2pkh_script_def length_push_data_20)
  define st2 where "st2 = \<lparr>es_stack = Hash160 env pk # pk # sig # st, es_altstack = [], es_vfExec = [],
    es_nOpCount = Suc (Suc 0), es_codehash = ?s\<rparr>"
  have "eval_loop env ?s (init_state (pk # sig # st) ?s) =
      eval_loop env (push_data h @ [OP_EQUALVERIFY, OP_CHECKSIG]) st2"
    unfolding p2pkh_script_def st2_def init_state_def
    using st by (simp add: ops)
  also have "\<dots> = eval_loop env [OP_EQUALVERIFY, OP_CHECKSIG] (st2\<lparr>es_stack := h # es_stack st2\<rparr>)"
    by (rule eval_loop_push) (use h st in \<open>simp_all add: st2_def fExec_def\<close>)
  finally have e: "eval_loop env ?s (init_state (pk # sig # st) ?s) =
      eval_loop env [OP_EQUALVERIFY, OP_CHECKSIG] (st2\<lparr>es_stack := h # es_stack st2\<rparr>)" .
  show ?thesis
    using l st by (simp add: EvalScript_def e st2_def) (auto simp: ops Let_def split: option.splits)
qed

lemma eval_p2sh:
  assumes h: "length h = 20" "push_ok env h" and st: "length st \<le> 990"
  shows "EvalScript env (ser # st) (p2sh_script h) = Inr (vchBool (Hash160 env ser = h) # st)"
proof -
  note ops = eval_loop_op is_disabled_def exec_opcode_std count_op_def on_stack_def fExec_def
  let ?s = "p2sh_script h"
  have l: "length ?s \<le> 10000"
    using h by (simp add: p2sh_script_def length_push_data_20)
  define st1 where "st1 = \<lparr>es_stack = Hash160 env ser # st, es_altstack = [], es_vfExec = [],
    es_nOpCount = 1, es_codehash = ?s\<rparr>"
  have "eval_loop env ?s (init_state (ser # st) ?s) = eval_loop env (push_data h @ [OP_EQUAL]) st1"
    unfolding p2sh_script_def st1_def init_state_def using st by (simp add: ops)
  also have "\<dots> = eval_loop env [OP_EQUAL] (st1\<lparr>es_stack := h # es_stack st1\<rparr>)"
    by (rule eval_loop_push) (use h st in \<open>simp_all add: st1_def fExec_def\<close>)
  finally have e: "eval_loop env ?s (init_state (ser # st) ?s) =
      eval_loop env [OP_EQUAL] (st1\<lparr>es_stack := h # es_stack st1\<rparr>)" .
  show ?thesis
    using l st by (simp add: EvalScript_def e st1_def) (auto simp: ops Let_def)
qed

lemma CastToBool_vchBool [simp]: "CastToBool (vchBool b) = b"
  by (simp add: vchBool_def)

lemma IsPushOnly_pushes: "\<forall>v \<in> set vs. length v < 2 ^ 32 \<Longrightarrow> IsPushOnly (concat (map push_data vs))"
  by (induction vs) (auto simp: IsPushOnly_push_data IsPushOnly.simps [of "[]"])

lemma p2sh_script_IsPayToScriptHash:
  "IsPayToScriptHash s \<longleftrightarrow> (\<exists>h. length h = 20 \<and> s = p2sh_script h)"
proof
  assume a: "IsPayToScriptHash s"
  then obtain a b t where s: "s = a # b # t" "length t = 21"
    by (auto simp: IsPayToScriptHash_def eval_nat_numeral length_Suc_conv)
  then obtain h c where "t = h @ [c]" "length h = 20"
    by (cases t rule: rev_cases) auto
  with s have "\<exists>a b h c. s = a # b # h @ [c] \<and> length h = 20" by blast
  then show "\<exists>h. length h = 20 \<and> s = p2sh_script h"
    using a by (auto simp: IsPayToScriptHash_def p2sh_script_def length_push_data_20 nth_append)
qed (auto simp: IsPayToScriptHash_def p2sh_script_def length_push_data_20 nth_append)

section \<open>Push-only scripts\<close>

lemma push_opcode_cases:
  assumes "opcode \<le> OP_16" "\<not> opcode \<le> OP_PUSHDATA4"
  shows "opcode = OP_RESERVED \<or> opcode = OP_1NEGATE \<or> (OP_1 \<le> opcode \<and> opcode \<le> OP_16)"
proof -
  have "unat opcode = 79 \<or> unat opcode = 80 \<or> 81 \<le> unat opcode \<and> unat opcode \<le> 96"
    using assms by (auto simp: word_le_nat_alt)
  then show ?thesis by (auto simp: word_le_nat_alt dest!: byte_of_unat)
qed

lemma exec_instr_push_only:
  assumes "opcode \<le> OP_16" "env_flags env' = env_flags env"
  shows "exec_instr env opcode v pc st = exec_instr env' opcode v pc st"
proof -
  have f: "fRequireMinimal env' = fRequireMinimal env" using assms by (simp add: fRequireMinimal_def)
  have c: "\<not> (OP_IF \<le> opcode \<and> opcode \<le> OP_ENDIF)"
    using assms(1) by (auto simp: word_le_nat_alt)
  have "exec_opcode env opcode pc st = exec_opcode env' opcode pc st" if "\<not> opcode \<le> OP_PUSHDATA4"
    using push_opcode_cases [OF assms(1) that] by (elim disjE) (simp_all add: exec_opcode_def)
  with c show ?thesis by (auto simp: exec_instr_def f)
qed

lemma eval_loop_push_only:
  assumes "IsPushOnly pc" "env_flags env' = env_flags env"
  shows "eval_loop env pc st = eval_loop env' pc st"
  using assms
proof (induction env pc st rule: eval_loop.induct)
  case (1 env pc st)
  show ?case
  proof (cases "pc = []")
    case False
    with "1.prems" obtain opcode v pc' where g: "GetOp2 pc = (True, opcode, v, pc')"
      and o: "opcode \<le> OP_16" and p: "IsPushOnly pc'"
      by (subst (asm) IsPushOnly.simps) (auto split: prod.splits if_splits simp: not_less)
    have s: "eval_step env pc st = eval_step env' pc st"
      using o "1.prems"(2) g by (simp add: eval_step_def exec_instr_push_only [of opcode env' env])
    show ?thesis
    proof (cases "eval_step env pc st")
      case (Inr y)
      obtain st1 pc1 where y: "y = (st1, pc1)" by (cases y)
      with eval_step_GetOp2 Inr g have "pc1 = pc'" by fastforce
      then have "eval_loop env pc1 st1 = eval_loop env' pc1 st1"
        using "1.IH" [OF False] Inr y p "1.prems"(2) by blast
      then show ?thesis
        using Inr y s False by (simp add: eval_loop.simps [of _ pc])
    qed (use s False in \<open>simp add: eval_loop.simps [of _ pc]\<close>)
  qed simp
qed

section \<open>Verification of the standard forms\<close>

lemma length_push_data_le: "length v \<le> 520 \<Longrightarrow> length (push_data v) \<le> 523"
  by (simp add: push_data_def)

lemma EvalScript_two_pushes:
  assumes "push_ok env sig" "push_ok env pk"
  shows "EvalScript env [] (push_data sig @ push_data pk) = Inr [pk, sig]"
  using EvalScript_pushes [of "[sig, pk]" env "[]"] assms
    length_push_data_le [of sig] length_push_data_le [of pk]
  by (simp add: push_ok_def)

lemma push_ok_length: "push_ok env v \<Longrightarrow> length v < 2 ^ 32"
  by (simp add: push_ok_def)

lemma IsPushOnly_two: "push_ok env sig \<Longrightarrow> push_ok env pk \<Longrightarrow> IsPushOnly (push_data sig @ push_data pk)"
  using IsPushOnly_pushes [of "[sig, pk]"] by (simp add: push_ok_def)

lemma verify_p2pkh_iff:
  assumes "length h = 20" "push_ok env h" "push_ok env sig" "push_ok env pk"
  shows "VerifyScript env (push_data sig @ push_data pk) (p2pkh_script h) = Inr () \<longleftrightarrow>
    Hash160 env pk = h \<and> CheckEncodings env sig pk = None \<and>
    env_CheckSig env sig pk (fst (FindAndDelete (p2pkh_script h) (push_data sig)))"
proof -
  have "\<not> IsPayToScriptHash (p2pkh_script h)"
    using assms(1) by (simp add: IsPayToScriptHash_def p2pkh_script_def length_push_data_20)
  then show ?thesis
    using IsPushOnly_two [OF assms(3,4)] eval_p2pkh [OF assms(1,2), of "[]" pk sig]
    by (simp add: VerifyScript_def EvalScript_two_pushes [OF assms(3,4)] split: option.split)
qed

lemma verify_p2sh_iff:
  assumes "length h = 20" "push_ok env h" "\<forall>v \<in> set vs. push_ok env v" "push_ok env ser"
    and "length vs \<le> 900" "length (concat (map push_data (vs @ [ser]))) \<le> 10000"
    and "has_flag (env_flags env) SCRIPT_VERIFY_P2SH"
  shows "VerifyScript env (concat (map push_data (vs @ [ser]))) (p2sh_script h) = Inr () \<longleftrightarrow>
    Hash160 env ser = h \<and>
    (\<exists>x s. EvalScript env (rev vs) ser = Inr (x # s) \<and> CastToBool x)"
proof -
  have p: "IsPushOnly (concat (map push_data (vs @ [ser])))"
    by (rule IsPushOnly_pushes) (use assms(3,4) push_ok_length in auto)
  have e: "EvalScript env [] (concat (map push_data (vs @ [ser]))) = Inr (ser # rev vs)"
    using EvalScript_pushes [of "vs @ [ser]" env "[]"] assms by simp
  have h: "IsPayToScriptHash (p2sh_script h)"
    using assms(1) p2sh_script_IsPayToScriptHash by blast
  have "EvalScript env (ser # rev vs) (p2sh_script h) = Inr (vchBool (Hash160 env ser = h) # rev vs)"
    using eval_p2sh [OF assms(1,2), of "rev vs" ser] assms(5) by simp
  then show ?thesis
    using assms(7) h p e
    by (auto simp: VerifyScript_def neq_Nil_conv split: sum.splits)
qed

section \<open>Multisignature\<close>

lemma stacknum_serialize:
  assumes "n \<le> 20"
  shows "stacknum env (CScriptNum_serialize (int n)) = Inr (int n)"
    and "CScriptNum_getint (int n) = int n"
proof -
  have "length (CScriptNum_serialize (int n)) \<le> nMaxNumSize"
    using length_CScriptNum_serialize [of "int n" 1] assms by simp
  then show "stacknum env (CScriptNum_serialize (int n)) = Inr (int n)"
    by (simp add: stacknum_def CScriptNum_def serialize_minimal set_vch_serialize)
qed (use assms in \<open>simp add: CScriptNum_getint_def\<close>)

lemma op_checkmultisig_functional:
  assumes k: "length keys \<le> 20" and m: "length sigs \<le> length keys"
    and c: "n + length keys \<le> 201"
    and enc: "\<forall>s \<in> set sigs. \<forall>k \<in> set keys. CheckEncodings env s k = None"
    and dummy: "has_flag (env_flags env) SCRIPT_VERIFY_NULLDUMMY \<longrightarrow> dummy = []"
  shows "op_checkmultisig env OP_CHECKMULTISIG codehash n
      (CScriptNum_serialize (int (length keys)) # keys @
       CScriptNum_serialize (int (length sigs)) # sigs @ dummy # rest) =
    Inr (vchBool (list_emb (\<lambda>s k. env_CheckSig env s k
           (foldl (\<lambda>sc sig. fst (FindAndDelete sc (push_data sig))) codehash sigs)) sigs keys) # rest,
         n + length keys)"
proof -
  have ks: "length sigs \<le> 20" using k m by simp
  show ?thesis
    using k m c dummy
    by (simp add: op_checkmultisig_def Let_def stacknum_serialize [OF k] stacknum_serialize [OF ks]
        nth_append multisig_loop_matches [OF enc])
qed

section \<open>Properties\<close>

text \<open>
  A machine for examples: the digests pad or cut to their size, and a signature is accepted
  for the key that it repeats.
\<close>

definition sample_env :: "u32 \<Rightarrow> eval_env" where
  "sample_env flags =
     \<lparr>env_flags = flags, env_CheckSig = (\<lambda>sig key code. sig = key),
      env_ripemd160 = (\<lambda>x. take 20 (x @ replicate 20 0)), env_sha1 = (\<lambda>x. take 20 (x @ replicate 20 0)),
      env_sha256 = (\<lambda>x. take 32 (x @ replicate 32 0))\<rparr>"

lemma sample_env_simps [simp]:
  "env_flags (sample_env flags) = flags" "env_CheckSig (sample_env flags) sig key code \<longleftrightarrow> sig = key"
  "fRequireMinimal (sample_env 0) = False" "fRequireMinimal (sample_env 1) = False"
  "digest_sizes (sample_env flags)"
  by (auto simp: sample_env_def fRequireMinimal_def has_flag_def digest_sizes_def min_def)

lemma sample_push_ok: "flags = 0 \<or> flags = 1 \<Longrightarrow> length v \<le> 520 \<Longrightarrow> push_ok (sample_env flags) v"
  by (auto simp: push_ok_def)

lemma sample_encodings: "flags = 0 \<or> flags = 1 \<Longrightarrow> CheckEncodings (sample_env flags) sig key = None"
  by (auto simp: CheckEncodings_def CheckSignatureEncoding_def CheckPubKeyEncoding_def has_flag_def)

lemma sample_Hash160: "length x \<le> 20 \<Longrightarrow> Hash160 (sample_env flags) x = x @ replicate (20 - length x) 0"
  by (simp add: Hash160_def sample_env_def)

lemma sample_eval_OP_1: "EvalScript (sample_env 1) [] [OP_1] = Inr [[1]]"
proof -
  have "CScriptNum_serialize 1 = [1]"
    by (simp add: CScriptNum_serialize_def scriptnum_bytes.simps)
  then show ?thesis
    by (simp add: EvalScript_def init_state_def eval_loop_op is_disabled_def fExec_def exec_opcode_def
        exec_push_num_def count_op_def)
qed

text \<open>
  C12: Every state that the interpreter loop reaches from a stack within the limits keeps at
  most 1000 elements on the two stacks together, no element longer than 520 bytes and at most
  201 counted operations, and its iterators stay inside the script.
\<close>

theorem interpreter_limits:
  assumes "digest_sizes env" "length stack \<le> 1000" "stack_ok stack"
    and "eval_reach env stack script pc st"
  shows "length (es_stack st) + length (es_altstack st) \<le> 1000 \<and>
    (\<forall>x \<in> set (es_stack st @ es_altstack st). length x \<le> MAX_SCRIPT_ELEMENT_SIZE) \<and>
    es_nOpCount st \<le> 201 \<and> suffix pc script \<and> suffix (es_codehash st) script"
  using eval_reach_inv [OF assms(4,1-3)] by (auto simp: eval_inv_def stack_ok_def)

theorem interpreter_limits_witness:
  "length (es_stack (init_state [[7]] [OP_DUP])) + length (es_altstack (init_state [[7]] [OP_DUP])) \<le> 1000"
  using interpreter_limits [of "sample_env 0" "[[7]]" "[OP_DUP]" "[OP_DUP]" "init_state [[7]] [OP_DUP]"]
  by (simp add: reach_init)

text \<open>
  A script that \<^verbatim>\<open>EvalScript\<close> accepts leaves at most 1000 elements of at most 520 bytes, so
  its result can be the start of the next script.
\<close>

theorem evalscript_result_limits:
  assumes "digest_sizes env" "length stack \<le> 1000" "stack_ok stack" "EvalScript env stack script = Inr s"
  shows "length s \<le> 1000 \<and> stack_ok s"
  by (rule EvalScript_limits [OF assms])

theorem evalscript_result_limits_witness: "length [[1 :: byte]] \<le> 1000 \<and> stack_ok [[1]]"
  using evalscript_result_limits [of "sample_env 1" "[]" "[OP_1]" "[[1]]"] sample_eval_OP_1 by simp

text \<open>
  An instruction in a branch that is not taken changes neither stack, nor the operation
  count, nor the start of the signed code, whatever the instruction is.
\<close>

theorem skipped_branch_inert:
  assumes "\<not> fExec st" "exec_instr env opcode v pc st = Inr st'"
  shows "es_stack st' = es_stack st \<and> es_altstack st' = es_altstack st \<and>
    es_codehash st' = es_codehash st \<and> es_nOpCount st' = es_nOpCount st"
  using exec_instr_skip [OF assms(1), of env opcode v pc] assms(2) by (simp add: same_stacks_def)

theorem skipped_branch_inert_witness:
  "let st = (init_state [[7]] [OP_DROP])\<lparr>es_vfExec := [False]\<rparr> in es_stack st = [[7]]"
  using skipped_branch_inert [of "(init_state [[7]] [OP_DROP])\<lparr>es_vfExec := [False]\<rparr>" "sample_env 0" OP_DROP "[]" "[]"
      "(init_state [[7]] [OP_DROP])\<lparr>es_vfExec := [False]\<rparr>"]
  by (simp add: fExec_def exec_instr_def init_state_def)

text \<open>
  An output script that \<^verbatim>\<open>IsUnspendable\<close> recognises cannot be satisfied by any input
  script, under any flags and any signature checker.
\<close>

theorem unspendable_never_verifies:
  assumes "IsUnspendable script"
  shows "VerifyScript env sigScript script \<noteq> Inr ()"
proof
  assume "VerifyScript env sigScript script = Inr ()"
  then obtain stack s where "EvalScript env stack script = Inr s"
    by (auto simp: VerifyScript_def split: sum.splits if_splits)
  with EvalScript_unspendable [OF assms, of env stack] show False by auto
qed

theorem unspendable_never_verifies_witness:
  "VerifyScript (sample_env 1) [OP_1] [OP_RETURN, OP_1] \<noteq> Inr ()"
  by (rule unspendable_never_verifies) (simp add: IsUnspendable_def)

text \<open>
  C15: \<^verbatim>\<open>OP_CHECKMULTISIG\<close> succeeds exactly when the signatures match a subsequence of the keys
  in the same order, each signature its own key; it removes its arguments and the extra
  element, and adds the number of keys to the operation count.
\<close>

theorem checkmultisig_matching:
  assumes "length keys \<le> 20" "length sigs \<le> length keys" "n + length keys \<le> 201"
    and "\<forall>s \<in> set sigs. \<forall>k \<in> set keys. CheckEncodings env s k = None"
    and "has_flag (env_flags env) SCRIPT_VERIFY_NULLDUMMY \<longrightarrow> dummy = []"
  shows "op_checkmultisig env OP_CHECKMULTISIG codehash n
      (CScriptNum_serialize (int (length keys)) # keys @
       CScriptNum_serialize (int (length sigs)) # sigs @ dummy # rest) =
    Inr (vchBool (list_emb (\<lambda>s k. env_CheckSig env s k
           (foldl (\<lambda>sc sig. fst (FindAndDelete sc (push_data sig))) codehash sigs)) sigs keys) # rest,
         n + length keys)"
  by (rule op_checkmultisig_functional [OF assms])

theorem checkmultisig_matching_witness:
  "op_checkmultisig (sample_env 0) OP_CHECKMULTISIG [] 0
     (CScriptNum_serialize 2 # [[2], [3]] @ CScriptNum_serialize 1 # [[3]] @ [] # []) = Inr ([[1]], 2)"
  using checkmultisig_matching [of "[[2], [3]]" "[[3]]" 0 "sample_env 0" "[]" "[]" "[]"]
  by (simp add: sample_encodings vchBool_def)

text \<open>
  C13: Spending a pay-to-public-key-hash output with a signature and a key succeeds exactly
  when the key hashes to the output's hash, both are encoded as the flags demand, and the
  checker accepts the signature for the output script.
\<close>

theorem verify_p2pkh:
  assumes "length h = 20" "push_ok env h" "push_ok env sig" "push_ok env pk"
  shows "VerifyScript env (push_data sig @ push_data pk) (p2pkh_script h) = Inr () \<longleftrightarrow>
    Hash160 env pk = h \<and> CheckEncodings env sig pk = None \<and>
    env_CheckSig env sig pk (fst (FindAndDelete (p2pkh_script h) (push_data sig)))"
  by (rule verify_p2pkh_iff [OF assms])

theorem verify_p2pkh_witness:
  "VerifyScript (sample_env 0) (push_data [2] @ push_data [2]) (p2pkh_script ([2] @ replicate 19 0)) = Inr ()"
  using verify_p2pkh [of "[2] @ replicate 19 0" "sample_env 0" "[2]" "[2]"]
  by (simp add: sample_push_ok sample_encodings sample_Hash160)

text \<open>
  C14: With the pay-to-script-hash rule on, a script-hash output is spent by pushes exactly
  when the last of them hashes to the output's hash and, run as a script on the others,
  leaves a true value on top.
\<close>

theorem verify_p2sh:
  assumes "length h = 20" "push_ok env h" "\<forall>v \<in> set vs. push_ok env v" "push_ok env ser"
    and "length vs \<le> 900" "length (concat (map push_data (vs @ [ser]))) \<le> 10000"
    and "has_flag (env_flags env) SCRIPT_VERIFY_P2SH"
  shows "VerifyScript env (concat (map push_data (vs @ [ser]))) (p2sh_script h) = Inr () \<longleftrightarrow>
    Hash160 env ser = h \<and>
    (\<exists>x s. EvalScript env (rev vs) ser = Inr (x # s) \<and> CastToBool x)"
  by (rule verify_p2sh_iff [OF assms])

theorem verify_p2sh_witness:
  "VerifyScript (sample_env 1) (push_data [OP_1]) (p2sh_script ([OP_1] @ replicate 19 0)) = Inr ()"
proof -
  have "length (push_data [OP_1]) \<le> 10000" by (simp add: push_data_def)
  then show ?thesis
    using verify_p2sh [of "[OP_1] @ replicate 19 0" "sample_env 1" "[]" "[OP_1]"] sample_eval_OP_1
    by (simp add: sample_push_ok sample_Hash160 has_flag_def)
qed

text \<open>
  Evaluating a push-only script consults neither the signature checker nor a digest: the
  result depends on the flags alone.
\<close>

theorem push_only_checker_free:
  assumes "IsPushOnly script" "env_flags env' = env_flags env"
  shows "EvalScript env stack script = EvalScript env' stack script"
  using eval_loop_push_only [OF assms] by (simp add: EvalScript_def)

theorem push_only_checker_free_witness:
  "EvalScript (sample_env 1) [] [OP_1] = EvalScript ((sample_env 1)\<lparr>env_CheckSig := \<lambda>_ _ _. True\<rparr>) [] [OP_1]"
  by (rule push_only_checker_free) (simp_all add: IsPushOnly.simps)

end
