(* ===== verification/Standard.thy ===== *)
theory Standard
  imports Interpreter
begin

unbundle bit_operations_syntax

text \<open>
  Standard output scripts (script/standard.cpp): classification of an output script by
  \<^verbatim>\<open>Solver\<close>, the destinations it pays to, and the scripts built for a destination. Also
  the syntactic part of \<^verbatim>\<open>CPubKey\<close> (pubkey.h). Hashes of 160 bits are their 20 bytes.
\<close>

section \<open>Public keys\<close>

definition CPubKey_GetLen :: "byte \<Rightarrow> nat" where
  "CPubKey_GetLen chHeader =
     (if chHeader = 2 \<or> chHeader = 3 then 33
      else if chHeader = 4 \<or> chHeader = 6 \<or> chHeader = 7 then 65
      else 0)"

text \<open>
  \<^verbatim>\<open>CPubKey(vch)\<close>, that is \<^verbatim>\<open>Set\<close>: \<open>None\<close> is the invalidated key, on which \<^verbatim>\<open>IsValid\<close> is
  false.
\<close>

definition CPubKey :: "valtype \<Rightarrow> valtype option" where
  "CPubKey vch =
     (let len = (if vch = [] then 0 else CPubKey_GetLen (vch ! 0))
      in if len \<noteq> 0 \<and> len = length vch then Some vch else None)"

section \<open>Classification\<close>

datatype txnouttype =
    TX_NONSTANDARD | TX_PUBKEY | TX_PUBKEYHASH | TX_SCRIPTHASH | TX_MULTISIG | TX_NULL_DATA

fun GetTxnOutputType :: "txnouttype \<Rightarrow> string" where
  "GetTxnOutputType TX_NONSTANDARD = ''nonstandard''"
| "GetTxnOutputType TX_PUBKEY = ''pubkey''"
| "GetTxnOutputType TX_PUBKEYHASH = ''pubkeyhash''"
| "GetTxnOutputType TX_SCRIPTHASH = ''scripthash''"
| "GetTxnOutputType TX_MULTISIG = ''multisig''"
| "GetTxnOutputType TX_NULL_DATA = ''nulldata''"

text \<open>The templates, in the order in which the multimap iterates over them.\<close>

definition mTemplates :: "(txnouttype \<times> CScript) list" where
  "mTemplates =
     [(TX_PUBKEY, [OP_PUBKEY, OP_CHECKSIG]),
      (TX_PUBKEYHASH, [OP_DUP, OP_HASH160, OP_PUBKEYHASH, OP_EQUALVERIFY, OP_CHECKSIG]),
      (TX_MULTISIG, [OP_SMALLINTEGER, OP_PUBKEYS, OP_SMALLINTEGER, OP_CHECKMULTISIG])]"

text \<open>
  The inner loop for \<^verbatim>\<open>OP_PUBKEYS\<close>: it takes every following push of 33 to 65 bytes. It
  leaves the last instruction that was read, which is \<^verbatim>\<open>OP_INVALIDOPCODE\<close> where reading
  failed.
\<close>

function pubkeys_loop ::
    "opcodetype \<Rightarrow> valtype \<Rightarrow> CScript \<Rightarrow> valtype list \<Rightarrow> opcodetype \<times> valtype \<times> CScript \<times> valtype list" where
  "pubkeys_loop opcode1 vch1 pc1 vSolutions =
     (if 33 \<le> length vch1 \<and> length vch1 \<le> 65 then
        (case GetOp2 pc1 of (ok, opcode1', vch1', pc1') \<Rightarrow>
           if ok then pubkeys_loop opcode1' vch1' pc1' (vSolutions @ [vch1])
           else (opcode1', vch1', pc1', vSolutions @ [vch1]))
      else (opcode1, vch1, pc1, vSolutions))"
  by pat_completeness auto
termination
  by (relation "measure (\<lambda>(op, v, pc, s). length pc)") (auto dest: GetOp2_ok_shorter [OF sym])

declare pubkeys_loop.simps [simp del]

text \<open>
  Matching one instruction against one template opcode: the extended solutions, or \<open>None\<close>
  where the code breaks out of the loop.
\<close>

definition match_op ::
    "opcodetype \<Rightarrow> valtype \<Rightarrow> opcodetype \<Rightarrow> valtype \<Rightarrow> valtype list \<Rightarrow> valtype list option" where
  "match_op opcode1 vch1 opcode2 vch2 vSolutions =
     (if opcode2 = OP_PUBKEY then
        if length vch1 < 33 \<or> length vch1 > 65 then None else Some (vSolutions @ [vch1])
      else if opcode2 = OP_PUBKEYHASH then
        if length vch1 \<noteq> 20 then None else Some (vSolutions @ [vch1])
      else if opcode2 = OP_SMALLINTEGER then
        if opcode1 = OP_0 \<or> (OP_1 \<le> opcode1 \<and> opcode1 \<le> OP_16)
        then Some (vSolutions @ [[word_of_nat (DecodeOP_N opcode1)]])
        else None
      else if opcode1 \<noteq> opcode2 \<or> vch1 \<noteq> vch2 then None
      else Some vSolutions)"

function match_template :: "CScript \<Rightarrow> CScript \<Rightarrow> valtype list \<Rightarrow> valtype list option" where
  "match_template pc1 pc2 vSolutions =
     (if pc1 = [] \<and> pc2 = [] then Some vSolutions
      else
        (case GetOp2 pc1 of (ok1, opcode1, vch1, pc1') \<Rightarrow>
         if \<not> ok1 then None
         else
           (case GetOp2 pc2 of (ok2, opcode2, vch2, pc2') \<Rightarrow>
            if \<not> ok2 then None
            else if opcode2 = OP_PUBKEYS then
              (case pubkeys_loop opcode1 vch1 pc1' vSolutions of (opcode1', vch1', pc1'', vSolutions') \<Rightarrow>
                 (case GetOp2 pc2' of (ok2, opcode2', vch2', pc2'') \<Rightarrow>
                  if \<not> ok2 then None
                  else
                    (case match_op opcode1' vch1' opcode2' vch2' vSolutions' of
                       None \<Rightarrow> None
                     | Some s \<Rightarrow> match_template pc1'' pc2'' s)))
            else
              (case match_op opcode1 vch1 opcode2 vch2 vSolutions of
                 None \<Rightarrow> None
               | Some s \<Rightarrow> match_template pc1' pc2' s))))"
  by pat_completeness auto
termination
  by (relation "measure (\<lambda>(pc1, pc2, s). length pc2)")
    (auto dest!: GetOp2_ok_shorter [OF sym])

declare match_template.simps [simp del]

definition multisig_counts_ok :: "valtype list \<Rightarrow> bool" where
  "multisig_counts_ok vSolutions =
     (let m = hd vSolutions ! 0; n = last vSolutions ! 0
      in \<not> (m < 1 \<or> n < 1 \<or> m > n \<or> length vSolutions - 2 \<noteq> unat n))"

fun Solver_scan :: "CScript \<Rightarrow> (txnouttype \<times> CScript) list \<Rightarrow> bool \<times> txnouttype \<times> valtype list" where
  "Solver_scan script [] = (False, TX_NONSTANDARD, [])"
| "Solver_scan script ((t, tplate) # ts) =
     (case match_template script tplate [] of
        Some vSolutions \<Rightarrow>
          if t = TX_MULTISIG \<and> \<not> multisig_counts_ok vSolutions then (False, t, vSolutions)
          else (True, t, vSolutions)
      | None \<Rightarrow> Solver_scan script ts)"

definition Solver :: "CScript \<Rightarrow> bool \<times> txnouttype \<times> valtype list" where
  "Solver scriptPubKey =
     (if IsPayToScriptHash scriptPubKey then (True, TX_SCRIPTHASH, [take 20 (drop 2 scriptPubKey)])
      else if length scriptPubKey \<ge> 1 \<and> scriptPubKey ! 0 = OP_RETURN \<and> IsPushOnly (drop 1 scriptPubKey)
      then (True, TX_NULL_DATA, [])
      else Solver_scan scriptPubKey mTemplates)"

fun ScriptSigArgsExpected :: "txnouttype \<Rightarrow> valtype list \<Rightarrow> int" where
  "ScriptSigArgsExpected TX_NONSTANDARD vSolutions = - 1"
| "ScriptSigArgsExpected TX_NULL_DATA vSolutions = - 1"
| "ScriptSigArgsExpected TX_PUBKEY vSolutions = 1"
| "ScriptSigArgsExpected TX_PUBKEYHASH vSolutions = 2"
| "ScriptSigArgsExpected TX_MULTISIG vSolutions =
     (if length vSolutions < 1 \<or> length (vSolutions ! 0) < 1 then - 1
      else uint (vSolutions ! 0 ! 0) + 1)"
| "ScriptSigArgsExpected TX_SCRIPTHASH vSolutions = 1"

text \<open>
  \<^verbatim>\<open>IsStandard\<close>; \<open>datacarrier\<close> and \<open>nMaxDatacarrierBytes\<close> are the command line settings it
  reads.
\<close>

definition IsStandard :: "bool \<Rightarrow> nat \<Rightarrow> CScript \<Rightarrow> bool \<times> txnouttype" where
  "IsStandard datacarrier nMaxDatacarrierBytes scriptPubKey =
     (case Solver scriptPubKey of (ok, whichType, vSolutions) \<Rightarrow>
        if \<not> ok then (False, whichType)
        else if whichType = TX_MULTISIG then
          let m = hd vSolutions ! 0; n = last vSolutions ! 0 in
          if n < 1 \<or> n > 3 then (False, whichType)
          else if m < 1 \<or> m > n then (False, whichType)
          else (True, whichType)
        else if whichType = TX_NULL_DATA \<and>
             (\<not> datacarrier \<or> length scriptPubKey > nMaxDatacarrierBytes)
        then (False, whichType)
        else (whichType \<noteq> TX_NONSTANDARD, whichType))"

section \<open>Destinations\<close>

datatype CTxDestination = CNoDestination | CKeyID valtype | CScriptID valtype

definition CPubKey_GetID :: "eval_env \<Rightarrow> valtype \<Rightarrow> CTxDestination" where
  "CPubKey_GetID env pubKey = CKeyID (Hash160 env pubKey)"

definition ExtractDestination :: "eval_env \<Rightarrow> CScript \<Rightarrow> CTxDestination option" where
  "ExtractDestination env scriptPubKey =
     (case Solver scriptPubKey of (ok, whichType, vSolutions) \<Rightarrow>
        if \<not> ok then None
        else if whichType = TX_PUBKEY then
          (case CPubKey (vSolutions ! 0) of
             None \<Rightarrow> None
           | Some pubKey \<Rightarrow> Some (CPubKey_GetID env pubKey))
        else if whichType = TX_PUBKEYHASH then Some (CKeyID (vSolutions ! 0))
        else if whichType = TX_SCRIPTHASH then Some (CScriptID (vSolutions ! 0))
        else None)"

text \<open>
  \<^verbatim>\<open>ExtractDestinations\<close>: the type, the addresses and the number of signatures required,
  or \<open>None\<close> where it returns false.
\<close>

definition ExtractDestinations :: "eval_env \<Rightarrow> CScript \<Rightarrow> (txnouttype \<times> CTxDestination list \<times> nat) option" where
  "ExtractDestinations env scriptPubKey =
     (case Solver scriptPubKey of (ok, typeRet, vSolutions) \<Rightarrow>
        if \<not> ok then None
        else if typeRet = TX_NULL_DATA then None
        else if typeRet = TX_MULTISIG then
          let nRequiredRet = unat (hd vSolutions ! 0);
              addressRet = map (CPubKey_GetID env) (List.map_filter CPubKey (butlast (tl vSolutions)))
          in if addressRet = [] then None else Some (typeRet, addressRet, nRequiredRet)
        else
          (case ExtractDestination env scriptPubKey of
             None \<Rightarrow> None
           | Some address \<Rightarrow> Some (typeRet, [address], 1)))"

text \<open>\<^verbatim>\<open>CScriptVisitor\<close> and \<^verbatim>\<open>GetScriptForDestination\<close>.\<close>

fun GetScriptForDestination :: "CTxDestination \<Rightarrow> CScript" where
  "GetScriptForDestination CNoDestination = []"
| "GetScriptForDestination (CKeyID keyID) = p2pkh_script keyID"
| "GetScriptForDestination (CScriptID scriptID) = p2sh_script scriptID"

definition GetScriptForMultisig :: "int \<Rightarrow> valtype list \<Rightarrow> CScript option" where
  "GetScriptForMultisig nRequired keys =
     (case EncodeOP_N nRequired of
        None \<Rightarrow> None
      | Some m \<Rightarrow>
          (case EncodeOP_N (int (length keys)) of
             None \<Rightarrow> None
           | Some n \<Rightarrow> Some ([m] @ concat (map push_data keys) @ [n, OP_CHECKMULTISIG])))"

section \<open>Matching the scripts that are built\<close>

lemma match_template_Nil [simp]: "match_template [] [] s = Some s"
  by (simp add: match_template.simps)

lemma match_template_op:
  assumes "GetOp2 pc1 = (True, opcode1, vch1, pc1')" "OP_PUSHDATA4 < opcode2" "opcode2 \<noteq> OP_PUBKEYS"
  shows "match_template pc1 (opcode2 # pc2) s =
    (case match_op opcode1 vch1 opcode2 [] s of
       None \<Rightarrow> None
     | Some s' \<Rightarrow> match_template pc1' pc2 s')"
  using assms by (subst match_template.simps) (simp add: GetOp2_big_opcode del: GetOp2.simps)

lemma push_20: "length h = 20 \<Longrightarrow> GetOp2 (push_data h @ pc) = (True, 0x14, h, pc)"
  by (simp add: length_push_data_20 GetOp2_data_def)

lemma match_template_pubkey_fail:
  assumes "OP_PUSHDATA4 < opcode1"
  shows "match_template (opcode1 # pc1) (OP_PUBKEY # pc2) s = None"
  using assms by (subst match_template_op [OF GetOp2_big_opcode]) (simp_all add: match_op_def)

lemma match_template_p2pkh:
  assumes "length h = 20"
  shows "match_template (p2pkh_script h)
    [OP_DUP, OP_HASH160, OP_PUBKEYHASH, OP_EQUALVERIFY, OP_CHECKSIG] [] = Some [h]"
  unfolding p2pkh_script_def
  using assms
  by (simp add: match_template_op [OF GetOp2_big_opcode] match_template_op [OF push_20] match_op_def
      del: GetOp2.simps)

lemma Solver_p2pkh:
  assumes "length h = 20"
  shows "Solver (p2pkh_script h) = (True, TX_PUBKEYHASH, [h])"
proof -
  have "\<not> IsPayToScriptHash (p2pkh_script h)" "p2pkh_script h ! 0 \<noteq> OP_RETURN"
    using assms by (simp_all add: IsPayToScriptHash_def p2pkh_script_def length_push_data_20)
  moreover have "match_template (p2pkh_script h) [OP_PUBKEY, OP_CHECKSIG] [] = None"
    unfolding p2pkh_script_def by (simp add: match_template_pubkey_fail)
  ultimately show ?thesis
    using match_template_p2pkh [OF assms] by (simp add: Solver_def mTemplates_def)
qed

lemma Solver_p2sh:
  assumes "length h = 20"
  shows "Solver (p2sh_script h) = (True, TX_SCRIPTHASH, [h])"
  using assms p2sh_script_IsPayToScriptHash [of "p2sh_script h"]
  by (auto simp: Solver_def p2sh_script_def length_push_data_20)

lemma EncodeOP_N_facts:
  assumes "1 \<le> k" "k \<le> 16"
  obtains opcode where "EncodeOP_N (int k) = Some opcode" "OP_1 \<le> opcode" "opcode \<le> OP_16"
    "DecodeOP_N opcode = k" "OP_PUSHDATA4 < opcode"
proof
  let ?o = "word_of_nat (80 + k) :: byte"
  have u: "unat ?o = 80 + k" using assms by (intro unat_byte_of_nat) simp
  have "word_of_int (81 + int k - 1) = ?o"
    by simp
  then show "EncodeOP_N (int k) = Some ?o" using assms by (simp add: EncodeOP_N_def)
  show "OP_1 \<le> ?o" "?o \<le> OP_16" "OP_PUSHDATA4 < ?o"
    using assms u by (simp_all add: word_le_nat_alt word_less_nat_alt)
  have "?o \<noteq> 0" using u by (auto simp: unat_eq_0)
  then show "DecodeOP_N ?o = k" using u by (simp add: DecodeOP_N_def)
qed

lemma pubkeys_loop_keys:
  assumes "\<forall>k \<in> set (v # keys). 33 \<le> length k \<and> length k \<le> 65" "OP_PUSHDATA4 < n"
  shows "pubkeys_loop opcode v (concat (map push_data keys) @ n # rest) s = (n, [], rest, s @ v # keys)"
  using assms
proof (induction keys arbitrary: opcode v s)
  case Nil
  then show ?case
    by (simp add: pubkeys_loop.simps [of opcode] pubkeys_loop.simps [of n] GetOp2_big_opcode del: GetOp2.simps)
next
  case (Cons k keys)
  have "length k < 2 ^ 32" using Cons.prems by auto
  from GetOp2_push_data [OF this, of "concat (map push_data keys) @ n # rest"] obtain opc where
    "GetOp2 (push_data k @ concat (map push_data keys) @ n # rest) =
       (True, opc, k, concat (map push_data keys) @ n # rest)" by blast
  then show ?case
    using Cons.prems Cons.IH [of k opc "s @ [v]"] by (simp add: pubkeys_loop.simps [of opcode])
qed

lemma match_template_pubkeys:
  assumes "GetOp2 pc1 = (True, opcode1, vch1, pc1')"
    "pubkeys_loop opcode1 vch1 pc1' s = (opcode1', vch1', pc1'', s')" "OP_PUSHDATA4 < opcode2"
  shows "match_template pc1 (OP_PUBKEYS # opcode2 # pc2) s =
    (case match_op opcode1' vch1' opcode2 [] s' of
       None \<Rightarrow> None
     | Some s'' \<Rightarrow> match_template pc1'' pc2 s'')"
  using assms by (subst match_template.simps) (simp add: GetOp2_big_opcode del: GetOp2.simps)

lemma match_op_small:
  "OP_1 \<le> opcode1 \<Longrightarrow> opcode1 \<le> OP_16 \<Longrightarrow>
     match_op opcode1 vch1 OP_SMALLINTEGER vch2 s = Some (s @ [[word_of_nat (DecodeOP_N opcode1)]])"
  by (simp add: match_op_def)

lemma GetScriptForMultisig_Some:
  assumes "1 \<le> m" "m \<le> length keys" "length keys \<le> 16"
  obtains om on where "GetScriptForMultisig (int m) keys = Some ([om] @ concat (map push_data keys) @ [on, OP_CHECKMULTISIG])"
    "OP_1 \<le> om" "om \<le> OP_16" "OP_PUSHDATA4 < om" "DecodeOP_N om = m"
    "OP_1 \<le> on" "on \<le> OP_16" "OP_PUSHDATA4 < on" "DecodeOP_N on = length keys"
proof -
  obtain om where m: "EncodeOP_N (int m) = Some om" "OP_1 \<le> om" "om \<le> OP_16" "DecodeOP_N om = m" "OP_PUSHDATA4 < om"
    by (rule EncodeOP_N_facts [of m]) (use assms in auto)
  obtain on where n: "EncodeOP_N (int (length keys)) = Some on" "OP_1 \<le> on" "on \<le> OP_16"
      "DecodeOP_N on = length keys" "OP_PUSHDATA4 < on"
    by (rule EncodeOP_N_facts [of "length keys"]) (use assms in auto)
  show thesis by (rule that [of om on]) (use m n in \<open>simp_all add: GetScriptForMultisig_def\<close>)
qed

lemma match_template_multisig:
  assumes k: "\<forall>k \<in> set keys. 33 \<le> length k \<and> length k \<le> 65" "keys \<noteq> []"
    and m: "OP_1 \<le> om" "om \<le> OP_16" "OP_PUSHDATA4 < om"
    and n: "OP_1 \<le> on" "on \<le> OP_16" "OP_PUSHDATA4 < on"
  shows "match_template ([om] @ concat (map push_data keys) @ [on, OP_CHECKMULTISIG])
      [OP_SMALLINTEGER, OP_PUBKEYS, OP_SMALLINTEGER, OP_CHECKMULTISIG] [] =
    Some ([word_of_nat (DecodeOP_N om)] # keys @ [[word_of_nat (DecodeOP_N on)]])"
proof -
  obtain k ks where ks: "keys = k # ks" using k(2) by (cases keys) auto
  let ?pc = "concat (map push_data ks) @ [on, OP_CHECKMULTISIG]"
  have "length k < 2 ^ 32" using k ks by auto
  from GetOp2_push_data [OF this, of ?pc] obtain opc where
    g: "GetOp2 (push_data k @ ?pc) = (True, opc, k, ?pc)" by blast
  have p: "pubkeys_loop opc k ?pc s = (on, [], [OP_CHECKMULTISIG], s @ k # ks)" for s
    using pubkeys_loop_keys [of k ks on opc "[OP_CHECKMULTISIG]" s] k ks n by simp
  have c: "match_template [OP_CHECKMULTISIG] [OP_CHECKMULTISIG] s = Some s" for s
    by (simp add: match_template_op [OF GetOp2_big_opcode] match_op_def del: GetOp2.simps)
  show ?thesis
    using ks by (simp add: match_template_op [OF GetOp2_big_opcode [OF m(3)]] match_op_small [OF m(1,2)]
        match_template_pubkeys [OF g p] match_op_small [OF n(1,2)] c del: GetOp2.simps)
qed

lemma Solver_multisig:
  assumes k: "\<forall>k \<in> set keys. 33 \<le> length k \<and> length k \<le> 65"
    and m: "1 \<le> m" "m \<le> length keys" "length keys \<le> 16"
    and s: "GetScriptForMultisig (int m) keys = Some script"
  shows "Solver script = (True, TX_MULTISIG, [word_of_nat m] # keys @ [[word_of_nat (length keys)]])"
proof -
  obtain om on where sc: "GetScriptForMultisig (int m) keys = Some ([om] @ concat (map push_data keys) @ [on, OP_CHECKMULTISIG])"
    and om: "OP_1 \<le> om" "om \<le> OP_16" "OP_PUSHDATA4 < om" "DecodeOP_N om = m"
    and on: "OP_1 \<le> on" "on \<le> OP_16" "OP_PUSHDATA4 < on" "DecodeOP_N on = length keys"
    by (rule GetScriptForMultisig_Some [OF m])
  let ?s = "[om] @ concat (map push_data keys) @ [on, OP_CHECKMULTISIG]"
  have ne: "om \<noteq> OP_RETURN" "om \<noteq> OP_HASH160" "om \<noteq> OP_DUP" using om(2) by (auto simp: word_le_nat_alt)
  have "keys \<noteq> []" using m by (cases keys) auto
  note mt = match_template_multisig [OF k this om(1-3) on(1-3)]
  have "match_template ?s [OP_PUBKEY, OP_CHECKSIG] [] = None"
    using match_template_pubkey_fail [OF om(3)] by simp
  moreover have "match_template ?s [OP_DUP, OP_HASH160, OP_PUBKEYHASH, OP_EQUALVERIFY, OP_CHECKSIG] [] = None"
    using ne by (simp add: match_template_op [OF GetOp2_big_opcode [OF om(3)]] match_op_def)
  moreover have "multisig_counts_ok ([word_of_nat m] # keys @ [[word_of_nat (length keys)]])"
    using m \<open>keys \<noteq> []\<close> by (simp add: multisig_counts_ok_def word_less_nat_alt unat_byte_of_nat)
  moreover have "script = ?s" "script ! 0 = om" using s sc by auto
  ultimately show ?thesis
    using mt ne om(4) on(4) by (simp add: Solver_def mTemplates_def IsPayToScriptHash_def)
qed

section \<open>Properties\<close>

definition valid_destination :: "CTxDestination \<Rightarrow> bool" where
  "valid_destination d \<longleftrightarrow> (\<exists>h. length h = 20 \<and> (d = CKeyID h \<or> d = CScriptID h))"

text \<open>
  An address survives the trip through its output script: extracting the destination of
  \<^verbatim>\<open>GetScriptForDestination\<close> gives the destination back, alone and as the single address with
  one signature required.
\<close>

theorem destination_roundtrip:
  assumes "valid_destination d"
  shows "ExtractDestination env (GetScriptForDestination d) = Some d \<and>
    (\<exists>t. ExtractDestinations env (GetScriptForDestination d) = Some (t, [d], 1))"
  using assms
  by (auto simp: valid_destination_def ExtractDestination_def ExtractDestinations_def Solver_p2pkh Solver_p2sh)

theorem destination_roundtrip_witness:
  "ExtractDestination (sample_env 0) (GetScriptForDestination (CKeyID (replicate 20 7))) = Some (CKeyID (replicate 20 7))"
proof -
  have "valid_destination (CKeyID (replicate 20 7))" by (simp add: valid_destination_def)
  from destination_roundtrip [OF this, of "sample_env 0"] show ?thesis by simp
qed

text \<open>
  The script of an m-of-n multisignature over well-sized keys is recognised as one, with
  the number required, the keys in their order and the number of keys.
\<close>

theorem multisig_script_solved:
  assumes "\<forall>k \<in> set keys. 33 \<le> length k \<and> length k \<le> 65"
    and "1 \<le> m" "m \<le> length keys" "length keys \<le> 16"
  shows "\<exists>script. GetScriptForMultisig (int m) keys = Some script \<and>
    Solver script = (True, TX_MULTISIG, [word_of_nat m] # keys @ [[word_of_nat (length keys)]])"
  using Solver_multisig [OF assms] GetScriptForMultisig_Some [OF assms(2-4)] by blast

theorem multisig_script_solved_witness:
  "\<exists>script. GetScriptForMultisig (int 1) [replicate 33 2, replicate 33 3] = Some script \<and>
    Solver script = (True, TX_MULTISIG, [word_of_nat 1] # [replicate 33 2, replicate 33 3] @ [[word_of_nat 2]])"
  using multisig_script_solved [of "[replicate 33 2, replicate 33 3]" 1] by simp

end
