(* ===== verification/Serialize.thy ===== *)
theory Serialize
  imports Prelude
begin

unbundle bit_operations_syntax

text \<open>
  Serialization (serialize.h, and \<^verbatim>\<open>CDataStream::read\<close> of streams.h): integers in memory
  order, compact sizes, variable-length integers, byte vectors and vectors of serializable
  items. Writing returns the bytes; reading takes the bytes that are left in the stream and
  returns the value and what is left after it, or the exception it throws. The locale
  \<open>codec\<close> is the interface that every serializable type provides.
\<close>

section \<open>Streams\<close>

datatype read_error = EndOfData | NonCanonicalSize | SizeTooLarge

type_synonym 'a reader = "byte list \<Rightarrow> read_error + 'a \<times> byte list"

definition stream_read :: "nat \<Rightarrow> valtype reader" where
  "stream_read nSize s =
     (if nSize > length s then Inl EndOfData else Inr (take nSize s, drop nSize s))"

text \<open>Reading in sequence: the exception of the first read ends the second.\<close>

definition rbind :: "'a reader \<Rightarrow> ('a \<Rightarrow> 'b reader) \<Rightarrow> 'b reader" where
  "rbind m f s =
     (case m s of
        Inl e \<Rightarrow> Inl e
      | Inr (x, s') \<Rightarrow> f x s')"

definition rreturn :: "'a \<Rightarrow> 'a reader" where
  "rreturn x s = Inr (x, s)"

definition rthrow :: "read_error \<Rightarrow> 'a reader" where
  "rthrow e s = Inl e"

lemma rbind_Inr:
  "rbind m f s = Inr (y, t) \<longleftrightarrow> (\<exists>x s'. m s = Inr (x, s') \<and> f x s' = Inr (y, t))"
  by (auto simp: rbind_def split: sum.splits)

lemma rreturn_Inr: "rreturn x s = Inr (y, t) \<longleftrightarrow> y = x \<and> t = s"
  by (auto simp: rreturn_def)

lemma rthrow_Inr: "rthrow e s = Inr y \<longleftrightarrow> False"
  by (simp add: rthrow_def)

lemma if_reader: "(if c then m else m') s = (if c then m s else m' s)"
  by simp

lemmas reader_simps = rbind_Inr rreturn_Inr rthrow_Inr if_reader

text \<open>\<^verbatim>\<open>WRITEDATA\<close> and \<^verbatim>\<open>READDATA\<close> of an unsigned integer of \<open>k\<close> bytes.\<close>

definition read_le :: "nat \<Rightarrow> nat reader" where
  "read_le k = rbind (stream_read k) (\<lambda>bs. rreturn (le_val bs))"

section \<open>Compact sizes\<close>

definition GetSizeOfCompactSize :: "nat \<Rightarrow> nat" where
  "GetSizeOfCompactSize nSize =
     (if nSize < 253 then 1
      else if nSize \<le> 0xffff then 3
      else if nSize \<le> 0xffffffff then 5
      else 9)"

definition WriteCompactSize :: "nat \<Rightarrow> byte list" where
  "WriteCompactSize nSize =
     (if nSize < 253 then le_bytes 1 nSize
      else if nSize \<le> 0xffff then 253 # le_bytes 2 nSize
      else if nSize \<le> 0xffffffff then 254 # le_bytes 4 nSize
      else 255 # le_bytes 8 nSize)"

abbreviation (input) MAX_SIZE :: nat where
  "MAX_SIZE \<equiv> 0x02000000"

definition ReadCompactSize_tail :: "nat \<Rightarrow> nat \<Rightarrow> nat reader" where
  "ReadCompactSize_tail k least =
     rbind (read_le k) (\<lambda>xSize.
       if xSize < least then rthrow NonCanonicalSize else rreturn xSize)"

definition ReadCompactSize :: "nat reader" where
  "ReadCompactSize =
     rbind (read_le 1) (\<lambda>chSize.
     rbind (if chSize < 253 then rreturn chSize
            else if chSize = 253 then ReadCompactSize_tail 2 253
            else if chSize = 254 then ReadCompactSize_tail 4 0x10000
            else ReadCompactSize_tail 8 0x100000000) (\<lambda>nSizeRet.
     if nSizeRet > MAX_SIZE then rthrow SizeTooLarge else rreturn nSizeRet))"

section \<open>Variable-length integers\<close>

lemma varint_more: "0x7F < n \<Longrightarrow> 128 \<le> unat n" for n :: "'w :: len word"
proof -
  assume "0x7F < n"
  then have l: "unat (0x7F :: 'w word) < unat n" by (simp add: word_less_nat_alt)
  have u: "unat (0x7F :: 'w word) = 127 mod 2 ^ LENGTH('w)"
    by (simp add: unat_of_nat [of 127, simplified] take_bit_eq_mod)
  show ?thesis
  proof (cases "LENGTH('w) \<le> 7")
    case True
    then have "(127 :: nat) mod 2 ^ LENGTH('w) = 2 ^ LENGTH('w) - 1"
      using mask_mod_exp [of 7 "LENGTH('w)", where ?'a = nat] by (simp add: mask_eq_exp_minus_1 min_def)
    moreover have "unat n < 2 ^ LENGTH('w)" by (rule unsigned_less)
    ultimately show ?thesis using l u by linarith
  next
    case False
    then have "2 ^ 8 \<le> (2 :: nat) ^ LENGTH('w)" by (intro power_increasing) auto
    with l u show ?thesis by simp
  qed
qed

lemma varint_next: "0x7F < n \<Longrightarrow> unat (drop_bit 7 n - 1) = unat n div 128 - 1" for n :: "'w :: len word"
proof -
  assume "0x7F < n"
  then have n: "128 \<le> unat n" by (rule varint_more)
  have d: "unat (drop_bit 7 n) = unat n div 128"
    by (simp only: unsigned_drop_bit_eq take_bit_nat_eq_self [OF unsigned_less]) (simp add: drop_bit_eq_div)
  have "unat n div 128 \<noteq> 0" using n by simp
  then have "drop_bit 7 n \<noteq> 0" using d by (metis unsigned_0)
  then show ?thesis using d by (simp add: unat_minus_one)
qed

text \<open>
  \<^verbatim>\<open>WriteVarInt\<close> fills \<^verbatim>\<open>tmp\<close> from the least significant group on, with the flag
  \<^verbatim>\<open>0x80\<close> on all but the first, and then writes it backwards. The integer type is a
  parameter, as in the template.
\<close>

function varint_tmp :: "'w :: len word \<Rightarrow> byte \<Rightarrow> byte list" where
  "varint_tmp n flag =
     (ucast (n AND 0x7F) OR flag) #
     (if n \<le> 0x7F then [] else varint_tmp (drop_bit 7 n - 1) 0x80)"
  by pat_completeness auto
termination
proof (relation "measure (\<lambda>(n, flag). unat n)", goal_cases)
  case (2 n flag)
  then have "0x7F < n" by (simp add: not_le)
  from varint_next [OF this] varint_more [OF this] show ?case by simp
qed simp

declare varint_tmp.simps [simp del]

definition WriteVarInt :: "'w :: len word \<Rightarrow> byte list" where
  "WriteVarInt n = rev (varint_tmp n 0x00)"

definition GetSizeOfVarInt :: "'w :: len word \<Rightarrow> nat" where
  "GetSizeOfVarInt n = length (varint_tmp n 0x00)"

text \<open>\<^verbatim>\<open>ReadVarInt\<close>: shifting and incrementing wrap around at the width of the integer type.\<close>

fun ReadVarInt_loop :: "'w :: len word \<Rightarrow> 'w word reader" where
  "ReadVarInt_loop n [] = Inl EndOfData"
| "ReadVarInt_loop n (chData # s) =
     (let n = push_bit 7 n OR ucast (chData AND 0x7F) in
      if chData AND 0x80 \<noteq> 0 then ReadVarInt_loop (n + 1) s else Inr (n, s))"

definition ReadVarInt :: "'w :: len word reader" where
  "ReadVarInt = ReadVarInt_loop 0"

section \<open>Vectors\<close>

text \<open>
  Byte vectors and scripts are read in blocks of at most \<^verbatim>\<open>1 + 4999999 / sizeof(T)\<close> bytes.
\<close>

function read_blocks :: "nat \<Rightarrow> valtype reader" where
  "read_blocks n s =
     (if n = 0 then Inr ([], s)
      else
        let blk = min n 5000000 in
        rbind (stream_read blk) (\<lambda>b. rbind (read_blocks (n - blk)) (\<lambda>v. rreturn (b @ v))) s)"
  by pat_completeness auto
termination
  by (relation "measure (\<lambda>(n, s). n)") auto

declare read_blocks.simps [simp del]

definition ser_bytes :: "valtype \<Rightarrow> byte list" where
  "ser_bytes v = WriteCompactSize (length v) @ v"

definition unser_bytes :: "valtype reader" where
  "unser_bytes = rbind ReadCompactSize read_blocks"

definition ser_vector :: "('a \<Rightarrow> byte list) \<Rightarrow> 'a list \<Rightarrow> byte list" where
  "ser_vector ser v = WriteCompactSize (length v) @ concat (map ser v)"

fun unser_items :: "'a reader \<Rightarrow> nat \<Rightarrow> 'a list reader" where
  "unser_items unser 0 = rreturn []"
| "unser_items unser (Suc n) =
     rbind unser (\<lambda>x. rbind (unser_items unser n) (\<lambda>xs. rreturn (x # xs)))"

definition unser_vector :: "'a reader \<Rightarrow> 'a list reader" where
  "unser_vector unser = rbind ReadCompactSize (unser_items unser)"

section \<open>The interface of serializable types\<close>

text \<open>
  What a pair of \<^verbatim>\<open>Serialize\<close> and \<^verbatim>\<open>Unserialize\<close> promises: a valid value is read back
  whatever follows it.
\<close>

locale decoder =
  fixes ser :: "'a \<Rightarrow> byte list"
    and unser :: "'a reader"
    and valid :: "'a \<Rightarrow> bool"
  assumes unser_ser: "valid x \<Longrightarrow> unser (ser x @ s) = Inr (x, s)"
begin

lemma prefix_free: "valid x \<Longrightarrow> valid y \<Longrightarrow> ser x @ s = ser y @ t \<Longrightarrow> x = y \<and> s = t"
  by (metis Inr_inject Pair_inject unser_ser)

lemma ser_inject: "valid x \<Longrightarrow> valid y \<Longrightarrow> ser x = ser y \<Longrightarrow> x = y"
  using prefix_free [of x y "[]" "[]"] by simp

lemma items_ser:
  "\<forall>x \<in> set xs. valid x \<Longrightarrow> unser_items unser (length xs) (concat (map ser xs) @ s) = Inr (xs, s)"
  by (induction xs) (simp_all add: rbind_def rreturn_def unser_ser)

end

text \<open>The encoding is canonical as well: only the bytes of a valid value are accepted.\<close>

locale codec = decoder +
  assumes unser_sound: "unser s = Inr (x, s') \<Longrightarrow> valid x \<and> s = ser x @ s'"
begin

lemma unser_iff: "unser s = Inr (x, s') \<longleftrightarrow> valid x \<and> s = ser x @ s'"
  using unser_ser unser_sound by blast

lemma items_iff:
  "unser_items unser n s = Inr (xs, s') \<longleftrightarrow>
     length xs = n \<and> (\<forall>x \<in> set xs. valid x) \<and> s = concat (map ser xs) @ s'"
proof (induction n arbitrary: xs s)
  case 0
  show ?case by (auto simp: rreturn_def)
next
  case (Suc n)
  show ?case
    by (cases xs) (auto simp: reader_simps Suc.IH unser_iff)
qed

end

section \<open>Integers, compact sizes and vectors are codecs\<close>

lemma stream_read_Inr: "stream_read n s = Inr (x, s') \<longleftrightarrow> length x = n \<and> s = x @ s'"
  by (auto simp: stream_read_def)

lemma read_le_Inr: "read_le k s = Inr (n, s') \<longleftrightarrow> n < 256 ^ k \<and> s = le_bytes k n @ s'"
proof
  assume "read_le k s = Inr (n, s')"
  then obtain bs where "length bs = k" "s = bs @ s'" "n = le_val bs"
    by (auto simp: read_le_def stream_read_Inr reader_simps)
  then show "n < 256 ^ k \<and> s = le_bytes k n @ s'"
    using le_val_less [of bs] le_bytes_le_val [of bs] by auto
next
  assume "n < 256 ^ k \<and> s = le_bytes k n @ s'"
  then show "read_le k s = Inr (n, s')"
    by (auto simp: read_le_def stream_read_Inr reader_simps le_val_le_bytes)
qed

lemma ReadCompactSize_tail_Inr:
  "ReadCompactSize_tail k least s = Inr (n, s') \<longleftrightarrow>
     n < 256 ^ k \<and> least \<le> n \<and> s = le_bytes k n @ s'"
  by (auto simp: ReadCompactSize_tail_def read_le_Inr reader_simps split: if_splits)

lemma ReadCompactSize_Inr:
  "ReadCompactSize s = Inr (n, s') \<longleftrightarrow> n \<le> MAX_SIZE \<and> s = WriteCompactSize n @ s'"
proof
  assume "ReadCompactSize s = Inr (n, s')"
  then show "n \<le> MAX_SIZE \<and> s = WriteCompactSize n @ s'"
    by (auto simp: ReadCompactSize_def reader_simps read_le_Inr ReadCompactSize_tail_Inr WriteCompactSize_def
        split: if_splits)
next
  assume n: "n \<le> MAX_SIZE \<and> s = WriteCompactSize n @ s'"
  consider "n < 253" | "253 \<le> n" "n \<le> 0xffff" | "0xffff < n" by linarith
  then show "ReadCompactSize s = Inr (n, s')"
  proof cases
    case 1
    then show ?thesis using n
      by (auto simp: ReadCompactSize_def reader_simps read_le_Inr WriteCompactSize_def intro!: exI [of _ n])
  next
    case 2
    then show ?thesis using n
      unfolding ReadCompactSize_def rbind_Inr
      by (intro exI [of _ 253] exI [of _ n] exI conjI)
        (auto simp: read_le_Inr reader_simps ReadCompactSize_tail_Inr WriteCompactSize_def)
  next
    case 3
    then show ?thesis using n
      unfolding ReadCompactSize_def rbind_Inr
      by (intro exI [of _ 254] exI [of _ n] exI conjI)
        (auto simp: read_le_Inr reader_simps ReadCompactSize_tail_Inr WriteCompactSize_def)
  qed
qed

lemma stream_read_split:
  assumes "k \<le> n"
  shows "rbind (stream_read k) (\<lambda>b. rbind (stream_read (n - k)) (\<lambda>v. rreturn (b @ v))) s = stream_read n s"
  using assms
  by (auto simp: rbind_def rreturn_def stream_read_def take_add [symmetric] split: sum.splits)

lemma read_blocks_eq: "read_blocks n = stream_read n"
proof (induction n rule: less_induct)
  case (less n)
  show ?case
  proof (cases "n = 0")
    case True
    then show ?thesis by (intro ext) (simp add: read_blocks.simps stream_read_def)
  next
    case False
    then have "read_blocks (n - min n 5000000) = stream_read (n - min n 5000000)"
      by (intro less.IH) auto
    then show ?thesis
      using False by (intro ext) (subst read_blocks.simps, simp add: Let_def stream_read_split del: min_def)
  qed
qed

interpretation compact: codec WriteCompactSize ReadCompactSize "\<lambda>n. n \<le> MAX_SIZE"
  by unfold_locales (simp_all add: ReadCompactSize_Inr)

definition valid_bytes :: "valtype \<Rightarrow> bool" where
  "valid_bytes v \<longleftrightarrow> length v \<le> MAX_SIZE"

interpretation bytes: codec ser_bytes unser_bytes valid_bytes
  by unfold_locales
    (auto simp: ser_bytes_def unser_bytes_def valid_bytes_def reader_simps compact.unser_iff
      read_blocks_eq stream_read_Inr)

definition valid_vector :: "('a \<Rightarrow> bool) \<Rightarrow> 'a list \<Rightarrow> bool" where
  "valid_vector valid v \<longleftrightarrow> length v \<le> MAX_SIZE \<and> (\<forall>x \<in> set v. valid x)"

text \<open>A vector of items of a serializable type is serializable.\<close>

locale vector_decoder = decoder

sublocale vector_decoder \<subseteq> vec: decoder "ser_vector ser" "unser_vector unser" "valid_vector valid"
  by unfold_locales
    (simp add: ser_vector_def unser_vector_def valid_vector_def rbind_def compact.unser_ser items_ser)

context vector_decoder
begin

lemma vec_decoder: "vector_decoder (ser_vector ser) (unser_vector unser) (valid_vector valid)"
  by unfold_locales

end

locale vector_codec = codec

sublocale vector_codec \<subseteq> vec: codec "ser_vector ser" "unser_vector unser" "valid_vector valid"
  by unfold_locales
    (auto simp: ser_vector_def unser_vector_def valid_vector_def reader_simps compact.unser_iff items_iff)

text \<open>The lengths that the size computations announce.\<close>

lemma length_WriteCompactSize: "length (WriteCompactSize n) = GetSizeOfCompactSize n"
  by (simp add: WriteCompactSize_def GetSizeOfCompactSize_def)

section \<open>Variable-length integers are read back\<close>

lemma length_WriteVarInt: "length (WriteVarInt n) = GetSizeOfVarInt n"
  by (simp add: WriteVarInt_def GetSizeOfVarInt_def)

lemma and_0x7F: "n AND 0x7F = take_bit 7 n" for n :: "'w :: len word"
  by (simp add: take_bit_eq_mask mask_eq_exp_minus_1)

lemma varint_digit:
  fixes n :: "'w :: len word"
  assumes "8 \<le> LENGTH('w)" "flag = 0x80 \<or> flag = 0"
  shows "push_bit 7 (drop_bit 7 n) OR ucast ((ucast (n AND 0x7F) OR flag :: byte) AND 0x7F) = n"
    and "((ucast (n AND 0x7F) OR flag :: byte) AND 0x80 \<noteq> 0) = (flag = 0x80)"
proof -
  have t: "take_bit 7 flag = 0" using assms(2) by (auto simp: take_bit_eq_mask mask_eq_exp_minus_1)
  have u: "take_bit 7 (ucast (take_bit 7 n) OR flag :: byte) = ucast (take_bit 7 n)"
    unfolding take_bit_or t by (rule bit_eqI) (auto simp: bit_simps)
  show "push_bit 7 (drop_bit 7 n) OR ucast ((ucast (n AND 0x7F) OR flag :: byte) AND 0x7F) = n"
    unfolding and_0x7F u
  proof (rule bit_eqI)
    fix k assume "possible_bit TYPE('w word) k"
    then show "bit (push_bit 7 (drop_bit 7 n) OR ucast (ucast (take_bit 7 n) :: byte)) k \<longleftrightarrow> bit n k"
      using assms by (cases "k < 7") (auto simp: bit_simps)
  qed
  have "bit (ucast (take_bit 7 n) OR flag :: byte) 7 \<longleftrightarrow> flag = 0x80"
    using assms(2) by (auto simp: bit_simps bit_numeral_rec)
  then show "((ucast (n AND 0x7F) OR flag :: byte) AND 0x80 \<noteq> 0) = (flag = 0x80)"
    unfolding and_0x7F using and_exp_eq_0_iff_not_bit [of "ucast (take_bit 7 n) OR flag :: byte" 7] by simp
qed

lemma drop_bit_7_small: "n \<le> 0x7F \<Longrightarrow> drop_bit 7 n = 0" for n :: "'w :: len word"
proof -
  assume "n \<le> 0x7F"
  then have "unat n \<le> unat (0x7F :: 'w word)" by (simp add: word_le_nat_alt)
  also have "\<dots> \<le> 127" by (simp add: unat_of_nat [of 127, simplified] take_bit_eq_mod)
  finally have "unat n div 128 = 0" by simp
  moreover have "unat (drop_bit 7 n) = unat n div 128"
    by (simp only: unsigned_drop_bit_eq take_bit_nat_eq_self [OF unsigned_less]) (simp add: drop_bit_eq_div)
  ultimately show ?thesis by (metis unat_eq_zero)
qed

lemma ReadVarInt_loop_continue:
  fixes n :: "'w :: len word"
  assumes "8 \<le> LENGTH('w)"
  shows "ReadVarInt_loop 0 (rev (varint_tmp n 0x80) @ s) = ReadVarInt_loop (n + 1) s"
proof (induction n "0x80 :: byte" arbitrary: s rule: varint_tmp.induct)
  case (1 n)
  note d = varint_digit [OF assms, where flag = "0x80" and n = n]
  show ?case
  proof (cases "n \<le> 0x7F")
    case True
    then show ?thesis using d by (simp add: varint_tmp.simps drop_bit_7_small)
  next
    case False
    then show ?thesis using 1 [OF False] d
      by (subst varint_tmp.simps) (simp add: Let_def)
  qed
qed

lemma ReadVarInt_WriteVarInt:
  fixes n :: "'w :: len word"
  assumes "8 \<le> LENGTH('w)"
  shows "ReadVarInt (WriteVarInt n @ s) = Inr (n, s)"
proof -
  note d = varint_digit [OF assms, where flag = "0" and n = n]
  show ?thesis
  proof (cases "n \<le> 0x7F")
    case True
    then show ?thesis
      using d by (simp add: ReadVarInt_def WriteVarInt_def varint_tmp.simps drop_bit_7_small)
  next
    case False
    then show ?thesis
      using d ReadVarInt_loop_continue [OF assms, of "drop_bit 7 n - 1"]
      by (simp add: ReadVarInt_def WriteVarInt_def varint_tmp.simps [of n] Let_def)
  qed
qed

interpretation varint32: decoder "WriteVarInt :: u32 \<Rightarrow> byte list" ReadVarInt "\<lambda>_. True"
  by unfold_locales (simp add: ReadVarInt_WriteVarInt)

interpretation varint64: decoder "WriteVarInt :: u64 \<Rightarrow> byte list" ReadVarInt "\<lambda>_. True"
  by unfold_locales (simp add: ReadVarInt_WriteVarInt)

section \<open>Properties\<close>

text \<open>
  A compact size up to \<^verbatim>\<open>MAX_SIZE\<close> has exactly one encoding: reading succeeds with \<open>n\<close> and
  the rest exactly when the stream starts with what \<^verbatim>\<open>WriteCompactSize\<close> writes for \<open>n\<close>, which
  has the size that \<^verbatim>\<open>GetSizeOfCompactSize\<close> announces.
\<close>

theorem compact_size_canonical:
  "(ReadCompactSize s = Inr (n, s') \<longleftrightarrow> n \<le> MAX_SIZE \<and> s = WriteCompactSize n @ s') \<and>
   length (WriteCompactSize n) = GetSizeOfCompactSize n"
  by (simp add: ReadCompactSize_Inr length_WriteCompactSize)

text \<open>
  A variable-length integer of any width from a byte on is read back, whatever follows it,
  and takes the size that \<^verbatim>\<open>GetSizeOfVarInt\<close> announces.
\<close>

theorem varint_roundtrip:
  fixes n :: "'w :: len word"
  assumes "8 \<le> LENGTH('w)"
  shows "ReadVarInt (WriteVarInt n @ s) = Inr (n, s) \<and> length (WriteVarInt n) = GetSizeOfVarInt n"
  using ReadVarInt_WriteVarInt [OF assms] by (simp add: length_WriteVarInt)

theorem varint_roundtrip_witness:
  "ReadVarInt (WriteVarInt (300 :: u32) @ [9]) = Inr (300 :: u32, [9])"
  using varint_roundtrip [of "300 :: u32" "[9]"] by simp

end
