(* ===== verification/Transaction.thy ===== *)
theory Transaction
  imports Standard Serialize
begin

unbundle bit_operations_syntax

text \<open>
  Transactions (primitives/transaction.h and .cpp), their serialization, and the part of
  script/interpreter.cpp that depends on them: \<^verbatim>\<open>CTransactionSignatureSerializer\<close>,
  \<^verbatim>\<open>SignatureHash\<close> and \<^verbatim>\<open>TransactionSignatureChecker::CheckSig\<close>. The amount type
  \<^verbatim>\<open>CAmount\<close> is \<^verbatim>\<open>int64_t\<close>; an amount is an integer, and operations that can leave the range
  say what happens there. \<^verbatim>\<open>uint256\<close> is a 256-bit word.
\<close>

section \<open>Data\<close>

record COutPoint =
  outpoint_hash :: u256
  outpoint_n :: u32

record CTxIn =
  txin_prevout :: COutPoint
  txin_scriptSig :: CScript
  txin_nSequence :: u32

record CTxOut =
  txout_nValue :: int
  txout_scriptPubKey :: CScript

record CTransaction =
  tx_nVersion :: int
  tx_vin :: "CTxIn list"
  tx_vout :: "CTxOut list"
  tx_nLockTime :: u32

definition COutPoint_IsNull :: "COutPoint \<Rightarrow> bool" where
  "COutPoint_IsNull p \<longleftrightarrow> outpoint_hash p = 0 \<and> outpoint_n p = - 1"

definition CTxIn_IsFinal :: "CTxIn \<Rightarrow> bool" where
  "CTxIn_IsFinal txin \<longleftrightarrow> txin_nSequence txin = - 1"

text \<open>\<^verbatim>\<open>CTxOut::SetNull\<close>, the default constructor, and \<^verbatim>\<open>CTxOut::IsNull\<close>.\<close>

definition CTxOut_null :: CTxOut where
  "CTxOut_null = \<lparr>txout_nValue = - 1, txout_scriptPubKey = []\<rparr>"

definition CTxOut_IsNull :: "CTxOut \<Rightarrow> bool" where
  "CTxOut_IsNull out \<longleftrightarrow> txout_nValue out = - 1"

definition CTxOut_IsEmpty :: "CTxOut \<Rightarrow> bool" where
  "CTxOut_IsEmpty out \<longleftrightarrow> txout_nValue out = 0 \<and> txout_scriptPubKey out = []"

definition IsCoinBase :: "CTransaction \<Rightarrow> bool" where
  "IsCoinBase tx \<longleftrightarrow> length (tx_vin tx) = 1 \<and> COutPoint_IsNull (txin_prevout (tx_vin tx ! 0))"

definition IsCoinStake :: "CTransaction \<Rightarrow> bool" where
  "IsCoinStake tx \<longleftrightarrow>
     length (tx_vin tx) > 0 \<and> \<not> COutPoint_IsNull (txin_prevout (tx_vin tx ! 0)) \<and>
     length (tx_vout tx) \<ge> 2 \<and> CTxOut_IsEmpty (tx_vout tx ! 0)"

definition IsMasternodeReward :: "COutPoint \<Rightarrow> CTransaction \<Rightarrow> bool" where
  "IsMasternodeReward p tx =
     (if \<not> IsCoinStake tx then False
      else unat (outpoint_n p) = length (tx_vout tx) - 1 \<and>
        txout_scriptPubKey (tx_vout tx ! 1) \<noteq> txout_scriptPubKey (tx_vout tx ! unat (outpoint_n p)))"

section \<open>Output value\<close>

text \<open>
  The two \<^verbatim>\<open>runtime_error\<close>s of \<^verbatim>\<open>GetValueOut\<close>. The overflow test adds first and compares
  then, in two's complement.
\<close>

datatype value_error = ValueNegative | ValueWraps

fun GetValueOut_loop :: "int \<Rightarrow> CTxOut list \<Rightarrow> value_error + int" where
  "GetValueOut_loop nValueOut [] = Inr nValueOut"
| "GetValueOut_loop nValueOut (out # outs) =
     (if txout_nValue out < 0 then Inl ValueNegative
      else if swrap 64 (nValueOut + txout_nValue out) < nValueOut then Inl ValueWraps
      else GetValueOut_loop (swrap 64 (nValueOut + txout_nValue out)) outs)"

definition GetValueOut :: "CTransaction \<Rightarrow> value_error + int" where
  "GetValueOut tx = GetValueOut_loop 0 (tx_vout tx)"

fun CalculateModifiedSize_loop :: "nat \<Rightarrow> CTxIn list \<Rightarrow> nat" where
  "CalculateModifiedSize_loop nTxSize [] = nTxSize"
| "CalculateModifiedSize_loop nTxSize (txin # vin) =
     (let offset = 41 + min 110 (length (txin_scriptSig txin))
      in CalculateModifiedSize_loop (if nTxSize > offset then nTxSize - offset else nTxSize) vin)"

section \<open>Serialization\<close>

text \<open>Unsigned and signed integers of \<open>k\<close> bytes, and the fields of a transaction.\<close>

definition ser_word :: "'w :: len word \<Rightarrow> byte list" where
  "ser_word w = le_bytes (LENGTH('w) div 8) (unat w)"

definition unser_word :: "'w :: len word reader" where
  "unser_word = rbind (read_le (LENGTH('w) div 8)) (\<lambda>n. rreturn (word_of_nat n))"

definition ser_int :: "nat \<Rightarrow> int \<Rightarrow> byte list" where
  "ser_int k v = le_bytes k (nat (v mod 256 ^ k))"

definition unser_int :: "nat \<Rightarrow> int reader" where
  "unser_int k = rbind (read_le k) (\<lambda>n. rreturn (swrap (8 * k) (int n)))"

definition ser_COutPoint :: "COutPoint \<Rightarrow> byte list" where
  "ser_COutPoint p = ser_word (outpoint_hash p) @ ser_word (outpoint_n p)"

definition unser_COutPoint :: "COutPoint reader" where
  "unser_COutPoint =
     rbind unser_word (\<lambda>h. rbind unser_word (\<lambda>i. rreturn \<lparr>outpoint_hash = h, outpoint_n = i\<rparr>))"

definition ser_CTxIn :: "CTxIn \<Rightarrow> byte list" where
  "ser_CTxIn txin =
     ser_COutPoint (txin_prevout txin) @ ser_bytes (txin_scriptSig txin) @ ser_word (txin_nSequence txin)"

definition unser_CTxIn :: "CTxIn reader" where
  "unser_CTxIn =
     rbind unser_COutPoint (\<lambda>p. rbind unser_bytes (\<lambda>s. rbind unser_word (\<lambda>q.
       rreturn \<lparr>txin_prevout = p, txin_scriptSig = s, txin_nSequence = q\<rparr>)))"

definition ser_CTxOut :: "CTxOut \<Rightarrow> byte list" where
  "ser_CTxOut out = ser_int 8 (txout_nValue out) @ ser_bytes (txout_scriptPubKey out)"

definition unser_CTxOut :: "CTxOut reader" where
  "unser_CTxOut =
     rbind (unser_int 8) (\<lambda>v. rbind unser_bytes (\<lambda>s.
       rreturn \<lparr>txout_nValue = v, txout_scriptPubKey = s\<rparr>))"

definition ser_CTransaction :: "CTransaction \<Rightarrow> byte list" where
  "ser_CTransaction tx =
     ser_int 4 (tx_nVersion tx) @ ser_vector ser_CTxIn (tx_vin tx) @
     ser_vector ser_CTxOut (tx_vout tx) @ ser_word (tx_nLockTime tx)"

definition unser_CTransaction :: "CTransaction reader" where
  "unser_CTransaction =
     rbind (unser_int 4) (\<lambda>ver. rbind (unser_vector unser_CTxIn) (\<lambda>vin.
     rbind (unser_vector unser_CTxOut) (\<lambda>vout. rbind unser_word (\<lambda>lock.
       rreturn \<lparr>tx_nVersion = ver, tx_vin = vin, tx_vout = vout, tx_nLockTime = lock\<rparr>))))"

definition valid_CTxIn :: "CTxIn \<Rightarrow> bool" where
  "valid_CTxIn txin \<longleftrightarrow> valid_bytes (txin_scriptSig txin)"

definition valid_CTxOut :: "CTxOut \<Rightarrow> bool" where
  "valid_CTxOut out \<longleftrightarrow> in_sint 64 (txout_nValue out) \<and> valid_bytes (txout_scriptPubKey out)"

definition valid_CTransaction :: "CTransaction \<Rightarrow> bool" where
  "valid_CTransaction tx \<longleftrightarrow>
     in_sint 32 (tx_nVersion tx) \<and> valid_vector valid_CTxIn (tx_vin tx) \<and>
     valid_vector valid_CTxOut (tx_vout tx)"

text \<open>\<^verbatim>\<open>SerializeHash\<close>: the double digest of the serialization, read as an integer in memory order.\<close>

definition Hash :: "(valtype \<Rightarrow> valtype) \<Rightarrow> valtype \<Rightarrow> u256" where
  "Hash sha256 v = word_of_nat (le_val (sha256 (sha256 v)))"

definition GetHash :: "(valtype \<Rightarrow> valtype) \<Rightarrow> CTransaction \<Rightarrow> u256" where
  "GetHash sha256 tx = Hash sha256 (ser_CTransaction tx)"

text \<open>\<^verbatim>\<open>CalculateModifiedSize\<close> with \<^verbatim>\<open>nTxSize = 0\<close> starts from the serialized size.\<close>

definition CalculateModifiedSize :: "CTransaction \<Rightarrow> nat \<Rightarrow> nat" where
  "CalculateModifiedSize tx nTxSize =
     CalculateModifiedSize_loop
       (if nTxSize = 0 then length (ser_CTransaction tx) else nTxSize) (tx_vin tx)"

section \<open>Signature hashes\<close>

text \<open>
  \<^verbatim>\<open>SerializeScriptCode\<close>: the first loop counts the code separators; the second writes the
  stretches between them. Both end at the first instruction that cannot be read.
\<close>

function count_codeseparators :: "CScript \<Rightarrow> nat" where
  "count_codeseparators it =
     (case GetOp2 it of (ok, opcode, v, it') \<Rightarrow>
        if \<not> ok then 0
        else (if opcode = OP_CODESEPARATOR then 1 else 0) + count_codeseparators it')"
  by pat_completeness auto
termination
  by (relation "measure length") (auto dest: GetOp2_ok_shorter [OF sym])

declare count_codeseparators.simps [simp del]

function write_stretches :: "CScript \<Rightarrow> CScript \<Rightarrow> byte list" where
  "write_stretches itBegin it =
     (case GetOp2 it of (ok, opcode, v, it') \<Rightarrow>
        if \<not> ok then
          (if itBegin \<noteq> [] then take (length itBegin - length it') itBegin else [])
        else if opcode = OP_CODESEPARATOR then
          take (length itBegin - length it' - 1) itBegin @ write_stretches it' it'
        else write_stretches itBegin it')"
  by pat_completeness auto
termination
  by (relation "measure (\<lambda>(b, it). length it)") (auto dest: GetOp2_ok_shorter [OF sym])

declare write_stretches.simps [simp del]

definition SerializeScriptCode :: "CScript \<Rightarrow> byte list" where
  "SerializeScriptCode scriptCode =
     WriteCompactSize (length scriptCode - count_codeseparators scriptCode) @
     write_stretches scriptCode scriptCode"

text \<open>The fields of \<^verbatim>\<open>CTransactionSignatureSerializer\<close> that its constructor computes.\<close>

definition fAnyoneCanPay :: "u32 \<Rightarrow> bool" where
  "fAnyoneCanPay nHashType \<longleftrightarrow> nHashType AND 0x80 \<noteq> 0"

definition fHashSingle :: "u32 \<Rightarrow> bool" where
  "fHashSingle nHashType \<longleftrightarrow> nHashType AND 0x1f = 3"

definition fHashNone :: "u32 \<Rightarrow> bool" where
  "fHashNone nHashType \<longleftrightarrow> nHashType AND 0x1f = 2"

definition SerializeInput :: "CTransaction \<Rightarrow> CScript \<Rightarrow> nat \<Rightarrow> u32 \<Rightarrow> nat \<Rightarrow> byte list" where
  "SerializeInput txTo scriptCode nIn nHashType nInput =
     (let nInput = (if fAnyoneCanPay nHashType then nIn else nInput) in
      ser_COutPoint (txin_prevout (tx_vin txTo ! nInput)) @
      (if nInput \<noteq> nIn then ser_bytes [] else SerializeScriptCode scriptCode) @
      (if nInput \<noteq> nIn \<and> (fHashSingle nHashType \<or> fHashNone nHashType) then ser_int 4 0
       else ser_word (txin_nSequence (tx_vin txTo ! nInput))))"

definition SerializeOutput :: "CTransaction \<Rightarrow> nat \<Rightarrow> u32 \<Rightarrow> nat \<Rightarrow> byte list" where
  "SerializeOutput txTo nIn nHashType nOutput =
     (if fHashSingle nHashType \<and> nOutput \<noteq> nIn then ser_CTxOut CTxOut_null
      else ser_CTxOut (tx_vout txTo ! nOutput))"

definition SerializeSignature :: "CTransaction \<Rightarrow> CScript \<Rightarrow> nat \<Rightarrow> u32 \<Rightarrow> byte list" where
  "SerializeSignature txTo scriptCode nIn nHashType =
     (let nInputs = (if fAnyoneCanPay nHashType then 1 else length (tx_vin txTo));
          nOutputs = (if fHashNone nHashType then 0
                      else if fHashSingle nHashType then nIn + 1 else length (tx_vout txTo))
      in ser_int 4 (tx_nVersion txTo) @
         WriteCompactSize nInputs @ concat (map (SerializeInput txTo scriptCode nIn nHashType) [0..<nInputs]) @
         WriteCompactSize nOutputs @ concat (map (SerializeOutput txTo nIn nHashType) [0..<nOutputs]) @
         ser_word (tx_nLockTime txTo))"

definition SignatureHash :: "(valtype \<Rightarrow> valtype) \<Rightarrow> CScript \<Rightarrow> CTransaction \<Rightarrow> nat \<Rightarrow> u32 \<Rightarrow> u256" where
  "SignatureHash sha256 scriptCode txTo nIn nHashType =
     (if nIn \<ge> length (tx_vin txTo) then 1
      else if nHashType AND 0x1f = 3 \<and> nIn \<ge> length (tx_vout txTo) then 1
      else Hash sha256 (SerializeSignature txTo scriptCode nIn nHashType @ ser_word nHashType))"

text \<open>
  \<^verbatim>\<open>TransactionSignatureChecker::CheckSig\<close>; \<open>verify\<close> is \<^verbatim>\<open>CPubKey::Verify\<close>, which calls
  libsecp256k1.
\<close>

definition CheckSig ::
    "(valtype \<Rightarrow> valtype) \<Rightarrow> (valtype \<Rightarrow> u256 \<Rightarrow> valtype \<Rightarrow> bool) \<Rightarrow> CTransaction \<Rightarrow> nat \<Rightarrow>
      valtype \<Rightarrow> valtype \<Rightarrow> CScript \<Rightarrow> bool" where
  "CheckSig sha256 verify txTo nIn vchSigIn vchPubKey scriptCode =
     (case CPubKey vchPubKey of
        None \<Rightarrow> False
      | Some pubkey \<Rightarrow>
          if vchSigIn = [] then False
          else
            let nHashType = ucast (last vchSigIn);
                vchSig = butlast vchSigIn;
                sighash = SignatureHash sha256 scriptCode txTo nIn nHashType
            in verify pubkey sighash vchSig)"

section \<open>Serialized transactions are read back\<close>

lemma pow_256_nat: "(256 :: nat) ^ k = 2 ^ (8 * k)"
  by (simp add: power_mult)

lemma pow_256_int: "(256 :: int) ^ k = 2 ^ (8 * k)"
  by (simp add: power_mult)

lemma codec_word:
  assumes "8 dvd LENGTH('w :: len)"
  shows "codec ser_word (unser_word :: 'w word reader) (\<lambda>_. True)"
proof
  have p: "(256 :: nat) ^ (LENGTH('w) div 8) = 2 ^ LENGTH('w)"
    using assms by (simp add: pow_256_nat)
  show "unser_word (ser_word x @ s) = Inr (x, s)" for x :: "'w word" and s
    using p by (auto simp: unser_word_def ser_word_def reader_simps read_le_Inr intro!: exI [of _ "unat x"])
  show "True \<and> s = ser_word x @ s'" if "unser_word s = Inr (x, s')" for x :: "'w word" and s s'
    using that p by (auto simp: unser_word_def ser_word_def reader_simps read_le_Inr unat_of_nat take_bit_nat_eq_self)
qed

interpretation u32: codec "ser_word :: u32 \<Rightarrow> byte list" unser_word "\<lambda>_. True"
  by (rule codec_word) simp

interpretation u256: codec "ser_word :: u256 \<Rightarrow> byte list" unser_word "\<lambda>_. True"
  by (rule codec_word) simp

lemma codec_int:
  assumes "0 < k"
  shows "codec (ser_int k) (unser_int k) (in_sint (8 * k))"
proof
  have pos: "(0 :: int) < 256 ^ k" by simp
  have e: "(2::int) ^ (8 * k) = 2 * 2 ^ (8 * k - 1)" using assms by (simp flip: power_Suc)
  show "unser_int k (ser_int k x @ s) = Inr (x, s)" if "in_sint (8 * k) x" for x s
  proof -
    have b: "nat (x mod 256 ^ k) < 256 ^ k" using pos by (simp add: nat_less_iff)
    have "swrap (8 * k) (x mod 256 ^ k) = swrap (8 * k) x"
      by (simp add: swrap_def pow_256_int mod_add_left_eq)
    then have "swrap (8 * k) (int (nat (x mod 256 ^ k))) = x"
      using that assms by (simp add: swrap_id)
    with b show ?thesis
      by (auto simp: unser_int_def ser_int_def reader_simps read_le_Inr intro!: exI [of _ "nat (x mod 256 ^ k)"])
  qed
  show "in_sint (8 * k) x \<and> s = ser_int k x @ s'" if u: "unser_int k s = Inr (x, s')" for x s s'
  proof -
    from u obtain n where n: "n < 256 ^ k" "s = le_bytes k n @ s'" "x = swrap (8 * k) (int n)"
      by (auto simp: unser_int_def reader_simps read_le_Inr)
    have "x mod 256 ^ k = int n mod 256 ^ k"
      unfolding n(3) swrap_def pow_256_int by (simp add: mod_diff_left_eq)
    also have "\<dots> = int n" using n(1) by (simp add: of_nat_power [symmetric] del: of_nat_power)
    finally have "nat (x mod 256 ^ k) = n" by simp
    then show ?thesis using n assms by (simp add: ser_int_def in_sint_swrap)
  qed
qed

interpretation i32: codec "ser_int 4" "unser_int 4" "in_sint 32"
  using codec_int [of 4] by simp

interpretation i64: codec "ser_int 8" "unser_int 8" "in_sint 64"
  using codec_int [of 8] by simp

interpretation outpoint: codec ser_COutPoint unser_COutPoint "\<lambda>_. True"
proof (unfold_locales, goal_cases)
  case 1
  then show ?case by (simp add: ser_COutPoint_def unser_COutPoint_def rbind_def rreturn_def u32.unser_ser u256.unser_ser)
next
  case 2
  then show ?case by (auto simp: ser_COutPoint_def unser_COutPoint_def reader_simps u32.unser_iff u256.unser_iff)
qed

interpretation txin: vector_codec ser_CTxIn unser_CTxIn valid_CTxIn
proof (unfold_locales, goal_cases)
  case 1
  then show ?case by (simp add: ser_CTxIn_def unser_CTxIn_def valid_CTxIn_def rbind_def rreturn_def outpoint.unser_ser bytes.unser_ser u32.unser_ser)
next
  case 2
  then show ?case by (auto simp: ser_CTxIn_def unser_CTxIn_def valid_CTxIn_def reader_simps outpoint.unser_iff bytes.unser_iff u32.unser_iff)
qed

interpretation txout: vector_codec ser_CTxOut unser_CTxOut valid_CTxOut
proof (unfold_locales, goal_cases)
  case 1
  then show ?case by (simp add: ser_CTxOut_def unser_CTxOut_def valid_CTxOut_def rbind_def rreturn_def i64.unser_ser bytes.unser_ser)
next
  case 2
  then show ?case by (auto simp: ser_CTxOut_def unser_CTxOut_def valid_CTxOut_def reader_simps i64.unser_iff bytes.unser_iff)
qed

interpretation tx: codec ser_CTransaction unser_CTransaction valid_CTransaction
proof (unfold_locales, goal_cases)
  case 1
  then show ?case by (simp add: ser_CTransaction_def unser_CTransaction_def valid_CTransaction_def rbind_def rreturn_def i32.unser_ser txin.vec.unser_ser txout.vec.unser_ser u32.unser_ser)
next
  case 2
  then show ?case by (auto simp: ser_CTransaction_def unser_CTransaction_def valid_CTransaction_def reader_simps i32.unser_iff txin.vec.unser_iff txout.vec.unser_iff u32.unser_iff)
qed

section \<open>The output value\<close>

lemma GetValueOut_loop_eq:
  assumes "0 \<le> n" "n < 2 ^ 63" "\<forall>out \<in> set outs. in_sint 64 (txout_nValue out)"
  shows "GetValueOut_loop n outs = Inr v \<longleftrightarrow>
    (\<forall>out \<in> set outs. 0 \<le> txout_nValue out) \<and> v = n + sum_list (map txout_nValue outs) \<and> v < 2 ^ 63"
  using assms
proof (induction outs arbitrary: n)
  case (Cons out outs)
  let ?x = "txout_nValue out"
  show ?case
  proof (cases "?x < 0")
    case False
    have x: "?x < 2 ^ 63" using Cons.prems(3) by (simp add: in_sint_def)
    have s: "\<forall>out \<in> set outs. 0 \<le> txout_nValue out \<Longrightarrow> 0 \<le> sum_list (map txout_nValue outs)"
      by (rule sum_list_nonneg_prefix) simp
    show ?thesis
    proof (cases "n + ?x < 2 ^ 63")
      case True
      then have "swrap 64 (n + ?x) = n + ?x"
        using Cons.prems(1) False by (intro swrap_id) (simp_all add: in_sint_def)
      then show ?thesis using True False Cons.prems Cons.IH [of "n + ?x"] by (auto simp: algebra_simps)
    next
      case no: False
      have "swrap 64 (n + ?x) = n + ?x - 2 ^ 64"
        using no x Cons.prems(1,2) False by (simp add: swrap_def) (subst mod_pos_geq; simp)
      then show ?thesis using no x False s by auto
    qed
  qed auto
qed auto

section \<open>What a signature commits to\<close>

text \<open>A script all of whose bytes decode into instructions.\<close>

function script_parses :: "CScript \<Rightarrow> bool" where
  "script_parses it =
     (if it = [] then True
      else (case GetOp2 it of (ok, opcode, v, it') \<Rightarrow> ok \<and> script_parses it'))"
  by pat_completeness auto
termination
  by (relation "measure length") (auto dest: GetOp2_shorter [OF sym])

declare script_parses.simps [simp del]

text \<open>The script without its code separators: the reference for \<^verbatim>\<open>SerializeScriptCode\<close>.\<close>

function strip_codeseparators :: "CScript \<Rightarrow> CScript" where
  "strip_codeseparators it =
     (case GetOp2 it of (ok, opcode, v, it') \<Rightarrow>
        if \<not> ok then []
        else (if opcode = OP_CODESEPARATOR then [] else take (length it - length it') it) @
          strip_codeseparators it')"
  by pat_completeness auto
termination
  by (relation "measure length") (auto dest: GetOp2_ok_shorter [OF sym])

declare strip_codeseparators.simps [simp del]

lemma script_parses_cases:
  assumes "script_parses it"
  obtains "it = []" | opcode v p it' where "GetOp2 it = (True, opcode, v, it')" "it = p @ it'"
    "script_parses it'" "p \<noteq> []" "opcode = OP_CODESEPARATOR \<Longrightarrow> length p = 1"
proof (cases "it = []")
  case False
  with assms obtain opcode v it' where g: "GetOp2 it = (True, opcode, v, it')" and p: "script_parses it'"
    by (subst (asm) script_parses.simps) (auto split: prod.splits)
  obtain p where s: "it = p @ it'" using GetOp2_suffix [OF g] by (auto simp: suffix_def)
  have "length it' < length it" by (rule GetOp2_ok_shorter [OF g])
  then have "p \<noteq> []" using s by auto
  moreover have "length p = 1" if "opcode = OP_CODESEPARATOR"
    using g that s \<open>p \<noteq> []\<close> by (cases p) (auto simp: GetOp2_data_def split: if_splits)
  ultimately show thesis using that g s p by blast
qed (use that in blast)

lemma write_stretches_strip:
  "script_parses it \<Longrightarrow> write_stretches (p @ it) it = p @ strip_codeseparators it"
proof (induction it arbitrary: p rule: length_induct)
  case (1 it)
  from "1.prems" show ?case
  proof (cases rule: script_parses_cases)
    case 1
    then show ?thesis by (simp add: write_stretches.simps strip_codeseparators.simps)
  next
    case (2 opcode v q it')
    then have l: "length it' < length it" by simp
    show ?thesis
    proof (cases "opcode = OP_CODESEPARATOR")
      case True
      with 2 have "length q = 1" by blast
      with True 2 l "1.IH" show ?thesis
        using "1.IH" [rule_format, of it' "[]"]
        by (subst write_stretches.simps, subst strip_codeseparators.simps) simp
    next
      case False
      with 2 l show ?thesis
        using "1.IH" [rule_format, of it' "p @ q"]
        by (subst write_stretches.simps, subst strip_codeseparators.simps) simp
    qed
  qed
qed

lemma length_strip_codeseparators:
  "script_parses it \<Longrightarrow> length (strip_codeseparators it) + count_codeseparators it = length it"
proof (induction it rule: length_induct)
  case (1 it)
  from "1.prems" show ?case
  proof (cases rule: script_parses_cases)
    case 1
    then show ?thesis by (simp add: count_codeseparators.simps strip_codeseparators.simps)
  next
    case (2 opcode v q it')
    then show ?thesis
      using "1.IH" [rule_format, of it']
      by (subst count_codeseparators.simps, subst strip_codeseparators.simps) auto
  qed
qed

lemma SerializeScriptCode_strip:
  assumes "script_parses sc"
  shows "SerializeScriptCode sc = ser_bytes (strip_codeseparators sc)"
proof -
  have "length sc - count_codeseparators sc = length (strip_codeseparators sc)"
    using length_strip_codeseparators [OF assms] by simp
  with write_stretches_strip [OF assms, of "[]"] show ?thesis
    by (simp add: SerializeScriptCode_def ser_bytes_def)
qed

text \<open>
  The transaction whose serialization is signed with \<^verbatim>\<open>SIGHASH_ALL\<close>: the script code in the
  input that is signed, and empty scripts in the others.
\<close>

definition signed_tx :: "CTransaction \<Rightarrow> CScript \<Rightarrow> nat \<Rightarrow> CTransaction" where
  "signed_tx tx sc nIn =
     tx\<lparr>tx_vin := map (\<lambda>i. (tx_vin tx ! i)
       \<lparr>txin_scriptSig := if i = nIn then strip_codeseparators sc else []\<rparr>) [0..<length (tx_vin tx)]\<rparr>"

definition sighash_all :: "u32 \<Rightarrow> bool" where
  "sighash_all nHashType \<longleftrightarrow>
     \<not> fAnyoneCanPay nHashType \<and> \<not> fHashSingle nHashType \<and> \<not> fHashNone nHashType"

lemma SerializeSignature_all:
  assumes "script_parses sc" "sighash_all ht"
  shows "SerializeSignature tx sc nIn ht = ser_CTransaction (signed_tx tx sc nIn)"
proof -
  have "SerializeInput tx sc nIn ht = (\<lambda>i.
      ser_CTxIn ((tx_vin tx ! i)\<lparr>txin_scriptSig := if i = nIn then strip_codeseparators sc else []\<rparr>))"
    using assms by (intro ext) (simp add: SerializeInput_def sighash_all_def ser_CTxIn_def SerializeScriptCode_strip)
  moreover have "map (SerializeOutput tx nIn ht) [0..<length (tx_vout tx)] = map ser_CTxOut (tx_vout tx)"
    using assms(2) by (intro nth_equalityI) (simp_all add: SerializeOutput_def sighash_all_def)
  ultimately show ?thesis
    using assms(2)
    by (simp add: SerializeSignature_def sighash_all_def ser_CTransaction_def signed_tx_def
        ser_vector_def comp_def Let_def)
qed

lemma length_strip_le: "script_parses sc \<Longrightarrow> length (strip_codeseparators sc) \<le> length sc"
  using length_strip_codeseparators [of sc] by simp

lemma valid_signed_tx:
  "valid_CTransaction tx \<Longrightarrow> script_parses sc \<Longrightarrow> length sc \<le> MAX_SIZE \<Longrightarrow>
     valid_CTransaction (signed_tx tx sc nIn)"
  using length_strip_le [of sc]
  by (auto simp: valid_CTransaction_def signed_tx_def valid_vector_def valid_CTxIn_def valid_bytes_def)

lemma signed_tx_eqD:
  assumes "signed_tx tx sc nIn = signed_tx tx' sc' nIn"
  shows "tx_nVersion tx = tx_nVersion tx'" "tx_vout tx = tx_vout tx'" "tx_nLockTime tx = tx_nLockTime tx'"
    "map txin_prevout (tx_vin tx) = map txin_prevout (tx_vin tx')"
    "map txin_nSequence (tx_vin tx) = map txin_nSequence (tx_vin tx')"
    "nIn < length (tx_vin tx) \<Longrightarrow> strip_codeseparators sc = strip_codeseparators sc'"
proof -
  have m: "map f (tx_vin (signed_tx tx sc nIn)) = map f (tx_vin tx)"
    if "\<And>i s. f (i\<lparr>txin_scriptSig := s\<rparr>) = f i" for f :: "CTxIn \<Rightarrow> 'b" and tx sc
    using that by (auto simp: signed_tx_def intro: nth_equalityI)
  from assms have s: "tx_nVersion (signed_tx tx sc nIn) = tx_nVersion (signed_tx tx' sc' nIn)"
    "tx_vout (signed_tx tx sc nIn) = tx_vout (signed_tx tx' sc' nIn)"
    "tx_nLockTime (signed_tx tx sc nIn) = tx_nLockTime (signed_tx tx' sc' nIn)"
    "tx_vin (signed_tx tx sc nIn) = tx_vin (signed_tx tx' sc' nIn)" by simp_all
  show "tx_nVersion tx = tx_nVersion tx'" "tx_vout tx = tx_vout tx'" "tx_nLockTime tx = tx_nLockTime tx'"
    using s(1-3) by (simp_all add: signed_tx_def)
  show "map txin_prevout (tx_vin tx) = map txin_prevout (tx_vin tx')"
    "map txin_nSequence (tx_vin tx) = map txin_nSequence (tx_vin tx')"
    using m [of txin_prevout] m [of txin_nSequence] s(4) by (metis (no_types, lifting) CTxIn.select_convs CTxIn.simps CTxIn.surjective CTxIn.update_convs)+
  show "strip_codeseparators sc = strip_codeseparators sc'" if n: "nIn < length (tx_vin tx)"
  proof -
    have l: "length (tx_vin tx) = length (tx_vin tx')"
      using arg_cong [OF s(4), of length] by (simp add: signed_tx_def)
    have "txin_scriptSig (tx_vin (signed_tx tx sc nIn) ! nIn) = strip_codeseparators sc"
      "txin_scriptSig (tx_vin (signed_tx tx' sc' nIn) ! nIn) = strip_codeseparators sc'"
      using n l by (simp_all add: signed_tx_def)
    with s(4) show ?thesis by simp
  qed
qed

lemma SignatureHash_none:
  assumes "fHashNone ht"
  shows "SignatureHash sha256 sc (tx\<lparr>tx_vout := outs\<rparr>) nIn ht = SignatureHash sha256 sc tx nIn ht"
proof -
  have "SerializeInput (tx\<lparr>tx_vout := outs\<rparr>) sc nIn ht = SerializeInput tx sc nIn ht"
    by (intro ext) (simp add: SerializeInput_def)
  moreover have "ht AND 0x1f \<noteq> 3" using assms by (simp add: fHashNone_def)
  ultimately show ?thesis
    using assms by (simp add: SignatureHash_def SerializeSignature_def Let_def)
qed

lemma SignatureHash_anyonecanpay:
  assumes "fAnyoneCanPay ht" "\<not> fHashSingle ht" "nIn < length (tx_vin tx)"
  shows "SignatureHash sha256 sc (tx\<lparr>tx_vin := [tx_vin tx ! nIn]\<rparr>) 0 ht = SignatureHash sha256 sc tx nIn ht"
proof -
  have "SerializeInput (tx\<lparr>tx_vin := [tx_vin tx ! nIn]\<rparr>) sc 0 ht 0 = SerializeInput tx sc nIn ht 0"
    using assms by (simp add: SerializeInput_def)
  moreover have "SerializeOutput (tx\<lparr>tx_vin := [tx_vin tx ! nIn]\<rparr>) 0 ht = SerializeOutput tx nIn ht"
    using assms by (intro ext) (simp add: SerializeOutput_def)
  moreover have "ht AND 0x1f \<noteq> 3" using assms by (simp add: fHashSingle_def)
  ultimately show ?thesis
    using assms by (simp add: SignatureHash_def SerializeSignature_def Let_def)
qed

section \<open>Properties\<close>

text \<open>
  C39: Transactions have one serialization: \<^verbatim>\<open>Unserialize\<close> returns a transaction and the rest of
  the stream exactly when the transaction's fields are within their widths and the stream
  starts with the bytes that \<^verbatim>\<open>Serialize\<close> writes for it.
\<close>

theorem transaction_codec:
  "unser_CTransaction s = Inr (tx, s') \<longleftrightarrow> valid_CTransaction tx \<and> s = ser_CTransaction tx @ s'"
  by (rule tx.unser_iff)

text \<open>
  \<^verbatim>\<open>GetValueOut\<close> returns the exact sum of the output values, never a wrapped one: it succeeds
  exactly when no value is negative and the sum fits into the amount type.
\<close>

theorem GetValueOut_exact:
  assumes "\<forall>out \<in> set (tx_vout tx). in_sint 64 (txout_nValue out)"
  shows "GetValueOut tx = Inr v \<longleftrightarrow>
    (\<forall>out \<in> set (tx_vout tx). 0 \<le> txout_nValue out) \<and>
    v = sum_list (map txout_nValue (tx_vout tx)) \<and> v < 2 ^ 63"
  using GetValueOut_loop_eq [of 0 "tx_vout tx" v] assms by (simp add: GetValueOut_def)

definition sample_tx :: CTransaction where
  "sample_tx =
     \<lparr>tx_nVersion = 1,
      tx_vin = [\<lparr>txin_prevout = \<lparr>outpoint_hash = 7, outpoint_n = 0\<rparr>, txin_scriptSig = [], txin_nSequence = 5\<rparr>],
      tx_vout = [\<lparr>txout_nValue = 40, txout_scriptPubKey = [OP_1]\<rparr>, \<lparr>txout_nValue = 2, txout_scriptPubKey = []\<rparr>],
      tx_nLockTime = 0\<rparr>"

theorem GetValueOut_exact_witness: "GetValueOut sample_tx = Inr 42"
  using GetValueOut_exact [of sample_tx 42] by (simp add: sample_tx_def in_sint_def)

text \<open>
  C40: What a signature with \<^verbatim>\<open>SIGHASH_ALL\<close> signs determines the transaction: equal bytes mean
  equal version, lock time, outputs, spent outpoints and sequence numbers, and the same script
  code up to code separators; only the input scripts are left out.
\<close>

theorem sighash_all_commits:
  assumes "sighash_all ht" "script_parses sc" "script_parses sc'"
    and "length sc \<le> MAX_SIZE" "length sc' \<le> MAX_SIZE"
    and "valid_CTransaction tx" "valid_CTransaction tx'" "nIn < length (tx_vin tx)"
    and "SerializeSignature tx sc nIn ht = SerializeSignature tx' sc' nIn ht"
  shows "tx_nVersion tx = tx_nVersion tx' \<and> tx_vout tx = tx_vout tx' \<and> tx_nLockTime tx = tx_nLockTime tx' \<and>
    map txin_prevout (tx_vin tx) = map txin_prevout (tx_vin tx') \<and>
    map txin_nSequence (tx_vin tx) = map txin_nSequence (tx_vin tx') \<and>
    strip_codeseparators sc = strip_codeseparators sc'"
proof -
  have "signed_tx tx sc nIn = signed_tx tx' sc' nIn"
    using assms(9) tx.ser_inject [OF valid_signed_tx [OF assms(6,2,4)] valid_signed_tx [OF assms(7,3,5)]]
    by (simp add: SerializeSignature_all assms(1-3))
  from signed_tx_eqD [OF this] assms(8) show ?thesis by blast
qed

theorem sighash_all_commits_witness:
  "let tx' = sample_tx\<lparr>tx_vin := map (txin_scriptSig_update (\<lambda>_. [1, 9])) (tx_vin sample_tx)\<rparr> in
   SerializeSignature sample_tx [OP_CHECKSIG] 0 1 = SerializeSignature tx' [OP_CODESEPARATOR, OP_CHECKSIG] 0 1 \<and>
   tx_vout sample_tx = tx_vout tx' \<and>
   strip_codeseparators [OP_CHECKSIG] = strip_codeseparators [OP_CODESEPARATOR, OP_CHECKSIG]"
proof -
  let ?tx' = "sample_tx\<lparr>tx_vin := map (txin_scriptSig_update (\<lambda>_. [1, 9])) (tx_vin sample_tx)\<rparr>"
  have p: "script_parses [OP_CHECKSIG]" "script_parses [OP_CODESEPARATOR, OP_CHECKSIG]"
    by (simp_all add: script_parses.simps)
  have v: "valid_CTransaction sample_tx" "valid_CTransaction ?tx'"
    by (simp_all add: sample_tx_def valid_CTransaction_def valid_vector_def valid_CTxIn_def valid_CTxOut_def
        valid_bytes_def in_sint_def)
  have a: "sighash_all 1" by (simp add: sighash_all_def fAnyoneCanPay_def fHashSingle_def fHashNone_def)
  have e: "SerializeSignature sample_tx [OP_CHECKSIG] 0 1 = SerializeSignature ?tx' [OP_CODESEPARATOR, OP_CHECKSIG] 0 1"
    by (simp add: SerializeSignature_all p a signed_tx_def sample_tx_def strip_codeseparators.simps)
  have "0 < length (tx_vin sample_tx)" by (simp add: sample_tx_def)
  from sighash_all_commits [OF a p _ _ v this e] e show ?thesis by (simp add: Let_def)
qed

text \<open>
  A signature with \<^verbatim>\<open>SIGHASH_NONE\<close> does not depend on the outputs at all.
\<close>

theorem sighash_none_ignores_outputs:
  assumes "fHashNone ht"
  shows "SignatureHash sha256 sc (tx\<lparr>tx_vout := outs\<rparr>) nIn ht = SignatureHash sha256 sc tx nIn ht"
  by (rule SignatureHash_none [OF assms])

theorem sighash_none_ignores_outputs_witness:
  "SignatureHash (\<lambda>x. x) [OP_CHECKSIG] (sample_tx\<lparr>tx_vout := []\<rparr>) 0 2 =
   SignatureHash (\<lambda>x. x) [OP_CHECKSIG] sample_tx 0 2"
  by (rule sighash_none_ignores_outputs) (simp add: fHashNone_def)

text \<open>
  A signature with \<^verbatim>\<open>SIGHASH_ANYONECANPAY\<close> stays valid whatever other inputs the transaction
  has: it signs the same bytes as in the transaction with that input alone.
\<close>

theorem sighash_anyonecanpay_one_input:
  assumes "fAnyoneCanPay ht" "\<not> fHashSingle ht" "nIn < length (tx_vin tx)"
  shows "SignatureHash sha256 sc (tx\<lparr>tx_vin := [tx_vin tx ! nIn]\<rparr>) 0 ht = SignatureHash sha256 sc tx nIn ht"
  by (rule SignatureHash_anyonecanpay [OF assms])

theorem sighash_anyonecanpay_one_input_witness:
  "let tx = sample_tx\<lparr>tx_vin := tx_vin sample_tx @ tx_vin sample_tx\<rparr> in
   SignatureHash (\<lambda>x. x) [OP_CHECKSIG] (tx\<lparr>tx_vin := [tx_vin tx ! 1]\<rparr>) 0 0x81 = SignatureHash (\<lambda>x. x) [OP_CHECKSIG] tx 1 0x81"
  unfolding Let_def
  by (rule sighash_anyonecanpay_one_input) (simp_all add: fAnyoneCanPay_def fHashSingle_def sample_tx_def)

end
