(* ===== verification/Compressor.thy ===== *)
theory Compressor
  imports Transaction
begin

unbundle bit_operations_syntax

text \<open>
  The compact form in which unspent outputs are stored (compressor.h and compressor.cpp):
  amounts as a mantissa and a power of ten, the common scripts as a tag and a hash or key,
  and other scripts behind a size shifted by the number of tags. Amounts are \<^verbatim>\<open>uint64_t\<close>:
  arithmetic is modulo \<open>2 ^ 64\<close>. \<^verbatim>\<open>CPubKey::IsFullyValid\<close> and \<^verbatim>\<open>CPubKey::Decompress\<close>, which
  call libsecp256k1, are parameters.
\<close>

section \<open>Amounts\<close>

text \<open>The loop that strips factors of ten, at most nine of them.\<close>

function CompressAmount_loop :: "nat \<Rightarrow> nat \<Rightarrow> nat \<times> nat" where
  "CompressAmount_loop n e =
     (if n mod 10 = 0 \<and> e < 9 then CompressAmount_loop (n div 10) (Suc e) else (n, e))"
  by pat_completeness auto
termination
  by (relation "measure (\<lambda>(n, e). 9 - e)") auto

declare CompressAmount_loop.simps [simp del]

definition CompressAmount :: "nat \<Rightarrow> nat" where
  "CompressAmount n =
     (if n = 0 then 0
      else
        (case CompressAmount_loop n 0 of (n, e) \<Rightarrow>
           if e < 9 then
             let d = n mod 10; n = n div 10
             in (1 + (n * 9 + d - 1) * 10 + e) mod 2 ^ 64
           else (1 + (n - 1) * 10 + 9) mod 2 ^ 64))"

fun DecompressAmount_loop :: "nat \<Rightarrow> nat \<Rightarrow> nat" where
  "DecompressAmount_loop n 0 = n"
| "DecompressAmount_loop n (Suc e) = DecompressAmount_loop ((n * 10) mod 2 ^ 64) e"

definition DecompressAmount :: "nat \<Rightarrow> nat" where
  "DecompressAmount x =
     (if x = 0 then 0
      else
        let x = x - 1; e = x mod 10; x = x div 10;
            n = (if e < 9 then let d = x mod 9 + 1 in (x div 9 * 10 + d) mod 2 ^ 64 else (x + 1) mod 2 ^ 64)
        in DecompressAmount_loop n e)"

section \<open>Scripts\<close>

definition IsToKeyID :: "CScript \<Rightarrow> valtype option" where
  "IsToKeyID script =
     (if length script = 25 \<and> script ! 0 = OP_DUP \<and> script ! 1 = OP_HASH160 \<and> script ! 2 = 20 \<and>
         script ! 23 = OP_EQUALVERIFY \<and> script ! 24 = OP_CHECKSIG
      then Some (take 20 (drop 3 script)) else None)"

definition IsToScriptID :: "CScript \<Rightarrow> valtype option" where
  "IsToScriptID script =
     (if length script = 23 \<and> script ! 0 = OP_HASH160 \<and> script ! 1 = 20 \<and> script ! 22 = OP_EQUAL
      then Some (take 20 (drop 2 script)) else None)"

definition IsToPubKey :: "(valtype \<Rightarrow> bool) \<Rightarrow> CScript \<Rightarrow> valtype option" where
  "IsToPubKey fully_valid script =
     (if length script = 35 \<and> script ! 0 = 33 \<and> script ! 34 = OP_CHECKSIG \<and>
         (script ! 1 = 0x02 \<or> script ! 1 = 0x03)
      then Some (take 33 (drop 1 script))
      else if length script = 67 \<and> script ! 0 = 65 \<and> script ! 66 = OP_CHECKSIG \<and> script ! 1 = 0x04
      then
        if fully_valid (take 65 (drop 1 script)) then Some (take 65 (drop 1 script)) else None
      else None)"

definition Compress :: "(valtype \<Rightarrow> bool) \<Rightarrow> CScript \<Rightarrow> valtype option" where
  "Compress fully_valid script =
     (case IsToKeyID script of
        Some keyID \<Rightarrow> Some (0x00 # keyID)
      | None \<Rightarrow>
          (case IsToScriptID script of
             Some scriptID \<Rightarrow> Some (0x01 # scriptID)
           | None \<Rightarrow>
               (case IsToPubKey fully_valid script of
                  None \<Rightarrow> None
                | Some pubkey \<Rightarrow>
                    if pubkey ! 0 = 0x02 \<or> pubkey ! 0 = 0x03
                    then Some (pubkey ! 0 # take 32 (drop 1 pubkey))
                    else if pubkey ! 0 = 0x04
                    then Some ((0x04 OR (pubkey ! 64 AND 0x01)) # take 32 (drop 1 pubkey))
                    else None)))"

definition GetSpecialSize :: "nat \<Rightarrow> nat" where
  "GetSpecialSize nSize =
     (if nSize = 0 \<or> nSize = 1 then 20
      else if nSize = 2 \<or> nSize = 3 \<or> nSize = 4 \<or> nSize = 5 then 32
      else 0)"

definition Decompress :: "(valtype \<Rightarrow> valtype option) \<Rightarrow> nat \<Rightarrow> valtype \<Rightarrow> CScript option" where
  "Decompress decompress nSize vin =
     (if nSize = 0x00 then Some ([OP_DUP, OP_HASH160, 20] @ take 20 vin @ [OP_EQUALVERIFY, OP_CHECKSIG])
      else if nSize = 0x01 then Some ([OP_HASH160, 20] @ take 20 vin @ [OP_EQUAL])
      else if nSize = 0x02 \<or> nSize = 0x03
      then Some ([33, word_of_nat nSize] @ take 32 vin @ [OP_CHECKSIG])
      else if nSize = 0x04 \<or> nSize = 0x05 then
        (case decompress (word_of_nat (nSize - 2) # take 32 vin) of
           None \<Rightarrow> None
         | Some pubkey \<Rightarrow> Some ([65] @ take 65 pubkey @ [OP_CHECKSIG]))
      else None)"

abbreviation (input) nSpecialScripts :: nat where
  "nSpecialScripts \<equiv> 6"

definition ser_script_compressed :: "(valtype \<Rightarrow> bool) \<Rightarrow> CScript \<Rightarrow> byte list" where
  "ser_script_compressed fully_valid script =
     (case Compress fully_valid script of
        Some compr \<Rightarrow> compr
      | None \<Rightarrow> WriteVarInt (word_of_nat (length script + nSpecialScripts) :: u32) @ script)"

text \<open>
  \<^verbatim>\<open>Unserialize\<close> ignores the result of \<^verbatim>\<open>Decompress\<close>: where that fails, the script that was
  there before, \<open>old\<close>, stays.
\<close>

definition unser_script_compressed ::
    "(valtype \<Rightarrow> valtype option) \<Rightarrow> CScript \<Rightarrow> CScript reader" where
  "unser_script_compressed decompress old =
     rbind ReadVarInt (\<lambda>nSize :: u32.
       if unat nSize < nSpecialScripts then
         rbind (stream_read (GetSpecialSize (unat nSize))) (\<lambda>vch.
           rreturn (case Decompress decompress (unat nSize) vch of None \<Rightarrow> old | Some script \<Rightarrow> script))
       else stream_read (unat nSize - nSpecialScripts))"

definition ser_CTxOutCompressor :: "(valtype \<Rightarrow> bool) \<Rightarrow> CTxOut \<Rightarrow> byte list" where
  "ser_CTxOutCompressor fully_valid out =
     WriteVarInt (word_of_nat (CompressAmount (nat (txout_nValue out mod 2 ^ 64))) :: u64) @
     ser_script_compressed fully_valid (txout_scriptPubKey out)"

definition unser_CTxOutCompressor :: "(valtype \<Rightarrow> valtype option) \<Rightarrow> CTxOut reader" where
  "unser_CTxOutCompressor decompress =
     rbind ReadVarInt (\<lambda>nVal :: u64.
     rbind (unser_script_compressed decompress []) (\<lambda>script.
       rreturn \<lparr>txout_nValue = swrap 64 (int (DecompressAmount (unat nVal))), txout_scriptPubKey = script\<rparr>))"

section \<open>Amounts are read back\<close>

lemma CompressAmount_loop_inv:
  "CompressAmount_loop n e = (m, e') \<Longrightarrow> e \<le> 9 \<Longrightarrow> 0 < n \<Longrightarrow>
     e \<le> e' \<and> e' \<le> 9 \<and> n = m * 10 ^ (e' - e) \<and> (e' < 9 \<longrightarrow> m mod 10 \<noteq> 0) \<and> 0 < m"
proof (induction n e rule: CompressAmount_loop.induct)
  case (1 n e)
  show ?case
  proof (cases "n mod 10 = 0 \<and> e < 9")
    case True
    then have r: "CompressAmount_loop (n div 10) (Suc e) = (m, e')"
      using "1.prems"(1) by (simp add: CompressAmount_loop.simps [of n])
    obtain q where q: "n = 10 * q" using True by (metis mod_0_imp_dvd dvdE)
    from "1.IH" [OF True r] True "1.prems"(3) q
    have "Suc e \<le> e'" "e' \<le> 9" "q = m * 10 ^ (e' - Suc e)" "e' < 9 \<longrightarrow> m mod 10 \<noteq> 0" "0 < m" by auto
    moreover from this(1) have "(10::nat) ^ (e' - e) = 10 * 10 ^ (e' - Suc e)"
      by (metis Suc_diff_le Suc_leD diff_Suc_Suc power_Suc Suc_diff_Suc Suc_le_lessD)
    ultimately show ?thesis using q by simp
  next
    case False
    then show ?thesis using 1 by (subst (asm) CompressAmount_loop.simps) auto
  qed
qed

lemma DecompressAmount_loop_eq: "n * 10 ^ e < 2 ^ 64 \<Longrightarrow> DecompressAmount_loop n e = n * 10 ^ e"
proof (induction e arbitrary: n)
  case (Suc e)
  have "n * 10 \<le> n * 10 ^ Suc e" by simp
  then have "n * 10 < 2 ^ 64" using Suc.prems by linarith
  then show ?case using Suc by simp
qed simp

lemma DecompressAmount_Compress:
  assumes "n \<le> 2 ^ 64 div 9"
  shows "DecompressAmount (CompressAmount n) = n"
proof (cases "n = 0")
  case False
  obtain m e where l: "CompressAmount_loop n 0 = (m, e)" by (cases "CompressAmount_loop n 0")
  have i: "e \<le> 9" "n = m * 10 ^ e" "e < 9 \<longrightarrow> m mod 10 \<noteq> 0" "0 < m"
    using CompressAmount_loop_inv [OF l] False by auto
  have nb: "n \<le> 2049638230412172401" using assms by simp
  have "m * 1 \<le> m * 10 ^ e" by (intro mult_le_mono2) simp
  then have mn: "m \<le> n" using i(2) by simp
  have loop: "DecompressAmount_loop m e = n"
    using DecompressAmount_loop_eq [of m e] i(2) nb by simp
  show ?thesis
  proof (cases "e < 9")
    case True
    define d q where "d = m mod 10" and "q = m div 10"
    have m: "m = q * 10 + d" "1 \<le> d" "d \<le> 9" using True i(3) by (auto simp: d_def q_def)
    have "e = 0 \<or> 10 * m \<le> n"
      using i(2) mult_le_mono2 [of 10 "10 ^ e" m] by (cases e) auto
    then have b: "1 + (q * 9 + d - 1) * 10 + e < 18446744073709551616"
      using True m mn nb by (elim disjE) linarith+
    have c: "CompressAmount n = 1 + (q * 9 + d - 1) * 10 + e"
      using False l True b by (simp add: CompressAmount_def d_def [symmetric] q_def [symmetric])
    have "(q * 9 + d - 1) mod 9 + 1 = d" "(q * 9 + d - 1) div 9 = q"
    proof -
      obtain d' where d': "d = Suc d'" "d' < 9" using m by (cases d) auto
      then have "q * 9 + d - 1 = d' + 9 * q" by simp
      with d' show "(q * 9 + d - 1) mod 9 + 1 = d" "(q * 9 + d - 1) div 9 = q" by simp_all
    qed
    moreover have "(1 + (q * 9 + d - 1) * 10 + e - 1) mod 10 = e" "(1 + (q * 9 + d - 1) * 10 + e - 1) div 10 = q * 9 + d - 1"
      using True by simp_all
    ultimately show ?thesis
      using True c loop m mn nb by (simp add: DecompressAmount_def Let_def)
  next
    case e9: False
    then have e: "e = 9" using i(1) by simp
    have c: "CompressAmount n = 1 + (m - 1) * 10 + 9"
      using False l e i(4) i(2) nb by (simp add: CompressAmount_def)
    have "(1 + (m - 1) * 10 + 9 - 1) mod 10 = 9" "(1 + (m - 1) * 10 + 9 - 1) div 10 = m - 1" by simp_all
    then show ?thesis
      using c loop e i(4) mn nb by (simp add: DecompressAmount_def Let_def)
  qed
qed (simp add: CompressAmount_def DecompressAmount_def)

section \<open>Scripts are read back\<close>

text \<open>
  What the compact form relies on of libsecp256k1: decompressing the compressed form of a
  fully valid uncompressed key gives the key back.
\<close>

definition key_compression :: "(valtype \<Rightarrow> bool) \<Rightarrow> (valtype \<Rightarrow> valtype option) \<Rightarrow> bool" where
  "key_compression fully_valid decompress \<longleftrightarrow>
     (\<forall>pubkey. length pubkey = 65 \<longrightarrow> pubkey ! 0 = 0x04 \<longrightarrow> fully_valid pubkey \<longrightarrow>
        decompress ((0x02 + (pubkey ! 64 AND 0x01)) # take 32 (drop 1 pubkey)) = Some pubkey)"

lemma split_length: "length s = k + r \<Longrightarrow> \<exists>h t. s = h @ t \<and> length h = k \<and> length t = r"
  by (rule exI [of _ "take k s"], rule exI [of _ "drop k s"]) simp

lemma Cons_length: "length s = Suc k \<Longrightarrow> \<exists>a t. s = a # t \<and> length t = k"
  by (cases s) auto

lemma Decompress_key_id:
  assumes "IsToKeyID script = Some h"
  shows "Decompress d 0 h = Some script \<and> length h = 20"
proof -
  from assms have "length script = Suc (Suc (Suc (20 + 2)))" by (simp add: IsToKeyID_def split: if_splits)
  then obtain a b c k x y where s: "script = a # b # c # k @ [x, y]" "length k = 20"
    by (elim Cons_length [elim_format] exE conjE) (metis Cons_length split_length length_2_list)
  with assms show ?thesis by (auto simp: IsToKeyID_def Decompress_def nth_append split: if_splits)
qed

lemma Decompress_script_id:
  assumes "IsToScriptID script = Some h"
  shows "Decompress d 1 h = Some script \<and> length h = 20"
proof -
  from assms have "length script = Suc (Suc (20 + 1))" by (simp add: IsToScriptID_def split: if_splits)
  then obtain a b k x where s: "script = a # b # k @ [x]" "length k = 20"
    by (elim Cons_length [elim_format] exE conjE) (metis Cons_length split_length length_1_list)
  with assms show ?thesis by (auto simp: IsToScriptID_def Decompress_def nth_append split: if_splits)
qed

lemma IsToPubKey_cases:
  assumes "IsToPubKey fv script = Some pubkey"
  obtains (short) b t where "script = [33, b] @ t @ [OP_CHECKSIG]" "pubkey = b # t" "length t = 32" "b = 0x02 \<or> b = 0x03"
    | (long) t where "script = [65] @ pubkey @ [OP_CHECKSIG]" "pubkey = 0x04 # t" "length t = 64" "fv pubkey"
proof (cases "length script = 35")
  case True
  then have "length script = Suc (Suc (32 + 1))" by simp
  then obtain a b k x where s: "script = a # b # k @ [x]" "length k = 32"
    by (elim Cons_length [elim_format] exE conjE) (metis Cons_length split_length length_1_list)
  with assms that(1) [of b k] show thesis by (auto simp: IsToPubKey_def nth_append split: if_splits)
next
  case False
  with assms have "length script = Suc (Suc (64 + 1))" by (simp add: IsToPubKey_def split: if_splits)
  then obtain a b k x where s: "script = a # b # k @ [x]" "length k = 64"
    by (elim Cons_length [elim_format] exE conjE) (metis Cons_length split_length length_1_list)
  with assms that(2) [of k] show thesis by (auto simp: IsToPubKey_def nth_append split: if_splits)
qed

lemma and_1_cases: "x AND 0x01 = 0 \<or> x AND 0x01 = 1" for x :: byte
  by (simp add: and_one_eq mod_2_eq_odd)

text \<open>
  The tag, the payload and what \<^verbatim>\<open>Decompress\<close> makes of them.
\<close>

lemma Compress_Some:
  assumes "Compress fv script = Some compr" "key_compression fv d"
  obtains tag where "tag < 6" "compr = word_of_nat tag # tl compr" "length (tl compr) = GetSpecialSize tag"
    "Decompress d tag (tl compr) = Some script"
proof (cases "IsToKeyID script")
  case (Some h)
  then show thesis
    using assms(1) that [of 0] Decompress_key_id [OF Some] by (auto simp: Compress_def GetSpecialSize_def)
next
  case k: None
  show thesis
  proof (cases "IsToScriptID script")
    case (Some h)
    then show thesis
      using assms(1) k that [of 1] Decompress_script_id [OF Some] by (auto simp: Compress_def GetSpecialSize_def)
  next
    case s: None
    with k assms(1) obtain pubkey where p: "IsToPubKey fv script = Some pubkey"
      by (auto simp: Compress_def split: option.splits)
    from p show thesis
    proof (cases rule: IsToPubKey_cases)
      case (short b t)
      then have "compr = b # t" using assms(1) k s p by (auto simp: Compress_def)
      then show thesis
        using short that [of "unat b"] by (auto simp: GetSpecialSize_def Decompress_def)
    next
      case (long t)
      let ?b = "pubkey ! 64 AND 0x01"
      have c: "compr = (0x04 OR ?b) # take 32 t" using assms(1) k s p long by (auto simp: Compress_def)
      have "d ((0x02 + ?b) # take 32 t) = Some pubkey"
        using assms(2) [unfolded key_compression_def, rule_format, of pubkey] long by simp
      then show thesis
        using and_1_cases [of "pubkey ! 64"] c long that [of 4] that [of 5]
        by (auto simp: GetSpecialSize_def Decompress_def)
    qed
  qed
qed

lemma ReadVarInt_small:
  assumes "tag < 6"
  shows "ReadVarInt (word_of_nat tag # s) = Inr (word_of_nat tag :: u32, s)"
proof -
  have "tag = 0 \<or> tag = 1 \<or> tag = 2 \<or> tag = 3 \<or> tag = 4 \<or> tag = 5" using assms by linarith
  then show ?thesis by (auto simp: ReadVarInt_def)
qed

lemma unser_ser_script_compressed:
  assumes "key_compression fv d" "length script + 6 < 2 ^ 32"
  shows "unser_script_compressed d old (ser_script_compressed fv script @ s) = Inr (script, s)"
proof (cases "Compress fv script")
  case (Some compr)
  from Some assms(1) obtain tag where t: "tag < 6" "compr = word_of_nat tag # tl compr"
      "length (tl compr) = GetSpecialSize tag" "Decompress d tag (tl compr) = Some script"
    by (rule Compress_Some)
  have u: "unat (word_of_nat tag :: u32) = tag" using t(1) by (simp add: unat_of_nat take_bit_nat_eq_self)
  have "ReadVarInt (compr @ s) = Inr (word_of_nat tag :: u32, tl compr @ s)"
    using ReadVarInt_small [OF t(1)] t(2) by (metis append_Cons)
  then show ?thesis
    using Some t u
    by (simp add: unser_script_compressed_def ser_script_compressed_def rbind_def rreturn_def stream_read_def)
next
  case None
  have u: "unat (word_of_nat (length script + 6) :: u32) = length script + 6"
    using assms(2) by (simp add: unat_of_nat take_bit_nat_eq_self del: of_nat_add)
  show ?thesis
    using None u ReadVarInt_WriteVarInt [of "word_of_nat (length script + 6) :: u32" "script @ s"]
    by (simp add: unser_script_compressed_def ser_script_compressed_def rbind_def stream_read_def del: of_nat_add)
qed

lemma CompressAmount_less: "CompressAmount n < 2 ^ 64"
  by (auto simp: CompressAmount_def Let_def split: prod.splits)

lemma unser_ser_CTxOutCompressor:
  assumes "key_compression fv d" "length (txout_scriptPubKey out) + 6 < 2 ^ 32"
    and "0 \<le> txout_nValue out" "txout_nValue out \<le> 2 ^ 64 div 9"
  shows "unser_CTxOutCompressor d (ser_CTxOutCompressor fv out @ s) = Inr (out, s)"
proof -
  let ?n = "nat (txout_nValue out)"
  have n: "?n \<le> 2 ^ 64 div 9" using assms(3,4) by (simp add: nat_le_iff)
  have m: "txout_nValue out mod 2 ^ 64 = txout_nValue out" using assms(3,4) by simp
  have u: "unat (word_of_nat (CompressAmount ?n) :: u64) = CompressAmount ?n"
    using CompressAmount_less [of ?n] by (simp add: unat_of_nat take_bit_nat_eq_self)
  have w: "swrap 64 (int ?n) = txout_nValue out"
    using assms(3,4) by (subst swrap_id) (auto simp: in_sint_def)
  show ?thesis
    using assms m u w DecompressAmount_Compress [OF n]
    by (simp add: unser_CTxOutCompressor_def ser_CTxOutCompressor_def rbind_def rreturn_def
        ReadVarInt_WriteVarInt unser_ser_script_compressed)
qed

section \<open>Properties\<close>

text \<open>
  Amount compression is lossless: every amount up to a ninth of the word range, which
  includes all of the money supply, is decompressed to itself although the arithmetic of both
  directions is modulo two to the 64.
\<close>

theorem amount_roundtrip:
  assumes "n \<le> 2 ^ 64 div 9"
  shows "DecompressAmount (CompressAmount n) = n"
  by (rule DecompressAmount_Compress [OF assms])

theorem amount_roundtrip_witness: "DecompressAmount (CompressAmount 5000000000000000) = 5000000000000000"
  by (rule amount_roundtrip) simp

text \<open>
  The stored form of an unspent output is read back as the same value and script, whether
  its script has one of the six short forms or is stored in full, provided that the curve
  library decompresses the compressed form of a fully valid key to that key.
\<close>

theorem txout_compressor_roundtrip:
  assumes "key_compression fully_valid decompress" "length (txout_scriptPubKey out) + 6 < 2 ^ 32"
    and "0 \<le> txout_nValue out" "txout_nValue out \<le> 2 ^ 64 div 9"
  shows "unser_CTxOutCompressor decompress (ser_CTxOutCompressor fully_valid out @ s) = Inr (out, s)"
  by (rule unser_ser_CTxOutCompressor [OF assms])

text \<open>A curve with one fully valid key, and the decompression that knows it.\<close>

definition sample_key :: valtype where
  "sample_key = 0x04 # replicate 64 1"

definition sample_decompress :: "valtype \<Rightarrow> valtype option" where
  "sample_decompress c = (if c = 0x03 # replicate 32 1 then Some sample_key else None)"

lemma sample_key_compression: "key_compression (\<lambda>k. k = sample_key) sample_decompress"
  by (auto simp: key_compression_def sample_decompress_def sample_key_def nth_Cons' )

theorem txout_compressor_roundtrip_witness:
  "let out = \<lparr>txout_nValue = 1250000000, txout_scriptPubKey = [65] @ sample_key @ [OP_CHECKSIG]\<rparr> in
   unser_CTxOutCompressor sample_decompress (ser_CTxOutCompressor (\<lambda>k. k = sample_key) out @ [1]) = Inr (out, [1])"
  unfolding Let_def
  by (rule txout_compressor_roundtrip [OF sample_key_compression]) (simp_all add: sample_key_def)

end
