(* ===== verification/Coins.thy ===== *)
theory Coins
  imports Compressor "HOL-Library.AList"
begin

unbundle bit_operations_syntax

text \<open>
  The set of unspent outputs (coins.h, coins.cpp, undo.h and the coins part of txdb.cpp):
  \<^verbatim>\<open>CCoins\<close>, the outputs of one transaction that are not spent; \<^verbatim>\<open>CTxInUndo\<close>, what is needed to
  take a spend back; and the layered views \<^verbatim>\<open>CCoinsViewDB\<close> and \<^verbatim>\<open>CCoinsViewCache\<close>.
  A \<^verbatim>\<open>CCoinsMap\<close> is an association list without duplicate keys, in the order of iteration.
\<close>

section \<open>The outputs of a transaction\<close>

record CCoins =
  coins_fCoinBase :: bool
  coins_fCoinStake :: bool
  coins_vout :: "CTxOut list"
  coins_nHeight :: int
  coins_nVersion :: int

definition CCoins_empty :: CCoins where
  "CCoins_empty = \<lparr>coins_fCoinBase = False, coins_fCoinStake = False, coins_vout = [],
     coins_nHeight = 0, coins_nVersion = 0\<rparr>"

text \<open>\<^verbatim>\<open>Clear\<close> resets every field, so it does not depend on the object.\<close>

definition CCoins_Clear :: "CCoins \<Rightarrow> CCoins" where
  "CCoins_Clear c = CCoins_empty"

text \<open>\<^verbatim>\<open>Cleanup\<close> pops null outputs off the end.\<close>

definition Cleanup_vout :: "CTxOut list \<Rightarrow> CTxOut list" where
  "Cleanup_vout vout = rev (dropWhile CTxOut_IsNull (rev vout))"

definition Cleanup :: "CCoins \<Rightarrow> CCoins" where
  "Cleanup c = c\<lparr>coins_vout := Cleanup_vout (coins_vout c)\<rparr>"

definition ClearUnspendable :: "CCoins \<Rightarrow> CCoins" where
  "ClearUnspendable c =
     Cleanup (c\<lparr>coins_vout :=
       map (\<lambda>out. if IsUnspendable (txout_scriptPubKey out) then CTxOut_null else out) (coins_vout c)\<rparr>)"

definition FromTx :: "CTransaction \<Rightarrow> int \<Rightarrow> CCoins" where
  "FromTx tx nHeightIn =
     ClearUnspendable
       \<lparr>coins_fCoinBase = IsCoinBase tx, coins_fCoinStake = IsCoinStake tx, coins_vout = tx_vout tx,
        coins_nHeight = nHeightIn, coins_nVersion = tx_nVersion tx\<rparr>"

definition IsAvailable :: "CCoins \<Rightarrow> nat \<Rightarrow> bool" where
  "IsAvailable c nPos \<longleftrightarrow> nPos < length (coins_vout c) \<and> \<not> CTxOut_IsNull (coins_vout c ! nPos)"

definition IsPruned :: "CCoins \<Rightarrow> bool" where
  "IsPruned c \<longleftrightarrow> list_all CTxOut_IsNull (coins_vout c)"

text \<open>\<^verbatim>\<open>operator==\<close>: pruned objects are all equal.\<close>

definition CCoins_eq :: "CCoins \<Rightarrow> CCoins \<Rightarrow> bool" where
  "CCoins_eq a b =
     (if IsPruned a \<and> IsPruned b then True
      else coins_fCoinBase a = coins_fCoinBase b \<and> coins_fCoinStake a = coins_fCoinStake b \<and>
        coins_nHeight a = coins_nHeight b \<and> coins_nVersion a = coins_nVersion b \<and>
        coins_vout a = coins_vout b)"

section \<open>Spending and undo information\<close>

record CTxInUndo =
  undo_txout :: CTxOut
  undo_fCoinBase :: bool
  undo_fCoinStake :: bool
  undo_nHeight :: nat
  undo_nVersion :: int

type_synonym CTxUndo = "CTxInUndo list"

definition CTxInUndo_of :: "CTxOut \<Rightarrow> CTxInUndo" where
  "CTxInUndo_of out =
     \<lparr>undo_txout = out, undo_fCoinBase = False, undo_fCoinStake = False, undo_nHeight = 0, undo_nVersion = 0\<rparr>"

text \<open>
  \<^verbatim>\<open>CCoins::Spend\<close>: \<open>None\<close> where it returns false and changes nothing. The metadata goes
  into the undo record only with the last output.
\<close>

definition Spend :: "CCoins \<Rightarrow> nat \<Rightarrow> (CCoins \<times> CTxInUndo) option" where
  "Spend c n =
     (if n \<ge> length (coins_vout c) then None
      else if CTxOut_IsNull (coins_vout c ! n) then None
      else
        let undo = CTxInUndo_of (coins_vout c ! n);
            c' = Cleanup (c\<lparr>coins_vout := (coins_vout c)[n := CTxOut_null]\<rparr>)
        in if coins_vout c' = [] then
             Some (c', undo\<lparr>undo_nHeight := nat (coins_nHeight c'), undo_fCoinBase := coins_fCoinBase c',
               undo_fCoinStake := coins_fCoinStake c', undo_nVersion := coins_nVersion c'\<rparr>)
           else Some (c', undo))"

section \<open>Views\<close>

text \<open>The flags \<^verbatim>\<open>DIRTY\<close> and \<^verbatim>\<open>FRESH\<close> of a cache entry as two truth values.\<close>

record CCoinsCacheEntry =
  entry_coins :: CCoins
  entry_dirty :: bool
  entry_fresh :: bool

type_synonym CCoinsMap = "(u256 \<times> CCoinsCacheEntry) list"

text \<open>
  The database at the bottom: the records under \<^verbatim>\<open>'c'\<close> and the best block under \<^verbatim>\<open>'B'\<close>, zero
  while it is absent. A record is kept as it is; the bytes in which the database stores it, and which records are read
  back from them unchanged, are the subject of \<open>CoinsSer\<close>: a negative \<^verbatim>\<open>nVersion\<close>, for which the stored form has no
  sign, is not among them.
\<close>

record CCoinsViewDB =
  db_coins :: "(u256 \<times> CCoins) list"
  db_best :: u256

definition DB_GetCoins :: "CCoinsViewDB \<Rightarrow> u256 \<Rightarrow> CCoins option \<times> CCoinsViewDB" where
  "DB_GetCoins db txid = (map_of (db_coins db) txid, db)"

definition DB_HaveCoins :: "CCoinsViewDB \<Rightarrow> u256 \<Rightarrow> bool" where
  "DB_HaveCoins db txid \<longleftrightarrow> map_of (db_coins db) txid \<noteq> None"

definition DB_GetBestBlock :: "CCoinsViewDB \<Rightarrow> u256" where
  "DB_GetBestBlock db = db_best db"

definition BatchWriteCoins :: "u256 \<Rightarrow> CCoins \<Rightarrow> (u256 \<times> CCoins) list \<Rightarrow> (u256 \<times> CCoins) list" where
  "BatchWriteCoins hash coins m =
     (if IsPruned coins then AList.delete hash m else AList.update hash coins m)"

definition DB_BatchWrite :: "CCoinsViewDB \<Rightarrow> CCoinsMap \<Rightarrow> u256 \<Rightarrow> CCoinsViewDB option" where
  "DB_BatchWrite db mapCoins hashBlock =
     (let m = fold (\<lambda>(k, e) m. if entry_dirty e then BatchWriteCoins k (entry_coins e) m else m)
                mapCoins (db_coins db)
      in Some (db\<lparr>db_coins := m,
           db_best := if hashBlock \<noteq> 0 then hashBlock else db_best db\<rparr>))"

text \<open>
  A cache over a view of type \<open>'b\<close>. The virtual methods of the base are arguments of the
  operations that call them: \<open>bGet\<close>, \<open>bBest\<close> and \<open>bBatch\<close>. Looking a transaction up may fill
  the caches below, so \<open>bGet\<close> returns the base as it is afterwards.
\<close>

record 'b CCoinsViewCache =
  cache_base :: 'b
  cache_hashBlock :: u256
  cache_coins :: CCoinsMap

definition cache_new :: "'b \<Rightarrow> 'b CCoinsViewCache" where
  "cache_new b = \<lparr>cache_base = b, cache_hashBlock = 0, cache_coins = []\<rparr>"

type_synonym 'b getter = "'b \<Rightarrow> u256 \<Rightarrow> CCoins option \<times> 'b"

text \<open>\<^verbatim>\<open>FetchCoins\<close>: the cached entry, or \<open>None\<close> for the end iterator.\<close>

definition FetchCoins ::
    "'b getter \<Rightarrow> 'b CCoinsViewCache \<Rightarrow> u256 \<Rightarrow> CCoins option \<times> 'b CCoinsViewCache" where
  "FetchCoins bGet c txid =
     (case map_of (cache_coins c) txid of
        Some e \<Rightarrow> (Some (entry_coins e), c)
      | None \<Rightarrow>
          (case bGet (cache_base c) txid of
             (None, b) \<Rightarrow> (None, c\<lparr>cache_base := b\<rparr>)
           | (Some tmp, b) \<Rightarrow>
               (Some tmp,
                c\<lparr>cache_base := b,
                  cache_coins := AList.update txid
                    \<lparr>entry_coins = tmp, entry_dirty = False, entry_fresh = IsPruned tmp\<rparr> (cache_coins c)\<rparr>)))"

text \<open>\<^verbatim>\<open>GetCoins\<close> and \<^verbatim>\<open>AccessCoins\<close> differ only in returning a copy or a pointer.\<close>

definition cache_GetCoins ::
    "'b getter \<Rightarrow> 'b CCoinsViewCache \<Rightarrow> u256 \<Rightarrow> CCoins option \<times> 'b CCoinsViewCache" where
  "cache_GetCoins bGet c txid = FetchCoins bGet c txid"

definition cache_HaveCoins :: "'b getter \<Rightarrow> 'b CCoinsViewCache \<Rightarrow> u256 \<Rightarrow> bool \<times> 'b CCoinsViewCache" where
  "cache_HaveCoins bGet c txid =
     (case FetchCoins bGet c txid of
        (None, c') \<Rightarrow> (False, c')
      | (Some coins, c') \<Rightarrow> (coins_vout coins \<noteq> [], c'))"

text \<open>
  The cache remembers the best block of the view below once it has asked for it; as that view does not change its best block
  while a cache lies over it, asking again gives the same.
\<close>

definition cache_GetBestBlock :: "('b \<Rightarrow> u256) \<Rightarrow> 'b CCoinsViewCache \<Rightarrow> u256" where
  "cache_GetBestBlock bBest c =
     (if cache_hashBlock c = 0 then bBest (cache_base c) else cache_hashBlock c)"

definition SetBestBlock :: "u256 \<Rightarrow> 'b CCoinsViewCache \<Rightarrow> 'b CCoinsViewCache" where
  "SetBestBlock h c = c\<lparr>cache_hashBlock := h\<rparr>"

text \<open>
  \<^verbatim>\<open>ModifyCoins\<close>, the changes \<open>f\<close> that the caller makes through the modifier, and the
  modifier's destructor. A modifier is finished before the next one is made, which is what
  the assertions on \<^verbatim>\<open>hasModifier\<close> demand.
\<close>

definition modify_entry :: "'b getter \<Rightarrow> 'b CCoinsViewCache \<Rightarrow> u256 \<Rightarrow> CCoinsCacheEntry \<times> 'b CCoinsViewCache" where
  "modify_entry bGet c txid =
     (case map_of (cache_coins c) txid of
        Some e \<Rightarrow> (e\<lparr>entry_dirty := True\<rparr>, c)
      | None \<Rightarrow>
          (case bGet (cache_base c) txid of
             (None, b) \<Rightarrow>
               (\<lparr>entry_coins = CCoins_empty, entry_dirty = True, entry_fresh = True\<rparr>, c\<lparr>cache_base := b\<rparr>)
           | (Some coins, b) \<Rightarrow>
               (\<lparr>entry_coins = coins, entry_dirty = True, entry_fresh = IsPruned coins\<rparr>, c\<lparr>cache_base := b\<rparr>)))"

definition release_entry :: "u256 \<Rightarrow> CCoinsCacheEntry \<Rightarrow> 'b CCoinsViewCache \<Rightarrow> 'b CCoinsViewCache" where
  "release_entry txid e c =
     (let e = e\<lparr>entry_coins := Cleanup (entry_coins e)\<rparr> in
      if entry_fresh e \<and> IsPruned (entry_coins e)
      then c\<lparr>cache_coins := AList.delete txid (cache_coins c)\<rparr>
      else c\<lparr>cache_coins := AList.update txid e (cache_coins c)\<rparr>)"

definition ModifyCoins ::
    "'b getter \<Rightarrow> 'b CCoinsViewCache \<Rightarrow> u256 \<Rightarrow> (CCoins \<Rightarrow> 'r \<times> CCoins) \<Rightarrow> 'r \<times> 'b CCoinsViewCache" where
  "ModifyCoins bGet c txid f =
     (case modify_entry bGet c txid of (e, c') \<Rightarrow>
      case f (entry_coins e) of (r, coins) \<Rightarrow>
        (r, release_entry txid (e\<lparr>entry_coins := coins\<rparr>) c'))"

text \<open>
  One iteration of \<^verbatim>\<open>CCoinsViewCache::BatchWrite\<close>; \<open>None\<close> is the failed assertion.
\<close>

definition batch_entry :: "u256 \<Rightarrow> CCoinsCacheEntry \<Rightarrow> CCoinsMap \<Rightarrow> CCoinsMap option" where
  "batch_entry k e cacheCoins =
     (if entry_dirty e then
        (case map_of cacheCoins k of
           None \<Rightarrow>
             if \<not> IsPruned (entry_coins e) then
               if entry_fresh e then
                 Some (AList.update k \<lparr>entry_coins = entry_coins e, entry_dirty = True, entry_fresh = True\<rparr> cacheCoins)
               else None
             else Some cacheCoins
         | Some us \<Rightarrow>
             if entry_fresh us \<and> IsPruned (entry_coins e) then Some (AList.delete k cacheCoins)
             else Some (AList.update k (us\<lparr>entry_coins := entry_coins e, entry_dirty := True\<rparr>) cacheCoins))
      else Some cacheCoins)"

fun batch_loop :: "CCoinsMap \<Rightarrow> CCoinsMap \<Rightarrow> CCoinsMap option" where
  "batch_loop [] cacheCoins = Some cacheCoins"
| "batch_loop ((k, e) # mapCoins) cacheCoins =
     (case batch_entry k e cacheCoins of
        None \<Rightarrow> None
      | Some cacheCoins' \<Rightarrow> batch_loop mapCoins cacheCoins')"

definition cache_BatchWrite :: "'b CCoinsViewCache \<Rightarrow> CCoinsMap \<Rightarrow> u256 \<Rightarrow> 'b CCoinsViewCache option" where
  "cache_BatchWrite c mapCoins hashBlockIn =
     (case batch_loop mapCoins (cache_coins c) of
        None \<Rightarrow> None
      | Some m \<Rightarrow> Some (c\<lparr>cache_coins := m, cache_hashBlock := hashBlockIn\<rparr>))"

definition Flush ::
    "('b \<Rightarrow> CCoinsMap \<Rightarrow> u256 \<Rightarrow> 'b option) \<Rightarrow> 'b CCoinsViewCache \<Rightarrow> 'b CCoinsViewCache option" where
  "Flush bBatch c =
     (case bBatch (cache_base c) (cache_coins c) (cache_hashBlock c) of
        None \<Rightarrow> None
      | Some b \<Rightarrow> Some (c\<lparr>cache_base := b, cache_coins := []\<rparr>))"

definition GetCacheSize :: "'b CCoinsViewCache \<Rightarrow> nat" where
  "GetCacheSize c = length (cache_coins c)"

text \<open>\<^verbatim>\<open>GetOutputFor\<close>; \<open>None\<close> is its failed assertion.\<close>

definition GetOutputFor :: "'b getter \<Rightarrow> 'b CCoinsViewCache \<Rightarrow> CTxIn \<Rightarrow> CTxOut option \<times> 'b CCoinsViewCache" where
  "GetOutputFor bGet c input =
     (case FetchCoins bGet c (outpoint_hash (txin_prevout input)) of
        (None, c') \<Rightarrow> (None, c')
      | (Some coins, c') \<Rightarrow>
          if IsAvailable coins (unat (outpoint_n (txin_prevout input)))
          then (Some (coins_vout coins ! unat (outpoint_n (txin_prevout input))), c')
          else (None, c'))"

fun GetValueIn_loop ::
    "'b getter \<Rightarrow> 'b CCoinsViewCache \<Rightarrow> CTxIn list \<Rightarrow> int \<Rightarrow> int option \<times> 'b CCoinsViewCache" where
  "GetValueIn_loop bGet c [] nResult = (Some nResult, c)"
| "GetValueIn_loop bGet c (txin # vin) nResult =
     (case GetOutputFor bGet c txin of
        (None, c') \<Rightarrow> (None, c')
      | (Some out, c') \<Rightarrow> GetValueIn_loop bGet c' vin (swrap 64 (nResult + txout_nValue out)))"

definition GetValueIn :: "'b getter \<Rightarrow> 'b CCoinsViewCache \<Rightarrow> CTransaction \<Rightarrow> int option \<times> 'b CCoinsViewCache" where
  "GetValueIn bGet c tx =
     (if IsCoinBase tx then (Some 0, c) else GetValueIn_loop bGet c (tx_vin tx) 0)"

fun HaveInputs_loop :: "'b getter \<Rightarrow> 'b CCoinsViewCache \<Rightarrow> CTxIn list \<Rightarrow> bool \<times> 'b CCoinsViewCache" where
  "HaveInputs_loop bGet c [] = (True, c)"
| "HaveInputs_loop bGet c (txin # vin) =
     (case FetchCoins bGet c (outpoint_hash (txin_prevout txin)) of
        (None, c') \<Rightarrow> (False, c')
      | (Some coins, c') \<Rightarrow>
          if \<not> IsAvailable coins (unat (outpoint_n (txin_prevout txin))) then (False, c')
          else HaveInputs_loop bGet c' vin)"

definition HaveInputs :: "'b getter \<Rightarrow> 'b CCoinsViewCache \<Rightarrow> CTransaction \<Rightarrow> bool \<times> 'b CCoinsViewCache" where
  "HaveInputs bGet c tx = (if \<not> IsCoinBase tx then HaveInputs_loop bGet c (tx_vin tx) else (True, c))"

section \<open>Facts on the outputs of a transaction\<close>

lemma Cleanup_idem [simp]: "Cleanup (Cleanup c) = Cleanup c"
  by (simp add: Cleanup_def Cleanup_vout_def dropWhile_idem)

lemma Cleanup_empty [simp]: "Cleanup CCoins_empty = CCoins_empty"
  by (simp add: Cleanup_def Cleanup_vout_def CCoins_empty_def)

lemma IsPruned_empty [simp]: "IsPruned CCoins_empty"
  by (simp add: IsPruned_def CCoins_empty_def)

lemma Cleanup_vout_Nil_iff: "Cleanup_vout vout = [] \<longleftrightarrow> list_all CTxOut_IsNull vout"
  by (auto simp: Cleanup_vout_def list_all_iff)

lemma IsPruned_iff_Nil: "IsPruned c \<longleftrightarrow> coins_vout (Cleanup c) = []"
  by (simp add: IsPruned_def Cleanup_def Cleanup_vout_Nil_iff)

lemma Cleanup_vout_decomp: "\<exists>ys. vout = Cleanup_vout vout @ ys \<and> list_all CTxOut_IsNull ys"
proof
  let ?t = "takeWhile CTxOut_IsNull (rev vout)"
  have "rev vout = ?t @ dropWhile CTxOut_IsNull (rev vout)" by simp
  then have "vout = Cleanup_vout vout @ rev ?t" unfolding Cleanup_vout_def by (metis rev_append rev_rev_ident)
  then show "vout = Cleanup_vout vout @ rev ?t \<and> list_all CTxOut_IsNull (rev ?t)"
    by (auto simp: list_all_iff dest: set_takeWhileD)
qed

lemma IsAvailable_Cleanup [simp]: "IsAvailable (Cleanup c) n = IsAvailable c n"
proof -
  obtain ys where v: "coins_vout c = Cleanup_vout (coins_vout c) @ ys" "list_all CTxOut_IsNull ys"
    using Cleanup_vout_decomp by blast
  show ?thesis
    unfolding IsAvailable_def Cleanup_def
    by (subst (3 4) v(1)) (use v(2) in \<open>auto simp: nth_append list_all_length\<close>)
qed

lemma IsPruned_Cleanup [simp]: "IsPruned (Cleanup c) = IsPruned c"
  by (metis Cleanup_idem IsPruned_iff_Nil)

lemma IsPruned_iff_available: "IsPruned c \<longleftrightarrow> (\<forall>n. \<not> IsAvailable c n)"
  by (auto simp: IsPruned_def IsAvailable_def list_all_length)

section \<open>The interface of a view\<close>

text \<open>The coins that a lookup stands for: a pruned record is as good as none.\<close>

definition coins_opt :: "CCoins option \<Rightarrow> CCoins option" where
  "coins_opt r = (case r of None \<Rightarrow> None | Some c \<Rightarrow> if IsPruned c then None else Some c)"

text \<open>
  What a batch of entries does to a set of coins, and when it may be written: the keys are
  distinct, an entry marked fresh is not among the coins below, and a modified entry not
  marked fresh is \<open>present\<close> below.
\<close>

definition apply_batch :: "(u256 \<Rightarrow> CCoins option) \<Rightarrow> CCoinsMap \<Rightarrow> u256 \<Rightarrow> CCoins option" where
  "apply_batch A m k =
     (case map_of m k of
        None \<Rightarrow> A k
      | Some e \<Rightarrow> if entry_dirty e then coins_opt (Some (entry_coins e)) else A k)"

definition batch_ok :: "(u256 \<Rightarrow> CCoins option) \<Rightarrow> (u256 \<Rightarrow> bool) \<Rightarrow> CCoinsMap \<Rightarrow> bool" where
  "batch_ok A present m \<longleftrightarrow>
     distinct (map fst m) \<and>
     (\<forall>k e. map_of m k = Some e \<longrightarrow>
        Cleanup (entry_coins e) = entry_coins e \<and> (entry_fresh e \<longrightarrow> A k = None) \<and>
        (entry_dirty e \<and> \<not> entry_fresh e \<longrightarrow> present k))"

text \<open>
  A view, seen from a cache above it. \<open>abs\<close> is the set of coins it represents, \<open>present\<close>
  tells which keys it holds an entry for, and \<open>inv\<close> is its invariant.
\<close>

locale coins_view =
  fixes get :: "'s getter"
    and batch :: "'s \<Rightarrow> CCoinsMap \<Rightarrow> u256 \<Rightarrow> 's option"
    and abs :: "'s \<Rightarrow> u256 \<Rightarrow> CCoins option"
    and present :: "'s \<Rightarrow> u256 \<Rightarrow> bool"
    and inv :: "'s \<Rightarrow> bool"
  assumes get_inv: "inv s \<Longrightarrow> get s t = (r, s') \<Longrightarrow> inv s'"
    and get_abs: "inv s \<Longrightarrow> get s t = (r, s') \<Longrightarrow> abs s' = abs s"
    and get_result: "inv s \<Longrightarrow> get s t = (r, s') \<Longrightarrow> coins_opt r = abs s t"
    and get_clean: "inv s \<Longrightarrow> get s t = (Some c, s') \<Longrightarrow> Cleanup c = c"
    and get_present: "get s t = (Some c, s') \<Longrightarrow> present s' t"
    and get_present_mono: "get s t = (r, s') \<Longrightarrow> present s k \<Longrightarrow> present s' k"
    and batch_write: "inv s \<Longrightarrow> batch_ok (abs s) (present s) m \<Longrightarrow>
      \<exists>s'. batch s m h = Some s' \<and> inv s' \<and> abs s' = apply_batch (abs s) m"

section \<open>The cache refines the set of coins\<close>

definition cache_abs :: "('b \<Rightarrow> u256 \<Rightarrow> CCoins option) \<Rightarrow> 'b CCoinsViewCache \<Rightarrow> u256 \<Rightarrow> CCoins option" where
  "cache_abs babs c k =
     (case map_of (cache_coins c) k of
        None \<Rightarrow> babs (cache_base c) k
      | Some e \<Rightarrow> coins_opt (Some (entry_coins e)))"

definition cache_present :: "'b CCoinsViewCache \<Rightarrow> u256 \<Rightarrow> bool" where
  "cache_present c k \<longleftrightarrow> map_of (cache_coins c) k \<noteq> None"

text \<open>What holds of every cache entry, given the coins and the keys of the base.\<close>

definition entry_inv :: "CCoins option \<Rightarrow> bool \<Rightarrow> CCoinsCacheEntry \<Rightarrow> bool" where
  "entry_inv below present e \<longleftrightarrow>
     Cleanup (entry_coins e) = entry_coins e \<and>
     (entry_fresh e \<longrightarrow> below = None) \<and>
     (\<not> entry_dirty e \<longrightarrow> coins_opt (Some (entry_coins e)) = below) \<and>
     (\<not> entry_fresh e \<longrightarrow> present)"

definition cache_inv ::
    "('b \<Rightarrow> u256 \<Rightarrow> CCoins option) \<Rightarrow> ('b \<Rightarrow> u256 \<Rightarrow> bool) \<Rightarrow> ('b \<Rightarrow> bool) \<Rightarrow> 'b CCoinsViewCache \<Rightarrow> bool" where
  "cache_inv babs bpresent binv c \<longleftrightarrow>
     binv (cache_base c) \<and> distinct (map fst (cache_coins c)) \<and>
     (\<forall>k e. map_of (cache_coins c) k = Some e \<longrightarrow>
        entry_inv (babs (cache_base c) k) (bpresent (cache_base c) k) e)"

text \<open>The entry that a batch leaves behind, as a function of the two entries.\<close>

definition batch_new :: "CCoinsCacheEntry \<Rightarrow> CCoinsCacheEntry option \<Rightarrow> CCoinsCacheEntry option" where
  "batch_new e us =
     (if entry_dirty e then
        (case us of
           None \<Rightarrow>
             if IsPruned (entry_coins e) then None
             else Some \<lparr>entry_coins = entry_coins e, entry_dirty = True, entry_fresh = True\<rparr>
         | Some u \<Rightarrow>
             if entry_fresh u \<and> IsPruned (entry_coins e) then None
             else Some (u\<lparr>entry_coins := entry_coins e, entry_dirty := True\<rparr>))
      else us)"

lemma batch_entry_Some:
  assumes "distinct (map fst cc)" "entry_dirty e \<and> \<not> entry_fresh e \<longrightarrow> map_of cc k \<noteq> None"
  obtains cc' where "batch_entry k e cc = Some cc'" "distinct (map fst cc')"
    "map_of cc' = (map_of cc)(k := batch_new e (map_of cc k))"
proof (cases "entry_dirty e")
  case True
  show thesis
  proof (cases "map_of cc k")
    case None
    then show thesis
      using that assms True
      by (cases "IsPruned (entry_coins e)")
        (auto simp: batch_entry_def batch_new_def update_conv' distinct_update fun_upd_idem)
  next
    case (Some u)
    then show thesis
      using that assms True
      by (cases "entry_fresh u \<and> IsPruned (entry_coins e)")
        (auto simp: batch_entry_def batch_new_def update_conv' delete_conv' distinct_update distinct_delete)
  qed
qed (use that assms in \<open>auto simp: batch_entry_def batch_new_def\<close>)

lemma batch_loop_Some:
  assumes "distinct (map fst m)" "distinct (map fst cc)"
    "\<forall>k e. map_of m k = Some e \<longrightarrow> entry_dirty e \<and> \<not> entry_fresh e \<longrightarrow> map_of cc k \<noteq> None"
  shows "\<exists>cc'. batch_loop m cc = Some cc' \<and> distinct (map fst cc') \<and>
    (\<forall>k. map_of cc' k = (case map_of m k of None \<Rightarrow> map_of cc k | Some e \<Rightarrow> batch_new e (map_of cc k)))"
  using assms
proof (induction m arbitrary: cc)
  case (Cons p m)
  obtain k e where p: "p = (k, e)" by (cases p)
  have "entry_dirty e \<and> \<not> entry_fresh e \<longrightarrow> map_of cc k \<noteq> None"
    using Cons.prems(3) p by (auto dest: spec [of _ k])
  then obtain cc1 where c1: "batch_entry k e cc = Some cc1" "distinct (map fst cc1)"
    "map_of cc1 = (map_of cc)(k := batch_new e (map_of cc k))"
    using batch_entry_Some [OF Cons.prems(2)] by metis
  have k: "map_of m k = None" using Cons.prems(1) p by (simp add: map_of_eq_None_iff)
  have "\<exists>cc'. batch_loop m cc1 = Some cc' \<and> distinct (map fst cc') \<and>
    (\<forall>k. map_of cc' k = (case map_of m k of None \<Rightarrow> map_of cc1 k | Some e \<Rightarrow> batch_new e (map_of cc1 k)))"
  proof (rule Cons.IH [OF _ c1(2)])
    show "distinct (map fst m)" using Cons.prems(1) by simp
    show "\<forall>k e. map_of m k = Some e \<longrightarrow> entry_dirty e \<and> \<not> entry_fresh e \<longrightarrow> map_of cc1 k \<noteq> None"
      using Cons.prems(3) p k c1(3) by (auto split: if_splits)
  qed
  then obtain cc' where c2: "batch_loop m cc1 = Some cc'" "distinct (map fst cc')"
    "\<And>j. map_of cc' j = (case map_of m j of None \<Rightarrow> map_of cc1 j | Some e \<Rightarrow> batch_new e (map_of cc1 j))"
    by blast
  have "map_of cc' j = (case map_of (p # m) j of None \<Rightarrow> map_of cc j | Some e \<Rightarrow> batch_new e (map_of cc j))" for j
    using c2(3) [of j] p k c1(3) by (cases "j = k") (auto split: option.splits)
  then show ?case using p c1(1) c2(1,2) by auto
qed simp

context coins_view
begin

abbreviation cinv :: "'s CCoinsViewCache \<Rightarrow> bool" where
  "cinv \<equiv> cache_inv abs present inv"

abbreviation cabs :: "'s CCoinsViewCache \<Rightarrow> u256 \<Rightarrow> CCoins option" where
  "cabs \<equiv> cache_abs abs"

lemma cache_new_inv: "inv b \<Longrightarrow> cinv (cache_new b)"
  by (simp add: cache_inv_def cache_new_def)

lemma cache_new_abs: "cabs (cache_new b) = abs b"
  by (intro ext) (simp add: cache_abs_def cache_new_def)

text \<open>Replacing the base by what a lookup in it left changes nothing.\<close>

lemma base_get:
  assumes "cinv c" "get (cache_base c) t = (r, b)"
  shows "cinv (c\<lparr>cache_base := b\<rparr>)" "cabs (c\<lparr>cache_base := b\<rparr>) = cabs c"
    "coins_opt r = abs b t" "abs b = abs (cache_base c)"
proof -
  have i: "inv (cache_base c)" using assms(1) by (simp add: cache_inv_def)
  show a: "abs b = abs (cache_base c)" by (rule get_abs [OF i assms(2)])
  show "coins_opt r = abs b t" using get_result [OF i assms(2)] a by simp
  show "cabs (c\<lparr>cache_base := b\<rparr>) = cabs c" by (intro ext) (simp add: cache_abs_def a split: option.split)
  show "cinv (c\<lparr>cache_base := b\<rparr>)"
    using assms(1) get_inv [OF i assms(2)] get_present_mono [OF assms(2)]
    by (auto simp: cache_inv_def entry_inv_def a)
qed

lemma cinv_update:
  assumes "cinv c" "entry_inv (abs (cache_base c) t) (present (cache_base c) t) e"
  shows "cinv (c\<lparr>cache_coins := AList.update t e (cache_coins c)\<rparr>)"
  using assms by (auto simp: cache_inv_def update_conv' distinct_update)

lemma cabs_update:
  "cabs (c\<lparr>cache_coins := AList.update t e (cache_coins c)\<rparr>) =
     (cabs c)(t := coins_opt (Some (entry_coins e)))"
  by (intro ext) (simp add: cache_abs_def update_conv' split: option.split)

lemma fetch_correct:
  assumes "cinv c" "FetchCoins get c t = (r, c')"
  shows "cinv c'" "cabs c' = cabs c" "coins_opt r = cabs c t" "r = Some x \<Longrightarrow> Cleanup x = x"
    "r = Some x \<Longrightarrow> cache_present c' t" "cache_present c k \<Longrightarrow> cache_present c' k"
proof -
  have "cinv c' \<and> cabs c' = cabs c \<and> coins_opt r = cabs c t \<and> (r = Some x \<longrightarrow> Cleanup x = x) \<and>
    (r = Some x \<longrightarrow> cache_present c' t) \<and> (cache_present c k \<longrightarrow> cache_present c' k)"
  proof (cases "map_of (cache_coins c) t")
    case (Some e)
    then show ?thesis
      using assms by (auto simp: FetchCoins_def cache_abs_def cache_inv_def entry_inv_def cache_present_def)
  next
    case None
    obtain r' b where g: "get (cache_base c) t = (r', b)" by (cases "get (cache_base c) t")
    note bg = base_get [OF assms(1) g]
    have ab: "cabs c t = abs b t" using None bg(4) by (simp add: cache_abs_def)
    show ?thesis
    proof (cases r')
      case n: None
      then show ?thesis
        using assms(2) None g bg ab by (auto simp: FetchCoins_def cache_present_def)
    next
      case (Some y)
      let ?e = "\<lparr>entry_coins = y, entry_dirty = False, entry_fresh = IsPruned y\<rparr>"
      let ?c = "c\<lparr>cache_base := b\<rparr>"
      have i: "inv (cache_base c)" using assms(1) by (simp add: cache_inv_def)
      have y: "Cleanup y = y" "present b t" using get_clean [OF i] get_present g Some by auto
      have e: "coins_opt (Some y) = abs b t" using bg(3) Some by simp
      have c': "r = Some y" "c' = ?c\<lparr>cache_coins := AList.update t ?e (cache_coins ?c)\<rparr>"
        using assms(2) None g Some by (auto simp: FetchCoins_def)
      have "entry_inv (abs (cache_base ?c) t) (present (cache_base ?c) t) ?e"
        using y e by (auto simp: entry_inv_def coins_opt_def)
      from cinv_update [OF bg(1) this] cabs_update [where c = ?c and t = t and e = ?e] show ?thesis
        using c' bg(2) e ab y by (auto simp: cache_present_def update_conv' fun_upd_idem)
    qed
  qed
  then show "cinv c'" "cabs c' = cabs c" "coins_opt r = cabs c t" "r = Some x \<Longrightarrow> Cleanup x = x"
    "r = Some x \<Longrightarrow> cache_present c' t" "cache_present c k \<Longrightarrow> cache_present c' k" by blast+
qed

lemma batch_correct:
  assumes "cinv c" "batch_ok (cabs c) (cache_present c) m"
  shows "\<exists>c'. cache_BatchWrite c m h = Some c' \<and> cinv c' \<and> cabs c' = apply_batch (cabs c) m"
proof -
  let ?cc = "cache_coins c"
  have d: "distinct (map fst m)" "distinct (map fst ?cc)"
    using assms by (auto simp: batch_ok_def cache_inv_def)
  have p: "\<forall>k e. map_of m k = Some e \<longrightarrow> entry_dirty e \<and> \<not> entry_fresh e \<longrightarrow> map_of ?cc k \<noteq> None"
    using assms(2) by (auto simp: batch_ok_def cache_present_def)
  from batch_loop_Some [OF d p] obtain cc' where b: "batch_loop m ?cc = Some cc'" "distinct (map fst cc')"
    "\<And>k. map_of cc' k = (case map_of m k of None \<Rightarrow> map_of ?cc k | Some e \<Rightarrow> batch_new e (map_of ?cc k))"
    by blast
  let ?c' = "c\<lparr>cache_coins := cc', cache_hashBlock := h\<rparr>"
  have key: "cabs ?c' k = apply_batch (cabs c) m k \<and>
      (\<forall>e. map_of cc' k = Some e \<longrightarrow> entry_inv (abs (cache_base c) k) (present (cache_base c) k) e)" for k
  proof -
    have u: "entry_inv (abs (cache_base c) k) (present (cache_base c) k) u" if "map_of ?cc k = Some u" for u
      using assms(1) that by (simp add: cache_inv_def)
    show ?thesis
    proof (cases "map_of m k")
      case None
      then show ?thesis using b(3) [of k] u by (auto simp: cache_abs_def apply_batch_def split: option.split)
    next
      case (Some e)
      then have e: "Cleanup (entry_coins e) = entry_coins e" "entry_fresh e \<longrightarrow> cabs c k = None"
        "entry_dirty e \<and> \<not> entry_fresh e \<longrightarrow> map_of ?cc k \<noteq> None"
        using assms(2) by (auto simp: batch_ok_def cache_present_def)
      show ?thesis
        using b(3) [of k] Some u e
        by (cases "map_of ?cc k"; cases "entry_dirty e"; cases "IsPruned (entry_coins e)"; cases "entry_fresh e")
          (auto simp: cache_abs_def apply_batch_def batch_new_def entry_inv_def coins_opt_def split: if_splits)
    qed
  qed
  have "cinv ?c'" using assms(1) b(2) key by (auto simp: cache_inv_def)
  moreover have "cabs ?c' = apply_batch (cabs c) m" using key by blast
  ultimately show ?thesis using b(1) by (simp add: cache_BatchWrite_def)
qed

end

locale cached_view = coins_view

sublocale cached_view \<subseteq> cache: coins_view "cache_GetCoins get" cache_BatchWrite "cache_abs abs"
  cache_present "cache_inv abs present inv"
proof (unfold_locales, goal_cases)
  case (1 s t r s')
  then show ?case using fetch_correct(1) by (simp add: cache_GetCoins_def)
next
  case (2 s t r s')
  then show ?case using fetch_correct(2) by (simp add: cache_GetCoins_def)
next
  case (3 s t r s')
  then show ?case using fetch_correct(3) by (simp add: cache_GetCoins_def)
next
  case (4 s t c s')
  then show ?case using fetch_correct(4) by (simp add: cache_GetCoins_def)
next
  case (5 s t c s')
  then show ?case
    by (auto simp: cache_GetCoins_def FetchCoins_def cache_present_def update_conv' split: option.splits prod.splits)
next
  case (6 s t r s' k)
  then show ?case
    by (auto simp: cache_GetCoins_def FetchCoins_def cache_present_def update_conv' split: option.splits prod.splits)
next
  case (7 s m h)
  then show ?case by (rule batch_correct)
qed

text \<open>The unspent output at an outpoint.\<close>

definition unspent :: "(u256 \<Rightarrow> CCoins option) \<Rightarrow> COutPoint \<Rightarrow> CTxOut option" where
  "unspent A p =
     (case A (outpoint_hash p) of
        None \<Rightarrow> None
      | Some x \<Rightarrow>
          if IsAvailable x (unat (outpoint_n p)) then Some (coins_vout x ! unat (outpoint_n p)) else None)"

context coins_view
begin

lemma cinv_delete:
  assumes "cinv c"
  shows "cinv (c\<lparr>cache_coins := AList.delete t (cache_coins c)\<rparr>)"
  using assms by (auto simp: cache_inv_def delete_conv' distinct_delete)

lemma cabs_delete:
  "cabs (c\<lparr>cache_coins := AList.delete t (cache_coins c)\<rparr>) = (cabs c)(t := abs (cache_base c) t)"
  by (intro ext) (simp add: cache_abs_def delete_conv' split: option.split)

text \<open>
  The entry handed out by \<^verbatim>\<open>ModifyCoins\<close> has the coins of the view, or a pruned record
  where the view has none.
\<close>

lemma modify_entry_correct:
  assumes "cinv c" "modify_entry get c t = (e, c')"
  shows "cinv c' \<and> cabs c' = cabs c \<and> coins_opt (Some (entry_coins e)) = cabs c t \<and> entry_dirty e \<and>
    (entry_fresh e \<longrightarrow> abs (cache_base c') t = None) \<and>
    (\<not> entry_fresh e \<longrightarrow> present (cache_base c') t)"
proof (cases "map_of (cache_coins c) t")
  case (Some u)
  then show ?thesis
    using assms by (auto simp: modify_entry_def cache_inv_def entry_inv_def cache_abs_def)
next
  case None
  obtain r b where g: "get (cache_base c) t = (r, b)" by (cases "get (cache_base c) t")
  note bg = base_get [OF assms(1) g]
  have ab: "cabs c t = abs b t" using None bg(4) by (simp add: cache_abs_def)
  show ?thesis
  proof (cases r)
    case n: None
    then show ?thesis
      using assms(2) None g bg ab by (auto simp: modify_entry_def coins_opt_def)
  next
    case (Some y)
    have "present b t" using get_present g Some by auto
    then show ?thesis
      using assms(2) None g bg ab Some by (auto simp: modify_entry_def coins_opt_def split: if_splits)
  qed
qed

lemma release_entry_correct:
  assumes "cinv c" "entry_dirty e" "entry_fresh e \<longrightarrow> abs (cache_base c) t = None"
    "\<not> entry_fresh e \<longrightarrow> present (cache_base c) t"
  shows "cinv (release_entry t e c)"
    "cabs (release_entry t e c) = (cabs c)(t := coins_opt (Some (Cleanup (entry_coins e))))"
proof -
  let ?e = "e\<lparr>entry_coins := Cleanup (entry_coins e)\<rparr>"
  have i: "entry_inv (abs (cache_base c) t) (present (cache_base c) t) ?e"
    using assms by (simp add: entry_inv_def)
  show "cinv (release_entry t e c)"
    using cinv_update [OF assms(1) i] cinv_delete [OF assms(1)] by (simp add: release_entry_def)
  show "cabs (release_entry t e c) = (cabs c)(t := coins_opt (Some (Cleanup (entry_coins e))))"
    using assms(3) cabs_update [where c = c and t = t and e = ?e] cabs_delete [where c = c and t = t]
    by (auto simp: release_entry_def coins_opt_def)
qed

lemma modify_correct:
  assumes "cinv c" "ModifyCoins get c t f = (r, c')"
  shows "cinv c'"
    and "\<exists>x y. coins_opt (Some x) = cabs c t \<and> f x = (r, y) \<and>
      cabs c' = (cabs c)(t := coins_opt (Some (Cleanup y)))"
proof -
  obtain e c1 where m: "modify_entry get c t = (e, c1)" by (cases "modify_entry get c t")
  obtain y where f: "f (entry_coins e) = (r, y)" and c': "c' = release_entry t (e\<lparr>entry_coins := y\<rparr>) c1"
    using assms(2) m by (auto simp: ModifyCoins_def split: prod.splits)
  note mc = modify_entry_correct [OF assms(1) m]
  have "cinv c'" "cabs c' = (cabs c1)(t := coins_opt (Some (Cleanup y)))"
    using release_entry_correct [of c1 "e\<lparr>entry_coins := y\<rparr>" t] mc c' by auto
  then show "cinv c'" "\<exists>x y. coins_opt (Some x) = cabs c t \<and> f x = (r, y) \<and>
      cabs c' = (cabs c)(t := coins_opt (Some (Cleanup y)))"
    using mc f by auto
qed

text \<open>Flushing moves the coins into the base and changes nothing that can be observed.\<close>

lemma flush_correct:
  assumes "cinv c"
  obtains c' where "Flush batch c = Some c'" "cinv c'" "cabs c' = cabs c"
    "abs (cache_base c') = cabs c" "cache_coins c' = []"
proof -
  have "batch_ok (abs (cache_base c)) (present (cache_base c)) (cache_coins c)"
    using assms by (auto simp: batch_ok_def cache_inv_def entry_inv_def)
  then obtain b where b: "batch (cache_base c) (cache_coins c) (cache_hashBlock c) = Some b" "inv b"
      "abs b = apply_batch (abs (cache_base c)) (cache_coins c)"
    using batch_write [of "cache_base c" "cache_coins c" "cache_hashBlock c"] assms
    by (fastforce simp: cache_inv_def)
  have "apply_batch (abs (cache_base c)) (cache_coins c) k = cabs c k" for k
    using assms by (auto simp: apply_batch_def cache_abs_def cache_inv_def entry_inv_def split: option.split)
  then have a: "abs b = cabs c" using b(3) by auto
  let ?c = "c\<lparr>cache_base := b, cache_coins := []\<rparr>"
  have "cinv ?c" using b(2) by (simp add: cache_inv_def)
  moreover have "cabs ?c = cabs c" using a by (intro ext) (simp add: cache_abs_def)
  ultimately show thesis using that [of ?c] b(1) a by (simp add: Flush_def)
qed

lemma have_coins_correct:
  assumes "cinv c" "cache_HaveCoins get c t = (b, c')"
  shows "cinv c'" "cabs c' = cabs c" "b \<longleftrightarrow> cabs c t \<noteq> None"
proof -
  obtain r where f: "FetchCoins get c t = (r, c')"
    using assms(2) by (auto simp: cache_HaveCoins_def split: prod.splits option.splits)
  note fc = fetch_correct [OF assms(1) f]
  show "cinv c'" "cabs c' = cabs c" by (rule fc)+
  show "b \<longleftrightarrow> cabs c t \<noteq> None"
  proof (cases r)
    case None
    then show ?thesis using assms(2) f fc(3) by (auto simp: cache_HaveCoins_def coins_opt_def)
  next
    case (Some x)
    have "IsPruned x \<longleftrightarrow> coins_vout x = []" using IsPruned_iff_Nil [of x] fc(4) [OF Some] by simp
    moreover have "b \<longleftrightarrow> coins_vout x \<noteq> []" using assms(2) f Some by (simp add: cache_HaveCoins_def)
    ultimately show ?thesis using fc(3) [symmetric] Some by (simp add: coins_opt_def)
  qed
qed

lemma output_for_correct:
  assumes "cinv c" "GetOutputFor get c txin = (r, c')"
  shows "cinv c'" "cabs c' = cabs c" "r = unspent (cabs c) (txin_prevout txin)"
proof -
  let ?p = "txin_prevout txin"
  obtain r' where f: "FetchCoins get c (outpoint_hash ?p) = (r', c')"
    using assms(2) by (auto simp: GetOutputFor_def split: prod.splits option.splits if_splits)
  note fc = fetch_correct [OF assms(1) f]
  show "cinv c'" "cabs c' = cabs c" by (rule fc)+
  show "r = unspent (cabs c) ?p"
  proof (cases r')
    case None
    then show ?thesis using assms(2) f fc(3) [symmetric] by (simp add: GetOutputFor_def unspent_def coins_opt_def)
  next
    case (Some x)
    then show ?thesis
      using assms(2) f fc(3) [symmetric] IsPruned_iff_available [of x]
      by (auto simp: GetOutputFor_def unspent_def coins_opt_def)
  qed
qed

lemma have_inputs_loop_correct:
  "cinv c \<Longrightarrow> HaveInputs_loop get c vin = (b, c') \<Longrightarrow>
     cinv c' \<and> cabs c' = cabs c \<and> b = (\<forall>txin \<in> set vin. unspent (cabs c) (txin_prevout txin) \<noteq> None)"
proof (induction vin arbitrary: c)
  case (Cons txin vin)
  let ?p = "txin_prevout txin"
  obtain r c1 where f: "FetchCoins get c (outpoint_hash ?p) = (r, c1)"
    by (cases "FetchCoins get c (outpoint_hash ?p)")
  note fc = fetch_correct [OF Cons.prems(1) f]
  obtain q c2 where g: "GetOutputFor get c txin = (q, c2)" by (cases "GetOutputFor get c txin")
  have "q \<noteq> None \<longleftrightarrow> (\<exists>x. r = Some x \<and> IsAvailable x (unat (outpoint_n ?p)))"
    using f g by (auto simp: GetOutputFor_def split: option.splits if_splits)
  then have u: "unspent (cabs c) ?p \<noteq> None \<longleftrightarrow> (\<exists>x. r = Some x \<and> IsAvailable x (unat (outpoint_n ?p)))"
    using output_for_correct(3) [OF Cons.prems(1) g] by simp
  show ?case
  proof (cases "unspent (cabs c) ?p = None")
    case True
    then have "b = False" "c' = c1"
      using Cons.prems(2) f u by (auto split: option.splits if_splits)
    then show ?thesis using fc True by auto
  next
    case False
    then have "HaveInputs_loop get c1 vin = (b, c')" using Cons.prems(2) f u by auto
    from Cons.IH [OF fc(1) this] fc(2) False show ?thesis by auto
  qed
qed auto

lemma have_inputs_correct:
  assumes "cinv c" "HaveInputs get c tx = (b, c')"
  shows "cinv c'" "cabs c' = cabs c"
    "b \<longleftrightarrow> IsCoinBase tx \<or> (\<forall>txin \<in> set (tx_vin tx). unspent (cabs c) (txin_prevout txin) \<noteq> None)"
  using assms have_inputs_loop_correct [of c "tx_vin tx" b c'] by (auto simp: HaveInputs_def split: if_splits)

lemma value_in_loop_correct:
  assumes "cinv c" "\<forall>txin \<in> set vin. unspent (cabs c) (txin_prevout txin) \<noteq> None"
    "0 \<le> n" "\<forall>txin \<in> set vin. 0 \<le> txout_nValue (the (unspent (cabs c) (txin_prevout txin)))"
    "n + sum_list (map (\<lambda>txin. txout_nValue (the (unspent (cabs c) (txin_prevout txin)))) vin) < 2 ^ 63"
  shows "\<exists>c'. GetValueIn_loop get c vin n =
      (Some (n + sum_list (map (\<lambda>txin. txout_nValue (the (unspent (cabs c) (txin_prevout txin)))) vin)), c') \<and>
    cinv c' \<and> cabs c' = cabs c"
  using assms
proof (induction vin arbitrary: c n)
  case (Cons txin vin)
  obtain r c1 where g: "GetOutputFor get c txin = (r, c1)" by (cases "GetOutputFor get c txin")
  note oc = output_for_correct [OF Cons.prems(1) g]
  obtain out where out: "r = Some out" "unspent (cabs c) (txin_prevout txin) = Some out"
    using oc(3) Cons.prems(2) by auto
  let ?s = "sum_list (map (\<lambda>txin. txout_nValue (the (unspent (cabs c) (txin_prevout txin)))) vin)"
  have s: "0 \<le> ?s" using Cons.prems(4) by (intro sum_list_nonneg_prefix) auto
  have b: "0 \<le> txout_nValue out" "n + txout_nValue out + ?s < 2 ^ 63"
    using Cons.prems(4,5) out by auto
  have w: "swrap 64 (n + txout_nValue out) = n + txout_nValue out"
    using b s Cons.prems(3) by (intro swrap_id) (auto simp: in_sint_def)
  have "\<exists>c'. GetValueIn_loop get c1 vin (n + txout_nValue out) =
      (Some (n + txout_nValue out +
        sum_list (map (\<lambda>txin. txout_nValue (the (unspent (cabs c1) (txin_prevout txin)))) vin)), c') \<and>
    cinv c' \<and> cabs c' = cabs c1"
    by (rule Cons.IH) (use Cons.prems oc b in auto)
  then show ?case using g out w oc(2) by (auto simp: algebra_simps)
qed simp

end

section \<open>The views of the program\<close>

text \<open>The database holds no pruned records and no duplicate keys.\<close>

definition DB_inv :: "CCoinsViewDB \<Rightarrow> bool" where
  "DB_inv db \<longleftrightarrow>
     distinct (map fst (db_coins db)) \<and>
     (\<forall>k c. map_of (db_coins db) k = Some c \<longrightarrow> \<not> IsPruned c \<and> Cleanup c = c)"

definition DB_abs :: "CCoinsViewDB \<Rightarrow> u256 \<Rightarrow> CCoins option" where
  "DB_abs db = map_of (db_coins db)"

lemma DB_batch_fold:
  assumes "distinct (map fst m)" "distinct (map fst d)"
    "\<forall>k c. map_of d k = Some c \<longrightarrow> \<not> IsPruned c \<and> Cleanup c = c"
    "\<forall>k e. map_of m k = Some e \<longrightarrow> Cleanup (entry_coins e) = entry_coins e"
  shows "let d' = fold (\<lambda>(k, e) m. if entry_dirty e then BatchWriteCoins k (entry_coins e) m else m) m d in
    distinct (map fst d') \<and> (\<forall>k c. map_of d' k = Some c \<longrightarrow> \<not> IsPruned c \<and> Cleanup c = c) \<and>
    map_of d' = apply_batch (map_of d) m"
  using assms
proof (induction m arbitrary: d)
  case Nil
  then show ?case by (auto simp: apply_batch_def fun_eq_iff)
next
  case (Cons p m)
  obtain k e where p: "p = (k, e)" by (cases p)
  let ?d = "if entry_dirty e then BatchWriteCoins k (entry_coins e) d else d"
  have k: "map_of m k = None" using Cons.prems(1) p by (simp add: map_of_eq_None_iff)
  have e: "Cleanup (entry_coins e) = entry_coins e" using Cons.prems(4) p by (auto dest: spec [of _ k])
  have d: "map_of ?d = (if entry_dirty e then (map_of d)(k := coins_opt (Some (entry_coins e))) else map_of d)"
    by (auto simp: BatchWriteCoins_def update_conv' delete_conv' coins_opt_def)
  have d1: "distinct (map fst ?d)"
    using Cons.prems(2) by (auto simp: BatchWriteCoins_def distinct_update distinct_delete)
  have d2: "\<forall>k c. map_of ?d k = Some c \<longrightarrow> \<not> IsPruned c \<and> Cleanup c = c"
    unfolding d using Cons.prems(3) e by (auto simp: coins_opt_def)
  have d4: "\<forall>k e. map_of m k = Some e \<longrightarrow> Cleanup (entry_coins e) = entry_coins e"
    using Cons.prems(4) p k by (metis map_of_Cons_code(2) option.distinct(1))
  have "apply_batch (map_of ?d) m = apply_batch (map_of d) (p # m)"
    using k p by (auto simp: fun_eq_iff apply_batch_def d split: option.splits)
  with Cons.IH [OF _ d1 d2 d4] Cons.prems(1) show ?case by (simp add: p Let_def)
qed

interpretation db: cached_view DB_GetCoins DB_BatchWrite DB_abs "\<lambda>_ _. True" DB_inv
proof (unfold_locales, goal_cases)
  case (3 s t r s')
  then show ?case
    by (auto simp: DB_GetCoins_def DB_abs_def DB_inv_def coins_opt_def split: option.splits)
next
  case (4 s t c s')
  then show ?case by (auto simp: DB_GetCoins_def DB_inv_def)
next
  case (7 s m h)
  then show ?case
    using DB_batch_fold [of m "db_coins s"]
    by (auto simp: DB_BatchWrite_def DB_inv_def DB_abs_def batch_ok_def Let_def)
qed (auto simp: DB_GetCoins_def)

text \<open>
  The cache on top of the database (\<^verbatim>\<open>pcoinsTip\<close>) and the cache on top of that one, in which
  a block is connected.
\<close>

type_synonym CoinsTip = "CCoinsViewDB CCoinsViewCache"
type_synonym BlockView = "CoinsTip CCoinsViewCache"

abbreviation tip_get :: "CoinsTip getter" where
  "tip_get \<equiv> cache_GetCoins DB_GetCoins"

abbreviation tip_abs :: "CoinsTip \<Rightarrow> u256 \<Rightarrow> CCoins option" where
  "tip_abs \<equiv> cache_abs DB_abs"

abbreviation tip_inv :: "CoinsTip \<Rightarrow> bool" where
  "tip_inv \<equiv> cache_inv DB_abs (\<lambda>_ _. True) DB_inv"

interpretation tip: cached_view tip_get cache_BatchWrite tip_abs cache_present tip_inv
  by unfold_locales

abbreviation view_get :: "BlockView getter" where
  "view_get \<equiv> cache_GetCoins tip_get"

abbreviation view_abs :: "BlockView \<Rightarrow> u256 \<Rightarrow> CCoins option" where
  "view_abs \<equiv> cache_abs tip_abs"

abbreviation view_inv :: "BlockView \<Rightarrow> bool" where
  "view_inv \<equiv> cache_inv tip_abs cache_present tip_inv"

section \<open>Properties\<close>

text \<open>A database with one unspent record, under two empty caches.\<close>

definition sample_coins :: CCoins where
  "sample_coins =
     \<lparr>coins_fCoinBase = False, coins_fCoinStake = False,
      coins_vout = [\<lparr>txout_nValue = 50, txout_scriptPubKey = [OP_1]\<rparr>], coins_nHeight = 5, coins_nVersion = 1\<rparr>"

definition sample_db :: CCoinsViewDB where
  "sample_db = \<lparr>db_coins = [(7, sample_coins)], db_best = 3\<rparr>"

definition sample_view :: BlockView where
  "sample_view = cache_new (cache_new sample_db)"

lemma sample_coins_simps [simp]: "\<not> IsPruned sample_coins" "Cleanup sample_coins = sample_coins"
  by (simp_all add: sample_coins_def IsPruned_def Cleanup_def Cleanup_vout_def CTxOut_IsNull_def)

lemma sample_view_inv [simp]: "view_inv sample_view"
  unfolding sample_view_def
  by (intro db.cache.cache_new_inv db.cache_new_inv) (simp add: DB_inv_def sample_db_def)

lemma sample_view_abs [simp]: "view_abs sample_view = [7 \<mapsto> sample_coins]"
  by (simp add: sample_view_def db.cache.cache_new_abs db.cache_new_abs DB_abs_def sample_db_def)

text \<open>
  A lookup in a stack of two caches over the database answers with the coins of the set
  that the stack represents, and filling the caches on the way changes nothing of that set.
\<close>

theorem coins_lookup_transparent:
  assumes "view_inv c" "FetchCoins tip_get c t = (r, c')"
  shows "coins_opt r = view_abs c t \<and> view_abs c' = view_abs c \<and> view_inv c'"
  using db.cache.fetch_correct(1-3) [OF assms] by blast

theorem coins_lookup_transparent_witness:
  "coins_opt (fst (FetchCoins tip_get sample_view 7)) = Some sample_coins"
  using coins_lookup_transparent [of sample_view 7 "fst (FetchCoins tip_get sample_view 7)"
      "snd (FetchCoins tip_get sample_view 7)"]
  by simp

text \<open>
  \<^verbatim>\<open>ModifyCoins\<close> hands out the coins of the key as the set has them, a pruned record where it
  has none, and when the handle is released the set differs at that key only, where it has the
  cleaned-up result, or nothing if all outputs are spent.
\<close>

theorem modify_coins_updates:
  assumes "view_inv c" "ModifyCoins tip_get c t f = (r, c')"
  shows "view_inv c' \<and>
    (\<exists>x y. coins_opt (Some x) = view_abs c t \<and> f x = (r, y) \<and>
      view_abs c' = (view_abs c)(t := coins_opt (Some (Cleanup y))))"
  using db.cache.modify_correct [OF assms] by blast

theorem modify_coins_updates_witness:
  "view_abs (snd (ModifyCoins tip_get sample_view 7 (\<lambda>x. ((), CCoins_Clear x)))) = Map.empty"
proof -
  let ?m = "ModifyCoins tip_get sample_view 7 (\<lambda>x. ((), CCoins_Clear x))"
  have "?m = (fst ?m, snd ?m)" by (rule prod.collapse [symmetric])
  from modify_coins_updates [OF sample_view_inv this] show ?thesis
    by (auto simp: CCoins_Clear_def CCoins_empty_def coins_opt_def IsPruned_def Cleanup_def Cleanup_vout_def)
qed

text \<open>
  C10: \<^verbatim>\<open>Flush\<close> never fails its assertions and writes the cache through: afterwards the view below
  represents the set that the cache represented, the cache is empty, and the set seen through
  it is the same. The fresh and dirty flags lose no update and resurrect no spent coin.
\<close>

theorem flush_writes_through:
  assumes "view_inv c"
  shows "\<exists>c'. Flush cache_BatchWrite c = Some c' \<and> view_inv c' \<and> view_abs c' = view_abs c \<and>
    tip_abs (cache_base c') = view_abs c \<and> cache_coins c' = []"
  using db.cache.flush_correct [OF assms] by metis

theorem flush_writes_through_witness:
  "\<exists>c'. Flush cache_BatchWrite sample_view = Some c' \<and> tip_abs (cache_base c') = [7 \<mapsto> sample_coins]"
  using flush_writes_through [of sample_view] by auto

text \<open>
  \<^verbatim>\<open>HaveInputs\<close> holds exactly when the transaction is a coinbase or every input spends an
  output that is unspent in the set.
\<close>

theorem have_inputs_unspent:
  assumes "view_inv c" "HaveInputs tip_get c tx = (b, c')"
  shows "(b \<longleftrightarrow> IsCoinBase tx \<or> (\<forall>txin \<in> set (tx_vin tx). unspent (view_abs c) (txin_prevout txin) \<noteq> None)) \<and>
    view_abs c' = view_abs c \<and> view_inv c'"
  using db.cache.have_inputs_correct [OF assms] by blast

theorem have_inputs_unspent_witness: "fst (HaveInputs tip_get sample_view sample_tx)"
proof -
  let ?h = "HaveInputs tip_get sample_view sample_tx"
  have "?h = (fst ?h, snd ?h)" by (rule prod.collapse [symmetric])
  from have_inputs_unspent [OF sample_view_inv this] show ?thesis
    by (simp add: sample_tx_def unspent_def IsAvailable_def sample_coins_def CTxOut_IsNull_def)
qed

end
