(* ===== verification/CoinsSer.thy ===== *)
theory CoinsSer
  imports Coins Compressor
begin

unbundle bit_operations_syntax

text \<open>
  The stored form of coins records and of undo data (coins.h, undo.h): the header code, the
  bitmask of unspent outputs with its count of non-zero bytes, and the compressed outputs.
  \<open>fully_valid\<close> and \<open>decompress\<close> are the curve operations that output compression uses.
\<close>

section \<open>The bitmask of unspent outputs\<close>

text \<open>
  The loop of \<^verbatim>\<open>CCoins::CalcMaskSize\<close> over the outputs from the third on, eight at a time; the
  result is the number of bytes up to the last used one, and the number of non-zero bytes.
\<close>

function CalcMaskSize_loop :: "nat \<Rightarrow> CTxOut list \<Rightarrow> nat \<Rightarrow> nat \<Rightarrow> nat \<times> nat" where
  "CalcMaskSize_loop b outs nLastUsedByte nNonzeroBytes =
     (if outs = [] then (nLastUsedByte, nNonzeroBytes)
      else if list_all CTxOut_IsNull (take 8 outs)
      then CalcMaskSize_loop (b + 1) (drop 8 outs) nLastUsedByte nNonzeroBytes
      else CalcMaskSize_loop (b + 1) (drop 8 outs) (b + 1) (nNonzeroBytes + 1))"
  by pat_completeness auto
termination
  by (relation "measure (\<lambda>(b, outs, l, z). length outs)") auto

declare CalcMaskSize_loop.simps [simp del]

definition CalcMaskSize :: "CTxOut list \<Rightarrow> nat \<times> nat" where
  "CalcMaskSize vout = CalcMaskSize_loop 0 (drop 2 vout) 0 0"

text \<open>One byte of the mask, from the outputs at its eight places.\<close>

fun chAvail_loop :: "CTxOut list \<Rightarrow> nat \<Rightarrow> byte \<Rightarrow> byte" where
  "chAvail_loop [] i chAvail = chAvail"
| "chAvail_loop (out # outs) i chAvail =
     (if i < 8
      then chAvail_loop outs (i + 1) (if \<not> CTxOut_IsNull out then chAvail OR push_bit i 1 else chAvail)
      else chAvail)"

definition chAvail :: "CTxOut list \<Rightarrow> nat \<Rightarrow> byte" where
  "chAvail vout b = chAvail_loop (drop (2 + b * 8) vout) 0 0"

section \<open>Coins records\<close>

text \<open>
  \<^verbatim>\<open>VARINT\<close> of a signed integer. Up to \<^verbatim>\<open>0x7F\<close>, and so for every negative number, one byte is
  written; above, signed and unsigned arithmetic agree.
\<close>

definition WriteVarInt_int :: "int \<Rightarrow> byte list" where
  "WriteVarInt_int n =
     (if n \<le> 0x7F then [word_of_int (n AND 0x7F)] else WriteVarInt (word_of_int n :: u32))"

definition ReadVarInt_int :: "int reader" where
  "ReadVarInt_int = rbind ReadVarInt (\<lambda>n :: u32. rreturn (sint n))"

definition fFirst :: "CTxOut list \<Rightarrow> bool" where
  "fFirst vout \<longleftrightarrow> length vout > 0 \<and> \<not> CTxOut_IsNull (vout ! 0)"

definition fSecond :: "CTxOut list \<Rightarrow> bool" where
  "fSecond vout \<longleftrightarrow> length vout > 1 \<and> \<not> CTxOut_IsNull (vout ! 1)"

definition header_code :: "nat \<Rightarrow> CCoins \<Rightarrow> nat \<Rightarrow> u32" where
  "header_code factor c nMaskCode =
     (let vout = coins_vout c in
      word_of_nat factor * (word_of_nat nMaskCode - (if fFirst vout \<or> fSecond vout then 0 else 1)) +
      (if coins_fCoinBase c then 1 else 0) + (if coins_fCoinStake c then 2 else 0) +
      (if fFirst vout then 4 else 0) + (if fSecond vout then 8 else 0))"

text \<open>\<^verbatim>\<open>CCoins::GetSerializeSize\<close>, with its factor 8; \<open>None\<close> is the failed assertion.\<close>

definition GetSerializeSize_CCoins :: "(valtype \<Rightarrow> bool) \<Rightarrow> CCoins \<Rightarrow> nat option" where
  "GetSerializeSize_CCoins fully_valid c =
     (let vout = coins_vout c; (nMaskSize, nMaskCode) = CalcMaskSize vout in
      if \<not> (fFirst vout \<or> fSecond vout \<or> nMaskCode \<noteq> 0) then None
      else Some
        (length (WriteVarInt_int (coins_nVersion c)) + length (WriteVarInt (header_code 8 c nMaskCode)) +
         nMaskSize +
         sum_list (map (\<lambda>out. length (ser_CTxOutCompressor fully_valid out))
           (filter (\<lambda>out. \<not> CTxOut_IsNull out) vout)) +
         length (WriteVarInt_int (coins_nHeight c))))"

definition ser_CCoins :: "(valtype \<Rightarrow> bool) \<Rightarrow> CCoins \<Rightarrow> byte list option" where
  "ser_CCoins fully_valid c =
     (let vout = coins_vout c; (nMaskSize, nMaskCode) = CalcMaskSize vout in
      if \<not> (fFirst vout \<or> fSecond vout \<or> nMaskCode \<noteq> 0) then None
      else Some
        (WriteVarInt_int (coins_nVersion c) @ WriteVarInt (header_code 16 c nMaskCode) @
         map (chAvail vout) [0..<nMaskSize] @
         concat (map (ser_CTxOutCompressor fully_valid) (filter (\<lambda>out. \<not> CTxOut_IsNull out) vout)) @
         WriteVarInt_int (coins_nHeight c)))"

text \<open>The loop that reads the mask: it ends after the given number of non-zero bytes.\<close>

definition mask_bits :: "byte \<Rightarrow> bool list" where
  "mask_bits ch = map (\<lambda>p. ch AND push_bit p 1 \<noteq> 0) [0..<8]"

fun read_mask :: "nat \<Rightarrow> byte list \<Rightarrow> read_error + bool list \<times> byte list" where
  "read_mask 0 s = Inr ([], s)"
| "read_mask (Suc nMaskCode) [] = Inl EndOfData"
| "read_mask (Suc nMaskCode) (ch # s) =
     (case read_mask (if ch \<noteq> 0 then nMaskCode else Suc nMaskCode) s of
        Inl e \<Rightarrow> Inl e
      | Inr (vAvail, s') \<Rightarrow> Inr (mask_bits ch @ vAvail, s'))"

fun read_outs :: "CTxOut reader \<Rightarrow> bool list \<Rightarrow> CTxOut list reader" where
  "read_outs rd [] = rreturn []"
| "read_outs rd (f # vAvail) =
     rbind (if f then rd else rreturn CTxOut_null) (\<lambda>out.
     rbind (read_outs rd vAvail) (\<lambda>outs. rreturn (out # outs)))"

definition unser_CCoins :: "(valtype \<Rightarrow> valtype option) \<Rightarrow> CCoins reader" where
  "unser_CCoins decompress =
     rbind ReadVarInt_int (\<lambda>nVersion.
     rbind ReadVarInt (\<lambda>nCode :: u32.
     rbind (read_mask (unat (nCode div 16) + (if nCode AND 12 \<noteq> 0 then 0 else 1))) (\<lambda>mask.
     rbind (read_outs (unser_CTxOutCompressor decompress) ((nCode AND 4 \<noteq> 0) # (nCode AND 8 \<noteq> 0) # mask)) (\<lambda>vout.
     rbind ReadVarInt_int (\<lambda>nHeight.
       rreturn (Cleanup \<lparr>coins_fCoinBase = nCode AND 1 \<noteq> 0, coins_fCoinStake = nCode AND 2 \<noteq> 0,
         coins_vout = vout, coins_nHeight = nHeight, coins_nVersion = nVersion\<rparr>))))))"

section \<open>Undo records\<close>

definition undo_code :: "CTxInUndo \<Rightarrow> u32" where
  "undo_code undo =
     word_of_nat (undo_nHeight undo) * 4 + (if undo_fCoinBase undo then 2 else 0) +
     (if undo_fCoinStake undo then 1 else 0)"

definition ser_CTxInUndo :: "(valtype \<Rightarrow> bool) \<Rightarrow> CTxInUndo \<Rightarrow> byte list" where
  "ser_CTxInUndo fully_valid undo =
     WriteVarInt (undo_code undo) @
     (if undo_nHeight undo > 0 then WriteVarInt_int (undo_nVersion undo) else []) @
     ser_CTxOutCompressor fully_valid (undo_txout undo)"

definition unser_CTxInUndo :: "(valtype \<Rightarrow> valtype option) \<Rightarrow> CTxInUndo reader" where
  "unser_CTxInUndo decompress =
     rbind ReadVarInt (\<lambda>nCode :: u32.
     rbind (if unat (drop_bit 2 nCode) > 0 then ReadVarInt_int else rreturn 0) (\<lambda>nVersion.
     rbind (unser_CTxOutCompressor decompress) (\<lambda>txout.
       rreturn \<lparr>undo_txout = txout, undo_fCoinBase = nCode AND 2 \<noteq> 0, undo_fCoinStake = nCode AND 1 \<noteq> 0,
         undo_nHeight = unat (drop_bit 2 nCode), undo_nVersion = nVersion\<rparr>)))"

definition ser_CBlockUndo :: "(valtype \<Rightarrow> bool) \<Rightarrow> CTxUndo list \<Rightarrow> byte list" where
  "ser_CBlockUndo fully_valid vtxundo = ser_vector (ser_vector (ser_CTxInUndo fully_valid)) vtxundo"

definition unser_CBlockUndo :: "(valtype \<Rightarrow> valtype option) \<Rightarrow> CTxUndo list reader" where
  "unser_CBlockUndo decompress = unser_vector (unser_vector (unser_CTxInUndo decompress))"

section \<open>Signed variable-length integers are read back\<close>

lemma ReadVarInt_int_Write:
  assumes "0 \<le> n" "n < 2 ^ 31"
  shows "ReadVarInt_int (WriteVarInt_int n @ s) = Inr (n, s)"
proof -
  have u: "sint (word_of_int n :: u32) = n"
    using assms by (simp add: sint_sbintrunc' signed_take_bit_int_eq_self)
  have "WriteVarInt_int n = WriteVarInt (word_of_int n :: u32)"
  proof (cases "n \<le> 0x7F")
    case True
    have "uint (word_of_int n :: u32) = n"
      using assms by (simp add: uint_word_of_int mod_pos_pos_trivial)
    then have "word_of_int n \<le> (0x7F :: u32)"
      using True by (simp add: word_le_def)
    then have "WriteVarInt (word_of_int n :: u32) = [ucast (word_of_int n AND 0x7F :: u32)]"
      by (simp add: WriteVarInt_def varint_tmp.simps)
    also have "ucast (word_of_int n AND 0x7F :: u32) = (word_of_int (n AND 0x7F) :: byte)"
      by (rule bit_word_eqI) (auto simp: bit_simps)
    finally show ?thesis using True by (simp add: WriteVarInt_int_def)
  qed (simp add: WriteVarInt_int_def)
  then show ?thesis
    using varint32.unser_ser [of "word_of_int n" s] u by (simp add: ReadVarInt_int_def rbind_def rreturn_def)
qed

section \<open>The bitmask is read back\<close>

lemma bit_chAvail_loop:
  "bit (chAvail_loop outs i ch) p \<longleftrightarrow>
     bit ch p \<or> (i \<le> p \<and> p < 8 \<and> p - i < length outs \<and> \<not> CTxOut_IsNull (outs ! (p - i)))"
proof (induction outs i ch rule: chAvail_loop.induct)
  case (2 out outs i ch)
  show ?case
  proof (cases "i < 8")
    case True
    then have "bit (chAvail_loop (out # outs) i ch) p \<longleftrightarrow>
        bit (if \<not> CTxOut_IsNull out then ch OR push_bit i 1 else ch) p \<or>
        (i + 1 \<le> p \<and> p < 8 \<and> p - (i + 1) < length outs \<and> \<not> CTxOut_IsNull (outs ! (p - (i + 1))))"
      using "2.IH" by simp
    also have "bit (if \<not> CTxOut_IsNull out then ch OR push_bit i 1 else ch) p \<longleftrightarrow>
        bit ch p \<or> (p = i \<and> \<not> CTxOut_IsNull out)"
      using True by (auto simp: bit_simps)
    finally show ?thesis using True by (cases "p = i") (auto simp: nth_Cons' not_le)
  qed auto
qed simp

definition avail :: "CTxOut list \<Rightarrow> nat \<Rightarrow> bool" where
  "avail vout i \<longleftrightarrow> i < length vout \<and> \<not> CTxOut_IsNull (vout ! i)"

lemma bit_chAvail: "bit (chAvail vout b) p \<longleftrightarrow> p < 8 \<and> avail vout (2 + b * 8 + p)"
  by (auto simp: chAvail_def bit_chAvail_loop avail_def less_diff_conv add.commute)

lemma mask_bits_chAvail: "mask_bits (chAvail vout b) = map (avail vout) [2 + b * 8..<2 + (b + 1) * 8]"
proof (rule nth_equalityI)
  fix i assume "i < length (mask_bits (chAvail vout b))"
  then have i: "i < 8" by (simp add: mask_bits_def)
  have "chAvail vout b AND push_bit i 1 \<noteq> 0 \<longleftrightarrow> bit (chAvail vout b) i"
    by (simp add: bit_iff_and_push_bit_not_eq_0)
  with i show "mask_bits (chAvail vout b) ! i = map (avail vout) [2 + b * 8..<2 + (b + 1) * 8] ! i"
    by (simp add: mask_bits_def bit_chAvail)
qed (simp add: mask_bits_def)

lemma mask_bits_chAvails:
  "concat (map (mask_bits \<circ> chAvail vout) [0..<n]) = map (avail vout) [2..<2 + n * 8]"
proof (induction n)
  case (Suc n)
  have "[2..<2 + Suc n * 8] = [2..<2 + n * 8] @ [2 + n * 8..<2 + (n + 1) * 8]"
    using upt_add_eq_append [of 2 "2 + n * 8" 8] by (simp add: algebra_simps)
  with Suc show ?case by (simp add: mask_bits_chAvail)
qed simp

lemma read_mask_bytes:
  assumes "bs = [] \<or> last bs \<noteq> 0" "length (filter (\<lambda>b. b \<noteq> 0) bs) = k"
  shows "read_mask k (bs @ s) = Inr (concat (map mask_bits bs), s)"
  using assms
proof (induction bs arbitrary: k)
  case (Cons b bs)
  have "k \<noteq> 0"
  proof
    assume "k = 0"
    with Cons.prems(2) have "\<forall>x \<in> set (b # bs). x = 0" by (simp add: filter_empty_conv split: if_splits)
    with Cons.prems(1) show False by (metis last_in_set list.distinct(1))
  qed
  then obtain k' where k: "k = Suc k'" by (cases k) auto
  have "read_mask (if b \<noteq> 0 then k' else Suc k') (bs @ s) = Inr (concat (map mask_bits bs), s)"
  proof (rule Cons.IH)
    show "bs = [] \<or> last bs \<noteq> 0" using Cons.prems(1) by (cases bs) auto
    show "length (filter (\<lambda>b. b \<noteq> 0) bs) = (if b \<noteq> 0 then k' else Suc k')"
      using Cons.prems(2) k by (simp split: if_splits)
  qed
  then show ?case using k by simp
qed simp

lemma chAvail_eq_0: "chAvail vout b = 0 \<longleftrightarrow> (\<forall>p < 8. \<not> avail vout (2 + b * 8 + p))"
  by (auto simp: bit_eq_iff bit_chAvail)

lemma chunk_null_iff:
  "list_all CTxOut_IsNull (take 8 (drop (2 + b * 8) vout)) \<longleftrightarrow> chAvail vout b = 0"
  unfolding chAvail_eq_0 by (auto simp: list_all_length avail_def less_diff_conv add.commute)

text \<open>The mask up to byte \<open>l\<close> is what a scan up to byte \<open>b\<close> has found.\<close>

definition mask_inv :: "CTxOut list \<Rightarrow> nat \<Rightarrow> nat \<Rightarrow> nat \<Rightarrow> bool" where
  "mask_inv vout b l z \<longleftrightarrow>
     l \<le> b \<and> z = length (filter (\<lambda>i. chAvail vout i \<noteq> 0) [0..<l]) \<and>
     (l = 0 \<or> chAvail vout (l - 1) \<noteq> 0) \<and> (\<forall>i. l \<le> i \<longrightarrow> i < b \<longrightarrow> chAvail vout i = 0)"

lemma mask_inv_step:
  assumes "mask_inv vout b l z"
  shows "if chAvail vout b = 0 then mask_inv vout (b + 1) l z else mask_inv vout (b + 1) (b + 1) (z + 1)"
proof -
  have l: "l \<le> b" and z: "z = length (filter (\<lambda>i. chAvail vout i \<noteq> 0) [0..<l])"
    and n: "\<forall>i. l \<le> i \<longrightarrow> i < b \<longrightarrow> chAvail vout i = 0"
    using assms by (auto simp: mask_inv_def)
  have "[0..<b] = [0..<l] @ [l..<b]" using upt_add_eq_append [of 0 l "b - l"] l by simp
  moreover have "filter (\<lambda>i. chAvail vout i \<noteq> 0) [l..<b] = []" using n by (simp add: filter_empty_conv)
  ultimately have "filter (\<lambda>i. chAvail vout i \<noteq> 0) [0..<b] = filter (\<lambda>i. chAvail vout i \<noteq> 0) [0..<l]" by simp
  then show ?thesis
    using assms z by (auto simp: mask_inv_def less_Suc_eq)
qed

lemma CalcMaskSize_loop_inv:
  assumes "CalcMaskSize_loop b (drop (2 + b * 8) vout) l z = (l', z')" "mask_inv vout b l z"
  shows "\<exists>b'. mask_inv vout b' l' z' \<and> length vout \<le> 2 + b' * 8"
  using assms
proof (induction "length vout - (2 + b * 8)" arbitrary: b l z rule: less_induct)
  case less
  note step = mask_inv_step [OF less.prems(2)]
  show ?case
  proof (cases "length vout \<le> 2 + b * 8")
    case True
    then show ?thesis using less.prems by (auto simp: CalcMaskSize_loop.simps)
  next
    case False
    have d: "drop 8 (drop (2 + b * 8) vout) = drop (2 + (b + 1) * 8) vout" by (simp add: add.commute)
    have m: "length vout - (2 + (b + 1) * 8) < length vout - (2 + b * 8)" using False by simp
    have eq: "CalcMaskSize_loop b (drop (2 + b * 8) vout) l z =
      (if chAvail vout b = 0 then CalcMaskSize_loop (b + 1) (drop (2 + (b + 1) * 8) vout) l z
       else CalcMaskSize_loop (b + 1) (drop (2 + (b + 1) * 8) vout) (b + 1) (z + 1))"

      using False by (subst CalcMaskSize_loop.simps) (simp only: chunk_null_iff d, simp)
    show ?thesis
    proof (cases "chAvail vout b = 0")
      case True
      then show ?thesis using less.hyps [OF m, of l z] less.prems(1) step eq by simp
    next
      case False
      then show ?thesis using less.hyps [OF m, of "b + 1" "z + 1"] less.prems(1) step eq by simp
    qed
  qed
qed

lemma CalcMaskSize_spec:
  assumes "CalcMaskSize vout = (n, z)"
  defines "bs \<equiv> map (chAvail vout) [0..<n]"
  shows "bs = [] \<or> last bs \<noteq> 0" "length (filter (\<lambda>b. b \<noteq> 0) bs) = z"
    "2 + n * 8 \<le> i \<Longrightarrow> \<not> avail vout i"
proof -
  have "mask_inv vout 0 0 0" by (simp add: mask_inv_def)
  with assms(1) obtain b where b: "mask_inv vout b n z" "length vout \<le> 2 + b * 8"
    using CalcMaskSize_loop_inv [of 0 vout 0 0 n z] by (auto simp: CalcMaskSize_def)
  show "bs = [] \<or> last bs \<noteq> 0"
    using b(1) by (cases n) (auto simp: bs_def mask_inv_def)
  show "length (filter (\<lambda>b. b \<noteq> 0) bs) = z"
    using b(1) by (simp add: bs_def mask_inv_def filter_map comp_def)
  show "\<not> avail vout i" if i: "2 + n * 8 \<le> i"
  proof (cases "i < 2 + b * 8")
    case True
    define j where "j = (i - 2) div 8"
    have "n \<le> j" "j < b" using i True by (auto simp: j_def)
    then have "chAvail vout j = 0" using b(1) by (auto simp: mask_inv_def)
    moreover have "i = 2 + j * 8 + (i - 2) mod 8" "(i - 2) mod 8 < 8" using i by (simp_all add: j_def)
    ultimately show ?thesis unfolding chAvail_eq_0 by metis
  next
    case False
    then show ?thesis using b(2) by (simp add: avail_def)
  qed
qed

section \<open>The header code is read back\<close>

lemma code_bits:
  fixes nCode :: u32
  shows "nCode AND 1 \<noteq> 0 \<longleftrightarrow> odd (unat nCode)" "nCode AND 2 \<noteq> 0 \<longleftrightarrow> odd (unat nCode div 2)"
    "nCode AND 4 \<noteq> 0 \<longleftrightarrow> odd (unat nCode div 4)" "nCode AND 8 \<noteq> 0 \<longleftrightarrow> odd (unat nCode div 8)"
    "nCode AND 12 \<noteq> 0 \<longleftrightarrow> odd (unat nCode div 4) \<or> odd (unat nCode div 8)"
proof -
  have b: "bit nCode i \<longleftrightarrow> odd (unat nCode div 2 ^ i)" for i
    using bit_unsigned_iff [of nCode i, where ?'a = nat]
    by (auto simp: bit_iff_odd dest: bit_imp_le_length)
  have a: "bit nCode i \<longleftrightarrow> nCode AND push_bit i 1 \<noteq> 0" for i
    by (rule bit_iff_and_push_bit_not_eq_0)
  show "nCode AND 1 \<noteq> 0 \<longleftrightarrow> odd (unat nCode)" using a [of 0] b [of 0] by simp
  show "nCode AND 2 \<noteq> 0 \<longleftrightarrow> odd (unat nCode div 2)" using a [of 1] b [of 1] by simp
  show f: "nCode AND 4 \<noteq> 0 \<longleftrightarrow> odd (unat nCode div 4)" using a [of 2] b [of 2] by simp
  show e: "nCode AND 8 \<noteq> 0 \<longleftrightarrow> odd (unat nCode div 8)" using a [of 3] b [of 3] by simp
  have "(12 :: u32) = 4 OR 8" by simp
  then have "nCode AND 12 \<noteq> 0 \<longleftrightarrow> nCode AND 4 \<noteq> 0 \<or> nCode AND 8 \<noteq> 0"
    by (simp only: bit.conj_disj_distrib or_eq_0_iff) simp
  with e f show "nCode AND 12 \<noteq> 0 \<longleftrightarrow> odd (unat nCode div 4) \<or> odd (unat nCode div 8)" by blast
qed

lemma header_code_bits:
  assumes "z < 2 ^ 28" "fFirst (coins_vout c) \<or> fSecond (coins_vout c) \<or> z \<noteq> 0"
  defines "nCode \<equiv> header_code 16 c z"
  shows "unat (nCode div 16) + (if nCode AND 12 \<noteq> 0 then 0 else 1) = z"
    "nCode AND 1 \<noteq> 0 \<longleftrightarrow> coins_fCoinBase c" "nCode AND 2 \<noteq> 0 \<longleftrightarrow> coins_fCoinStake c"
    "nCode AND 4 \<noteq> 0 \<longleftrightarrow> fFirst (coins_vout c)" "nCode AND 8 \<noteq> 0 \<longleftrightarrow> fSecond (coins_vout c)"
proof -
  let ?m = "z - (if fFirst (coins_vout c) \<or> fSecond (coins_vout c) then 0 else 1)"
  let ?k = "(if coins_fCoinBase c then 1 else 0) + (if coins_fCoinStake c then 2 else 0) +
      (if fFirst (coins_vout c) then 4 else 0) + (if fSecond (coins_vout c) then 8 else 0) :: nat"
  have "nCode = word_of_nat (16 * ?m + ?k)"
    using assms(2) by (auto simp: nCode_def header_code_def Let_def of_nat_diff)
  moreover have "16 * m + k < 2 ^ 32" if "m < 2 ^ 28" "k < 16" for m k :: nat
    using that by simp
  then have "16 * ?m + ?k < 2 ^ 32" using assms(1) by auto
  ultimately have u: "unat nCode = 16 * ?m + ?k" by (simp only: unat_of_nat take_bit_nat_eq_self_iff) simp
  have d: "unat (nCode div 16) = unat nCode div 16" by (simp add: unat_div)
  show "nCode AND 1 \<noteq> 0 \<longleftrightarrow> coins_fCoinBase c" unfolding code_bits u by auto
  show "nCode AND 2 \<noteq> 0 \<longleftrightarrow> coins_fCoinStake c" unfolding code_bits u by auto presburger+
  show f: "nCode AND 4 \<noteq> 0 \<longleftrightarrow> fFirst (coins_vout c)" unfolding code_bits u by auto presburger+
  show e: "nCode AND 8 \<noteq> 0 \<longleftrightarrow> fSecond (coins_vout c)" unfolding code_bits u by auto presburger+
  have "nCode AND 12 \<noteq> 0 \<longleftrightarrow> fFirst (coins_vout c) \<or> fSecond (coins_vout c)"
    using e f unfolding code_bits by simp
  then show "unat (nCode div 16) + (if nCode AND 12 \<noteq> 0 then 0 else 1) = z"
    using assms(2) by (auto simp: d u)
qed

section \<open>Coins records are read back\<close>

lemma read_outs_ser:
  assumes "\<And>out s. out \<in> set vout \<Longrightarrow> \<not> CTxOut_IsNull out \<Longrightarrow> rd (ser out @ s) = Inr (out, s)"
    and "\<And>out. out \<in> set vout \<Longrightarrow> CTxOut_IsNull out \<Longrightarrow> out = CTxOut_null"
  shows "read_outs rd (map (\<lambda>out. \<not> CTxOut_IsNull out) vout @ replicate k False)
      (concat (map ser (filter (\<lambda>out. \<not> CTxOut_IsNull out) vout)) @ s) =
    Inr (vout @ replicate k CTxOut_null, s)"
  using assms
proof (induction vout)
  case Nil
  show ?case by (induction k) (simp_all add: rbind_def rreturn_def)
next
  case (Cons out vout)
  have IH: "read_outs rd (map (\<lambda>out. \<not> CTxOut_IsNull out) vout @ replicate k False)
      (concat (map ser (filter (\<lambda>out. \<not> CTxOut_IsNull out) vout)) @ s) =
    Inr (vout @ replicate k CTxOut_null, s)"
    using Cons by simp
  show ?case
  proof (cases "CTxOut_IsNull out")
    case True
    then have "out = CTxOut_null" using Cons.prems(2) [of out] by simp
    with True IH show ?thesis by (simp add: rbind_def rreturn_def)
  next
    case False
    with IH Cons.prems(1) [of out] show ?thesis by (simp add: rbind_def rreturn_def)
  qed
qed

lemma avail_list:
  assumes "length vout \<le> m"
  shows "map (avail vout) [0..<m] = map (\<lambda>out. \<not> CTxOut_IsNull out) vout @ replicate (m - length vout) False"
  using assms by (intro nth_equalityI) (simp_all add: nth_append avail_def)

lemma Cleanup_vout_append_null: "Cleanup_vout (vout @ replicate k CTxOut_null) = Cleanup_vout vout"
proof -
  have "dropWhile CTxOut_IsNull (replicate k CTxOut_null @ xs) = dropWhile CTxOut_IsNull xs" for xs
    by (induction k) (simp_all add: CTxOut_IsNull_def CTxOut_null_def)
  then show ?thesis by (simp add: Cleanup_vout_def)
qed

text \<open>A record as the database stores it: cleaned up, not pruned, and its fields in range.\<close>

definition valid_out :: "CTxOut \<Rightarrow> bool" where
  "valid_out out \<longleftrightarrow>
     length (txout_scriptPubKey out) + 6 < 2 ^ 32 \<and> 0 \<le> txout_nValue out \<and> txout_nValue out \<le> 2 ^ 64 div 9"

definition valid_CCoins :: "CCoins \<Rightarrow> bool" where
  "valid_CCoins c \<longleftrightarrow>
     \<not> IsPruned c \<and> Cleanup c = c \<and> length (coins_vout c) < 2 ^ 28 \<and>
     (\<forall>out \<in> set (coins_vout c). if CTxOut_IsNull out then out = CTxOut_null else valid_out out) \<and>
     0 \<le> coins_nVersion c \<and> coins_nVersion c < 2 ^ 31 \<and> 0 \<le> coins_nHeight c \<and> coins_nHeight c < 2 ^ 31"

lemma Cleanup_vout_eq: "Cleanup c = c \<Longrightarrow> Cleanup_vout (coins_vout c) = coins_vout c"
  by (metis CCoins.select_convs(3) CCoins.surjective CCoins.update_convs(3) Cleanup_def)

lemma Cleanup_length:
  assumes "Cleanup_vout vout = vout" "\<And>i. m \<le> i \<Longrightarrow> \<not> avail vout i"
  shows "length vout \<le> m"
proof (rule ccontr)
  assume "\<not> length vout \<le> m"
  then have l: "m \<le> length vout - 1" "vout \<noteq> []" by auto
  then have "CTxOut_IsNull (last vout)" using assms(2) [of "length vout - 1"] by (simp add: avail_def last_conv_nth)
  moreover obtain w x where v: "vout = w @ [x]" using l(2) by (cases vout rule: rev_cases) auto
  ultimately have "Cleanup_vout vout = Cleanup_vout w" by (simp add: Cleanup_vout_def)
  moreover have "length (Cleanup_vout w) \<le> length w"
    by (simp add: Cleanup_vout_def length_dropWhile_le [of _ "rev w", simplified])
  ultimately show False using assms(1) v by simp
qed

lemma CCoins_pruned_mask:
  assumes "\<not> IsPruned c" "CalcMaskSize (coins_vout c) = (n, z)"
  shows "fFirst (coins_vout c) \<or> fSecond (coins_vout c) \<or> z \<noteq> 0"
proof (rule ccontr)
  let ?v = "coins_vout c"
  assume a: "\<not> (fFirst ?v \<or> fSecond ?v \<or> z \<noteq> 0)"
  have "\<not> avail ?v i" for i
  proof -
    consider "i = 0" | "i = 1" | "2 \<le> i" by linarith
    then show ?thesis
    proof cases
      case 3
      have "map (chAvail ?v) [0..<n] = []"

      proof (rule ccontr)
        assume "map (chAvail ?v) [0..<n] \<noteq> []"
        then have "last (map (chAvail ?v) [0..<n]) \<in> set (filter (\<lambda>b. b \<noteq> 0) (map (chAvail ?v) [0..<n]))"
          using CalcMaskSize_spec(1) [OF assms(2)] last_in_set [of "map (chAvail ?v) [0..<n]"] by simp
        then show False using CalcMaskSize_spec(2) [OF assms(2)] a by (metis empty_iff length_0_conv list.set(1))
      qed
      then have "n = 0" by simp
      then show ?thesis using CalcMaskSize_spec(3) [OF assms(2), of i] 3 by simp
    qed (use a in \<open>auto simp: avail_def fFirst_def fSecond_def\<close>)
  qed
  then show False using assms(1) by (auto simp: IsPruned_def avail_def list_all_length)
qed

lemma CalcMaskSize_less:
  assumes "CalcMaskSize vout = (n, z)"
  shows "z \<le> length vout"
proof -
  have "z \<le> n" using CalcMaskSize_spec(2) [OF assms] by (metis length_filter_le length_map length_upt minus_nat.diff_0)
  moreover have "n \<le> length vout"
  proof (cases n)
    case (Suc m)
    then have "chAvail vout m \<noteq> 0" using CalcMaskSize_spec(1) [OF assms] by simp
    then obtain p where "avail vout (2 + m * 8 + p)" unfolding chAvail_eq_0 by blast
    then show ?thesis using Suc by (simp add: avail_def)
  qed simp
  ultimately show ?thesis by simp
qed

lemma unser_ser_CCoins:
  assumes k: "key_compression fully_valid decompress" and c: "valid_CCoins c"
  obtains bs where "ser_CCoins fully_valid c = Some bs" "unser_CCoins decompress (bs @ s) = Inr (c, s)"
proof -
  let ?v = "coins_vout c" and ?ser = "ser_CTxOutCompressor fully_valid"
  obtain n z where m: "CalcMaskSize ?v = (n, z)" by (cases "CalcMaskSize ?v")
  note spec = CalcMaskSize_spec [OF m]
  have p: "\<not> IsPruned c" and cl: "Cleanup_vout ?v = ?v" and l: "length ?v < 2 ^ 28"
    using c Cleanup_vout_eq by (auto simp: valid_CCoins_def)
  have z: "fFirst ?v \<or> fSecond ?v \<or> z \<noteq> 0" by (rule CCoins_pruned_mask [OF p m])
  have "z < 2 ^ 28" using CalcMaskSize_less [OF m] l by simp
  note code = header_code_bits [OF this z]
  let ?bs = "WriteVarInt_int (coins_nVersion c) @ WriteVarInt (header_code 16 c z) @ map (chAvail ?v) [0..<n] @
    concat (map ?ser (filter (\<lambda>out. \<not> CTxOut_IsNull out) ?v)) @ WriteVarInt_int (coins_nHeight c)"
  have len: "length ?v \<le> 2 + n * 8" by (rule Cleanup_length [OF cl spec(3)])
  have av: "avail ?v 0 = fFirst ?v" "avail ?v 1 = fSecond ?v" by (auto simp: avail_def fFirst_def fSecond_def)
  have "fFirst ?v # fSecond ?v # concat (map mask_bits (map (chAvail ?v) [0..<n])) = map (avail ?v) [0..<2 + n * 8]"
  proof -
    have "[0..<2 + n * 8] = 0 # 1 # [2..<2 + n * 8]"
      by (simp only: upt_conv_Cons [of 0] upt_conv_Cons [of "Suc 0"] One_nat_def numeral_2_eq_2 add_Suc zero_less_Suc Suc_less_eq)
    then show ?thesis using av mask_bits_chAvails [of ?v n] by simp
  qed
  then have a: "fFirst ?v # fSecond ?v # concat (map mask_bits (map (chAvail ?v) [0..<n])) =
      map (\<lambda>out. \<not> CTxOut_IsNull out) ?v @ replicate (2 + n * 8 - length ?v) False"
    by (simp only: avail_list [OF len])
  have rd: "unser_CTxOutCompressor decompress (?ser out @ s) = Inr (out, s)"
    if "out \<in> set ?v" "\<not> CTxOut_IsNull out" for out s
    using that c by (intro unser_ser_CTxOutCompressor [OF k]) (auto simp: valid_CCoins_def valid_out_def)
  have nl: "out = CTxOut_null" if "out \<in> set ?v" "CTxOut_IsNull out" for out
    using that c by (auto simp: valid_CCoins_def)
  have ints: "0 \<le> coins_nVersion c" "coins_nVersion c < 2 ^ 31" "0 \<le> coins_nHeight c" "coins_nHeight c < 2 ^ 31"
    using c by (auto simp: valid_CCoins_def)
  have ro: "read_outs (unser_CTxOutCompressor decompress)
      (fFirst ?v # fSecond ?v # concat (map mask_bits (map (chAvail ?v) [0..<n])))
      (concat (map ?ser (filter (\<lambda>out. \<not> CTxOut_IsNull out) ?v)) @ t) =
    Inr (?v @ replicate (2 + n * 8 - length ?v) CTxOut_null, t)" for t
    unfolding a by (rule read_outs_ser [OF rd nl])
  have "unser_CCoins decompress (?bs @ s) = Inr (c, s)"
    using Cleanup_vout_append_null [of ?v "2 + n * 8 - length ?v"] cl
    by (simp add: unser_CCoins_def rbind_def rreturn_def ReadVarInt_int_Write [OF ints(1,2)] varint32.unser_ser code
        read_mask_bytes [OF spec(1,2)] ro [unfolded map_map] ReadVarInt_int_Write [OF ints(3,4)] Cleanup_def
        del: read_outs.simps)
  moreover have "ser_CCoins fully_valid c = Some ?bs" using m z by (auto simp: ser_CCoins_def Let_def)
  ultimately show thesis using that by blast
qed

section \<open>Undo data is read back\<close>

definition valid_CTxInUndo :: "CTxInUndo \<Rightarrow> bool" where
  "valid_CTxInUndo undo \<longleftrightarrow>
     valid_out (undo_txout undo) \<and> undo_nHeight undo < 2 ^ 30 \<and>
     (if undo_nHeight undo = 0 then undo_nVersion undo = 0
      else 0 \<le> undo_nVersion undo \<and> undo_nVersion undo < 2 ^ 31)"

lemma undo_code_bits:
  assumes "undo_nHeight undo < 2 ^ 30"
  shows "unat (drop_bit 2 (undo_code undo)) = undo_nHeight undo"
    "undo_code undo AND 2 \<noteq> 0 \<longleftrightarrow> undo_fCoinBase undo" "undo_code undo AND 1 \<noteq> 0 \<longleftrightarrow> undo_fCoinStake undo"
proof -
  let ?k = "(if undo_fCoinBase undo then 2 else 0) + (if undo_fCoinStake undo then 1 else 0) :: nat"
  have "undo_code undo = word_of_nat (undo_nHeight undo * 4 + ?k)" by (auto simp: undo_code_def)
  moreover have "undo_nHeight undo * 4 + ?k < 2 ^ 32" using assms by auto
  ultimately have u: "unat (undo_code undo) = undo_nHeight undo * 4 + ?k"
    by (simp only: unat_of_nat take_bit_nat_eq_self_iff) simp
  have "unat (drop_bit 2 (undo_code undo)) = unat (undo_code undo) div 4"
    by (simp only: unsigned_drop_bit_eq take_bit_nat_eq_self [OF unsigned_less]) (simp add: drop_bit_eq_div)
  also have "\<dots> = undo_nHeight undo" unfolding u by auto
  finally show "unat (drop_bit 2 (undo_code undo)) = undo_nHeight undo" .
  show "undo_code undo AND 2 \<noteq> 0 \<longleftrightarrow> undo_fCoinBase undo" unfolding code_bits u by auto
  show "undo_code undo AND 1 \<noteq> 0 \<longleftrightarrow> undo_fCoinStake undo" unfolding code_bits u by auto
qed

lemma decoder_CTxInUndo:
  assumes k: "key_compression fully_valid decompress"
  shows "vector_decoder (ser_CTxInUndo fully_valid) (unser_CTxInUndo decompress) valid_CTxInUndo"
proof (unfold_locales, goal_cases)
  case (1 undo s)
  then have h: "undo_nHeight undo < 2 ^ 30" and o: "valid_out (undo_txout undo)"
    by (simp_all add: valid_CTxInUndo_def)
  note code = undo_code_bits [OF h]
  have out: "unser_CTxOutCompressor decompress (ser_CTxOutCompressor fully_valid (undo_txout undo) @ s) = Inr (undo_txout undo, s)"
    using o by (intro unser_ser_CTxOutCompressor [OF k]) (auto simp: valid_out_def)
  show ?case
  proof (cases "undo_nHeight undo = 0")
    case True
    then show ?thesis
      using 1 code out
      by (simp add: ser_CTxInUndo_def unser_CTxInUndo_def rbind_def rreturn_def varint32.unser_ser valid_CTxInUndo_def)
  next
    case False
    then show ?thesis
      using 1 code out
      by (simp add: ser_CTxInUndo_def unser_CTxInUndo_def rbind_def rreturn_def varint32.unser_ser valid_CTxInUndo_def
          ReadVarInt_int_Write)
  qed
qed

definition valid_CBlockUndo :: "CTxUndo list \<Rightarrow> bool" where
  "valid_CBlockUndo vtxundo \<longleftrightarrow> valid_vector (valid_vector valid_CTxInUndo) vtxundo"

lemma unser_ser_CBlockUndo:
  assumes "key_compression fully_valid decompress" "valid_CBlockUndo vtxundo"
  shows "unser_CBlockUndo decompress (ser_CBlockUndo fully_valid vtxundo @ s) = Inr (vtxundo, s)"
proof -
  from vector_decoder.vec_decoder [OF vector_decoder.vec_decoder [OF decoder_CTxInUndo [OF assms(1)]]]
  have "decoder (ser_CBlockUndo fully_valid) (unser_CBlockUndo decompress) valid_CBlockUndo"
    by (simp add: vector_decoder_def ser_CBlockUndo_def [abs_def] unser_CBlockUndo_def valid_CBlockUndo_def [abs_def])
  from decoder.unser_ser [OF this assms(2)] show ?thesis .
qed

section \<open>Properties\<close>

text \<open>
  A coins record that is not pruned is written without failing the assertion, and reading
  the bytes gives the record back with its unspent outputs at their places, its marks, height
  and version, whatever follows: the bitmask with its count of non-zero bytes loses nothing.
\<close>

theorem coins_roundtrip:
  assumes "key_compression fully_valid decompress" "valid_CCoins c"
  shows "\<exists>bs. ser_CCoins fully_valid c = Some bs \<and> unser_CCoins decompress (bs @ s) = Inr (c, s)"
  using unser_ser_CCoins [OF assms] by metis

definition sparse_coins :: CCoins where
  "sparse_coins = sample_coins\<lparr>coins_fCoinStake := True,
     coins_vout := replicate 11 CTxOut_null @ coins_vout sample_coins\<rparr>"

theorem coins_roundtrip_witness:
  "\<exists>bs. ser_CCoins (\<lambda>k. k = sample_key) sparse_coins = Some bs \<and>
     unser_CCoins sample_decompress (bs @ [7]) = Inr (sparse_coins, [7])"
proof (rule coins_roundtrip [OF sample_key_compression])
  show "valid_CCoins sparse_coins"
    by (simp add: valid_CCoins_def sparse_coins_def sample_coins_def IsPruned_def Cleanup_def Cleanup_vout_def
        CTxOut_IsNull_def CTxOut_null_def valid_out_def)
qed

text \<open>
  The undo data of a block is read back as it was written, the marks and versions of fully
  spent records included.
\<close>

theorem block_undo_roundtrip:
  assumes "key_compression fully_valid decompress" "valid_CBlockUndo vtxundo"
  shows "unser_CBlockUndo decompress (ser_CBlockUndo fully_valid vtxundo @ s) = Inr (vtxundo, s)"
  by (rule unser_ser_CBlockUndo [OF assms])

definition sample_undo :: CTxInUndo where
  "sample_undo = \<lparr>undo_txout = \<lparr>txout_nValue = 50, txout_scriptPubKey = [OP_1]\<rparr>, undo_fCoinBase = False,
     undo_fCoinStake = True, undo_nHeight = 5, undo_nVersion = 1\<rparr>"

theorem block_undo_roundtrip_witness:
  "unser_CBlockUndo sample_decompress (ser_CBlockUndo (\<lambda>k. k = sample_key) [[sample_undo], []] @ [7]) =
     Inr ([[sample_undo], []], [7])"
  by (rule block_undo_roundtrip [OF sample_key_compression])
    (simp add: valid_CBlockUndo_def valid_vector_def valid_CTxInUndo_def valid_out_def sample_undo_def)

definition wide_coins :: CCoins where
  "wide_coins = sample_coins\<lparr>coins_vout := replicate 70 (coins_vout sample_coins ! 0)\<rparr>"

lemma wide_mask: "CalcMaskSize (coins_vout wide_coins) = (9, 9)"
  by (simp add: wide_coins_def sample_coins_def CalcMaskSize_def CalcMaskSize_loop.simps CTxOut_IsNull_def
      list_all_iff)

text \<open>
  \<^verbatim>\<open>GetSerializeSize\<close> multiplies the count of mask bytes by 8 where \<^verbatim>\<open>Serialize\<close> multiplies by
  16: for a record with 70 unspent outputs it announces one byte less than is written.
\<close>

theorem coins_size_announced_short:
  "map_option length (ser_CCoins fully_valid wide_coins) =
     map_option Suc (GetSerializeSize_CCoins fully_valid wide_coins)"
proof -
  have f: "fFirst (coins_vout wide_coins)" "fSecond (coins_vout wide_coins)"
    by (simp_all add: fFirst_def fSecond_def wide_coins_def sample_coins_def CTxOut_IsNull_def)
  have "header_code 16 wide_coins 9 = 156" "header_code 8 wide_coins 9 = 84"
    using f by (simp_all add: header_code_def) (simp_all add: wide_coins_def sample_coins_def)
  moreover have "length (WriteVarInt (156 :: u32)) = 2" "length (WriteVarInt (84 :: u32)) = 1"
    by (simp_all add: WriteVarInt_def varint_tmp.simps)
  ultimately show ?thesis
    using f by (simp add: ser_CCoins_def GetSerializeSize_CCoins_def wide_mask length_concat comp_def Let_def)
qed

end
