(* ===== verification/CoinsUpdate.thy ===== *)
theory CoinsUpdate
  imports Coins
begin

unbundle bit_operations_syntax

text \<open>
  Connecting a transaction to the set of unspent outputs and taking a block back
  (\<^verbatim>\<open>UpdateCoins\<close> and \<^verbatim>\<open>DisconnectBlock\<close> of main.cpp). The identifier of a transaction,
  \<^verbatim>\<open>CTransaction::GetHash\<close>, is an argument \<open>txid\<close> of the operations.
\<close>

section \<open>Connecting a transaction\<close>

definition spend_modify :: "nat \<Rightarrow> CCoins \<Rightarrow> CTxInUndo option \<times> CCoins" where
  "spend_modify n x =
     (case Spend x n of
        None \<Rightarrow> (None, x)
      | Some (x', undo) \<Rightarrow> (Some undo, x'))"

text \<open>The loop over the inputs; \<open>None\<close> is the failed \<^verbatim>\<open>assert(ret)\<close>.\<close>

fun spend_inputs :: "'b getter \<Rightarrow> CTxIn list \<Rightarrow> 'b CCoinsViewCache \<Rightarrow> (CTxUndo \<times> 'b CCoinsViewCache) option" where
  "spend_inputs bGet [] c = Some ([], c)"
| "spend_inputs bGet (txin # vin) c =
     (case ModifyCoins bGet c (outpoint_hash (txin_prevout txin))
             (spend_modify (unat (outpoint_n (txin_prevout txin)))) of
        (None, c') \<Rightarrow> None
      | (Some undo, c') \<Rightarrow>
          (case spend_inputs bGet vin c' of
             None \<Rightarrow> None
           | Some (undos, c'') \<Rightarrow> Some (undo # undos, c'')))"

definition UpdateCoins ::
    "'b getter \<Rightarrow> (CTransaction \<Rightarrow> u256) \<Rightarrow> CTransaction \<Rightarrow> int \<Rightarrow> 'b CCoinsViewCache \<Rightarrow>
      (CTxUndo \<times> 'b CCoinsViewCache) option" where
  "UpdateCoins bGet txid tx nHeight c =
     (case (if \<not> IsCoinBase tx then spend_inputs bGet (tx_vin tx) c else Some ([], c)) of
        None \<Rightarrow> None
      | Some (undos, c') \<Rightarrow>
          Some (undos, snd (ModifyCoins bGet c' (txid tx) (\<lambda>_. ((), FromTx tx nHeight)))))"

section \<open>Disconnecting a block\<close>

text \<open>
  The comparison of the outputs in the view with those of the block, and their removal; the
  truth value is the condition that keeps \<^verbatim>\<open>fClean\<close>.
\<close>

definition disconnect_outs :: "CTransaction \<Rightarrow> int \<Rightarrow> CCoins \<Rightarrow> bool \<times> CCoins" where
  "disconnect_outs tx nHeight outs =
     (let outs = ClearUnspendable outs;
          outsBlock = FromTx tx nHeight;
          outs = (if coins_nVersion outsBlock < 0 then outs\<lparr>coins_nVersion := coins_nVersion outsBlock\<rparr> else outs)
      in (CCoins_eq outs outsBlock, CCoins_Clear outs))"

text \<open>
  Restoring one output from its undo record. The record's \<^verbatim>\<open>fCoinStake\<close> is not copied back.
\<close>

definition undo_coins :: "nat \<Rightarrow> CTxInUndo \<Rightarrow> CCoins \<Rightarrow> bool \<times> CCoins" where
  "undo_coins n undo coins =
     (let fClean1 = (if undo_nHeight undo \<noteq> 0 then IsPruned coins else \<not> IsPruned coins);
          coins = (if undo_nHeight undo \<noteq> 0 then
                     (CCoins_Clear coins)\<lparr>coins_fCoinBase := undo_fCoinBase undo,
                       coins_nHeight := int (undo_nHeight undo), coins_nVersion := undo_nVersion undo\<rparr>
                   else coins);
          fClean2 = (\<not> IsAvailable coins n);
          vout = (if length (coins_vout coins) < n + 1
                  then coins_vout coins @ replicate (n + 1 - length (coins_vout coins)) CTxOut_null
                  else coins_vout coins)
      in (fClean1 \<and> fClean2, coins\<lparr>coins_vout := vout[n := undo_txout undo]\<rparr>))"

text \<open>The loop over the inputs of a transaction, which the caller passes in reverse order.\<close>

fun undo_inputs ::
    "'b getter \<Rightarrow> (CTxIn \<times> CTxInUndo) list \<Rightarrow> bool \<Rightarrow> 'b CCoinsViewCache \<Rightarrow> bool \<times> 'b CCoinsViewCache" where
  "undo_inputs bGet [] fClean c = (fClean, c)"
| "undo_inputs bGet ((txin, undo) # ps) fClean c =
     (case ModifyCoins bGet c (outpoint_hash (txin_prevout txin))
             (undo_coins (unat (outpoint_n (txin_prevout txin))) undo) of
        (clean, c') \<Rightarrow> undo_inputs bGet ps (fClean \<and> clean) c')"

text \<open>
  The errors of \<^verbatim>\<open>DisconnectBlock\<close>: the view is not at the block (an assertion), there is no
  undo data, it cannot be read, or it does not fit the block.
\<close>

datatype disconnect_error = NotBestBlock | NoUndoData | BlockInconsistent | TxInconsistent

definition disconnect_tx ::
    "'b getter \<Rightarrow> (CTransaction \<Rightarrow> u256) \<Rightarrow> int \<Rightarrow> CTransaction \<Rightarrow> CTxUndo \<Rightarrow> bool \<Rightarrow> 'b CCoinsViewCache \<Rightarrow>
      disconnect_error + bool \<times> 'b CCoinsViewCache" where
  "disconnect_tx bGet txid nHeight tx txundo fClean c =
     (case ModifyCoins bGet c (txid tx) (disconnect_outs tx nHeight) of (clean, c') \<Rightarrow>
        if \<not> IsCoinBase tx then
          if length txundo \<noteq> length (tx_vin tx) then Inl TxInconsistent
          else Inr (undo_inputs bGet (rev (zip (tx_vin tx) txundo)) (fClean \<and> clean) c')
        else Inr (fClean \<and> clean, c'))"

fun disconnect_txs ::
    "'b getter \<Rightarrow> (CTransaction \<Rightarrow> u256) \<Rightarrow> int \<Rightarrow> (CTransaction \<times> CTxUndo) list \<Rightarrow> bool \<Rightarrow>
      'b CCoinsViewCache \<Rightarrow> disconnect_error + bool \<times> 'b CCoinsViewCache" where
  "disconnect_txs bGet txid nHeight [] fClean c = Inr (fClean, c)"
| "disconnect_txs bGet txid nHeight ((tx, txundo) # ps) fClean c =
     (case disconnect_tx bGet txid nHeight tx txundo fClean c of
        Inl e \<Rightarrow> Inl e
      | Inr (fClean', c') \<Rightarrow> disconnect_txs bGet txid nHeight ps fClean' c')"

text \<open>
  The whole of \<^verbatim>\<open>DisconnectBlock\<close>. \<open>vtxundo\<close> is what \<^verbatim>\<open>ReadFromDisk\<close> returns, \<open>None\<close> where there
  is no undo data or reading fails; the first transaction of the block has no undo record.
\<close>

definition DisconnectBlock ::
    "'b getter \<Rightarrow> ('b \<Rightarrow> u256) \<Rightarrow> (CTransaction \<Rightarrow> u256) \<Rightarrow> CTransaction list \<Rightarrow> CTxUndo list option \<Rightarrow>
      u256 \<Rightarrow> u256 \<Rightarrow> int \<Rightarrow> 'b CCoinsViewCache \<Rightarrow> disconnect_error + bool \<times> 'b CCoinsViewCache" where
  "DisconnectBlock bGet bBest txid vtx undo hashBlock hashPrev nHeight c =
     (if hashBlock \<noteq> cache_GetBestBlock bBest c then Inl NotBestBlock
      else
        (case undo of
           None \<Rightarrow> Inl NoUndoData
         | Some vtxundo \<Rightarrow>
             if length vtxundo + 1 \<noteq> length vtx then Inl BlockInconsistent
             else
               (case disconnect_txs bGet txid nHeight (rev (zip vtx ([] # vtxundo))) True c of
                  Inl e \<Rightarrow> Inl e
                | Inr (fClean, c') \<Rightarrow> Inr (fClean, SetBestBlock hashPrev c'))))"

section \<open>The abstract specification\<close>

text \<open>Spending and restoring on the set of coins itself.\<close>

type_synonym utxo = "u256 \<Rightarrow> CCoins option"

definition abs_spend :: "COutPoint \<Rightarrow> utxo \<Rightarrow> (CTxInUndo \<times> utxo) option" where
  "abs_spend p A =
     (case A (outpoint_hash p) of
        None \<Rightarrow> None
      | Some x \<Rightarrow>
          (case Spend x (unat (outpoint_n p)) of
             None \<Rightarrow> None
           | Some (x', undo) \<Rightarrow> Some (undo, A(outpoint_hash p := coins_opt (Some x')))))"

fun abs_spends :: "CTxIn list \<Rightarrow> utxo \<Rightarrow> (CTxUndo \<times> utxo) option" where
  "abs_spends [] A = Some ([], A)"
| "abs_spends (txin # vin) A =
     (case abs_spend (txin_prevout txin) A of
        None \<Rightarrow> None
      | Some (undo, A') \<Rightarrow>
          (case abs_spends vin A' of
             None \<Rightarrow> None
           | Some (undos, A'') \<Rightarrow> Some (undo # undos, A'')))"

definition abs_update :: "(CTransaction \<Rightarrow> u256) \<Rightarrow> CTransaction \<Rightarrow> int \<Rightarrow> utxo \<Rightarrow> (CTxUndo \<times> utxo) option" where
  "abs_update txid tx nHeight A =
     (case (if \<not> IsCoinBase tx then abs_spends (tx_vin tx) A else Some ([], A)) of
        None \<Rightarrow> None
      | Some (undos, A') \<Rightarrow> Some (undos, A'(txid tx := coins_opt (Some (FromTx tx nHeight)))))"

lemma Cleanup_ClearUnspendable [simp]: "Cleanup (ClearUnspendable c) = ClearUnspendable c"
  by (simp add: ClearUnspendable_def)

lemma Cleanup_FromTx [simp]: "Cleanup (FromTx tx h) = FromTx tx h"
  by (simp add: FromTx_def)

lemma Spend_Cleanup: "Spend x n = Some (x', u) \<Longrightarrow> Cleanup x' = x'"
  by (auto simp: Spend_def Let_def split: if_splits)

lemma Spend_Some_iff: "Spend x n \<noteq> None \<longleftrightarrow> IsAvailable x n"
  by (auto simp: Spend_def IsAvailable_def Let_def)

context coins_view
begin

lemma spend_refines:
  assumes "cinv c" "abs_spend p (cabs c) = Some (u, A)"
  obtains c' where "ModifyCoins get c (outpoint_hash p) (spend_modify (unat (outpoint_n p))) = (Some u, c')"
    "cinv c'" "cabs c' = A"
proof -
  let ?f = "spend_modify (unat (outpoint_n p))"
  obtain r c' where m: "ModifyCoins get c (outpoint_hash p) ?f = (r, c')"
    by (cases "ModifyCoins get c (outpoint_hash p) ?f")
  obtain x y where x: "coins_opt (Some x) = cabs c (outpoint_hash p)" "?f x = (r, y)"
      "cabs c' = (cabs c)(outpoint_hash p := coins_opt (Some (Cleanup y)))"
    using modify_correct(2) [OF assms(1) m] by blast
  from assms(2) obtain z z' where z: "cabs c (outpoint_hash p) = Some z"
      "Spend z (unat (outpoint_n p)) = Some (z', u)" "A = (cabs c)(outpoint_hash p := coins_opt (Some z'))"
    by (auto simp: abs_spend_def split: option.splits)
  have "x = z" using x(1) z(1) by (auto simp: coins_opt_def split: if_splits)
  then have "r = Some u" "y = z'" using x(2) z(2) by (simp_all add: spend_modify_def)
  then show thesis
    using that [of c'] m modify_correct(1) [OF assms(1) m] x(3) z(3) Spend_Cleanup [OF z(2)] by simp
qed

lemma spends_refine:
  assumes "cinv c" "abs_spends vin (cabs c) = Some (us, A)"
  shows "\<exists>c'. spend_inputs get vin c = Some (us, c') \<and> cinv c' \<and> cabs c' = A"
  using assms
proof (induction vin arbitrary: c us)
  case (Cons txin vin)
  from Cons.prems(2) obtain u A1 us1 where a: "abs_spend (txin_prevout txin) (cabs c) = Some (u, A1)"
      "abs_spends vin A1 = Some (us1, A)" "us = u # us1"
    by (auto split: option.splits)
  obtain c1 where c1: "ModifyCoins get c (outpoint_hash (txin_prevout txin))
        (spend_modify (unat (outpoint_n (txin_prevout txin)))) = (Some u, c1)" "cinv c1" "cabs c1 = A1"
    using spend_refines [OF Cons.prems(1) a(1)] by blast
  from Cons.IH [OF c1(2)] a(2) c1(3) obtain c2 where
      "spend_inputs get vin c1 = Some (us1, c2)" "cinv c2" "cabs c2 = A" by blast
  then show ?case using c1(1) a(3) by simp
qed simp

lemma update_refines:
  assumes "cinv c" "abs_update txid tx h (cabs c) = Some (us, A)"
  shows "\<exists>c'. UpdateCoins get txid tx h c = Some (us, c') \<and> cinv c' \<and> cabs c' = A"
proof -
  from assms(2) obtain A1 where a: "(if \<not> IsCoinBase tx then abs_spends (tx_vin tx) (cabs c) else Some ([], cabs c)) = Some (us, A1)"
      "A = A1(txid tx := coins_opt (Some (FromTx tx h)))"
    by (auto simp: abs_update_def split: option.splits if_splits)
  obtain c1 where c1: "(if \<not> IsCoinBase tx then spend_inputs get (tx_vin tx) c else Some ([], c)) = Some (us, c1)"
      "cinv c1" "cabs c1 = A1"
    using a(1) assms(1) spends_refine [OF assms(1), of "tx_vin tx" us A1] by (cases "IsCoinBase tx") auto
  obtain r c2 where m: "ModifyCoins get c1 (txid tx) (\<lambda>_. ((), FromTx tx h)) = (r, c2)"
    by (cases "ModifyCoins get c1 (txid tx) (\<lambda>_. ((), FromTx tx h))")
  have "cabs c2 = A" using modify_correct(2) [OF c1(2) m] c1(3) a(2) by auto
  then show ?thesis using c1(1) m modify_correct(1) [OF c1(2) m] by (simp add: UpdateCoins_def)
qed

end

section \<open>Undo data restores what was spent\<close>

text \<open>
  A record of coins as the validated chain has it: cleaned up, with null outputs in their
  canonical form, from a block above the genesis block.
\<close>

definition coin_ok :: "CCoins \<Rightarrow> bool" where
  "coin_ok x \<longleftrightarrow>
     Cleanup x = x \<and> (\<forall>out \<in> set (coins_vout x). CTxOut_IsNull out \<longrightarrow> out = CTxOut_null) \<and>
     0 < coins_nHeight x"

lemma CTxOut_IsNull_null [simp]: "CTxOut_IsNull CTxOut_null"
  by (simp add: CTxOut_IsNull_def CTxOut_null_def)

lemma Cleanup_vout_last:
  assumes "Cleanup_vout v = v" "v \<noteq> []"
  shows "\<not> CTxOut_IsNull (last v)"
proof
  assume n: "CTxOut_IsNull (last v)"
  obtain w x where v: "v = w @ [x]" using assms(2) by (cases v rule: rev_cases) auto
  then have "Cleanup_vout v = Cleanup_vout w" using n by (simp add: Cleanup_vout_def)
  then have "length (Cleanup_vout w) = Suc (length w)" using assms(1) v by simp
  moreover have "length (Cleanup_vout w) \<le> length w" by (simp add: Cleanup_vout_def length_dropWhile_le [of _ "rev w", simplified])
  ultimately show False by simp
qed

text \<open>Growing the cleaned-up vector again gives the vector with a hole at \<open>n\<close>.\<close>

lemma resize_Cleanup:
  assumes c: "Cleanup_vout v = v" and u: "\<forall>out \<in> set v. CTxOut_IsNull out \<longrightarrow> out = CTxOut_null"
    and n: "n < length v" and w: "w = Cleanup_vout (v[n := CTxOut_null])"
  shows "(if length w < n + 1 then w @ replicate (n + 1 - length w) CTxOut_null else w) = v[n := CTxOut_null]"
proof -
  obtain ys where ys: "v[n := CTxOut_null] = w @ ys" "list_all CTxOut_IsNull ys"
    using Cleanup_vout_decomp [of "v[n := CTxOut_null]"] w by auto
  have "set ys \<subseteq> set v \<union> {CTxOut_null}"
    using set_update_subset_insert [of v n CTxOut_null] ys(1) by (metis Un_insert_right Un_subset_iff set_append sup_bot.right_neutral)
  then have "\<forall>y \<in> set ys. y = CTxOut_null" using ys(2) u by (auto simp: list_all_iff)
  then have r: "ys = replicate (length ys) CTxOut_null" by (simp add: replicate_length_same)
  have l: "length v = length w + length ys" using arg_cong [OF ys(1), of length] by simp
  show ?thesis
  proof (cases "ys = []")
    case True
    then show ?thesis using ys(1) l n by simp
  next
    case False
    have ne: "v \<noteq> []" using n by auto
    have "last (v[n := CTxOut_null]) = CTxOut_null"
      using False ys(1) r by (metis last_appendR last_replicate length_0_conv)
    then have "n = length v - 1"
      using Cleanup_vout_last [OF c ne] CTxOut_IsNull_null last_list_update [OF ne, of n CTxOut_null]
      by (auto split: if_splits)
    then have "n + 1 - length w = length ys" "length w < n + 1" using l False n by auto
    then show ?thesis using ys(1) r by simp
  qed
qed

lemma undo_Spend:
  assumes x: "coin_ok x" and s: "Spend x n = Some (x', u)"
    and z: "if coins_vout x' = [] then IsPruned z else z = x'"
  shows "undo_coins n u z = (True, if coins_vout x' = [] then x\<lparr>coins_fCoinStake := False\<rparr> else x)"
proof -
  let ?v = "coins_vout x"
  have n: "n < length ?v" "\<not> CTxOut_IsNull (?v ! n)" using s by (auto simp: Spend_def split: if_splits)
  have c: "Cleanup_vout ?v = ?v" using x by (metis CCoins.select_convs(3) CCoins.surjective CCoins.update_convs(3) Cleanup_def coin_ok_def)
  have x': "x' = x\<lparr>coins_vout := Cleanup_vout (?v[n := CTxOut_null])\<rparr>"
    using s n by (auto simp: Spend_def Let_def Cleanup_def split: if_splits)
  define w where "w = Cleanup_vout (?v[n := CTxOut_null])"
  have rs: "(if length w < n + 1 then w @ replicate (n + 1 - length w) CTxOut_null else w) = ?v[n := CTxOut_null]"
    by (rule resize_Cleanup [OF c _ n(1) w_def]) (use x in \<open>simp add: coin_ok_def\<close>)
  have restore: "(?v[n := CTxOut_null])[n := ?v ! n] = ?v" by simp
  have ut: "undo_txout u = ?v ! n" using s n by (auto simp: Spend_def Let_def CTxInUndo_of_def split: if_splits)
  show ?thesis
  proof (cases "w = []")
    case True
    then have u: "undo_nHeight u = nat (coins_nHeight x)" "undo_fCoinBase u = coins_fCoinBase x"
        "undo_nVersion u = coins_nVersion x"
      using s n x' by (auto simp: Spend_def Let_def Cleanup_def w_def split: if_splits)
    have h: "0 < coins_nHeight x" using x by (simp add: coin_ok_def)
    have "replicate (n + 1) CTxOut_null = ?v[n := CTxOut_null]" using rs True by simp
    then have r: "(CTxOut_null # replicate n CTxOut_null)[n := ?v ! n] = ?v" using restore by simp
    show ?thesis
      using True z x' u h ut r
      by (simp add: w_def [symmetric] undo_coins_def Let_def CCoins_Clear_def CCoins_empty_def IsAvailable_def)
  next
    case False
    then have u: "undo_nHeight u = 0"
      using s n by (auto simp: Spend_def Let_def Cleanup_def w_def CTxInUndo_of_def split: if_splits)
    have zx: "z = x'" "coins_vout z = w" using z x' False by (auto simp: w_def)
    have p: "\<not> IsPruned z"
      using False zx IsPruned_iff_Nil [of z] Spend_Cleanup [OF s] by simp
    have a: "\<not> IsAvailable z n"
    proof -
      have "IsAvailable z n = IsAvailable (x\<lparr>coins_vout := ?v[n := CTxOut_null]\<rparr>) n"
        using zx x' IsAvailable_Cleanup [of "x\<lparr>coins_vout := ?v[n := CTxOut_null]\<rparr>" n] by (simp add: Cleanup_def)
      then show ?thesis using n(1) by (simp add: IsAvailable_def)
    qed
    have "undo_coins n u z = (True, z\<lparr>coins_vout := (?v[n := CTxOut_null])[n := ?v ! n]\<rparr>)"
      unfolding undo_coins_def Let_def using u p a ut rs
      by (cases "length w < Suc n") (simp_all add: zx(2))
    then show ?thesis using False zx x' by (simp add: w_def)
  qed
qed

section \<open>Disconnecting what was connected\<close>

definition abs_undo :: "COutPoint \<Rightarrow> CTxInUndo \<Rightarrow> utxo \<Rightarrow> utxo option" where
  "abs_undo p u A =
     (case undo_coins (unat (outpoint_n p)) u
             (case A (outpoint_hash p) of None \<Rightarrow> CCoins_empty | Some x \<Rightarrow> x) of
        (clean, y) \<Rightarrow> if clean then Some (A(outpoint_hash p := coins_opt (Some (Cleanup y)))) else None)"

fun abs_undos :: "(CTxIn \<times> CTxInUndo) list \<Rightarrow> utxo \<Rightarrow> utxo option" where
  "abs_undos [] A = Some A"
| "abs_undos ((txin, u) # ps) A =
     (case abs_undo (txin_prevout txin) u A of None \<Rightarrow> None | Some A' \<Rightarrow> abs_undos ps A')"

lemma abs_undos_append:
  "abs_undos (ps @ qs) A = (case abs_undos ps A of None \<Rightarrow> None | Some A' \<Rightarrow> abs_undos qs A')"
  by (induction ps A rule: abs_undos.induct) (auto split: option.splits)

lemma abs_undo_spend:
  assumes "abs_spend p A = Some (u, A')"
    and x: "\<And>x. A (outpoint_hash p) = Some x \<Longrightarrow> coin_ok x \<and> (A' (outpoint_hash p) = None \<longrightarrow> \<not> coins_fCoinStake x)"
  shows "abs_undo p u A' = Some A"
proof -
  let ?h = "outpoint_hash p" and ?n = "unat (outpoint_n p)"
  from assms(1) obtain x x' where s: "A ?h = Some x" "Spend x ?n = Some (x', u)"
      "A' = A(?h := coins_opt (Some x'))"
    by (auto simp: abs_spend_def split: option.splits)
  have pr: "IsPruned x' \<longleftrightarrow> coins_vout x' = []"
    using IsPruned_iff_Nil [of x'] Spend_Cleanup [OF s(2)] by simp
  have ok: "coin_ok x" "coins_vout x' = [] \<Longrightarrow> \<not> coins_fCoinStake x"
    using x s(1,3) pr by (auto simp: coins_opt_def)
  let ?z = "case A' ?h of None \<Rightarrow> CCoins_empty | Some x \<Rightarrow> x"
  have "if coins_vout x' = [] then IsPruned ?z else ?z = x'"
    using s(3) pr by (simp add: coins_opt_def)
  from undo_Spend [OF ok(1) s(2) this] ok(2) have u: "undo_coins ?n u ?z = (True, x)" by simp
  have "IsAvailable x ?n" using Spend_Some_iff s(2) by (metis option.distinct(1))
  then have "\<not> IsPruned x" using IsPruned_iff_available by blast
  then show ?thesis
    using u s(1,3) ok(1) by (simp add: abs_undo_def coins_opt_def coin_ok_def fun_upd_idem)
qed

lemma coinstake_first_output: "IsCoinStake tx \<Longrightarrow> IsAvailable (FromTx tx h) 0"
  by (cases "tx_vout tx")
    (auto simp: FromTx_def ClearUnspendable_def IsCoinStake_def CTxOut_IsEmpty_def IsUnspendable_def IsAvailable_Cleanup,
     auto simp: IsAvailable_def CTxOut_IsNull_def)

text \<open>
  Every input spends a record in order, at the time it is spent, and does not take the last output
  of a record that is marked as a coinstake. A coinstake begins with an empty output, which stays in its
  record (\<open>coinstake_first_output\<close>) unless somebody spends it on purpose; its other outputs are spent freely.
\<close>

fun inputs_ok :: "CTxIn list \<Rightarrow> utxo \<Rightarrow> bool" where
  "inputs_ok [] A = True"
| "inputs_ok (txin # vin) A =
     (case A (outpoint_hash (txin_prevout txin)) of
        None \<Rightarrow> False
      | Some x \<Rightarrow>
          coin_ok x \<and>
          (case abs_spend (txin_prevout txin) A of
             None \<Rightarrow> False
           | Some (u, A') \<Rightarrow>
               (A' (outpoint_hash (txin_prevout txin)) = None \<longrightarrow> \<not> coins_fCoinStake x) \<and> inputs_ok vin A'))"

lemma abs_undos_spends:
  "abs_spends vin A = Some (us, A') \<Longrightarrow> inputs_ok vin A \<Longrightarrow>
     length us = length vin \<and> abs_undos (rev (zip vin us)) A' = Some A"
proof (induction vin arbitrary: A us)
  case (Cons txin vin)
  from Cons.prems(1) obtain u A1 us1 where a: "abs_spend (txin_prevout txin) A = Some (u, A1)"
      "abs_spends vin A1 = Some (us1, A')" "us = u # us1"
    by (auto split: option.splits)
  have i: "inputs_ok vin A1" and x: "\<And>x. A (outpoint_hash (txin_prevout txin)) = Some x \<Longrightarrow>
      coin_ok x \<and> (A1 (outpoint_hash (txin_prevout txin)) = None \<longrightarrow> \<not> coins_fCoinStake x)"
    using Cons.prems(2) a(1) by (auto split: option.splits)
  from Cons.IH [OF a(2) i] abs_undo_spend [OF a(1) x] show ?case
    using a(3) by (simp add: abs_undos_append)
qed simp

lemma abs_spends_None: "abs_spends vin A = Some (us, A') \<Longrightarrow> A k = None \<Longrightarrow> A' k = None"
proof (induction vin arbitrary: A us)
  case (Cons txin vin)
  from Cons.prems(1) obtain u A1 us1 where a: "abs_spend (txin_prevout txin) A = Some (u, A1)"
      "abs_spends vin A1 = Some (us1, A')"
    by (auto split: option.splits)
  have "A1 k = None" using a(1) Cons.prems(2) by (auto simp: abs_spend_def split: option.splits)
  with Cons.IH [OF a(2)] show ?case by blast
qed simp

lemma set_Cleanup_vout: "set (Cleanup_vout v) \<subseteq> set v"
  by (auto simp: Cleanup_vout_def dest: set_dropWhileD)

lemma ClearUnspendable_idem: "ClearUnspendable (ClearUnspendable x) = ClearUnspendable x"
proof -
  let ?f = "\<lambda>out. if IsUnspendable (txout_scriptPubKey out) then CTxOut_null else out"
  have n: "\<not> IsUnspendable (txout_scriptPubKey CTxOut_null)" by (simp add: IsUnspendable_def CTxOut_null_def)
  have "map ?f (Cleanup_vout (map ?f (coins_vout x))) = Cleanup_vout (map ?f (coins_vout x))"
  proof (rule map_idI)
    fix out assume "out \<in> set (Cleanup_vout (map ?f (coins_vout x)))"
    then have "out \<in> set (map ?f (coins_vout x))" using set_Cleanup_vout by blast
    then obtain y where "out = ?f y" by (auto simp only: set_map)
    then show "?f out = out" using n by (cases "IsUnspendable (txout_scriptPubKey y)") simp_all
  qed
  moreover have "Cleanup_vout (Cleanup_vout v) = Cleanup_vout v" for v
    by (simp add: Cleanup_vout_def dropWhile_idem)
  ultimately show ?thesis by (simp add: ClearUnspendable_def Cleanup_def)
qed

lemma CCoins_eq_refl [simp]: "CCoins_eq x x"
  by (simp add: CCoins_eq_def)

lemma IsPruned_ClearUnspendable: "IsPruned x \<Longrightarrow> IsPruned (ClearUnspendable x)"
  unfolding ClearUnspendable_def IsPruned_Cleanup by (auto simp: IsPruned_def list_all_iff)

text \<open>The loop of \<^verbatim>\<open>ConnectBlock\<close> that applies the transactions of a block.\<close>

fun update_coins_loop ::
    "'b getter \<Rightarrow> (CTransaction \<Rightarrow> u256) \<Rightarrow> int \<Rightarrow> CTransaction list \<Rightarrow> 'b CCoinsViewCache \<Rightarrow>
      (CTxUndo list \<times> 'b CCoinsViewCache) option" where
  "update_coins_loop bGet txid nHeight [] c = Some ([], c)"
| "update_coins_loop bGet txid nHeight (tx # vtx) c =
     (case UpdateCoins bGet txid tx nHeight c of
        None \<Rightarrow> None
      | Some (u, c') \<Rightarrow>
          (case update_coins_loop bGet txid nHeight vtx c' of
             None \<Rightarrow> None
           | Some (us, c'') \<Rightarrow> Some (u # us, c'')))"

text \<open>
  A block that can be applied: no transaction has an identifier that still has unspent
  outputs, and all inputs are in order at the time they are spent.
\<close>

fun block_ok :: "(CTransaction \<Rightarrow> u256) \<Rightarrow> int \<Rightarrow> CTransaction list \<Rightarrow> utxo \<Rightarrow> bool" where
  "block_ok txid h [] A = True"
| "block_ok txid h (tx # vtx) A =
     (A (txid tx) = None \<and> (IsCoinBase tx \<or> inputs_ok (tx_vin tx) A) \<and>
      (case abs_update txid tx h A of None \<Rightarrow> False | Some (us, A') \<Rightarrow> block_ok txid h vtx A'))"

lemma undo_coins_pruned:
  "IsPruned x \<Longrightarrow> undo_nHeight u \<noteq> 0 \<Longrightarrow> undo_coins n u x = undo_coins n u CCoins_empty"
  by (simp add: undo_coins_def Let_def CCoins_Clear_def)

lemma undo_coins_empty_clean: "undo_coins n u CCoins_empty = (True, y) \<Longrightarrow> undo_nHeight u \<noteq> 0"
  by (auto simp: undo_coins_def Let_def split: if_splits)

context coins_view
begin

lemma SetBestBlock_cinv [simp]: "cinv (SetBestBlock h c) = cinv c"
  and SetBestBlock_cabs [simp]: "cabs (SetBestBlock h c) = cabs c"
  by (auto simp: SetBestBlock_def cache_inv_def cache_abs_def fun_eq_iff split: option.split)

lemma SetBestBlock_hash: "cache_hashBlock (SetBestBlock h c) = h"
  by (simp add: SetBestBlock_def)

lemma undo_refines:
  assumes "cinv c" "abs_undo p u (cabs c) = Some A"
  shows "\<exists>c'. ModifyCoins get c (outpoint_hash p) (undo_coins (unat (outpoint_n p)) u) = (True, c') \<and>
    cinv c' \<and> cabs c' = A"
proof -
  let ?h = "outpoint_hash p" and ?f = "undo_coins (unat (outpoint_n p)) u"
  obtain r c' where m: "ModifyCoins get c ?h ?f = (r, c')" by (cases "ModifyCoins get c ?h ?f")
  obtain x y where x: "coins_opt (Some x) = cabs c ?h" "?f x = (r, y)"
      "cabs c' = (cabs c)(?h := coins_opt (Some (Cleanup y)))"
    using modify_correct(2) [OF assms(1) m] by blast
  let ?z = "case cabs c ?h of None \<Rightarrow> CCoins_empty | Some x \<Rightarrow> x"
  obtain y' where y': "?f ?z = (True, y')" "A = (cabs c)(?h := coins_opt (Some (Cleanup y')))"
    using assms(2) by (auto simp: abs_undo_def split: prod.splits if_splits)
  have "?f x = ?f ?z"
  proof (cases "cabs c ?h")
    case None
    then have p: "IsPruned x" using x(1) by (auto simp: coins_opt_def split: if_splits)
    have "undo_nHeight u \<noteq> 0" using None y'(1) by (intro undo_coins_empty_clean) simp
    then show ?thesis using undo_coins_pruned [OF p] None by simp
  next
    case (Some z)
    then show ?thesis using x(1) by (auto simp: coins_opt_def split: if_splits)
  qed
  then show ?thesis using m modify_correct(1) [OF assms(1) m] x y' by auto
qed

lemma undos_refine:
  "cinv c \<Longrightarrow> abs_undos ps (cabs c) = Some A \<Longrightarrow>
     \<exists>c'. undo_inputs get ps True c = (True, c') \<and> cinv c' \<and> cabs c' = A"
proof (induction ps arbitrary: c)
  case (Cons q ps)
  obtain txin u where q: "q = (txin, u)" by (cases q)
  from Cons.prems(2) q obtain A1 where a: "abs_undo (txin_prevout txin) u (cabs c) = Some A1"
      "abs_undos ps A1 = Some A"
    by (auto split: option.splits)
  from undo_refines [OF Cons.prems(1) a(1)] obtain c1 where
    c1: "ModifyCoins get c (outpoint_hash (txin_prevout txin))
        (undo_coins (unat (outpoint_n (txin_prevout txin))) u) = (True, c1)" "cinv c1" "cabs c1 = A1" by blast
  from Cons.IH [OF c1(2)] a(2) c1(3) show ?case using c1(1) q by simp
qed simp

lemma disconnect_outs_refines:
  assumes "cinv c" "cabs c (txid tx) = coins_opt (Some (FromTx tx h))"
  shows "\<exists>c'. ModifyCoins get c (txid tx) (disconnect_outs tx h) = (True, c') \<and> cinv c' \<and>
    cabs c' = (cabs c)(txid tx := None)"
proof -
  let ?f = "disconnect_outs tx h"
  obtain r c' where m: "ModifyCoins get c (txid tx) ?f = (r, c')" by (cases "ModifyCoins get c (txid tx) ?f")
  obtain x y where x: "coins_opt (Some x) = cabs c (txid tx)" "?f x = (r, y)"
      "cabs c' = (cabs c)(txid tx := coins_opt (Some (Cleanup y)))"
    using modify_correct(2) [OF assms(1) m] by blast
  have y: "y = CCoins_empty" using x(2) by (auto simp: disconnect_outs_def Let_def CCoins_Clear_def)
  have "fst (?f x)"
  proof (cases "IsPruned (FromTx tx h)")
    case True
    then have "IsPruned x" using x(1) assms(2) by (auto simp: coins_opt_def split: if_splits)
    then have "IsPruned (ClearUnspendable x)" by (rule IsPruned_ClearUnspendable)
    moreover have "IsPruned (z\<lparr>coins_nVersion := v\<rparr>) = IsPruned z" for z v by (simp add: IsPruned_def)
    ultimately show ?thesis using True by (simp add: disconnect_outs_def Let_def CCoins_eq_def)
  next
    case False
    then have "x = FromTx tx h" using x(1) assms(2) by (auto simp: coins_opt_def split: if_splits)
    moreover have "ClearUnspendable (FromTx tx h) = FromTx tx h" by (simp add: FromTx_def ClearUnspendable_idem)
    ultimately show ?thesis by (simp add: disconnect_outs_def Let_def)
  qed
  then show ?thesis
    using m modify_correct(1) [OF assms(1) m] x y by (auto simp: coins_opt_def)
qed

lemma disconnect_tx_refines:
  assumes c: "cinv c" and u: "abs_update txid tx h A = Some (us, cabs c)" and f: "A (txid tx) = None"
    and i: "IsCoinBase tx \<or> inputs_ok (tx_vin tx) A"
  shows "\<exists>c'. disconnect_tx get txid h tx us True c = Inr (True, c') \<and> cinv c' \<and> cabs c' = A"
proof -
  from u obtain A1 where a: "(if \<not> IsCoinBase tx then abs_spends (tx_vin tx) A else Some ([], A)) = Some (us, A1)"
      "cabs c = A1(txid tx := coins_opt (Some (FromTx tx h)))"
    by (auto simp: abs_update_def split: option.splits if_splits)
  have n: "A1 (txid tx) = None" using a(1) f abs_spends_None by (auto split: if_splits)
  obtain c1 where c1: "ModifyCoins get c (txid tx) (disconnect_outs tx h) = (True, c1)" "cinv c1"
      "cabs c1 = (cabs c)(txid tx := None)"
    using disconnect_outs_refines [OF c, of txid tx h] a(2) by auto
  have e: "cabs c1 = A1" using c1(3) a(2) n by auto
  show ?thesis
  proof (cases "IsCoinBase tx")
    case True
    then show ?thesis using c1 e a(1) by (simp add: disconnect_tx_def)
  next
    case False
    with a(1) i abs_undos_spends [of "tx_vin tx" A us A1]
    have "length us = length (tx_vin tx)" "abs_undos (rev (zip (tx_vin tx) us)) A1 = Some A" by auto
    with undos_refine [OF c1(2)] e show ?thesis
      using False c1(1) by (auto simp: disconnect_tx_def)
  qed
qed

lemma disconnect_txs_append:
  "disconnect_txs get txid h (ps @ qs) b c =
     (case disconnect_txs get txid h ps b c of Inl e \<Rightarrow> Inl e | Inr (b', c') \<Rightarrow> disconnect_txs get txid h qs b' c')"
  by (induction ps arbitrary: b c) (auto split: sum.splits)

lemma connect_disconnect:
  assumes "cinv c" "block_ok txid h vtx (cabs c)"
  shows "\<exists>us c1. update_coins_loop get txid h vtx c = Some (us, c1) \<and> cinv c1 \<and> length us = length vtx \<and>
    (\<forall>d. cinv d \<longrightarrow> cabs d = cabs c1 \<longrightarrow>
      (\<exists>c2. disconnect_txs get txid h (rev (zip vtx us)) True d = Inr (True, c2) \<and> cinv c2 \<and> cabs c2 = cabs c))"
  using assms
proof (induction vtx arbitrary: c)
  case (Cons tx vtx)
  from Cons.prems(2) obtain us A1 where a: "abs_update txid tx h (cabs c) = Some (us, A1)"
      "cabs c (txid tx) = None" "IsCoinBase tx \<or> inputs_ok (tx_vin tx) (cabs c)" "block_ok txid h vtx A1"
    by (auto split: option.splits)
  obtain c1 where c1: "UpdateCoins get txid tx h c = Some (us, c1)" "cinv c1" "cabs c1 = A1"
    using update_refines [OF Cons.prems(1) a(1)] by blast
  from Cons.IH [OF c1(2)] a(4) c1(3) obtain uss c2 where
    c2: "update_coins_loop get txid h vtx c1 = Some (uss, c2)" "cinv c2" "length uss = length vtx"
      "\<And>d. cinv d \<Longrightarrow> cabs d = cabs c2 \<Longrightarrow>
        \<exists>c3. disconnect_txs get txid h (rev (zip vtx uss)) True d = Inr (True, c3) \<and> cinv c3 \<and> cabs c3 = cabs c1"
    by blast
  have "\<exists>c4. disconnect_txs get txid h (rev (zip (tx # vtx) (us # uss))) True d = Inr (True, c4) \<and>
      cinv c4 \<and> cabs c4 = cabs c" if d: "cinv d" "cabs d = cabs c2" for d
  proof -
    from c2(4) [OF d] obtain c3 where
      c3: "disconnect_txs get txid h (rev (zip vtx uss)) True d = Inr (True, c3)" "cinv c3" "cabs c3 = cabs c1" by blast
    from disconnect_tx_refines [OF c3(2), of txid tx h "cabs c" us] a c3(3) c1(3) show ?thesis
      using c3(1) by (auto simp: disconnect_txs_append)
  qed
  then show ?case using c1(1) c2(1-3) by auto
qed simp

lemma disconnect_block_inverse:
  assumes c: "cinv c" and b: "block_ok txid h vtx (cabs c)" and v: "vtx \<noteq> []" "IsCoinBase (hd vtx)" and hb: "hashBlock \<noteq> 0"
  shows "\<exists>us c1 c2. update_coins_loop get txid h vtx c = Some (us, c1) \<and>
    DisconnectBlock get best txid vtx (Some (tl us)) hashBlock hashPrev h (SetBestBlock hashBlock c1) = Inr (True, c2) \<and>
    cinv c2 \<and> cabs c2 = cabs c \<and> cache_hashBlock c2 = hashPrev"
proof -
  from connect_disconnect [OF c b] obtain us c1 where
    u: "update_coins_loop get txid h vtx c = Some (us, c1)" "cinv c1" "length us = length vtx"
      "\<And>d. cinv d \<Longrightarrow> cabs d = cabs c1 \<Longrightarrow>
        \<exists>c2. disconnect_txs get txid h (rev (zip vtx us)) True d = Inr (True, c2) \<and> cinv c2 \<and> cabs c2 = cabs c"
    by blast
  obtain tx vtx' where tx: "vtx = tx # vtx'" using v(1) by (cases vtx) auto
  have "hd us = []" "us \<noteq> []"
    using u(1) v(2) tx by (auto simp: UpdateCoins_def split: option.splits prod.splits)
  then have us: "[] # tl us = us" by (metis list.collapse)
  obtain c2 where c2: "disconnect_txs get txid h (rev (zip vtx us)) True (SetBestBlock hashBlock c1) = Inr (True, c2)"
      "cinv c2" "cabs c2 = cabs c"
    using u(4) [of "SetBestBlock hashBlock c1"] u(2) by auto
  have best: "cache_GetBestBlock best (SetBestBlock hashBlock c1) = hashBlock"
    using hb by (simp add: cache_GetBestBlock_def SetBestBlock_def)
  have "DisconnectBlock get best txid vtx (Some (tl us)) hashBlock hashPrev h (SetBestBlock hashBlock c1) =
      Inr (True, SetBestBlock hashPrev c2)"
    unfolding DisconnectBlock_def best using us u(3) c2(1) tx by auto
  then show ?thesis using u(1) c2(2,3)
    by (intro exI [of _ us] exI [of _ c1] exI [of _ "SetBestBlock hashPrev c2"]) (simp add: SetBestBlock_hash)
qed

end

section \<open>Properties\<close>

text \<open>
  \<^verbatim>\<open>UpdateCoins\<close> implements spending on the abstract set: where the specification spends the
  inputs and adds the outputs, the code passes its assertion, produces the same undo records
  and leaves a cache that represents the resulting set.
\<close>

theorem update_coins_refines:
  assumes "view_inv c" "abs_update txid tx h (view_abs c) = Some (us, A)"
  shows "\<exists>c'. UpdateCoins tip_get txid tx h c = Some (us, c') \<and> view_inv c' \<and> view_abs c' = A"
  by (rule db.cache.update_refines [OF assms])

definition sample_txid :: "CTransaction \<Rightarrow> u256" where
  "sample_txid tx = (if IsCoinBase tx then 11 else 12)"

definition sample_coinbase :: CTransaction where
  "sample_coinbase =
     \<lparr>tx_nVersion = 1,
      tx_vin = [\<lparr>txin_prevout = \<lparr>outpoint_hash = 0, outpoint_n = - 1\<rparr>, txin_scriptSig = [1, 9], txin_nSequence = 0\<rparr>],
      tx_vout = [\<lparr>txout_nValue = 8, txout_scriptPubKey = [OP_1]\<rparr>], tx_nLockTime = 0\<rparr>"

lemma sample_IsCoinBase [simp]: "\<not> IsCoinBase sample_tx" "IsCoinBase sample_coinbase"
  by (simp_all add: IsCoinBase_def sample_tx_def sample_coinbase_def COutPoint_IsNull_def)

lemma sample_spend:
  "abs_spends (tx_vin sample_tx) (A(7 \<mapsto> sample_coins)) =
     Some ([\<lparr>undo_txout = \<lparr>txout_nValue = 50, txout_scriptPubKey = [OP_1]\<rparr>, undo_fCoinBase = False,
       undo_fCoinStake = False, undo_nHeight = 5, undo_nVersion = 1\<rparr>], A(7 := None))"
  by (simp add: sample_tx_def abs_spend_def Spend_def sample_coins_def CTxOut_IsNull_def CTxOut_null_def
      Cleanup_def Cleanup_vout_def coins_opt_def IsPruned_def CTxInUndo_of_def)

theorem update_coins_refines_witness:
  "\<exists>us c'. UpdateCoins tip_get sample_txid sample_tx 6 sample_view = Some (us, c') \<and>
     view_abs c' = [12 \<mapsto> FromTx sample_tx 6]"
proof -
  let ?A = "Map.empty(7 := None, 12 := coins_opt (Some (FromTx sample_tx 6)))"
  have "abs_update sample_txid sample_tx 6 (view_abs sample_view) = Some (fst (the (abs_spends (tx_vin sample_tx) [7 \<mapsto> sample_coins])), ?A)"
    by (simp add: abs_update_def sample_spend sample_txid_def)
  from update_coins_refines [OF sample_view_inv this] obtain c' where
    c: "UpdateCoins tip_get sample_txid sample_tx 6 sample_view = Some (fst (the (abs_spends (tx_vin sample_tx) [7 \<mapsto> sample_coins])), c')"
      "view_abs c' = ?A" by blast
  have "coins_opt (Some (FromTx sample_tx 6)) = Some (FromTx sample_tx 6)"
    by (simp add: FromTx_def ClearUnspendable_def Cleanup_def Cleanup_vout_def coins_opt_def IsPruned_def
        sample_tx_def CTxOut_IsNull_def IsUnspendable_def)
  with c show ?thesis by auto
qed

text \<open>
  Taking back the block that was just connected restores the set of unspent outputs: the
  loop of \<^verbatim>\<open>ConnectBlock\<close> followed by \<^verbatim>\<open>DisconnectBlock\<close> with the undo data it produced is clean,
  keeps the invariant of the caches, represents the set from before and points to the previous
  block. The block may spend its own outputs, and outputs of coinstakes, but not the last one of a coinstake.
\<close>

theorem disconnect_inverts_connect:
  assumes "view_inv c" "block_ok txid h vtx (view_abs c)" "vtx \<noteq> []" "IsCoinBase (hd vtx)" "hashBlock \<noteq> 0"
  shows "\<exists>us c1 c2. update_coins_loop tip_get txid h vtx c = Some (us, c1) \<and>
    DisconnectBlock tip_get best txid vtx (Some (tl us)) hashBlock hashPrev h (SetBestBlock hashBlock c1) = Inr (True, c2) \<and>
    view_inv c2 \<and> view_abs c2 = view_abs c \<and> cache_hashBlock c2 = hashPrev"
  by (rule db.cache.disconnect_block_inverse [OF assms])

lemma sample_coin_ok: "coin_ok sample_coins" "\<not> coins_fCoinStake sample_coins"
  by (simp_all add: coin_ok_def) (simp_all add: sample_coins_def CTxOut_IsNull_def)

lemma sample_block_ok: "block_ok sample_txid 6 [sample_coinbase, sample_tx] [7 \<mapsto> sample_coins]"
proof -
  have "inputs_ok (tx_vin sample_tx) (A(7 \<mapsto> sample_coins))" for A
    using sample_spend [of A] sample_coin_ok by (auto simp: sample_tx_def split: option.splits)
  then show ?thesis
    by (simp add: abs_update_def sample_txid_def sample_spend fun_upd_twist [of "7 :: u256" 11])
qed

theorem disconnect_inverts_connect_witness:
  "\<exists>us c1 c2. update_coins_loop tip_get sample_txid 6 [sample_coinbase, sample_tx] sample_view = Some (us, c1) \<and>
    DisconnectBlock tip_get (cache_GetBestBlock DB_GetBestBlock) sample_txid [sample_coinbase, sample_tx] (Some (tl us)) 5 3 6
      (SetBestBlock 5 c1) = Inr (True, c2) \<and> view_abs c2 = [7 \<mapsto> sample_coins]"
  using disconnect_inverts_connect [of sample_view sample_txid 6 "[sample_coinbase, sample_tx]" 5
      "cache_GetBestBlock DB_GetBestBlock" 3] sample_block_ok
  by auto

text \<open>
  Undoing the spending of the last output of a record restores the record except for its
  coinstake mark, which \<^verbatim>\<open>DisconnectBlock\<close> drops: the restored coins are no longer subject to the
  maturity rule for stakes.
\<close>

theorem undo_drops_coinstake_mark:
  assumes "coin_ok x" "Spend x n = Some (x', u)" "coins_vout x' = []"
  shows "undo_coins n u CCoins_empty = (True, x\<lparr>coins_fCoinStake := False\<rparr>)"
  using undo_Spend [OF assms(1,2), of CCoins_empty] assms(3) by simp

theorem undo_drops_coinstake_mark_witness:
  "let x = sample_coins\<lparr>coins_fCoinStake := True\<rparr>; u = snd (the (Spend x 0))
   in undo_coins 0 u CCoins_empty = (True, x\<lparr>coins_fCoinStake := False\<rparr>)"
proof -
  let ?x = "sample_coins\<lparr>coins_fCoinStake := True\<rparr>"
  have "coin_ok ?x" 
    by (simp add: coin_ok_def sample_coins_def Cleanup_def Cleanup_vout_def CTxOut_IsNull_def)
  moreover have "\<exists>x'. Spend ?x 0 = Some (x', snd (the (Spend ?x 0))) \<and> coins_vout x' = []"
    by (simp add: Spend_def sample_coins_def CTxOut_IsNull_def CTxOut_null_def Cleanup_def Cleanup_vout_def Let_def)
  ultimately show ?thesis using undo_drops_coinstake_mark [of ?x 0] by (auto simp: Let_def)
qed

end
