(* ===== verification/TxCheck.thy ===== *)
theory TxCheck
  imports CoinsUpdate
begin

unbundle bit_operations_syntax

text \<open>
  The rules for single transactions in main.cpp: \<^verbatim>\<open>CheckTransaction\<close>, finality, signature
  operation counts, the standardness rules, \<^verbatim>\<open>CheckInputs\<close>; fee rates (amount.h and .cpp);
  and the block subsidy. The chain parameters, the cryptographic primitives and the global
  state that the functions read are arguments.
\<close>

section \<open>Parameters\<close>

abbreviation (input) COIN :: int where "COIN \<equiv> 100000000"
abbreviation (input) MAX_BLOCK_SIZE :: nat where "MAX_BLOCK_SIZE \<equiv> 2000000"
abbreviation (input) MAX_BLOCK_SIGOPS :: nat where "MAX_BLOCK_SIGOPS \<equiv> MAX_BLOCK_SIZE div 50"
abbreviation (input) MAX_STANDARD_TX_SIZE :: nat where "MAX_STANDARD_TX_SIZE \<equiv> 100000"
abbreviation (input) MAX_P2SH_SIGOPS :: nat where "MAX_P2SH_SIGOPS \<equiv> 15"
abbreviation (input) LOCKTIME_THRESHOLD :: int where "LOCKTIME_THRESHOLD \<equiv> 500000000"

record CChainParams =
  par_testnet :: bool
  par_MaxMoneyOut :: int
  par_COINBASE_MATURITY :: int
  par_LAST_POW_BLOCK :: int

text \<open>The values of \<^verbatim>\<open>CMainParams\<close> and \<^verbatim>\<open>CTestNetParams\<close> (chainparams.cpp).\<close>

definition CMainParams :: CChainParams where
  "CMainParams = \<lparr>par_testnet = False, par_MaxMoneyOut = 50000000 * COIN, par_COINBASE_MATURITY = 50,
     par_LAST_POW_BLOCK = 200\<rparr>"

definition CTestNetParams :: CChainParams where
  "CTestNetParams = \<lparr>par_testnet = True, par_MaxMoneyOut = 50000000 * COIN, par_COINBASE_MATURITY = 100,
     par_LAST_POW_BLOCK = 50000000\<rparr>"

text \<open>The digests, and \<^verbatim>\<open>CPubKey::Verify\<close>.\<close>

record crypto =
  crypto_ripemd160 :: "valtype \<Rightarrow> valtype"
  crypto_sha1 :: "valtype \<Rightarrow> valtype"
  crypto_sha256 :: "valtype \<Rightarrow> valtype"
  crypto_verify :: "valtype \<Rightarrow> u256 \<Rightarrow> valtype \<Rightarrow> bool"

text \<open>
  A failed check: an assertion or exception, or the call of \<^verbatim>\<open>state.DoS\<close> with its level and
  reason; \<^verbatim>\<open>state.Invalid\<close> is level 0.
\<close>

datatype tx_error = Aborted | Reject nat string

section \<open>Amounts and fees\<close>

definition MoneyRange :: "CChainParams \<Rightarrow> int \<Rightarrow> bool" where
  "MoneyRange params nValueOut \<longleftrightarrow> nValueOut \<ge> 0 \<and> nValueOut \<le> par_MaxMoneyOut params"

text \<open>
  \<^verbatim>\<open>CFeeRate\<close> holds satoshis per 1000 bytes. Sizes are \<^verbatim>\<open>size_t\<close>, so the product and the
  quotient are unsigned 64-bit numbers before they become an amount again.
\<close>

definition CFeeRate :: "int \<Rightarrow> nat \<Rightarrow> int" where
  "CFeeRate nFeePaid nSize =
     (if nSize > 0 then swrap 64 ((swrap 64 (nFeePaid * 1000)) mod 2 ^ 64 div int nSize) else 0)"

definition GetFee :: "int \<Rightarrow> nat \<Rightarrow> int" where
  "GetFee nSatoshisPerK nSize =
     (let nFee = swrap 64 ((nSatoshisPerK * int nSize) mod 2 ^ 64 div 1000)
      in if nFee = 0 \<and> nSatoshisPerK > 0 then nSatoshisPerK else nFee)"

definition IsDust :: "CTxOut \<Rightarrow> int \<Rightarrow> bool" where
  "IsDust out minRelayTxFee \<longleftrightarrow>
     (let nSize = length (ser_CTxOut out) + 148 in txout_nValue out < 3 * GetFee minRelayTxFee nSize)"

section \<open>Checks without context\<close>

text \<open>The loop over the outputs, with the running total as a 64-bit sum.\<close>

fun CheckTransaction_outs :: "CChainParams \<Rightarrow> bool \<Rightarrow> CTxOut list \<Rightarrow> int \<Rightarrow> tx_error + unit" where
  "CheckTransaction_outs params special [] nValueOut = Inr ()"
| "CheckTransaction_outs params special (out # outs) nValueOut =
     (if CTxOut_IsEmpty out \<and> \<not> special then Inl (Reject 100 '''')
      else if txout_nValue out < 0 then Inl (Reject 100 ''bad-txns-vout-negative'')
      else if txout_nValue out > par_MaxMoneyOut params then Inl (Reject 100 ''bad-txns-vout-toolarge'')
      else
        let nValueOut = swrap 64 (nValueOut + txout_nValue out) in
        if \<not> MoneyRange params nValueOut then Inl (Reject 100 ''bad-txns-txouttotal-toolarge'')
        else CheckTransaction_outs params special outs nValueOut)"

fun CheckTransaction_dups :: "COutPoint list \<Rightarrow> CTxIn list \<Rightarrow> tx_error + unit" where
  "CheckTransaction_dups vInOutPoints [] = Inr ()"
| "CheckTransaction_dups vInOutPoints (txin # vin) =
     (if txin_prevout txin \<in> set vInOutPoints then Inl (Reject 100 ''bad-txns-inputs-duplicate'')
      else CheckTransaction_dups (txin_prevout txin # vInOutPoints) vin)"

definition CheckTransaction :: "CChainParams \<Rightarrow> CTransaction \<Rightarrow> tx_error + unit" where
  "CheckTransaction params tx =
     (if tx_vin tx = [] then Inl (Reject 10 ''bad-txns-vin-empty'')
      else if tx_vout tx = [] then Inl (Reject 10 ''bad-txns-vout-empty'')
      else if length (ser_CTransaction tx) > MAX_BLOCK_SIZE then Inl (Reject 100 ''bad-txns-oversize'')
      else case CheckTransaction_outs params (IsCoinBase tx \<or> IsCoinStake tx) (tx_vout tx) 0 of
        Inl e \<Rightarrow> Inl e
      | Inr _ \<Rightarrow>
          (case CheckTransaction_dups [] (tx_vin tx) of
             Inl e \<Rightarrow> Inl e
           | Inr _ \<Rightarrow>
               if IsCoinBase tx then
                 if length (txin_scriptSig (tx_vin tx ! 0)) < 2 \<or> length (txin_scriptSig (tx_vin tx ! 0)) > 150
                 then Inl (Reject 100 ''bad-cb-length'') else Inr ()
               else if list_ex (\<lambda>txin. COutPoint_IsNull (txin_prevout txin)) (tx_vin tx)
               then Inl (Reject 10 ''bad-txns-prevout-null'')
               else Inr ()))"

text \<open>
  \<^verbatim>\<open>IsFinalTx\<close>; \<open>chainHeight\<close> and \<open>adjustedTime\<close> are what the defaults stand for.
\<close>

definition IsFinalTx :: "int \<Rightarrow> int \<Rightarrow> CTransaction \<Rightarrow> int \<Rightarrow> int \<Rightarrow> bool" where
  "IsFinalTx chainHeight adjustedTime tx nBlockHeight nBlockTime =
     (let lock = uint (tx_nLockTime tx) in
      if lock = 0 then True
      else
        let nBlockHeight = (if nBlockHeight = 0 then chainHeight else nBlockHeight);
            nBlockTime = (if nBlockTime = 0 then adjustedTime else nBlockTime)
        in if lock < (if lock < LOCKTIME_THRESHOLD then nBlockHeight else nBlockTime) then True
           else list_all CTxIn_IsFinal (tx_vin tx))"

section \<open>Signature operations\<close>

text \<open>The two counters are 32 bits wide; the sums stay far below for transactions of valid size.\<close>

definition GetLegacySigOpCount :: "CTransaction \<Rightarrow> nat" where
  "GetLegacySigOpCount tx =
     sum_list (map (\<lambda>txin. GetSigOpCount False (txin_scriptSig txin)) (tx_vin tx)) +
     sum_list (map (\<lambda>out. GetSigOpCount False (txout_scriptPubKey out)) (tx_vout tx))"

fun GetP2SHSigOpCount_loop ::
    "'b getter \<Rightarrow> CTxIn list \<Rightarrow> nat \<Rightarrow> 'b CCoinsViewCache \<Rightarrow> nat option \<times> 'b CCoinsViewCache" where
  "GetP2SHSigOpCount_loop bGet [] nSigOps c = (Some nSigOps, c)"
| "GetP2SHSigOpCount_loop bGet (txin # vin) nSigOps c =
     (case GetOutputFor bGet c txin of
        (None, c') \<Rightarrow> (None, c')
      | (Some prevout, c') \<Rightarrow>
          GetP2SHSigOpCount_loop bGet vin
            (if IsPayToScriptHash (txout_scriptPubKey prevout)
             then nSigOps + GetSigOpCount_P2SH (txout_scriptPubKey prevout) (txin_scriptSig txin)
             else nSigOps) c')"

definition GetP2SHSigOpCount ::
    "'b getter \<Rightarrow> CTransaction \<Rightarrow> 'b CCoinsViewCache \<Rightarrow> nat option \<times> 'b CCoinsViewCache" where
  "GetP2SHSigOpCount bGet tx c =
     (if IsCoinBase tx then (Some 0, c) else GetP2SHSigOpCount_loop bGet (tx_vin tx) 0 c)"

section \<open>Standardness\<close>

text \<open>The node's settings that the standardness rules read.\<close>

record policy =
  pol_datacarrier :: bool
  pol_nMaxDatacarrierBytes :: nat
  pol_fIsBareMultisigStd :: bool
  pol_minRelayTxFee :: int

fun IsStandardTx_ins :: "CTxIn list \<Rightarrow> string option" where
  "IsStandardTx_ins [] = None"
| "IsStandardTx_ins (txin # vin) =
     (if length (txin_scriptSig txin) > 1650 then Some ''scriptsig-size''
      else if \<not> IsPushOnly (txin_scriptSig txin) then Some ''scriptsig-not-pushonly''
      else IsStandardTx_ins vin)"

text \<open>The loop over the outputs: the reason for rejection, or the number of data outputs.\<close>

fun IsStandardTx_outs :: "policy \<Rightarrow> CTxOut list \<Rightarrow> nat \<Rightarrow> string + nat" where
  "IsStandardTx_outs pol [] nDataOut = Inr nDataOut"
| "IsStandardTx_outs pol (out # outs) nDataOut =
     (case IsStandard (pol_datacarrier pol) (pol_nMaxDatacarrierBytes pol) (txout_scriptPubKey out) of
        (ok, whichType) \<Rightarrow>
          if \<not> ok then Inl ''scriptpubkey''
          else if whichType = TX_NULL_DATA then IsStandardTx_outs pol outs (nDataOut + 1)
          else if whichType = TX_MULTISIG \<and> \<not> pol_fIsBareMultisigStd pol then Inl ''bare-multisig''
          else if IsDust out (pol_minRelayTxFee pol) then Inl ''dust''
          else IsStandardTx_outs pol outs nDataOut)"

definition IsStandardTx :: "policy \<Rightarrow> int \<Rightarrow> int \<Rightarrow> CTransaction \<Rightarrow> string option" where
  "IsStandardTx pol chainHeight adjustedTime tx =
     (if tx_nVersion tx > 1 \<or> tx_nVersion tx < 1 then Some ''version''
      else if \<not> IsFinalTx chainHeight adjustedTime tx (chainHeight + 1) 0 then Some ''non-final''
      else if length (ser_CTransaction tx) \<ge> MAX_STANDARD_TX_SIZE then Some ''tx-size''
      else
        (case IsStandardTx_ins (tx_vin tx) of
           Some reason \<Rightarrow> Some reason
         | None \<Rightarrow>
             (case IsStandardTx_outs pol (tx_vout tx) 0 of
                Inl reason \<Rightarrow> Some reason
              | Inr nDataOut \<Rightarrow> if nDataOut > 1 then Some ''multi-op-return'' else None)))"

text \<open>
  The environment in which \<^verbatim>\<open>AreInputsStandard\<close> evaluates a \<^verbatim>\<open>scriptSig\<close>: no flags, and the
  base checker, which accepts no signature.
\<close>

definition base_env :: "crypto \<Rightarrow> eval_env" where
  "base_env cr = \<lparr>env_flags = 0, env_CheckSig = (\<lambda>_ _ _. False), env_ripemd160 = crypto_ripemd160 cr,
     env_sha1 = crypto_sha1 cr, env_sha256 = crypto_sha256 cr\<rparr>"

text \<open>
  One input: \<open>None\<close> to go on with the next one, or the value that the function returns.
\<close>

definition input_standard :: "crypto \<Rightarrow> CScript \<Rightarrow> CScript \<Rightarrow> bool option" where
  "input_standard cr prevScript sigScript =
     (case Solver prevScript of (ok, whichType, vSolutions) \<Rightarrow>
        if \<not> ok then Some False
        else
          let nArgsExpected = ScriptSigArgsExpected whichType vSolutions in
          if nArgsExpected < 0 then Some False
          else case EvalScript (base_env cr) [] sigScript of
            Inl _ \<Rightarrow> Some False
          | Inr stack \<Rightarrow>
              if whichType = TX_SCRIPTHASH then
                if stack = [] then Some False
                else
                  (case Solver (hd stack) of (ok2, whichType2, vSolutions2) \<Rightarrow>
                     if ok2 then
                       let tmpExpected = ScriptSigArgsExpected whichType2 vSolutions2 in
                       if tmpExpected < 0 then Some False
                       else if int (length stack) \<noteq> nArgsExpected + tmpExpected then Some False
                       else None
                     else Some (GetSigOpCount True (hd stack) \<le> MAX_P2SH_SIGOPS))
              else if int (length stack) \<noteq> nArgsExpected then Some False
              else None)"

fun AreInputsStandard_loop ::
    "crypto \<Rightarrow> 'b getter \<Rightarrow> CTxIn list \<Rightarrow> 'b CCoinsViewCache \<Rightarrow> bool option \<times> 'b CCoinsViewCache" where
  "AreInputsStandard_loop cr bGet [] c = (Some True, c)"
| "AreInputsStandard_loop cr bGet (txin # vin) c =
     (case GetOutputFor bGet c txin of
        (None, c') \<Rightarrow> (None, c')
      | (Some prev, c') \<Rightarrow>
          (case input_standard cr (txout_scriptPubKey prev) (txin_scriptSig txin) of
             Some r \<Rightarrow> (Some r, c')
           | None \<Rightarrow> AreInputsStandard_loop cr bGet vin c'))"

definition AreInputsStandard ::
    "crypto \<Rightarrow> 'b getter \<Rightarrow> CTransaction \<Rightarrow> 'b CCoinsViewCache \<Rightarrow> bool option \<times> 'b CCoinsViewCache" where
  "AreInputsStandard cr bGet tx c =
     (if IsCoinBase tx then (Some True, c) else AreInputsStandard_loop cr bGet (tx_vin tx) c)"

section \<open>Checks of the inputs\<close>

text \<open>\<^verbatim>\<open>CScriptCheck::operator()\<close> with a \<^verbatim>\<open>TransactionSignatureChecker\<close>.\<close>

definition tx_env :: "crypto \<Rightarrow> u32 \<Rightarrow> CTransaction \<Rightarrow> nat \<Rightarrow> eval_env" where
  "tx_env cr flags tx nIn =
     \<lparr>env_flags = flags, env_CheckSig = CheckSig (crypto_sha256 cr) (crypto_verify cr) tx nIn,
      env_ripemd160 = crypto_ripemd160 cr, env_sha1 = crypto_sha1 cr, env_sha256 = crypto_sha256 cr\<rparr>"

definition CScriptCheck :: "crypto \<Rightarrow> CTransaction \<Rightarrow> nat \<Rightarrow> u32 \<Rightarrow> CScript \<Rightarrow> bool" where
  "CScriptCheck cr tx nIn flags script =
     is_ok (VerifyScript (tx_env cr flags tx nIn) (txin_scriptSig (tx_vin tx ! nIn)) script)"

abbreviation (input) STANDARD_NOT_MANDATORY_VERIFY_FLAGS :: u32 where
  "STANDARD_NOT_MANDATORY_VERIFY_FLAGS \<equiv>
     SCRIPT_VERIFY_DERSIG OR SCRIPT_VERIFY_STRICTENC OR SCRIPT_VERIFY_MINIMALDATA OR
     SCRIPT_VERIFY_NULLDUMMY OR SCRIPT_VERIFY_DISCOURAGE_UPGRADABLE_NOPS"

abbreviation (input) STANDARD_SCRIPT_VERIFY_FLAGS :: u32 where
  "STANDARD_SCRIPT_VERIFY_FLAGS \<equiv> SCRIPT_VERIFY_P2SH OR STANDARD_NOT_MANDATORY_VERIFY_FLAGS"

text \<open>The first loop: maturity and the running total of the inputs.\<close>

fun CheckInputs_values ::
    "CChainParams \<Rightarrow> 'b getter \<Rightarrow> int \<Rightarrow> CTxIn list \<Rightarrow> int \<Rightarrow> 'b CCoinsViewCache \<Rightarrow>
      (tx_error + int) \<times> 'b CCoinsViewCache" where
  "CheckInputs_values params bGet nSpendHeight [] nValueIn c = (Inr nValueIn, c)"
| "CheckInputs_values params bGet nSpendHeight (txin # vin) nValueIn c =
     (case FetchCoins bGet c (outpoint_hash (txin_prevout txin)) of
        (None, c') \<Rightarrow> (Inl Aborted, c')
      | (Some coins, c') \<Rightarrow>
          if (coins_fCoinBase coins \<or> coins_fCoinStake coins) \<and>
             nSpendHeight - coins_nHeight coins < par_COINBASE_MATURITY params
          then (Inl (Reject 0 ''bad-txns-premature-spend-of-coinbase''), c')
          else
            let v = txout_nValue (coins_vout coins ! unat (outpoint_n (txin_prevout txin)));
                nValueIn = swrap 64 (nValueIn + v)
            in if \<not> MoneyRange params v \<or> \<not> MoneyRange params nValueIn
               then (Inl (Reject 100 ''bad-txns-inputvalues-outofrange''), c')
               else CheckInputs_values params bGet nSpendHeight vin nValueIn c')"

definition CheckInputs_fees :: "CChainParams \<Rightarrow> CTransaction \<Rightarrow> int \<Rightarrow> tx_error + unit" where
  "CheckInputs_fees params tx nValueIn =
     (case GetValueOut tx of
        Inl _ \<Rightarrow> Inl Aborted
      | Inr nValueOut \<Rightarrow>
          if nValueIn < nValueOut then Inl (Reject 100 ''bad-txns-in-belowout'')
          else
            let nTxFee = swrap 64 (nValueIn - nValueOut) in
            if nTxFee < 0 then Inl (Reject 100 ''bad-txns-fee-negative'')
            else if \<not> MoneyRange params nTxFee then Inl (Reject 100 ''bad-txns-fee-outofrange'')
            else Inr ())"

text \<open>The second loop, over the input index: the scripts.\<close>

function CheckInputs_scripts ::
    "crypto \<Rightarrow> 'b getter \<Rightarrow> u32 \<Rightarrow> CTransaction \<Rightarrow> nat \<Rightarrow> 'b CCoinsViewCache \<Rightarrow>
      (tx_error + unit) \<times> 'b CCoinsViewCache" where
  "CheckInputs_scripts cr bGet flags tx i c =
     (if i \<ge> length (tx_vin tx) then (Inr (), c)
      else
        let prevout = txin_prevout (tx_vin tx ! i) in
        (case FetchCoins bGet c (outpoint_hash prevout) of
           (None, c') \<Rightarrow> (Inl Aborted, c')
         | (Some coins, c') \<Rightarrow>
             let script = txout_scriptPubKey (coins_vout coins ! unat (outpoint_n prevout)) in
             if CScriptCheck cr tx i flags script then CheckInputs_scripts cr bGet flags tx (i + 1) c'
             else if has_flag flags STANDARD_NOT_MANDATORY_VERIFY_FLAGS \<and>
               CScriptCheck cr tx i (flags AND NOT STANDARD_NOT_MANDATORY_VERIFY_FLAGS) script
             then (Inl (Reject 0 ''non-mandatory-script-verify-flag''), c')
             else (Inl (Reject 100 ''mandatory-script-verify-flag-failed''), c')))"
  by pat_completeness auto
termination
  by (relation "measure (\<lambda>(cr, g, f, tx, i, c). length (tx_vin tx) - i)") auto

declare CheckInputs_scripts.simps [simp del]

text \<open>
  \<^verbatim>\<open>CheckInputs\<close> without the queue for deferred script checks; \<open>prevHeight\<close> is the height of the
  block that \<^verbatim>\<open>inputs.GetBestBlock()\<close> names.
\<close>

definition CheckInputs ::
    "crypto \<Rightarrow> CChainParams \<Rightarrow> 'b getter \<Rightarrow> int \<Rightarrow> bool \<Rightarrow> u32 \<Rightarrow> CTransaction \<Rightarrow> 'b CCoinsViewCache \<Rightarrow>
      (tx_error + unit) \<times> 'b CCoinsViewCache" where
  "CheckInputs cr params bGet prevHeight fScriptChecks flags tx c =
     (if \<not> IsCoinBase tx \<and> prevHeight \<ge> 270000 then
        (case HaveInputs bGet c tx of (have_inputs, c1) \<Rightarrow>
         if \<not> have_inputs then (Inl (Reject 0 ''''), c1)
         else
           (case CheckInputs_values params bGet (prevHeight + 1) (tx_vin tx) 0 c1 of
              (Inl e, c2) \<Rightarrow> (Inl e, c2)
            | (Inr nValueIn, c2) \<Rightarrow>
                (case (if IsCoinStake tx then Inr () else CheckInputs_fees params tx nValueIn) of
                   Inl e \<Rightarrow> (Inl e, c2)
                 | Inr _ \<Rightarrow>
                     if fScriptChecks then CheckInputs_scripts cr bGet flags tx 0 c2 else (Inr (), c2))))
      else (Inr (), c))"

section \<open>Block subsidy\<close>

text \<open>
  \<^verbatim>\<open>GetBlockValue\<close>. The factors such as \<^verbatim>\<open>0.0625 * COIN\<close> are exact in binary floating point;
  the last one is truncated from \<open>195312.5\<close>. \<open>nMoneySupply\<close> is that of the tip.
\<close>

definition base_subsidy :: "int \<Rightarrow> int" where
  "base_subsidy nHeight =
     (if nHeight = 0 then 200000 * COIN
      else if nHeight \<ge> 1 \<and> nHeight \<le> 140159 then 1 * COIN
      else if nHeight \<ge> 140160 \<and> nHeight \<le> 280319 then COIN div 2
      else if nHeight \<ge> 280320 \<and> nHeight \<le> 420479 then COIN div 4
      else if nHeight \<ge> 420480 \<and> nHeight \<le> 560639 then COIN div 8
      else if nHeight \<ge> 560640 \<and> nHeight \<le> 700799 then 6250000
      else if nHeight \<ge> 700800 \<and> nHeight \<le> 840959 then 3125000
      else if nHeight \<ge> 840960 \<and> nHeight \<le> 981119 then 1562500
      else if nHeight \<ge> 981120 \<and> nHeight \<le> 1121279 then COIN div 128
      else if nHeight \<ge> 1121280 \<and> nHeight \<le> 50000000 then 390625
      else 195312)"

definition GetBlockValue :: "CChainParams \<Rightarrow> int \<Rightarrow> int \<Rightarrow> int" where
  "GetBlockValue params nMoneySupply nHeight =
     (if par_testnet params \<and> nHeight < par_LAST_POW_BLOCK params \<and> nHeight > 0 then 20 * COIN
      else
        let nSubsidy = base_subsidy nHeight;
            nSubsidy = (if nMoneySupply + nSubsidy \<ge> par_MaxMoneyOut params
                        then par_MaxMoneyOut params - nMoneySupply else nSubsidy)
        in if nMoneySupply \<ge> par_MaxMoneyOut params then 0 else nSubsidy)"

text \<open>\<^verbatim>\<open>blockValue * 0.75\<close>, truncated; the product is exact for block values below \<open>2 ^ 51\<close>.\<close>

definition GetMasternodePayment :: "CChainParams \<Rightarrow> int \<Rightarrow> int \<Rightarrow> int" where
  "GetMasternodePayment params nHeight blockValue =
     (if nHeight < par_LAST_POW_BLOCK params \<or> blockValue = 0 then 0
      else blockValue * 3 div 4)"

section \<open>Transactions that pass the checks without context\<close>

lemma swrap_money:
  assumes "par_MaxMoneyOut params < 2 ^ 62" "MoneyRange params m" "MoneyRange params v"
  shows "swrap 64 (m + v) = m + v"
  using assms by (intro swrap_id) (auto simp: in_sint_def MoneyRange_def)

lemma CheckTransaction_outs_iff:
  assumes "par_MaxMoneyOut params < 2 ^ 62" "MoneyRange params n"
  shows "CheckTransaction_outs params special outs n = Inr () \<longleftrightarrow>
    (\<forall>out \<in> set outs. 0 \<le> txout_nValue out \<and> (special \<or> \<not> CTxOut_IsEmpty out)) \<and>
    n + sum_list (map txout_nValue outs) \<le> par_MaxMoneyOut params"
  using assms
proof (induction outs arbitrary: n)
  case (Cons out outs)
  let ?v = "txout_nValue out"
  have s: "\<forall>out \<in> set outs. 0 \<le> txout_nValue out \<Longrightarrow> 0 \<le> sum_list (map txout_nValue outs)"
    by (rule sum_list_nonneg_prefix) simp
  show ?case
  proof (cases "MoneyRange params ?v")
    case True
    then have w: "swrap 64 (n + ?v) = n + ?v" using Cons.prems by (intro swrap_money) auto
    show ?thesis
    proof (cases "MoneyRange params (n + ?v)")
      case m: True
      show ?thesis
        using True w m Cons.IH [OF Cons.prems(1) m] Cons.prems(2)
        by (auto simp: MoneyRange_def Let_def algebra_simps)
    next
      case False
      then show ?thesis using True w s Cons.prems(2) by (auto simp: MoneyRange_def Let_def)
    qed
  next
    case False
    then show ?thesis using s Cons.prems(2) by (auto simp: MoneyRange_def)
  qed
qed (auto simp: MoneyRange_def)

lemma CheckTransaction_dups_iff:
  "CheckTransaction_dups seen vin = Inr () \<longleftrightarrow>
     distinct (map txin_prevout vin) \<and> set (map txin_prevout vin) \<inter> set seen = {}"
  by (induction seen vin rule: CheckTransaction_dups.induct) auto

text \<open>The declarative form of the rules.\<close>

definition tx_well_formed :: "CChainParams \<Rightarrow> CTransaction \<Rightarrow> bool" where
  "tx_well_formed params tx \<longleftrightarrow>
     tx_vin tx \<noteq> [] \<and> tx_vout tx \<noteq> [] \<and> length (ser_CTransaction tx) \<le> MAX_BLOCK_SIZE \<and>
     (\<forall>out \<in> set (tx_vout tx). 0 \<le> txout_nValue out) \<and>
     sum_list (map txout_nValue (tx_vout tx)) \<le> par_MaxMoneyOut params \<and>
     (\<forall>out \<in> set (tx_vout tx). CTxOut_IsEmpty out \<longrightarrow> IsCoinBase tx \<or> IsCoinStake tx) \<and>
     distinct (map txin_prevout (tx_vin tx)) \<and>
     (if IsCoinBase tx then 2 \<le> length (txin_scriptSig (tx_vin tx ! 0)) \<and> length (txin_scriptSig (tx_vin tx ! 0)) \<le> 150
      else \<forall>txin \<in> set (tx_vin tx). \<not> COutPoint_IsNull (txin_prevout txin))"

lemma CheckTransaction_iff:
  assumes "0 \<le> par_MaxMoneyOut params" "par_MaxMoneyOut params < 2 ^ 62"
  shows "CheckTransaction params tx = Inr () \<longleftrightarrow> tx_well_formed params tx"
proof -
  have "MoneyRange params 0" using assms by (simp add: MoneyRange_def)
  note o = CheckTransaction_outs_iff [OF assms(2) this, of "IsCoinBase tx \<or> IsCoinStake tx" "tx_vout tx"]
  note d = CheckTransaction_dups_iff [of "[]" "tx_vin tx"]
  show ?thesis
    unfolding CheckTransaction_def tx_well_formed_def
    using o d by (auto simp: case_sum_eq_Inr list_ex_iff not_less split: if_splits sum.splits)
qed

lemma tx_well_formed_GetValueOut:
  assumes "tx_well_formed params tx" "par_MaxMoneyOut params < 2 ^ 62" "\<forall>out \<in> set (tx_vout tx). in_sint 64 (txout_nValue out)"
  shows "GetValueOut tx = Inr (sum_list (map txout_nValue (tx_vout tx)))"
  using assms GetValueOut_loop_eq [of 0 "tx_vout tx" "sum_list (map txout_nValue (tx_vout tx))"]
  by (auto simp: GetValueOut_def tx_well_formed_def)

section \<open>Transactions whose inputs pass the checks\<close>

text \<open>What the first loop establishes of one input.\<close>

definition input_spendable :: "CChainParams \<Rightarrow> int \<Rightarrow> utxo \<Rightarrow> CTxIn \<Rightarrow> bool" where
  "input_spendable params nSpendHeight A txin \<longleftrightarrow>
     (\<exists>x out. A (outpoint_hash (txin_prevout txin)) = Some x \<and> unspent A (txin_prevout txin) = Some out \<and>
        MoneyRange params (txout_nValue out) \<and>
        (coins_fCoinBase x \<or> coins_fCoinStake x \<longrightarrow>
           par_COINBASE_MATURITY params \<le> nSpendHeight - coins_nHeight x))"

definition value_in :: "utxo \<Rightarrow> CTxIn list \<Rightarrow> int" where
  "value_in A vin = sum_list (map (\<lambda>txin. txout_nValue (the (unspent A (txin_prevout txin)))) vin)"

context coins_view
begin

text \<open>A lookup at an outpoint that is unspent finds the record of its transaction.\<close>

lemma fetch_unspent:
  assumes "cinv c" "FetchCoins get c (outpoint_hash p) = (r, c')" "unspent (cabs c) p = Some out"
  obtains x where "r = Some x" "cabs c (outpoint_hash p) = Some x" "coins_vout x ! unat (outpoint_n p) = out"
    "cinv c'" "cabs c' = cabs c"
proof -
  note fc = fetch_correct [OF assms(1,2)]
  from assms(3) obtain x where x: "cabs c (outpoint_hash p) = Some x" "coins_vout x ! unat (outpoint_n p) = out"
    by (auto simp: unspent_def split: option.splits if_splits)
  have "r = Some x" using fc(3) x(1) by (auto simp: coins_opt_def split: option.splits if_splits)
  with that x fc(1,2) show thesis by blast
qed

lemma check_values_sound:
  assumes "cinv c" "CheckInputs_values params get h vin n c = (Inr v, c')"
    and "par_MaxMoneyOut params < 2 ^ 62" "MoneyRange params n"
    and "\<forall>txin \<in> set vin. unspent (cabs c) (txin_prevout txin) \<noteq> None"
  shows "cinv c' \<and> cabs c' = cabs c \<and> v = n + value_in (cabs c) vin \<and> MoneyRange params v \<and>
    (\<forall>txin \<in> set vin. input_spendable params h (cabs c) txin)"
  using assms
proof (induction vin arbitrary: c n)
  case (Cons txin vin)
  let ?p = "txin_prevout txin"
  obtain out where out: "unspent (cabs c) ?p = Some out" using Cons.prems(5) by auto
  obtain r c1 where f: "FetchCoins get c (outpoint_hash ?p) = (r, c1)" by (cases "FetchCoins get c (outpoint_hash ?p)")
  from fetch_unspent [OF Cons.prems(1) f out] obtain x where
    x: "r = Some x" "cabs c (outpoint_hash ?p) = Some x" "coins_vout x ! unat (outpoint_n ?p) = out"
      "cinv c1" "cabs c1 = cabs c" by blast
  let ?v = "txout_nValue out"
  from Cons.prems(2) f x(1,3) have m:
      "coins_fCoinBase x \<or> coins_fCoinStake x \<longrightarrow> par_COINBASE_MATURITY params \<le> h - coins_nHeight x"
      "MoneyRange params ?v" "MoneyRange params (swrap 64 (n + ?v))"
      "CheckInputs_values params get h vin (swrap 64 (n + ?v)) c1 = (Inr v, c')"
    by (auto simp: Let_def not_less split: if_splits)
  have w: "swrap 64 (n + ?v) = n + ?v" by (rule swrap_money [OF Cons.prems(3,4) m(2)])
  have "cinv c' \<and> cabs c' = cabs c1 \<and> v = n + ?v + value_in (cabs c1) vin \<and> MoneyRange params v \<and>
    (\<forall>txin \<in> set vin. input_spendable params h (cabs c1) txin)"
    by (rule Cons.IH) (use x m w Cons.prems(3,5) in auto)
  then show ?case using x(2,5) out m(1,2) by (auto simp: value_in_def input_spendable_def)
qed (auto simp: value_in_def)

lemma check_scripts_sound:
  assumes "cinv c" "CheckInputs_scripts cr get flags tx i c = (Inr (), c')"
    and "\<forall>txin \<in> set (tx_vin tx). unspent (cabs c) (txin_prevout txin) \<noteq> None"
  shows "cinv c' \<and> cabs c' = cabs c \<and>
    (\<forall>j. i \<le> j \<longrightarrow> j < length (tx_vin tx) \<longrightarrow> CScriptCheck cr tx j flags
       (txout_scriptPubKey (the (unspent (cabs c) (txin_prevout (tx_vin tx ! j))))))"
  using assms
proof (induction "length (tx_vin tx) - i" arbitrary: i c rule: less_induct)
  case less
  show ?case
  proof (cases "i < length (tx_vin tx)")
    case False
    then show ?thesis using less.prems by (simp add: CheckInputs_scripts.simps [of _ _ _ _ i])
  next
    case True
    let ?p = "txin_prevout (tx_vin tx ! i)"
    obtain out where out: "unspent (cabs c) ?p = Some out" using less.prems(3) True by fastforce
    obtain r c1 where f: "FetchCoins get c (outpoint_hash ?p) = (r, c1)" by (cases "FetchCoins get c (outpoint_hash ?p)")
    from fetch_unspent [OF less.prems(1) f out] obtain x where
      x: "r = Some x" "coins_vout x ! unat (outpoint_n ?p) = out" "cinv c1" "cabs c1 = cabs c" by blast
    have s: "CScriptCheck cr tx i flags (txout_scriptPubKey out)"
      "CheckInputs_scripts cr get flags tx (i + 1) c1 = (Inr (), c')"
      using less.prems(2) True f x(1,2)
      by (subst (asm) CheckInputs_scripts.simps; auto simp: Let_def split: if_splits)+
    have "length (tx_vin tx) - (i + 1) < length (tx_vin tx) - i" using True by simp
    from less.hyps [OF this x(3) s(2)] less.prems(3) x(4)
    have h: "cinv c'" "cabs c' = cabs c" "\<And>j. i + 1 \<le> j \<Longrightarrow> j < length (tx_vin tx) \<Longrightarrow> CScriptCheck cr tx j flags
       (txout_scriptPubKey (the (unspent (cabs c) (txin_prevout (tx_vin tx ! j)))))" by auto
    have "CScriptCheck cr tx j flags (txout_scriptPubKey (the (unspent (cabs c) (txin_prevout (tx_vin tx ! j)))))"
      if "i \<le> j" "j < length (tx_vin tx)" for j
      using that h(3) s(1) out by (cases "j = i") auto
    with h(1,2) show ?thesis by blast
  qed
qed

lemma check_inputs_sound:
  assumes c: "cinv c" and r: "CheckInputs cr params get prevHeight fScriptChecks flags tx c = (Inr (), c')"
    and t: "\<not> IsCoinBase tx" "270000 \<le> prevHeight"
    and p: "0 \<le> par_MaxMoneyOut params" "par_MaxMoneyOut params < 2 ^ 62"
  shows "cinv c'" "cabs c' = cabs c"
    "\<forall>txin \<in> set (tx_vin tx). input_spendable params (prevHeight + 1) (cabs c) txin"
    "MoneyRange params (value_in (cabs c) (tx_vin tx))"
    "\<not> IsCoinStake tx \<Longrightarrow> \<exists>vo. GetValueOut tx = Inr vo \<and> vo \<le> value_in (cabs c) (tx_vin tx)"
    "fScriptChecks \<Longrightarrow> \<forall>i < length (tx_vin tx). CScriptCheck cr tx i flags
       (txout_scriptPubKey (the (unspent (cabs c) (txin_prevout (tx_vin tx ! i)))))"
proof -
  obtain b c1 where h: "HaveInputs get c tx = (b, c1)" by (cases "HaveInputs get c tx")
  note hi = have_inputs_correct [OF c h]
  obtain rv c2 where v: "CheckInputs_values params get (prevHeight + 1) (tx_vin tx) 0 c1 = (rv, c2)"
    by (cases "CheckInputs_values params get (prevHeight + 1) (tx_vin tx) 0 c1")
  have b: "b" using r t h by (auto simp: CheckInputs_def split: if_splits)
  obtain n where n: "rv = Inr n"
    using r t h b v by (cases rv) (auto simp: CheckInputs_def split: if_splits)
  have u: "\<forall>txin \<in> set (tx_vin tx). unspent (cabs c1) (txin_prevout txin) \<noteq> None"
    using hi(2,3) b t(1) by auto
  have "MoneyRange params 0" using p by (simp add: MoneyRange_def)
  from check_values_sound [OF hi(1) v [unfolded n] p(2) this u]
  have cv: "cinv c2" "cabs c2 = cabs c" "n = value_in (cabs c) (tx_vin tx)" "MoneyRange params n"
      "\<forall>txin \<in> set (tx_vin tx). input_spendable params (prevHeight + 1) (cabs c) txin"
    using hi(2) by auto
  then show "\<forall>txin \<in> set (tx_vin tx). input_spendable params (prevHeight + 1) (cabs c) txin"
    "MoneyRange params (value_in (cabs c) (tx_vin tx))" by auto
  have fee: "(if IsCoinStake tx then Inr () else CheckInputs_fees params tx n) = Inr ()"
    using r t h b v n by (auto simp: CheckInputs_def split: if_splits sum.splits)
  show "\<exists>vo. GetValueOut tx = Inr vo \<and> vo \<le> value_in (cabs c) (tx_vin tx)" if "\<not> IsCoinStake tx"
    using fee that cv(3) by (auto simp: CheckInputs_fees_def Let_def not_less split: sum.splits if_splits)
  have s: "(if fScriptChecks then CheckInputs_scripts cr get flags tx 0 c2 else (Inr (), c2)) = (Inr (), c')"
    using r t h b v n fee by (simp add: CheckInputs_def)
  have u2: "\<forall>txin \<in> set (tx_vin tx). unspent (cabs c2) (txin_prevout txin) \<noteq> None"
    using u hi(2) cv(2) by simp
  have cs: "cinv c' \<and> cabs c' = cabs c \<and> (fScriptChecks \<longrightarrow> (\<forall>i < length (tx_vin tx). CScriptCheck cr tx i flags
       (txout_scriptPubKey (the (unspent (cabs c) (txin_prevout (tx_vin tx ! i)))))))"
  proof (cases fScriptChecks)
    case True
    then have "CheckInputs_scripts cr get flags tx 0 c2 = (Inr (), c')" using s by simp
    from check_scripts_sound [OF cv(1) this u2] show ?thesis using cv(2) by auto
  next
    case False
    then show ?thesis using s cv(1,2) by simp
  qed
  then show "cinv c'" "cabs c' = cabs c" by auto
  show "\<forall>i < length (tx_vin tx). CScriptCheck cr tx i flags
       (txout_scriptPubKey (the (unspent (cabs c) (txin_prevout (tx_vin tx ! i)))))" if fScriptChecks
    using cs that by blast
qed

end

section \<open>Below the activation height\<close>

lemma CheckInputs_early:
  "prevHeight < 270000 \<Longrightarrow> CheckInputs cr params bGet prevHeight fScriptChecks flags tx c = (Inr (), c)"
  by (simp add: CheckInputs_def)

section \<open>The subsidy respects the maximal supply\<close>

lemma base_subsidy_pos: "0 < base_subsidy h"
  by (simp add: base_subsidy_def)

lemma GetBlockValue_capped:
  assumes "\<not> par_testnet params \<or> par_LAST_POW_BLOCK params \<le> h \<or> h \<le> 0"
  shows "0 \<le> GetBlockValue params supply h"
    and "supply \<le> par_MaxMoneyOut params \<Longrightarrow> supply + GetBlockValue params supply h \<le> par_MaxMoneyOut params"
  using assms base_subsidy_pos [of h] by (auto simp: GetBlockValue_def Let_def)

lemma GetBlockValue_full:
  assumes "supply + base_subsidy h < par_MaxMoneyOut params" "\<not> par_testnet params"
  shows "GetBlockValue params supply h = base_subsidy h"
  using assms base_subsidy_pos [of h] by (auto simp: GetBlockValue_def Let_def)

lemma base_subsidy_antimono: "0 \<le> h \<Longrightarrow> h \<le> h' \<Longrightarrow> base_subsidy h' \<le> base_subsidy h"
  by (simp add: base_subsidy_def)

lemma GetMasternodePayment_bounds:
  assumes "0 \<le> blockValue"
  shows "0 \<le> GetMasternodePayment params h blockValue" "4 * GetMasternodePayment params h blockValue \<le> 3 * blockValue"
  using assms by (auto simp: GetMasternodePayment_def)

section \<open>Fees\<close>

lemma GetFee_exact:
  assumes "0 < rate" "rate * int n < 2 ^ 63"
  shows "GetFee rate n = (if rate * int n < 1000 then rate else rate * int n div 1000)"
proof -
  define x where "x = rate * int n"
  have x: "0 \<le> x" "x < 2 ^ 63" using assms by (simp_all add: x_def)
  have "x div 1000 * 1000 + x mod 1000 = x" "0 \<le> x mod 1000" by simp_all
  moreover have "0 \<le> x div 1000" using x(1) by (simp add: pos_imp_zdiv_nonneg_iff)
  ultimately have "0 \<le> x div 1000" "x div 1000 \<le> x" by linarith+
  then have "in_sint 64 (x div 1000)" using x(2) unfolding in_sint_def by simp
  then have "swrap 64 (x mod 2 ^ 64 div 1000) = x div 1000" using x by (simp add: swrap_id)
  then show ?thesis
    using assms(1) x(1) unfolding GetFee_def x_def [symmetric] Let_def by auto
qed

section \<open>Properties\<close>

text \<open>
  C11: The context-free checks accept exactly the well-formed transactions: inputs and outputs
  present, within the size limit, no negative value, a total within the money range although
  it is summed up in 64 bits, no empty output outside coinbase and coinstake, no outpoint
  spent twice, and null outpoints in a coinbase only.
\<close>

theorem check_transaction_iff:
  assumes "0 \<le> par_MaxMoneyOut params" "par_MaxMoneyOut params < 2 ^ 62"
  shows "CheckTransaction params tx = Inr () \<longleftrightarrow> tx_well_formed params tx"
  by (rule CheckTransaction_iff [OF assms])

lemma sample_tx_well_formed: "tx_well_formed CMainParams sample_tx"
  by (simp add: tx_well_formed_def sample_tx_def ser_CTransaction_def ser_vector_def length_WriteCompactSize
      GetSizeOfCompactSize_def ser_CTxIn_def ser_CTxOut_def ser_COutPoint_def ser_word_def ser_int_def
      ser_bytes_def CTxOut_IsEmpty_def IsCoinBase_def COutPoint_IsNull_def CMainParams_def)

theorem check_transaction_iff_witness: "CheckTransaction CMainParams sample_tx = Inr ()"
  using check_transaction_iff [of CMainParams sample_tx] sample_tx_well_formed by (simp add: CMainParams_def)

text \<open>
  C9: A transaction that \<^verbatim>\<open>CheckInputs\<close> accepts from height 270000 on spends outputs that are
  unspent, mature where they come from a coinbase or a stake, and in the money range; unless it
  is a coinstake it creates no value; and with script checks on, every input satisfies the
  script it spends. The set of unspent outputs is not changed.
\<close>

theorem CheckInputs_sound:
  assumes "view_inv c" "CheckInputs cr params tip_get prevHeight fScriptChecks flags tx c = (Inr (), c')"
    and "\<not> IsCoinBase tx" "270000 \<le> prevHeight"
    and "0 \<le> par_MaxMoneyOut params" "par_MaxMoneyOut params < 2 ^ 62"
  shows "view_inv c' \<and> view_abs c' = view_abs c \<and>
    (\<forall>txin \<in> set (tx_vin tx). input_spendable params (prevHeight + 1) (view_abs c) txin) \<and>
    MoneyRange params (value_in (view_abs c) (tx_vin tx)) \<and>
    (\<not> IsCoinStake tx \<longrightarrow> (\<exists>vo. GetValueOut tx = Inr vo \<and> vo \<le> value_in (view_abs c) (tx_vin tx))) \<and>
    (fScriptChecks \<longrightarrow> (\<forall>i < length (tx_vin tx). CScriptCheck cr tx i flags
       (txout_scriptPubKey (the (unspent (view_abs c) (txin_prevout (tx_vin tx ! i)))))))"
  using db.cache.check_inputs_sound [OF assms] by blast

definition sample_crypto :: crypto where
  "sample_crypto = \<lparr>crypto_ripemd160 = (\<lambda>x. x), crypto_sha1 = (\<lambda>x. x), crypto_sha256 = (\<lambda>x. x),
     crypto_verify = (\<lambda>_ _ _. False)\<rparr>"

lemma sample_script_check: "CScriptCheck sample_crypto sample_tx 0 0 [OP_1]"
proof -
  have "CScriptNum_serialize 1 = [1]"
    by (simp add: CScriptNum_serialize_def scriptnum_bytes.simps)
  then show ?thesis
    by (simp add: CScriptCheck_def VerifyScript_def sample_tx_def tx_env_def EvalScript_def init_state_def
        eval_loop_op is_disabled_def fExec_def exec_opcode_def exec_push_num_def count_op_def has_flag_def
        fRequireMinimal_def)
qed

lemma sample_fetch:
  "\<exists>v. FetchCoins tip_get sample_view 7 = (Some sample_coins, v) \<and> FetchCoins tip_get v 7 = (Some sample_coins, v)"
  by (simp add: sample_view_def FetchCoins_def cache_GetCoins_def cache_new_def DB_GetCoins_def sample_db_def)

lemma sample_tx_simps:
  "tx_vin sample_tx = [\<lparr>txin_prevout = \<lparr>outpoint_hash = 7, outpoint_n = 0\<rparr>, txin_scriptSig = [], txin_nSequence = 5\<rparr>]"
  "GetValueOut sample_tx = Inr 42" "\<not> IsCoinStake sample_tx"
  by (simp_all add: sample_tx_def GetValueOut_def IsCoinStake_def swrap_def CTxOut_IsEmpty_def)

lemma sample_check_inputs:
  "\<exists>c'. CheckInputs sample_crypto CMainParams tip_get 270000 True 0 sample_tx sample_view = (Inr (), c')"
proof -
  from sample_fetch obtain v where v: "FetchCoins tip_get sample_view 7 = (Some sample_coins, v)"
    "FetchCoins tip_get v 7 = (Some sample_coins, v)" by blast
  have x: "coins_vout sample_coins = [\<lparr>txout_nValue = 50, txout_scriptPubKey = [OP_1]\<rparr>]"
    "\<not> coins_fCoinBase sample_coins" "\<not> coins_fCoinStake sample_coins" "IsAvailable sample_coins 0"
    by (simp_all add: sample_coins_def IsAvailable_def CTxOut_IsNull_def)
  have h: "HaveInputs tip_get sample_view sample_tx = (True, v)"
    using v x by (simp add: HaveInputs_def sample_tx_simps)
  have m: "CheckInputs_values CMainParams tip_get 270001 (tx_vin sample_tx) 0 v = (Inr 50, v)"
    using v x by (simp add: sample_tx_simps MoneyRange_def CMainParams_def swrap_def)
  have f: "CheckInputs_fees CMainParams sample_tx 50 = Inr ()"
    by (simp add: CheckInputs_fees_def sample_tx_simps swrap_def MoneyRange_def CMainParams_def)
  have "CheckInputs_scripts sample_crypto tip_get 0 sample_tx 0 v = (Inr (), v)"
    using v x sample_script_check by (simp add: CheckInputs_scripts.simps sample_tx_simps)
  with h m f show ?thesis by (simp add: CheckInputs_def sample_tx_simps(3))
qed

theorem CheckInputs_sound_witness:
  "value_in [7 \<mapsto> sample_coins] (tx_vin sample_tx) \<ge> 42 \<and>
   input_spendable CMainParams 270001 [7 \<mapsto> sample_coins] (hd (tx_vin sample_tx))"
proof -
  from sample_check_inputs obtain c' where
    "CheckInputs sample_crypto CMainParams tip_get 270000 True 0 sample_tx sample_view = (Inr (), c')" by blast
  from CheckInputs_sound [OF sample_view_inv this] show ?thesis
    by (simp add: CMainParams_def sample_tx_simps)
qed

text \<open>
  Below height 270000 \<^verbatim>\<open>CheckInputs\<close> accepts every transaction without looking at its inputs,
  its values or its scripts.
\<close>

theorem check_inputs_skipped_early:
  assumes "prevHeight < 270000"
  shows "CheckInputs cr params bGet prevHeight fScriptChecks flags tx c = (Inr (), c)"
  by (rule CheckInputs_early [OF assms])

theorem check_inputs_skipped_early_witness:
  "CheckInputs sample_crypto CMainParams tip_get 269999 True 1
     (sample_tx\<lparr>tx_vout := [\<lparr>txout_nValue = 51, txout_scriptPubKey = []\<rparr>]\<rparr>) sample_view = (Inr (), sample_view)"
  by (rule check_inputs_skipped_early) simp

text \<open>
  On the main network a block never mints beyond the maximal supply, mints a positive amount
  as long as supply is left, and the masternode share is at most three quarters of the value.
\<close>

theorem block_value_capped:
  assumes "\<not> par_testnet params" "supply \<le> par_MaxMoneyOut params"
  shows "0 \<le> GetBlockValue params supply h \<and>
    supply + GetBlockValue params supply h \<le> par_MaxMoneyOut params \<and>
    (supply < par_MaxMoneyOut params \<longrightarrow> 0 < GetBlockValue params supply h) \<and>
    4 * GetMasternodePayment params h (GetBlockValue params supply h) \<le> 3 * GetBlockValue params supply h"
  using GetBlockValue_capped [of params h] GetMasternodePayment_bounds(2) [of "GetBlockValue params supply h" params h]
    base_subsidy_pos [of h] assms
  by (auto simp: GetBlockValue_def Let_def)

theorem block_value_capped_witness:
  "4999999999999999 + GetBlockValue CMainParams 4999999999999999 300000 \<le> 5000000000000000"
  using block_value_capped [of CMainParams 4999999999999999 300000] by (simp add: CMainParams_def)

text \<open>
  The subsidy before the cap never rises with the height.
\<close>

theorem subsidy_never_rises:
  assumes "0 \<le> h" "h \<le> h'"
  shows "base_subsidy h' \<le> base_subsidy h"
  by (rule base_subsidy_antimono [OF assms])

theorem subsidy_never_rises_witness: "base_subsidy 280320 \<le> base_subsidy 280319"
  by (rule subsidy_never_rises) simp_all

text \<open>
  A relay fee is the rate times the size over 1000, rounded down, in exact arithmetic where
  the product fits, and a positive rate never gives a zero fee.
\<close>

theorem fee_exact:
  assumes "0 < rate" "rate * int n < 2 ^ 63"
  shows "GetFee rate n = (if rate * int n < 1000 then rate else rate * int n div 1000)"
  by (rule GetFee_exact [OF assms])

theorem fee_exact_witness: "GetFee 10000 226 = 2260"
  using fee_exact [of 10000 226] by simp

end
