(* ===== verification/Supply.thy ===== *)
theory Supply
  imports TxCheck
begin

text \<open>
  The abstract effect of the transactions of a block on the set of unspent outputs, and the sum of
  the values in that set. A block is a sequence of the steps of \<^verbatim>\<open>UpdateCoins\<close>.
\<close>

section \<open>The value of a set of coins\<close>

definition out_value :: "CTxOut \<Rightarrow> int" where
  "out_value out = (if CTxOut_IsNull out then 0 else txout_nValue out)"

definition coins_value :: "CCoins \<Rightarrow> int" where
  "coins_value x = sum_list (map out_value (coins_vout x))"

definition opt_value :: "CCoins option \<Rightarrow> int" where
  "opt_value r = (case r of None \<Rightarrow> 0 | Some x \<Rightarrow> coins_value x)"

definition total_value :: "utxo \<Rightarrow> int" where
  "total_value A = (\<Sum>k \<in> UNIV. opt_value (A k))"

text \<open>No output in the set has a negative value.\<close>

definition coins_nonneg :: "CCoins \<Rightarrow> bool" where
  "coins_nonneg x \<longleftrightarrow> (\<forall>out \<in> set (coins_vout x). 0 \<le> out_value out)"

definition utxo_nonneg :: "utxo \<Rightarrow> bool" where
  "utxo_nonneg A \<longleftrightarrow> (\<forall>k x. A k = Some x \<longrightarrow> coins_nonneg x)"

lemma total_value_upd: "total_value (A(k := v)) = total_value A - opt_value (A k) + opt_value v"
proof -
  have "total_value (A(k := v)) = opt_value v + (\<Sum>j \<in> UNIV - {k}. opt_value (A j))"
    unfolding total_value_def by (subst sum.remove [of _ k]) (auto intro!: arg_cong2 [of _ _ _ _ "(+)"] sum.cong)
  moreover have "total_value A = opt_value (A k) + (\<Sum>j \<in> UNIV - {k}. opt_value (A j))"
    unfolding total_value_def by (subst sum.remove [of _ k]) auto
  ultimately show ?thesis by simp
qed

lemma sum_null: "list_all CTxOut_IsNull outs \<Longrightarrow> sum_list (map out_value outs) = 0"
  by (induction outs) (auto simp: out_value_def)

lemma coins_value_Cleanup [simp]: "coins_value (Cleanup x) = coins_value x"
proof -
  obtain ys where "coins_vout x = Cleanup_vout (coins_vout x) @ ys" "list_all CTxOut_IsNull ys"
    using Cleanup_vout_decomp by blast
  then have "coins_value x = sum_list (map out_value (Cleanup_vout (coins_vout x) @ ys))" by (simp add: coins_value_def)
  then show ?thesis using sum_null [OF \<open>list_all CTxOut_IsNull ys\<close>] by (simp add: coins_value_def Cleanup_def)
qed

lemma opt_value_coins_opt [simp]: "opt_value (coins_opt (Some x)) = coins_value x"
  by (simp add: opt_value_def coins_opt_def coins_value_def IsPruned_def sum_null)

lemma coins_nonneg_Cleanup: "coins_nonneg x \<Longrightarrow> coins_nonneg (Cleanup x)"
  using set_Cleanup_vout by (auto simp: coins_nonneg_def Cleanup_def)

lemma coins_value_nonneg: "coins_nonneg x \<Longrightarrow> 0 \<le> coins_value x"
  unfolding coins_nonneg_def coins_value_def by (rule sum_list_nonneg) auto

lemma opt_value_nonneg: "utxo_nonneg A \<Longrightarrow> 0 \<le> opt_value (A k)"
  by (auto simp: opt_value_def utxo_nonneg_def coins_value_nonneg split: option.split)

lemma total_value_nonneg: "utxo_nonneg A \<Longrightarrow> 0 \<le> total_value A"
  unfolding total_value_def by (intro sum_nonneg) (simp add: opt_value_nonneg)

lemma sum_list_update_int: "n < length xs \<Longrightarrow> sum_list (xs[n := v]) = sum_list xs - xs ! n + (v :: int)"
  by (induction xs arbitrary: n) (auto split: nat.split)

lemma Spend_value:
  assumes "Spend x n = Some (x', u)"
  shows "coins_value x' = coins_value x - txout_nValue (coins_vout x ! n)" "IsAvailable x n" "\<not> IsAvailable x' n"
    "coins_nonneg x \<Longrightarrow> coins_nonneg x'" "m \<noteq> n \<Longrightarrow> IsAvailable x' m = IsAvailable x m"
    "IsAvailable x' m \<Longrightarrow> coins_vout x' ! m = coins_vout x ! m"
proof -
  have n: "n < length (coins_vout x)" "\<not> CTxOut_IsNull (coins_vout x ! n)"
    using assms by (auto simp: Spend_def split: if_splits)
  let ?y = "x\<lparr>coins_vout := (coins_vout x)[n := CTxOut_null]\<rparr>"
  have x': "x' = Cleanup ?y" using assms n by (auto simp: Spend_def Let_def split: if_splits)
  have "coins_value ?y = coins_value x - txout_nValue (coins_vout x ! n)"
    using n by (simp add: coins_value_def map_update sum_list_update_int out_value_def)
  then show "coins_value x' = coins_value x - txout_nValue (coins_vout x ! n)" using x' by simp
  show "IsAvailable x n" using n by (simp add: IsAvailable_def)
  show "\<not> IsAvailable x' n" unfolding x' IsAvailable_Cleanup by (simp add: IsAvailable_def)
  show "coins_nonneg x'" if "coins_nonneg x"
  proof -
    have "coins_nonneg ?y"
      using that set_update_subset_insert [of "coins_vout x" n CTxOut_null] by (fastforce simp: coins_nonneg_def out_value_def)
    then show ?thesis unfolding x' by (rule coins_nonneg_Cleanup)
  qed
  show "m \<noteq> n \<Longrightarrow> IsAvailable x' m = IsAvailable x m" unfolding x' IsAvailable_Cleanup by (simp add: IsAvailable_def)
  show "coins_vout x' ! m = coins_vout x ! m" if "IsAvailable x' m"
  proof -
    have m: "m < length (Cleanup_vout (coins_vout ?y))" using that by (simp add: x' IsAvailable_def Cleanup_def)
    have "Cleanup_vout (coins_vout ?y) ! m = coins_vout ?y ! m"
      using m Cleanup_vout_decomp [of "coins_vout ?y"] by (metis nth_append)
    moreover have "m \<noteq> n" using that \<open>\<not> IsAvailable x' n\<close> by auto
    ultimately show ?thesis by (simp add: x' Cleanup_def)
  qed
qed

lemma abs_spend_value:
  assumes "abs_spend p A = Some (u, A')"
  shows "total_value A' = total_value A - txout_nValue (the (unspent A p))" "unspent A p \<noteq> None" "unspent A' p = None"
    "q \<noteq> p \<Longrightarrow> unspent A' q = unspent A q" "utxo_nonneg A \<Longrightarrow> utxo_nonneg A'"
proof -
  from assms obtain x x' where x: "A (outpoint_hash p) = Some x" "Spend x (unat (outpoint_n p)) = Some (x', u)"
    "A' = A(outpoint_hash p := coins_opt (Some x'))"
    by (auto simp: abs_spend_def split: option.splits)
  note s = Spend_value [OF x(2)]
  have p: "unspent A p = Some (coins_vout x ! unat (outpoint_n p))" using x(1) s(2) by (simp add: unspent_def)
  show "total_value A' = total_value A - txout_nValue (the (unspent A p))"
    unfolding x(3) total_value_upd opt_value_coins_opt using s(1) x(1) p by (simp add: opt_value_def)
  show "unspent A p \<noteq> None" using p by simp
  show "unspent A' p = None" using s(3) by (simp add: x(3) unspent_def coins_opt_def)
  show "unspent A' q = unspent A q" if "q \<noteq> p"
  proof (cases "outpoint_hash q = outpoint_hash p")
    case True
    with that have "unat (outpoint_n q) \<noteq> unat (outpoint_n p)" by (auto simp: unsigned_word_eqI)
    then show ?thesis
      using s(5,6) [of "unat (outpoint_n q)"] True x(1) IsPruned_iff_available [of x']
      by (auto simp: unspent_def x(3) coins_opt_def)
  qed (simp add: unspent_def x(3))
  show "utxo_nonneg A'" if "utxo_nonneg A"
    using that s(4) x(1) by (auto simp: utxo_nonneg_def x(3) coins_opt_def split: if_splits)
qed

lemma abs_spends_unspent: "abs_spends vin A = Some (us, A') \<Longrightarrow> \<forall>txin \<in> set vin. unspent A (txin_prevout txin) \<noteq> None"
proof (induction vin arbitrary: A us)
  case (Cons txin vin)
  from Cons.prems obtain u A1 us1 where a: "abs_spend (txin_prevout txin) A = Some (u, A1)" "abs_spends vin A1 = Some (us1, A')"
    by (auto split: option.splits)
  note s = abs_spend_value [OF a(1)]
  show ?case using Cons.IH [OF a(2)] s(2,3) s(4) by (metis set_ConsD)
qed simp

lemma abs_spends_value:
  "abs_spends vin A = Some (us, A') \<Longrightarrow> total_value A' = total_value A - value_in A vin \<and> (utxo_nonneg A \<longrightarrow> utxo_nonneg A')"
proof (induction vin arbitrary: A us)
  case (Cons txin vin)
  let ?p = "txin_prevout txin"
  from Cons.prems obtain u A1 us1 where a: "abs_spend ?p A = Some (u, A1)" "abs_spends vin A1 = Some (us1, A')"
    by (auto split: option.splits)
  note s = abs_spend_value [OF a(1)]
  have "?p \<notin> txin_prevout ` set vin" using abs_spends_unspent [OF a(2)] s(3) by auto
  then have "value_in A1 vin = value_in A vin"
    unfolding value_in_def by (intro arg_cong [of _ _ sum_list] map_cong refl arg_cong [of _ _ "\<lambda>r. txout_nValue (the r)"] s(4))
      (metis imageI)
  then show ?case using Cons.IH [OF a(2)] s(1,5) by (simp add: value_in_def)
qed (simp add: value_in_def)

definition tx_out :: "CTransaction \<Rightarrow> int" where
  "tx_out tx = sum_list (map txout_nValue (tx_vout tx))"

lemma FromTx_value:
  assumes "\<forall>out \<in> set (tx_vout tx). 0 \<le> txout_nValue out"
  shows "coins_value (FromTx tx h) \<le> tx_out tx" "coins_nonneg (FromTx tx h)"
proof -
  let ?f = "\<lambda>out. if IsUnspendable (txout_scriptPubKey out) then CTxOut_null else out"
  have "sum_list (map (out_value \<circ> ?f) outs) \<le> sum_list (map txout_nValue outs)" if "\<forall>out \<in> set outs. 0 \<le> txout_nValue out" for outs
    using that by (intro sum_list_mono) (auto simp: out_value_def)
  then show "coins_value (FromTx tx h) \<le> tx_out tx"
    using assms by (simp add: FromTx_def ClearUnspendable_def tx_out_def) (simp add: coins_value_def)
  have "coins_nonneg \<lparr>coins_fCoinBase = IsCoinBase tx, coins_fCoinStake = IsCoinStake tx, coins_vout = map ?f (tx_vout tx),
      coins_nHeight = h, coins_nVersion = tx_nVersion tx\<rparr>"
    using assms by (auto simp: coins_nonneg_def out_value_def)
  then show "coins_nonneg (FromTx tx h)" by (simp add: FromTx_def ClearUnspendable_def coins_nonneg_Cleanup)
qed

definition tx_in :: "utxo \<Rightarrow> CTransaction \<Rightarrow> int" where
  "tx_in A tx = (if IsCoinBase tx then 0 else value_in A (tx_vin tx))"

lemma abs_update_value:
  assumes "abs_update txid tx h A = Some (us, A')" "utxo_nonneg A" "\<forall>out \<in> set (tx_vout tx). 0 \<le> txout_nValue out"
  shows "total_value A' \<le> total_value A + tx_out tx - tx_in A tx" "utxo_nonneg A'"
proof -
  from assms(1) obtain A1 where a: "(if \<not> IsCoinBase tx then abs_spends (tx_vin tx) A else Some ([], A)) = Some (us, A1)"
      "A' = A1(txid tx := coins_opt (Some (FromTx tx h)))"
    by (auto simp: abs_update_def split: option.splits if_splits)
  have s: "total_value A1 = total_value A - tx_in A tx" "utxo_nonneg A1"
    using a(1) assms(2) abs_spends_value [of "tx_vin tx" A us A1] by (auto simp: tx_in_def split: if_splits)
  note f = FromTx_value [OF assms(3), of h]
  show "total_value A' \<le> total_value A + tx_out tx - tx_in A tx"
    unfolding a(2) total_value_upd using s f(1) opt_value_nonneg [OF s(2), of "txid tx"] by simp
  show "utxo_nonneg A'" using s(2) f(2) by (auto simp: a(2) utxo_nonneg_def coins_opt_def split: if_splits)
qed

section \<open>Blocks\<close>

fun abs_block :: "(CTransaction \<Rightarrow> u256) \<Rightarrow> int \<Rightarrow> CTransaction list \<Rightarrow> utxo \<Rightarrow> (CTxUndo list \<times> utxo) option" where
  "abs_block txid h [] A = Some ([], A)"
| "abs_block txid h (tx # vtx) A =
     (case abs_update txid tx h A of
        None \<Rightarrow> None
      | Some (us, A') \<Rightarrow> map_option (\<lambda>(uss, A''). (us # uss, A'')) (abs_block txid h vtx A'))"

text \<open>The sum of \<open>f\<close> over the transactions, each at the set of coins that it finds.\<close>

fun block_sum :: "(utxo \<Rightarrow> CTransaction \<Rightarrow> int) \<Rightarrow> (CTransaction \<Rightarrow> u256) \<Rightarrow> int \<Rightarrow> CTransaction list \<Rightarrow> utxo \<Rightarrow> int" where
  "block_sum f txid h [] A = 0"
| "block_sum f txid h (tx # vtx) A =
     f A tx + (case abs_update txid tx h A of None \<Rightarrow> 0 | Some (us, A') \<Rightarrow> block_sum f txid h vtx A')"

text \<open>What a block creates: the outputs of the coinbase, and what a coinstake pays beyond its inputs.\<close>

definition tx_mint :: "utxo \<Rightarrow> CTransaction \<Rightarrow> int" where
  "tx_mint A tx = (if IsCoinBase tx then tx_out tx else if IsCoinStake tx then tx_out tx - tx_in A tx else 0)"

lemma abs_block_value:
  assumes "abs_block txid h vtx A = Some (us, A')" "utxo_nonneg A"
    and "\<forall>tx \<in> set vtx. \<forall>out \<in> set (tx_vout tx). 0 \<le> txout_nValue out"
  shows "total_value A' \<le> total_value A + block_sum (\<lambda>A tx. tx_out tx - tx_in A tx) txid h vtx A \<and> utxo_nonneg A'"
  using assms
proof (induction vtx arbitrary: A us)
  case (Cons tx vtx)
  from Cons.prems(1) obtain u A1 us1 where a: "abs_update txid tx h A = Some (u, A1)" "abs_block txid h vtx A1 = Some (us1, A')"
    by (auto split: option.splits)
  have nn: "\<forall>out \<in> set (tx_vout tx). 0 \<le> txout_nValue out" using Cons.prems(3) by simp
  note v = abs_update_value [OF a(1) Cons.prems(2) nn]
  from Cons.IH [OF a(2) v(2)] Cons.prems(3) have "total_value A' \<le> total_value A1 + block_sum (\<lambda>A tx. tx_out tx - tx_in A tx) txid h vtx A1 \<and> utxo_nonneg A'"
    by simp
  then show ?case using v(1) a(1) by simp
qed simp

end
