(* ===== verification/Block.thy ===== *)
theory Block
  imports Transaction
begin

unbundle bit_operations_syntax

text \<open>
  Blocks (primitives/block.h, primitives/block.cpp): the header, the block with its
  transactions and the signature of a proof-of-stake block, their serialization, the Quark hash
  chain of the header (hash.h) and \<^verbatim>\<open>CheckBlockSignature\<close>. The six digests of sphlib that the
  hash chain calls, and \<^verbatim>\<open>CPubKey::Verify\<close>, are arguments.
\<close>

section \<open>Data\<close>

record CBlockHeader =
  hdr_nVersion :: int
  hdr_hashPrevBlock :: u256
  hdr_hashMerkleRoot :: u256
  hdr_nTime :: u32
  hdr_nBits :: u32
  hdr_nNonce :: u32

text \<open>The members \<^verbatim>\<open>payee\<close> and \<^verbatim>\<open>vMerkleTree\<close> live in memory only; the tree is a result below.\<close>

record CBlock = CBlockHeader +
  blk_vtx :: "CTransaction list"
  blk_vchBlockSig :: valtype

definition CBlockHeader_null :: CBlockHeader where
  "CBlockHeader_null = \<lparr>hdr_nVersion = 4, hdr_hashPrevBlock = 0, hdr_hashMerkleRoot = 0, hdr_nTime = 0,
     hdr_nBits = 0, hdr_nNonce = 0\<rparr>"

definition CBlockHeader_IsNull :: "'a CBlockHeader_scheme \<Rightarrow> bool" where
  "CBlockHeader_IsNull h \<longleftrightarrow> hdr_nBits h = 0"

definition GetBlockHeader :: "'a CBlockHeader_scheme \<Rightarrow> CBlockHeader" where
  "GetBlockHeader b = \<lparr>hdr_nVersion = hdr_nVersion b, hdr_hashPrevBlock = hdr_hashPrevBlock b,
     hdr_hashMerkleRoot = hdr_hashMerkleRoot b, hdr_nTime = hdr_nTime b, hdr_nBits = hdr_nBits b,
     hdr_nNonce = hdr_nNonce b\<rparr>"

definition block_IsProofOfStake :: "CBlock \<Rightarrow> bool" where
  "block_IsProofOfStake b \<longleftrightarrow> length (blk_vtx b) > 1 \<and> IsCoinStake (blk_vtx b ! 1)"

definition GetProofOfStake :: "CBlock \<Rightarrow> COutPoint \<times> u32" where
  "GetProofOfStake b =
     (if block_IsProofOfStake b then (txin_prevout (tx_vin (blk_vtx b ! 1) ! 0), hdr_nTime b)
      else (\<lparr>outpoint_hash = 0, outpoint_n = - 1\<rparr>, 0))"

section \<open>Serialization\<close>

definition ser_CBlockHeader :: "'a CBlockHeader_scheme \<Rightarrow> byte list" where
  "ser_CBlockHeader h =
     ser_int 4 (hdr_nVersion h) @ ser_word (hdr_hashPrevBlock h) @ ser_word (hdr_hashMerkleRoot h) @
     ser_word (hdr_nTime h) @ ser_word (hdr_nBits h) @ ser_word (hdr_nNonce h)"

definition unser_CBlockHeader :: "CBlockHeader reader" where
  "unser_CBlockHeader =
     rbind (unser_int 4) (\<lambda>v. rbind unser_word (\<lambda>p. rbind unser_word (\<lambda>m. rbind unser_word (\<lambda>t.
       rbind unser_word (\<lambda>b. rbind unser_word (\<lambda>n.
         rreturn \<lparr>hdr_nVersion = v, hdr_hashPrevBlock = p, hdr_hashMerkleRoot = m, hdr_nTime = t,
           hdr_nBits = b, hdr_nNonce = n\<rparr>))))))"

text \<open>The signature is part of the stream only when the second transaction is a coinstake.\<close>

definition ser_CBlock :: "CBlock \<Rightarrow> byte list" where
  "ser_CBlock b =
     ser_CBlockHeader b @ ser_vector ser_CTransaction (blk_vtx b) @
     (if length (blk_vtx b) > 1 \<and> IsCoinStake (blk_vtx b ! 1) then ser_bytes (blk_vchBlockSig b) else [])"

definition unser_CBlock :: "CBlock reader" where
  "unser_CBlock =
     rbind unser_CBlockHeader (\<lambda>h. rbind (unser_vector unser_CTransaction) (\<lambda>vtx.
       rbind (if length vtx > 1 \<and> IsCoinStake (vtx ! 1) then unser_bytes else rreturn []) (\<lambda>sig.
         rreturn (CBlockHeader.extend h \<lparr>blk_vtx = vtx, blk_vchBlockSig = sig\<rparr>))))"

definition valid_CBlockHeader :: "'a CBlockHeader_scheme \<Rightarrow> bool" where
  "valid_CBlockHeader h \<longleftrightarrow> in_sint 32 (hdr_nVersion h)"

definition valid_CBlock :: "CBlock \<Rightarrow> bool" where
  "valid_CBlock b \<longleftrightarrow>
     valid_CBlockHeader b \<and> valid_vector valid_CTransaction (blk_vtx b) \<and>
     (if block_IsProofOfStake b then valid_bytes (blk_vchBlockSig b) else blk_vchBlockSig b = [])"

section \<open>The hash of a header\<close>

text \<open>The 512-bit digests of sphlib.\<close>

record sph =
  sph_blake512 :: "valtype \<Rightarrow> valtype"
  sph_bmw512 :: "valtype \<Rightarrow> valtype"
  sph_groestl512 :: "valtype \<Rightarrow> valtype"
  sph_jh512 :: "valtype \<Rightarrow> valtype"
  sph_keccak512 :: "valtype \<Rightarrow> valtype"
  sph_skein512 :: "valtype \<Rightarrow> valtype"

text \<open>\<^verbatim>\<open>(hash & mask) != zero\<close> for the 512-bit mask 8, and the low 256 bits.\<close>

definition quark_bit :: "valtype \<Rightarrow> bool" where
  "quark_bit h \<longleftrightarrow> le_val h AND 8 \<noteq> 0"

definition trim256 :: "valtype \<Rightarrow> u256" where
  "trim256 h = word_of_nat (le_val (take 32 h))"

definition HashQuark :: "sph \<Rightarrow> valtype \<Rightarrow> u256" where
  "HashQuark f v =
     (let hash0 = sph_blake512 f v;
          hash1 = sph_bmw512 f hash0;
          hash2 = (if quark_bit hash1 then sph_groestl512 f hash1 else sph_skein512 f hash1);
          hash3 = sph_groestl512 f hash2;
          hash4 = sph_jh512 f hash3;
          hash5 = (if quark_bit hash4 then sph_blake512 f hash4 else sph_bmw512 f hash4);
          hash6 = sph_keccak512 f hash5;
          hash7 = sph_skein512 f hash6;
          hash8 = (if quark_bit hash7 then sph_keccak512 f hash7 else sph_jh512 f hash7)
      in trim256 hash8)"

text \<open>
  \<^verbatim>\<open>CBlockHeader::GetHash\<close> hashes the memory from \<^verbatim>\<open>nVersion\<close> to \<^verbatim>\<open>nNonce\<close>; the six members
  follow each other without padding and hold little-endian integers, so these are the
  serialized bytes of the header.
\<close>

definition block_GetHash :: "sph \<Rightarrow> 'a CBlockHeader_scheme \<Rightarrow> u256" where
  "block_GetHash f h = HashQuark f (ser_CBlockHeader h)"

section \<open>The block signature\<close>

definition CheckBlockSignature :: "sph \<Rightarrow> (valtype \<Rightarrow> u256 \<Rightarrow> valtype \<Rightarrow> bool) \<Rightarrow> CBlock \<Rightarrow> bool" where
  "CheckBlockSignature f verify b =
     (if \<not> block_IsProofOfStake b then blk_vchBlockSig b = []
      else
        let txout = tx_vout (blk_vtx b ! 1) ! 1 in
        (case Solver (txout_scriptPubKey txout) of (ok, whichType, vSolutions) \<Rightarrow>
           if \<not> ok then False
           else if whichType = TX_PUBKEY then
             (case CPubKey (vSolutions ! 0) of
                None \<Rightarrow> False
              | Some pubkey \<Rightarrow>
                  if blk_vchBlockSig b = [] then False
                  else verify pubkey (block_GetHash f b) (blk_vchBlockSig b))
           else if whichType = TX_PUBKEYHASH then
             (case CPubKey (vSolutions ! 0) of
                None \<Rightarrow> False
              | Some pubkey \<Rightarrow>
                  if blk_vchBlockSig b = [] then False
                  else verify pubkey (block_GetHash f b) (blk_vchBlockSig b))
           else False))"

section \<open>Blocks are read back\<close>

interpretation header: codec "ser_CBlockHeader :: CBlockHeader \<Rightarrow> byte list" unser_CBlockHeader valid_CBlockHeader
proof (unfold_locales, goal_cases)
  case 1
  then show ?case
    by (simp add: ser_CBlockHeader_def unser_CBlockHeader_def valid_CBlockHeader_def rbind_def rreturn_def
        i32.unser_ser u256.unser_ser u32.unser_ser)
next
  case 2
  then show ?case
    by (auto simp: ser_CBlockHeader_def unser_CBlockHeader_def valid_CBlockHeader_def reader_simps
        i32.unser_iff u256.unser_iff u32.unser_iff)
qed

interpretation txs: vector_codec ser_CTransaction unser_CTransaction valid_CTransaction
  by unfold_locales

lemma ser_CBlockHeader_truncate: "ser_CBlockHeader (GetBlockHeader b) = ser_CBlockHeader b"
  by (simp add: ser_CBlockHeader_def GetBlockHeader_def)

lemma valid_GetBlockHeader: "valid_CBlockHeader (GetBlockHeader b) = valid_CBlockHeader b"
  by (simp add: valid_CBlockHeader_def GetBlockHeader_def)

lemma CBlock_split:
  "CBlockHeader.extend h \<lparr>blk_vtx = vtx, blk_vchBlockSig = sig\<rparr> = b \<longleftrightarrow>
     h = GetBlockHeader b \<and> vtx = blk_vtx b \<and> sig = blk_vchBlockSig b"
  by (cases h; cases b) (auto simp: CBlockHeader.extend_def GetBlockHeader_def)

interpretation block: codec ser_CBlock unser_CBlock valid_CBlock
proof (unfold_locales, goal_cases)
  case (1 x s)
  then show ?case
    using header.unser_ser [of "GetBlockHeader x"]
    by (auto simp: unser_CBlock_def ser_CBlock_def valid_CBlock_def rbind_def rreturn_def CBlock_split
        ser_CBlockHeader_truncate valid_GetBlockHeader txs.vec.unser_ser bytes.unser_ser block_IsProofOfStake_def)
next
  case (2 s x s')
  then show ?case
    by (auto simp: unser_CBlock_def ser_CBlock_def valid_CBlock_def reader_simps CBlock_split eq_commute [of x]
        header.unser_iff txs.vec.unser_iff bytes.unser_iff ser_CBlockHeader_truncate valid_GetBlockHeader
        block_IsProofOfStake_def)
qed

lemma length_ser_CBlockHeader: "length (ser_CBlockHeader h) = 80"
  by (simp add: ser_CBlockHeader_def ser_int_def ser_word_def)

lemma CPubKey_key_hash: "length h = 20 \<Longrightarrow> CPubKey h = None"
  by (auto simp: CPubKey_def CPubKey_GetLen_def Let_def)

section \<open>Properties\<close>

text \<open>
  Reading a block succeeds with \<open>b\<close> exactly when the stream starts with the bytes that
  serialize \<open>b\<close>, for a block whose fields fit and whose signature is present exactly when its
  second transaction is a coinstake; the header takes 80 bytes.
\<close>

theorem block_codec:
  "(unser_CBlock s = Inr (b, s') \<longleftrightarrow> valid_CBlock b \<and> s = ser_CBlock b @ s') \<and>
   length (ser_CBlockHeader b) = 80"
  by (simp add: block.unser_iff length_ser_CBlockHeader)

text \<open>
  A proof-of-stake block whose stake pays to a public key hash never passes
  \<^verbatim>\<open>CheckBlockSignature\<close>, whatever its signature: the 20 bytes of the key hash are taken for a
  public key, which is not a valid one.
\<close>

theorem stake_to_key_hash_rejected:
  assumes "block_IsProofOfStake b" "length h = 20"
    and "txout_scriptPubKey (tx_vout (blk_vtx b ! 1) ! 1) = GetScriptForDestination (CKeyID h)"
  shows "\<not> CheckBlockSignature f verify b"
  using assms by (simp add: CheckBlockSignature_def Solver_p2pkh CPubKey_key_hash)

definition sample_stake_tx :: CTransaction where
  "sample_stake_tx = \<lparr>tx_nVersion = 1,
     tx_vin = [\<lparr>txin_prevout = \<lparr>outpoint_hash = 5, outpoint_n = 0\<rparr>, txin_scriptSig = [], txin_nSequence = 0\<rparr>],
     tx_vout = [\<lparr>txout_nValue = 0, txout_scriptPubKey = []\<rparr>,
       \<lparr>txout_nValue = 9, txout_scriptPubKey = GetScriptForDestination (CKeyID (replicate 20 1))\<rparr>],
     tx_nLockTime = 0\<rparr>"

definition sample_stake_block :: CBlock where
  "sample_stake_block = CBlockHeader.extend CBlockHeader_null
     \<lparr>blk_vtx = [sample_stake_tx, sample_stake_tx], blk_vchBlockSig = [1]\<rparr>"

definition sample_sph :: sph where
  "sample_sph = \<lparr>sph_blake512 = (\<lambda>x. x), sph_bmw512 = (\<lambda>x. x), sph_groestl512 = (\<lambda>x. x), sph_jh512 = (\<lambda>x. x),
     sph_keccak512 = (\<lambda>x. x), sph_skein512 = (\<lambda>x. x)\<rparr>"

theorem stake_to_key_hash_rejected_witness:
  "\<not> CheckBlockSignature sample_sph (\<lambda>_ _ _. True) sample_stake_block"
proof (rule stake_to_key_hash_rejected [of _ "replicate 20 1"])
  show "block_IsProofOfStake sample_stake_block"
    by (simp add: block_IsProofOfStake_def sample_stake_block_def sample_stake_tx_def CBlockHeader.extend_def
        IsCoinStake_def COutPoint_IsNull_def CTxOut_IsEmpty_def CBlockHeader_null_def)
qed (simp_all add: sample_stake_block_def sample_stake_tx_def CBlockHeader.extend_def CBlockHeader_null_def)

end
