(* ===== verification/Merkle.thy ===== *)
theory Merkle
  imports Block
begin

unbundle bit_operations_syntax

text \<open>
  Merkle trees: \<^verbatim>\<open>BuildMerkleTree\<close>, \<^verbatim>\<open>GetMerkleBranch\<close> and \<^verbatim>\<open>CheckMerkleBranch\<close>
  (primitives/block.cpp) and the partial trees sent to filtering nodes (merkleblock.h,
  merkleblock.cpp). The hash of two nodes is an argument \<open>H\<close> of the loops; the code passes
  the double SHA-256 of their 64 bytes. Sizes are those of vectors in memory, below
  \<open>2 ^ 31\<close>, so that the 32-bit arithmetic on indices does not wrap.
\<close>

section \<open>The tree of a block\<close>

definition Hash2 :: "(valtype \<Rightarrow> valtype) \<Rightarrow> u256 \<Rightarrow> u256 \<Rightarrow> u256" where
  "Hash2 sha256 a b = Hash sha256 (ser_word a @ ser_word b)"

text \<open>The inner loop of \<^verbatim>\<open>BuildMerkleTree\<close> over \<^verbatim>\<open>i\<close>, and the outer one over \<^verbatim>\<open>nSize\<close> and \<^verbatim>\<open>j\<close>.\<close>

function merkle_level ::
    "(u256 \<Rightarrow> u256 \<Rightarrow> u256) \<Rightarrow> nat \<Rightarrow> nat \<Rightarrow> nat \<Rightarrow> u256 list \<times> bool \<Rightarrow> u256 list \<times> bool" where
  "merkle_level H nSize j i (vMerkleTree, mutated) =
     (if i < nSize then
        let i2 = min (i + 1) (nSize - 1);
            mutated = (mutated \<or> i2 = i + 1 \<and> i2 + 1 = nSize \<and> vMerkleTree ! (j + i) = vMerkleTree ! (j + i2))
        in merkle_level H nSize j (i + 2)
             (vMerkleTree @ [H (vMerkleTree ! (j + i)) (vMerkleTree ! (j + i2))], mutated)
      else (vMerkleTree, mutated))"
  by pat_completeness auto
termination by (relation "measure (\<lambda>(H, nSize, j, i, st). nSize - i)") auto

declare merkle_level.simps [simp del]

function BuildMerkleTree_loop ::
    "(u256 \<Rightarrow> u256 \<Rightarrow> u256) \<Rightarrow> nat \<Rightarrow> nat \<Rightarrow> u256 list \<times> bool \<Rightarrow> u256 list \<times> bool" where
  "BuildMerkleTree_loop H nSize j st =
     (if nSize > 1 then BuildMerkleTree_loop H ((nSize + 1) div 2) (j + nSize) (merkle_level H nSize j 0 st)
      else st)"
  by pat_completeness auto
termination by (relation "measure (\<lambda>(H, nSize, j, st). nSize)") auto

declare BuildMerkleTree_loop.simps [simp del]

text \<open>The tree, the root and \<^verbatim>\<open>*fMutated\<close>, for the ids of the transactions.\<close>

definition BuildMerkleTree_ids :: "(u256 \<Rightarrow> u256 \<Rightarrow> u256) \<Rightarrow> u256 list \<Rightarrow> u256 list \<times> u256 \<times> bool" where
  "BuildMerkleTree_ids H ids =
     (case BuildMerkleTree_loop H (length ids) 0 (ids, False) of (vMerkleTree, mutated) \<Rightarrow>
        (vMerkleTree, if vMerkleTree = [] then 0 else last vMerkleTree, mutated))"

definition BuildMerkleTree :: "(valtype \<Rightarrow> valtype) \<Rightarrow> CBlock \<Rightarrow> u256 list \<times> u256 \<times> bool" where
  "BuildMerkleTree sha256 b = BuildMerkleTree_ids (Hash2 sha256) (map (GetHash sha256) (blk_vtx b))"

function GetMerkleBranch_loop :: "u256 list \<Rightarrow> nat \<Rightarrow> nat \<Rightarrow> nat \<Rightarrow> u256 list" where
  "GetMerkleBranch_loop vMerkleTree nSize nIndex j =
     (if nSize > 1 then
        vMerkleTree ! (j + min (nIndex XOR 1) (nSize - 1)) #
        GetMerkleBranch_loop vMerkleTree ((nSize + 1) div 2) (drop_bit 1 nIndex) (j + nSize)
      else [])"
  by pat_completeness auto
termination by (relation "measure (\<lambda>(tree, nSize, nIndex, j). nSize)") auto

declare GetMerkleBranch_loop.simps [simp del]

definition GetMerkleBranch :: "(valtype \<Rightarrow> valtype) \<Rightarrow> CBlock \<Rightarrow> nat \<Rightarrow> u256 list" where
  "GetMerkleBranch sha256 b nIndex =
     GetMerkleBranch_loop (fst (BuildMerkleTree sha256 b)) (length (blk_vtx b)) nIndex 0"

fun CheckMerkleBranch_loop :: "(u256 \<Rightarrow> u256 \<Rightarrow> u256) \<Rightarrow> u256 \<Rightarrow> u256 list \<Rightarrow> int \<Rightarrow> u256" where
  "CheckMerkleBranch_loop H hash [] nIndex = hash"
| "CheckMerkleBranch_loop H hash (it # vMerkleBranch) nIndex =
     CheckMerkleBranch_loop H (if nIndex AND 1 \<noteq> 0 then H it hash else H hash it) vMerkleBranch (drop_bit 1 nIndex)"

definition CheckMerkleBranch :: "(valtype \<Rightarrow> valtype) \<Rightarrow> u256 \<Rightarrow> u256 list \<Rightarrow> int \<Rightarrow> u256" where
  "CheckMerkleBranch sha256 hash vMerkleBranch nIndex =
     (if nIndex = - 1 then 0 else CheckMerkleBranch_loop (Hash2 sha256) hash vMerkleBranch nIndex)"

section \<open>Partial trees\<close>

text \<open>The member \<^verbatim>\<open>fBad\<close> is false in every constructed or deserialized tree; it is part of the state of the extraction below.\<close>

record CPartialMerkleTree =
  pmt_nTransactions :: nat
  pmt_vBits :: "bool list"
  pmt_vHash :: "u256 list"

definition CalcTreeWidth :: "nat \<Rightarrow> nat \<Rightarrow> nat" where
  "CalcTreeWidth nTransactions height = drop_bit height (nTransactions + push_bit height 1 - 1)"

fun CalcHash :: "(u256 \<Rightarrow> u256 \<Rightarrow> u256) \<Rightarrow> nat \<Rightarrow> u256 list \<Rightarrow> nat \<Rightarrow> nat \<Rightarrow> u256" where
  "CalcHash H n vTxid 0 pos = vTxid ! pos"
| "CalcHash H n vTxid (Suc height) pos =
     (let left = CalcHash H n vTxid height (pos * 2);
          right = (if pos * 2 + 1 < CalcTreeWidth n height then CalcHash H n vTxid height (pos * 2 + 1) else left)
      in H left right)"

text \<open>The loop over \<^verbatim>\<open>p\<close> that computes \<^verbatim>\<open>fParentOfMatch\<close>, and what the traversal appends to \<^verbatim>\<open>vBits\<close> and \<^verbatim>\<open>vHash\<close>.\<close>

definition parent_of_match :: "nat \<Rightarrow> bool list \<Rightarrow> nat \<Rightarrow> nat \<Rightarrow> bool" where
  "parent_of_match n vMatch height pos =
     list_ex (\<lambda>p. vMatch ! p) [push_bit height pos..<min (push_bit height (pos + 1)) n]"

fun TraverseAndBuild ::
    "(u256 \<Rightarrow> u256 \<Rightarrow> u256) \<Rightarrow> nat \<Rightarrow> u256 list \<Rightarrow> bool list \<Rightarrow> nat \<Rightarrow> nat \<Rightarrow> bool list \<times> u256 list" where
  "TraverseAndBuild H n vTxid vMatch 0 pos =
     ([parent_of_match n vMatch 0 pos], [CalcHash H n vTxid 0 pos])"
| "TraverseAndBuild H n vTxid vMatch (Suc height) pos =
     (if \<not> parent_of_match n vMatch (Suc height) pos then ([False], [CalcHash H n vTxid (Suc height) pos])
      else
        (case TraverseAndBuild H n vTxid vMatch height (pos * 2) of (bits, hashes) \<Rightarrow>
           if pos * 2 + 1 < CalcTreeWidth n height
           then (case TraverseAndBuild H n vTxid vMatch height (pos * 2 + 1) of (bits', hashes') \<Rightarrow>
                   (True # bits @ bits', hashes @ hashes'))
           else (True # bits, hashes)))"

text \<open>The loop that finds the height of the tree.\<close>

lemma CalcTreeWidth_eq: "CalcTreeWidth n h = (n + 2 ^ h - 1) div 2 ^ h"
  by (simp add: CalcTreeWidth_def drop_bit_eq_div push_bit_eq_mult)

lemma CalcTreeWidth_more: "CalcTreeWidth n h > 1 \<Longrightarrow> 2 ^ h < n"
proof -
  assume "CalcTreeWidth n h > 1"
  then have "2 \<le> (n + 2 ^ h - 1) div 2 ^ h" by (simp add: CalcTreeWidth_eq)
  then have "2 * 2 ^ h \<le> n + 2 ^ h - 1" by (simp add: less_eq_div_iff_mult_less_eq)
  moreover have "0 < (2 :: nat) ^ h" by simp
  ultimately show "2 ^ h < n" by linarith
qed

function tree_height :: "nat \<Rightarrow> nat \<Rightarrow> nat" where
  "tree_height n nHeight = (if CalcTreeWidth n nHeight > 1 then tree_height n (nHeight + 1) else nHeight)"
  by pat_completeness auto
termination
proof (relation "measure (\<lambda>(n, h). n - h)")
  fix n h :: nat
  assume "CalcTreeWidth n h > 1"
  then have "h < n" using CalcTreeWidth_more less_exp less_trans by blast
  then show "((n, h + 1), n, h) \<in> measure (\<lambda>(n, h). n - h)" by simp
qed simp

declare tree_height.simps [simp del]

definition CPartialMerkleTree_build :: "(u256 \<Rightarrow> u256 \<Rightarrow> u256) \<Rightarrow> u256 list \<Rightarrow> bool list \<Rightarrow> CPartialMerkleTree" where
  "CPartialMerkleTree_build H vTxid vMatch =
     (let n = length vTxid in
      case TraverseAndBuild H n vTxid vMatch (tree_height n 0) 0 of (bits, hashes) \<Rightarrow>
        \<lparr>pmt_nTransactions = n, pmt_vBits = bits, pmt_vHash = hashes\<rparr>)"

text \<open>
  \<^verbatim>\<open>TraverseAndExtract\<close>: the state is \<^verbatim>\<open>nBitsUsed\<close>, \<^verbatim>\<open>nHashUsed\<close>, \<^verbatim>\<open>vMatch\<close> and \<^verbatim>\<open>fBad\<close>.
\<close>

record extract_state =
  ex_nBitsUsed :: nat
  ex_nHashUsed :: nat
  ex_vMatch :: "u256 list"
  ex_fBad :: bool

fun TraverseAndExtract ::
    "(u256 \<Rightarrow> u256 \<Rightarrow> u256) \<Rightarrow> CPartialMerkleTree \<Rightarrow> nat \<Rightarrow> nat \<Rightarrow> extract_state \<Rightarrow> u256 \<times> extract_state" where
  "TraverseAndExtract H t height pos st =
     (if ex_nBitsUsed st \<ge> length (pmt_vBits t) then (0, st\<lparr>ex_fBad := True\<rparr>)
      else
        let fParentOfMatch = pmt_vBits t ! ex_nBitsUsed st;
            st = st\<lparr>ex_nBitsUsed := ex_nBitsUsed st + 1\<rparr>
        in if height = 0 \<or> \<not> fParentOfMatch then
             if ex_nHashUsed st \<ge> length (pmt_vHash t) then (0, st\<lparr>ex_fBad := True\<rparr>)
             else
               let hash = pmt_vHash t ! ex_nHashUsed st;
                   st = st\<lparr>ex_nHashUsed := ex_nHashUsed st + 1\<rparr>
               in (hash, if height = 0 \<and> fParentOfMatch then st\<lparr>ex_vMatch := ex_vMatch st @ [hash]\<rparr> else st)
           else
             (case TraverseAndExtract H t (height - 1) (pos * 2) st of (left, st) \<Rightarrow>
                (case (if pos * 2 + 1 < CalcTreeWidth (pmt_nTransactions t) (height - 1)
                       then TraverseAndExtract H t (height - 1) (pos * 2 + 1) st else (left, st)) of
                   (right, st) \<Rightarrow> (H left right, st))))"

declare TraverseAndExtract.simps [simp del]

definition ExtractMatches :: "(u256 \<Rightarrow> u256 \<Rightarrow> u256) \<Rightarrow> CPartialMerkleTree \<Rightarrow> u256 \<times> u256 list" where
  "ExtractMatches H t =
     (if pmt_nTransactions t = 0 then (0, [])
      else if pmt_nTransactions t > 2000000 div 60 then (0, [])
      else if length (pmt_vHash t) > pmt_nTransactions t then (0, [])
      else if length (pmt_vBits t) < length (pmt_vHash t) then (0, [])
      else
        (case TraverseAndExtract H t (tree_height (pmt_nTransactions t) 0) 0
                \<lparr>ex_nBitsUsed = 0, ex_nHashUsed = 0, ex_vMatch = [], ex_fBad = False\<rparr> of (hashMerkleRoot, st) \<Rightarrow>
           if ex_fBad st then (0, ex_vMatch st)
           else if (ex_nBitsUsed st + 7) div 8 \<noteq> (length (pmt_vBits t) + 7) div 8 then (0, ex_vMatch st)
           else if ex_nHashUsed st \<noteq> length (pmt_vHash t) then (0, ex_vMatch st)
           else (hashMerkleRoot, ex_vMatch st)))"


text \<open>
  \<^verbatim>\<open>SerializationOp\<close>: the flag bits are packed into bytes, least significant bit first.
\<close>

definition pack_bits :: "bool list \<Rightarrow> byte list" where
  "pack_bits vBits =
     fold (\<lambda>p vBytes. vBytes[p div 8 := vBytes ! (p div 8) OR push_bit (p mod 8) (of_bool (vBits ! p))])
       [0..<length vBits] (replicate ((length vBits + 7) div 8) 0)"

definition unpack_bits :: "byte list \<Rightarrow> bool list" where
  "unpack_bits vBytes = map (\<lambda>p. vBytes ! (p div 8) AND push_bit (p mod 8) 1 \<noteq> 0) [0..<length vBytes * 8]"

definition ser_CPartialMerkleTree :: "CPartialMerkleTree \<Rightarrow> byte list" where
  "ser_CPartialMerkleTree t =
     ser_word (word_of_nat (pmt_nTransactions t) :: u32) @ ser_vector ser_word (pmt_vHash t) @
     ser_bytes (pack_bits (pmt_vBits t))"

definition unser_CPartialMerkleTree :: "CPartialMerkleTree reader" where
  "unser_CPartialMerkleTree =
     rbind unser_word (\<lambda>n :: u32. rbind (unser_vector unser_word) (\<lambda>hashes. rbind unser_bytes (\<lambda>vBytes.
       rreturn \<lparr>pmt_nTransactions = unat n, pmt_vBits = unpack_bits vBytes, pmt_vHash = hashes\<rparr>)))"

section \<open>The levels of a tree\<close>

text \<open>The reference: pair up a level, repeating the last node of an odd level, until one node is left.\<close>

fun merkle_up :: "(u256 \<Rightarrow> u256 \<Rightarrow> u256) \<Rightarrow> u256 list \<Rightarrow> u256 list" where
  "merkle_up H [] = []"
| "merkle_up H [x] = [H x x]"
| "merkle_up H (x # y # xs) = H x y # merkle_up H xs"

fun level_pairs :: "u256 list \<Rightarrow> (u256 \<times> u256) list" where
  "level_pairs [] = []"
| "level_pairs [x] = [(x, x)]"
| "level_pairs (x # y # xs) = (x, y) # level_pairs xs"

fun level_mutated :: "u256 list \<Rightarrow> bool" where
  "level_mutated [] = False"
| "level_mutated [x] = False"
| "level_mutated (x # y # xs) = (xs = [] \<and> x = y \<or> level_mutated xs)"

lemma length_merkle_up [simp]: "length (merkle_up H xs) = (length xs + 1) div 2"
  by (induction H xs rule: merkle_up.induct) auto

function merkle_levels :: "(u256 \<Rightarrow> u256 \<Rightarrow> u256) \<Rightarrow> u256 list \<Rightarrow> u256 list list" where
  "merkle_levels H xs = (if length xs > 1 then xs # merkle_levels H (merkle_up H xs) else [xs])"
  by pat_completeness auto
termination by (relation "measure (\<lambda>(H, xs). length xs)") auto

declare merkle_levels.simps [simp del]

definition merkle_root :: "(u256 \<Rightarrow> u256 \<Rightarrow> u256) \<Rightarrow> u256 list \<Rightarrow> u256" where
  "merkle_root H xs = (if xs = [] then 0 else hd (last (merkle_levels H xs)))"

definition merkle_mutated :: "(u256 \<Rightarrow> u256 \<Rightarrow> u256) \<Rightarrow> u256 list \<Rightarrow> bool" where
  "merkle_mutated H xs \<longleftrightarrow> list_ex level_mutated (merkle_levels H xs)"

lemma merkle_levels_simps:
  "length xs > 1 \<Longrightarrow> merkle_levels H xs = xs # merkle_levels H (merkle_up H xs)"
  "length xs \<le> 1 \<Longrightarrow> merkle_levels H xs = [xs]"
  by (simp_all add: merkle_levels.simps [of H xs])

lemma merkle_levels_ne [simp]: "merkle_levels H xs \<noteq> []"
  by (simp add: merkle_levels.simps [of H xs])

lemma merkle_up_Nil [simp]: "merkle_up H xs = [] \<longleftrightarrow> xs = []"
  by (cases "(H, xs)" rule: merkle_up.cases) auto

lemma merkle_root_simps:
  "merkle_root H [] = 0" "merkle_root H [x] = x"
  "length xs > 1 \<Longrightarrow> merkle_root H xs = merkle_root H (merkle_up H xs)"
proof -
  show "merkle_root H xs = merkle_root H (merkle_up H xs)" if "length xs > 1"
    using that merkle_levels_simps(1) [OF that, of H] by (auto simp: merkle_root_def)
qed (simp_all add: merkle_root_def merkle_levels_simps)

lemma merkle_level_eq:
  assumes "even i" "length pre = j" "length xs = nSize"
  shows "merkle_level H nSize j i (pre @ xs @ post, m) =
    (pre @ xs @ post @ merkle_up H (drop i xs), m \<or> level_mutated (drop i xs))"
  using assms
proof (induction "nSize - i" arbitrary: i post m rule: less_induct)
  case less
  show ?case
  proof (cases "i < nSize")
    case True
    have i: "(pre @ xs @ post) ! (j + k) = xs ! k" if "k < nSize" for k
      using that less.prems by (simp add: nth_append)
    show ?thesis
    proof (cases "i + 1 < nSize")
      case i1: True
      have d: "drop i xs = xs ! i # xs ! (i + 1) # drop (i + 2) xs"
        using i1 less.prems(3) by (simp add: Cons_nth_drop_Suc)
      have e: "drop (i + 2) xs = [] \<longleftrightarrow> i + 2 = nSize" using i1 less.prems(3) by auto
      have "merkle_level H nSize j (i + 2) (pre @ xs @ (post @ [H (xs ! i) (xs ! (i + 1))]), m') =
          (pre @ xs @ (post @ [H (xs ! i) (xs ! (i + 1))]) @ merkle_up H (drop (i + 2) xs), m' \<or> level_mutated (drop (i + 2) xs))" for m'
        using less.prems i1 by (intro less.hyps) auto
      then show ?thesis
        using i1 i [of i] i [of "i + 1"] less.prems(3)
        by (auto simp: merkle_level.simps [of H nSize j i] d e min_def)
    next
      case i1: False
      then have n: "nSize = Suc i" using True by simp
      then have d: "drop i xs = [xs ! i]" using less.prems(3) by (simp flip: Cons_nth_drop_Suc)
      then show ?thesis
        using i [of i] by (simp add: n merkle_level.simps [of H "Suc i" j] Let_def)
    qed
  qed (use less.prems in \<open>simp add: merkle_level.simps\<close>)
qed

lemma BuildMerkleTree_loop_eq:
  assumes "length pre = j"
  shows "BuildMerkleTree_loop H (length xs) j (pre @ xs, m) =
    (pre @ concat (merkle_levels H xs), m \<or> merkle_mutated H xs)"
  using assms
proof (induction "length xs" arbitrary: xs j pre m rule: less_induct)
  case less
  show ?case
  proof (cases "length xs > 1")
    case True
    have "BuildMerkleTree_loop H (length (merkle_up H xs)) (j + length xs) ((pre @ xs) @ merkle_up H xs, m \<or> level_mutated xs) =
        ((pre @ xs) @ concat (merkle_levels H (merkle_up H xs)), (m \<or> level_mutated xs) \<or> merkle_mutated H (merkle_up H xs))"
      using True less.prems by (intro less.hyps) auto
    moreover have "merkle_level H (length xs) j 0 (pre @ xs, m) = (pre @ xs @ merkle_up H xs, m \<or> level_mutated xs)"
      using merkle_level_eq [OF _ less.prems, of 0 xs "length xs" H "[]" m] by simp
    ultimately show ?thesis
      using True by (simp add: BuildMerkleTree_loop.simps [of H "length xs"] merkle_levels_simps merkle_mutated_def)
  next
    case False
    then have "\<not> level_mutated xs" by (cases xs rule: level_mutated.cases) auto
    then show ?thesis
      using False by (simp add: BuildMerkleTree_loop.simps [of H "length xs"] merkle_levels_simps merkle_mutated_def)
  qed
qed

lemma merkle_levels_last:
  "xs \<noteq> [] \<Longrightarrow> length (last (merkle_levels H xs)) = 1"
proof (induction H xs rule: merkle_levels.induct)
  case (1 H xs)
  show ?case
  proof (cases "length xs > 1")
    case True
    then have "length (last (merkle_levels H (merkle_up H xs))) = 1" using 1 by (intro 1(1)) auto
    then show ?thesis using True by (simp add: merkle_levels_simps)
  next
    case False
    then have "length xs = 1" using 1(2) by (cases xs) auto
    then show ?thesis by (simp add: merkle_levels_simps)
  qed
qed

lemma BuildMerkleTree_ids_eq:
  "BuildMerkleTree_ids H ids = (concat (merkle_levels H ids), merkle_root H ids, merkle_mutated H ids)"
proof -
  have "last (concat (merkle_levels H ids)) = hd (last (merkle_levels H ids))" if ne: "ids \<noteq> []"
  proof -
    obtain x where x: "last (merkle_levels H ids) = [x]"
      using merkle_levels_last [OF ne, of H] by (metis length_1_list)
    have "concat (butlast (merkle_levels H ids) @ [last (merkle_levels H ids)]) =
        concat (butlast (merkle_levels H ids)) @ [x]" by (simp add: x)
    then have "concat (merkle_levels H ids) = concat (butlast (merkle_levels H ids)) @ [x]"
      by (simp only: append_butlast_last_id [OF merkle_levels_ne])
    then show ?thesis by (simp only: x last_snoc list.sel)
  qed
  moreover have "concat (merkle_levels H ids) = [] \<longleftrightarrow> ids = []"
    by (subst merkle_levels.simps) auto
  ultimately show ?thesis
    using BuildMerkleTree_loop_eq [of "[]" 0 H ids False] by (simp add: BuildMerkleTree_ids_def merkle_root_def)
qed

section \<open>Branches lead to the root\<close>

lemma nth_merkle_up:
  "k < (length xs + 1) div 2 \<Longrightarrow> merkle_up H xs ! k = H (xs ! (2 * k)) (xs ! min (2 * k + 1) (length xs - 1))"
proof (induction H xs arbitrary: k rule: merkle_up.induct)
  case (3 H x y xs)
  show ?case
  proof (cases k)
    case (Suc j)
    then have "merkle_up H xs ! j = H (xs ! (2 * j)) (xs ! min (2 * j + 1) (length xs - 1))"
      using 3 by simp
    moreover have "xs \<noteq> []" using 3(2) Suc by auto
    ultimately show ?thesis using Suc by (cases xs) (auto simp: min_def)
  qed simp
qed simp_all

lemma xor_1_nat: "(n :: nat) XOR Suc 0 = (if even n then n + 1 else n - 1)"
  by (simp add: xor_Suc_0_eq)

lemma CheckMerkleBranch_levels:
  assumes "i < length xs"
  shows "CheckMerkleBranch_loop H (xs ! i)
      (GetMerkleBranch_loop (pre @ concat (merkle_levels H xs)) (length xs) i (length pre)) (int i) = merkle_root H xs"
  using assms
proof (induction "length xs" arbitrary: xs i pre rule: less_induct)
  case less
  let ?n = "length xs"
  show ?case
  proof (cases "?n > 1")
    case True
    let ?s = "xs ! min (i XOR 1) (?n - 1)"
    have up: "merkle_up H xs ! (i div 2) = (if odd i then H ?s (xs ! i) else H (xs ! i) ?s)"
    proof -
      have "i div 2 < (?n + 1) div 2" using less.prems by simp
      from nth_merkle_up [OF this, of H] show ?thesis
        using less.prems by (auto simp: xor_1_nat min_def elim!: evenE oddE)
    qed
    have s: "(pre @ concat (merkle_levels H xs)) ! (length pre + min (i XOR 1) (?n - 1)) = ?s"
    proof -
      have "min (i XOR 1) (?n - 1) < ?n" using True by linarith
      then show ?thesis by (simp add: merkle_levels_simps(1) [OF True] nth_append)
    qed
    have "CheckMerkleBranch_loop H (merkle_up H xs ! (i div 2))
        (GetMerkleBranch_loop ((pre @ xs) @ concat (merkle_levels H (merkle_up H xs))) (length (merkle_up H xs)) (i div 2)
          (length (pre @ xs))) (int (i div 2)) = merkle_root H (merkle_up H xs)"
      using True less.prems by (intro less.hyps) auto
    moreover have "GetMerkleBranch_loop (pre @ concat (merkle_levels H xs)) ?n i (length pre) =
        ?s # GetMerkleBranch_loop ((pre @ xs) @ concat (merkle_levels H (merkle_up H xs))) (length (merkle_up H xs)) (i div 2)
          (length (pre @ xs))"
      using True s by (simp add: GetMerkleBranch_loop.simps [of _ ?n] merkle_levels_simps(1) [OF True] drop_bit_eq_div)
    moreover have "int i AND 1 \<noteq> 0 \<longleftrightarrow> odd i" by (simp only: and_one_eq) presburger
    ultimately show ?thesis using up True
      by (cases "odd i") (simp_all add: merkle_root_simps(3) drop_bit_eq_div zdiv_int)
  next
    case False
    then obtain x where "xs = [x]" using less.prems by (metis length_1_list One_nat_def Suc_lessI gr_implies_not0 length_greater_0_conv list.size(3))
    then show ?thesis using less.prems by (simp add: GetMerkleBranch_loop.simps merkle_root_simps)
  qed
qed

section \<open>The root commits to the list\<close>

definition merkle_pairs :: "(u256 \<Rightarrow> u256 \<Rightarrow> u256) \<Rightarrow> u256 list \<Rightarrow> (u256 \<times> u256) set" where
  "merkle_pairs H xs = set (concat (map level_pairs (butlast (merkle_levels H xs))))"

text \<open>Two sets of hashed pairs between which there is no collision.\<close>

definition no_collision :: "(u256 \<Rightarrow> u256 \<Rightarrow> u256) \<Rightarrow> (u256 \<times> u256) set \<Rightarrow> (u256 \<times> u256) set \<Rightarrow> bool" where
  "no_collision H P Q \<longleftrightarrow> (\<forall>p \<in> P. \<forall>q \<in> Q. H (fst p) (snd p) = H (fst q) (snd q) \<longrightarrow> p = q)"

lemma no_collisionD: "no_collision H P Q \<Longrightarrow> (a, b) \<in> P \<Longrightarrow> (c, d) \<in> Q \<Longrightarrow> H a b = H c d \<Longrightarrow> a = c \<and> b = d"
  by (fastforce simp: no_collision_def)

lemma no_collision_mono: "no_collision H P Q \<Longrightarrow> P' \<subseteq> P \<Longrightarrow> Q' \<subseteq> Q \<Longrightarrow> no_collision H P' Q'"
  by (auto simp: no_collision_def)

lemma merkle_pairs_simps:
  "length xs > 1 \<Longrightarrow> merkle_pairs H xs = set (level_pairs xs) \<union> merkle_pairs H (merkle_up H xs)"
  "length xs \<le> 1 \<Longrightarrow> merkle_pairs H xs = {}"
  by (simp_all add: merkle_pairs_def merkle_levels_simps)

lemma merkle_mutated_simps:
  "length xs > 1 \<Longrightarrow> merkle_mutated H xs \<longleftrightarrow> level_mutated xs \<or> merkle_mutated H (merkle_up H xs)"
  by (simp add: merkle_mutated_def merkle_levels_simps)

lemma merkle_up_inject:
  assumes "merkle_up H xs = merkle_up H ys" "no_collision H (set (level_pairs xs)) (set (level_pairs ys))"
    "\<not> level_mutated xs" "\<not> level_mutated ys"
  shows "xs = ys"
  using assms
proof (induction H xs arbitrary: ys rule: merkle_up.induct)
  case (2 H x)
  then show ?case
    by (cases ys rule: level_pairs.cases) (auto simp: no_collision_def eq_commute [of "[]"])
next
  case (3 H x y xs)
  then show ?case
    by (cases ys rule: level_pairs.cases) (auto simp: no_collision_def eq_commute [of "[]"])
qed (simp add: eq_commute [of "[]"])

lemma merkle_root_inject:
  assumes "merkle_root H xs = merkle_root H ys" "length (merkle_levels H xs) = length (merkle_levels H ys)"
    "xs \<noteq> []" "ys \<noteq> []" "no_collision H (merkle_pairs H xs) (merkle_pairs H ys)" "\<not> merkle_mutated H xs" "\<not> merkle_mutated H ys"
  shows "xs = ys"
  using assms
proof (induction "length xs" arbitrary: xs ys rule: less_induct)
  case less
  consider "length xs > 1" "length ys > 1" | "length xs \<le> 1" "length ys \<le> 1" | "(length xs > 1) \<noteq> (length ys > 1)"
    by linarith
  then show ?case
  proof cases
    case 1
    have "length (merkle_levels H (merkle_up H xs)) = length (merkle_levels H (merkle_up H ys))"
      using less.prems(2) by (simp add: merkle_levels_simps(1) [OF 1(1)] merkle_levels_simps(1) [OF 1(2)])
    moreover note n = no_collision_mono [OF less.prems(5) [unfolded merkle_pairs_simps(1) [OF 1(1)] merkle_pairs_simps(1) [OF 1(2)]]]
    ultimately have "merkle_up H xs = merkle_up H ys"
      using less.prems(1,3,4,6,7) 1 by (intro less.hyps n) (simp_all add: merkle_root_simps(3) merkle_mutated_simps)
    then show ?thesis
      by (rule merkle_up_inject) (use less.prems(6,7) 1 in \<open>auto simp: merkle_mutated_simps intro: n\<close>)
  next
    case 2
    then obtain x y where "xs = [x]" "ys = [y]" using less.prems(3,4) by (cases xs; cases ys) auto
    then show ?thesis using less.prems(1) by (simp add: merkle_root_simps)
  next
    case 3
    then show ?thesis using less.prems(2)
      by (auto simp: merkle_levels.simps [of H xs] merkle_levels.simps [of H ys])
  qed
qed

text \<open>The leftmost nodes, from the root down.\<close>

lemma merkle_levels_Suc:
  assumes "Suc k < length (merkle_levels H xs)"
  shows "merkle_levels H xs ! Suc k = merkle_up H (merkle_levels H xs ! k) \<and> length (merkle_levels H xs ! k) > 1 \<and>
    set (level_pairs (merkle_levels H xs ! k)) \<subseteq> merkle_pairs H xs"
  using assms
proof (induction k arbitrary: xs)
  case 0
  then have "length xs > 1" by (simp add: merkle_levels.simps [of H xs] split: if_splits)
  then show ?case by (simp add: merkle_levels_simps(1) merkle_pairs_simps(1)) (simp add: merkle_levels.simps)
next
  case (Suc k)
  then have "length xs > 1" by (simp add: merkle_levels.simps [of H xs] split: if_splits)
  then show ?case using Suc.IH [of "merkle_up H xs"] Suc.prems
    by (auto simp: merkle_levels_simps(1) [of xs] merkle_pairs_simps(1))
qed

lemma hd_merkle_up:
  "length xs > 1 \<Longrightarrow> \<exists>a b. hd (merkle_up H xs) = H a b \<and> a = hd xs \<and> (a, b) \<in> set (level_pairs xs)"
  by (cases xs rule: level_pairs.cases) auto

lemma hd_levels:
  assumes "Suc k < length (merkle_levels H xs)"
  obtains b where "hd (merkle_levels H xs ! Suc k) = H (hd (merkle_levels H xs ! k)) b"
    "(hd (merkle_levels H xs ! k), b) \<in> merkle_pairs H xs"
  using merkle_levels_Suc [OF assms] hd_merkle_up [of "merkle_levels H xs ! k" H] by auto

lemma leftmost_agree:
  assumes "merkle_root H xs = merkle_root H ys" "xs \<noteq> []" "ys \<noteq> []" "no_collision H (merkle_pairs H xs) (merkle_pairs H ys)"
    "k < length (merkle_levels H xs)" "k < length (merkle_levels H ys)"
  shows "hd (merkle_levels H xs ! (length (merkle_levels H xs) - Suc k)) =
    hd (merkle_levels H ys ! (length (merkle_levels H ys) - Suc k))"
  using assms(5,6)
proof (induction k)
  case 0
  then show ?case using assms(1-3) by (simp add: merkle_root_def last_conv_nth)
next
  case (Suc k)
  let ?X = "merkle_levels H xs" and ?Y = "merkle_levels H ys"
  have x: "length ?X - Suc k = Suc (length ?X - Suc (Suc k))" and y: "length ?Y - Suc k = Suc (length ?Y - Suc (Suc k))"
    using Suc.prems by simp_all
  obtain b where b: "hd (?X ! (length ?X - Suc k)) = H (hd (?X ! (length ?X - Suc (Suc k)))) b"
    "(hd (?X ! (length ?X - Suc (Suc k))), b) \<in> merkle_pairs H xs"
    using hd_levels [of "length ?X - Suc (Suc k)" H xs] Suc.prems x by (metis diff_less length_greater_0_conv merkle_levels_ne zero_less_Suc)
  obtain b' where b': "hd (?Y ! (length ?Y - Suc k)) = H (hd (?Y ! (length ?Y - Suc (Suc k)))) b'"
    "(hd (?Y ! (length ?Y - Suc (Suc k))), b') \<in> merkle_pairs H ys"
    using hd_levels [of "length ?Y - Suc (Suc k)" H ys] Suc.prems y by (metis diff_less length_greater_0_conv merkle_levels_ne zero_less_Suc)
  have "H (hd (?X ! (length ?X - Suc (Suc k)))) b = H (hd (?Y ! (length ?Y - Suc (Suc k)))) b'"
    using Suc b(1) b'(1) by simp
  then show ?case using no_collisionD [OF assms(4) b(2) b'(2)] by blast
qed

text \<open>Lists of different depth with one root: an id of the shorter one is an inner node of the other.\<close>

lemma merkle_depth:
  assumes "merkle_root H xs = merkle_root H ys" "xs \<noteq> []" "ys \<noteq> []" "no_collision H (merkle_pairs H xs) (merkle_pairs H ys)"
    "length (merkle_levels H xs) < length (merkle_levels H ys)"
  shows "\<exists>p \<in> merkle_pairs H ys. H (fst p) (snd p) \<in> set xs"
proof -
  let ?X = "merkle_levels H xs" and ?Y = "merkle_levels H ys"
  have hx: "?X ! 0 = xs" by (simp add: merkle_levels.simps [of H xs])
  have pos: "length ?X > 0" by simp
  then obtain k where k: "length ?Y - length ?X = Suc k" "Suc k < length ?Y"
    using assms(5) by (metis Suc_diff_Suc diff_less length_greater_0_conv merkle_levels_ne)
  have "hd xs = hd (?Y ! Suc k)"
    using leftmost_agree [OF assms(1-4), of "length ?X - 1"] assms(5) pos k hx by (simp add: Suc_diff_1)
  then obtain c d where "hd xs = H c d" "(c, d) \<in> merkle_pairs H ys" using hd_levels [OF k(2)] by metis
  then show ?thesis using assms(2) by (metis fst_conv hd_in_set snd_conv)
qed

section \<open>Partial trees\<close>

definition merkle_lev :: "(u256 \<Rightarrow> u256 \<Rightarrow> u256) \<Rightarrow> u256 list \<Rightarrow> nat \<Rightarrow> u256 list" where
  "merkle_lev H xs h = (merkle_up H ^^ h) xs"

lemma CalcTreeWidth_0 [simp]: "CalcTreeWidth n 0 = n"
  by (simp add: CalcTreeWidth_eq)

lemma CalcTreeWidth_Suc: "CalcTreeWidth n (Suc h) = (CalcTreeWidth n h + 1) div 2"
proof -
  have "(n + 2 ^ h - 1) div 2 ^ h + 1 = (n + 2 ^ h - 1 + 2 ^ h) div 2 ^ h"
    by (rule div_add_self2 [symmetric]) simp
  also have "n + 2 ^ h - 1 + 2 ^ h = n + 2 ^ Suc h - (1 :: nat)" by (cases "(2 :: nat) ^ h") auto
  finally have "((n + 2 ^ h - 1) div 2 ^ h + 1) div 2 = (n + 2 ^ Suc h - 1) div (2 ^ h * 2)"
    by (simp only: div_mult2_eq)
  then show ?thesis by (simp add: CalcTreeWidth_eq mult.commute)
qed

lemma CalcTreeWidth_le: "CalcTreeWidth n h \<le> k \<longleftrightarrow> n \<le> k * 2 ^ h"
proof -
  have "CalcTreeWidth n h \<le> k \<longleftrightarrow> n + 2 ^ h - 1 < (k + 1) * 2 ^ h"
    by (simp add: CalcTreeWidth_eq div_less_iff_less_mult flip: less_Suc_eq_le)
  also have "\<dots> \<longleftrightarrow> n \<le> k * 2 ^ h" by (cases "(2 :: nat) ^ h") auto
  finally show ?thesis .
qed

lemma CalcTreeWidth_gt: "k < CalcTreeWidth n h \<longleftrightarrow> k * 2 ^ h < n"
  using CalcTreeWidth_le [of n h k] by linarith

lemma length_merkle_lev: "length (merkle_lev H xs h) = CalcTreeWidth (length xs) h"
  by (induction h) (simp_all add: merkle_lev_def CalcTreeWidth_Suc)

lemma merkle_lev_0 [simp]: "merkle_lev H xs 0 = xs"
  by (simp add: merkle_lev_def)

lemma nth_merkle_lev_Suc:
  assumes "pos < CalcTreeWidth (length xs) (Suc h)"
  shows "merkle_lev H xs (Suc h) ! pos =
    H (merkle_lev H xs h ! (pos * 2))
      (merkle_lev H xs h ! (if pos * 2 + 1 < CalcTreeWidth (length xs) h then pos * 2 + 1 else pos * 2))"
proof -
  have "pos < (length (merkle_lev H xs h) + 1) div 2" using assms by (simp add: length_merkle_lev CalcTreeWidth_Suc)
  moreover have "min (2 * pos + 1) (CalcTreeWidth (length xs) h - 1) =
      (if pos * 2 + 1 < CalcTreeWidth (length xs) h then pos * 2 + 1 else pos * 2)"
    using assms by (auto simp: CalcTreeWidth_Suc)
  moreover have "merkle_lev H xs (Suc h) = merkle_up H (merkle_lev H xs h)" by (simp add: merkle_lev_def)
  ultimately show ?thesis
    using nth_merkle_up [of pos "merkle_lev H xs h" H] by (simp only: length_merkle_lev mult.commute [of 2 pos])
qed

lemma child_widths:
  assumes "pos < CalcTreeWidth n (Suc h)"
  shows "pos * 2 < CalcTreeWidth n h"
  using assms by (auto simp: CalcTreeWidth_Suc)

lemma CalcHash_lev:
  "pos < CalcTreeWidth (length xs) h \<Longrightarrow> CalcHash H (length xs) xs h pos = merkle_lev H xs h ! pos"
proof (induction h arbitrary: pos)
  case (Suc h)
  then show ?case using child_widths [OF Suc.prems] by (simp add: nth_merkle_lev_Suc Let_def)
qed simp

lemma merkle_root_lev:
  "xs \<noteq> [] \<Longrightarrow> merkle_root H (merkle_lev H xs h) = merkle_lev H xs (tree_height (length xs) h) ! 0"
proof (induction "length xs" h rule: tree_height.induct)
  case (1 h)
  show ?case
  proof (cases "CalcTreeWidth (length xs) h > 1")
    case True
    then have "merkle_root H (merkle_lev H xs h) = merkle_root H (merkle_lev H xs (h + 1))"
      by (simp add: merkle_root_simps(3) length_merkle_lev) (simp add: merkle_lev_def)
    then show ?thesis using True 1 by (simp add: tree_height.simps [of _ h])
  next
    case False
    have "0 < CalcTreeWidth (length xs) h" using 1(2) by (simp add: CalcTreeWidth_gt)
    then have "length (merkle_lev H xs h) = 1" using False by (simp add: length_merkle_lev)
    then obtain x where "merkle_lev H xs h = [x]" using length_1_list by blast
    then show ?thesis using False by (simp add: merkle_root_simps tree_height.simps [of _ h])
  qed
qed

lemma tree_height_width: "0 < n \<Longrightarrow> CalcTreeWidth n (tree_height n h) = 1"
proof (induction n h rule: tree_height.induct)
  case (1 n h)
  then show ?case
    using CalcTreeWidth_gt [of 0 n h] by (cases "CalcTreeWidth n h > 1") (auto simp: tree_height.simps [of n h])
qed

lemma width_below_height: "k < tree_height n h \<Longrightarrow> h \<le> k \<Longrightarrow> CalcTreeWidth n k > 1"
proof (induction n h rule: tree_height.induct)
  case (1 n h)
  then have "CalcTreeWidth n h > 1" by (cases "CalcTreeWidth n h > 1") (auto simp: tree_height.simps [of n h])
  then show ?case using 1 by (cases "h = k") (auto simp: tree_height.simps [of n h])
qed

subsection \<open>What is built is extracted\<close>

text \<open>The positions of the leaves below a node, and the ids matched there.\<close>

definition leaf_range :: "nat \<Rightarrow> nat \<Rightarrow> nat \<Rightarrow> nat list" where
  "leaf_range n h pos = [pos * 2 ^ h..<min ((pos + 1) * 2 ^ h) n]"

definition leaf_matches :: "u256 list \<Rightarrow> bool list \<Rightarrow> nat \<Rightarrow> nat \<Rightarrow> u256 list" where
  "leaf_matches ids vMatch h pos = map (nth ids) (filter (nth vMatch) (leaf_range (length ids) h pos))"

lemma parent_of_match_iff: "parent_of_match n vMatch h pos \<longleftrightarrow> (\<exists>p \<in> set (leaf_range n h pos). vMatch ! p)"
  by (simp add: parent_of_match_def leaf_range_def list_ex_iff push_bit_eq_mult)

lemma leaf_range_0: "pos < n \<Longrightarrow> leaf_range n 0 pos = [pos]"
  by (simp add: leaf_range_def min_def)

lemma upt_split: "i \<le> j \<Longrightarrow> j \<le> k \<Longrightarrow> [i..<k] = [i..<j] @ [j..<k]"
  by (metis le_Suc_ex upt_add_eq_append)

lemma leaf_range_Suc:
  assumes "pos < CalcTreeWidth n (Suc h)"
  shows "leaf_range n (Suc h) pos = leaf_range n h (pos * 2) @
    (if pos * 2 + 1 < CalcTreeWidth n h then leaf_range n h (pos * 2 + 1) else [])"
proof (cases "pos * 2 + 1 < CalcTreeWidth n h")
  case True
  then have l: "(pos * 2 + 1) * 2 ^ h < n" by (simp add: CalcTreeWidth_gt)
  have "[pos * 2 ^ Suc h..<min ((pos + 1) * 2 ^ Suc h) n] =
      [pos * 2 * 2 ^ h..<(pos * 2 + 1) * 2 ^ h] @ [(pos * 2 + 1) * 2 ^ h..<min ((pos * 2 + 1 + 1) * 2 ^ h) n]"
    using l upt_split [of "pos * 2 * 2 ^ h" "(pos * 2 + 1) * 2 ^ h" "min ((pos * 2 + 1 + 1) * 2 ^ h) n"]
    by (simp add: algebra_simps)
  then show ?thesis using True l by (simp add: leaf_range_def min_def)
next
  case False
  then have "n \<le> (pos * 2 + 1) * 2 ^ h" by (simp add: CalcTreeWidth_le not_less)
  moreover have "(pos * 2 + 1) * 2 ^ h \<le> (pos + 1) * 2 ^ Suc h" by simp
  ultimately show ?thesis using False by (simp add: leaf_range_def min_absorb2 algebra_simps)
qed


lemma TraverseAndBuild_sizes:
  assumes "TraverseAndBuild H (length ids) ids vMatch h pos = (bits, hashes)" "pos < CalcTreeWidth (length ids) h"
  shows "length hashes \<le> length bits \<and> length hashes \<le> length (leaf_range (length ids) h pos)"
  using assms
proof (induction h arbitrary: pos bits hashes)
  case 0
  then show ?case by (auto simp: leaf_range_0)
next
  case (Suc h)
  note w = child_widths [OF Suc.prems(2)]
  have r: "0 < length (leaf_range (length ids) (Suc h) pos)"
    using Suc.prems(2) by (simp add: leaf_range_def CalcTreeWidth_gt)
  show ?case
  proof (cases "parent_of_match (length ids) vMatch (Suc h) pos")
    case True
    obtain b l where l: "TraverseAndBuild H (length ids) ids vMatch h (pos * 2) = (b, l)" by fastforce
    obtain b' l' where l': "TraverseAndBuild H (length ids) ids vMatch h (pos * 2 + 1) = (b', l')" by fastforce
    show ?thesis
      using Suc.prems(1) True Suc.IH [OF l w] Suc.IH [OF l']
      by (auto simp: l l' [simplified] leaf_range_Suc [OF Suc.prems(2)] split: if_splits)
  next
    case False
    then show ?thesis using Suc.prems(1) r by (auto simp: Suc_le_eq)
  qed
qed

lemma leaf_matches_none: "\<not> parent_of_match (length ids) vMatch h pos \<Longrightarrow> leaf_matches ids vMatch h pos = []"
  by (auto simp: parent_of_match_iff leaf_matches_def filter_empty_conv)

lemma leaf_matches_Suc:
  assumes "pos < CalcTreeWidth (length ids) (Suc h)"
  shows "leaf_matches ids vMatch (Suc h) pos = leaf_matches ids vMatch h (pos * 2) @
    (if pos * 2 + 1 < CalcTreeWidth (length ids) h then leaf_matches ids vMatch h (pos * 2 + 1) else [])"
  using assms by (simp add: leaf_matches_def leaf_range_Suc)

lemma extract_of_build:
  assumes "TraverseAndBuild H (length ids) ids vMatch h pos = (bits, hashes)" "pos < CalcTreeWidth (length ids) h"
    "pmt_nTransactions t = length ids" "pmt_vBits t = b0 @ bits @ b1" "pmt_vHash t = h0 @ hashes @ h1"
    "ex_nBitsUsed st = length b0" "ex_nHashUsed st = length h0"
  shows "TraverseAndExtract H t h pos st = (merkle_lev H ids h ! pos,
    st\<lparr>ex_nBitsUsed := length b0 + length bits, ex_nHashUsed := length h0 + length hashes,
       ex_vMatch := ex_vMatch st @ leaf_matches ids vMatch h pos\<rparr>)"
  using assms
proof (induction h arbitrary: pos bits hashes b0 b1 h0 h1 st)
  case 0
  then have "bits = [parent_of_match (length ids) vMatch 0 pos]" "hashes = [ids ! pos]" by auto
  with 0 show ?case
    by (auto simp: TraverseAndExtract.simps [of H t 0] Let_def nth_append leaf_matches_none leaf_matches_def
        leaf_range_0 parent_of_match_iff)
next
  case (Suc h)
  note w = child_widths [OF Suc.prems(2)]
  show ?case
  proof (cases "parent_of_match (length ids) vMatch (Suc h) pos")
    case True
    obtain b l where l: "TraverseAndBuild H (length ids) ids vMatch h (pos * 2) = (b, l)" by fastforce
    obtain b' l' where l': "TraverseAndBuild H (length ids) ids vMatch h (pos * 2 + 1) = (b', l')" by fastforce
    define two where "two \<longleftrightarrow> pos * 2 + 1 < CalcTreeWidth (length ids) h"
    have bits: "bits = True # b @ (if two then b' else [])" and hashes: "hashes = l @ (if two then l' else [])"
      using Suc.prems(1) True l l' by (auto simp: two_def l' [simplified])
    define st1 where "st1 = st\<lparr>ex_nBitsUsed := length b0 + 1\<rparr>"
    define st2 where "st2 = st1\<lparr>ex_nBitsUsed := length b0 + 1 + length b, ex_nHashUsed := length h0 + length l,
        ex_vMatch := ex_vMatch st1 @ leaf_matches ids vMatch h (pos * 2)\<rparr>"
    have left: "TraverseAndExtract H t h (pos * 2) st1 = (merkle_lev H ids h ! (pos * 2), st2)"
      using Suc.IH [OF l w Suc.prems(3), of "b0 @ [True]" "(if two then b' else []) @ b1" h0 "(if two then l' else []) @ h1" st1]
        Suc.prems bits hashes by (simp add: st1_def st2_def)
    have right: "TraverseAndExtract H t h (pos * 2 + 1) st2 = (merkle_lev H ids h ! (pos * 2 + 1),
        st2\<lparr>ex_nBitsUsed := length b0 + 1 + length b + length b', ex_nHashUsed := length h0 + length l + length l',
          ex_vMatch := ex_vMatch st2 @ leaf_matches ids vMatch h (pos * 2 + 1)\<rparr>)" if two
      using Suc.IH [OF l' _ Suc.prems(3), of "b0 @ True # b" b1 "h0 @ l" h1 st2] that
        Suc.prems bits hashes by (simp add: st1_def st2_def two_def)
    have "TraverseAndExtract H t (Suc h) pos st =
        (case TraverseAndExtract H t h (pos * 2) st1 of (left, st) \<Rightarrow>
           (case (if two then TraverseAndExtract H t h (pos * 2 + 1) st else (left, st)) of
              (right, st) \<Rightarrow> (H left right, st)))"
      using Suc.prems bits by (subst TraverseAndExtract.simps) (simp add: Let_def nth_append st1_def two_def cong: if_cong)
    then show ?thesis
      using left right nth_merkle_lev_Suc [OF Suc.prems(2), of H] leaf_matches_Suc [OF Suc.prems(2), of vMatch] bits hashes
      by (cases two) (simp_all add: st1_def st2_def two_def)
  next
    case False
    then have "bits = [False]" "hashes = [merkle_lev H ids (Suc h) ! pos]"
      using Suc.prems(1) CalcHash_lev [OF Suc.prems(2), of H] by auto
    then show ?thesis
      using Suc.prems False leaf_matches_none [OF False]
      by (simp add: TraverseAndExtract.simps [of H t "Suc h"] Let_def nth_append)
  qed
qed

lemma ExtractMatches_build:
  assumes "0 < length ids" "length ids \<le> 33333" "t = CPartialMerkleTree_build H ids vMatch" "length pad < 8"
    "(length (pmt_vBits t) + length pad) mod 8 = 0 \<or> pad = []"
  shows "ExtractMatches H (t\<lparr>pmt_vBits := pmt_vBits t @ pad\<rparr>) =
    (merkle_root H ids, map (nth ids) (filter (nth vMatch) [0..<length ids]))"
proof -
  let ?n = "length ids" and ?h = "tree_height (length ids) 0"
  let ?t = "t\<lparr>pmt_vBits := pmt_vBits t @ pad\<rparr>"
  let ?st = "\<lparr>ex_nBitsUsed = 0, ex_nHashUsed = 0, ex_vMatch = [], ex_fBad = False\<rparr>"
  obtain bits hashes where b: "TraverseAndBuild H ?n ids vMatch ?h 0 = (bits, hashes)" by fastforce
  have t: "pmt_nTransactions ?t = ?n" "pmt_vBits ?t = [] @ bits @ pad" "pmt_vHash ?t = [] @ hashes @ []"
    using b by (simp_all add: assms(3) CPartialMerkleTree_build_def Let_def)
  have w: "CalcTreeWidth ?n ?h = 1" using assms(1) by (rule tree_height_width)
  have r: "leaf_range ?n ?h 0 = [0..<?n]"
    using w CalcTreeWidth_le [of ?n ?h 1] by (simp add: leaf_range_def min_absorb2)
  have e: "TraverseAndExtract H ?t ?h 0 ?st =
      (merkle_lev H ids ?h ! 0, ?st\<lparr>ex_nBitsUsed := length ([] :: bool list) + length bits,
        ex_nHashUsed := length ([] :: u256 list) + length hashes, ex_vMatch := ex_vMatch ?st @ leaf_matches ids vMatch ?h 0\<rparr>)"
    using w by (intro extract_of_build [OF b _ t]) simp_all
  have m: "merkle_root H ids = merkle_lev H ids ?h ! 0"
    using merkle_root_lev [of ids H 0] assms(1) by simp
  have s: "length hashes \<le> length bits" "length hashes \<le> ?n"
    using TraverseAndBuild_sizes [OF b] w r by simp_all
  have p: "(length bits + 7) div 8 = (length bits + length pad + 7) div 8"
  proof (cases "pad = []")
    case False
    then have "(length bits + length pad) mod 8 = 0" using assms(5) t(2) by simp
    then obtain q where q: "length bits + length pad = 8 * q" by (auto simp: mod_eq_0_iff_dvd)
    moreover have "0 < length pad" using False by simp
    ultimately have "(length bits + 7) div 8 = q" using assms(4) by (intro div_nat_eqI) simp_all
    then show ?thesis by (simp add: q)
  qed simp
  show ?thesis
    unfolding ExtractMatches_def t e using assms(1,2) s p by (simp add: m leaf_matches_def r)
qed

subsection \<open>The packed bits\<close>

lemma pack_bits_nth:
  assumes "q < (length vBits + 7) div 8" "r < 8"
  shows "bit (pack_bits vBits ! q) r \<longleftrightarrow> 8 * q + r < length vBits \<and> vBits ! (8 * q + r)"
proof -
  let ?N = "(length vBits + 7) div 8"
  let ?f = "\<lambda>p vBytes. vBytes[p div 8 := vBytes ! (p div 8) OR push_bit (p mod 8) (of_bool (vBits ! p))] :: byte list"
  have "length (fold ?f [0..<k] (replicate ?N 0)) = ?N \<and>
      (bit (fold ?f [0..<k] (replicate ?N 0) ! q) r \<longleftrightarrow> 8 * q + r < k \<and> vBits ! (8 * q + r))"
    if "k \<le> length vBits" for k
    using that
  proof (induction k)
    case 0
    show ?case using assms by simp
  next
    case (Suc k)
    let ?b = "fold ?f [0..<k] (replicate ?N 0)"
    have l: "length ?b = ?N" and IH: "bit (?b ! q) r \<longleftrightarrow> 8 * q + r < k \<and> vBits ! (8 * q + r)"
      using Suc by simp_all
    have k: "k = 8 * (k div 8) + k mod 8" by simp
    have "bit (?b[k div 8 := ?b ! (k div 8) OR push_bit (k mod 8) (of_bool (vBits ! k))] ! q) r \<longleftrightarrow>
        bit (?b ! q) r \<or> q = k div 8 \<and> r = k mod 8 \<and> vBits ! k"
      using assms l by (cases "q = k div 8") (auto simp: bit_simps)
    moreover have "q = k div 8 \<and> r = k mod 8 \<longleftrightarrow> 8 * q + r = k" using assms(2) by auto
    ultimately show ?case using IH l by (auto simp: less_Suc_eq)
  qed
  from this [of "length vBits"] show ?thesis by (simp add: pack_bits_def)
qed

lemma length_pack_bits: "length (pack_bits vBits) = (length vBits + 7) div 8"
proof -
  have "length (fold (\<lambda>p vBytes. vBytes[p div 8 := f p vBytes]) ps v) = length v" for ps and v :: "byte list" and f
    by (induction ps arbitrary: v) simp_all
  then show ?thesis by (simp add: pack_bits_def)
qed

lemma unpack_pack_bits:
  "unpack_bits (pack_bits vBits) = vBits @ replicate ((length vBits + 7) div 8 * 8 - length vBits) False"
proof (rule nth_equalityI)
  show l: "length (unpack_bits (pack_bits vBits)) =
      length (vBits @ replicate ((length vBits + 7) div 8 * 8 - length vBits) False)"
    by (simp add: unpack_bits_def length_pack_bits)
  fix i
  assume i: "i < length (unpack_bits (pack_bits vBits))"
  then have n: "i < (length vBits + 7) div 8 * 8" by (simp add: unpack_bits_def length_pack_bits)
  have "unpack_bits (pack_bits vBits) ! i \<longleftrightarrow> bit (pack_bits vBits ! (i div 8)) (i mod 8)"
    using n and_exp_eq_0_iff_not_bit [of "pack_bits vBits ! (i div 8)" "i mod 8"]
    by (simp add: unpack_bits_def length_pack_bits push_bit_eq_mult)
  also have "\<dots> \<longleftrightarrow> i < length vBits \<and> vBits ! i"
    using n pack_bits_nth [of "i div 8" vBits "i mod 8"] by (simp add: less_mult_imp_div_less)
  also have "\<dots> \<longleftrightarrow> (vBits @ replicate ((length vBits + 7) div 8 * 8 - length vBits) False) ! i"
    using i l by (auto simp: nth_append)
  finally show "unpack_bits (pack_bits vBits) ! i =
      (vBits @ replicate ((length vBits + 7) div 8 * 8 - length vBits) False) ! i" .
qed

interpretation hashes: vector_codec "ser_word :: u256 \<Rightarrow> byte list" unser_word "\<lambda>_. True"
  by unfold_locales

lemma unser_ser_CPartialMerkleTree:
  assumes "pmt_nTransactions t < 2 ^ 32" "length (pmt_vHash t) \<le> MAX_SIZE" "length (pmt_vBits t) \<le> MAX_SIZE"
  shows "unser_CPartialMerkleTree (ser_CPartialMerkleTree t @ s) =
    Inr (t\<lparr>pmt_vBits := pmt_vBits t @ replicate ((length (pmt_vBits t) + 7) div 8 * 8 - length (pmt_vBits t)) False\<rparr>, s)"
proof -
  have "unat (word_of_nat (pmt_nTransactions t) :: u32) = pmt_nTransactions t"
    using assms(1) by (simp add: unat_of_nat)
  moreover have "valid_bytes (pack_bits (pmt_vBits t))" using assms(3) by (simp add: valid_bytes_def length_pack_bits)
  moreover have "valid_vector (\<lambda>_. True) (pmt_vHash t)" using assms(2) by (simp add: valid_vector_def)
  ultimately show ?thesis
    by (simp add: unser_CPartialMerkleTree_def ser_CPartialMerkleTree_def rbind_def rreturn_def u32.unser_ser
        hashes.vec.unser_ser bytes.unser_ser unpack_pack_bits)
qed


lemma TraverseAndBuild_bits:
  assumes "TraverseAndBuild H (length ids) ids vMatch h pos = (bits, hashes)" "pos < CalcTreeWidth (length ids) h"
  shows "length bits \<le> (h + 1) * length (leaf_range (length ids) h pos)"
  using assms
proof (induction h arbitrary: pos bits hashes)
  case 0
  then show ?case by (auto simp: leaf_range_0)
next
  case (Suc h)
  note w = child_widths [OF Suc.prems(2)]
  have r: "0 < length (leaf_range (length ids) (Suc h) pos)"
    using Suc.prems(2) by (simp add: leaf_range_def CalcTreeWidth_gt)
  show ?case
  proof (cases "parent_of_match (length ids) vMatch (Suc h) pos")
    case True
    obtain b l where l: "TraverseAndBuild H (length ids) ids vMatch h (pos * 2) = (b, l)" by fastforce
    obtain b' l' where l': "TraverseAndBuild H (length ids) ids vMatch h (pos * 2 + 1) = (b', l')" by fastforce
    have "length bits \<le> 1 + (h + 1) * length (leaf_range (length ids) (Suc h) pos)"
      using Suc.prems(1) True Suc.IH [OF l w] Suc.IH [OF l']
      by (auto simp: l l' [simplified] leaf_range_Suc [OF Suc.prems(2)] algebra_simps split: if_splits)
    moreover have "(Suc h + 1) * L = L + (h + 1) * L" for L by simp
    ultimately show ?thesis using r by (metis (no_types, lifting) One_nat_def Suc_leI add_le_mono1 le_trans)
  next
    case False
    then show ?thesis using Suc.prems(1) r by (auto simp: Suc_le_eq)
  qed
qed

lemma tree_height_bound:
  assumes "n \<le> 2 ^ k"
  shows "tree_height n 0 \<le> k"
proof (rule ccontr)
  assume "\<not> tree_height n 0 \<le> k"
  then have "CalcTreeWidth n k > 1" using width_below_height [of k n 0] by simp
  then show False using CalcTreeWidth_more assms by fastforce
qed

lemma build_fits:
  assumes "0 < length ids" "length ids \<le> 33333"
  shows "length (pmt_vHash (CPartialMerkleTree_build H ids vMatch)) \<le> MAX_SIZE"
    and "length (pmt_vBits (CPartialMerkleTree_build H ids vMatch)) \<le> MAX_SIZE"
proof -
  let ?n = "length ids" and ?h = "tree_height (length ids) 0"
  obtain bits hashes where b: "TraverseAndBuild H ?n ids vMatch ?h 0 = (bits, hashes)" by fastforce
  have w: "0 < CalcTreeWidth ?n ?h" using assms(1) by (simp add: tree_height_width)
  have r: "length (leaf_range ?n ?h 0) \<le> ?n" by (simp add: leaf_range_def)
  have "?h \<le> 16" using assms(2) by (intro tree_height_bound) simp
  then have "(?h + 1) * length (leaf_range ?n ?h 0) \<le> 17 * 33333" using r assms(2) by (intro mult_le_mono) simp_all
  then have "length bits \<le> 17 * 33333" using TraverseAndBuild_bits [OF b w] by linarith
  moreover have "length hashes \<le> length bits" using TraverseAndBuild_sizes [OF b w] by simp
  ultimately show "length (pmt_vHash (CPartialMerkleTree_build H ids vMatch)) \<le> MAX_SIZE"
    "length (pmt_vBits (CPartialMerkleTree_build H ids vMatch)) \<le> MAX_SIZE"
    using b by (simp_all add: CPartialMerkleTree_build_def Let_def)
qed

subsection \<open>What is extracted is in the tree\<close>

lemma extract_bad:
  "ex_fBad st \<Longrightarrow> ex_fBad (snd (TraverseAndExtract H t h pos st))"
proof (induction h arbitrary: pos st)
  case 0
  then show ?case by (simp add: TraverseAndExtract.simps [of H t 0] Let_def)
next
  case (Suc h)
  have IH: "ex_fBad st2" if "TraverseAndExtract H t h p st1 = (v, st2)" "ex_fBad st1" for p st1 v st2
    using Suc.IH [of st1 p] that by simp
  show ?case
    using Suc.prems by (subst TraverseAndExtract.simps) (auto simp: Let_def split: prod.splits if_splits dest!: IH)
qed

lemma level_pairs_nth:
  "k < (length xs + 1) div 2 \<Longrightarrow> (xs ! (2 * k), xs ! min (2 * k + 1) (length xs - 1)) \<in> set (level_pairs xs)"
proof (induction xs arbitrary: k rule: level_pairs.induct)
  case (3 x y xs)
  show ?case
  proof (cases k)
    case (Suc j)
    then have "(xs ! (2 * j), xs ! min (2 * j + 1) (length xs - 1)) \<in> set (level_pairs xs)" using 3 by simp
    moreover have "xs \<noteq> []" using 3(2) Suc by auto
    ultimately show ?thesis using Suc by (cases xs) (auto simp: min_def)
  qed simp
qed simp_all

lemma merkle_pairs_lev:
  assumes "CalcTreeWidth (length xs) h > 1"
  shows "set (level_pairs (merkle_lev H xs h)) \<subseteq> merkle_pairs H xs"
  using assms
proof (induction h arbitrary: xs)
  case 0
  then show ?case by (simp add: merkle_pairs_simps(1))
next
  case (Suc h)
  have l: "length xs > 1"
  proof (rule ccontr)
    assume "\<not> length xs > 1"
    moreover have "1 \<le> (2 :: nat) ^ Suc h" by simp
    ultimately have "length xs \<le> 1 * 2 ^ Suc h" by linarith
    then show False using Suc.prems CalcTreeWidth_le [of "length xs" "Suc h" 1] by simp
  qed
  have "CalcTreeWidth (length (merkle_up H xs)) h = CalcTreeWidth (length xs) (Suc h)"
    using length_merkle_lev [of H "merkle_up H xs" h] length_merkle_lev [of H xs "Suc h"]
    by (simp add: merkle_lev_def funpow_swap1)
  then have "set (level_pairs (merkle_lev H (merkle_up H xs) h)) \<subseteq> merkle_pairs H (merkle_up H xs)"
    using Suc by simp
  then show ?case using merkle_pairs_simps(1) [OF l, of H] by (auto simp: merkle_lev_def funpow_swap1)
qed

text \<open>The pairs that \<^verbatim>\<open>TraverseAndExtract\<close> hashes, and those of a whole extraction.\<close>

fun extract_pairs :: "(u256 \<Rightarrow> u256 \<Rightarrow> u256) \<Rightarrow> CPartialMerkleTree \<Rightarrow> nat \<Rightarrow> nat \<Rightarrow> extract_state \<Rightarrow> (u256 \<times> u256) set" where
  "extract_pairs H t 0 pos st = {}"
| "extract_pairs H t (Suc h) pos st =
     (if ex_nBitsUsed st < length (pmt_vBits t) \<and> pmt_vBits t ! ex_nBitsUsed st then
        (case TraverseAndExtract H t h (pos * 2) (st\<lparr>ex_nBitsUsed := ex_nBitsUsed st + 1\<rparr>) of (left, st') \<Rightarrow>
           extract_pairs H t h (pos * 2) (st\<lparr>ex_nBitsUsed := ex_nBitsUsed st + 1\<rparr>) \<union>
           (if pos * 2 + 1 < CalcTreeWidth (pmt_nTransactions t) h
            then insert (left, fst (TraverseAndExtract H t h (pos * 2 + 1) st')) (extract_pairs H t h (pos * 2 + 1) st')
            else {(left, left)}))
      else {})"

definition tree_pairs :: "(u256 \<Rightarrow> u256 \<Rightarrow> u256) \<Rightarrow> CPartialMerkleTree \<Rightarrow> (u256 \<times> u256) set" where
  "tree_pairs H t = extract_pairs H t (tree_height (pmt_nTransactions t) 0) 0
     \<lparr>ex_nBitsUsed = 0, ex_nHashUsed = 0, ex_vMatch = [], ex_fBad = False\<rparr>"

text \<open>One level of the extraction.\<close>

lemma extract_step:
  assumes "TraverseAndExtract H t (Suc h) pos st = (v, st')" "ex_nBitsUsed st < length (pmt_vBits t)" "pmt_vBits t ! ex_nBitsUsed st"
  obtains l st2 r where "TraverseAndExtract H t h (pos * 2) (st\<lparr>ex_nBitsUsed := ex_nBitsUsed st + 1\<rparr>) = (l, st2)"
    "if pos * 2 + 1 < CalcTreeWidth (pmt_nTransactions t) h then TraverseAndExtract H t h (pos * 2 + 1) st2 = (r, st') else r = l \<and> st' = st2"
    "v = H l r"
    "extract_pairs H t (Suc h) pos st = extract_pairs H t h (pos * 2) (st\<lparr>ex_nBitsUsed := ex_nBitsUsed st + 1\<rparr>) \<union> {(l, r)} \<union>
       (if pos * 2 + 1 < CalcTreeWidth (pmt_nTransactions t) h then extract_pairs H t h (pos * 2 + 1) st2 else {})"
proof -
  obtain l st2 where l: "TraverseAndExtract H t h (pos * 2) (st\<lparr>ex_nBitsUsed := ex_nBitsUsed st + 1\<rparr>) = (l, st2)" by fastforce
  obtain r st3 where r: "(if pos * 2 + 1 < CalcTreeWidth (pmt_nTransactions t) h then TraverseAndExtract H t h (pos * 2 + 1) st2 else (l, st2)) = (r, st3)"
    by fastforce
  have e: "v = H l r" "st' = st3"
    using assms l r by (simp_all add: TraverseAndExtract.simps [of H t "Suc h"] Let_def split: if_splits)
  show thesis
    by (rule that [OF l _ e(1)]) (use r e(2) assms(2,3) l in \<open>auto split: if_splits\<close>)
qed

text \<open>The nodes of a tree, and that the pairs of the tree consist of them.\<close>

definition merkle_nodes :: "(u256 \<Rightarrow> u256 \<Rightarrow> u256) \<Rightarrow> u256 list \<Rightarrow> u256 set" where
  "merkle_nodes H xs = set xs \<union> (\<lambda>p. H (fst p) (snd p)) ` merkle_pairs H xs"

lemma level_pairs_elems: "(a, b) \<in> set (level_pairs xs) \<Longrightarrow> a \<in> set xs \<and> b \<in> set xs"
  by (induction xs rule: level_pairs.induct) auto

lemma set_merkle_up: "set (merkle_up H xs) = (\<lambda>p. H (fst p) (snd p)) ` set (level_pairs xs)"
  by (induction H xs rule: merkle_up.induct) auto

lemma merkle_nodes_up: "length xs > 1 \<Longrightarrow> merkle_nodes H xs = set xs \<union> merkle_nodes H (merkle_up H xs)"
  unfolding merkle_nodes_def merkle_pairs_simps(1) image_Un set_merkle_up by blast

lemma merkle_pairs_nodes: "(a, b) \<in> merkle_pairs H xs \<Longrightarrow> a \<in> merkle_nodes H xs \<and> b \<in> merkle_nodes H xs"
proof (induction "length xs" arbitrary: xs rule: less_induct)
  case less
  show ?case
  proof (cases "length xs > 1")
    case True
    then have "length (merkle_up H xs) < length xs" by simp
    from less.hyps [OF this] show ?thesis
      using less.prems level_pairs_elems [of a b xs]
      unfolding merkle_pairs_simps(1) [OF True] merkle_nodes_up [OF True] by auto
  qed (use less.prems merkle_pairs_simps(2) in auto)
qed

lemma merkle_root_node: "xs \<noteq> [] \<Longrightarrow> merkle_root H xs \<in> merkle_nodes H xs"
proof (induction "length xs" arbitrary: xs rule: less_induct)
  case less
  show ?case
  proof (cases "length xs > 1")
    case True
    then show ?thesis
      using less.hyps [of "merkle_up H xs"] less.prems unfolding merkle_root_simps(3) [OF True] merkle_nodes_up [OF True] by auto
  next
    case False
    then obtain x where "xs = [x]" using less.prems by (cases xs) auto
    then show ?thesis by (simp add: merkle_root_simps merkle_nodes_def)
  qed
qed

text \<open>Whatever number of transactions a partial tree states, it shows nodes of the tree.\<close>

lemma extract_nodes:
  assumes "TraverseAndExtract H t h pos st = (v, st')" "v \<in> merkle_nodes H ids"
    "no_collision H (merkle_pairs H ids) (extract_pairs H t h pos st)" "\<forall>q \<in> extract_pairs H t h pos st. H (fst q) (snd q) \<notin> set ids"
    "set (ex_vMatch st) \<subseteq> merkle_nodes H ids"
  shows "set (ex_vMatch st') \<subseteq> merkle_nodes H ids"
  using assms
proof (induction h arbitrary: pos st v st')
  case 0
  then show ?case by (auto simp: TraverseAndExtract.simps [of H t 0] Let_def split: if_splits)
next
  case (Suc h)
  show ?case
  proof (cases "ex_nBitsUsed st < length (pmt_vBits t) \<and> pmt_vBits t ! ex_nBitsUsed st")
    case True
    let ?st1 = "st\<lparr>ex_nBitsUsed := ex_nBitsUsed st + 1\<rparr>"
    obtain l st2 r where x: "TraverseAndExtract H t h (pos * 2) ?st1 = (l, st2)"
      "if pos * 2 + 1 < CalcTreeWidth (pmt_nTransactions t) h then TraverseAndExtract H t h (pos * 2 + 1) st2 = (r, st') else r = l \<and> st' = st2"
      "v = H l r"
      "extract_pairs H t (Suc h) pos st = extract_pairs H t h (pos * 2) ?st1 \<union> {(l, r)} \<union>
         (if pos * 2 + 1 < CalcTreeWidth (pmt_nTransactions t) h then extract_pairs H t h (pos * 2 + 1) st2 else {})"
      using extract_step [OF Suc.prems(1)] True by blast
    note p = Suc.prems(3,4) [unfolded x(4)]
    have "v \<notin> set ids" using p(2) x(3) by auto
    then obtain a b where ab: "(a, b) \<in> merkle_pairs H ids" "v = H a b" using Suc.prems(2) by (auto simp: merkle_nodes_def)
    have "a = l \<and> b = r" by (rule no_collisionD [OF p(1) ab(1)]) (use ab(2) x(3) in auto)
    then have n: "l \<in> merkle_nodes H ids" "r \<in> merkle_nodes H ids" using merkle_pairs_nodes [OF ab(1)] by auto
    have s2: "set (ex_vMatch st2) \<subseteq> merkle_nodes H ids"
      by (rule Suc.IH [OF x(1) n(1)]) (use p Suc.prems(5) in \<open>auto intro: no_collision_mono\<close>)
    show ?thesis
    proof (cases "pos * 2 + 1 < CalcTreeWidth (pmt_nTransactions t) h")
      case two: True
      with x(2) have "TraverseAndExtract H t h (pos * 2 + 1) st2 = (r, st')" by simp
      then show ?thesis by (rule Suc.IH [OF _ n(2)]) (use two p s2 in \<open>auto intro: no_collision_mono\<close>)
    qed (use x(2) s2 in simp)
  next
    case False
    then show ?thesis using Suc.prems(1,5) by (auto simp: TraverseAndExtract.simps [of H t "Suc h"] Let_def split: if_splits)
  qed
qed

lemma extract_in_tree:
  assumes "TraverseAndExtract H t h pos st = (merkle_lev H ids h ! pos, st')" "\<not> ex_fBad st'"
    "pos < CalcTreeWidth (length ids) h" "pmt_nTransactions t = length ids" "h \<le> tree_height (length ids) 0"
    "no_collision H (merkle_pairs H ids) (extract_pairs H t h pos st)" "set (ex_vMatch st) \<subseteq> set ids"
  shows "set (ex_vMatch st') \<subseteq> set ids"
  using assms(1-3,5-7)
proof (induction h arbitrary: pos st st')
  case 0
  then show ?case
    by (auto simp: TraverseAndExtract.simps [of H t 0] Let_def split: if_splits)
next
  case (Suc h)
  let ?W = "CalcTreeWidth (length ids)"
  note w = child_widths [OF Suc.prems(3)]
  let ?b = "merkle_lev H ids h ! (if pos * 2 + 1 < ?W h then pos * 2 + 1 else pos * 2)"
  define st1 where "st1 = st\<lparr>ex_nBitsUsed := ex_nBitsUsed st + 1\<rparr>"
  show ?case
  proof (cases "ex_nBitsUsed st < length (pmt_vBits t) \<and> pmt_vBits t ! ex_nBitsUsed st")
    case True
    obtain l st2 r where x: "TraverseAndExtract H t h (pos * 2) st1 = (l, st2)"
      "if pos * 2 + 1 < ?W h then TraverseAndExtract H t h (pos * 2 + 1) st2 = (r, st') else r = l \<and> st' = st2"
      "merkle_lev H ids (Suc h) ! pos = H l r"
      "extract_pairs H t (Suc h) pos st = extract_pairs H t h (pos * 2) st1 \<union> {(l, r)} \<union>
         (if pos * 2 + 1 < ?W h then extract_pairs H t h (pos * 2 + 1) st2 else {})"
      using extract_step [OF Suc.prems(1)] True unfolding st1_def assms(4) by blast
    note p = Suc.prems(5) [unfolded x(4)]
    have "(merkle_lev H ids h ! (pos * 2), ?b) \<in> merkle_pairs H ids"
    proof -
      have "pos < (length (merkle_lev H ids h) + 1) div 2"
        using Suc.prems(3) by (simp add: length_merkle_lev CalcTreeWidth_Suc)
      moreover have "min (2 * pos + 1) (?W h - 1) = (if pos * 2 + 1 < ?W h then pos * 2 + 1 else pos * 2)"
        using Suc.prems(3) by (auto simp: CalcTreeWidth_Suc)
      ultimately have "(merkle_lev H ids h ! (pos * 2), ?b) \<in> set (level_pairs (merkle_lev H ids h))"
        using level_pairs_nth [of pos "merkle_lev H ids h"] by (simp only: length_merkle_lev mult.commute [of 2 pos])
      moreover have "?W h > 1" using Suc.prems(4) by (intro width_below_height [of h _ 0]) simp_all
      ultimately show ?thesis using merkle_pairs_lev by blast
    qed
    from no_collisionD [OF p this, of l r] have lr: "l = merkle_lev H ids h ! (pos * 2)" "r = ?b"
      using x(3) nth_merkle_lev_Suc [OF Suc.prems(3), of H] by simp_all
    have b2: "\<not> ex_fBad st2"
      using Suc.prems(2) x(2) extract_bad [of st2 H t h "pos * 2 + 1"] by (auto split: if_splits)
    have s2: "set (ex_vMatch st2) \<subseteq> set ids"
      by (rule Suc.IH [of "pos * 2" st1 st2]) (use Suc.prems(4,6) b2 w x(1) lr(1) p in \<open>auto simp: st1_def intro: no_collision_mono\<close>)
    show ?thesis
    proof (cases "pos * 2 + 1 < ?W h")
      case two: True
      show ?thesis
        by (rule Suc.IH [of "pos * 2 + 1" st2 st']) (use Suc.prems(2,4) two x(2) lr(2) s2 p in \<open>auto intro: no_collision_mono\<close>)
    qed (use x(2) s2 in simp)
  next
    case False
    then show ?thesis
      using Suc.prems by (auto simp: TraverseAndExtract.simps [of H t "Suc h"] Let_def split: if_splits)
  qed
qed


lemma pad_to_bytes: "(n + 7) div 8 * 8 - n < 8" "(n + ((n + 7) div 8 * 8 - n)) mod 8 = 0" for n :: nat
proof -
  have "n \<le> (n + 7) div 8 * 8" "(n + 7) div 8 * 8 < n + 8" by simp_all
  then show "(n + 7) div 8 * 8 - n < 8" "(n + ((n + 7) div 8 * 8 - n)) mod 8 = 0" by simp_all
qed

section \<open>Properties\<close>

text \<open>
  The loops of \<^verbatim>\<open>BuildMerkleTree\<close> over one flat array compute the levels of the tree of the
  transaction ids, one after the other; the result is the root of the reference definition,
  and the mutation flag is set exactly when some level ends in two equal paired nodes.
\<close>

theorem merkle_tree_built:
  "BuildMerkleTree sha256 b =
     (let ids = map (GetHash sha256) (blk_vtx b) in
      (concat (merkle_levels (Hash2 sha256) ids), merkle_root (Hash2 sha256) ids, merkle_mutated (Hash2 sha256) ids))"
  by (simp add: BuildMerkleTree_def BuildMerkleTree_ids_eq Let_def)

text \<open>
  The branch that \<^verbatim>\<open>GetMerkleBranch\<close> returns for a transaction of a block leads, with
  \<^verbatim>\<open>CheckMerkleBranch\<close>, from the transaction's id to the Merkle root of the block.
\<close>

theorem merkle_branch_checks:
  assumes "i < length (blk_vtx b)"
  shows "CheckMerkleBranch sha256 (GetHash sha256 (blk_vtx b ! i)) (GetMerkleBranch sha256 b i) (int i) =
    fst (snd (BuildMerkleTree sha256 b))"
  using CheckMerkleBranch_levels [of i "map (GetHash sha256) (blk_vtx b)" "Hash2 sha256" "[]"] assms
  by (simp add: CheckMerkleBranch_def GetMerkleBranch_def BuildMerkleTree_def BuildMerkleTree_ids_eq)

theorem merkle_branch_checks_witness:
  "CheckMerkleBranch (\<lambda>x. x) (GetHash (\<lambda>x. x) sample_stake_tx) (GetMerkleBranch (\<lambda>x. x) sample_stake_block 1) 1 =
    fst (snd (BuildMerkleTree (\<lambda>x. x) sample_stake_block))"
  using merkle_branch_checks [of 1 sample_stake_block "\<lambda>x. x"]
  by (simp add: sample_stake_block_def CBlockHeader.extend_def CBlockHeader_null_def)

text \<open>
  C30: A Merkle root commits to the list of transaction ids. Two different lists that are not
  flagged as mutated and have the same root, of whatever lengths, exhibit two different pairs, one
  hashed in the tree of each, with the same hash, or an id of one list is the hash of a pair
  in the tree of the other.
\<close>

theorem merkle_root_commits:
  assumes "BuildMerkleTree_ids H xs = (tree, root, False)" "BuildMerkleTree_ids H ys = (tree', root, False)"
    and "xs \<noteq> []" "ys \<noteq> []" "xs \<noteq> ys"
  shows "(\<exists>p \<in> merkle_pairs H xs. \<exists>q \<in> merkle_pairs H ys. p \<noteq> q \<and> H (fst p) (snd p) = H (fst q) (snd q)) \<or>
    (\<exists>p \<in> merkle_pairs H xs. H (fst p) (snd p) \<in> set ys) \<or> (\<exists>p \<in> merkle_pairs H ys. H (fst p) (snd p) \<in> set xs)"
proof (rule disjCI)
  assume n: "\<not> ((\<exists>p \<in> merkle_pairs H xs. H (fst p) (snd p) \<in> set ys) \<or> (\<exists>p \<in> merkle_pairs H ys. H (fst p) (snd p) \<in> set xs))"
  have m: "merkle_root H xs = merkle_root H ys" "\<not> merkle_mutated H xs" "\<not> merkle_mutated H ys"
    using assms(1,2) by (simp_all add: BuildMerkleTree_ids_eq)
  have "\<not> no_collision H (merkle_pairs H xs) (merkle_pairs H ys)"
  proof
    assume c: "no_collision H (merkle_pairs H xs) (merkle_pairs H ys)"
    then have c': "no_collision H (merkle_pairs H ys) (merkle_pairs H xs)" by (fastforce simp: no_collision_def)
    have "length (merkle_levels H xs) = length (merkle_levels H ys)"
      using n merkle_depth [OF m(1) assms(3,4) c] merkle_depth [OF m(1) [symmetric] assms(4,3) c'] by (meson linorder_neqE_nat)
    then show False using merkle_root_inject [OF m(1) _ assms(3,4) c m(2,3)] assms(5) by blast
  qed
  then show "\<exists>p \<in> merkle_pairs H xs. \<exists>q \<in> merkle_pairs H ys. p \<noteq> q \<and> H (fst p) (snd p) = H (fst q) (snd q)"
    unfolding no_collision_def by blast
qed

theorem merkle_root_commits_witness:
  "let H = (\<lambda>a b. if a = 1 \<and> b = 2 then 3 else 4) in
   (\<exists>p \<in> merkle_pairs H [1, 2]. \<exists>q \<in> merkle_pairs H [3]. p \<noteq> q \<and> H (fst p) (snd p) = H (fst q) (snd q)) \<or>
   (\<exists>p \<in> merkle_pairs H [1, 2]. H (fst p) (snd p) \<in> set [3 :: u256]) \<or> (\<exists>p \<in> merkle_pairs H [3]. H (fst p) (snd p) \<in> set [1, 2])"
proof -
  let ?H = "\<lambda>a b :: u256. if a = 1 \<and> b = 2 then 3 else 4 :: u256"
  have l: "merkle_levels ?H [1, 2] = [[1, 2], [3]]" "merkle_levels ?H [3] = [[3]]" by (simp_all add: merkle_levels.simps)
  have "BuildMerkleTree_ids ?H [1, 2] = ([1, 2, 3], 3, False)" "BuildMerkleTree_ids ?H [3] = ([3], 3, False)"
    by (simp_all add: BuildMerkleTree_ids_eq merkle_root_def merkle_mutated_def l)
  from merkle_root_commits [OF this] show ?thesis unfolding Let_def by simp
qed

text \<open>
  C32: A partial Merkle tree built for a block of at most 33333 transactions, serialized, sent
  and read back, yields exactly the matched ids in their order and the Merkle root of the
  block; reading it consumes exactly its own bytes.
\<close>

theorem partial_tree_roundtrip:
  assumes "0 < length ids" "length ids \<le> 33333"
  shows "\<exists>t. unser_CPartialMerkleTree (ser_CPartialMerkleTree (CPartialMerkleTree_build H ids vMatch) @ s) = Inr (t, s) \<and>
    ExtractMatches H t =
      (fst (snd (BuildMerkleTree_ids H ids)), map (nth ids) (filter (nth vMatch) [0..<length ids]))"
proof -
  let ?t = "CPartialMerkleTree_build H ids vMatch"
  let ?pad = "replicate ((length (pmt_vBits ?t) + 7) div 8 * 8 - length (pmt_vBits ?t)) False"
  have n: "pmt_nTransactions ?t < 2 ^ 32"
    using assms(2) by (simp add: CPartialMerkleTree_build_def Let_def split: prod.splits)
  have pad: "length ?pad < 8" "(length (pmt_vBits ?t) + length ?pad) mod 8 = 0"
    using pad_to_bytes [of "length (pmt_vBits ?t)"] by simp_all
  show ?thesis
    using unser_ser_CPartialMerkleTree [OF n build_fits [OF assms], of s]
      ExtractMatches_build [OF assms refl pad(1), of H vMatch] pad(2) by (simp add: BuildMerkleTree_ids_eq)
qed

theorem partial_tree_roundtrip_witness:
  "\<exists>t. unser_CPartialMerkleTree
      (ser_CPartialMerkleTree (CPartialMerkleTree_build (\<lambda>a b. a + 2 * b) [5, 6, 7] [False, True, False]) @ [9]) = Inr (t, [9]) \<and>
    snd (ExtractMatches (\<lambda>a b. a + 2 * b) t) = [6]"
  using partial_tree_roundtrip [of "[5, 6, 7]" "\<lambda>a b. a + 2 * b" "[False, True, False]" "[9]"]
  by (auto simp: upt_rec)

text \<open>
  C31: A partial tree whose extraction returns the Merkle root of a block (not the error value zero),
  and whose hashed pairs do not collide with those of the block's tree, proves what it shows. If it states
  the number of transactions of the block, every extracted id is an id of the block.
  Whatever number it states, every extracted id is an id or an inner node of the block's tree, unless
  an id of the block is itself the hash of a pair shown in the partial tree.
\<close>

theorem partial_tree_sound:
  assumes "ExtractMatches H t = (merkle_root H ids, matches)" "merkle_root H ids \<noteq> 0"
    and "no_collision H (merkle_pairs H ids) (tree_pairs H t)"
  shows "(pmt_nTransactions t = length ids \<longrightarrow> set matches \<subseteq> set ids) \<and>
    (set matches \<subseteq> merkle_nodes H ids \<or> (\<exists>q \<in> tree_pairs H t. H (fst q) (snd q) \<in> set ids))"
proof -
  let ?h = "tree_height (pmt_nTransactions t) 0"
  let ?st = "\<lparr>ex_nBitsUsed = 0, ex_nHashUsed = 0, ex_vMatch = [], ex_fBad = False\<rparr>"
  have n: "0 < length ids" using assms(2) by (cases ids) (auto simp: merkle_root_simps)
  obtain st' where v: "TraverseAndExtract H t ?h 0 ?st = (merkle_root H ids, st')" "\<not> ex_fBad st'" "matches = ex_vMatch st'"
    using assms(1,2) by (auto simp: ExtractMatches_def split: if_splits prod.splits)
  have "set matches \<subseteq> set ids" if c: "pmt_nTransactions t = length ids"
  proof -
    have "merkle_root H ids = merkle_lev H ids ?h ! 0" using merkle_root_lev [of ids H 0] n c by simp
    then have "TraverseAndExtract H t ?h 0 ?st = (merkle_lev H ids ?h ! 0, st')" using v(1) by simp
    from extract_in_tree [OF this v(2) _ c] show ?thesis
      using n v(3) assms(3) c by (simp add: tree_height_width tree_pairs_def)
  qed
  moreover have "set matches \<subseteq> merkle_nodes H ids" if "\<not> (\<exists>q \<in> tree_pairs H t. H (fst q) (snd q) \<in> set ids)"
    using extract_nodes [OF v(1), of ids] merkle_root_node [of ids H] n v(3) assms(3) that by (auto simp: tree_pairs_def)
  ultimately show ?thesis by blast
qed

theorem partial_tree_sound_witness:
  "snd (ExtractMatches (\<lambda>a b. if a = 1 \<and> b = 2 then 3 else 4)
      \<lparr>pmt_nTransactions = 2, pmt_vBits = [True, False, True], pmt_vHash = [1, 2]\<rparr>) = [2] \<and>
    set [2] \<subseteq> set [1, 2 :: u256]"
proof -
  let ?H = "\<lambda>a b :: u256. if a = 1 \<and> b = 2 then 3 else 4 :: u256"
  let ?t = "\<lparr>pmt_nTransactions = 2, pmt_vBits = [True, False, True], pmt_vHash = [1, 2]\<rparr>"
  have l: "merkle_levels ?H [1, 2] = [[1, 2], [3]]" by (simp add: merkle_levels.simps)
  have w: "CalcTreeWidth 2 0 = 2" "CalcTreeWidth 2 1 = 1" by (simp_all add: CalcTreeWidth_eq)
  have h: "tree_height 2 0 = 1" using w by (simp add: tree_height.simps)
  have e: "ExtractMatches ?H ?t = (merkle_root ?H [1, 2], [2])"
    by (simp add: ExtractMatches_def h TraverseAndExtract.simps Let_def w merkle_root_def l)
  have "merkle_root ?H [1, 2] \<noteq> 0" by (simp add: merkle_root_def l)
  moreover have "no_collision ?H (merkle_pairs ?H [1, 2]) (tree_pairs ?H ?t)"
    by (simp add: no_collision_def merkle_pairs_def l tree_pairs_def h TraverseAndExtract.simps Let_def w)
  ultimately have "set [2] \<subseteq> set [1, 2 :: u256]" using partial_tree_sound [OF e] by simp
  then show ?thesis using e by simp
qed

end
