(* ===== verification/Chain.thy ===== *)
theory Chain
  imports Transaction Uint256
begin

unbundle bit_operations_syntax

text \<open>
  The block index and the active chain (chain.h, chain.cpp, and the index functions of
  main.cpp). Index entries live in \<^verbatim>\<open>mapBlockIndex\<close> under the hash of their block and are
  never freed, so a pointer to an entry is the hash it is stored under, and a null pointer is
  \<open>None\<close>. Loops that follow \<^verbatim>\<open>pprev\<close> take a bound on the number of steps and return \<open>None\<close> when it
  is used up; the height of the entry they start from is proved to be enough.
\<close>

section \<open>Index entries\<close>

type_synonym bptr = "u256 option"

record CBlockIndex =
  bi_pprev :: bptr
  bi_pnext :: bptr
  bi_pskip :: bptr
  bi_bnChainTrust :: base_uint
  bi_nHeight :: nat
  bi_nFile :: int
  bi_nDataPos :: u32
  bi_nUndoPos :: u32
  bi_nChainWork :: base_uint
  bi_nTx :: u32
  bi_nChainTx :: u32
  bi_nStatus :: u32
  bi_nFlags :: u32
  bi_nStakeModifier :: u64
  bi_nStakeModifierChecksum :: u32
  bi_prevoutStake :: COutPoint
  bi_nStakeTime :: u32
  bi_hashProofOfStake :: u256
  bi_nMint :: int
  bi_nMoneySupply :: int
  bi_nVersion :: int
  bi_hashMerkleRoot :: u256
  bi_nTime :: u32
  bi_nBits :: u32
  bi_nNonce :: u32
  bi_nSequenceId :: u32

type_synonym BlockMap = "u256 \<rightharpoonup> CBlockIndex"

text \<open>\<^verbatim>\<open>BlockStatus\<close>.\<close>

abbreviation (input) BLOCK_VALID_HEADER :: u32 where "BLOCK_VALID_HEADER \<equiv> 1"
abbreviation (input) BLOCK_VALID_TREE :: u32 where "BLOCK_VALID_TREE \<equiv> 2"
abbreviation (input) BLOCK_VALID_TRANSACTIONS :: u32 where "BLOCK_VALID_TRANSACTIONS \<equiv> 3"
abbreviation (input) BLOCK_VALID_CHAIN :: u32 where "BLOCK_VALID_CHAIN \<equiv> 4"
abbreviation (input) BLOCK_VALID_SCRIPTS :: u32 where "BLOCK_VALID_SCRIPTS \<equiv> 5"
abbreviation (input) BLOCK_VALID_MASK :: u32 where "BLOCK_VALID_MASK \<equiv> 7"
abbreviation (input) BLOCK_HAVE_DATA :: u32 where "BLOCK_HAVE_DATA \<equiv> 8"
abbreviation (input) BLOCK_HAVE_UNDO :: u32 where "BLOCK_HAVE_UNDO \<equiv> 16"
abbreviation (input) BLOCK_FAILED_VALID :: u32 where "BLOCK_FAILED_VALID \<equiv> 32"
abbreviation (input) BLOCK_FAILED_CHILD :: u32 where "BLOCK_FAILED_CHILD \<equiv> 64"
abbreviation (input) BLOCK_FAILED_MASK :: u32 where "BLOCK_FAILED_MASK \<equiv> 96"

abbreviation (input) BLOCK_PROOF_OF_STAKE :: u32 where "BLOCK_PROOF_OF_STAKE \<equiv> 1"
abbreviation (input) BLOCK_STAKE_ENTROPY :: u32 where "BLOCK_STAKE_ENTROPY \<equiv> 2"
abbreviation (input) BLOCK_STAKE_MODIFIER :: u32 where "BLOCK_STAKE_MODIFIER \<equiv> 4"

definition index_IsProofOfStake :: "CBlockIndex \<Rightarrow> bool" where
  "index_IsProofOfStake bi \<longleftrightarrow> bi_nFlags bi AND BLOCK_PROOF_OF_STAKE \<noteq> 0"

definition SetProofOfStake :: "CBlockIndex \<Rightarrow> CBlockIndex" where
  "SetProofOfStake bi = bi\<lparr>bi_nFlags := bi_nFlags bi OR BLOCK_PROOF_OF_STAKE\<rparr>"

definition GetStakeEntropyBit :: "u256 \<Rightarrow> u32" where
  "GetStakeEntropyBit hash = ucast hash AND 1"

definition SetStakeEntropyBit :: "u32 \<Rightarrow> CBlockIndex \<Rightarrow> bool \<times> CBlockIndex" where
  "SetStakeEntropyBit nEntropyBit bi =
     (if nEntropyBit > 1 then (False, bi)
      else (True, bi\<lparr>bi_nFlags := bi_nFlags bi OR (if nEntropyBit \<noteq> 0 then BLOCK_STAKE_ENTROPY else 0)\<rparr>))"

definition SetStakeModifier :: "u64 \<Rightarrow> bool \<Rightarrow> CBlockIndex \<Rightarrow> CBlockIndex" where
  "SetStakeModifier nModifier fGeneratedStakeModifier bi =
     (let bi = bi\<lparr>bi_nStakeModifier := nModifier\<rparr> in
      if fGeneratedStakeModifier then bi\<lparr>bi_nFlags := bi_nFlags bi OR BLOCK_STAKE_MODIFIER\<rparr> else bi)"

text \<open>\<^verbatim>\<open>IsValid\<close> and \<^verbatim>\<open>RaiseValidity\<close>; the callers pass only validity flags, so the assertions hold.\<close>

definition index_IsValid :: "u32 \<Rightarrow> CBlockIndex \<Rightarrow> bool" where
  "index_IsValid nUpTo bi =
     (if bi_nStatus bi AND BLOCK_FAILED_MASK \<noteq> 0 then False else bi_nStatus bi AND BLOCK_VALID_MASK \<ge> nUpTo)"

definition RaiseValidity :: "u32 \<Rightarrow> CBlockIndex \<Rightarrow> bool \<times> CBlockIndex" where
  "RaiseValidity nUpTo bi =
     (if bi_nStatus bi AND BLOCK_FAILED_MASK \<noteq> 0 then (False, bi)
      else if bi_nStatus bi AND BLOCK_VALID_MASK < nUpTo
      then (True, bi\<lparr>bi_nStatus := (bi_nStatus bi AND NOT BLOCK_VALID_MASK) OR nUpTo\<rparr>)
      else (False, bi))"

section \<open>Ancestors\<close>

definition InvertLowestOne :: "nat \<Rightarrow> nat" where
  "InvertLowestOne n = n AND (n - 1)"

definition GetSkipHeight :: "nat \<Rightarrow> nat" where
  "GetSkipHeight height =
     (if height < 2 then 0
      else if height AND 1 \<noteq> 0 then InvertLowestOne (InvertLowestOne (height - 1)) + 1
      else InvertLowestOne height)"

lemma InvertLowestOne_less: "0 < n \<Longrightarrow> InvertLowestOne n < n"
proof -
  assume n: "0 < n"
  have "int (n AND (n - 1)) \<le> int (n - 1)" by (simp only: of_nat_and_eq) (rule AND_upper2, simp)
  then show "InvertLowestOne n < n" using n by (simp add: InvertLowestOne_def)
qed

lemma GetSkipHeight_less: "0 < h \<Longrightarrow> GetSkipHeight h < h"
proof -
  assume h: "0 < h"
  have "InvertLowestOne (InvertLowestOne (h - 1)) < h - 1" if "2 \<le> h"
  proof (cases "InvertLowestOne (h - 1) = 0")
    case True
    then show ?thesis using that by (simp add: InvertLowestOne_def)
  next
    case False
    then show ?thesis using that InvertLowestOne_less [of "h - 1"] InvertLowestOne_less [of "InvertLowestOne (h - 1)"] by simp
  qed
  then show "GetSkipHeight h < h" using h InvertLowestOne_less [of h] by (auto simp: GetSkipHeight_def)
qed

text \<open>Reading a member through a pointer.\<close>

definition deref :: "BlockMap \<Rightarrow> (CBlockIndex \<Rightarrow> 'a option) \<Rightarrow> bptr \<Rightarrow> 'a option" where
  "deref idx f p = Option.bind p (\<lambda>h. Option.bind (idx h) f)"

function GetAncestor_loop :: "BlockMap \<Rightarrow> bptr \<Rightarrow> nat \<Rightarrow> nat \<Rightarrow> bptr" where
  "GetAncestor_loop idx pindexWalk heightWalk height =
     (if heightWalk > height then
        let heightSkip = GetSkipHeight heightWalk;
            heightSkipPrev = GetSkipHeight (heightWalk - 1)
        in if heightSkip = height \<or>
             (heightSkip > height \<and> \<not> (int heightSkipPrev < int heightSkip - 2 \<and> heightSkipPrev \<ge> height))
           then GetAncestor_loop idx (deref idx bi_pskip pindexWalk) heightSkip height
           else GetAncestor_loop idx (deref idx bi_pprev pindexWalk) (heightWalk - 1) height
      else pindexWalk)"
  by pat_completeness auto
termination
  by (relation "measure (\<lambda>(idx, p, heightWalk, height). heightWalk)") (auto intro: GetSkipHeight_less)

declare GetAncestor_loop.simps [simp del]

definition GetAncestor :: "BlockMap \<Rightarrow> u256 \<Rightarrow> int \<Rightarrow> bptr" where
  "GetAncestor idx p height =
     (case idx p of
        None \<Rightarrow> None
      | Some bi \<Rightarrow>
          if height > int (bi_nHeight bi) \<or> height < 0 then None
          else GetAncestor_loop idx (Some p) (bi_nHeight bi) (nat height))"

definition BuildSkip :: "BlockMap \<Rightarrow> CBlockIndex \<Rightarrow> CBlockIndex" where
  "BuildSkip idx bi =
     (case bi_pprev bi of
        None \<Rightarrow> bi
      | Some q \<Rightarrow> bi\<lparr>bi_pskip := GetAncestor idx q (int (GetSkipHeight (bi_nHeight bi)))\<rparr>)"

section \<open>The active chain\<close>

type_synonym CChain = "bptr list"

definition Genesis :: "CChain \<Rightarrow> bptr" where
  "Genesis vChain = (if length vChain > 0 then vChain ! 0 else None)"

fun Tip_loop :: "nat \<Rightarrow> BlockMap \<Rightarrow> bptr \<Rightarrow> bptr option" where
  "Tip_loop 0 idx pindex = None"
| "Tip_loop (Suc fuel) idx pindex =
     (case Option.bind pindex idx of
        None \<Rightarrow> Some pindex
      | Some bi \<Rightarrow>
          if bi_pprev bi \<noteq> None \<and> \<not> index_IsProofOfStake bi then Tip_loop fuel idx (bi_pprev bi) else Some pindex)"

definition Tip :: "BlockMap \<Rightarrow> CChain \<Rightarrow> bool \<Rightarrow> bptr option" where
  "Tip idx vChain fProofOfStake =
     (if length vChain < 1 then Some None
      else
        let pindex = vChain ! (length vChain - 1) in
        if fProofOfStake then Tip_loop (length vChain) idx pindex else Some pindex)"

definition chain_at :: "CChain \<Rightarrow> int \<Rightarrow> bptr" where
  "chain_at vChain nHeight =
     (if nHeight < 0 \<or> nHeight \<ge> int (length vChain) then None else vChain ! nat nHeight)"

definition Contains :: "BlockMap \<Rightarrow> CChain \<Rightarrow> u256 \<Rightarrow> bool" where
  "Contains idx vChain p =
     (case idx p of None \<Rightarrow> False | Some bi \<Rightarrow> chain_at vChain (int (bi_nHeight bi)) = Some p)"

definition chain_Next :: "BlockMap \<Rightarrow> CChain \<Rightarrow> u256 \<Rightarrow> bptr" where
  "chain_Next idx vChain p =
     (if Contains idx vChain p then Option.bind (idx p) (\<lambda>bi. chain_at vChain (int (bi_nHeight bi) + 1)) else None)"

definition chain_Height :: "CChain \<Rightarrow> int" where
  "chain_Height vChain = int (length vChain) - 1"

fun SetTip_loop :: "nat \<Rightarrow> BlockMap \<Rightarrow> bptr \<Rightarrow> CChain \<Rightarrow> CChain option" where
  "SetTip_loop 0 idx pindex vChain = None"
| "SetTip_loop (Suc fuel) idx pindex vChain =
     (case pindex of
        None \<Rightarrow> Some vChain
      | Some p \<Rightarrow>
          (case idx p of
             None \<Rightarrow> None
           | Some bi \<Rightarrow>
               if vChain ! bi_nHeight bi \<noteq> Some p
               then SetTip_loop fuel idx (bi_pprev bi) (vChain[bi_nHeight bi := Some p])
               else Some vChain))"

text \<open>\<^verbatim>\<open>resize\<close> cuts the vector, or extends it with null pointers.\<close>

definition SetTip :: "BlockMap \<Rightarrow> CChain \<Rightarrow> bptr \<Rightarrow> CChain option" where
  "SetTip idx vChain pindex =
     (case pindex of
        None \<Rightarrow> Some []
      | Some p \<Rightarrow>
          (case idx p of
             None \<Rightarrow> None
           | Some bi \<Rightarrow>
               let n = bi_nHeight bi + 1
               in SetTip_loop (n + 1) idx pindex (take n vChain @ replicate (n - length vChain) None)))"

fun GetLocator_loop :: "nat \<Rightarrow> BlockMap \<Rightarrow> CChain \<Rightarrow> bptr \<Rightarrow> nat \<Rightarrow> u256 list \<Rightarrow> u256 list option" where
  "GetLocator_loop 0 idx vChain pindex nStep vHave = None"
| "GetLocator_loop (Suc fuel) idx vChain pindex nStep vHave =
     (case pindex of
        None \<Rightarrow> Some vHave
      | Some p \<Rightarrow>
          (case idx p of
             None \<Rightarrow> None
           | Some bi \<Rightarrow>
               let vHave = vHave @ [p] in
               if bi_nHeight bi = 0 then Some vHave
               else
                 let nHeight = max (int (bi_nHeight bi) - int nStep) 0;
                     pindex = (if Contains idx vChain p then chain_at vChain nHeight else GetAncestor idx p nHeight)
                 in GetLocator_loop fuel idx vChain pindex (if length vHave > 10 then nStep * 2 else nStep) vHave))"

definition GetLocator :: "BlockMap \<Rightarrow> CChain \<Rightarrow> bptr \<Rightarrow> u256 list option" where
  "GetLocator idx vChain pindex =
     (case (if pindex = None then Tip idx vChain False else Some pindex) of
        None \<Rightarrow> None
      | Some None \<Rightarrow> Some []
      | Some (Some p) \<Rightarrow>
          (case idx p of
             None \<Rightarrow> None
           | Some bi \<Rightarrow> GetLocator_loop (bi_nHeight bi + 1) idx vChain (Some p) 1 []))"

fun FindFork_loop :: "nat \<Rightarrow> BlockMap \<Rightarrow> CChain \<Rightarrow> bptr \<Rightarrow> bptr option" where
  "FindFork_loop 0 idx vChain pindex = None"
| "FindFork_loop (Suc fuel) idx vChain pindex =
     (case pindex of
        None \<Rightarrow> Some None
      | Some p \<Rightarrow>
          if \<not> Contains idx vChain p then FindFork_loop fuel idx vChain (deref idx bi_pprev pindex) else Some pindex)"

definition FindFork :: "BlockMap \<Rightarrow> CChain \<Rightarrow> u256 \<Rightarrow> bptr option" where
  "FindFork idx vChain p =
     (case idx p of
        None \<Rightarrow> None
      | Some bi \<Rightarrow>
          FindFork_loop (bi_nHeight bi + 2) idx vChain
            (if int (bi_nHeight bi) > chain_Height vChain then GetAncestor idx p (chain_Height vChain) else Some p))"

section \<open>Times, versions and the order of candidates\<close>

text \<open>The loop of \<^verbatim>\<open>GetMedianTimePast\<close>, which fills an array from its end, and the median.\<close>

fun past_times :: "nat \<Rightarrow> BlockMap \<Rightarrow> bptr \<Rightarrow> int list" where
  "past_times 0 idx pindex = []"
| "past_times (Suc n) idx pindex =
     (case Option.bind pindex idx of
        None \<Rightarrow> []
      | Some bi \<Rightarrow> past_times n idx (bi_pprev bi) @ [int (unat (bi_nTime bi))])"

definition GetMedianTimePast :: "BlockMap \<Rightarrow> u256 \<Rightarrow> int" where
  "GetMedianTimePast idx p =
     (let pmedian = sort (past_times 11 idx (Some p)) in pmedian ! (length pmedian div 2))"

text \<open>The loop of \<^verbatim>\<open>IsSuperMajority\<close>, with \<open>n\<close> blocks left to check.\<close>

fun IsSuperMajority_loop :: "nat \<Rightarrow> BlockMap \<Rightarrow> int \<Rightarrow> bptr \<Rightarrow> nat \<Rightarrow> nat \<Rightarrow> nat" where
  "IsSuperMajority_loop 0 idx minVersion pstart nRequired nFound = nFound"
| "IsSuperMajority_loop (Suc n) idx minVersion pstart nRequired nFound =
     (case Option.bind pstart idx of
        None \<Rightarrow> nFound
      | Some bi \<Rightarrow>
          if nFound < nRequired
          then IsSuperMajority_loop n idx minVersion (bi_pprev bi) nRequired
                 (if bi_nVersion bi \<ge> minVersion then nFound + 1 else nFound)
          else nFound)"

definition IsSuperMajority :: "nat \<Rightarrow> BlockMap \<Rightarrow> int \<Rightarrow> bptr \<Rightarrow> nat \<Rightarrow> bool" where
  "IsSuperMajority nToCheck idx minVersion pstart nRequired \<longleftrightarrow>
     IsSuperMajority_loop nToCheck idx minVersion pstart nRequired 0 \<ge> nRequired"

text \<open>
  \<^verbatim>\<open>CBlockIndexWorkComparator\<close>; the addresses that break the last tie are the argument \<open>addr\<close>.
\<close>

definition WorkComparator :: "(u256 \<Rightarrow> nat) \<Rightarrow> u256 \<times> CBlockIndex \<Rightarrow> u256 \<times> CBlockIndex \<Rightarrow> bool" where
  "WorkComparator addr pa pb =
     (if CompareTo (bi_nChainWork (snd pa)) (bi_nChainWork (snd pb)) > 0 then False
      else if CompareTo (bi_nChainWork (snd pa)) (bi_nChainWork (snd pb)) < 0 then True
      else if bi_nSequenceId (snd pa) < bi_nSequenceId (snd pb) then False
      else if bi_nSequenceId (snd pa) > bi_nSequenceId (snd pb) then True
      else if addr (fst pa) < addr (fst pb) then False
      else if addr (fst pa) > addr (fst pb) then True
      else False)"

section \<open>The tree of blocks\<close>

text \<open>The ancestor reached by following \<^verbatim>\<open>pprev\<close> \<open>n\<close> times.\<close>

definition walk :: "BlockMap \<Rightarrow> nat \<Rightarrow> u256 \<Rightarrow> bptr" where
  "walk idx n p = (deref idx bi_pprev ^^ n) (Some p)"

text \<open>
  Well-formed indices: an entry without predecessor has height zero, every other one is one
  higher than its predecessor and its skip pointer is the ancestor at the skip height.
\<close>

definition entry_wf :: "BlockMap \<Rightarrow> u256 \<Rightarrow> CBlockIndex \<Rightarrow> bool" where
  "entry_wf idx p bi \<longleftrightarrow>
     (case bi_pprev bi of
        None \<Rightarrow> bi_nHeight bi = 0
      | Some q \<Rightarrow> (\<exists>bq. idx q = Some bq \<and> bi_nHeight bi = bi_nHeight bq + 1) \<and>
          bi_pskip bi = walk idx (bi_nHeight bi - GetSkipHeight (bi_nHeight bi)) p)"

definition index_wf :: "BlockMap \<Rightarrow> bool" where
  "index_wf idx \<longleftrightarrow> (\<forall>p bi. idx p = Some bi \<longrightarrow> entry_wf idx p bi)"

lemma walk_0 [simp]: "walk idx 0 p = Some p"
  by (simp add: walk_def)

lemma walk_Suc: "walk idx (Suc n) p = deref idx bi_pprev (walk idx n p)"
  by (simp add: walk_def)

lemma walk_Suc': "idx p = Some bi \<Longrightarrow> bi_pprev bi = Some q \<Longrightarrow> walk idx (Suc n) p = walk idx n q"
  by (simp add: walk_def funpow_swap1 deref_def del: funpow.simps) (simp add: funpow_swap1 deref_def)

lemma walk_add: "walk idx m p = Some q \<Longrightarrow> walk idx (n + m) p = walk idx n q"
  by (simp add: walk_def funpow_add)

lemma index_wf_prev:
  assumes "index_wf idx" "idx p = Some bi" "0 < bi_nHeight bi"
  obtains q bq where "bi_pprev bi = Some q" "idx q = Some bq" "bi_nHeight bi = bi_nHeight bq + 1"
    "bi_pskip bi = walk idx (bi_nHeight bi - GetSkipHeight (bi_nHeight bi)) p"
  using assms by (fastforce simp: index_wf_def entry_wf_def split: option.splits)

lemma index_wf_root:
  "index_wf idx \<Longrightarrow> idx p = Some bi \<Longrightarrow> bi_nHeight bi = 0 \<Longrightarrow> bi_pprev bi = None"
  by (fastforce simp: index_wf_def entry_wf_def split: option.splits)

lemma walk_height:
  assumes "index_wf idx" "idx p = Some bi" "n \<le> bi_nHeight bi"
  shows "\<exists>q bq. walk idx n p = Some q \<and> idx q = Some bq \<and> bi_nHeight bq = bi_nHeight bi - n"
  using assms(3)
proof (induction n)
  case 0
  show ?case using assms(2) by simp
next
  case (Suc n)
  then obtain q bq where q: "walk idx n p = Some q" "idx q = Some bq" "bi_nHeight bq = bi_nHeight bi - n" by auto
  then obtain r br where "bi_pprev bq = Some r" "idx r = Some br" "bi_nHeight bq = bi_nHeight br + 1"
    using index_wf_prev [OF assms(1) q(2)] Suc.prems by (metis Suc_le_eq zero_less_diff)
  then show ?case using q by (simp add: walk_Suc deref_def)
qed

lemma walk_beyond:
  assumes "index_wf idx" "idx p = Some bi"
  shows "walk idx (Suc (bi_nHeight bi)) p = None"
proof -
  obtain q bq where q: "walk idx (bi_nHeight bi) p = Some q" "idx q = Some bq" "bi_nHeight bq = 0"
    using walk_height [OF assms, of "bi_nHeight bi"] by auto
  then show ?thesis using index_wf_root [OF assms(1) q(2,3)] by (simp add: walk_Suc deref_def)
qed

section \<open>Skipping finds the ancestor\<close>

lemma GetAncestor_loop_walk:
  assumes "index_wf idx" "idx p = Some bi" "height \<le> bi_nHeight bi"
  shows "GetAncestor_loop idx (Some p) (bi_nHeight bi) height = walk idx (bi_nHeight bi - height) p"
  using assms(2,3)
proof (induction "bi_nHeight bi" arbitrary: p bi rule: less_induct)
  case less
  let ?h = "bi_nHeight bi" and ?s = "GetSkipHeight (bi_nHeight bi)"
  show ?case
  proof (cases "?h > height")
    case True
    obtain q bq where q: "bi_pprev bi = Some q" "idx q = Some bq" "?h = bi_nHeight bq + 1"
      "bi_pskip bi = walk idx (?h - ?s) p"
      using index_wf_prev [OF assms(1) less.prems(1)] True by (metis gr_zeroI not_less_zero)
    have s: "?s < ?h" using True by (intro GetSkipHeight_less) simp
    show ?thesis
    proof (cases "?s = height \<or> (?s > height \<and>
        \<not> (int (GetSkipHeight (?h - 1)) < int ?s - 2 \<and> GetSkipHeight (?h - 1) \<ge> height))")
      case skip: True
      obtain r br where r: "walk idx (?h - ?s) p = Some r" "idx r = Some br" "bi_nHeight br = ?s"
        using walk_height [OF assms(1) less.prems(1), of "?h - ?s"] s by auto
      have "GetAncestor_loop idx (Some r) ?s height = walk idx (?s - height) r"
        using less.hyps [OF _ r(2), of] r(3) s skip by auto
      also have "\<dots> = walk idx (?s - height + (?h - ?s)) p" using walk_add [OF r(1)] by simp
      also have "?s - height + (?h - ?s) = ?h - height" using s skip by auto
      finally have "GetAncestor_loop idx (Some r) ?s height = walk idx (?h - height) p" .
      then show ?thesis
        using True skip less.prems(1) q(4) r(1) by (simp add: GetAncestor_loop.simps [of idx _ ?h] Let_def deref_def)
    next
      case False
      have "GetAncestor_loop idx (Some q) (?h - 1) height = walk idx (?h - 1 - height) q"
        using less.hyps [OF _ q(2)] q(3) True by simp
      also have "\<dots> = walk idx (?h - height) p"
        using walk_Suc' [of idx p bi q "?h - 1 - height", OF less.prems(1) q(1)] True by (simp add: Suc_diff_Suc)
      finally show ?thesis
        using True False less.prems(1) q(1) by (auto simp: GetAncestor_loop.simps [of idx _ ?h] Let_def deref_def)
    qed
  qed (use less.prems in \<open>simp add: GetAncestor_loop.simps\<close>)
qed

lemma GetAncestor_walk:
  assumes "index_wf idx" "idx p = Some bi"
  shows "GetAncestor idx p height =
    (if 0 \<le> height \<and> height \<le> int (bi_nHeight bi) then walk idx (bi_nHeight bi - nat height) p else None)"
  using GetAncestor_loop_walk [OF assms, of "nat height"] assms(2) by (auto simp: GetAncestor_def)

section \<open>Chains\<close>

definition chain_path :: "BlockMap \<Rightarrow> u256 \<Rightarrow> CBlockIndex \<Rightarrow> CChain" where
  "chain_path idx p bi = map (\<lambda>k. walk idx (bi_nHeight bi - k) p) [0..<bi_nHeight bi + 1]"

text \<open>A chain is empty or the path from the root to an entry, which is its tip.\<close>

definition chain_wf :: "BlockMap \<Rightarrow> CChain \<Rightarrow> bool" where
  "chain_wf idx v \<longleftrightarrow> v = [] \<or> (\<exists>p bi. idx p = Some bi \<and> v = chain_path idx p bi)"

lemma length_chain_path [simp]: "length (chain_path idx p bi) = bi_nHeight bi + 1"
  by (simp add: chain_path_def)

lemma nth_chain_path: "k \<le> bi_nHeight bi \<Longrightarrow> chain_path idx p bi ! k = walk idx (bi_nHeight bi - k) p"
  by (simp add: chain_path_def del: upt_Suc)

definition closed_below :: "BlockMap \<Rightarrow> CChain \<Rightarrow> nat \<Rightarrow> bool" where
  "closed_below idx v m \<longleftrightarrow>
     (\<forall>k c. k < m \<longrightarrow> v ! k = Some c \<longrightarrow> (\<forall>k' \<le> k. v ! k' = walk idx (k - k') c))"

lemma chain_wf_closed:
  assumes "chain_wf idx v"
  shows "closed_below idx v (length v)"
proof (cases "v = []")
  case False
  then obtain p bi where v: "v = chain_path idx p bi" using assms by (auto simp: chain_wf_def)
  show ?thesis
    unfolding closed_below_def
  proof (intro allI impI)
    fix k c k'
    assume k: "k < length v" "v ! k = Some c" "k' \<le> k"
    then have "walk idx (bi_nHeight bi - k) p = Some c" by (simp add: v nth_chain_path)
    from walk_add [OF this, of "k - k'"] k show "v ! k' = walk idx (k - k') c"
      by (simp add: v nth_chain_path)
  qed
qed (simp add: closed_below_def)

lemma closed_below_resize:
  assumes "closed_below idx v (length v)"
  shows "closed_below idx (take n v @ replicate (n - length v) None) n"
  unfolding closed_below_def
proof (intro allI impI)
  let ?v = "take n v @ replicate (n - length v) None"
  fix k c k'
  assume k: "k < n" "?v ! k = Some c" "k' \<le> k"
  then have l: "k < length v" by (auto simp: nth_append split: if_splits)
  then have "v ! k = Some c" using k by (simp add: nth_append)
  then have "v ! k' = walk idx (k - k') c" using assms l k(3) by (auto simp: closed_below_def)
  then show "?v ! k' = walk idx (k - k') c" using l k by (simp add: nth_append)
qed

lemma SetTip_loop_path:
  assumes "index_wf idx" "idx p = Some bi" "h \<le> bi_nHeight bi" "length v = bi_nHeight bi + 1"
    "\<forall>k. h < k \<and> k \<le> bi_nHeight bi \<longrightarrow> v ! k = walk idx (bi_nHeight bi - k) p" "closed_below idx v (h + 1)"
  shows "SetTip_loop (h + 2) idx (walk idx (bi_nHeight bi - h) p) v = Some (chain_path idx p bi)"
  using assms(3-6)
proof (induction h arbitrary: v)
  case (0 v)
  let ?H = "bi_nHeight bi"
  obtain c bc where c: "walk idx ?H p = Some c" "idx c = Some bc" "bi_nHeight bc = 0"
    using walk_height [OF assms(1,2), of ?H] by auto
  have "v[0 := Some c] = chain_path idx p bi"
    using 0 c(1) by (intro nth_equalityI) (auto simp: nth_list_update nth_chain_path)
  moreover have "v ! 0 = Some c \<Longrightarrow> v[0 := Some c] = v" using 0 by (metis list_update_id)
  ultimately show ?case
    using c index_wf_root [OF assms(1) c(2,3)] by (auto simp: numeral_2_eq_2)
next
  case (Suc h v)
  let ?H = "bi_nHeight bi"
  obtain c bc where c: "walk idx (?H - Suc h) p = Some c" "idx c = Some bc" "bi_nHeight bc = Suc h"
    using walk_height [OF assms(1,2), of "?H - Suc h"] Suc.prems(1) by auto
  obtain q where q: "bi_pprev bc = Some q" using index_wf_prev [OF assms(1) c(2)] c(3) by auto
  have wq: "walk idx (?H - h) p = Some q"
  proof -
    have "?H - h = Suc (?H - Suc h)" using Suc.prems(1) by simp
    then show ?thesis using c q by (simp add: walk_Suc deref_def)
  qed
  show ?case
  proof (cases "v ! Suc h = Some c")
    case True
    have "v ! k = chain_path idx p bi ! k" if "k \<le> ?H" for k
    proof (cases "k \<le> Suc h")
      case k: True
      have "v ! k = walk idx (Suc h - k) c" using Suc.prems(4) True k by (auto simp: closed_below_def)
      also have "\<dots> = walk idx (Suc h - k + (?H - Suc h)) p" using walk_add [OF c(1)] by simp
      finally show ?thesis using that k Suc.prems(1) by (simp add: nth_chain_path)
    qed (use Suc.prems(3) that in \<open>simp add: nth_chain_path\<close>)
    then have "v = chain_path idx p bi" using Suc.prems(2) by (intro nth_equalityI) auto
    then show ?thesis using True c by simp
  next
    case False
    let ?v = "v[Suc h := Some c]"
    have "closed_below idx ?v (h + 1)"
      using Suc.prems(4) by (auto simp: closed_below_def nth_list_update)
    moreover have "\<forall>k. h < k \<and> k \<le> ?H \<longrightarrow> ?v ! k = walk idx (?H - k) p"
      using Suc.prems(2,3) c(1) by (auto simp: nth_list_update)
    ultimately have "SetTip_loop (h + 2) idx (walk idx (?H - h) p) ?v = Some (chain_path idx p bi)"
      using Suc.prems(1,2) by (intro Suc.IH) simp_all
    then show ?thesis using False c q wq by simp
  qed
qed

lemma SetTip_path:
  assumes "index_wf idx" "chain_wf idx v" "idx p = Some bi"
  shows "SetTip idx v (Some p) = Some (chain_path idx p bi)"
proof -
  let ?n = "bi_nHeight bi + 1"
  let ?v = "take ?n v @ replicate (?n - length v) None"
  have "length ?v = ?n" by (simp add: min_def)
  then have "SetTip_loop (bi_nHeight bi + 2) idx (walk idx (bi_nHeight bi - bi_nHeight bi) p) ?v = Some (chain_path idx p bi)"
    using closed_below_resize [OF chain_wf_closed [OF assms(2)], of ?n] by (intro SetTip_loop_path [OF assms(1,3)]) auto
  then show ?thesis using assms(3) by (simp add: SetTip_def Let_def del: SetTip_loop.simps)
qed


lemma Contains_iff:
  assumes "chain_wf idx v" "idx q = Some bq"
  shows "Contains idx v q \<longleftrightarrow> bi_nHeight bq < length v \<and> v ! bi_nHeight bq = Some q"
  using assms(2) by (auto simp: Contains_def chain_at_def)

lemma Contains_ancestor:
  assumes "chain_wf idx v" "idx q = Some bq" "Contains idx v q" "k \<le> bi_nHeight bq"
  shows "chain_at v (int k) = walk idx (bi_nHeight bq - k) q"
  using chain_wf_closed [OF assms(1)] Contains_iff [OF assms(1,2)] assms(3,4)
  by (auto simp: closed_below_def chain_at_def)

section \<open>Forks\<close>

text \<open>The last block of the chain on the way back from \<open>p\<close>, if there is one.\<close>

definition fork_point :: "BlockMap \<Rightarrow> CChain \<Rightarrow> u256 \<Rightarrow> bptr \<Rightarrow> bool" where
  "fork_point idx v p fork \<longleftrightarrow>
     (case fork of
        None \<Rightarrow> \<forall>m r. walk idx m p = Some r \<longrightarrow> \<not> Contains idx v r
      | Some q \<Rightarrow> Contains idx v q \<and>
          (\<exists>n. walk idx n p = Some q \<and> (\<forall>m < n. \<forall>r. walk idx m p = Some r \<longrightarrow> \<not> Contains idx v r)))"

lemma fork_point_shift:
  assumes "walk idx d p = Some a" "\<forall>m < d. \<forall>r. walk idx m p = Some r \<longrightarrow> \<not> Contains idx v r" "fork_point idx v a fork"
  shows "fork_point idx v p fork"
proof -
  have wa: "walk idx m a = walk idx (m + d) p" for m using walk_add [OF assms(1), of m] by simp
  have up: "\<not> Contains idx v r" if "walk idx m p = Some r" "m < d \<or> (\<forall>r. walk idx (m - d) a = Some r \<longrightarrow> \<not> Contains idx v r)" for m r
    using that assms(2) wa [of "m - d"] by (cases "m < d") auto
  show ?thesis
  proof (cases fork)
    case None
    then show ?thesis using assms(3) up by (auto simp: fork_point_def)
  next
    case (Some q)
    then obtain n where n: "Contains idx v q" "walk idx n a = Some q" "\<forall>m < n. \<forall>r. walk idx m a = Some r \<longrightarrow> \<not> Contains idx v r"
      using assms(3) by (auto simp: fork_point_def)
    have "\<not> Contains idx v r" if "m < n + d" "walk idx m p = Some r" for m r
    proof (rule up [OF that(2)])
      show "m < d \<or> (\<forall>r. walk idx (m - d) a = Some r \<longrightarrow> \<not> Contains idx v r)"
        using n(3) that(1) by (metis less_diff_conv2 not_less)
    qed
    then show ?thesis using Some n(1,2) wa [of n] by (auto simp: fork_point_def)
  qed
qed

lemma fork_point_here: "Contains idx v p \<Longrightarrow> fork_point idx v p (Some p)"
  by (auto simp: fork_point_def intro: exI [of _ 0])

lemma FindFork_loop_ok:
  assumes "index_wf idx" "idx p = Some bi"
  shows "\<exists>fork. FindFork_loop (bi_nHeight bi + 2) idx v (Some p) = Some fork \<and> fork_point idx v p fork"
  using assms(2)
proof (induction "bi_nHeight bi" arbitrary: p bi)
  case 0
  have n: "bi_pprev bi = None" using index_wf_root [OF assms(1) 0(2)] 0(1) by simp
  have w: "walk idx m p = Some r \<Longrightarrow> r = p" for m r
  proof (induction m arbitrary: r)
    case (Suc m)
    then show ?case using n 0(2) by (cases "walk idx m p") (auto simp: walk_Suc deref_def)
  qed simp
  show ?case
  proof (cases "Contains idx v p")
    case False
    then have "fork_point idx v p None" using w by (auto simp: fork_point_def)
    then show ?thesis using False 0(2) n by (simp add: numeral_2_eq_2 deref_def flip: 0(1))
  qed (simp add: fork_point_here)
next
  case (Suc h)
  obtain q bq where q: "bi_pprev bi = Some q" "idx q = Some bq" "bi_nHeight bi = bi_nHeight bq + 1"
    using index_wf_prev [OF assms(1) Suc.prems] Suc.hyps(2) by (metis zero_less_Suc)
  show ?case
  proof (cases "Contains idx v p")
    case False
    obtain fork where f: "FindFork_loop (bi_nHeight bq + 2) idx v (Some q) = Some fork" "fork_point idx v q fork"
      using Suc.hyps(1) [of bq q] Suc.hyps(2) q by auto
    have "walk idx 1 p = Some q" using Suc.prems q(1) by (simp add: walk_Suc deref_def)
    then have "fork_point idx v p fork" using False by (intro fork_point_shift [OF _ _ f(2), of 1]) simp_all
    then show ?thesis using False q Suc.prems f(1) by (simp add: deref_def)
  qed (simp add: fork_point_here)
qed

lemma FindFork_loop_mono:
  "FindFork_loop n idx v s = Some r \<Longrightarrow> FindFork_loop (n + k) idx v s = Some r"
  by (induction n arbitrary: s) (auto split: option.splits)

lemma FindFork_ok:
  assumes "index_wf idx" "chain_wf idx v" "idx p = Some bi"
  shows "\<exists>fork. FindFork idx v p = Some fork \<and> fork_point idx v p fork"
proof (cases "int (bi_nHeight bi) > chain_Height v")
  case False
  then show ?thesis using FindFork_loop_ok [OF assms(1,3), of v] assms(3) by (simp add: FindFork_def)
next
  case True
  show ?thesis
  proof (cases "v = []")
    case v: True
    then have "fork_point idx v p None" by (simp add: fork_point_def Contains_def chain_at_def split: option.splits)
    then show ?thesis
      using v assms(3) by (simp add: FindFork_def chain_Height_def GetAncestor_def numeral_2_eq_2)
  next
    case v: False
    define H where "H = length v - 1"
    obtain n where n: "length v = Suc n" using v by (cases v) auto
    have h: "chain_Height v = int H" "H < bi_nHeight bi" using True by (simp_all add: chain_Height_def H_def n)
    define d where "d = bi_nHeight bi - H"
    obtain a ba where a: "walk idx d p = Some a" "idx a = Some ba" "bi_nHeight ba = H"
      using walk_height [OF assms(1,3), of d] h(2) by (auto simp: d_def)
    have high: "\<not> Contains idx v r" if m: "m < d" and r: "walk idx m p = Some r" for m r
    proof -
      have "m \<le> bi_nHeight bi" using m by (simp add: d_def)
      then obtain br where "idx r = Some br" "bi_nHeight br = bi_nHeight bi - m"
        using walk_height [OF assms(1,3), of m] r by auto
      then show ?thesis using m h(2) v by (auto simp: Contains_def chain_at_def d_def H_def)
    qed
    obtain fork where f: "FindFork_loop (bi_nHeight ba + 2) idx v (Some a) = Some fork" "fork_point idx v a fork"
      using FindFork_loop_ok [OF assms(1) a(2), of v] by blast
    have "FindFork idx v p = Some fork"
      using FindFork_loop_mono [OF f(1), of d] assms(3) True h GetAncestor_walk [OF assms(1,3), of "int H"] a
      by (simp add: FindFork_def d_def)
    moreover have "fork_point idx v p fork" using high by (intro fork_point_shift [OF a(1) _ f(2)]) blast
    ultimately show ?thesis by blast
  qed
qed


section \<open>Locators\<close>

lemma GetLocator_loop_ok:
  assumes "index_wf idx" "chain_wf idx v" "idx p = Some bi" "0 < nStep"
  shows "\<exists>ns. GetLocator_loop (bi_nHeight bi + 1) idx v (Some p) nStep vHave =
      Some (vHave @ map (\<lambda>n. the (walk idx n p)) ns) \<and>
    sorted_wrt (<) ns \<and> ns \<noteq> [] \<and> hd ns = 0 \<and> last ns = bi_nHeight bi"
  using assms(3,4)
proof (induction "bi_nHeight bi" arbitrary: p bi nStep vHave rule: less_induct)
  case less
  let ?h = "bi_nHeight bi"
  show ?case
  proof (cases "?h = 0")
    case True
    then show ?thesis using less.prems(1) by (intro exI [of _ "[0]"]) simp
  next
    case False
    define d where "d = min nStep ?h"
    have d: "0 < d" "d \<le> ?h" using False less.prems(2) by (auto simp: d_def)
    have m: "max (int ?h - int nStep) 0 = int (?h - d)" by (auto simp: d_def)
    obtain q bq where q: "walk idx d p = Some q" "idx q = Some bq" "bi_nHeight bq = ?h - d"
      using walk_height [OF assms(1) less.prems(1) d(2)] by auto
    have nx: "(if Contains idx v p then chain_at v (int (?h - d)) else GetAncestor idx p (int (?h - d))) = Some q"
      using Contains_ancestor [OF assms(2) less.prems(1), of "?h - d"] GetAncestor_walk [OF assms(1) less.prems(1), of "int (?h - d)"]
        q(1) d(2) by (simp del: of_nat_diff)
    define nStep' where "nStep' = (if length (vHave @ [p]) > 10 then nStep * 2 else nStep)"
    have pos: "0 < nStep'" using less.prems(2) by (simp add: nStep'_def)
    have lt: "bi_nHeight bq < ?h" using q(3) d by simp
    obtain ns where ns: "GetLocator_loop (bi_nHeight bq + 1) idx v (Some q) nStep' (vHave @ [p]) =
        Some ((vHave @ [p]) @ map (\<lambda>n. the (walk idx n q)) ns)"
      "sorted_wrt (<) ns" "ns \<noteq> []" "hd ns = 0" "last ns = bi_nHeight bq"
      using less.hyps [OF lt q(2) pos, of "vHave @ [p]"] by blast
    have mono: "GetLocator_loop n idx v s k h = Some r \<Longrightarrow> GetLocator_loop (n + j) idx v s k h = Some r" for n j s k h r
      by (induction n arbitrary: s k h) (auto simp: Let_def split: option.splits if_splits)
    have f: "?h = bi_nHeight bq + 1 + (d - 1)" using q(3) d by simp
    have "GetLocator_loop (?h + 1) idx v (Some p) nStep vHave = GetLocator_loop ?h idx v (Some q) nStep' (vHave @ [p])"
      using less.prems(1) False nx by (simp add: Let_def m nStep'_def)
    also have "\<dots> = Some ((vHave @ [p]) @ map (\<lambda>n. the (walk idx n q)) ns)"
      using mono [OF ns(1), of "d - 1"] f by metis
    also have "map (\<lambda>n. the (walk idx n q)) ns = map (\<lambda>n. the (walk idx n p)) (map (\<lambda>n. n + d) ns)"
      using walk_add [OF q(1)] by simp
    finally have "GetLocator_loop (?h + 1) idx v (Some p) nStep vHave =
        Some (vHave @ map (\<lambda>n. the (walk idx n p)) (0 # map (\<lambda>n. n + d) ns))" by simp
    moreover have "sorted_wrt (<) (0 # map (\<lambda>n. n + d) ns)"
      using ns(2) d(1) by (auto simp: sorted_wrt_map)
    moreover have "last (0 # map (\<lambda>n. n + d) ns) = ?h" using ns(3,5) q(3) d(2) by (simp add: last_map)
    ultimately show ?thesis by (metis list.distinct(1) list.sel(1))
  qed
qed

section \<open>Median times and versions\<close>

lemma sorted_nth_ge:
  fixes xs :: "int list"
  assumes "sorted xs" "k < length xs" "length (filter (\<lambda>x. x < m) xs) \<le> k"
  shows "m \<le> xs ! k"
proof (rule ccontr)
  assume "\<not> m \<le> xs ! k"
  then have "xs ! i < m" if "i \<le> k" for i using sorted_nth_mono [OF assms(1) that assms(2)] by simp
  then have "filter (\<lambda>x. x < m) (take (Suc k) xs) = take (Suc k) xs"
    by (auto simp: filter_id_conv in_set_conv_nth)
  then have "Suc k \<le> length (filter (\<lambda>x. x < m) (take (Suc k) xs))" using assms(2) by simp
  also have "\<dots> \<le> length (filter (\<lambda>x. x < m) xs)"
    by (metis append_take_drop_id filter_append le_add1 length_append)
  finally show False using assms(3) by simp
qed

lemma sorted_nth_less_count:
  fixes xs :: "int list"
  assumes "sorted xs" "k < length xs"
  shows "length (filter (\<lambda>x. x < xs ! k) xs) \<le> k"
proof -
  have "filter (\<lambda>x. x < xs ! k) (drop k xs) = []"
    using assms by (auto simp: filter_empty_conv in_set_conv_nth sorted_iff_nth_mono not_less)
  then have "filter (\<lambda>x. x < xs ! k) xs = filter (\<lambda>x. x < xs ! k) (take k xs)"
    by (metis append_take_drop_id filter_append append_Nil2)
  then show ?thesis by (metis assms(2) length_filter_le length_take less_imp_le min.absorb2)
qed

definition median :: "int list \<Rightarrow> int" where
  "median ts = sort ts ! (length ts div 2)"

lemma count_less_sort: "length (filter P (sort xs)) = length (filter P xs)" for xs :: "int list"
  by (simp add: filter_sort)

lemma median_mono:
  assumes "ts \<noteq> []" "length (filter (\<lambda>x. x < median ts) us) \<le> length (filter (\<lambda>x. x < median ts) ts)"
    "length ts \<le> length us"
  shows "median ts \<le> median us"
proof -
  have "length (filter (\<lambda>x. x < median ts) ts) \<le> length ts div 2"
    using sorted_nth_less_count [of "sort ts" "length ts div 2"] assms(1) by (simp add: median_def count_less_sort)
  also have "\<dots> \<le> length us div 2" using assms(3) by (rule div_le_mono)
  finally have "length (filter (\<lambda>x. x < median ts) (sort us)) \<le> length us div 2"
    using assms(2) by (simp add: count_less_sort)
  moreover have "us \<noteq> []" using assms(1,3) by auto
  ultimately show ?thesis unfolding median_def [of us] by (intro sorted_nth_ge) simp_all
qed

lemma past_times_take: "past_times n idx p = drop (length (past_times (Suc n) idx p) - n) (past_times (Suc n) idx p)"
proof (induction n arbitrary: p)
  case (Suc n)
  show ?case
  proof (cases "Option.bind p idx")
    case (Some bi)
    define us where "us = past_times (Suc n) idx (bi_pprev bi)"
    have "past_times n idx (bi_pprev bi) = drop (length us - n) us" using Suc.IH by (simp add: us_def)
    moreover have "past_times (Suc (Suc n)) idx p = us @ [int (unat (bi_nTime bi))]"
      "past_times (Suc n) idx p = past_times n idx (bi_pprev bi) @ [int (unat (bi_nTime bi))]"
      using Some by (simp_all add: us_def)
    ultimately show ?thesis by (simp only: length_append drop_append) simp
  qed simp
qed simp

lemma IsSuperMajority_loop_le: "IsSuperMajority_loop n idx mv p req found \<le> found + n"
proof (induction n arbitrary: p found)
  case (Suc n)
  show ?case
    using Suc.IH [of _ "found + 1"] Suc.IH [of _ found] le_SucI
    by (auto split: option.splits) (meson le_SucI Suc.IH)
qed simp

lemma length_past_times: "length (past_times n idx p) \<le> n"
  by (induction n arbitrary: p) (auto split: option.splits)

lemma past_times_numeral:
  "past_times (numeral k) idx p =
     (case Option.bind p idx of
        None \<Rightarrow> []
      | Some bi \<Rightarrow> past_times (pred_numeral k) idx (bi_pprev bi) @ [int (unat (bi_nTime bi))])"
  by (simp add: numeral_eq_Suc)

lemma walk_2: "walk idx 2 p = deref idx bi_pprev (walk idx 1 p)"
  by (simp add: walk_def numeral_2_eq_2)

lemma GetMedianTimePast_median: "GetMedianTimePast idx p = median (past_times 11 idx (Some p))"
  by (simp add: GetMedianTimePast_def median_def Let_def)

lemma length_filter_drop: "length (filter P (drop n xs)) \<le> length (filter P xs)"
  by (metis append_take_drop_id filter_append le_add2 length_append)

section \<open>Properties\<close>

text \<open>A small index for the examples: a chain of three blocks with a fork at height one.\<close>

definition sample_entry :: "bptr \<Rightarrow> bptr \<Rightarrow> nat \<Rightarrow> u32 \<Rightarrow> CBlockIndex" where
  "sample_entry pprev pskip nHeight nTime = \<lparr>bi_pprev = pprev, bi_pnext = None, bi_pskip = pskip,
     bi_bnChainTrust = replicate 8 0, bi_nHeight = nHeight, bi_nFile = 0, bi_nDataPos = 0, bi_nUndoPos = 0,
     bi_nChainWork = replicate 8 0, bi_nTx = 1, bi_nChainTx = 1, bi_nStatus = 3, bi_nFlags = 0,
     bi_nStakeModifier = 0, bi_nStakeModifierChecksum = 0,
     bi_prevoutStake = \<lparr>outpoint_hash = 0, outpoint_n = 0\<rparr>, bi_nStakeTime = 0, bi_hashProofOfStake = 0,
     bi_nMint = 0, bi_nMoneySupply = 0, bi_nVersion = 4, bi_hashMerkleRoot = 0, bi_nTime = nTime, bi_nBits = 0,
     bi_nNonce = 0, bi_nSequenceId = 0\<rparr>"

definition sample_index :: BlockMap where
  "sample_index = [10 \<mapsto> sample_entry None None 0 100, 11 \<mapsto> sample_entry (Some 10) (Some 10) 1 200,
     12 \<mapsto> sample_entry (Some 11) (Some 10) 2 300, 21 \<mapsto> sample_entry (Some 10) (Some 10) 1 250]"

lemma sample_skip: "GetSkipHeight 0 = 0" "GetSkipHeight 1 = 0" "GetSkipHeight 2 = 0"
  by (simp_all add: GetSkipHeight_def InvertLowestOne_def)

lemma sample_walk:
  "walk sample_index 1 11 = Some 10" "walk sample_index 1 12 = Some 11" "walk sample_index 2 12 = Some 10"
  "walk sample_index 1 21 = Some 10"
  by (simp_all add: walk_2) (simp_all add: walk_def deref_def sample_index_def sample_entry_def)

lemma sample_lookup:
  "sample_index 12 = Some (sample_entry (Some 11) (Some 10) 2 300)"
  "sample_index 21 = Some (sample_entry (Some 10) (Some 10) 1 250)"
  "sample_index 11 = Some (sample_entry (Some 10) (Some 10) 1 200)"
  "sample_index 10 = Some (sample_entry None None 0 100)"
  by (simp_all add: sample_index_def)

lemma sample_heights: "bi_nHeight (sample_entry p s h t) = h" "bi_pprev (sample_entry p s h t) = p"
  "bi_pskip (sample_entry p s h t) = s" "bi_nTime (sample_entry p s h t) = t"
  by (simp_all add: sample_entry_def)

lemma sample_index_wf: "index_wf sample_index"
proof -
  have "p = 10 \<or> p = 11 \<or> p = 12 \<or> p = 21" if "sample_index p = Some bi" for p bi
    using that by (auto simp: sample_index_def split: if_splits)
  then show ?thesis
    unfolding index_wf_def
    by (fastforce simp: sample_lookup entry_wf_def sample_heights sample_skip [simplified] sample_walk [simplified])
qed

lemma sample_chain: "chain_path sample_index 12 (sample_entry (Some 11) (Some 10) 2 300) = [Some 10, Some 11, Some 12]"
  using sample_walk by (simp add: chain_path_def sample_heights upt_rec)

lemma sample_chain_wf: "chain_wf sample_index [Some 10, Some 11, Some 12]"
  unfolding chain_wf_def using sample_chain sample_lookup(1) by metis

text \<open>
  In a well-formed index the walk of \<^verbatim>\<open>GetAncestor\<close> over skip pointers ends, and reaches
  the same entry as following \<^verbatim>\<open>pprev\<close> one by one; that entry exists and has the height asked for.
\<close>

theorem get_ancestor_walks:
  assumes "index_wf idx" "idx p = Some bi" "0 \<le> height" "height \<le> int (bi_nHeight bi)"
  shows "\<exists>q bq. GetAncestor idx p height = Some q \<and> walk idx (bi_nHeight bi - nat height) p = Some q \<and>
    idx q = Some bq \<and> int (bi_nHeight bq) = height"
  using GetAncestor_walk [OF assms(1,2), of height] walk_height [OF assms(1,2), of "bi_nHeight bi - nat height"] assms(3,4)
  by auto

theorem get_ancestor_walks_witness:
  "\<exists>q bq. GetAncestor sample_index 12 1 = Some q \<and> sample_index q = Some bq \<and> bi_nHeight bq = 1"
  using get_ancestor_walks [OF sample_index_wf sample_lookup(1), of 1] by (auto simp: sample_heights)

text \<open>
  C23: \<^verbatim>\<open>SetTip\<close> ends, and turns any chain into the path from the root to the new tip, although
  it stops rewriting at the first entry that is already in place.
\<close>

theorem set_tip_is_path:
  assumes "index_wf idx" "chain_wf idx v" "idx p = Some bi"
  shows "\<exists>v'. SetTip idx v (Some p) = Some v' \<and> chain_wf idx v' \<and> length v' = bi_nHeight bi + 1 \<and>
    last v' = Some p \<and> (\<forall>k. k \<le> bi_nHeight bi \<longrightarrow> v' ! k = walk idx (bi_nHeight bi - k) p)"
proof -
  have "last (chain_path idx p bi) = chain_path idx p bi ! bi_nHeight bi" by (subst last_conv_nth) (auto simp: chain_path_def)
  then show ?thesis
    using SetTip_path [OF assms] assms(3) by (auto simp: nth_chain_path chain_wf_def)
qed

theorem set_tip_is_path_witness:
  "\<exists>v'. SetTip sample_index [Some 10, Some 11, Some 12] (Some 21) = Some v' \<and> last v' = Some 21 \<and> length v' = 2"
  using set_tip_is_path [OF sample_index_wf sample_chain_wf sample_lookup(2)] by (auto simp: sample_heights)

text \<open>
  C24: \<^verbatim>\<open>FindFork\<close> ends with the last common block: the first entry of the chain on the way back
  from the given entry, or null when no ancestor of it is in the chain.
\<close>

theorem find_fork_last_common:
  assumes "index_wf idx" "chain_wf idx v" "idx p = Some bi"
  shows "\<exists>fork. FindFork idx v p = Some fork \<and> fork_point idx v p fork"
  using assms by (rule FindFork_ok)

theorem find_fork_last_common_witness:
  "\<exists>fork. FindFork sample_index [Some 10, Some 11, Some 12] 21 = Some fork \<and>
    fork_point sample_index [Some 10, Some 11, Some 12] 21 fork"
  using find_fork_last_common [OF sample_index_wf sample_chain_wf sample_lookup(2)] .

text \<open>
  A block locator is produced for every entry; it starts with the entry itself, goes back
  through ancestors of strictly decreasing height, and ends with the root.
\<close>

theorem locator_descends:
  assumes "index_wf idx" "chain_wf idx v" "idx p = Some bi"
  shows "\<exists>ns. GetLocator idx v (Some p) = Some (map (\<lambda>n. the (walk idx n p)) ns) \<and>
    sorted_wrt (<) ns \<and> ns \<noteq> [] \<and> hd ns = 0 \<and> last ns = bi_nHeight bi"
  using GetLocator_loop_ok [OF assms, of 1 "[]"] assms(3) by (simp add: GetLocator_def del: GetLocator_loop.simps)

theorem locator_descends_witness:
  "\<exists>ns. GetLocator sample_index [Some 10, Some 11, Some 12] (Some 12) = Some (map (\<lambda>n. the (walk sample_index n 12)) ns) \<and>
    hd ns = 0 \<and> last ns = 2"
  using locator_descends [OF sample_index_wf sample_chain_wf sample_lookup(1)] by (auto simp: sample_heights)

text \<open>
  When a block is newer than the median time past of its predecessor, as the header rules
  require, its own median time past is not smaller: the median never goes back along a chain.
\<close>

theorem median_time_monotone:
  assumes "idx p = Some bi" "bi_pprev bi = Some q" "idx q = Some bq"
    and "int (unat (bi_nTime bi)) > GetMedianTimePast idx q"
  shows "GetMedianTimePast idx p \<ge> GetMedianTimePast idx q"
proof -
  let ?ts = "past_times 11 idx (Some q)" and ?t = "int (unat (bi_nTime bi))"
  have us: "past_times 11 idx (Some p) = past_times 10 idx (Some q) @ [?t]"
    using assms(1,2) by (simp add: past_times_numeral [of "num.Bit1 (num.Bit1 (num.Bit0 num.One))"])
  have d: "past_times 10 idx (Some q) = drop (length ?ts - 10) ?ts"
    using past_times_take [of 10 idx "Some q"] by simp
  have ne: "?ts \<noteq> []" using assms(3) by (simp add: past_times_numeral)
  have "median ?ts \<le> median (past_times 10 idx (Some q) @ [?t])"
  proof (rule median_mono [OF ne])
    show "length (filter (\<lambda>x. x < median ?ts) (past_times 10 idx (Some q) @ [?t])) \<le> length (filter (\<lambda>x. x < median ?ts) ?ts)"
      using assms(4) length_filter_drop [of _ "length ?ts - 10" ?ts] by (simp add: d GetMedianTimePast_median)
    show "length ?ts \<le> length (past_times 10 idx (Some q) @ [?t])"
      using length_past_times [of 11 idx "Some q"] by (simp add: d)
  qed
  then show ?thesis by (simp add: GetMedianTimePast_median us)
qed

theorem median_time_monotone_witness:
  "GetMedianTimePast sample_index 12 \<ge> GetMedianTimePast sample_index 11"
proof (rule median_time_monotone [OF sample_lookup(1) _ sample_lookup(3)])
  have "past_times 11 sample_index (Some 11) = [100, 200]"
    by (simp add: past_times_numeral sample_lookup sample_heights)
  then show "int (unat (bi_nTime (sample_entry (Some 11) (Some 10) 2 300))) > GetMedianTimePast sample_index 11"
    by (simp add: GetMedianTimePast_def sample_heights)
qed (simp add: sample_heights)

text \<open>
  \<^verbatim>\<open>IsSuperMajority\<close> can never hold when more blocks are required than are examined. The main
  network examines 1000 blocks and requires 1100 to reject outdated versions.
\<close>

theorem supermajority_unreachable:
  assumes "nToCheck < nRequired"
  shows "\<not> IsSuperMajority nToCheck idx minVersion pstart nRequired"
  using IsSuperMajority_loop_le [of nToCheck idx minVersion pstart nRequired 0] assms by (simp add: IsSuperMajority_def)

theorem supermajority_unreachable_witness: "\<not> IsSuperMajority 1000 sample_index 4 (Some 12) 1100"
  by (rule supermajority_unreachable) simp

end
