(* ===== verification/Pow.thy ===== *)
theory Pow
  imports TxCheck Chain
begin

unbundle bit_operations_syntax

text \<open>
  Targets (pow.cpp, and \<^verbatim>\<open>GetBlockTrust\<close> of chain.cpp): \<^verbatim>\<open>GetNextWorkRequired\<close> with its two
  rules, \<^verbatim>\<open>CheckProofOfWork\<close>, the work of a block and its trust. The arithmetic is that of
  \<^verbatim>\<open>base_uint\<close>: a product with an \<^verbatim>\<open>int64_t\<close> selects the overload for \<^verbatim>\<open>uint32_t\<close>, a
  quotient the one for \<^verbatim>\<open>base_uint\<close> made from a \<^verbatim>\<open>uint64_t\<close>. \<open>None\<close> is the exception of a
  division by zero or a failed assertion.
\<close>

section \<open>Parameters\<close>

record CPowParams = CChainParams +
  par_bnProofOfWorkLimit :: base_uint
  par_nTargetSpacing :: int
  par_fSkipProofOfWorkCheck :: bool
  par_nRejectBlockOutdatedMajority :: nat
  par_nToCheckBlockUpgradeMajority :: nat

definition pow_CMainParams :: CPowParams where
  "pow_CMainParams = CChainParams.extend CMainParams
     \<lparr>par_bnProofOfWorkLimit = replicate 7 0xffffffff @ [0xfff], par_nTargetSpacing = 15 * 60,
      par_fSkipProofOfWorkCheck = True, par_nRejectBlockOutdatedMajority = 1100,
      par_nToCheckBlockUpgradeMajority = 1000\<rparr>"

text \<open>The limbs of a hash, and a number made from a \<^verbatim>\<open>uint64_t\<close>.\<close>

definition uint_of_word :: "u256 \<Rightarrow> base_uint" where
  "uint_of_word h = map (\<lambda>i. ucast (drop_bit (32 * i) h)) [0..<WIDTH]"

abbreviation (input) uint_of_int :: "int \<Rightarrow> base_uint" where
  "uint_of_int n \<equiv> uint_of_u64 WIDTH (word_of_int n)"

section \<open>The next target\<close>

text \<open>
  The rule after the last proof-of-work block: an exponential moving average over the spacing
  of the last two blocks.
\<close>

definition pos_target :: "CPowParams \<Rightarrow> u32 \<Rightarrow> int \<Rightarrow> base_uint option" where
  "pos_target params nBits nActualSpacing =
     (let bnTargetLimit = par_bnProofOfWorkLimit params;
          nTargetSpacing = 15 * 60;
          nTargetTimespan = 24 * 60 * 60;
          nActualSpacing = (if nActualSpacing < 0 then 1 else nActualSpacing);
          bnNew = fst (SetCompact nBits);
          nInterval = nTargetTimespan div nTargetSpacing;
          bnNew = uint_mul32 bnNew (word_of_int ((nInterval - 1) * nTargetSpacing + nActualSpacing + nActualSpacing))
      in (case uint_div bnNew (uint_of_int ((nInterval + 1) * nTargetSpacing)) of
            None \<Rightarrow> None
          | Some bnNew \<Rightarrow>
              Some (if CompareTo bnNew (uint_of_int 0) \<le> 0 \<or> CompareTo bnNew bnTargetLimit > 0
                    then bnTargetLimit else bnNew)))"

text \<open>
  The loop of the rule before it, over at most \<open>n\<close> more blocks: the state is \<^verbatim>\<open>CountBlocks\<close>, \<^verbatim>\<open>PastDifficultyAverage\<close>,
  \<^verbatim>\<open>nActualTimespan\<close> and \<^verbatim>\<open>LastBlockTime\<close>.
\<close>

definition next_average :: "nat \<Rightarrow> base_uint \<Rightarrow> u32 \<Rightarrow> base_uint option" where
  "next_average CountBlocks PastDifficultyAveragePrev nBits =
     (if CountBlocks \<le> 30 then
        if CountBlocks = 1 then Some (fst (SetCompact nBits))
        else uint_div (uint_add (uint_mul32 PastDifficultyAveragePrev (word_of_nat CountBlocks)) (fst (SetCompact nBits)))
               (uint_of_int (int CountBlocks + 1))
      else Some PastDifficultyAveragePrev)"

fun gravity_loop :: "nat \<Rightarrow> BlockMap \<Rightarrow> bptr \<Rightarrow> nat \<Rightarrow> base_uint \<Rightarrow> int \<Rightarrow> int \<Rightarrow> (nat \<times> base_uint \<times> int) option" where
  "gravity_loop 0 idx BlockReading CountBlocks PastDifficultyAverage nActualTimespan LastBlockTime =
     Some (CountBlocks, PastDifficultyAverage, nActualTimespan)"
| "gravity_loop (Suc n) idx BlockReading CountBlocks PastDifficultyAverage nActualTimespan LastBlockTime =
     (case Option.bind BlockReading idx of
        None \<Rightarrow> Some (CountBlocks, PastDifficultyAverage, nActualTimespan)
      | Some bi \<Rightarrow>
          if bi_nHeight bi = 0 then Some (CountBlocks, PastDifficultyAverage, nActualTimespan)
          else
            (case next_average (CountBlocks + 1) PastDifficultyAverage (bi_nBits bi) of
               None \<Rightarrow> None
             | Some PastDifficultyAverage \<Rightarrow>
                 let t = int (unat (bi_nTime bi));
                     nActualTimespan = (if LastBlockTime > 0 then nActualTimespan + (LastBlockTime - t) else nActualTimespan)
                 in if bi_pprev bi = None then Some (CountBlocks + 1, PastDifficultyAverage, nActualTimespan)
                    else gravity_loop n idx (bi_pprev bi) (CountBlocks + 1) PastDifficultyAverage nActualTimespan t))"

definition gravity_target :: "CPowParams \<Rightarrow> nat \<Rightarrow> base_uint \<Rightarrow> int \<Rightarrow> base_uint option" where
  "gravity_target params CountBlocks PastDifficultyAverage nActualTimespan =
     (let nTargetTimespan = int CountBlocks * par_nTargetSpacing params;
          nActualTimespan = (if nActualTimespan < nTargetTimespan div 3 then nTargetTimespan div 3 else nActualTimespan);
          nActualTimespan = (if nActualTimespan > nTargetTimespan * 3 then nTargetTimespan * 3 else nActualTimespan)
      in (case uint_div (uint_mul32 PastDifficultyAverage (word_of_int nActualTimespan)) (uint_of_int nTargetTimespan) of
            None \<Rightarrow> None
          | Some bnNew \<Rightarrow>
              Some (if CompareTo bnNew (par_bnProofOfWorkLimit params) > 0 then par_bnProofOfWorkLimit params else bnNew)))"

definition GetNextWorkRequired :: "CPowParams \<Rightarrow> BlockMap \<Rightarrow> bptr \<Rightarrow> u32 option" where
  "GetNextWorkRequired params idx pindexLast =
     (case Option.bind pindexLast idx of
        None \<Rightarrow> GetCompact (par_bnProofOfWorkLimit params) False
      | Some bi \<Rightarrow>
          if bi_nHeight bi = 0 \<or> bi_nHeight bi < 30 then GetCompact (par_bnProofOfWorkLimit params) False
          else if int (bi_nHeight bi) > par_LAST_POW_BLOCK params then
            (case Option.bind (bi_pprev bi) idx of
               None \<Rightarrow> None
             | Some bp \<Rightarrow>
                 Option.bind (pos_target params (bi_nBits bi) (int (unat (bi_nTime bi)) - int (unat (bi_nTime bp))))
                   (\<lambda>bnNew. GetCompact bnNew False))
          else
            (case gravity_loop 30 idx pindexLast 0 (replicate WIDTH 0) 0 0 of
               None \<Rightarrow> None
             | Some (CountBlocks, PastDifficultyAverage, nActualTimespan) \<Rightarrow>
                 Option.bind (gravity_target params CountBlocks PastDifficultyAverage nActualTimespan)
                   (\<lambda>bnNew. GetCompact bnNew False)))"

section \<open>Proof of work and trust\<close>

text \<open>The tests after the comparison repeat those before it and never fail.\<close>

definition CheckProofOfWork :: "CPowParams \<Rightarrow> u256 \<Rightarrow> u32 \<Rightarrow> bool" where
  "CheckProofOfWork params hash nBits =
     (if par_fSkipProofOfWorkCheck params then True
      else
        (case SetCompact nBits of (bnTarget, fNegative, fOverflow) \<Rightarrow>
           if fNegative \<or> EqualTo bnTarget 0 \<or> fOverflow \<or> CompareTo bnTarget (par_bnProofOfWorkLimit params) > 0 then False
           else if CompareTo (uint_of_word hash) bnTarget > 0 then False
           else if fNegative then False
           else if EqualTo bnTarget 0 then False
           else if fOverflow then False
           else if CompareTo bnTarget (par_bnProofOfWorkLimit params) > 0 then False
           else True))"

definition GetBlockProof :: "u32 \<Rightarrow> base_uint option" where
  "GetBlockProof nBits =
     (case SetCompact nBits of (bnTarget, fNegative, fOverflow) \<Rightarrow>
        if fNegative \<or> fOverflow \<or> EqualTo bnTarget 0 then Some (uint_of_int 0)
        else
          (case uint_div (uint_not bnTarget) (uint_add bnTarget (uint_of_int 1)) of
             None \<Rightarrow> None
           | Some q \<Rightarrow> Some (uint_add q (uint_of_int 1))))"

definition GetBlockTrust :: "CBlockIndex \<Rightarrow> base_uint option" where
  "GetBlockTrust bi =
     (let bnTarget = fst (SetCompact (bi_nBits bi)) in
      if CompareTo bnTarget (uint_of_int 0) \<le> 0 then Some (uint_of_int 0)
      else if index_IsProofOfStake bi
      then uint_div (uint_shl (uint_of_int 1) 256) (uint_add bnTarget (uint_of_int 1))
      else
        (case uint_div (uint_shr (uint_not (uint_of_int 0)) 20) (uint_add bnTarget (uint_of_int 1)) of
           None \<Rightarrow> None
         | Some bnPoWTrust \<Rightarrow> Some (if CompareTo bnPoWTrust (uint_of_int 1) > 0 then bnPoWTrust else uint_of_int 1)))"

section \<open>Values\<close>

lemma uval_uint_of_int: "0 \<le> n \<Longrightarrow> n < 2 ^ 64 \<Longrightarrow> uval (uint_of_int n) = nat n"
  by (simp add: uval_of_u64 unat_eq_nat_uint uint_word_of_int)

lemma uval_EqualTo_0: "length pn = WIDTH \<Longrightarrow> EqualTo pn 0 \<longleftrightarrow> uval pn = 0"
proof -
  assume l: "length pn = WIDTH"
  then obtain a b r where pn: "pn = a # b # r" by (cases pn; cases "tl pn") auto
  have "uval r = 0 \<longleftrightarrow> list_all (\<lambda>x. x = 0) r" for r
    by (induction r) (auto simp: unat_eq_0)
  then show "EqualTo pn 0 \<longleftrightarrow> uval pn = 0" by (auto simp: EqualTo_def pn unat_eq_0)
qed


lemma length_SetCompact [simp]: "length (fst (SetCompact c)) = WIDTH"
  by (rule SetCompact_value(2))

lemma length_uint_mul32 [simp]: "length (uint_mul32 a b) = length a"
proof -
  have "length (uint_mul32_loop c b a) = length a" for c by (induction a arbitrary: c) (simp_all add: Let_def)
  then show ?thesis by (simp add: uint_mul32_def)
qed

lemma uval_uint_of_word: "uval (uint_of_word h) = unat h"
proof -
  have "uval (uint_of_word h) = take_bit (32 * length (uint_of_word h)) (unat h)"
    by (rule uval_eqI) (auto simp: uint_of_word_def bit_simps)
  then show ?thesis using unsigned_less [of h, where ?'a = nat] by (simp add: uint_of_word_def take_bit_nat_eq_self)
qed

lemma length_uint_of_word [simp]: "length (uint_of_word h) = WIDTH"
  by (simp add: uint_of_word_def)

lemma CompareTo_iff:
  assumes "length a = length b"
  shows "CompareTo a b > 0 \<longleftrightarrow> uval a > uval b" "CompareTo a b \<le> 0 \<longleftrightarrow> uval a \<le> uval b"
  using CompareTo_sgn [OF assms] by (auto simp: sgn_if)

text \<open>A target is never the largest number, so that its successor does not wrap.\<close>

lemma uval_target_Suc:
  fixes nBits :: u32
  defines "bnTarget \<equiv> fst (SetCompact nBits)"
  shows "uval (uint_add bnTarget (uint_of_int 1)) = uval bnTarget + 1"
proof -
  define s m where "s = unat nBits div 2 ^ 24" and "m = unat nBits mod 2 ^ 23"
  have v: "uval bnTarget = compact_value s m mod 2 ^ 256" by (simp only: bnTarget_def s_def m_def SetCompact_value)
  have "uval bnTarget + 1 < 2 ^ 256"
  proof (cases "s \<le> 3")
    case True
    have "compact_value s m \<le> m" using True by (simp add: compact_value_def)
    moreover have "m < 2 ^ 23" by (simp add: m_def)
    ultimately show ?thesis unfolding v using mod_less_eq_dividend [of "compact_value s m" "2 ^ 256"] by simp
  next
    case False
    then have "256 dvd compact_value s m" by (cases "s - 3") (auto simp: compact_value_def)
    then have "256 dvd uval bnTarget" unfolding v by (simp add: dvd_mod_iff)
    then obtain q where "uval bnTarget = 256 * q" by blast
    moreover have "uval bnTarget < 2 ^ 256" by (simp add: v)
    ultimately show ?thesis by simp
  qed
  moreover have "uval (uint_of_int 1) = 1" by (simp add: uval_of_u64)
  ultimately show ?thesis
    unfolding bnTarget_def using uval_add [of "fst (SetCompact nBits)" "uint_of_int 1"] by simp
qed


lemma uval_uint_0 [simp]: "uval (uint_of_u64 WIDTH 0) = 0" and uval_uint_1 [simp]: "uval (uint_of_u64 WIDTH 1) = 1"
  by (simp_all add: uval_of_u64)

lemma uint_div_Some:
  assumes "length a = WIDTH" "length b = WIDTH" "uval b \<noteq> 0"
  obtains q where "uint_div a b = Some q" "uval q = uval a div uval b" "length q = WIDTH"
proof -
  have p: "length a = length b" "a \<noteq> []" using assms(1,2) by auto
  have "uint_div a b \<noteq> None" using uval_div(1) [OF p] assms(3) by simp
  then obtain q where q: "uint_div a b = Some q" by (cases "uint_div a b") simp_all
  from uval_div(2) [OF p q] assms(1) show ?thesis by (intro that [OF q]) simp_all
qed

lemma uint_div_ex:
  "length a = WIDTH \<Longrightarrow> length b = WIDTH \<Longrightarrow> uval b \<noteq> 0 \<Longrightarrow> \<exists>q. uint_div a b = Some q \<and> length q = WIDTH"
  by (rule uint_div_Some) auto

section \<open>The next target\<close>

lemma pos_target_value:
  assumes "length (par_bnProofOfWorkLimit params) = WIDTH" "0 \<le> spacing" "spacing < 2 ^ 32"
  shows "\<exists>x. pos_target params nBits spacing = Some x \<and> length x = WIDTH \<and>
    uval x = (let y = uval (fst (SetCompact nBits)) * (nat (85500 + 2 * spacing) mod 2 ^ 32) mod 2 ^ 256 div 87300 in
      if y = 0 \<or> y > uval (par_bnProofOfWorkLimit params) then uval (par_bnProofOfWorkLimit params) else y)"
proof -
  let ?T = "fst (SetCompact nBits)" and ?L = "par_bnProofOfWorkLimit params"
  define k :: u32 where "k = word_of_int (85500 + spacing + spacing)"
  have "uint k = (85500 + 2 * spacing) mod 2 ^ 32" by (simp only: k_def uint_word_of_int mult_2 add.assoc) simp
  then have k: "unat k = nat (85500 + 2 * spacing) mod 2 ^ 32"
    using assms(2) nat_mod_distrib [of "85500 + 2 * spacing" "2 ^ 32"] by (simp add: unat_eq_nat_uint)
  obtain q where q: "uint_div (uint_mul32 ?T k) (uint_of_int 87300) = Some q"
    "uval q = uval (uint_mul32 ?T k) div uval (uint_of_int 87300)" "length q = WIDTH"
    by (rule uint_div_Some [of "uint_mul32 ?T k" "uint_of_int 87300"]) (simp_all add: uval_of_u64)
  have v: "uval q = uval ?T * (nat (85500 + 2 * spacing) mod 2 ^ 32) mod 2 ^ 256 div 87300"
    unfolding q(2) uval_mul32 k by (simp add: uval_of_u64)
  have "pos_target params nBits spacing =
      Some (if CompareTo q (uint_of_int 0) \<le> 0 \<or> CompareTo q ?L > 0 then ?L else q)"
    using assms(2) q(1) by (simp add: pos_target_def Let_def k_def)
  moreover have "CompareTo q (uint_of_int 0) \<le> 0 \<longleftrightarrow> uval q = 0" "CompareTo q ?L > 0 \<longleftrightarrow> uval q > uval ?L"
    using CompareTo_iff [of q "uint_of_int 0"] CompareTo_iff [of q ?L] q(3) assms(1) by simp_all
  ultimately show ?thesis using q(3) assms(1) unfolding v [symmetric] Let_def by auto
qed

lemma pos_target_le:
  assumes "length (par_bnProofOfWorkLimit params) = WIDTH" "0 \<le> spacing" "spacing < 2 ^ 32"
  obtains x where "pos_target params nBits spacing = Some x" "length x = WIDTH"
    "uval x \<le> uval (par_bnProofOfWorkLimit params)"
proof -
  obtain x y where x: "pos_target params nBits spacing = Some x" "length x = WIDTH"
    "uval x = (if y = 0 \<or> y > uval (par_bnProofOfWorkLimit params) then uval (par_bnProofOfWorkLimit params) else y)"
    using pos_target_value [OF assms, of nBits] unfolding Let_def by blast
  then have "uval x \<le> uval (par_bnProofOfWorkLimit params)" by (simp add: not_less)
  with x show ?thesis by (intro that)
qed

lemma next_average_Some:
  assumes "length avg = WIDTH" "0 < n"
  shows "\<exists>avg'. next_average n avg nBits = Some avg' \<and> length avg' = WIDTH"
proof (cases "n \<le> 30 \<and> n \<noteq> 1")
  case True
  have "uval (uint_of_int (int n + 1)) = nat (int n + 1)" using True by (intro uval_uint_of_int) simp_all
  then have "uval (uint_of_int (int n + 1)) \<noteq> 0" by simp
  then obtain q where "uint_div (uint_add (uint_mul32 avg (word_of_nat n)) (fst (SetCompact nBits))) (uint_of_int (int n + 1)) = Some q"
    "length q = WIDTH"
    using uint_div_ex [of "uint_add (uint_mul32 avg (word_of_nat n)) (fst (SetCompact nBits))" "uint_of_int (int n + 1)"] assms(1)
    by auto
  then show ?thesis using True by (simp add: next_average_def)
qed (auto simp: next_average_def assms(1))

lemma gravity_loop_Some:
  assumes "length avg = WIDTH"
  shows "\<exists>k avg' span'. gravity_loop n idx p c avg span t = Some (k, avg', span') \<and> length avg' = WIDTH \<and>
    c \<le> k \<and> k \<le> c + n"
  using assms
proof (induction n arbitrary: p c avg span t)
  case (Suc n)
  show ?case
  proof (cases "Option.bind p idx")
    case (Some bi)
    obtain avg' where avg': "next_average (c + 1) avg (bi_nBits bi) = Some avg'" "length avg' = WIDTH"
      using next_average_Some [OF Suc.prems, of "c + 1" "bi_nBits bi"] by auto
    show ?thesis
      using Some avg' Suc.prems Suc.IH [OF avg'(2), of "bi_pprev bi" "c + 1"]
      by (fastforce simp: Let_def)
  qed (use Suc.prems in simp)
qed simp

lemma gravity_loop_counts:
  assumes "length avg = WIDTH" "Option.bind p idx = Some bi" "0 < bi_nHeight bi"
    "gravity_loop (Suc n) idx p c avg span t = Some (k, avg', span')"
  shows "c < k"
proof -
  obtain a where a: "next_average (c + 1) avg (bi_nBits bi) = Some a" "length a = WIDTH"
    using next_average_Some [OF assms(1), of "c + 1" "bi_nBits bi"] by auto
  have "c + 1 \<le> k" if "gravity_loop n idx (bi_pprev bi) (c + 1) a s u = Some (k, avg', span')" for s u
    using that gravity_loop_Some [OF a(2), of n idx "bi_pprev bi" "c + 1" s u] by auto
  then show ?thesis
    using assms(2-4) a(1) by (auto simp: Let_def Suc_le_eq split: if_splits)
qed

lemma gravity_target_Some:
  assumes "length avg = WIDTH" "length (par_bnProofOfWorkLimit params) = WIDTH" "0 < c" "c \<le> 30"
    "0 < par_nTargetSpacing params" "par_nTargetSpacing params < 2 ^ 32"
  shows "\<exists>x. gravity_target params c avg span = Some x \<and> length x = WIDTH \<and>
    uval x \<le> uval (par_bnProofOfWorkLimit params)"
proof -
  let ?L = "par_bnProofOfWorkLimit params"
  define t where "t = int c * par_nTargetSpacing params"
  have "t \<le> 30 * par_nTargetSpacing params" using assms(4,5) by (simp add: t_def mult_right_mono)
  moreover have "0 < t" using assms(3,5) by (simp add: t_def)
  ultimately have "uval (uint_of_int t) = nat t" using assms(6) by (intro uval_uint_of_int) simp_all
  then have "uval (uint_of_int t) \<noteq> 0" using \<open>0 < t\<close> by simp
  then have q: "\<exists>q. uint_div (uint_mul32 avg w) (uint_of_int t) = Some q \<and> length q = WIDTH" for w
    using assms(1) uint_div_ex [of "uint_mul32 avg w" "uint_of_int t"] by simp
  define w :: u32 where "w = word_of_int (let s = (if span < t div 3 then t div 3 else span) in if s > t * 3 then t * 3 else s)"
  obtain x where x: "uint_div (uint_mul32 avg w) (uint_of_int t) = Some x" "length x = WIDTH" using q by blast
  have "gravity_target params c avg span = Some (if CompareTo x ?L > 0 then ?L else x)"
    using x(1) by (simp add: gravity_target_def Let_def w_def flip: t_def)
  then show ?thesis using CompareTo_iff(1) [of x ?L] x(2) assms(2) by (auto simp: not_less)
qed

lemma GetCompact_within:
  assumes "length x = WIDTH" "uval x \<le> b"
  shows "\<exists>c. GetCompact x False = Some c \<and> snd (SetCompact c) = (False, False) \<and> uval (fst (SetCompact c)) \<le> b"
  using compact_truncation [OF assms(1)] assms(2) by fastforce

lemma GetBlockProof_value:
  "\<exists>w. GetBlockProof nBits = Some w \<and> length w = WIDTH \<and> uval w =
     (case SetCompact nBits of (bnTarget, fNegative, fOverflow) \<Rightarrow>
        if fNegative \<or> fOverflow \<or> uval bnTarget = 0 then 0 else 2 ^ 256 div (uval bnTarget + 1))"
proof -
  obtain T n f where c: "SetCompact nBits = (T, n, f)" by (cases "SetCompact nBits")
  have l: "length T = WIDTH" using length_SetCompact [of nBits] c by simp
  have e: "EqualTo T 0 \<longleftrightarrow> uval T = 0" by (rule uval_EqualTo_0 [OF l])
  have s: "uval (uint_add T (uint_of_int 1)) = uval T + 1" using uval_target_Suc [of nBits] c by simp
  obtain q where q: "uint_div (uint_not T) (uint_add T (uint_of_int 1)) = Some q"
    "uval q = uval (uint_not T) div uval (uint_add T (uint_of_int 1))" "length q = WIDTH"
    by (rule uint_div_Some [of "uint_not T" "uint_add T (uint_of_int 1)"]) (use s l in simp_all)
  have "uval (uint_add q (uint_of_int 1)) = 2 ^ 256 div (uval T + 1)" if "uval T \<noteq> 0"
  proof -
    have n: "uval (uint_not T) + (uval T + 1) = 2 ^ 256" using uval_not [of T] l by simp
    have "2 ^ 256 div (uval T + 1) = uval q + 1"
      unfolding q(2) s n [symmetric] by (rule div_add_self2) simp
    moreover have "2 ^ 256 div (uval T + 1) < (2 :: nat) ^ 256" using that by (intro div_less_dividend) simp_all
    ultimately show ?thesis using uval_add [of q "uint_of_int 1"] q(3) by simp
  qed
  then show ?thesis using c e q(1,3) by (auto simp: GetBlockProof_def)
qed

section \<open>Properties\<close>

text \<open>
  C34: The work of a block is the expected number of hashes \<open>2 ^ 256 div (target + 1)\<close>, although
  \<open>2 ^ 256\<close> itself does not fit: the computation never divides by zero, and gives zero exactly
  for a negative, overflowing or zero target.
\<close>

theorem block_proof_exact:
  "\<exists>w. GetBlockProof nBits = Some w \<and> uval w =
     (case SetCompact nBits of (bnTarget, fNegative, fOverflow) \<Rightarrow>
        if fNegative \<or> fOverflow \<or> uval bnTarget = 0 then 0 else 2 ^ 256 div (uval bnTarget + 1))"
  using GetBlockProof_value by blast

text \<open>
  Every proof-of-stake block has trust zero: the code computes \<open>(uint256(1) << 256)\<close>, which
  is zero, before it divides by the successor of the target.
\<close>

theorem stake_trust_zero:
  assumes "index_IsProofOfStake bi"
  shows "\<exists>w. GetBlockTrust bi = Some w \<and> uval w = 0"
proof -
  let ?T = "fst (SetCompact (bi_nBits bi))"
  have "uval (uint_shl (uint_of_int 1) 256) = 0" by (simp add: uval_shl)
  moreover obtain q where "uint_div (uint_shl (uint_of_int 1) 256) (uint_add ?T (uint_of_int 1)) = Some q"
    "uval q = uval (uint_shl (uint_of_int 1) 256) div uval (uint_add ?T (uint_of_int 1))" "length q = WIDTH"
    by (rule uint_div_Some [of "uint_shl (uint_of_int 1) 256" "uint_add ?T (uint_of_int 1)"])
      (use uval_target_Suc [of "bi_nBits bi"] in simp_all)
  ultimately show ?thesis using assms by (auto simp: GetBlockTrust_def Let_def)
qed

theorem stake_trust_zero_witness:
  "\<exists>w. GetBlockTrust ((sample_entry None None 0 0)\<lparr>bi_nFlags := 1, bi_nBits := 0x1e0fffff\<rparr>) = Some w \<and> uval w = 0"
  by (rule stake_trust_zero) (simp add: index_IsProofOfStake_def)

text \<open>
  Where the check is not disabled, \<^verbatim>\<open>CheckProofOfWork\<close> accepts exactly the hashes that do
  not exceed the target, for a target that is positive, does not overflow and is within the
  limit of the chain.
\<close>

theorem check_proof_of_work_iff:
  assumes "\<not> par_fSkipProofOfWorkCheck params" "length (par_bnProofOfWorkLimit params) = WIDTH"
  shows "CheckProofOfWork params hash nBits \<longleftrightarrow>
    snd (SetCompact nBits) = (False, False) \<and> 0 < uval (fst (SetCompact nBits)) \<and>
    uval (fst (SetCompact nBits)) \<le> uval (par_bnProofOfWorkLimit params) \<and>
    unat hash \<le> uval (fst (SetCompact nBits))"
proof -
  obtain T n f where c: "SetCompact nBits = (T, n, f)" by (cases "SetCompact nBits")
  have l: "length T = WIDTH" using length_SetCompact [of nBits] c by simp
  show ?thesis
    using assms(1) c uval_EqualTo_0 [OF l] CompareTo_iff(1) [of T "par_bnProofOfWorkLimit params"]
      CompareTo_iff(1) [of "uint_of_word hash" T] l assms(2)
    by (auto simp: CheckProofOfWork_def uval_uint_of_word)
qed

lemma sample_target:
  "uval (fst (SetCompact 0x1e0fffff)) = (2 ^ 20 - 1) * 2 ^ 216" "snd (SetCompact 0x1e0fffff) = (False, False)"
proof -
  show "uval (fst (SetCompact 0x1e0fffff)) = (2 ^ 20 - 1) * 2 ^ 216"
    by (simp only: SetCompact_value) (simp add: compact_value_def)
  show "snd (SetCompact 0x1e0fffff) = (False, False)" by (simp add: SetCompact_def Let_def)
qed

lemma main_limit:
  "par_bnProofOfWorkLimit pow_CMainParams = replicate 7 0xffffffff @ [0xfff]"
  "uval (replicate 7 0xffffffff @ [0xfff]) = 2 ^ 236 - 1"
proof -
  show "par_bnProofOfWorkLimit pow_CMainParams = replicate 7 0xffffffff @ [0xfff]"
    by (simp add: pow_CMainParams_def CChainParams.extend_def CMainParams_def)
  have "uval (replicate n 0xffffffff) = 2 ^ (32 * n) - 1" for n
  proof (induction n)
    case (Suc n)
    have u: "unat (0xffffffff :: u32) = 2 ^ 32 - 1" by simp
    have "(1 :: nat) \<le> 2 ^ (32 * n)" by simp
    then have "2 ^ 32 - 1 + 2 ^ 32 * (2 ^ (32 * n) - 1) = (2 :: nat) ^ (32 * Suc n) - 1"
      by (simp add: power_add diff_mult_distrib2)
    then show ?case by (simp only: replicate_Suc uval.simps u Suc)
  qed simp
  then show "uval (replicate 7 0xffffffff @ [0xfff]) = 2 ^ 236 - 1" by (simp add: uval_append)
qed

theorem check_proof_of_work_iff_witness:
  "CheckProofOfWork (pow_CMainParams\<lparr>par_fSkipProofOfWorkCheck := False\<rparr>) 0 0x1e0fffff"
  using check_proof_of_work_iff [of "pow_CMainParams\<lparr>par_fSkipProofOfWorkCheck := False\<rparr>" 0 "0x1e0fffff"]
  by (simp add: sample_target main_limit(1)) (simp add: main_limit(2) [simplified])

text \<open>
  With the parameters of the main network the check is disabled: every hash passes for
  every target.
\<close>

theorem main_network_skips_proof_of_work: "CheckProofOfWork pow_CMainParams hash nBits"
  by (simp add: CheckProofOfWork_def pow_CMainParams_def CChainParams.extend_def CMainParams_def)

text \<open>
  C33: \<^verbatim>\<open>GetNextWorkRequired\<close> always returns: no division by zero, no failed assertion. The
  target it encodes never exceeds the limit of the chain and raises neither flag.
\<close>

theorem next_work_within_limit:
  assumes "idx p = Some bi" "bi_pprev bi = Some q" "idx q = Some bq"
    and "length (par_bnProofOfWorkLimit params) = WIDTH"
    and "0 < par_nTargetSpacing params" "par_nTargetSpacing params < 2 ^ 32"
  shows "\<exists>c. GetNextWorkRequired params idx (Some p) = Some c \<and> snd (SetCompact c) = (False, False) \<and>
    uval (fst (SetCompact c)) \<le> uval (par_bnProofOfWorkLimit params)"
proof -
  let ?L = "par_bnProofOfWorkLimit params"
  consider "bi_nHeight bi < 30" | "30 \<le> bi_nHeight bi" "int (bi_nHeight bi) > par_LAST_POW_BLOCK params"
    | "30 \<le> bi_nHeight bi" "\<not> int (bi_nHeight bi) > par_LAST_POW_BLOCK params" by linarith
  then show ?thesis
  proof cases
    case 1
    then show ?thesis using GetCompact_within [OF assms(4) order_refl] assms(1) by (simp add: GetNextWorkRequired_def)
  next
    case 2
    define s where "s = int (unat (bi_nTime bi)) - int (unat (bi_nTime bq))"
    have "int (unat (bi_nTime bi)) < 2 ^ 32" using limb_less [of "bi_nTime bi"] by (metis of_nat_less_iff of_nat_numeral of_nat_power)
    moreover have "0 \<le> int (unat (bi_nTime bq))" by (rule of_nat_0_le_iff)
    ultimately have s: "s < 2 ^ 32" unfolding s_def by linarith
    have e: "pos_target params (bi_nBits bi) s = pos_target params (bi_nBits bi) (if s < 0 then 1 else s)"
      by (simp add: pos_target_def)
    have "0 \<le> (if s < 0 then 1 else s)" "(if s < 0 then 1 else s) < 2 ^ 32" using s by simp_all
    then obtain x where x: "pos_target params (bi_nBits bi) s = Some x" "length x = WIDTH" "uval x \<le> uval ?L"
      unfolding e by (rule pos_target_le [OF assms(4)])
    have "GetNextWorkRequired params idx (Some p) = GetCompact x False"
      using 2 assms(1-3) x(1) by (simp add: GetNextWorkRequired_def s_def)
    then show ?thesis using GetCompact_within [OF x(2,3)] by simp
  next
    case 3
    obtain k a sp where g: "gravity_loop 30 idx (Some p) 0 (replicate WIDTH 0) 0 0 = Some (k, a, sp)" "length a = WIDTH" "k \<le> 30"
      using gravity_loop_Some [of "replicate WIDTH 0" 30 idx "Some p" 0 0 0] by auto
    have "0 < k"
      using gravity_loop_counts [of "replicate WIDTH 0" "Some p" idx bi 29 0 0 0 k a sp] assms(1) 3(1) g(1)
      by (simp add: numeral_eq_Suc)
    then obtain x where x: "gravity_target params k a sp = Some x" "length x = WIDTH" "uval x \<le> uval ?L"
      using gravity_target_Some [OF g(2) assms(4) _ g(3) assms(5,6)] by blast
    have "GetNextWorkRequired params idx (Some p) = GetCompact x False"
      using 3 assms(1) g(1) x(1) by (simp add: GetNextWorkRequired_def)
    then show ?thesis using GetCompact_within [OF x(2,3)] by simp
  qed
qed

definition late_index :: "u32 \<Rightarrow> u32 \<Rightarrow> BlockMap" where
  "late_index nTime nBits = [30 \<mapsto> sample_entry None None 300 1000,
     31 \<mapsto> (sample_entry (Some 30) None 301 nTime)\<lparr>bi_nBits := nBits\<rparr>]"

lemma late_lookup:
  "late_index t b 31 = Some ((sample_entry (Some 30) None 301 t)\<lparr>bi_nBits := b\<rparr>)"
  "late_index t b 30 = Some (sample_entry None None 300 1000)"
  by (simp_all add: late_index_def)

lemma main_params:
  "par_nTargetSpacing pow_CMainParams = 900" "par_LAST_POW_BLOCK pow_CMainParams = 200"
  by (simp_all add: pow_CMainParams_def CChainParams.extend_def CMainParams_def)

theorem next_work_within_limit_witness:
  "\<exists>c. GetNextWorkRequired pow_CMainParams (late_index 1900 0x1e0fffff) (Some 31) = Some c \<and>
    snd (SetCompact c) = (False, False)"
  using next_work_within_limit [of "late_index 1900 0x1e0fffff" 31 _ 30 _ pow_CMainParams, OF late_lookup(1) _ late_lookup(2)]
  by (auto simp: sample_heights main_params main_limit(1))

text \<open>
  After the last proof-of-work block the next target is the last one times
  \<open>(85500 + 2 * spacing) / 87300\<close>, capped at the limit, as long as the product fits; a spacing
  of 900 seconds leaves the target unchanged, a shorter one lowers it.
\<close>

theorem stake_retarget:
  assumes "length (par_bnProofOfWorkLimit params) = WIDTH" "0 \<le> spacing" "85500 + 2 * spacing < 2 ^ 32"
    and "uval (fst (SetCompact nBits)) * nat (85500 + 2 * spacing) < 2 ^ 256"
    and "87300 \<le> uval (fst (SetCompact nBits)) * nat (85500 + 2 * spacing)"
  shows "\<exists>x. pos_target params nBits spacing = Some x \<and>
    uval x = min (uval (par_bnProofOfWorkLimit params)) (uval (fst (SetCompact nBits)) * nat (85500 + 2 * spacing) div 87300)"
proof -
  have "nat (85500 + 2 * spacing) mod 2 ^ 32 = nat (85500 + 2 * spacing)" using assms(2,3) by (simp add: nat_less_iff)
  moreover have "uval (fst (SetCompact nBits)) * nat (85500 + 2 * spacing) div 87300 \<noteq> 0"
    using assms(5) by (simp only: div_eq_0_iff) simp
  moreover have "spacing < 2 ^ 32" using assms(2,3) by simp
  ultimately show ?thesis
    using pos_target_value [OF assms(1,2), of nBits] assms(4) by (auto simp: Let_def min_def)
qed

theorem stake_retarget_witness:
  "\<exists>x. pos_target pow_CMainParams 0x1e0fffff 900 = Some x \<and> uval x = (2 ^ 20 - 1) * 2 ^ 216"
  using stake_retarget [of pow_CMainParams 900 "0x1e0fffff"] by (simp add: main_limit sample_target)

text \<open>
  The product is taken modulo \<open>2 ^ 256\<close>: from the largest target, a block that comes
  481539 seconds (less than six days) after its predecessor makes the next target more than
  80000 times smaller, where the rule means to make it larger.
\<close>

theorem stake_retarget_wraps:
  "\<exists>x. pos_target pow_CMainParams 0x1e0fffff 481539 = Some x \<and>
    80000 * uval x < uval (fst (SetCompact 0x1e0fffff)) \<and> 0 < uval x"
  using pos_target_value [of pow_CMainParams 481539 "0x1e0fffff"] by (auto simp: main_limit sample_target Let_def)

end
