(* ===== verification/Kernel.thy ===== *)
theory Kernel
  imports Pow Block "HOL-Library.Product_Lexorder" "HOL-Library.Multiset"
begin

unbundle bit_operations_syntax

text \<open>
  The proof-of-stake kernel (kernel.cpp, kernel.h): stake modifiers and their selection from
  past blocks, the kernel hash and its target, and \<^verbatim>\<open>CheckProofOfStake\<close>. Reading
  transactions and blocks from disk is an argument. The block time and the digests come from
  the index and the arguments; debug output is left out.
\<close>

section \<open>Intervals\<close>

text \<open>
  What the functions read of their surroundings: \<^verbatim>\<open>fTestNet\<close>, \<^verbatim>\<open>Params().ModifierUpgradeBlock()\<close>
  and the value of the expression \<^verbatim>\<open>uint64_t("stakemodifier")\<close>, which is the address at which the
  program's string literal is loaded.
\<close>

record kernel_env =
  kern_sha256 :: "valtype \<Rightarrow> valtype"
  kern_fTestNet :: bool
  kern_ModifierUpgradeBlock :: nat
  kern_literal_address :: u64

definition getIntervalVersion :: "bool \<Rightarrow> nat" where
  "getIntervalVersion fTestNet = (if fTestNet then 60 else 60)"

definition GetStakeModifierSelectionIntervalSection :: "bool \<Rightarrow> nat \<Rightarrow> nat" where
  "GetStakeModifierSelectionIntervalSection fTestNet nSection =
     getIntervalVersion fTestNet * 63 div (63 + (63 - nSection) * (3 - 1))"

definition GetStakeModifierSelectionInterval :: "bool \<Rightarrow> nat" where
  "GetStakeModifierSelectionInterval fTestNet =
     fold (\<lambda>nSection n. n + GetStakeModifierSelectionIntervalSection fTestNet nSection) [0..<64] 0"

definition GeneratedStakeModifier :: "CBlockIndex \<Rightarrow> bool" where
  "GeneratedStakeModifier bi \<longleftrightarrow> bi_nFlags bi AND BLOCK_STAKE_MODIFIER \<noteq> 0"

definition block_time :: "CBlockIndex \<Rightarrow> int" where
  "block_time bi = int (unat (bi_nTime bi))"

text \<open>\<^verbatim>\<open>GetLastStakeModifier\<close>: the modifier and its time; \<open>None\<close> is the value false.\<close>

fun GetLastStakeModifier_loop :: "nat \<Rightarrow> BlockMap \<Rightarrow> CBlockIndex \<Rightarrow> CBlockIndex" where
  "GetLastStakeModifier_loop 0 idx bi = bi"
| "GetLastStakeModifier_loop (Suc fuel) idx bi =
     (case Option.bind (bi_pprev bi) idx of
        None \<Rightarrow> bi
      | Some bp \<Rightarrow> if \<not> GeneratedStakeModifier bi then GetLastStakeModifier_loop fuel idx bp else bi)"

definition GetLastStakeModifier :: "BlockMap \<Rightarrow> bptr \<Rightarrow> (u64 \<times> int) option" where
  "GetLastStakeModifier idx pindex =
     (case Option.bind pindex idx of
        None \<Rightarrow> None
      | Some bi \<Rightarrow>
          let b = GetLastStakeModifier_loop (bi_nHeight bi) idx bi in
          if \<not> GeneratedStakeModifier b then None else Some (bi_nStakeModifier b, block_time b))"

section \<open>The stake modifier\<close>

text \<open>
  \<^verbatim>\<open>SelectBlockFromCandidates\<close>: the loop over the candidates. \<open>v2\<close> is \<^verbatim>\<open>fModifierV2\<close>, unset on the
  first run; \<open>best\<close> is \<^verbatim>\<open>hashBest\<close> with \<^verbatim>\<open>pindexSelected\<close>, once \<^verbatim>\<open>fSelected\<close> holds. The outer option is
  the error of a candidate that is not indexed.
\<close>

definition hashSelection :: "kernel_env \<Rightarrow> bool \<Rightarrow> u64 \<Rightarrow> u256 \<Rightarrow> CBlockIndex \<Rightarrow> u256" where
  "hashSelection env v2 nStakeModifierPrev hash bi =
     (let hashProof = (if v2 then hash else if index_IsProofOfStake bi then 0 else hash);
          h = Hash (kern_sha256 env) (ser_word hashProof @ ser_word nStakeModifierPrev)
      in if index_IsProofOfStake bi then drop_bit 32 h else h)"

fun SelectBlock_loop ::
    "kernel_env \<Rightarrow> BlockMap \<Rightarrow> u256 list \<Rightarrow> int \<Rightarrow> u64 \<Rightarrow> (int \<times> u256) list \<Rightarrow> bool option \<Rightarrow> (u256 \<times> u256) option \<Rightarrow>
      (u256 \<times> u256) option option" where
  "SelectBlock_loop env idx selected stop prev [] v2 best = Some best"
| "SelectBlock_loop env idx selected stop prev ((t, hash) # items) v2 best =
     (case idx hash of
        None \<Rightarrow> None
      | Some bi \<Rightarrow>
          if best \<noteq> None \<and> block_time bi > stop then Some best
          else
            let v2' = (case v2 of None \<Rightarrow> bi_nHeight bi \<ge> kern_ModifierUpgradeBlock env | Some b \<Rightarrow> b) in
            if hash \<in> set selected then SelectBlock_loop env idx selected stop prev items (Some v2') best
            else
              let h = hashSelection env v2' prev hash bi in
              SelectBlock_loop env idx selected stop prev items (Some v2')
                (case best of
                   None \<Rightarrow> Some (h, hash)
                 | Some (hashBest, p) \<Rightarrow> if h < hashBest then Some (h, hash) else Some (hashBest, p)))"

definition SelectBlockFromCandidates ::
    "kernel_env \<Rightarrow> BlockMap \<Rightarrow> (int \<times> u256) list \<Rightarrow> u256 list \<Rightarrow> int \<Rightarrow> u64 \<Rightarrow> u256 option" where
  "SelectBlockFromCandidates env idx vSortedByTimestamp selected stop prev =
     Option.bind (SelectBlock_loop env idx selected stop prev vSortedByTimestamp None None) (map_option snd)"

text \<open>The loop that collects the candidates, newest first.\<close>

fun candidates_loop :: "nat \<Rightarrow> BlockMap \<Rightarrow> int \<Rightarrow> bptr \<Rightarrow> (int \<times> u256) list" where
  "candidates_loop 0 idx start pindex = []"
| "candidates_loop (Suc fuel) idx start pindex =
     (case pindex of
        None \<Rightarrow> []
      | Some p \<Rightarrow>
          (case idx p of
             None \<Rightarrow> []
           | Some bi \<Rightarrow>
               if block_time bi \<ge> start then (block_time bi, p) # candidates_loop fuel idx start (bi_pprev bi) else []))"

text \<open>The rounds from \<^verbatim>\<open>nRound\<close> on, \<open>n\<close> of them; \<open>None\<close> is a round that selects nothing.\<close>

fun modifier_rounds ::
    "kernel_env \<Rightarrow> BlockMap \<Rightarrow> (int \<times> u256) list \<Rightarrow> u64 \<Rightarrow> nat \<Rightarrow> nat \<Rightarrow> int \<Rightarrow> u256 list \<Rightarrow> u64 \<Rightarrow>
      (u256 list \<times> u64) option" where
  "modifier_rounds env idx cands prev 0 nRound stop selected new = Some (selected, new)"
| "modifier_rounds env idx cands prev (Suc n) nRound stop selected new =
     (let stop = stop + int (GetStakeModifierSelectionIntervalSection (kern_fTestNet env) nRound) in
      case SelectBlockFromCandidates env idx cands selected stop prev of
        None \<Rightarrow> None
      | Some p \<Rightarrow>
          modifier_rounds env idx cands prev n (nRound + 1) stop (p # selected)
            (new OR push_bit nRound (ucast (GetStakeEntropyBit p))))"

text \<open>\<^verbatim>\<open>ComputeNextStakeModifier\<close>: the result and the two values it returns by reference.\<close>

definition ComputeNextStakeModifier :: "kernel_env \<Rightarrow> BlockMap \<Rightarrow> bptr \<Rightarrow> bool \<times> u64 \<times> bool" where
  "ComputeNextStakeModifier env idx pindexPrev =
     (case Option.bind pindexPrev idx of
        None \<Rightarrow> (True, 0, True)
      | Some bi \<Rightarrow>
          if bi_nHeight bi = 0 then (True, kern_literal_address env, True)
          else
            (case GetLastStakeModifier idx pindexPrev of
               None \<Rightarrow> (False, 0, False)
             | Some (nStakeModifier, nModifierTime) \<Rightarrow>
                 let interval = int (getIntervalVersion (kern_fTestNet env)) in
                 if nModifierTime div interval \<ge> block_time bi div interval then (True, nStakeModifier, False)
                 else
                   let start = block_time bi div interval * interval -
                         int (GetStakeModifierSelectionInterval (kern_fTestNet env));
                       cands = sort (rev (candidates_loop (bi_nHeight bi + 1) idx start pindexPrev))
                   in (case modifier_rounds env idx cands nStakeModifier (min 64 (length cands)) 0 start [] 0 of
                         None \<Rightarrow> (False, nStakeModifier, False)
                       | Some (selected, new) \<Rightarrow> (True, new, True))))"

section \<open>The kernel hash\<close>

text \<open>\<^verbatim>\<open>GetKernelStakeModifier\<close>, with a bound on the steps along the active chain.\<close>

fun KernelModifier_loop :: "nat \<Rightarrow> BlockMap \<Rightarrow> CChain \<Rightarrow> int \<Rightarrow> CBlockIndex \<Rightarrow> bptr \<Rightarrow> nat \<Rightarrow> int \<Rightarrow> (u64 \<times> nat \<times> int) option" where
  "KernelModifier_loop 0 idx chain until bi next height time = None"
| "KernelModifier_loop (Suc fuel) idx chain until bi next height time =
     (if time < until then
        (case Option.bind next idx of
           None \<Rightarrow> None
         | Some b \<Rightarrow>
             KernelModifier_loop fuel idx chain until b (chain_at chain (int (bi_nHeight b) + 1))
               (if GeneratedStakeModifier b then bi_nHeight b else height)
               (if GeneratedStakeModifier b then block_time b else time))
      else Some (bi_nStakeModifier bi, height, time))"

definition GetKernelStakeModifier :: "kernel_env \<Rightarrow> BlockMap \<Rightarrow> CChain \<Rightarrow> u256 \<Rightarrow> (u64 \<times> nat \<times> int) option" where
  "GetKernelStakeModifier env idx chain hashBlockFrom =
     (case idx hashBlockFrom of
        None \<Rightarrow> None
      | Some bi \<Rightarrow>
          KernelModifier_loop (length chain + 1) idx chain
            (block_time bi + int (GetStakeModifierSelectionInterval (kern_fTestNet env))) bi
            (chain_at chain (int (bi_nHeight bi) + 1)) (bi_nHeight bi) (block_time bi))"

definition stakeHash :: "kernel_env \<Rightarrow> u32 \<Rightarrow> u64 \<Rightarrow> u32 \<Rightarrow> u256 \<Rightarrow> u32 \<Rightarrow> u256" where
  "stakeHash env nTimeTx nStakeModifier prevoutIndex prevoutHash nTimeBlockFrom =
     Hash (kern_sha256 env)
       (ser_word nStakeModifier @ ser_word nTimeBlockFrom @ ser_word prevoutIndex @ ser_word prevoutHash @ ser_word nTimeTx)"

text \<open>The weight is a quotient of \<^verbatim>\<open>base_uint\<close> numbers, and the product wraps.\<close>

definition stakeTargetHit :: "u256 \<Rightarrow> int \<Rightarrow> base_uint \<Rightarrow> bool" where
  "stakeTargetHit hashProofOfStake nValueIn bnTargetPerCoinDay =
     (case uint_div (uint_of_int nValueIn) (uint_of_int 100) of
        None \<Rightarrow> False
      | Some bnCoinDayWeight \<Rightarrow>
          CompareTo (uint_of_word hashProofOfStake) (uint_mul bnCoinDayWeight bnTargetPerCoinDay) < 0)"

text \<open>The search over the drift, for \<open>n\<close> more values of \<^verbatim>\<open>i\<close>; the height of the chain does not change in between.\<close>

fun kernel_search ::
    "kernel_env \<Rightarrow> nat \<Rightarrow> u32 \<Rightarrow> u32 \<Rightarrow> u32 \<Rightarrow> u64 \<Rightarrow> COutPoint \<Rightarrow> u32 \<Rightarrow> int \<Rightarrow> base_uint \<Rightarrow> u256 \<Rightarrow> bool \<times> u32 \<times> u256" where
  "kernel_search env 0 i nTimeTx nHashDrift nStakeModifier prevout nTimeBlockFrom nValueIn target hashProofOfStake =
     (False, nTimeTx, hashProofOfStake)"
| "kernel_search env (Suc n) i nTimeTx nHashDrift nStakeModifier prevout nTimeBlockFrom nValueIn target hashProofOfStake =
     (let nTryTime = nTimeTx + nHashDrift - i;
          h = stakeHash env nTryTime nStakeModifier (outpoint_n prevout) (outpoint_hash prevout) nTimeBlockFrom
      in if \<not> stakeTargetHit h nValueIn target
         then kernel_search env n (i + 1) nTimeTx nHashDrift nStakeModifier prevout nTimeBlockFrom nValueIn target h
         else (True, nTryTime, h))"

text \<open>
  \<^verbatim>\<open>CheckStakeKernelHash\<close>: the result, \<^verbatim>\<open>nTimeTx\<close>, \<^verbatim>\<open>hashProofOfStake\<close>, and \<^verbatim>\<open>mapHashedBlocks\<close>, which
  after a search holds only the time \<open>now\<close> under the height of the tip. \<open>None\<close> is an access outside
  of a vector, which the code does not test for.
\<close>

definition CheckStakeKernelHash ::
    "kernel_env \<Rightarrow> sph \<Rightarrow> u32 \<Rightarrow> BlockMap \<Rightarrow> CChain \<Rightarrow> u32 \<Rightarrow> CBlock \<Rightarrow> CTransaction \<Rightarrow> COutPoint \<Rightarrow> u32 \<Rightarrow> u32 \<Rightarrow> bool \<Rightarrow>
      u256 \<Rightarrow> (int \<times> u32) list \<Rightarrow> (bool \<times> u32 \<times> u256 \<times> (int \<times> u32) list) option" where
  "CheckStakeKernelHash env f now idx chain nBits blockFrom txPrev prevout nTimeTx nHashDrift fCheck hashProofOfStake
     mapHashedBlocks =
     (if unat (outpoint_n prevout) \<ge> length (tx_vout txPrev) then None
      else
        let nValueIn = txout_nValue (tx_vout txPrev ! unat (outpoint_n prevout));
            nTimeBlockFrom = hdr_nTime blockFrom in
        if nTimeTx < nTimeBlockFrom then Some (False, nTimeTx, hashProofOfStake, mapHashedBlocks)
        else
          let bnTargetPerCoinDay = fst (SetCompact nBits) in
          (case GetKernelStakeModifier env idx chain (block_GetHash f blockFrom) of
             None \<Rightarrow> Some (False, nTimeTx, hashProofOfStake, mapHashedBlocks)
           | Some (nStakeModifier, _, _) \<Rightarrow>
               if fCheck then
                 let h = stakeHash env nTimeTx nStakeModifier (outpoint_n prevout) (outpoint_hash prevout) nTimeBlockFrom
                 in Some (stakeTargetHit h nValueIn bnTargetPerCoinDay, nTimeTx, h, mapHashedBlocks)
               else
                 (case kernel_search env (unat nHashDrift) 0 nTimeTx nHashDrift nStakeModifier prevout nTimeBlockFrom nValueIn
                         bnTargetPerCoinDay hashProofOfStake of
                    (fSuccess, nTimeTx, h) \<Rightarrow> Some (fSuccess, nTimeTx, h, [(chain_Height chain, now)]))))"

text \<open>
  \<^verbatim>\<open>GetTransaction\<close> and \<^verbatim>\<open>ReadBlockFromDisk\<close> read files and the database; they are arguments. The
  outer option is again an access outside of a vector: \<^verbatim>\<open>block.vtx[1]\<close>, or the output that the
  coinstake says it spends.
\<close>

definition CheckProofOfStake ::
    "kernel_env \<Rightarrow> crypto \<Rightarrow> sph \<Rightarrow> u32 \<Rightarrow> (u256 \<Rightarrow> (CTransaction \<times> u256) option) \<Rightarrow> (CBlockIndex \<Rightarrow> CBlock option) \<Rightarrow>
      BlockMap \<Rightarrow> CChain \<Rightarrow> CBlock \<Rightarrow> u256 \<Rightarrow> (bool \<times> u256) option" where
  "CheckProofOfStake env cr f now GetTransaction ReadBlock idx chain block hashProofOfStake =
     (if length (blk_vtx block) < 2 then None
      else
        let tx = blk_vtx block ! 1 in
        if \<not> IsCoinStake tx then Some (False, hashProofOfStake)
        else
          let txin = tx_vin tx ! 0 in
          (case GetTransaction (outpoint_hash (txin_prevout txin)) of
             None \<Rightarrow> Some (False, hashProofOfStake)
           | Some (txPrev, hashBlock) \<Rightarrow>
               if unat (outpoint_n (txin_prevout txin)) \<ge> length (tx_vout txPrev) then None
               else if \<not> is_ok (VerifyScript (tx_env cr STANDARD_SCRIPT_VERIFY_FLAGS tx 0) (txin_scriptSig txin)
                    (txout_scriptPubKey (tx_vout txPrev ! unat (outpoint_n (txin_prevout txin)))))
               then Some (False, hashProofOfStake)
               else
                 (case idx hashBlock of
                    None \<Rightarrow> Some (False, hashProofOfStake)
                  | Some bi \<Rightarrow>
                      (case ReadBlock bi of
                         None \<Rightarrow> Some (False, hashProofOfStake)
                       | Some blockprev \<Rightarrow>
                           map_option (\<lambda>(ok, _, h, _). (ok, h))
                             (CheckStakeKernelHash env f now idx chain (hdr_nBits block) blockprev txPrev (txin_prevout txin)
                               (hdr_nTime block) 0 True hashProofOfStake [])))))"

definition CheckCoinStakeTimestamp :: "int \<Rightarrow> int \<Rightarrow> bool" where
  "CheckCoinStakeTimestamp nTimeBlock nTimeTx \<longleftrightarrow> nTimeBlock = nTimeTx"

text \<open>\<^verbatim>\<open>GetStakeModifierChecksum\<close>; the assertion holds for every entry with a predecessor.\<close>

definition GetStakeModifierChecksum :: "kernel_env \<Rightarrow> BlockMap \<Rightarrow> CBlockIndex \<Rightarrow> u32" where
  "GetStakeModifierChecksum env idx bi =
     ucast (drop_bit (256 - 32) (Hash (kern_sha256 env)
       ((case Option.bind (bi_pprev bi) idx of None \<Rightarrow> [] | Some bp \<Rightarrow> ser_word (bi_nStakeModifierChecksum bp)) @
        ser_word (bi_nFlags bi) @ ser_word (bi_hashProofOfStake bi) @ ser_word (bi_nStakeModifier bi))))"

definition CheckStakeModifierCheckpoints :: "bool \<Rightarrow> nat \<Rightarrow> u32 \<Rightarrow> bool" where
  "CheckStakeModifierCheckpoints fTestNet nHeight nStakeModifierChecksum =
     (if fTestNet then True else if nHeight = 0 then nStakeModifierChecksum = 0xfd11f4e7 else True)"

section \<open>Selection\<close>

lemma SelectBlock_loop_Some:
  assumes "\<forall>x \<in> set items. idx (snd x) \<noteq> None" "best \<noteq> None \<or> (\<exists>x \<in> set items. snd x \<notin> set selected)"
  shows "\<exists>h p. SelectBlock_loop env idx selected stop prev items v2 best = Some (Some (h, p)) \<and>
    (p \<in> snd ` set items - set selected \<or> best = Some (h, p))"
  using assms
proof (induction items arbitrary: v2 best)
  case (Cons x items)
  obtain t hash where x: "x = (t, hash)" by (cases x)
  obtain bi where bi: "idx hash = Some bi" using Cons.prems(1) x by auto
  show ?case
  proof (cases "best \<noteq> None \<and> block_time bi > stop")
    case True
    then obtain h p where "best = Some (h, p)" by (cases best) auto
    then show ?thesis using bi True by (simp add: x)
  next
    case F: False
    define v where "v = (case v2 of None \<Rightarrow> bi_nHeight bi \<ge> kern_ModifierUpgradeBlock env | Some b \<Rightarrow> b)"
    show ?thesis
    proof (cases "hash \<in> set selected")
      case True
      have "best \<noteq> None \<or> (\<exists>x \<in> set items. snd x \<notin> set selected)" using Cons.prems(2) True x by auto
      then obtain h p where hp: "SelectBlock_loop env idx selected stop prev items (Some v) best = Some (Some (h, p))"
        "p \<in> snd ` set items - set selected \<or> best = Some (h, p)"
        using Cons.IH [of best "Some v"] Cons.prems(1) by auto
      have "SelectBlock_loop env idx selected stop prev (x # items) v2 best = Some (Some (h, p))"
        using F True bi hp(1) by (auto simp: x Let_def v_def)
      then show ?thesis using hp(2) by auto
    next
      case False
    define b' where "b' = (case best of None \<Rightarrow> Some (hashSelection env v prev hash bi, hash)
        | Some (hb, p) \<Rightarrow> if hashSelection env v prev hash bi < hb then Some (hashSelection env v prev hash bi, hash) else Some (hb, p))"
    have b': "b' \<noteq> None" "b' = Some (h, p) \<Longrightarrow> p = hash \<or> best = Some (h, p)" for h p
      by (auto simp: b'_def split: option.splits if_splits)
    obtain h p where hp: "SelectBlock_loop env idx selected stop prev items (Some v) b' = Some (Some (h, p))"
      "p \<in> snd ` set items - set selected \<or> b' = Some (h, p)"
      using Cons.IH [of b' "Some v"] Cons.prems(1) b'(1) by auto
    have "SelectBlock_loop env idx selected stop prev (x # items) v2 best =
        SelectBlock_loop env idx selected stop prev items (Some v) b'"
      using F False bi unfolding b'_def v_def by (cases best) (simp_all add: x Let_def)
    then have "SelectBlock_loop env idx selected stop prev (x # items) v2 best = Some (Some (h, p))" using hp(1) by simp
    moreover have "p \<in> snd ` set (x # items) - set selected \<or> best = Some (h, p)"
      using hp(2) b'(2) False x by auto
    ultimately show ?thesis by blast
    qed
  qed
qed simp

lemma SelectBlockFromCandidates_Some:
  assumes "\<forall>x \<in> set cands. idx (snd x) \<noteq> None" "\<exists>x \<in> set cands. snd x \<notin> set selected"
  obtains p where "SelectBlockFromCandidates env idx cands selected stop prev = Some p" "p \<in> snd ` set cands - set selected"
proof -
  obtain h p where "SelectBlock_loop env idx selected stop prev cands None None = Some (Some (h, p))"
    "p \<in> snd ` set cands - set selected"
    using SelectBlock_loop_Some [OF assms(1), of None selected env stop prev None] assms(2) by blast
  then show ?thesis by (intro that [of p]) (simp_all add: SelectBlockFromCandidates_def)
qed

lemma modifier_rounds_Some:
  assumes "\<forall>x \<in> set cands. idx (snd x) \<noteq> None" "distinct (map snd cands)" "distinct selected"
    "set selected \<subseteq> snd ` set cands" "length selected + n \<le> length cands"
  shows "\<exists>sel' new'. modifier_rounds env idx cands prev n nRound stop selected new = Some (sel', new') \<and>
    distinct sel' \<and> set sel' \<subseteq> snd ` set cands \<and> length sel' = length selected + n"
  using assms(3-5)
proof (induction n arbitrary: nRound stop selected new)
  case (Suc n)
  have "card (snd ` set cands) = length cands" using distinct_card [OF assms(2)] by simp
  moreover have "card (set selected) = length selected" using Suc.prems(1) by (rule distinct_card)
  ultimately have "card (set selected) < card (snd ` set cands)" using Suc.prems(3) by simp
  then have "\<not> snd ` set cands \<subseteq> set selected" using card_mono [OF finite_set, of "snd ` set cands" selected] by linarith
  then have "\<exists>x \<in> set cands. snd x \<notin> set selected" by auto
  then obtain p where p: "SelectBlockFromCandidates env idx cands selected
      (stop + int (GetStakeModifierSelectionIntervalSection (kern_fTestNet env) nRound)) prev = Some p"
    "p \<in> snd ` set cands - set selected"
    by (rule SelectBlockFromCandidates_Some [OF assms(1)])
  show ?case
    using p Suc.IH [of "p # selected"] Suc.prems by (auto simp: Let_def)
qed simp


text \<open>The candidates are ancestors, all different.\<close>

lemma candidates_walk:
  assumes "(t, q) \<in> set (candidates_loop fuel idx start (Some p))"
  shows "\<exists>n. walk idx n p = Some q \<and> (\<exists>bq. idx q = Some bq)"
  using assms
proof (induction fuel arbitrary: p)
  case (Suc fuel)
  obtain bi where bi: "idx p = Some bi" using Suc.prems by (cases "idx p") simp_all
  show ?case
  proof (cases "q = p")
    case True
    then show ?thesis using bi by (intro exI [of _ 0]) simp
  next
    case False
    then have q: "(t, q) \<in> set (candidates_loop fuel idx start (bi_pprev bi))"
      using Suc.prems bi by (auto split: if_splits)
    then obtain p' where p': "bi_pprev bi = Some p'" by (cases "bi_pprev bi"; cases fuel) auto
    obtain n where "walk idx n p' = Some q" "\<exists>bq. idx q = Some bq" using Suc.IH [of p'] q p' by auto
    then show ?thesis using walk_Suc' [of idx p bi p' n] bi p' by (intro exI [of _ "Suc n"]) simp
  qed
qed simp

lemma candidates_below:
  assumes "index_wf idx" "idx p = Some bi" "(t, q) \<in> set (candidates_loop fuel idx start (Some p))" "idx q = Some bq"
  shows "bi_nHeight bq \<le> bi_nHeight bi"
proof -
  obtain n where n: "walk idx n p = Some q" using candidates_walk [OF assms(3)] by blast
  have "n \<le> bi_nHeight bi"
  proof (rule ccontr)
    assume "\<not> n \<le> bi_nHeight bi"
    then have "\<exists>k. n = k + Suc (bi_nHeight bi)" by (metis less_eq_Suc_le le_add_diff_inverse2 not_le)
    then obtain k where "n = k + Suc (bi_nHeight bi)" by blast
    moreover have "(deref idx bi_pprev ^^ k) None = None" for k by (induction k) (simp_all add: deref_def)
    ultimately have "walk idx n p = None"
      using walk_beyond [OF assms(1,2)] by (simp only: walk_def funpow_add o_apply)
    then show False using n by simp
  qed
  then show ?thesis using walk_height [OF assms(1,2)] n assms(4) by fastforce
qed

lemma candidates_distinct:
  assumes "index_wf idx" "idx p = Some bi"
  shows "distinct (map snd (candidates_loop fuel idx start (Some p)))"
  using assms(2)
proof (induction fuel arbitrary: p bi)
  case (Suc fuel)
  show ?case
  proof (cases "block_time bi \<ge> start")
    case True
    show ?thesis
    proof (cases "bi_nHeight bi = 0")
      case h: True
      then show ?thesis using index_wf_root [OF assms(1) Suc.prems] Suc.prems True by (cases fuel) simp_all
    next
      case False
      then obtain q bq where q: "bi_pprev bi = Some q" "idx q = Some bq" "bi_nHeight bi = bi_nHeight bq + 1"
        using index_wf_prev [OF assms(1) Suc.prems] by (metis neq0_conv)
      have "(t, p) \<notin> set (candidates_loop fuel idx start (Some q))" for t
        using candidates_below [OF assms(1) q(2), of t p fuel start bi] Suc.prems q(3) by auto
      then show ?thesis using Suc.IH [OF q(2)] Suc.prems True q(1) by auto
    qed
  qed (use Suc.prems in simp)
qed simp

lemma ComputeNextStakeModifier_ok:
  assumes "index_wf idx" "idx p = Some bi" "GetLastStakeModifier idx (Some p) = Some m"
  shows "fst (ComputeNextStakeModifier env idx (Some p))"
proof -
  let ?i = "int (getIntervalVersion (kern_fTestNet env))"
  define start where "start = block_time bi div ?i * ?i - int (GetStakeModifierSelectionInterval (kern_fTestNet env))"
  define cands where "cands = sort (rev (candidates_loop (bi_nHeight bi + 1) idx start (Some p)))"
  have s: "set cands = set (candidates_loop (bi_nHeight bi + 1) idx start (Some p))" by (simp add: cands_def)
  have "\<forall>x \<in> set cands. idx (snd x) \<noteq> None"
    using candidates_walk [of _ _ "bi_nHeight bi + 1" idx start p] unfolding s by fastforce
  moreover have "distinct (map snd cands)"
  proof -
    have "mset (map snd cands) = mset (map snd (candidates_loop (bi_nHeight bi + 1) idx start (Some p)))"
      by (simp add: cands_def)
    then show ?thesis using candidates_distinct [OF assms(1,2)] by (metis mset_eq_imp_distinct_iff)
  qed
  ultimately have "\<exists>sel new. modifier_rounds env idx cands (fst m) (min 64 (length cands)) 0 start [] 0 = Some (sel, new)"
    using modifier_rounds_Some [of cands idx "[]" "min 64 (length cands)" env "fst m" 0 start 0] by auto
  then show ?thesis
    using assms(2,3) by (auto simp: ComputeNextStakeModifier_def Let_def start_def cands_def split: prod.splits)
qed

section \<open>The kernel modifier\<close>



text \<open>The value enters as \<^verbatim>\<open>uint64_t\<close>.\<close>

lemma stakeTargetHit_value:
  assumes "length T = WIDTH"
  shows "stakeTargetHit h v T \<longleftrightarrow> unat h < nat (v mod 2 ^ 64) div 100 * uval T mod 2 ^ 256"
proof -
  have v: "uval (uint_of_int v) = nat (v mod 2 ^ 64)" by (simp add: uval_of_u64 unat_eq_nat_uint uint_word_of_int)
  have c: "uval (uint_of_int 100) = 100" by (simp add: uval_of_u64)
  obtain w where w: "uint_div (uint_of_int v) (uint_of_int 100) = Some w"
    "uval w = uval (uint_of_int v) div uval (uint_of_int 100)" "length w = WIDTH"
    by (rule uint_div_Some [of "uint_of_int v" "uint_of_int 100"]) (simp_all add: uval_of_u64)
  have "uval (uint_mul w T) = nat (v mod 2 ^ 64) div 100 * uval T mod 2 ^ 256"
    using uval_mul [of w T] w(2,3) assms(1) by (simp only: v c) simp
  moreover define X where "X = nat (v mod 2 ^ 64) div 100 * uval T mod 2 ^ 256"
  ultimately have x: "uval (uint_mul w T) = X" by (simp only:)
  have "length (uint_mul w T) = WIDTH"
    using length_uint_mul [of w T] w(3) assms(1) by simp
  moreover define H where "H = uval (uint_of_word h)"
  ultimately have "stakeTargetHit h v T \<longleftrightarrow> H < X"
    using w(1) CompareTo_sgn [of "uint_of_word h" "uint_mul w T"] x
    by (simp add: stakeTargetHit_def sgn_if)
  then show ?thesis by (simp only: H_def uval_uint_of_word X_def)
qed

lemma stakeTargetHit_iff:
  assumes "length T = WIDTH" "0 \<le> v" "v < 2 ^ 63"
  shows "stakeTargetHit h v T \<longleftrightarrow> unat h < nat (v div 100) * uval T mod 2 ^ 256"
  using stakeTargetHit_value [OF assms(1), of h v] assms(2,3) by (simp add: nat_div_distrib)

lemma CheckProofOfStake_iff:
  "CheckProofOfStake env cr f now GetTransaction ReadBlock idx chain block h0 = Some (True, h) \<longleftrightarrow>
    2 \<le> length (blk_vtx block) \<and> IsCoinStake (blk_vtx block ! 1) \<and>
    (\<exists>txPrev hashBlock bi blockprev m.
      let tx = blk_vtx block ! 1; prevout = txin_prevout (tx_vin tx ! 0); out = tx_vout txPrev ! unat (outpoint_n prevout);
          bits = unat (hdr_nBits block);
          kernel = ser_word m @ ser_word (hdr_nTime blockprev) @ ser_word (outpoint_n prevout) @ ser_word (outpoint_hash prevout) @
            ser_word (hdr_nTime block)
      in
      GetTransaction (outpoint_hash prevout) = Some (txPrev, hashBlock) \<and> unat (outpoint_n prevout) < length (tx_vout txPrev) \<and>
      is_ok (VerifyScript (tx_env cr STANDARD_SCRIPT_VERIFY_FLAGS tx 0) (txin_scriptSig (tx_vin tx ! 0)) (txout_scriptPubKey out)) \<and>
      idx hashBlock = Some bi \<and> ReadBlock bi = Some blockprev \<and> hdr_nTime blockprev \<le> hdr_nTime block \<and>
      map_option fst (GetKernelStakeModifier env idx chain (block_GetHash f blockprev)) = Some m \<and>
      h = word_of_nat (le_val (kern_sha256 env (kern_sha256 env kernel))) \<and>
      unat h < nat (txout_nValue out mod 2 ^ 64) div 100 * (compact_value (bits div 2 ^ 24) (bits mod 2 ^ 23) mod 2 ^ 256) mod 2 ^ 256)"
  (is "?l \<longleftrightarrow> ?r")
proof -
  have t: "stakeTargetHit h' v (fst (SetCompact c)) \<longleftrightarrow>
      unat h' < nat (v mod 2 ^ 64) div 100 * (compact_value (unat c div 2 ^ 24) (unat c mod 2 ^ 23) mod 2 ^ 256) mod 2 ^ 256" for h' v c
    using stakeTargetHit_value [OF SetCompact_value(2), of h' v c] unfolding SetCompact_value(1) .
  show ?thesis
  proof
    assume ?l
    then show ?r
      unfolding Let_def t [symmetric]
      by (auto simp: CheckProofOfStake_def CheckStakeKernelHash_def stakeHash_def Hash_def Let_def not_less split: if_splits option.splits prod.splits)
  next
    assume r: ?r
    then obtain txPrev hashBlock bi blockprev m where
      x: "GetTransaction (outpoint_hash (txin_prevout (tx_vin (blk_vtx block ! 1) ! 0))) = Some (txPrev, hashBlock)"
        "\<not> length (tx_vout txPrev) \<le> unat (outpoint_n (txin_prevout (tx_vin (blk_vtx block ! 1) ! 0)))"
        "is_ok (VerifyScript (tx_env cr STANDARD_SCRIPT_VERIFY_FLAGS (blk_vtx block ! 1) 0) (txin_scriptSig (tx_vin (blk_vtx block ! 1) ! 0))
           (txout_scriptPubKey (tx_vout txPrev ! unat (outpoint_n (txin_prevout (tx_vin (blk_vtx block ! 1) ! 0))))))"
        "idx hashBlock = Some bi" "ReadBlock bi = Some blockprev" "\<not> hdr_nTime block < hdr_nTime blockprev"
        "map_option fst (GetKernelStakeModifier env idx chain (block_GetHash f blockprev)) = Some m"
        "h = stakeHash env (hdr_nTime block) m (outpoint_n (txin_prevout (tx_vin (blk_vtx block ! 1) ! 0)))
           (outpoint_hash (txin_prevout (tx_vin (blk_vtx block ! 1) ! 0))) (hdr_nTime blockprev)"
        "stakeTargetHit h (txout_nValue (tx_vout txPrev ! unat (outpoint_n (txin_prevout (tx_vin (blk_vtx block ! 1) ! 0)))))
           (fst (SetCompact (hdr_nBits block)))"
      unfolding Let_def t [symmetric] not_less [symmetric] not_le stakeHash_def Hash_def by blast
    obtain k where k: "GetKernelStakeModifier env idx chain (block_GetHash f blockprev) = Some (m, k)" using x(7) by auto
    have "\<not> length (blk_vtx block) < 2" "IsCoinStake (blk_vtx block ! 1)" using r by simp_all
    then show ?l
      unfolding CheckProofOfStake_def CheckStakeKernelHash_def Let_def x(1,4,5) option.case prod.case k
      by (cases k) (simp add: x(3) [simplified] x(2,6,9) [unfolded One_nat_def] x(8) [symmetric, unfolded One_nat_def])
  qed
qed

section \<open>Properties\<close>

text \<open>
  C35: A new stake modifier can always be computed on top of a well-formed index in which some
  ancestor generated one: no round of the selection fails, because the candidates are pairwise
  different indexed blocks and each round takes one that was not taken before.
\<close>

theorem next_modifier_succeeds:
  assumes "index_wf idx" "idx p = Some bi" "GetLastStakeModifier idx (Some p) = Some m"
  shows "fst (ComputeNextStakeModifier env idx (Some p))"
  using assms by (rule ComputeNextStakeModifier_ok)

definition sample_kernel_env :: kernel_env where
  "sample_kernel_env = \<lparr>kern_sha256 = (\<lambda>x. x), kern_fTestNet = False, kern_ModifierUpgradeBlock = 2, kern_literal_address = 7\<rparr>"

definition stake_index :: BlockMap where
  "stake_index = [10 \<mapsto> (sample_entry None None 0 100)\<lparr>bi_nFlags := 4\<rparr>, 11 \<mapsto> sample_entry (Some 10) (Some 10) 1 300]"

lemma stake_lookup:
  "stake_index 10 = Some ((sample_entry None None 0 100)\<lparr>bi_nFlags := 4\<rparr>)"
  "stake_index 11 = Some (sample_entry (Some 10) (Some 10) 1 300)"
  by (simp_all add: stake_index_def)

lemma stake_index_wf: "index_wf stake_index"
proof -
  have "walk stake_index 1 11 = Some 10" by (simp add: walk_def deref_def stake_lookup sample_heights)
  moreover have "p = 10 \<or> p = 11" if "stake_index p = Some bi" for p bi
    using that by (auto simp: stake_index_def split: if_splits)
  ultimately show ?thesis
    unfolding index_wf_def
    by (fastforce simp: stake_lookup entry_wf_def sample_heights sample_skip [simplified])
qed

theorem next_modifier_succeeds_witness: "fst (ComputeNextStakeModifier sample_kernel_env stake_index (Some 11))"
proof (rule next_modifier_succeeds [OF stake_index_wf stake_lookup(2)])
  have "bi_nFlags (sample_entry (Some 10) (Some 10) 1 300) = 0" by (simp add: sample_entry_def)
  then show "GetLastStakeModifier stake_index (Some 11) =
      Some (bi_nStakeModifier ((sample_entry None None 0 100)\<lparr>bi_nFlags := 4\<rparr>), 100)"
    by (simp add: GetLastStakeModifier_def stake_lookup sample_heights GeneratedStakeModifier_def block_time_def)
qed



text \<open>
  As long as the product fits, a stake kernel hits its target exactly when its hash is below
  the target times the hundredth part of the value staked.
\<close>

theorem stake_target_exact:
  assumes "length T = WIDTH" "0 \<le> v" "v < 2 ^ 63" "nat (v div 100) * uval T < 2 ^ 256"
  shows "stakeTargetHit h v T \<longleftrightarrow> unat h < nat (v div 100) * uval T"
  using stakeTargetHit_iff [OF assms(1-3)] assms(4) by simp

theorem stake_target_exact_witness: "stakeTargetHit 0 100 (fst (SetCompact 0x1e0fffff))"
  using stake_target_exact [of "fst (SetCompact 0x1e0fffff)" 100 0] by (simp add: sample_target)

text \<open>
  The product wraps for amounts that exist: at the largest target a stake of \<open>2 ^ 40\<close>
  hundreds of satoshis (about a million coins) hits no hash at all, while a stake of one
  hundred satoshis does.
\<close>

theorem stake_weight_wraps:
  "\<not> stakeTargetHit h (100 * 2 ^ 40) (fst (SetCompact 0x1e0fffff)) \<and> stakeTargetHit 0 100 (fst (SetCompact 0x1e0fffff))"
  using stakeTargetHit_iff [of "fst (SetCompact 0x1e0fffff)" "100 * 2 ^ 40" h]
    stakeTargetHit_iff [of "fst (SetCompact 0x1e0fffff)" 100 0] by (simp add: sample_target)

text \<open>
  Two nodes that loaded the program at different addresses compute different stake
  modifiers for the first block after the genesis block.
\<close>

theorem first_modifier_is_address:
  assumes "idx p = Some bi" "bi_nHeight bi = 0" "kern_literal_address env \<noteq> kern_literal_address env'"
  shows "ComputeNextStakeModifier env idx (Some p) \<noteq> ComputeNextStakeModifier env' idx (Some p)"
  using assms by (simp add: ComputeNextStakeModifier_def)

theorem first_modifier_is_address_witness:
  "ComputeNextStakeModifier sample_kernel_env stake_index (Some 10) \<noteq>
   ComputeNextStakeModifier (sample_kernel_env\<lparr>kern_literal_address := 8\<rparr>) stake_index (Some 10)"
  by (rule first_modifier_is_address [of stake_index 10 "(sample_entry None None 0 100)\<lparr>bi_nFlags := 4\<rparr>"])
    (simp_all add: stake_lookup sample_heights sample_kernel_env_def)

text \<open>
  C16: \<^verbatim>\<open>CheckProofOfStake\<close> accepts a block exactly when its second transaction is a coinstake whose
  first input is authorised for the output it spends, the block that holds that output is indexed,
  readable and not newer, a stake modifier can be found for it, and the double digest of modifier,
  time of that block, index and hash of the output and time of the new block, read as a
  number, is below the hundredth part of the output's value times the target that the block's compact bits stand
  for, modulo \<open>2 ^ 256\<close>. The reported hash is that digest.
\<close>

theorem proof_of_stake_sound:
  "CheckProofOfStake env cr f now GetTransaction ReadBlock idx chain block h0 = Some (True, h) \<longleftrightarrow>
    2 \<le> length (blk_vtx block) \<and> IsCoinStake (blk_vtx block ! 1) \<and>
    (\<exists>txPrev hashBlock bi blockprev m.
      let tx = blk_vtx block ! 1; prevout = txin_prevout (tx_vin tx ! 0); out = tx_vout txPrev ! unat (outpoint_n prevout);
          bits = unat (hdr_nBits block);
          kernel = ser_word m @ ser_word (hdr_nTime blockprev) @ ser_word (outpoint_n prevout) @ ser_word (outpoint_hash prevout) @
            ser_word (hdr_nTime block)
      in
      GetTransaction (outpoint_hash prevout) = Some (txPrev, hashBlock) \<and> unat (outpoint_n prevout) < length (tx_vout txPrev) \<and>
      is_ok (VerifyScript (tx_env cr STANDARD_SCRIPT_VERIFY_FLAGS tx 0) (txin_scriptSig (tx_vin tx ! 0)) (txout_scriptPubKey out)) \<and>
      idx hashBlock = Some bi \<and> ReadBlock bi = Some blockprev \<and> hdr_nTime blockprev \<le> hdr_nTime block \<and>
      map_option fst (GetKernelStakeModifier env idx chain (block_GetHash f blockprev)) = Some m \<and>
      h = word_of_nat (le_val (kern_sha256 env (kern_sha256 env kernel))) \<and>
      unat h < nat (txout_nValue out mod 2 ^ 64) div 100 * (compact_value (bits div 2 ^ 24) (bits mod 2 ^ 23) mod 2 ^ 256) mod 2 ^ 256)"
  by (rule CheckProofOfStake_iff)

definition kernel_sph :: sph where
  "kernel_sph = \<lparr>sph_blake512 = (\<lambda>x. []), sph_bmw512 = (\<lambda>x. []), sph_groestl512 = (\<lambda>x. []), sph_jh512 = (\<lambda>x. []),
     sph_keccak512 = (\<lambda>x. []), sph_skein512 = (\<lambda>x. [])\<rparr>"

definition kernel_index :: BlockMap where
  "kernel_index = [0 \<mapsto> sample_entry None None 0 100, 11 \<mapsto> (sample_entry (Some 0) (Some 0) 1 100000)\<lparr>bi_nFlags := 4\<rparr>]"

definition kernel_prev :: CTransaction where
  "kernel_prev = sample_stake_tx\<lparr>tx_vout := [\<lparr>txout_nValue = 100, txout_scriptPubKey = [OP_1]\<rparr>]\<rparr>"

definition kernel_block :: CBlock where
  "kernel_block = sample_stake_block\<lparr>hdr_nBits := 0x1e0fffff, hdr_nTime := 500\<rparr>"

lemma kernel_hash: "block_GetHash kernel_sph b = 0"
  by (simp add: block_GetHash_def HashQuark_def kernel_sph_def Let_def trim256_def)

lemma section_le: "GetStakeModifierSelectionIntervalSection t n \<le> 60"
proof -
  have "60 * 63 div (63 + (63 - n) * 2) \<le> 60 * 63 div (63 :: nat)" by (rule div_le_mono2) simp_all
  then show ?thesis by (simp add: GetStakeModifierSelectionIntervalSection_def getIntervalVersion_def)
qed

lemma selection_interval_le: "GetStakeModifierSelectionInterval t \<le> 3840"
proof -
  have "fold (\<lambda>s n. n + GetStakeModifierSelectionIntervalSection t s) xs a \<le> a + 60 * length xs" for xs a
  proof (induction xs arbitrary: a)
    case (Cons x xs)
    show ?case using Cons [of "a + GetStakeModifierSelectionIntervalSection t x"] section_le [of t x] by simp
  qed simp
  from this [of "[0..<64]" 0] show ?thesis by (simp add: GetStakeModifierSelectionInterval_def)
qed

lemma kernel_modifier: "\<exists>m. GetKernelStakeModifier env kernel_index [Some 0, Some 11] 0 = Some m"
proof -
  define n where "n = GetStakeModifierSelectionInterval (kern_fTestNet env)"
  have n: "n \<le> 3840" unfolding n_def by (rule selection_interval_le)
  have x: "kernel_index 0 = Some (sample_entry None None 0 100)"
    "kernel_index 11 = Some ((sample_entry (Some 0) (Some 0) 1 100000)\<lparr>bi_nFlags := 4\<rparr>)"
    by (simp_all add: kernel_index_def)
  have l: "length [Some (0 :: u256), Some 11] + 1 = Suc (Suc (Suc 0))" by simp
  show ?thesis
    unfolding GetKernelStakeModifier_def x option.case n_def [symmetric] l
    using n by (simp add: x sample_heights block_time_def chain_at_def GeneratedStakeModifier_def)
qed

lemma kernel_script:
  "is_ok (VerifyScript (tx_env sample_crypto STANDARD_SCRIPT_VERIFY_FLAGS tx 0) [] [OP_1])"
proof -
  have "CScriptNum_serialize 1 = [1]"
    by (simp add: CScriptNum_serialize_def scriptnum_bytes.simps)
  then show ?thesis
    by (simp add: VerifyScript_def tx_env_def EvalScript_def init_state_def
        eval_loop_op is_disabled_def fExec_def exec_opcode_def exec_push_num_def count_op_def has_flag_def
        fRequireMinimal_def IsPayToScriptHash_def)
qed

lemma kernel_run:
  "\<exists>h. CheckProofOfStake (sample_kernel_env\<lparr>kern_sha256 := \<lambda>x. []\<rparr>) sample_crypto kernel_sph 0 (\<lambda>h. Some (kernel_prev, 0))
     (\<lambda>bi. Some sample_stake_block) kernel_index [Some 0, Some 11] kernel_block 0 = Some (True, h)"
proof -
  define env where "env = sample_kernel_env\<lparr>kern_sha256 := \<lambda>x. []\<rparr>"
  obtain m ht t where m: "GetKernelStakeModifier env kernel_index [Some 0, Some 11] 0 = Some (m, ht, t)"
    using kernel_modifier [of env] by (metis prod_cases3)
  have h: "stakeHash env a m' c d e = 0" for a m' c d e
    by (simp add: stakeHash_def env_def Hash_def)
  have t: "stakeTargetHit 0 100 (fst (SetCompact 0x1e0fffff))"
    using stakeTargetHit_iff [of "fst (SetCompact 0x1e0fffff)" 100 0] by (simp add: sample_target)
  have b: "blk_vtx kernel_block = [sample_stake_tx, sample_stake_tx]" "hdr_nBits kernel_block = 0x1e0fffff"
    "hdr_nTime kernel_block = 500" "hdr_nTime sample_stake_block = 0"
    by (simp_all add: kernel_block_def sample_stake_block_def CBlockHeader.extend_def CBlockHeader_null_def)
  have s: "IsCoinStake sample_stake_tx"
    by (simp add: sample_stake_tx_def IsCoinStake_def COutPoint_IsNull_def CTxOut_IsEmpty_def)
  have v: "tx_vin sample_stake_tx = [\<lparr>txin_prevout = \<lparr>outpoint_hash = 5, outpoint_n = 0\<rparr>, txin_scriptSig = [], txin_nSequence = 0\<rparr>]"
    "tx_vout kernel_prev = [\<lparr>txout_nValue = 100, txout_scriptPubKey = [OP_1]\<rparr>]"
    by (simp_all add: sample_stake_tx_def kernel_prev_def)
  have k: "\<exists>bi. kernel_index 0 = Some bi" by (simp add: kernel_index_def)
  show ?thesis
    unfolding env_def [symmetric] using k
    by (auto simp: CheckProofOfStake_def CheckStakeKernelHash_def b s v kernel_script [simplified] kernel_hash m h t Let_def)
qed

theorem proof_of_stake_sound_witness:
  "IsCoinStake (blk_vtx kernel_block ! 1) \<and>
   (\<exists>h. CheckProofOfStake (sample_kernel_env\<lparr>kern_sha256 := \<lambda>x. []\<rparr>) sample_crypto kernel_sph 0 (\<lambda>h. Some (kernel_prev, 0))
     (\<lambda>bi. Some sample_stake_block) kernel_index [Some 0, Some 11] kernel_block 0 = Some (True, h) \<and> unat h < 2 ^ 256)"
proof -
  obtain h where h: "CheckProofOfStake (sample_kernel_env\<lparr>kern_sha256 := \<lambda>x. []\<rparr>) sample_crypto kernel_sph 0 (\<lambda>h. Some (kernel_prev, 0))
     (\<lambda>bi. Some sample_stake_block) kernel_index [Some 0, Some 11] kernel_block 0 = Some (True, h)" using kernel_run by blast
  then have "IsCoinStake (blk_vtx kernel_block ! 1)" using h [unfolded proof_of_stake_sound] by simp
  moreover have "unat h < 2 ^ 256" using unsigned_less [of h] by simp
  ultimately show ?thesis using h by blast
qed

text \<open>
  The index of the output that a coinstake says it spends comes from the block, and is
  used without a test: when the transaction it names has fewer outputs, the check reads
  outside of the vector, before any signature is verified.
\<close>

theorem stake_output_index_unchecked:
  assumes "length (blk_vtx block) \<ge> 2" "IsCoinStake (blk_vtx block ! 1)"
    and "prevout = txin_prevout (tx_vin (blk_vtx block ! 1) ! 0)"
    and "GetTransaction (outpoint_hash prevout) = Some (txPrev, hashBlock)"
  shows "CheckProofOfStake env cr f now GetTransaction ReadBlock idx chain block h0 = None \<longleftrightarrow>
    unat (outpoint_n prevout) \<ge> length (tx_vout txPrev)"
  using assms by (auto simp: CheckProofOfStake_def CheckStakeKernelHash_def Let_def split: option.splits)

end
