(* ===== verification/BlockTree.thy ===== *)
theory BlockTree
  imports Kernel
begin

unbundle bit_operations_syntax

text \<open>
  The tree of blocks and the choice of the best branch (main.cpp): adding a header to the
  index, receiving the transactions of a block and linking the blocks that waited for it,
  finding the branch with the most work, and marking blocks as failed or valid again.
  File positions are those that the caller passes; log output is left out.
\<close>

section \<open>State\<close>

text \<open>
  The globals of main.cpp. \<^verbatim>\<open>setBlockIndexCandidates\<close> is a list in the order of its comparator,
  \<^verbatim>\<open>mapBlocksUnlinked\<close> the list of its pairs in the order of insertion.
\<close>

record index_state =
  st_mapBlockIndex :: BlockMap
  st_chainActive :: CChain
  st_setBlockIndexCandidates :: "u256 list"
  st_mapBlocksUnlinked :: "(bptr \<times> u256) list"
  st_nBlockSequenceId :: u32
  st_pindexBestHeader :: bptr
  st_pindexBestInvalid :: bptr
  st_setDirtyBlockIndex :: "u256 set"
  st_setStakeSeen :: "(COutPoint \<times> u32) set"
  st_mapProofOfStake :: "u256 \<rightharpoonup> u256"

text \<open>
  The comparator on pointers, and the operations of \<^verbatim>\<open>std::set\<close> with it. Different entries are
  never equivalent, because the comparator ends with their addresses; erasing a key therefore
  erases that pointer.
\<close>

definition less_at :: "(u256 \<Rightarrow> nat) \<Rightarrow> BlockMap \<Rightarrow> u256 \<Rightarrow> u256 \<Rightarrow> bool" where
  "less_at addr idx a b =
     (case (idx a, idx b) of (Some x, Some y) \<Rightarrow> WorkComparator addr (a, x) (b, y) | _ \<Rightarrow> False)"

fun set_insert :: "('a \<Rightarrow> 'a \<Rightarrow> bool) \<Rightarrow> 'a \<Rightarrow> 'a list \<Rightarrow> 'a list" where
  "set_insert lt x [] = [x]"
| "set_insert lt x (y # ys) =
     (if lt x y then x # y # ys else if lt y x then y # set_insert lt x ys else y # ys)"

definition set_erase :: "'a \<Rightarrow> 'a list \<Rightarrow> 'a list" where
  "set_erase x ys = filter (\<lambda>y. y \<noteq> x) ys"

definition chain_tip :: "CChain \<Rightarrow> bptr" where
  "chain_tip vChain = (if length vChain > 0 then vChain ! (length vChain - 1) else None)"

section \<open>Adding a block to the index\<close>

text \<open>\<^verbatim>\<open>SetNull\<close>, which leaves \<^verbatim>\<open>pnext\<close> uninitialised; it is taken to be null here.\<close>

definition CBlockIndex_null :: CBlockIndex where
  "CBlockIndex_null =
     \<lparr>bi_pprev = None, bi_pnext = None, bi_pskip = None, bi_bnChainTrust = uint_of_int 0, bi_nHeight = 0,
      bi_nFile = 0, bi_nDataPos = 0, bi_nUndoPos = 0, bi_nChainWork = uint_of_int 0, bi_nTx = 0, bi_nChainTx = 0,
      bi_nStatus = 0, bi_nFlags = 0, bi_nStakeModifier = 0, bi_nStakeModifierChecksum = 0,
      bi_prevoutStake = \<lparr>outpoint_hash = 0, outpoint_n = - 1\<rparr>, bi_nStakeTime = 0, bi_hashProofOfStake = 0,
      bi_nMint = 0, bi_nMoneySupply = 0, bi_nVersion = 0, bi_hashMerkleRoot = 0, bi_nTime = 0, bi_nBits = 0,
      bi_nNonce = 0, bi_nSequenceId = 0\<rparr>"

definition CBlockIndex_new :: "CBlock \<Rightarrow> CBlockIndex" where
  "CBlockIndex_new block =
     (let bi = CBlockIndex_null
            \<lparr>bi_nVersion := hdr_nVersion block, bi_hashMerkleRoot := hdr_hashMerkleRoot block,
             bi_nTime := hdr_nTime block, bi_nBits := hdr_nBits block, bi_nNonce := hdr_nNonce block\<rparr>
      in if block_IsProofOfStake block
         then (SetProofOfStake bi)
           \<lparr>bi_prevoutStake := txin_prevout (tx_vin (blk_vtx block ! 1) ! 0), bi_nStakeTime := hdr_nTime block\<rparr>
         else bi)"

text \<open>
  The part of \<^verbatim>\<open>AddToBlockIndex\<close> for a block with an indexed predecessor \<open>q\<close>, whose entry is \<open>bq\<close>.
  Failures of the stake modifier are only logged.
\<close>

definition link_prev :: "kernel_env \<Rightarrow> BlockMap \<Rightarrow> u256 option \<Rightarrow> u256 \<Rightarrow> u256 \<Rightarrow> CBlockIndex \<Rightarrow> CBlockIndex \<Rightarrow> CBlockIndex option" where
  "link_prev env idx proof hash q bq bi =
     (let bi = BuildSkip idx (bi\<lparr>bi_pprev := Some q, bi_nHeight := bi_nHeight bq + 1\<rparr>) in
      case GetBlockTrust bi of
        None \<Rightarrow> None
      | Some trust \<Rightarrow>
          let bi = bi\<lparr>bi_bnChainTrust := uint_add (bi_bnChainTrust bq) trust\<rparr>;
              bi = snd (SetStakeEntropyBit (GetStakeEntropyBit hash) bi);
              bi = (if index_IsProofOfStake bi then bi\<lparr>bi_hashProofOfStake := (case proof of None \<Rightarrow> 0 | Some h \<Rightarrow> h)\<rparr> else bi)
          in (case ComputeNextStakeModifier env idx (Some q) of
                (_, nStakeModifier, fGeneratedStakeModifier) \<Rightarrow>
                  let bi = SetStakeModifier nStakeModifier fGeneratedStakeModifier bi
                  in Some (bi\<lparr>bi_nStakeModifierChecksum := GetStakeModifierChecksum env idx bi\<rparr>)))"

text \<open>
  \<^verbatim>\<open>AddToBlockIndex\<close>, with the hash of the block; \<open>None\<close> is an exception. The new entry is in the map
  before the predecessor is looked up. \<^verbatim>\<open>mapProofOfStake[hash]\<close> inserts a zero for a missing key.
\<close>

definition AddToBlockIndex :: "kernel_env \<Rightarrow> u256 \<Rightarrow> CBlock \<Rightarrow> index_state \<Rightarrow> (u256 \<times> index_state) option" where
  "AddToBlockIndex env hash block st =
     (if st_mapBlockIndex st hash \<noteq> None then Some (hash, st)
      else
        let bi = CBlockIndex_new block;
            idx = (st_mapBlockIndex st)(hash \<mapsto> bi);
            seen = (if index_IsProofOfStake bi then insert (bi_prevoutStake bi, bi_nStakeTime bi) (st_setStakeSeen st)
                    else st_setStakeSeen st);
            proofs = st_mapProofOfStake st;
            q = hdr_hashPrevBlock block
        in (case (case idx q of None \<Rightarrow> Some bi | Some bq \<Rightarrow> link_prev env idx (proofs hash) hash q bq bi) of
              None \<Rightarrow> None
            | Some bi \<Rightarrow>
                (case GetBlockProof (bi_nBits bi) of
                   None \<Rightarrow> None
                 | Some work \<Rightarrow>
                     let prevWork = (case Option.bind (bi_pprev bi) idx of None \<Rightarrow> uint_of_int 0 | Some bq \<Rightarrow> bi_nChainWork bq);
                         bi = snd (RaiseValidity BLOCK_VALID_TREE (bi\<lparr>bi_nChainWork := uint_add prevWork work\<rparr>));
                         best = (case Option.bind (st_pindexBestHeader st) idx of
                                   None \<Rightarrow> Some hash
                                 | Some b \<Rightarrow> if CompareTo (bi_nChainWork b) (bi_nChainWork bi) < 0 then Some hash
                                             else st_pindexBestHeader st);
                         idx = (case idx q of None \<Rightarrow> idx | Some bq \<Rightarrow> idx(q \<mapsto> bq\<lparr>bi_pnext := Some hash\<rparr>))
                     in Some (hash, st\<lparr>
                          st_mapBlockIndex := idx(hash \<mapsto> bi), st_setStakeSeen := seen,
                          st_mapProofOfStake :=
                            (if bi_pprev bi \<noteq> None \<and> index_IsProofOfStake bi \<and> proofs hash = None
                             then proofs(hash \<mapsto> 0) else proofs),
                          st_pindexBestHeader := best,
                          st_setDirtyBlockIndex := insert hash (st_setDirtyBlockIndex st)\<rparr>))))"

section \<open>Receiving the transactions of a block\<close>

text \<open>
  The queue of \<^verbatim>\<open>ReceivedBlockTransactions\<close>. A block that is linked releases the blocks that
  waited for it.
\<close>

definition link_block :: "(u256 \<Rightarrow> nat) \<Rightarrow> u256 \<Rightarrow> CBlockIndex \<Rightarrow> index_state \<Rightarrow> index_state" where
  "link_block addr p bi st =
     (let prevTx = (case Option.bind (bi_pprev bi) (st_mapBlockIndex st) of None \<Rightarrow> 0 | Some bq \<Rightarrow> bi_nChainTx bq);
          idx = (st_mapBlockIndex st)(p \<mapsto> bi\<lparr>bi_nChainTx := prevTx + bi_nTx bi, bi_nSequenceId := st_nBlockSequenceId st\<rparr>);
          tip = chain_tip (st_chainActive st)
      in st\<lparr>st_mapBlockIndex := idx, st_nBlockSequenceId := st_nBlockSequenceId st + 1,
            st_setBlockIndexCandidates :=
              (if (case tip of None \<Rightarrow> True | Some t \<Rightarrow> \<not> less_at addr idx p t)
               then set_insert (less_at addr idx) p (st_setBlockIndexCandidates st) else st_setBlockIndexCandidates st),
            st_mapBlocksUnlinked := filter (\<lambda>(a, b). a \<noteq> Some p) (st_mapBlocksUnlinked st)\<rparr>)"

definition released :: "u256 \<Rightarrow> index_state \<Rightarrow> u256 list" where
  "released p st = map snd (filter (\<lambda>(a, b). a = Some p) (st_mapBlocksUnlinked st))"

lemma unlinked_link_block [simp]:
  "st_mapBlocksUnlinked (link_block addr p bi st) = filter (\<lambda>(a, b). a \<noteq> Some p) (st_mapBlocksUnlinked st)"
  by (simp add: link_block_def Let_def)

lemma length_released:
  "length (released p st) + length (filter (\<lambda>(a, b). a \<noteq> Some p) (st_mapBlocksUnlinked st)) =
    length (st_mapBlocksUnlinked st)"
  using sum_length_filter_compl [of "\<lambda>(a, b). a = Some p" "st_mapBlocksUnlinked st"]
  by (simp add: released_def case_prod_unfold)

function link_loop :: "(u256 \<Rightarrow> nat) \<Rightarrow> u256 list \<Rightarrow> index_state \<Rightarrow> index_state" where
  "link_loop addr [] st = st"
| "link_loop addr (p # queue) st =
     (case st_mapBlockIndex st p of
        None \<Rightarrow> st
      | Some bi \<Rightarrow> link_loop addr (queue @ released p st) (link_block addr p bi st))"
  by pat_completeness auto
termination
proof (relation "measure (\<lambda>(addr, queue, st). length queue + length (st_mapBlocksUnlinked st))", goal_cases)
  case (2 addr p queue st bi)
  show ?case using length_released [of p st] by simp
qed simp

definition ReceivedBlockTransactions :: "(u256 \<Rightarrow> nat) \<Rightarrow> CBlock \<Rightarrow> u256 \<Rightarrow> int \<times> u32 \<Rightarrow> index_state \<Rightarrow> index_state option" where
  "ReceivedBlockTransactions addr block p pos st =
     (case st_mapBlockIndex st p of
        None \<Rightarrow> None
      | Some bi \<Rightarrow>
          let bi = (if block_IsProofOfStake block then SetProofOfStake bi else bi);
              bi = snd (RaiseValidity BLOCK_VALID_TRANSACTIONS
                     (bi\<lparr>bi_nTx := word_of_nat (length (blk_vtx block)), bi_nChainTx := 0, bi_nFile := fst pos,
                         bi_nDataPos := snd pos, bi_nUndoPos := 0, bi_nStatus := bi_nStatus bi OR BLOCK_HAVE_DATA\<rparr>));
              st = st\<lparr>st_mapBlockIndex := (st_mapBlockIndex st)(p \<mapsto> bi),
                      st_setDirtyBlockIndex := insert p (st_setDirtyBlockIndex st)\<rparr>
          in (case bi_pprev bi of
                None \<Rightarrow> Some (link_loop addr [p] st)
              | Some q \<Rightarrow>
                  (case st_mapBlockIndex st q of
                     None \<Rightarrow> None
                   | Some bq \<Rightarrow>
                       if bi_nChainTx bq \<noteq> 0 then Some (link_loop addr [p] st)
                       else if index_IsValid BLOCK_VALID_TREE bq
                       then Some (st\<lparr>st_mapBlocksUnlinked := st_mapBlocksUnlinked st @ [(Some q, p)]\<rparr>)
                       else Some st)))"

section \<open>The branch with the most work\<close>

text \<open>
  The walk of \<^verbatim>\<open>FindMostWorkChain\<close> from a candidate to the active chain: the first block that failed
  or has no data, if any; \<open>None\<close> is the failed assertion.
\<close>

fun bad_ancestor :: "nat \<Rightarrow> BlockMap \<Rightarrow> CChain \<Rightarrow> bptr \<Rightarrow> bptr option" where
  "bad_ancestor 0 idx vChain pindexTest = None"
| "bad_ancestor (Suc fuel) idx vChain pindexTest =
     (case pindexTest of
        None \<Rightarrow> Some None
      | Some p \<Rightarrow>
          if Contains idx vChain p then Some None
          else
            (case idx p of
               None \<Rightarrow> None
             | Some bi \<Rightarrow>
                 if \<not> (bi_nChainTx bi \<noteq> 0 \<or> bi_nHeight bi = 0) then None
                 else if bi_nStatus bi AND BLOCK_FAILED_MASK \<noteq> 0 \<or> bi_nStatus bi AND BLOCK_HAVE_DATA = 0 then Some (Some p)
                 else bad_ancestor fuel idx vChain (bi_pprev bi)))"

text \<open>The loop that takes the blocks above the bad one out of the candidates.\<close>

fun drop_chain :: "nat \<Rightarrow> bool \<Rightarrow> u256 \<Rightarrow> bptr \<Rightarrow> index_state \<Rightarrow> index_state" where
  "drop_chain 0 fFailedChain test failed st = st"
| "drop_chain (Suc fuel) fFailedChain test failed st =
     (case failed of
        None \<Rightarrow> st
      | Some p \<Rightarrow>
          if p = test then st
          else
            (case st_mapBlockIndex st p of
               None \<Rightarrow> st
             | Some bi \<Rightarrow>
                 let st = (if fFailedChain
                           then st\<lparr>st_mapBlockIndex := (st_mapBlockIndex st)
                                     (p \<mapsto> bi\<lparr>bi_nStatus := bi_nStatus bi OR BLOCK_FAILED_CHILD\<rparr>)\<rparr>
                           else st\<lparr>st_mapBlocksUnlinked := st_mapBlocksUnlinked st @ [(bi_pprev bi, p)]\<rparr>)
                 in drop_chain fuel fFailedChain test (bi_pprev bi)
                      (st\<lparr>st_setBlockIndexCandidates := set_erase p (st_setBlockIndexCandidates st)\<rparr>)))"

definition drop_candidate :: "u256 \<Rightarrow> CBlockIndex \<Rightarrow> u256 \<Rightarrow> index_state \<Rightarrow> index_state" where
  "drop_candidate new bn test st =
     (let fFailedChain = (case st_mapBlockIndex st test of None \<Rightarrow> False | Some bt \<Rightarrow> bi_nStatus bt AND BLOCK_FAILED_MASK \<noteq> 0);
          st = (if fFailedChain \<and>
                  (case Option.bind (st_pindexBestInvalid st) (st_mapBlockIndex st) of
                     None \<Rightarrow> True | Some b \<Rightarrow> CompareTo (bi_nChainWork bn) (bi_nChainWork b) > 0)
                then st\<lparr>st_pindexBestInvalid := Some new\<rparr> else st);
          st = drop_chain (bi_nHeight bn + 1) fFailedChain test (Some new) st
      in st\<lparr>st_setBlockIndexCandidates := set_erase test (st_setBlockIndexCandidates st)\<rparr>)"

text \<open>Dropping a candidate filters the set; what is dropped contains the candidate.\<close>

lemma drop_chain_cands:
  "\<exists>D. st_setBlockIndexCandidates (drop_chain fuel f test p st) = filter (\<lambda>q. q \<notin> D) (st_setBlockIndexCandidates st)"
proof (induction fuel arbitrary: f p st)
  case 0
  show ?case by (rule exI [of _ "{}"]) simp
next
  case (Suc fuel)
  have s: "\<exists>D. st_setBlockIndexCandidates st = filter (\<lambda>q. q \<notin> D) (st_setBlockIndexCandidates st)" by (rule exI [of _ "{}"]) simp
  show ?case
  proof (cases "\<exists>q bi. p = Some q \<and> q \<noteq> test \<and> st_mapBlockIndex st q = Some bi")
    case True
    then obtain q bi where q: "p = Some q" "q \<noteq> test" "st_mapBlockIndex st q = Some bi" by blast
    define st1 where "st1 = (if f then st\<lparr>st_mapBlockIndex := (st_mapBlockIndex st)(q \<mapsto> bi\<lparr>bi_nStatus := bi_nStatus bi OR BLOCK_FAILED_CHILD\<rparr>)\<rparr>
      else st\<lparr>st_mapBlocksUnlinked := st_mapBlocksUnlinked st @ [(bi_pprev bi, q)]\<rparr>)"
    have c: "st_setBlockIndexCandidates st1 = st_setBlockIndexCandidates st" by (simp add: st1_def)
    obtain D where "st_setBlockIndexCandidates (drop_chain fuel f test (bi_pprev bi)
        (st1\<lparr>st_setBlockIndexCandidates := set_erase q (st_setBlockIndexCandidates st1)\<rparr>)) =
        filter (\<lambda>q. q \<notin> D) (set_erase q (st_setBlockIndexCandidates st))"
      using Suc [of f "bi_pprev bi" "st1\<lparr>st_setBlockIndexCandidates := set_erase q (st_setBlockIndexCandidates st1)\<rparr>"] c by auto
    then show ?thesis
      using q by (intro exI [of _ "insert q D"]) (simp add: st1_def [symmetric] Let_def set_erase_def conj_commute)
  qed (use s in \<open>auto split: option.splits\<close>)
qed

lemma drop_chain_cands_Suc:
  assumes "p \<noteq> test" "st_mapBlockIndex st p = Some bi"
  shows "\<exists>D. p \<in> D \<and> st_setBlockIndexCandidates (drop_chain (Suc fuel) f test (Some p) st) = filter (\<lambda>q. q \<notin> D) (st_setBlockIndexCandidates st)"
proof -
  define st1 where "st1 = (if f then st\<lparr>st_mapBlockIndex := (st_mapBlockIndex st)(p \<mapsto> bi\<lparr>bi_nStatus := bi_nStatus bi OR BLOCK_FAILED_CHILD\<rparr>)\<rparr>
    else st\<lparr>st_mapBlocksUnlinked := st_mapBlocksUnlinked st @ [(bi_pprev bi, p)]\<rparr>)"
  define st2 where "st2 = st1\<lparr>st_setBlockIndexCandidates := set_erase p (st_setBlockIndexCandidates st1)\<rparr>"
  have c: "st_setBlockIndexCandidates st2 = set_erase p (st_setBlockIndexCandidates st)" by (simp add: st1_def st2_def)
  obtain D where D: "st_setBlockIndexCandidates (drop_chain fuel f test (bi_pprev bi) st2) = filter (\<lambda>q. q \<notin> D) (set_erase p (st_setBlockIndexCandidates st))"
    using drop_chain_cands [of fuel f test "bi_pprev bi" st2] c by auto
  have "drop_chain (Suc fuel) f test (Some p) st = drop_chain fuel f test (bi_pprev bi) st2"
    using assms by (simp add: st1_def st2_def Let_def)
  with D show ?thesis
    by (intro exI [of _ "insert p D"]) (simp add: set_erase_def conj_commute)
qed

lemma drop_candidate_cands:
  assumes "st_mapBlockIndex st new = Some bn"
  shows "\<exists>D. new \<in> D \<and> st_setBlockIndexCandidates (drop_candidate new bn test st) = filter (\<lambda>q. q \<notin> D) (st_setBlockIndexCandidates st)"
proof -
  define f where "f = (case st_mapBlockIndex st test of None \<Rightarrow> False | Some bt \<Rightarrow> bi_nStatus bt AND BLOCK_FAILED_MASK \<noteq> 0)"
  define st1 where "st1 = (if f \<and> (case Option.bind (st_pindexBestInvalid st) (st_mapBlockIndex st) of
        None \<Rightarrow> True | Some b \<Rightarrow> CompareTo (bi_nChainWork bn) (bi_nChainWork b) > 0)
      then st\<lparr>st_pindexBestInvalid := Some new\<rparr> else st)"
  have st1: "st_setBlockIndexCandidates st1 = st_setBlockIndexCandidates st" "st_mapBlockIndex st1 = st_mapBlockIndex st"
    by (simp_all add: st1_def)
  have d: "st_setBlockIndexCandidates (drop_candidate new bn test st) =
      set_erase test (st_setBlockIndexCandidates (drop_chain (Suc (bi_nHeight bn)) f test (Some new) st1))"
    by (simp add: drop_candidate_def f_def st1_def Let_def)
  show ?thesis
  proof (cases "new = test")
    case True
    then have "st_setBlockIndexCandidates (drop_candidate new bn test st) = filter (\<lambda>q. q \<notin> {new}) (st_setBlockIndexCandidates st)"
      using d st1 by (simp add: set_erase_def)
    then show ?thesis by blast
  next
    case False
    obtain D where "new \<in> D" "st_setBlockIndexCandidates (drop_chain (Suc (bi_nHeight bn)) f test (Some new) st1) =
        filter (\<lambda>q. q \<notin> D) (st_setBlockIndexCandidates st)"
      using drop_chain_cands_Suc [of new test st1 bn "bi_nHeight bn" f] False assms st1 by auto
    then show ?thesis
      using d by (intro exI [of _ "insert test D"]) (simp add: set_erase_def conj_commute)
  qed
qed

lemma drop_candidate_less:
  assumes "new \<in> set (st_setBlockIndexCandidates st)" "st_mapBlockIndex st new = Some bn"
  shows "length (st_setBlockIndexCandidates (drop_candidate new bn test st)) < length (st_setBlockIndexCandidates st)"
proof -
  obtain D where "new \<in> D" "st_setBlockIndexCandidates (drop_candidate new bn test st) = filter (\<lambda>q. q \<notin> D) (st_setBlockIndexCandidates st)"
    using drop_candidate_cands [OF assms(2)] by blast
  then show ?thesis using length_filter_less [of new "st_setBlockIndexCandidates st" "\<lambda>q. q \<notin> D"] assms(1) by simp
qed

text \<open>\<^verbatim>\<open>FindMostWorkChain\<close>; the outer option is a failed assertion, the inner one the null pointer.\<close>

function FindMostWorkChain :: "index_state \<Rightarrow> (bptr \<times> index_state) option" where
  "FindMostWorkChain st =
     (if st_setBlockIndexCandidates st = [] then Some (None, st)
      else
        let new = last (st_setBlockIndexCandidates st) in
        (case st_mapBlockIndex st new of
           None \<Rightarrow> None
         | Some bn \<Rightarrow>
             (case bad_ancestor (bi_nHeight bn + 2) (st_mapBlockIndex st) (st_chainActive st) (Some new) of
                None \<Rightarrow> None
              | Some None \<Rightarrow> Some (Some new, st)
              | Some (Some test) \<Rightarrow> FindMostWorkChain (drop_candidate new bn test st))))"
  by pat_completeness auto
termination
  by (relation "measure (\<lambda>st. length (st_setBlockIndexCandidates st))") (auto intro: drop_candidate_less)

declare FindMostWorkChain.simps [simp del]

text \<open>\<^verbatim>\<open>PruneBlockIndexCandidates\<close>; \<open>None\<close> is the failed assertion.\<close>

definition PruneBlockIndexCandidates :: "(u256 \<Rightarrow> nat) \<Rightarrow> index_state \<Rightarrow> index_state option" where
  "PruneBlockIndexCandidates addr st =
     (let cs = (case chain_tip (st_chainActive st) of
                  None \<Rightarrow> st_setBlockIndexCandidates st
                | Some t \<Rightarrow> dropWhile (\<lambda>c. less_at addr (st_mapBlockIndex st) c t) (st_setBlockIndexCandidates st))
      in if cs = [] then None else Some (st\<lparr>st_setBlockIndexCandidates := cs\<rparr>))"

section \<open>Failed blocks\<close>

definition InvalidChainFound :: "u256 \<Rightarrow> index_state \<Rightarrow> index_state" where
  "InvalidChainFound p st =
     (case (st_mapBlockIndex st p, Option.bind (st_pindexBestInvalid st) (st_mapBlockIndex st)) of
        (Some bn, Some b) \<Rightarrow>
          if CompareTo (bi_nChainWork bn) (bi_nChainWork b) > 0 then st\<lparr>st_pindexBestInvalid := Some p\<rparr> else st
      | (Some bn, None) \<Rightarrow> st\<lparr>st_pindexBestInvalid := Some p\<rparr>
      | (None, _) \<Rightarrow> st)"

text \<open>The part of \<^verbatim>\<open>InvalidBlockFound\<close> that concerns the index; \<open>corruption\<close> is \<^verbatim>\<open>state.CorruptionPossible()\<close>.\<close>

definition InvalidBlockFound :: "bool \<Rightarrow> u256 \<Rightarrow> index_state \<Rightarrow> index_state" where
  "InvalidBlockFound corruption p st =
     (case st_mapBlockIndex st p of
        None \<Rightarrow> st
      | Some bi \<Rightarrow>
          if corruption then st
          else InvalidChainFound p (st\<lparr>
            st_mapBlockIndex := (st_mapBlockIndex st)(p \<mapsto> bi\<lparr>bi_nStatus := bi_nStatus bi OR BLOCK_FAILED_VALID\<rparr>),
            st_setDirtyBlockIndex := insert p (st_setDirtyBlockIndex st),
            st_setBlockIndexCandidates := set_erase p (st_setBlockIndexCandidates st)\<rparr>))"

text \<open>\<^verbatim>\<open>ReconsiderBlock\<close>: \<open>entries\<close> is the order in which the map is iterated.\<close>

definition clear_failed :: "CBlockIndex \<Rightarrow> CBlockIndex" where
  "clear_failed bi = bi\<lparr>bi_nStatus := bi_nStatus bi AND NOT BLOCK_FAILED_MASK\<rparr>"

definition reconsider_entry :: "(u256 \<Rightarrow> nat) \<Rightarrow> u256 \<Rightarrow> int \<Rightarrow> u256 \<Rightarrow> index_state \<Rightarrow> index_state" where
  "reconsider_entry addr p nHeight e st =
     (case st_mapBlockIndex st e of
        None \<Rightarrow> st
      | Some be \<Rightarrow>
          if \<not> index_IsValid BLOCK_VALID_TRANSACTIONS be \<and> GetAncestor (st_mapBlockIndex st) e nHeight = Some p
          then
            let be = clear_failed be;
                idx = (st_mapBlockIndex st)(e \<mapsto> be);
                tip = chain_tip (st_chainActive st)
            in st\<lparr>st_mapBlockIndex := idx, st_setDirtyBlockIndex := insert e (st_setDirtyBlockIndex st),
                  st_setBlockIndexCandidates :=
                    (if index_IsValid BLOCK_VALID_TRANSACTIONS be \<and> bi_nChainTx be \<noteq> 0 \<and>
                       (case tip of None \<Rightarrow> False | Some t \<Rightarrow> less_at addr idx t e)
                     then set_insert (less_at addr idx) e (st_setBlockIndexCandidates st) else st_setBlockIndexCandidates st),
                  st_pindexBestInvalid := (if st_pindexBestInvalid st = Some e then None else st_pindexBestInvalid st)\<rparr>
          else st)"

fun reconsider_ancestors :: "nat \<Rightarrow> bptr \<Rightarrow> index_state \<Rightarrow> index_state" where
  "reconsider_ancestors 0 pindex st = st"
| "reconsider_ancestors (Suc fuel) pindex st =
     (case pindex of
        None \<Rightarrow> st
      | Some p \<Rightarrow>
          (case st_mapBlockIndex st p of
             None \<Rightarrow> st
           | Some bi \<Rightarrow>
               reconsider_ancestors fuel (bi_pprev bi)
                 (if bi_nStatus bi AND BLOCK_FAILED_MASK \<noteq> 0
                  then st\<lparr>st_mapBlockIndex := (st_mapBlockIndex st)(p \<mapsto> clear_failed bi),
                          st_setDirtyBlockIndex := insert p (st_setDirtyBlockIndex st)\<rparr>
                  else st)))"

definition ReconsiderBlock :: "(u256 \<Rightarrow> nat) \<Rightarrow> u256 list \<Rightarrow> u256 \<Rightarrow> index_state \<Rightarrow> index_state" where
  "ReconsiderBlock addr entries p st =
     (case st_mapBlockIndex st p of
        None \<Rightarrow> st
      | Some bi \<Rightarrow>
          reconsider_ancestors (bi_nHeight bi + 1) (Some p)
            (fold (reconsider_entry addr p (int (bi_nHeight bi))) entries st))"

section \<open>Changes that keep the tree\<close>

text \<open>The members of an entry that make up the tree.\<close>

definition links :: "CBlockIndex \<Rightarrow> bptr \<times> bptr \<times> nat" where
  "links bi = (bi_pprev bi, bi_pskip bi, bi_nHeight bi)"

definition same_links :: "BlockMap \<Rightarrow> BlockMap \<Rightarrow> bool" where
  "same_links idx idx' \<longleftrightarrow> (\<forall>p. map_option links (idx p) = map_option links (idx' p))"

lemma same_links_refl [simp]: "same_links idx idx"
  by (simp add: same_links_def)

lemma same_links_trans: "same_links a b \<Longrightarrow> same_links b c \<Longrightarrow> same_links a c"
  by (simp add: same_links_def)

lemma same_links_upd: "idx p = Some bi \<Longrightarrow> links bi' = links bi \<Longrightarrow> same_links idx (idx(p \<mapsto> bi'))"
  by (simp add: same_links_def)

lemma same_links_Some:
  assumes "same_links idx idx'" "idx p = Some bi"
  obtains bi' where "idx' p = Some bi'" "links bi' = links bi"
  using assms by (metis (no_types, lifting) map_option_eq_Some same_links_def)

lemma same_links_None: "same_links idx idx' \<Longrightarrow> idx p = None \<longleftrightarrow> idx' p = None"
  by (metis map_option_is_None same_links_def)

lemma walk_same_links:
  assumes "same_links idx idx'"
  shows "walk idx n p = walk idx' n p"
proof -
  have "deref idx bi_pprev q = deref idx' bi_pprev q" for q
  proof (cases "Option.bind q idx")
    case None
    then have "Option.bind q idx' = None" using same_links_None [OF assms, of "the q"] by (cases q) simp_all
    with None show ?thesis by (cases q) (simp_all add: deref_def)
  next
    case (Some bi)
    then obtain h where h: "q = Some h" "idx h = Some bi" by (cases q) auto
    then obtain bi' where "idx' h = Some bi'" "links bi' = links bi" using same_links_Some [OF assms h(2)] by blast
    then show ?thesis using h by (simp add: deref_def links_def)
  qed
  then have "deref idx bi_pprev = deref idx' bi_pprev" by (rule ext)
  then show ?thesis by (simp add: walk_def)
qed

lemma entry_wf_links:
  assumes "links bi = links bi'" "same_links idx idx'" "entry_wf idx p bi"
  shows "entry_wf idx' p bi'"
proof (cases "bi_pprev bi")
  case None
  then show ?thesis using assms(1,3) by (simp add: entry_wf_def links_def)
next
  case (Some q)
  then obtain bq where bq: "idx q = Some bq" "bi_nHeight bi = bi_nHeight bq + 1"
    "bi_pskip bi = walk idx (bi_nHeight bi - GetSkipHeight (bi_nHeight bi)) p"
    using assms(3) by (auto simp: entry_wf_def)
  obtain bq' where "idx' q = Some bq'" "bi_nHeight bq' = bi_nHeight bq"
    using same_links_Some [OF assms(2) bq(1)] by (auto simp: links_def)
  moreover have "bi_pprev bi' = Some q" "bi_nHeight bi' = bi_nHeight bi" "bi_pskip bi' = bi_pskip bi"
    using Some assms(1) by (simp_all add: links_def)
  ultimately show ?thesis
    using bq walk_same_links [OF assms(2)] by (simp add: entry_wf_def)
qed

lemma index_wf_same_links:
  assumes "index_wf idx" "same_links idx idx'"
  shows "index_wf idx'"
  unfolding index_wf_def
proof (intro allI impI)
  fix p bi'
  assume "idx' p = Some bi'"
  then obtain bi where "idx p = Some bi" "links bi = links bi'"
    using assms(2) by (metis (no_types, lifting) map_option_eq_Some same_links_def)
  then show "entry_wf idx' p bi'" using assms entry_wf_links [OF _ assms(2)] by (auto simp: index_wf_def)
qed

lemma walk_dom:
  assumes "index_wf idx" "idx p = Some bi" "walk idx n p = Some q"
  shows "\<exists>bq. idx q = Some bq"
  using assms(3)
proof (induction n arbitrary: q)
  case (Suc n)
  then obtain r where r: "walk idx n p = Some r" by (cases "walk idx n p") (auto simp: walk_Suc deref_def)
  then obtain br where br: "idx r = Some br" using Suc.IH by blast
  then have "bi_pprev br = Some q" using Suc.prems r by (simp add: walk_Suc deref_def)
  then show ?case using assms(1) br by (fastforce simp: index_wf_def entry_wf_def)
qed (use assms(2) in simp)

lemma walk_extend:
  assumes "index_wf idx" "idx hash = None" "idx p = Some bi"
    and idx': "\<And>q. q \<noteq> hash \<Longrightarrow> idx' q = idx q"
  shows "walk idx' n p = walk idx n p"
proof (induction n)
  case (Suc n)
  show ?case
  proof (cases "walk idx n p")
    case (Some r)
    then obtain br where br: "idx r = Some br" using walk_dom [OF assms(1,3)] by blast
    then have "r \<noteq> hash" using assms(2) by auto
    then have "idx' r = Some br" using idx' [of r] br by simp
    with br Some show ?thesis using Suc by (simp add: walk_Suc deref_def)
  qed (simp add: Suc walk_Suc deref_def)
qed simp

text \<open>A new entry on top of the tree.\<close>

lemma index_wf_extend:
  assumes "index_wf idx" "idx hash = None" "entry_wf idx' hash b"
    and idx': "idx' hash = Some b" "\<And>q. q \<noteq> hash \<Longrightarrow> idx' q = idx q"
  shows "index_wf idx'"
  unfolding index_wf_def
proof (intro allI impI)
  fix p bi
  assume p: "idx' p = Some bi"
  show "entry_wf idx' p bi"
  proof (cases "p = hash")
    case False
    then have i: "idx p = Some bi" using p idx'(2) by simp
    then have w: "entry_wf idx p bi" using assms(1) by (simp add: index_wf_def)
    then have "bi_pprev bi \<noteq> Some hash" using assms(2) by (auto simp: entry_wf_def)
    then show ?thesis
      using w walk_extend [OF assms(1,2) i idx'(2)] idx'(2) by (auto simp: entry_wf_def split: option.splits)
  qed (use p assms(3) idx' in simp)
qed

lemma index_wf_child:
  assumes "index_wf idx" "idx hash = None" "idx q = Some bq"
    and idx': "idx' hash = Some b" "\<And>q. q \<noteq> hash \<Longrightarrow> idx' q = idx q"
    and b: "bi_pprev b = Some q" "bi_nHeight b = bi_nHeight bq + 1"
    and skip: "bi_pskip b = walk idx (bi_nHeight bq - GetSkipHeight (bi_nHeight b)) q"
  shows "index_wf idx'"
proof (rule index_wf_extend [OF assms(1,2) _ idx'])
  define s where "s = GetSkipHeight (bi_nHeight b)"
  have s: "s \<le> bi_nHeight bq" using GetSkipHeight_less [of "bi_nHeight b"] b(2) by (simp add: s_def)
  have "q \<noteq> hash" using assms(2,3) by auto
  then have q: "idx' q = Some bq" using idx'(2) [of q] assms(3) by simp
  have "bi_pskip b = walk idx' (bi_nHeight bq - s) q"
    using skip walk_extend [OF assms(1-3) idx'(2)] by (simp add: s_def)
  also have "\<dots> = walk idx' (Suc (bi_nHeight bq - s)) hash"
    using walk_Suc' [of idx' hash b q, OF idx'(1) b(1)] by simp
  also have "Suc (bi_nHeight bq - s) = bi_nHeight b - s" using s b(2) by simp
  finally show "entry_wf idx' hash b"
    using b q by (simp add: entry_wf_def s_def)
qed

section \<open>Adding a block\<close>

lemma GetBlockTrust_total: "\<exists>w. GetBlockTrust bi = Some w \<and> length w = WIDTH"
proof -
  let ?T = "fst (SetCompact (bi_nBits bi))"
  have t: "uval (uint_add ?T (uint_of_int 1)) \<noteq> 0" using uval_target_Suc [of "bi_nBits bi"] by simp
  have d: "\<exists>q. uint_div a (uint_add ?T (uint_of_int 1)) = Some q \<and> length q = WIDTH" if a: "length a = WIDTH" for a
    by (rule uint_div_Some [OF a _ t]) auto
  from d [of "uint_shl (uint_of_int 1) 256"] d [of "uint_shr (uint_not (uint_of_int 0)) 20"]
  show ?thesis by (auto simp: GetBlockTrust_def Let_def)
qed

lemma links_update [simp]:
  "links (SetStakeModifier m g bi) = links bi" "links (snd (SetStakeEntropyBit e bi)) = links bi"
  "links (snd (RaiseValidity v bi)) = links bi" "links (bi\<lparr>bi_nChainWork := w\<rparr>) = links bi"
  "links (bi\<lparr>bi_pnext := n\<rparr>) = links bi" "links (bi\<lparr>bi_nStakeModifierChecksum := c\<rparr>) = links bi"
  "links (bi\<lparr>bi_hashProofOfStake := h\<rparr>) = links bi" "links (bi\<lparr>bi_bnChainTrust := t\<rparr>) = links bi"
  "links (SetProofOfStake bi) = links bi" "links (clear_failed bi) = links bi"
  "links (bi\<lparr>bi_nStatus := s\<rparr>) = links bi" "links (bi\<lparr>bi_nChainTx := x, bi_nSequenceId := i\<rparr>) = links bi"
  by (simp_all add: links_def SetStakeModifier_def SetStakeEntropyBit_def RaiseValidity_def SetProofOfStake_def
      clear_failed_def Let_def)

lemma bits_update [simp]:
  "bi_nBits (SetStakeModifier m g bi) = bi_nBits bi" "bi_nBits (snd (SetStakeEntropyBit e bi)) = bi_nBits bi"
  "bi_nBits (SetProofOfStake bi) = bi_nBits bi" "bi_nBits (snd (RaiseValidity v bi)) = bi_nBits bi"
  "bi_nChainWork (snd (RaiseValidity v bi)) = bi_nChainWork bi"
  by (simp_all add: SetStakeModifier_def SetStakeEntropyBit_def RaiseValidity_def SetProofOfStake_def Let_def)

lemma link_prev_ok:
  assumes "index_wf idx" "idx q = Some bq"
  shows "\<exists>b. link_prev env idx proof hash q bq bi = Some b \<and> bi_nBits b = bi_nBits bi \<and>
    links b = (Some q, walk idx (bi_nHeight bq - GetSkipHeight (bi_nHeight bq + 1)) q, bi_nHeight bq + 1)"
proof -
  define b1 where "b1 = BuildSkip idx (bi\<lparr>bi_pprev := Some q, bi_nHeight := bi_nHeight bq + 1\<rparr>)"
  have s: "GetSkipHeight (Suc (bi_nHeight bq)) \<le> bi_nHeight bq" using GetSkipHeight_less [of "Suc (bi_nHeight bq)"] by simp
  have b1: "bi_nBits b1 = bi_nBits bi"
    "links b1 = (Some q, walk idx (bi_nHeight bq - GetSkipHeight (bi_nHeight bq + 1)) q, bi_nHeight bq + 1)"
    using GetAncestor_walk [OF assms, of "int (GetSkipHeight (bi_nHeight bq + 1))"] s
    by (simp_all add: b1_def BuildSkip_def links_def)
  obtain t where t: "GetBlockTrust b1 = Some t" using GetBlockTrust_total by blast
  obtain r m g where m: "ComputeNextStakeModifier env idx (Some q) = (r, m, g)" by (metis prod_cases3)
  show ?thesis
    unfolding link_prev_def b1_def [symmetric] Let_def t m option.case prod.case using b1 by simp
qed

text \<open>The tree, with work of 256 bits.\<close>

definition tree_wf :: "BlockMap \<Rightarrow> bool" where
  "tree_wf idx \<longleftrightarrow> index_wf idx \<and> (\<forall>p bi. idx p = Some bi \<longrightarrow> length (bi_nChainWork bi) = WIDTH)"

lemma new_entry: "links (CBlockIndex_new block) = (None, None, 0)" "bi_nBits (CBlockIndex_new block) = hdr_nBits block"
  by (simp_all add: CBlockIndex_new_def CBlockIndex_null_def links_def SetProofOfStake_def Let_def)

lemma index_wf_root_entry:
  assumes "index_wf idx" "idx hash = None" "idx' hash = Some b" "\<And>q. q \<noteq> hash \<Longrightarrow> idx' q = idx q"
    and "bi_pprev b = None" "bi_nHeight b = 0"
  shows "index_wf idx'"
  by (rule index_wf_extend [OF assms(1,2) _ assms(3,4)]) (use assms(5,6) in \<open>simp_all add: entry_wf_def\<close>)

text \<open>The entry that \<^verbatim>\<open>AddToBlockIndex\<close> makes, before its work is known.\<close>

lemma linked_entry:
  fixes hash and block and idx
  defines "idx1 \<equiv> idx(hash \<mapsto> CBlockIndex_new block)" and "q \<equiv> hdr_hashPrevBlock block"
  assumes "index_wf idx" "idx hash = None" "q \<noteq> hash"
  shows "\<exists>b. (case idx1 q of None \<Rightarrow> Some (CBlockIndex_new block)
      | Some bq \<Rightarrow> link_prev env idx1 proof hash q bq (CBlockIndex_new block)) = Some b \<and>
    bi_nBits b = hdr_nBits block \<and> bi_pprev b = (if idx q = None then None else Some q) \<and>
    (\<forall>idx'. idx' hash = Some b \<longrightarrow> (\<forall>p. p \<noteq> hash \<longrightarrow> idx' p = idx p) \<longrightarrow> index_wf idx')"
proof (cases "idx q")
  case None
  then show ?thesis
    using index_wf_root_entry [OF assms(3,4), of _ "CBlockIndex_new block"] new_entry [of block] assms(5)
    by (auto simp: idx1_def links_def)
next
  case (Some bq)
  have i1: "idx1 hash = Some (CBlockIndex_new block)" "\<And>p. p \<noteq> hash \<Longrightarrow> idx1 p = idx p" by (simp_all add: idx1_def)
  have w1: "index_wf idx1"
    by (rule index_wf_root_entry [OF assms(3,4) i1]) (use new_entry [of block] in \<open>simp_all add: links_def\<close>)
  have q1: "idx1 q = Some bq" using i1(2) [OF assms(5)] Some by simp
  obtain b where b: "link_prev env idx1 proof hash q bq (CBlockIndex_new block) = Some b" "bi_nBits b = hdr_nBits block"
    "links b = (Some q, walk idx1 (bi_nHeight bq - GetSkipHeight (bi_nHeight bq + 1)) q, bi_nHeight bq + 1)"
    using link_prev_ok [OF w1 q1, of env "proof" hash "CBlockIndex_new block"] new_entry(2) [of block] by auto
  have "index_wf idx'" if "idx' hash = Some b" "\<forall>p. p \<noteq> hash \<longrightarrow> idx' p = idx p" for idx'
    by (rule index_wf_child [of idx hash q bq idx' b, OF assms(3,4) Some that(1)])
      (use that(2) b(3) walk_extend [OF assms(3,4) Some i1(2)] in \<open>simp_all add: links_def\<close>)
  then show ?thesis using b q1 Some by (auto simp: links_def)
qed

lemma AddToBlockIndex_ok:
  assumes "tree_wf (st_mapBlockIndex st)" "st_mapBlockIndex st hash = None" "hdr_hashPrevBlock block \<noteq> hash"
  shows "\<exists>st' b w. AddToBlockIndex env hash block st = Some (hash, st') \<and> tree_wf (st_mapBlockIndex st') \<and>
    st_mapBlockIndex st' hash = Some b \<and> GetBlockProof (hdr_nBits block) = Some w \<and>
    bi_pprev b = (if st_mapBlockIndex st (hdr_hashPrevBlock block) = None then None else Some (hdr_hashPrevBlock block)) \<and>
    uval (bi_nChainWork b) =
      ((case st_mapBlockIndex st (hdr_hashPrevBlock block) of None \<Rightarrow> 0 | Some bq \<Rightarrow> uval (bi_nChainWork bq)) + uval w) mod 2 ^ 256 \<and>
    (\<forall>p. p \<noteq> hash \<longrightarrow> map_option (\<lambda>bi. bi\<lparr>bi_pnext := None\<rparr>) (st_mapBlockIndex st' p) =
      map_option (\<lambda>bi. bi\<lparr>bi_pnext := None\<rparr>) (st_mapBlockIndex st p))"
proof -
  define idx where "idx = st_mapBlockIndex st"
  define q where "q = hdr_hashPrevBlock block"
  define idx1 where "idx1 = idx(hash \<mapsto> CBlockIndex_new block)"
  have w: "index_wf idx" "idx hash = None" "q \<noteq> hash" "idx p = Some bi \<Longrightarrow> length (bi_nChainWork bi) = WIDTH" for p bi
    using assms by (auto simp: idx_def q_def tree_wf_def)
  obtain b where b: "(case idx1 q of None \<Rightarrow> Some (CBlockIndex_new block)
      | Some bq \<Rightarrow> link_prev env idx1 (st_mapProofOfStake st hash) hash q bq (CBlockIndex_new block)) = Some b"
    "bi_nBits b = hdr_nBits block" "bi_pprev b = (if idx q = None then None else Some q)"
    "\<And>idx'. idx' hash = Some b \<Longrightarrow> (\<forall>p. p \<noteq> hash \<longrightarrow> idx' p = idx p) \<Longrightarrow> index_wf idx'"
    using linked_entry [OF w(1,2), of block env "st_mapProofOfStake st hash"] w(3) unfolding idx1_def q_def by auto
  obtain k where k: "GetBlockProof (hdr_nBits block) = Some k" "length k = WIDTH" using GetBlockProof_value by blast
  define pw where "pw = (case Option.bind (bi_pprev b) idx1 of None \<Rightarrow> uint_of_int 0 | Some bq \<Rightarrow> bi_nChainWork bq)"
  have pw: "pw = (case idx q of None \<Rightarrow> uint_of_int 0 | Some bq \<Rightarrow> bi_nChainWork bq)" "length pw = WIDTH"
    using b(3) w(3,4) by (auto simp: pw_def idx1_def split: option.splits)
  define b2 where "b2 = snd (RaiseValidity BLOCK_VALID_TREE (b\<lparr>bi_nChainWork := uint_add pw k\<rparr>))"
  define idx2 where "idx2 = (case idx1 q of None \<Rightarrow> idx1 | Some bq \<Rightarrow> idx1(q \<mapsto> bq\<lparr>bi_pnext := Some hash\<rparr>))"
  have pn: "map_option (\<lambda>bi. bi\<lparr>bi_pnext := None\<rparr>) (idx2 p) = map_option (\<lambda>bi. bi\<lparr>bi_pnext := None\<rparr>) (idx p)" if "p \<noteq> hash" for p
    using that w(3) by (auto simp: idx2_def idx1_def split: option.splits)
  have "same_links (idx(hash \<mapsto> b)) (idx2(hash \<mapsto> b2))"
    using w(3) by (auto simp: same_links_def idx2_def idx1_def b2_def split: option.splits)
  moreover have "index_wf (idx(hash \<mapsto> b))" by (rule b(4)) simp_all
  ultimately have iw: "index_wf (idx2(hash \<mapsto> b2))" by (rule index_wf_same_links [rotated])
  have "length (bi_nChainWork bi) = WIDTH" if "(idx2(hash \<mapsto> b2)) p = Some bi" for p bi
    using that w(3,4) pw(2) k(2) by (auto simp: idx2_def idx1_def b2_def split: if_splits option.splits)
  with iw have tw: "tree_wf (idx2(hash \<mapsto> b2))" by (simp add: tree_wf_def)
  have u: "uval (bi_nChainWork b2) = ((case idx q of None \<Rightarrow> 0 | Some bq \<Rightarrow> uval (bi_nChainWork bq)) + uval k) mod 2 ^ 256"
    using uval_add [of pw k] pw k(2) by (simp add: b2_def uval_of_u64 split: option.splits)
  have p2: "bi_pprev b2 = bi_pprev b" using links_update(3) [of BLOCK_VALID_TREE "b\<lparr>bi_nChainWork := uint_add pw k\<rparr>"]
    by (simp add: b2_def links_def)
  have "\<exists>st'. AddToBlockIndex env hash block st = Some (hash, st') \<and> st_mapBlockIndex st' = idx2(hash \<mapsto> b2)"
    unfolding AddToBlockIndex_def Let_def idx_def [symmetric] q_def [symmetric] idx1_def [symmetric] b(1,2) option.case
      k(1) pw_def [symmetric] b2_def [symmetric] idx2_def [symmetric]
    using w(2) by simp
  then obtain st' where "AddToBlockIndex env hash block st = Some (hash, st')" "st_mapBlockIndex st' = idx2(hash \<mapsto> b2)" by blast
  then show ?thesis
    using tw u k(1) pn b(3) p2 by (intro exI [of _ st'] exI [of _ b2] exI [of _ k]) (simp add: idx_def q_def)
qed

section \<open>Linking\<close>

text \<open>The number of transactions of a block and its ancestors, as a natural number.\<close>

fun tx_sum :: "BlockMap \<Rightarrow> nat \<Rightarrow> bptr \<Rightarrow> nat" where
  "tx_sum idx 0 p = 0"
| "tx_sum idx (Suc n) p =
     (case Option.bind p idx of None \<Rightarrow> 0 | Some bi \<Rightarrow> unat (bi_nTx bi) + tx_sum idx n (bi_pprev bi))"

definition tx_total :: "BlockMap \<Rightarrow> u256 \<Rightarrow> nat" where
  "tx_total idx p = (case idx p of None \<Rightarrow> 0 | Some bi \<Rightarrow> tx_sum idx (bi_nHeight bi + 1) (Some p))"

definition linked :: "BlockMap \<Rightarrow> u256 \<Rightarrow> bool" where
  "linked idx p \<longleftrightarrow> (\<exists>bi. idx p = Some bi \<and> bi_nChainTx bi \<noteq> 0)"

definition has_data :: "BlockMap \<Rightarrow> u256 \<Rightarrow> bool" where
  "has_data idx p \<longleftrightarrow> (\<exists>bi. idx p = Some bi \<and> bi_nTx bi \<noteq> 0)"

definition prev_of :: "BlockMap \<Rightarrow> u256 \<Rightarrow> bptr" where
  "prev_of idx p = Option.bind (idx p) bi_pprev"

definition prev_linked :: "BlockMap \<Rightarrow> u256 \<Rightarrow> bool" where
  "prev_linked idx p \<longleftrightarrow> (\<forall>q. prev_of idx p = Some q \<longrightarrow> linked idx q)"

text \<open>
  The invariant of \<^verbatim>\<open>nChainTx\<close> and \<^verbatim>\<open>mapBlocksUnlinked\<close>, with the blocks \<open>queue\<close> still to be linked:
  a linked block has its data, its count is right and its predecessor is linked; a block with
  data that is not linked waits for its predecessor; and only such blocks wait, each once.
\<close>

definition link_inv :: "u256 list \<Rightarrow> BlockMap \<Rightarrow> (bptr \<times> u256) list \<Rightarrow> bool" where
  "link_inv queue idx unlinked \<longleftrightarrow>
     (\<forall>p. linked idx p \<longrightarrow> has_data idx p \<and> prev_linked idx p \<and>
        (\<forall>bi. idx p = Some bi \<longrightarrow> unat (bi_nChainTx bi) = tx_total idx p)) \<and>
     (\<forall>p. has_data idx p \<longrightarrow> linked idx p \<or> p \<in> set queue \<or> (\<exists>q. (Some q, p) \<in> set unlinked)) \<and>
     (\<forall>a p. (a, p) \<in> set unlinked \<longrightarrow> has_data idx p \<and> \<not> linked idx p \<and> (\<exists>q. a = Some q \<and> prev_of idx p = a \<and> \<not> linked idx q)) \<and>
     (\<forall>p \<in> set queue. has_data idx p \<and> \<not> linked idx p \<and> prev_linked idx p) \<and>
     distinct (queue @ map snd unlinked)"

lemma tx_total_Some:
  assumes "index_wf idx" "idx p = Some bi"
  shows "tx_total idx p = unat (bi_nTx bi) + (case bi_pprev bi of None \<Rightarrow> 0 | Some q \<Rightarrow> tx_total idx q)"
proof (cases "bi_pprev bi")
  case None
  then show ?thesis using assms(2) by (cases "bi_nHeight bi") (simp_all add: tx_total_def)
next
  case (Some q)
  then obtain bq where "idx q = Some bq" "bi_nHeight bi = bi_nHeight bq + 1"
    using assms by (fastforce simp: index_wf_def entry_wf_def)
  then show ?thesis using Some assms(2) by (simp add: tx_total_def)
qed

lemma tx_sum_cong:
  assumes "\<And>p. map_option (\<lambda>b. (bi_pprev b, bi_nTx b)) (idx p) = map_option (\<lambda>b. (bi_pprev b, bi_nTx b)) (idx' p)"
  shows "tx_sum idx n p = tx_sum idx' n p"
proof (induction n arbitrary: p)
  case (Suc n)
  show ?case
  proof (cases p)
    case (Some h)
    then show ?thesis using assms [of h] Suc by (cases "idx h"; cases "idx' h") simp_all
  qed simp
qed simp

lemma distinct_partition:
  "distinct (ys @ map f xs) \<Longrightarrow> distinct ((ys @ map f (filter P xs)) @ map f (filter (\<lambda>x. \<not> P x) xs))"
proof -
  have "mset (map f xs) = mset (map f (filter P xs)) + mset (map f (filter (\<lambda>x. \<not> P x) xs))"
    by (induction xs) simp_all
  then have "mset ((ys @ map f (filter P xs)) @ map f (filter (\<lambda>x. \<not> P x) xs)) = mset (ys @ map f xs)" by simp
  then show "distinct (ys @ map f xs) \<Longrightarrow> ?thesis" by (metis mset_eq_imp_distinct_iff)
qed

text \<open>Linking one block.\<close>

lemma link_block_map:
  assumes "st_mapBlockIndex st p = Some bi"
  shows "\<exists>b. st_mapBlockIndex (link_block addr p bi st) = (st_mapBlockIndex st)(p \<mapsto> b) \<and> links b = links bi \<and>
    bi_nTx b = bi_nTx bi \<and> bi_nChainWork b = bi_nChainWork bi \<and> bi_nStatus b = bi_nStatus bi \<and>
    bi_nChainTx b = (case Option.bind (bi_pprev bi) (st_mapBlockIndex st) of None \<Rightarrow> 0 | Some bq \<Rightarrow> bi_nChainTx bq) + bi_nTx bi"
  by (rule exI [of _ "bi\<lparr>bi_nChainTx := (case Option.bind (bi_pprev bi) (st_mapBlockIndex st) of None \<Rightarrow> 0
        | Some bq \<Rightarrow> bi_nChainTx bq) + bi_nTx bi, bi_nSequenceId := st_nBlockSequenceId st\<rparr>"])
    (simp add: link_block_def Let_def links_def)

lemma link_step:
  assumes "index_wf idx" "idx p = Some bi" "link_inv (p # queue) idx unlinked" "tx_total idx p < 2 ^ 32"
    and b: "links b = links bi" "bi_nTx b = bi_nTx bi"
      "bi_nChainTx b = (case Option.bind (bi_pprev bi) idx of None \<Rightarrow> 0 | Some bq \<Rightarrow> bi_nChainTx bq) + bi_nTx bi"
    and idx': "idx' p = Some b" "\<And>r. r \<noteq> p \<Longrightarrow> idx' r = idx r"
  shows "link_inv (queue @ map snd (filter (\<lambda>(a, b). a = Some p) unlinked)) idx' (filter (\<lambda>(a, b). a \<noteq> Some p) unlinked)"
proof -
  have h: "has_data idx p" "\<not> linked idx p" "prev_linked idx p" "p \<notin> set queue" "p \<notin> snd ` set unlinked"
    using assms(3) by (auto simp: link_inv_def)
  have pv: "prev_of idx' r = prev_of idx r" for r
    using idx' assms(2) b(1) by (cases "r = p") (auto simp: prev_of_def links_def)
  have hd: "has_data idx' r = has_data idx r" for r
    using idx' assms(2) b(2) by (cases "r = p") (auto simp: has_data_def)
  have k: "map_option (\<lambda>b. (bi_pprev b, bi_nTx b)) (idx' r) = map_option (\<lambda>b. (bi_pprev b, bi_nTx b)) (idx r)" for r
    using idx' assms(2) b by (cases "r = p") (auto simp: links_def)
  have tt: "tx_total idx' r = tx_total idx r" for r
    using tx_sum_cong [of idx' idx, OF k] idx' assms(2) b by (cases "r = p") (auto simp: tx_total_def links_def split: option.splits)
  have ct: "unat (bi_nChainTx b) = tx_total idx p \<and> bi_nChainTx b \<noteq> 0"
  proof -
    define c where "c = (case Option.bind (bi_pprev bi) idx of None \<Rightarrow> 0 | Some bq \<Rightarrow> bi_nChainTx bq)"
    have "unat c = (case bi_pprev bi of None \<Rightarrow> 0 | Some q \<Rightarrow> tx_total idx q)"
    proof (cases "bi_pprev bi")
      case (Some q)
      then have "linked idx q" using h(3) assms(2) by (simp add: prev_linked_def prev_of_def)
      then obtain bq where "idx q = Some bq" "unat (bi_nChainTx bq) = tx_total idx q"
        using assms(3) by (auto simp: link_inv_def linked_def)
      then show ?thesis using Some by (simp add: c_def)
    qed (simp add: c_def)
    then have s: "unat c + unat (bi_nTx bi) = tx_total idx p" using tx_total_Some [OF assms(1,2)] by simp
    have n0: "bi_nTx bi \<noteq> 0" using h(1) assms(2) by (simp add: has_data_def)
    have "unat (c + bi_nTx bi) = unat c + unat (bi_nTx bi)"
      using s assms(4) by (simp add: unat_plus_if_size word_size)
    moreover have "unat (bi_nTx bi) \<noteq> 0" using n0 by (simp add: unat_eq_0)
    ultimately have "unat (c + bi_nTx bi) = tx_total idx p \<and> unat (c + bi_nTx bi) \<noteq> 0" using s by simp
    then show ?thesis by (auto simp: b(3) c_def)
  qed
  have lk: "linked idx' r \<longleftrightarrow> r = p \<or> linked idx r" for r
    using idx' ct by (cases "r = p") (auto simp: linked_def)
  have pl: "prev_linked idx r \<Longrightarrow> prev_linked idx' r" for r by (auto simp: prev_linked_def pv lk)
  show ?thesis
    unfolding link_inv_def
  proof (intro conjI allI impI ballI)
    fix r
    assume r: "linked idx' r"
    show "has_data idx' r" using r h(1) assms(3) by (auto simp: lk hd link_inv_def)
    show "prev_linked idx' r" using r h(3) assms(3) pl by (auto simp: lk link_inv_def)
    fix br
    assume br: "idx' r = Some br"
    show "unat (bi_nChainTx br) = tx_total idx' r"
      using r br ct idx' assms(3) by (cases "r = p") (auto simp: tt lk link_inv_def)
  next
    fix r
    assume "has_data idx' r"
    then have "linked idx r \<or> r = p \<or> r \<in> set queue \<or> (\<exists>q. (Some q, r) \<in> set unlinked)"
      using assms(3) by (auto simp: hd link_inv_def)
    then show "linked idx' r \<or> r \<in> set (queue @ map snd (filter (\<lambda>(a, b). a = Some p) unlinked)) \<or>
        (\<exists>q. (Some q, r) \<in> set (filter (\<lambda>(a, b). a \<noteq> Some p) unlinked))"
      by (auto simp: lk image_iff)
  next
    fix a r
    assume "(a, r) \<in> set (filter (\<lambda>(a, b). a \<noteq> Some p) unlinked)"
    then have a: "(a, r) \<in> set unlinked" "a \<noteq> Some p" by auto
    then have i: "has_data idx r \<and> \<not> linked idx r \<and> (\<exists>q. a = Some q \<and> prev_of idx r = a \<and> \<not> linked idx q)"
      using assms(3) by (auto simp: link_inv_def)
    moreover have "r \<noteq> p" using a(1) h(5) by force
    ultimately show "has_data idx' r" "\<not> linked idx' r" "\<exists>q. a = Some q \<and> prev_of idx' r = a \<and> \<not> linked idx' q"
      using a(2) by (auto simp: hd lk pv)
  next
    fix r
    assume "r \<in> set (queue @ map snd (filter (\<lambda>(a, b). a = Some p) unlinked))"
    then consider "r \<in> set queue" | "(Some p, r) \<in> set unlinked" by auto
    then have "has_data idx r \<and> \<not> linked idx r \<and> r \<noteq> p \<and> prev_linked idx' r"
    proof cases
      case 1
      then show ?thesis using assms(3) h(4) pl by (auto simp: link_inv_def)
    next
      case 2
      then have "has_data idx r \<and> \<not> linked idx r \<and> prev_of idx r = Some p" using assms(3) by (auto simp: link_inv_def)
      moreover have "r \<noteq> p" using 2 h(5) by force
      ultimately show ?thesis by (auto simp: prev_linked_def pv lk)
    qed
    then show "has_data idx' r" "\<not> linked idx' r" "prev_linked idx' r" by (auto simp: hd lk)
  next
    show "distinct ((queue @ map snd (filter (\<lambda>(a, b). a = Some p) unlinked)) @
        map snd (filter (\<lambda>(a, b). a \<noteq> Some p) unlinked))"
      using assms(3) distinct_partition [of queue snd unlinked "\<lambda>(a, b). a = Some p"]
      by (simp add: link_inv_def case_prod_unfold)
  qed
qed

lemma tree_wf_upd:
  assumes "tree_wf idx" "idx p = Some bi" "links b = links bi" "bi_nChainWork b = bi_nChainWork bi"
  shows "tree_wf (idx(p \<mapsto> b))"
  using assms index_wf_same_links [OF _ same_links_upd [of idx p bi b]] by (auto simp: tree_wf_def)

lemma link_block_step:
  assumes "tree_wf (st_mapBlockIndex st)" "link_inv (p # queue) (st_mapBlockIndex st) (st_mapBlocksUnlinked st)"
    and "\<forall>r. tx_total (st_mapBlockIndex st) r < 2 ^ 32"
  obtains bi where "st_mapBlockIndex st p = Some bi" "tree_wf (st_mapBlockIndex (link_block addr p bi st))"
    "link_inv (queue @ released p st) (st_mapBlockIndex (link_block addr p bi st)) (st_mapBlocksUnlinked (link_block addr p bi st))"
    "\<And>r. tx_total (st_mapBlockIndex (link_block addr p bi st)) r = tx_total (st_mapBlockIndex st) r"
    "\<And>r. prev_of (st_mapBlockIndex (link_block addr p bi st)) r = prev_of (st_mapBlockIndex st) r"
    "\<And>r. has_data (st_mapBlockIndex (link_block addr p bi st)) r = has_data (st_mapBlockIndex st) r"
proof -
  have "has_data (st_mapBlockIndex st) p" using assms(2) by (simp add: link_inv_def)
  then obtain bi where bi: "st_mapBlockIndex st p = Some bi" by (auto simp: has_data_def)
  obtain b where b: "st_mapBlockIndex (link_block addr p bi st) = (st_mapBlockIndex st)(p \<mapsto> b)" "links b = links bi"
    "bi_nTx b = bi_nTx bi" "bi_nChainWork b = bi_nChainWork bi"
    "bi_nChainTx b = (case Option.bind (bi_pprev bi) (st_mapBlockIndex st) of None \<Rightarrow> 0 | Some bq \<Rightarrow> bi_nChainTx bq) + bi_nTx bi"
    using link_block_map [of st p bi addr, OF bi] by auto
  define idx' where "idx' = (st_mapBlockIndex st)(p \<mapsto> b)"
  have t: "tree_wf idx'" unfolding idx'_def by (rule tree_wf_upd [OF assms(1) bi b(2,4)])
  have i: "idx' p = Some b" "\<And>r. r \<noteq> p \<Longrightarrow> idx' r = st_mapBlockIndex st r" by (simp_all add: idx'_def)
  have l: "link_inv (queue @ released p st) idx' (st_mapBlocksUnlinked (link_block addr p bi st))"
    using link_step [OF _ bi assms(2) _ b(2,3,5) i] assms(1,3) by (simp add: released_def tree_wf_def)
  have "tx_total idx' r = tx_total (st_mapBlockIndex st) r" for r
  proof -
    have "map_option (\<lambda>b. (bi_pprev b, bi_nTx b)) (idx' r) = map_option (\<lambda>b. (bi_pprev b, bi_nTx b)) (st_mapBlockIndex st r)" for r
      using i bi b(2,3) by (cases "r = p") (auto simp: links_def)
    from tx_sum_cong [of idx' "st_mapBlockIndex st", OF this] show ?thesis
      using i bi b(2,3) by (cases "r = p") (auto simp: tx_total_def links_def split: option.splits)
  qed
  moreover have "prev_of idx' r = prev_of (st_mapBlockIndex st) r" "has_data idx' r = has_data (st_mapBlockIndex st) r" for r
    using i bi b(2,3) by (cases "r = p"; auto simp: prev_of_def has_data_def links_def)+
  ultimately show ?thesis using that [OF bi] t l b(1) by (simp add: idx'_def [symmetric])
qed

lemma link_loop_inv:
  assumes "tree_wf (st_mapBlockIndex st)" "link_inv queue (st_mapBlockIndex st) (st_mapBlocksUnlinked st)"
    and "\<forall>p. tx_total (st_mapBlockIndex st) p < 2 ^ 32"
  shows "tree_wf (st_mapBlockIndex (link_loop addr queue st)) \<and>
    link_inv [] (st_mapBlockIndex (link_loop addr queue st)) (st_mapBlocksUnlinked (link_loop addr queue st)) \<and>
    (\<forall>p. prev_of (st_mapBlockIndex (link_loop addr queue st)) p = prev_of (st_mapBlockIndex st) p) \<and>
    (\<forall>p. has_data (st_mapBlockIndex (link_loop addr queue st)) p = has_data (st_mapBlockIndex st) p)"
  using assms
proof (induction addr queue st rule: link_loop.induct)
  case (2 addr p queue st)
  obtain bi where bi: "st_mapBlockIndex st p = Some bi" and s: "tree_wf (st_mapBlockIndex (link_block addr p bi st))"
    "link_inv (queue @ released p st) (st_mapBlockIndex (link_block addr p bi st)) (st_mapBlocksUnlinked (link_block addr p bi st))"
    "\<And>r. tx_total (st_mapBlockIndex (link_block addr p bi st)) r = tx_total (st_mapBlockIndex st) r"
    "\<And>r. prev_of (st_mapBlockIndex (link_block addr p bi st)) r = prev_of (st_mapBlockIndex st) r"
    "\<And>r. has_data (st_mapBlockIndex (link_block addr p bi st)) r = has_data (st_mapBlockIndex st) r"
    using link_block_step [OF 2(2-4)] by blast
  show ?case using 2(1) [OF bi s(1,2)] 2(4) s(3-5) bi by simp
qed simp

section \<open>Candidates stay in order\<close>

text \<open>The order of the candidates, as a comparison of keys.\<close>

definition work_key :: "(u256 \<Rightarrow> nat) \<Rightarrow> u256 \<Rightarrow> CBlockIndex \<Rightarrow> nat \<times> int \<times> int" where
  "work_key addr p bi = (uval (bi_nChainWork bi), - uint (bi_nSequenceId bi), - int (addr p))"

lemma less_at_key:
  assumes "tree_wf idx" "idx p = Some bp" "idx q = Some bq"
  shows "less_at addr idx p q \<longleftrightarrow> work_key addr p bp < work_key addr q bq"
proof -
  have "length (bi_nChainWork bp) = length (bi_nChainWork bq)" using assms by (auto simp: tree_wf_def)
  from CompareTo_sgn [OF this] show ?thesis
    using assms(2,3) by (auto simp: less_at_def WorkComparator_def work_key_def sgn_if word_less_def split: if_splits)
qed

lemma work_key_inj:
  assumes "inj addr" "work_key addr p bp = work_key addr q bq"
  shows "p = q"
  using assms by (auto simp: work_key_def inj_def)

text \<open>
  Candidates are in order and linked, and the predecessor of a linked block is linked.
\<close>

definition cands_wf :: "(u256 \<Rightarrow> nat) \<Rightarrow> BlockMap \<Rightarrow> u256 list \<Rightarrow> bool" where
  "cands_wf addr idx cs \<longleftrightarrow> sorted_wrt (less_at addr idx) cs \<and> (\<forall>c \<in> set cs. linked idx c) \<and>
     (\<forall>p. linked idx p \<longrightarrow> prev_linked idx p)"

lemma linked_ancestors:
  assumes "\<forall>p. linked idx p \<longrightarrow> prev_linked idx p" "linked idx p" "walk idx k p = Some q"
  shows "linked idx q"
  using assms(3)
proof (induction k arbitrary: q)
  case (Suc k)
  then obtain r where r: "walk idx k p = Some r" by (cases "walk idx k p") (auto simp: walk_Suc deref_def)
  then have "prev_of idx r = Some q" using Suc.prems by (auto simp: walk_Suc deref_def prev_of_def)
  then show ?case using Suc.IH [OF r] assms(1) by (auto simp: prev_linked_def)
qed (use assms(2) in simp)

lemma set_set_insert:
  assumes "\<And>a b. a \<in> insert x (set ys) \<Longrightarrow> b \<in> insert x (set ys) \<Longrightarrow> lt a b \<longleftrightarrow> key a < (key b :: 'k :: linorder)"
    and "key x \<notin> key ` set ys" "sorted_wrt lt ys"
  shows "set (set_insert lt x ys) = insert x (set ys) \<and> sorted_wrt lt (set_insert lt x ys)"
  using assms
proof (induction ys)
  case (Cons y ys)
  have IH: "set (set_insert lt x ys) = insert x (set ys) \<and> sorted_wrt lt (set_insert lt x ys)"
    by (rule Cons.IH) (use Cons.prems in auto)
  have xy: "lt x y \<longleftrightarrow> key x < key y" "lt y x \<longleftrightarrow> key y < key x" "key x \<noteq> key y" using Cons.prems by auto
  have yz: "key y < key z" if "z \<in> set ys" for z using Cons.prems that by auto
  show ?case
  proof (cases "key x < key y")
    case True
    have "lt x z" if "z \<in> set ys" for z using Cons.prems(1) [of x z] that True yz [OF that] by auto
    then show ?thesis using True xy Cons.prems(3) by simp
  next
    case False
    then have "key y < key x" using xy(3) by auto
    then show ?thesis using xy IH False Cons.prems(3) by auto
  qed
qed simp

lemma link_block_cands:
  assumes "tree_wf (st_mapBlockIndex st)" "st_mapBlockIndex st p = Some bi" "inj addr"
    and "tree_wf (st_mapBlockIndex (link_block addr p bi st))"
    and "\<not> linked (st_mapBlockIndex st) p" "linked (st_mapBlockIndex (link_block addr p bi st)) p"
    and "cands_wf addr (st_mapBlockIndex st) (st_setBlockIndexCandidates st)" "prev_linked (st_mapBlockIndex st) p"
  shows "cands_wf addr (st_mapBlockIndex (link_block addr p bi st)) (st_setBlockIndexCandidates (link_block addr p bi st))"
proof -
  let ?cs = "st_setBlockIndexCandidates st"
  define idx idx' where "idx = st_mapBlockIndex st" and "idx' = st_mapBlockIndex (link_block addr p bi st)"
  obtain b where b: "idx' = idx(p \<mapsto> b)" "links b = links bi"
    using link_block_map [of st p bi addr, OF assms(2)] unfolding idx_def idx'_def by auto
  have o: "idx' r = idx r" if "r \<noteq> p" for r using that b by simp
  have np: "p \<notin> set ?cs" using assms(5,7) by (auto simp: cands_wf_def idx_def)
  have lk: "linked idx' r \<longleftrightarrow> r = p \<or> linked idx r" for r
    using o assms(6) by (cases "r = p") (auto simp: linked_def idx'_def)
  have pv: "prev_of idx' r = prev_of idx r" for r
    using o b assms(2) by (cases "r = p") (auto simp: prev_of_def idx_def links_def)
  have pl: "\<forall>r. linked idx' r \<longrightarrow> prev_linked idx' r"
    using assms(7,8) by (auto simp: cands_wf_def lk prev_linked_def pv idx_def)
  define key where "key r = work_key addr r (the (idx' r))" for r
  have key: "less_at addr idx' a c \<longleftrightarrow> key a < key c" if "a \<in> insert p (set ?cs)" "c \<in> insert p (set ?cs)" for a c
  proof -
    have "linked idx' a" "linked idx' c" using that assms(7) by (auto simp: lk cands_wf_def idx_def)
    then obtain x y where "idx' a = Some x" "idx' c = Some y" by (auto simp: linked_def)
    then show ?thesis using less_at_key [OF assms(4) [folded idx'_def]] by (simp add: key_def)
  qed
  have "key p \<notin> key ` set ?cs" using np work_key_inj [OF assms(3)] by (fastforce simp: key_def)
  moreover have "less_at addr idx' a c = less_at addr idx a c" if "a \<in> set ?cs" "c \<in> set ?cs" for a c
  proof -
    have "a \<noteq> p" "c \<noteq> p" using that np by auto
    then show ?thesis using o by (simp add: less_at_def)
  qed
  then have srt: "sorted_wrt (less_at addr idx') ?cs"
    using assms(7) by (auto simp: cands_wf_def idx_def intro: sorted_wrt_mono_rel [rotated])
  ultimately have ins: "set (set_insert (less_at addr idx') p ?cs) = insert p (set ?cs) \<and>
      sorted_wrt (less_at addr idx') (set_insert (less_at addr idx') p ?cs)"
    using set_set_insert [of p ?cs "less_at addr idx'" key] key by blast
  have "st_setBlockIndexCandidates (link_block addr p bi st) \<in> {?cs, set_insert (less_at addr idx') p ?cs}"
    by (simp add: link_block_def Let_def idx'_def)
  then show ?thesis
    using ins srt pl assms(7) unfolding idx'_def [symmetric] by (auto simp: cands_wf_def lk idx_def)
qed

lemma link_loop_cands:
  assumes "inj addr" "tree_wf (st_mapBlockIndex st)" "link_inv queue (st_mapBlockIndex st) (st_mapBlocksUnlinked st)"
    and "\<forall>p. tx_total (st_mapBlockIndex st) p < 2 ^ 32"
    and "cands_wf addr (st_mapBlockIndex st) (st_setBlockIndexCandidates st)"
  shows "cands_wf addr (st_mapBlockIndex (link_loop addr queue st)) (st_setBlockIndexCandidates (link_loop addr queue st))"
  using assms
proof (induction addr queue st rule: link_loop.induct)
  case (2 addr p queue st)
  obtain bi where bi: "st_mapBlockIndex st p = Some bi" and s: "tree_wf (st_mapBlockIndex (link_block addr p bi st))"
    "link_inv (queue @ released p st) (st_mapBlockIndex (link_block addr p bi st)) (st_mapBlocksUnlinked (link_block addr p bi st))"
    "\<And>r. tx_total (st_mapBlockIndex (link_block addr p bi st)) r = tx_total (st_mapBlockIndex st) r"
    "\<And>r. prev_of (st_mapBlockIndex (link_block addr p bi st)) r = prev_of (st_mapBlockIndex st) r"
    "\<And>r. has_data (st_mapBlockIndex (link_block addr p bi st)) r = has_data (st_mapBlockIndex st) r"
    using link_block_step [OF 2(3-5)] by blast
  have q: "\<not> linked (st_mapBlockIndex st) p" "prev_linked (st_mapBlockIndex st) p" "has_data (st_mapBlockIndex st) p"
    "distinct (p # queue @ map snd (st_mapBlocksUnlinked st))"
    using 2(4) unfolding link_inv_def by simp_all
  have "has_data (st_mapBlockIndex (link_block addr p bi st)) p" using q(3) s(5) by simp
  moreover have "p \<notin> set (queue @ released p st)" "(Some r, p) \<notin> set (st_mapBlocksUnlinked (link_block addr p bi st))" for r
    using q(4) by (auto simp: released_def image_iff)
  ultimately have "linked (st_mapBlockIndex (link_block addr p bi st)) p"
    using s(2) unfolding link_inv_def by blast
  then have "cands_wf addr (st_mapBlockIndex (link_block addr p bi st)) (st_setBlockIndexCandidates (link_block addr p bi st))"
    using link_block_cands [OF 2(3) bi 2(2) s(1) q(1) _ 2(6) q(2)] by blast
  then show ?case using 2(1) [OF bi 2(2) s(1,2)] 2(5) s(3) bi by simp
qed simp

section \<open>Receiving data\<close>

text \<open>Receiving the data of one block adds its transactions once to the totals of its descendants.\<close>

lemma tx_total_same:
  assumes "index_wf idx" "same_links idx idx'" "\<And>q. q \<noteq> p \<Longrightarrow> idx' q = idx q" "idx p = Some bi"
    and "idx r = Some br" "bi_nHeight br \<le> bi_nHeight bi" "r \<noteq> p"
  shows "tx_total idx' r = tx_total idx r"
  using assms(5-7)
proof (induction "bi_nHeight br" arbitrary: r br rule: less_induct)
  case less
  have w': "index_wf idx'" using index_wf_same_links [OF assms(1,2)] .
  have r': "idx' r = Some br" using assms(3) less.prems(1,3) by simp
  show ?case
  proof (cases "bi_pprev br")
    case None
    then show ?thesis using tx_total_Some [OF assms(1) less.prems(1)] tx_total_Some [OF w' r'] by simp
  next
    case (Some q)
    then obtain bq where q: "idx q = Some bq" "bi_nHeight br = bi_nHeight bq + 1"
      using assms(1) less.prems(1) by (fastforce simp: index_wf_def entry_wf_def)
    then have "q \<noteq> p" using assms(4) less.prems(2) by auto
    then have "tx_total idx' q = tx_total idx q" using less.hyps [OF _ q(1)] q(2) less.prems(2) by simp
    then show ?thesis using Some tx_total_Some [OF assms(1) less.prems(1)] tx_total_Some [OF w' r'] by simp
  qed
qed

lemma tx_total_add:
  assumes "index_wf idx" "same_links idx idx'" "\<And>q. q \<noteq> p \<Longrightarrow> idx' q = idx q" "idx p = Some bi" "bi_nTx bi = 0"
    and "idx' p = Some b" "idx r = Some br"
  shows "tx_total idx' r \<le> tx_total idx r + unat (bi_nTx b)"
  using assms(7)
proof (induction "bi_nHeight br" arbitrary: r br rule: less_induct)
  case less
  have w': "index_wf idx'" using index_wf_same_links [OF assms(1,2)] .
  obtain br' where br': "idx' r = Some br'" "links br' = links br" using same_links_Some [OF assms(2) less.prems] by blast
  show ?case
  proof (cases "bi_pprev br")
    case None
    then have "bi_pprev br' = None" using br'(2) by (simp add: links_def)
    then show ?thesis
      using None tx_total_Some [OF assms(1) less.prems] tx_total_Some [OF w' br'(1)] assms(3-6) less.prems br'(1)
      by (cases "r = p") simp_all
  next
    case (Some q)
    then have pr: "bi_pprev br' = Some q" using br'(2) by (simp add: links_def)
    obtain bq where q: "idx q = Some bq" "bi_nHeight br = bi_nHeight bq + 1"
      using assms(1) less.prems Some by (fastforce simp: index_wf_def entry_wf_def)
    show ?thesis
    proof (cases "r = p")
      case True
      then have "bi_nHeight bq \<le> bi_nHeight bi" "q \<noteq> p" using q assms(4) less.prems by auto
      then have "tx_total idx' q = tx_total idx q" using tx_total_same [OF assms(1-4) q(1)] by simp
      then show ?thesis
        using True Some pr tx_total_Some [OF assms(1) less.prems] tx_total_Some [OF w' br'(1)] assms(4,6) br'(1) by simp
    next
      case False
      have "tx_total idx' q \<le> tx_total idx q + unat (bi_nTx b)" using less.hyps [OF _ q(1)] q(2) by simp
      moreover have "br' = br" using False assms(3) br'(1) less.prems by simp
      ultimately show ?thesis
        using Some tx_total_Some [OF assms(1) less.prems] tx_total_Some [OF w' br'(1)] by simp
    qed
  qed
qed

lemma tx_total_linked:
  assumes "index_wf idx" "index_wf idx'" "\<And>q. linked idx q \<Longrightarrow> idx' q = idx q \<and> prev_linked idx q"
    and "idx r = Some br" "linked idx r"
  shows "tx_total idx' r = tx_total idx r"
  using assms(4,5)
proof (induction "bi_nHeight br" arbitrary: r br rule: less_induct)
  case less
  have r': "idx' r = Some br" using assms(3) less.prems by simp
  show ?case
  proof (cases "bi_pprev br")
    case None
    then show ?thesis using tx_total_Some [OF assms(1) less.prems(1)] tx_total_Some [OF assms(2) r'] by simp
  next
    case (Some q)
    then obtain bq where q: "idx q = Some bq" "bi_nHeight br = bi_nHeight bq + 1"
      using assms(1) less.prems(1) by (fastforce simp: index_wf_def entry_wf_def)
    have "linked idx q" using assms(3) [OF less.prems(2)] Some less.prems(1) by (simp add: prev_linked_def prev_of_def)
    then have "tx_total idx' q = tx_total idx q" using less.hyps [OF _ q(1)] q(2) by simp
    then show ?thesis using Some tx_total_Some [OF assms(1) less.prems(1)] tx_total_Some [OF assms(2) r'] by simp
  qed
qed

lemma ReceivedBlockTransactions_ok:
  fixes st :: index_state
  defines "idx \<equiv> st_mapBlockIndex st"
  assumes "tree_wf idx" "link_inv [] idx (st_mapBlocksUnlinked st)"
    and p: "idx p = Some bi" "bi_nTx bi = 0"
    and vtx: "blk_vtx block \<noteq> []" "\<forall>r. tx_total idx r + length (blk_vtx block) < 2 ^ 32"
    and valid: "\<forall>q bq. bi_pprev bi = Some q \<longrightarrow> idx q = Some bq \<longrightarrow> index_IsValid BLOCK_VALID_TREE bq"
  shows "\<exists>st'. ReceivedBlockTransactions addr block p pos st = Some st' \<and> tree_wf (st_mapBlockIndex st') \<and>
    link_inv [] (st_mapBlockIndex st') (st_mapBlocksUnlinked st') \<and>
    (\<forall>r. prev_of (st_mapBlockIndex st') r = prev_of idx r) \<and>
    (\<forall>r. has_data (st_mapBlockIndex st') r \<longleftrightarrow> r = p \<or> has_data idx r) \<and>
    (inj addr \<longrightarrow> cands_wf addr idx (st_setBlockIndexCandidates st) \<longrightarrow>
       cands_wf addr (st_mapBlockIndex st') (st_setBlockIndexCandidates st'))"
proof -
  let ?n = "word_of_nat (length (blk_vtx block)) :: u32"
  define b0 where "b0 = (if block_IsProofOfStake block then SetProofOfStake bi else bi)"
  define b where "b = snd (RaiseValidity BLOCK_VALID_TRANSACTIONS (b0\<lparr>bi_nTx := ?n, bi_nChainTx := 0, bi_nFile := fst pos,
     bi_nDataPos := snd pos, bi_nUndoPos := 0, bi_nStatus := bi_nStatus b0 OR BLOCK_HAVE_DATA\<rparr>))"
  have l: "length (blk_vtx block) < 2 ^ 32" "0 < length (blk_vtx block)" using vtx by (auto dest: spec [of _ p])
  have n: "unat ?n = length (blk_vtx block)" using l(1) by (simp add: unat_of_nat take_bit_nat_eq_self)
  have n0: "?n \<noteq> 0" using n l(2) by auto
  have b: "links b = links bi" "bi_nTx b = ?n" "bi_nChainTx b = 0" "bi_nChainWork b = bi_nChainWork bi"
    by (simp_all add: b_def b0_def links_def RaiseValidity_def SetProofOfStake_def)
  define idx' where "idx' = idx(p \<mapsto> b)"
  have i: "idx' p = Some b" "\<And>r. r \<noteq> p \<Longrightarrow> idx' r = idx r" by (simp_all add: idx'_def)
  have t': "tree_wf idx'" unfolding idx'_def by (rule tree_wf_upd [OF assms(2) p(1) b(1,4)])
  have wf: "index_wf idx" using assms(2) by (simp add: tree_wf_def)
  have sl: "same_links idx idx'" unfolding idx'_def by (rule same_links_upd [of idx p bi, OF p(1) b(1)])
  have nl: "\<not> linked idx p" "\<not> has_data idx p" using assms(3) p by (auto simp: link_inv_def has_data_def)
  have lk: "linked idx' r = linked idx r" for r using i b(3) nl(1) by (cases "r = p") (auto simp: linked_def)
  have hd: "has_data idx' r \<longleftrightarrow> r = p \<or> has_data idx r" for r
    using i b(2) n0 by (cases "r = p") (auto simp: has_data_def)
  have pv: "prev_of idx' r = prev_of idx r" for r
    using i p(1) b(1) by (cases "r = p") (auto simp: prev_of_def links_def)
  have pl: "prev_linked idx' r = prev_linked idx r" for r by (simp add: prev_linked_def pv lk)
  have le: "tx_total idx' r \<le> tx_total idx r + length (blk_vtx block)" for r
  proof (cases "idx r")
    case None
    then have "idx' r = None" using i p(1) by (cases "r = p") auto
    then show ?thesis by (simp add: tx_total_def)
  next
    case (Some br)
    then show ?thesis using tx_total_add [of idx idx' p bi b r br, OF wf sl i(2) p i(1)] b(2) n by simp
  qed
  then have bound: "\<forall>r. tx_total idx' r < 2 ^ 32" using vtx(2) by (meson le_less_trans)
  have inv: "linked idx r \<Longrightarrow> has_data idx r \<and> prev_linked idx r \<and> (\<forall>br. idx r = Some br \<longrightarrow> unat (bi_nChainTx br) = tx_total idx r)"
    "has_data idx r \<Longrightarrow> linked idx r \<or> (\<exists>q. (Some q, r) \<in> set (st_mapBlocksUnlinked st))"
    "(a, r) \<in> set (st_mapBlocksUnlinked st) \<Longrightarrow> has_data idx r \<and> \<not> linked idx r \<and> (\<exists>q. a = Some q \<and> prev_of idx r = a \<and> \<not> linked idx q)"
    "distinct (map snd (st_mapBlocksUnlinked st))" for r a
    using assms(3) by (auto simp: link_inv_def)
  have same: "tx_total idx' r = tx_total idx r" if lr: "linked idx r" for r
  proof -
    obtain br where "idx r = Some br" using lr by (auto simp: linked_def)
    moreover have "idx' q = idx q \<and> prev_linked idx q" if "linked idx q" for q
      using that nl(1) inv(1) i(2) by (cases "q = p") auto
    ultimately show ?thesis using tx_total_linked [of idx idx' r br] wf t' lr by (simp add: tree_wf_def)
  qed
  have np: "(a, p) \<notin> set (st_mapBlocksUnlinked st)" for a using inv(3) nl(2) by blast
  have linv: "link_inv queue idx' (st_mapBlocksUnlinked st @ xs)"
    if qx: "queue = [p] \<and> xs = [] \<and> prev_linked idx p \<or>
      queue = [] \<and> (\<exists>q. xs = [(Some q, p)] \<and> bi_pprev bi = Some q \<and> \<not> linked idx q)" for queue xs
    unfolding link_inv_def
  proof (intro conjI allI impI ballI)
    fix r
    assume r: "linked idx' r"
    show "has_data idx' r" "prev_linked idx' r" using r inv(1) by (auto simp: hd lk pl)
    fix br
    assume br: "idx' r = Some br"
    have "r \<noteq> p" using r nl(1) by (auto simp: lk)
    then show "unat (bi_nChainTx br) = tx_total idx' r" using r br i(2) inv(1) same by (auto simp: lk)
  next
    fix r
    assume "has_data idx' r"
    then show "linked idx' r \<or> r \<in> set queue \<or> (\<exists>q. (Some q, r) \<in> set (st_mapBlocksUnlinked st @ xs))"
      using inv(2) qx by (auto simp: hd lk)
  next
    fix a r
    assume "(a, r) \<in> set (st_mapBlocksUnlinked st @ xs)"
    then consider "(a, r) \<in> set (st_mapBlocksUnlinked st)" | q where "a = Some q" "r = p" "bi_pprev bi = Some q" "\<not> linked idx q"
      using qx by auto
    then have "(r = p \<or> has_data idx r) \<and> \<not> linked idx r \<and> (\<exists>q. a = Some q \<and> prev_of idx r = a \<and> \<not> linked idx q)"
      using inv(3) nl(1) p(1) by cases (auto simp: prev_of_def)
    then show "has_data idx' r" "\<not> linked idx' r" "\<exists>q. a = Some q \<and> prev_of idx' r = a \<and> \<not> linked idx' q"
      by (auto simp: hd lk pv)
  next
    fix r
    assume "r \<in> set queue"
    then show "has_data idx' r" "\<not> linked idx' r" "prev_linked idx' r" using qx nl(1) by (auto simp: hd lk pl)
  next
    show "distinct (queue @ map snd (st_mapBlocksUnlinked st @ xs))" using qx inv(4) np by auto
  qed
  have cw: "cands_wf addr idx' cs" if "cands_wf addr idx cs" for cs
  proof -
    have "less_at addr idx' a c = less_at addr idx a c" if "a \<in> set cs" "c \<in> set cs" for a c
    proof -
      have "a \<noteq> p" "c \<noteq> p" using that nl(1) \<open>cands_wf addr idx cs\<close> by (auto simp: cands_wf_def)
      then show ?thesis using i(2) by (simp add: less_at_def)
    qed
    then show ?thesis
      using that by (auto simp: cands_wf_def lk pl intro: sorted_wrt_mono_rel [rotated])
  qed
  define st1 where "st1 = st\<lparr>st_mapBlockIndex := idx', st_setDirtyBlockIndex := insert p (st_setDirtyBlockIndex st)\<rparr>"
  have m1: "st_mapBlockIndex st1 = idx'" by (simp add: st1_def)
  have pb: "bi_pprev b = bi_pprev bi" using b(1) by (simp add: links_def)
  have R: "ReceivedBlockTransactions addr block p pos st =
     (case bi_pprev bi of
        None \<Rightarrow> Some (link_loop addr [p] st1)
      | Some q \<Rightarrow>
          (case idx' q of
             None \<Rightarrow> None
           | Some bq \<Rightarrow>
               if bi_nChainTx bq \<noteq> 0 then Some (link_loop addr [p] st1)
               else if index_IsValid BLOCK_VALID_TREE bq
               then Some (st1\<lparr>st_mapBlocksUnlinked := st_mapBlocksUnlinked st1 @ [(Some q, p)]\<rparr>)
               else Some st1))"
    unfolding ReceivedBlockTransactions_def idx_def [symmetric] p(1) option.case Let_def b0_def [symmetric] b_def [symmetric]
      idx'_def [symmetric] st1_def [symmetric] pb m1 by (rule refl)
  have link: ?thesis if "ReceivedBlockTransactions addr block p pos st = Some (link_loop addr [p] st1)" "prev_linked idx p"
    using link_loop_inv [of st1 "[p]" addr] link_loop_cands [of addr st1 "[p]"] t' linv [of "[p]" "[]"] bound that cw
    by (simp add: st1_def hd pv del: link_loop.simps)
  show ?thesis
  proof (cases "bi_pprev bi")
    case None
    then show ?thesis using R link p(1) by (simp add: prev_linked_def prev_of_def del: link_loop.simps)
  next
    case (Some q)
    then obtain bq where bq: "idx q = Some bq" "bi_nHeight bi = bi_nHeight bq + 1"
      using wf p(1) by (fastforce simp: index_wf_def entry_wf_def)
    then have "q \<noteq> p" using p(1) by auto
    then have q': "idx' q = Some bq" using i(2) bq(1) by simp
    show ?thesis
    proof (cases "bi_nChainTx bq = 0")
      case True
      then have "\<not> linked idx q" using bq(1) by (simp add: linked_def)
      then show ?thesis
        using True R Some q' valid bq(1) t' linv [of "[]" "[(Some q, p)]"] cw by (simp add: st1_def hd pv)
    next
      case False
      then have "prev_linked idx p" using Some p(1) bq(1) by (auto simp: prev_linked_def prev_of_def linked_def)
      then show ?thesis using link R Some q' False by (simp del: link_loop.simps)
    qed
  qed
qed

text \<open>In a state of the invariant the linked blocks are those all of whose ancestors have data.\<close>

lemma linked_iff:
  assumes "index_wf idx" "link_inv [] idx unlinked" "idx p = Some bi"
  shows "linked idx p \<longleftrightarrow> (\<forall>k q. walk idx k p = Some q \<longrightarrow> has_data idx q)"
  using assms(3)
proof (induction "bi_nHeight bi" arbitrary: p bi rule: less_induct)
  case less
  have up: "(\<forall>k q. walk idx k p = Some q \<longrightarrow> has_data idx q) \<longleftrightarrow>
      has_data idx p \<and> (\<forall>r. bi_pprev bi = Some r \<longrightarrow> (\<forall>k q. walk idx k r = Some q \<longrightarrow> has_data idx q))"
  proof (intro iffI conjI allI impI)
    assume a: "\<forall>k q. walk idx k p = Some q \<longrightarrow> has_data idx q"
    then show "has_data idx p" by (metis walk_0)
    show "has_data idx q" if "bi_pprev bi = Some r" "walk idx k r = Some q" for r k q
      using a that walk_Suc' [of idx p bi r k, OF less.prems] by auto
  next
    fix k q
    assume b: "has_data idx p \<and> (\<forall>r. bi_pprev bi = Some r \<longrightarrow> (\<forall>k q. walk idx k r = Some q \<longrightarrow> has_data idx q))"
      and k: "walk idx k p = Some q"
    show "has_data idx q"
    proof (cases k)
      case (Suc j)
      show ?thesis
      proof (cases "bi_pprev bi")
        case None
        then have "walk idx (Suc i) p = None" for i using less.prems by (induction i) (simp_all add: walk_Suc deref_def)
        then show ?thesis using k Suc by simp
      next
        case (Some r)
        then show ?thesis using b k Suc walk_Suc' [of idx p bi r j, OF less.prems] by auto
      qed
    qed (use b k in simp)
  qed
  have prev: "linked idx r \<longleftrightarrow> (\<forall>k q. walk idx k r = Some q \<longrightarrow> has_data idx q)" if r: "bi_pprev bi = Some r" for r
  proof -
    obtain br where "idx r = Some br" "bi_nHeight bi = bi_nHeight br + 1"
      using assms(1) less.prems r by (fastforce simp: index_wf_def entry_wf_def)
    then show ?thesis using less.hyps [of br r] by simp
  qed
  have "linked idx p \<longleftrightarrow> has_data idx p \<and> prev_linked idx p"
    using assms(2) unfolding link_inv_def prev_linked_def by fastforce
  also have "prev_linked idx p \<longleftrightarrow> (\<forall>r. bi_pprev bi = Some r \<longrightarrow> linked idx r)"
    using less.prems by (simp add: prev_linked_def prev_of_def)
  finally show ?case using up prev by auto
qed

section \<open>The best candidate\<close>

definition usable :: "CBlockIndex \<Rightarrow> bool" where
  "usable bi \<longleftrightarrow> bi_nStatus bi AND BLOCK_FAILED_MASK = 0 \<and> bi_nStatus bi AND BLOCK_HAVE_DATA \<noteq> 0"

text \<open>Block \<open>q\<close> is \<open>k\<close> below \<open>p\<close>, and neither it nor a block between them is in the chain.\<close>

definition open_path :: "BlockMap \<Rightarrow> CChain \<Rightarrow> u256 \<Rightarrow> nat \<Rightarrow> u256 \<Rightarrow> bool" where
  "open_path idx vChain p k q \<longleftrightarrow>
     walk idx k p = Some q \<and> (\<forall>j r. j \<le> k \<longrightarrow> walk idx j p = Some r \<longrightarrow> \<not> Contains idx vChain r)"

definition path_ok :: "BlockMap \<Rightarrow> CChain \<Rightarrow> u256 \<Rightarrow> bool" where
  "path_ok idx vChain p \<longleftrightarrow> (\<forall>k q bq. open_path idx vChain p k q \<longrightarrow> idx q = Some bq \<longrightarrow> usable bq)"

lemma open_path_trans:
  assumes "open_path idx v p k q" "open_path idx v q n t"
  shows "open_path idx v p (n + k) t"
proof -
  have w: "walk idx k p = Some q" using assms(1) by (simp add: open_path_def)
  have "\<not> Contains idx v r" if j: "j \<le> n + k" "walk idx j p = Some r" for j r
  proof (cases "j \<le> k")
    case True
    then show ?thesis using assms(1) j by (auto simp: open_path_def)
  next
    case False
    then have "walk idx (j - k) q = Some r" using walk_add [OF w, of "j - k"] j by simp
    moreover have "j - k \<le> n" using j(1) by simp
    ultimately show ?thesis using assms(2) unfolding open_path_def by blast
  qed
  then show ?thesis using assms(2) walk_add [OF w, of n] by (simp add: open_path_def)
qed

lemma open_path_from:
  assumes "open_path idx v p n t" "walk idx j p = Some q" "j \<le> n"
  shows "open_path idx v p j q" "open_path idx v q (n - j) t"
proof -
  show "open_path idx v p j q" using assms unfolding open_path_def by (metis le_trans)
  have w: "walk idx i q = walk idx (i + j) p" for i using walk_add [OF assms(2)] by simp
  show "open_path idx v q (n - j) t"
    unfolding open_path_def
  proof (intro conjI allI impI)
    show "walk idx (n - j) q = Some t" using assms by (simp add: w open_path_def)
    fix i r
    assume "i \<le> n - j" "walk idx i q = Some r"
    then have "i + j \<le> n" "walk idx (i + j) p = Some r" using assms(3) w by simp_all
    then show "\<not> Contains idx v r" using assms(1) unfolding open_path_def by blast
  qed
qed

lemma bad_ancestor_ok:
  assumes "index_wf idx" "idx p = Some bi" "bi_nHeight bi + 2 \<le> fuel"
    and "\<forall>k q bq. walk idx k p = Some q \<longrightarrow> idx q = Some bq \<longrightarrow> bi_nChainTx bq \<noteq> 0"
  shows "\<exists>r. bad_ancestor fuel idx v (Some p) = Some r \<and>
    (case r of None \<Rightarrow> path_ok idx v p | Some t \<Rightarrow> \<exists>n bt. open_path idx v p n t \<and> idx t = Some bt \<and> \<not> usable bt)"
  using assms(2-4)
proof (induction fuel arbitrary: p bi)
  case (Suc fuel)
  note bi = Suc.prems(1)
  have ct: "bi_nChainTx bi \<noteq> 0" using Suc.prems(3) bi by (metis walk_0)
  have base: "open_path idx v p 0 p" if "\<not> Contains idx v p" using that by (simp add: open_path_def)
  consider "Contains idx v p" | "\<not> Contains idx v p" "\<not> usable bi" | "\<not> Contains idx v p" "usable bi" by blast
  then show ?case
  proof cases
    case 1
    then have "path_ok idx v p" unfolding path_ok_def open_path_def by (metis walk_0 zero_le)
    then show ?thesis using 1 by auto
  next
    case 2
    then have "bad_ancestor (Suc fuel) idx v (Some p) = Some (Some p)" using bi ct by (auto simp: usable_def)
    then show ?thesis using base [OF 2(1)] bi 2(2) by auto
  next
    case 3
    have b: "bad_ancestor (Suc fuel) idx v (Some p) = bad_ancestor fuel idx v (bi_pprev bi)" using 3 bi ct by (simp add: usable_def)
    show ?thesis
    proof (cases "bi_pprev bi")
      case None
      have "walk idx (Suc i) p = None" for i using bi None by (induction i) (simp_all add: walk_Suc deref_def)
      then have "q = p" if "walk idx k p = Some q" for k q using that by (cases k) auto
      then have "path_ok idx v p" using bi 3 unfolding path_ok_def open_path_def by (metis option.inject)
      moreover obtain f where "fuel = Suc f" using Suc.prems(2) by (cases fuel) auto
      ultimately show ?thesis using b None by simp
    next
      case (Some q)
      then obtain bq where q: "idx q = Some bq" "bi_nHeight bi = bi_nHeight bq + 1"
        using assms(1) bi by (fastforce simp: index_wf_def entry_wf_def)
      have w: "walk idx (Suc k) p = walk idx k q" for k using walk_Suc' [of idx p bi q, OF bi Some] .
      have one: "walk idx 1 p = Some q" using w [of 0] by simp
      have "\<forall>k r br. walk idx k q = Some r \<longrightarrow> idx r = Some br \<longrightarrow> bi_nChainTx br \<noteq> 0" using Suc.prems(3) w by metis
      then obtain r where r: "bad_ancestor fuel idx v (Some q) = Some r"
        "case r of None \<Rightarrow> path_ok idx v q | Some t \<Rightarrow> \<exists>n bt. open_path idx v q n t \<and> idx t = Some bt \<and> \<not> usable bt"
        using Suc.IH [OF q(1)] q(2) Suc.prems(2) by auto
      have up: "open_path idx v p (Suc n) t" if "open_path idx v q n t" for n t
        unfolding open_path_def
      proof (intro conjI allI impI)
        show "walk idx (Suc n) p = Some t" using that w by (simp add: open_path_def)
        fix j x
        assume "j \<le> Suc n" "walk idx j p = Some x"
        then show "\<not> Contains idx v x" using that 3(1) w by (cases j) (auto simp: open_path_def)
      qed
      show ?thesis
      proof (cases r)
        case None
        have "usable bt" if "open_path idx v p k t" "idx t = Some bt" for k t bt
        proof (cases k)
          case 0
          then show ?thesis using that bi 3(2) by (simp add: open_path_def)
        next
          case (Suc j)
          then show ?thesis using that r(2) None open_path_from(2) [OF that(1) one] by (auto simp: path_ok_def)
        qed
        then show ?thesis using b Some r(1) None by (auto simp: path_ok_def)
      next
        case (Some t)
        then show ?thesis using b \<open>bi_pprev bi = Some q\<close> r up by auto
      qed
    qed
  qed
qed simp

text \<open>What dropping the blocks from \<open>p\<close> down to the bad block \<open>test\<close> does.\<close>

definition mark_failed :: "bool \<Rightarrow> u256 set \<Rightarrow> BlockMap \<Rightarrow> BlockMap" where
  "mark_failed f D idx =
     (\<lambda>q. if f \<and> q \<in> D then map_option (\<lambda>bi. bi\<lparr>bi_nStatus := bi_nStatus bi OR BLOCK_FAILED_CHILD\<rparr>) (idx q) else idx q)"

definition below :: "BlockMap \<Rightarrow> nat \<Rightarrow> u256 \<Rightarrow> u256 set" where
  "below idx n p = {q. \<exists>j < n. walk idx j p = Some q}"

lemma walk_le_height:
  assumes "index_wf idx" "idx p = Some bi" "walk idx n p = Some q"
  shows "n \<le> bi_nHeight bi"
proof (rule ccontr)
  assume "\<not> n \<le> bi_nHeight bi"
  then obtain i where "n = i + Suc (bi_nHeight bi)" by (metis add.commute less_imp_Suc_add not_le add_Suc_right)
  moreover have "walk idx (i + Suc (bi_nHeight bi)) p = None" for i
    using walk_beyond [OF assms(1,2)] by (induction i) (simp_all add: walk_Suc deref_def)
  ultimately show False using assms(3) by simp
qed

lemma same_links_mark: "same_links idx (mark_failed f D idx)"
  by (simp add: same_links_def mark_failed_def option.map_comp o_def)

lemma below_Suc:
  assumes "idx p = Some bi" "bi_pprev bi = Some q"
  shows "below idx (Suc n) p = insert p (below idx n q)"
proof -
  have w: "walk idx (Suc j) p = walk idx j q" for j using walk_Suc' [of idx p bi q, OF assms] .
  show ?thesis
  proof (intro set_eqI iffI)
    fix r
    assume "r \<in> below idx (Suc n) p"
    then obtain j where "j < Suc n" "walk idx j p = Some r" by (auto simp: below_def)
    then show "r \<in> insert p (below idx n q)" using w by (cases j) (auto simp: below_def)
  next
    fix r
    assume "r \<in> insert p (below idx n q)"
    then show "r \<in> below idx (Suc n) p"
      using w by (auto simp: below_def)
  qed
qed

lemma drop_chain_path:
  assumes "index_wf (st_mapBlockIndex st)" "st_mapBlockIndex st p = Some bi" "walk (st_mapBlockIndex st) n p = Some test" "n < fuel"
  shows "st_setBlockIndexCandidates (drop_chain fuel f test (Some p) st) =
      filter (\<lambda>q. q \<notin> below (st_mapBlockIndex st) n p) (st_setBlockIndexCandidates st) \<and>
    st_mapBlockIndex (drop_chain fuel f test (Some p) st) = mark_failed f (below (st_mapBlockIndex st) n p) (st_mapBlockIndex st) \<and>
    st_chainActive (drop_chain fuel f test (Some p) st) = st_chainActive st"
  using assms
proof (induction fuel arbitrary: p bi n st)
  case (Suc fuel)
  let ?idx = "st_mapBlockIndex st"
  show ?case
  proof (cases n)
    case 0
    then show ?thesis using Suc.prems(3) by (simp add: below_def mark_failed_def)
  next
    case (Suc m)
    have n1: "walk ?idx (Suc i) p = None" if "bi_pprev bi = None" for i
      using Suc.prems(2) that by (induction i) (simp_all add: walk_Suc deref_def)
    then obtain q where q: "bi_pprev bi = Some q" using Suc.prems(3) Suc by (cases "bi_pprev bi") auto
    obtain bq where bq: "?idx q = Some bq" "bi_nHeight bi = bi_nHeight bq + 1"
      using Suc.prems(1,2) q by (fastforce simp: index_wf_def entry_wf_def)
    have wq: "walk ?idx m q = Some test" using Suc.prems(3) Suc walk_Suc' [of ?idx p bi q m, OF Suc.prems(2) q] by simp
    have hq: "bi_nHeight bt \<le> bi_nHeight bq" if "?idx test = Some bt" for bt
      using walk_height [OF Suc.prems(1) bq(1) walk_le_height [OF Suc.prems(1) bq(1) wq]] wq that by auto
    have pt: "p \<noteq> test" using hq Suc.prems(2) bq(2) by fastforce
    define st1 where "st1 = (if f then st\<lparr>st_mapBlockIndex := ?idx(p \<mapsto> bi\<lparr>bi_nStatus := bi_nStatus bi OR BLOCK_FAILED_CHILD\<rparr>)\<rparr>
      else st\<lparr>st_mapBlocksUnlinked := st_mapBlocksUnlinked st @ [(bi_pprev bi, p)]\<rparr>)"
    define st2 where "st2 = st1\<lparr>st_setBlockIndexCandidates := set_erase p (st_setBlockIndexCandidates st1)\<rparr>"
    have d: "drop_chain (Suc fuel) f test (Some p) st = drop_chain fuel f test (Some q) st2"
      using pt Suc.prems(2) q by (simp add: st1_def st2_def Let_def)
    have m2: "st_mapBlockIndex st2 = mark_failed f {p} ?idx"
      using Suc.prems(2) by (auto simp: st2_def st1_def mark_failed_def)
    have sl: "same_links ?idx (st_mapBlockIndex st2)" unfolding m2 by (rule same_links_mark)
    have w2: "walk (st_mapBlockIndex st2) j r = walk ?idx j r" for j r using walk_same_links [OF sl] by simp
    then have bl: "below (st_mapBlockIndex st2) j r = below ?idx j r" for j r by (simp add: below_def)
    have iw: "index_wf (st_mapBlockIndex st2)" using index_wf_same_links [OF Suc.prems(1) sl] .
    obtain bq2 where bq2: "st_mapBlockIndex st2 q = Some bq2" using same_links_Some [OF sl bq(1)] by blast
    have "walk (st_mapBlockIndex st2) m q = Some test" "m < fuel" using wq w2 Suc Suc.prems(4) by simp_all
    note IH = Suc.IH [OF iw bq2 this, unfolded bl]
    have e: "st_setBlockIndexCandidates st2 = set_erase p (st_setBlockIndexCandidates st)" "st_chainActive st2 = st_chainActive st"
      by (simp_all add: st2_def st1_def)
    have "mark_failed f (below ?idx m q) (mark_failed f {p} ?idx) = mark_failed f (insert p (below ?idx m q)) ?idx"
      by (rule ext) (auto simp: mark_failed_def option.map_comp o_def or.assoc)
    then show ?thesis
      using IH Suc below_Suc [of ?idx p bi q m, OF Suc.prems(2) q] unfolding d m2
      by (simp add: e set_erase_def conj_commute)
  qed
qed simp

lemma drop_candidate_path:
  fixes st :: index_state
  defines "idx \<equiv> st_mapBlockIndex st"
  assumes "index_wf idx" "idx new = Some bn" "walk idx n new = Some test"
  obtains f where "f = (case idx test of None \<Rightarrow> False | Some bt \<Rightarrow> bi_nStatus bt AND BLOCK_FAILED_MASK \<noteq> 0)"
    "st_setBlockIndexCandidates (drop_candidate new bn test st) =
       filter (\<lambda>q. q \<notin> insert test (below idx n new)) (st_setBlockIndexCandidates st)"
    "st_mapBlockIndex (drop_candidate new bn test st) = mark_failed f (below idx n new) idx"
    "st_chainActive (drop_candidate new bn test st) = st_chainActive st"
proof -
  define f where "f = (case idx test of None \<Rightarrow> False | Some bt \<Rightarrow> bi_nStatus bt AND BLOCK_FAILED_MASK \<noteq> 0)"
  define st1 where "st1 = (if f \<and> (case Option.bind (st_pindexBestInvalid st) idx of
        None \<Rightarrow> True | Some b \<Rightarrow> CompareTo (bi_nChainWork bn) (bi_nChainWork b) > 0)
      then st\<lparr>st_pindexBestInvalid := Some new\<rparr> else st)"
  have st1: "st_setBlockIndexCandidates st1 = st_setBlockIndexCandidates st" "st_mapBlockIndex st1 = idx"
    "st_chainActive st1 = st_chainActive st" by (simp_all add: st1_def idx_def)
  have d: "drop_candidate new bn test st = (drop_chain (bi_nHeight bn + 1) f test (Some new) st1)
      \<lparr>st_setBlockIndexCandidates := set_erase test (st_setBlockIndexCandidates (drop_chain (bi_nHeight bn + 1) f test (Some new) st1))\<rparr>"
    unfolding drop_candidate_def Let_def idx_def [symmetric] f_def [symmetric] st1_def [symmetric] by (rule refl)
  have n: "n < bi_nHeight bn + 1" using walk_le_height [OF assms(2-4)] by simp
  show ?thesis
    using drop_chain_path [of st1 new bn n test "bi_nHeight bn + 1" f] assms(2-4) n
    by (intro that [of f]) (simp_all add: d f_def st1 set_erase_def conj_commute del: drop_chain.simps)
qed

lemma same_links_Contains:
  assumes "same_links idx idx'"
  shows "Contains idx' v p = Contains idx v p"
proof (cases "idx p")
  case None
  then have "idx' p = None" using same_links_None [OF assms] by simp
  with None show ?thesis by (simp add: Contains_def)
next
  case (Some bi)
  then obtain bi' where "idx' p = Some bi'" "links bi' = links bi" using same_links_Some [OF assms] by blast
  with Some show ?thesis by (simp add: Contains_def links_def)
qed

lemma path_ok_mark:
  assumes "index_wf idx" "open_path idx v new n test" "idx test = Some bt" "\<not> usable bt"
  shows "path_ok (mark_failed f (below idx n new) idx) v c \<longleftrightarrow> path_ok idx v c"
    and "c \<in> insert test (below idx n new) \<Longrightarrow> \<not> path_ok idx v c"
proof -
  let ?D = "below idx n new" and ?idx = "mark_failed f (below idx n new) idx"
  have op: "open_path ?idx v a k b = open_path idx v a k b" for a k b
    using walk_same_links [OF same_links_mark [of idx f ?D]] same_links_Contains [OF same_links_mark [of idx f ?D]]
    by (simp add: open_path_def)
  have D: "\<exists>k. open_path idx v q k test" if qD: "q \<in> insert test ?D" for q
  proof (cases "q = test")
    case True
    have "open_path idx v test (n - n) test" by (rule open_path_from(2) [OF assms(2)]) (use assms(2) in \<open>auto simp: open_path_def\<close>)
    then show ?thesis using True by auto
  next
    case False
    then obtain j where "j < n" "walk idx j new = Some q" using qD by (auto simp: below_def)
    then show ?thesis using open_path_from(2) [OF assms(2), of j q] by auto
  qed
  show nd: "\<not> path_ok idx v c" if "c \<in> insert test ?D" for c
    using D [OF that] assms(3,4) by (auto simp: path_ok_def)
  have u: "\<not> usable (bi\<lparr>bi_nStatus := bi_nStatus bi OR BLOCK_FAILED_CHILD\<rparr>)" for bi
  proof
    assume "usable (bi\<lparr>bi_nStatus := bi_nStatus bi OR BLOCK_FAILED_CHILD\<rparr>)"
    then have "bit ((bi_nStatus bi OR 64) AND 96) 6 = bit (0 :: u32) 6" by (simp add: usable_def)
    then show False by (simp add: bit_and_iff bit_or_iff)
  qed
  show "path_ok ?idx v c \<longleftrightarrow> path_ok idx v c"
  proof
    assume a: "path_ok ?idx v c"
    show "path_ok idx v c"
      unfolding path_ok_def
    proof (intro allI impI)
      fix k q bq
      assume q: "open_path idx v c k q" "idx q = Some bq"
      define b where "b = (if f \<and> q \<in> ?D then bq\<lparr>bi_nStatus := bi_nStatus bq OR BLOCK_FAILED_CHILD\<rparr> else bq)"
      have "?idx q = Some b" using q(2) by (simp add: mark_failed_def b_def)
      then have "usable b" using a q(1) unfolding path_ok_def op by blast
      then show "usable bq" using u [of bq] by (auto simp: b_def split: if_splits)
    qed
  next
    assume a: "path_ok idx v c"
    show "path_ok ?idx v c"
      unfolding path_ok_def
    proof (intro allI impI)
      fix k q bq
      assume q: "open_path ?idx v c k q" "?idx q = Some bq"
      have "q \<notin> ?D"
      proof
        assume "q \<in> ?D"
        then obtain m where "open_path idx v q m test" using D by blast
        then have "open_path idx v c (m + k) test" using open_path_trans q(1) op by blast
        then show False using a assms(3,4) by (auto simp: path_ok_def)
      qed
      then have "idx q = Some bq" "open_path idx v c k q" using q op by (auto simp: mark_failed_def)
      then show "usable bq" using a unfolding path_ok_def by blast
    qed
  qed
qed

lemma less_at_mark: "less_at addr (mark_failed f D idx) = less_at addr idx"
  by (intro ext) (auto simp: less_at_def mark_failed_def WorkComparator_def split: option.splits)

lemma linked_mark: "linked (mark_failed f D idx) p = linked idx p" "prev_of (mark_failed f D idx) p = prev_of idx p"
  by (cases "idx p"; auto simp: linked_def mark_failed_def prev_of_def)+

lemma cands_wf_mark: "cands_wf addr idx cs \<Longrightarrow> cands_wf addr (mark_failed f D idx) (filter P cs)"
  by (auto simp: cands_wf_def less_at_mark sorted_wrt_filter linked_mark prev_linked_def)

text \<open>The best acceptable element of a set, if there is an acceptable one.\<close>

definition best_of :: "('a \<Rightarrow> bool) \<Rightarrow> ('a \<Rightarrow> 'a \<Rightarrow> bool) \<Rightarrow> 'a set \<Rightarrow> 'a option \<Rightarrow> bool" where
  "best_of ok lt S r \<longleftrightarrow>
     (case r of
        None \<Rightarrow> \<forall>c \<in> S. \<not> ok c
      | Some p \<Rightarrow> p \<in> S \<and> ok p \<and> (\<forall>c \<in> S. ok c \<longrightarrow> c = p \<or> lt c p))"

lemma best_of_drop: "best_of ok lt (S - D) r \<Longrightarrow> (\<And>c. c \<in> D \<Longrightarrow> \<not> ok c) \<Longrightarrow> best_of ok lt S r"
  by (auto simp: best_of_def split: option.splits)

lemma FindMostWorkChain_ok:
  assumes "tree_wf (st_mapBlockIndex st)" "cands_wf addr (st_mapBlockIndex st) (st_setBlockIndexCandidates st)"
  shows "\<exists>r st'. FindMostWorkChain st = Some (r, st') \<and>
    best_of (path_ok (st_mapBlockIndex st) (st_chainActive st)) (less_at addr (st_mapBlockIndex st))
      (set (st_setBlockIndexCandidates st)) r"
  using assms
proof (induction st rule: FindMostWorkChain.induct)
  case (1 st)
  let ?idx = "st_mapBlockIndex st" and ?cs = "st_setBlockIndexCandidates st" and ?v = "st_chainActive st"
  show ?case
  proof (cases "?cs = []")
    case True
    then show ?thesis by (simp add: FindMostWorkChain.simps best_of_def)
  next
    case ne: False
    define new where "new = last ?cs"
    have new: "new \<in> set ?cs" using ne by (simp add: new_def)
    have ln: "linked ?idx new" using 1(3) new by (simp add: cands_wf_def)
    then obtain bn where bn: "?idx new = Some bn" by (auto simp: linked_def)
    have anc: "bi_nChainTx bq \<noteq> 0" if "walk ?idx k new = Some q" "?idx q = Some bq" for k q bq
      using linked_ancestors [OF _ ln that(1)] 1(3) that(2) by (auto simp: cands_wf_def linked_def)
    have wf: "index_wf ?idx" using 1(2) by (simp add: tree_wf_def)
    obtain r where r: "bad_ancestor (bi_nHeight bn + 2) ?idx ?v (Some new) = Some r"
      "case r of None \<Rightarrow> path_ok ?idx ?v new | Some t \<Rightarrow> \<exists>n bt. open_path ?idx ?v new n t \<and> ?idx t = Some bt \<and> \<not> usable bt"
      using bad_ancestor_ok [OF wf bn, of "bi_nHeight bn + 2" ?v] anc by auto
    show ?thesis
    proof (cases r)
      case None
      then have f: "FindMostWorkChain st = Some (Some new, st)"
        using ne bn r(1) by (simp add: FindMostWorkChain.simps [of st] new_def)
      have "c = new \<or> less_at addr ?idx c new" if c: "c \<in> set ?cs" for c
      proof -
        have s: "sorted_wrt (less_at addr ?idx) (butlast ?cs @ [new])" using 1(3) ne by (simp add: cands_wf_def new_def)
        have "c \<in> set (butlast ?cs) \<or> c = new" using c ne by (metis Un_iff append_butlast_last_id empty_iff insert_iff list.set(1) list.set(2) new_def set_append)
        then show ?thesis using s by (auto simp: sorted_wrt_append)
      qed
      then show ?thesis using f new r(2) None by (auto simp: best_of_def)
    next
      case (Some test)
      then obtain n bt where t: "open_path ?idx ?v new n test" "?idx test = Some bt" "\<not> usable bt" using r(2) by auto
      then have wt: "walk ?idx n new = Some test" by (simp add: open_path_def)
      let ?D = "below ?idx n new"
      define st2 where "st2 = drop_candidate new bn test st"
      obtain f where f: "st_setBlockIndexCandidates st2 = filter (\<lambda>q. q \<notin> insert test ?D) ?cs"
        "st_mapBlockIndex st2 = mark_failed f ?D ?idx" "st_chainActive st2 = ?v"
        unfolding st2_def using drop_candidate_path [OF wf bn wt] by metis
      have e: "FindMostWorkChain st = FindMostWorkChain st2"
        using ne bn r(1) Some by (simp add: FindMostWorkChain.simps [of st] new_def [symmetric] st2_def)
      have "tree_wf (st_mapBlockIndex st2)"
        unfolding f(2) tree_wf_def
        using index_wf_same_links [OF wf same_links_mark] 1(2) by (auto simp: mark_failed_def tree_wf_def split: if_splits)
      moreover have "cands_wf addr (st_mapBlockIndex st2) (st_setBlockIndexCandidates st2)"
        unfolding f(1,2) by (rule cands_wf_mark [OF 1(3)])
      ultimately obtain r' st' where r': "FindMostWorkChain st2 = Some (r', st')"
        "best_of (path_ok (st_mapBlockIndex st2) (st_chainActive st2)) (less_at addr (st_mapBlockIndex st2))
          (set (st_setBlockIndexCandidates st2)) r'"
        using 1(1) [OF ne new_def bn _ refl, of test] r(1) Some unfolding st2_def by auto
      have pk: "path_ok (st_mapBlockIndex st2) (st_chainActive st2) = path_ok ?idx ?v"
        unfolding f using path_ok_mark(1) [OF wf t] by (intro ext) simp
      have "set (st_setBlockIndexCandidates st2) = set ?cs - insert test ?D" unfolding f(1) by auto
      then have "best_of (path_ok ?idx ?v) (less_at addr ?idx) (set ?cs - insert test ?D) r'"
        using r'(2) unfolding pk by (simp only: f(2) less_at_mark)
      then have "best_of (path_ok ?idx ?v) (less_at addr ?idx) (set ?cs) r'"
        by (rule best_of_drop) (rule path_ok_mark(2) [OF wf t])
      then show ?thesis using r'(1) unfolding e by blast
    qed
  qed
qed

section \<open>Pruning and reconsidering\<close>

lemma dropWhile_sorted:
  "sorted_wrt lt xs \<Longrightarrow> (\<And>a b. a \<in> set xs \<Longrightarrow> b \<in> set xs \<Longrightarrow> lt a b \<Longrightarrow> P b \<Longrightarrow> P a) \<Longrightarrow> dropWhile P xs = filter (\<lambda>x. \<not> P x) xs"
proof (induction xs)
  case (Cons x xs)
  have "filter (\<lambda>x. \<not> P x) xs = xs" if "\<not> P x"
  proof (rule filter_True)
    show "\<forall>y \<in> set xs. \<not> P y" using Cons.prems that by auto
  qed
  moreover have "dropWhile P xs = filter (\<lambda>x. \<not> P x) xs" by (rule Cons.IH) (use Cons.prems in auto)
  ultimately show ?case by simp
qed simp

lemma prune_candidates:
  assumes "tree_wf (st_mapBlockIndex st)" "cands_wf addr (st_mapBlockIndex st) (st_setBlockIndexCandidates st)"
    and "chain_tip (st_chainActive st) = Some t" "st_mapBlockIndex st t = Some bt" "t \<in> set (st_setBlockIndexCandidates st)"
  shows "PruneBlockIndexCandidates addr st =
    Some (st\<lparr>st_setBlockIndexCandidates := filter (\<lambda>c. \<not> less_at addr (st_mapBlockIndex st) c t) (st_setBlockIndexCandidates st)\<rparr>)"
proof -
  let ?lt = "less_at addr (st_mapBlockIndex st)" and ?cs = "st_setBlockIndexCandidates st"
  have e: "\<exists>b. st_mapBlockIndex st c = Some b" if "c \<in> set ?cs" for c
    using assms(2) that by (auto simp: cands_wf_def linked_def)
  have "dropWhile (\<lambda>c. ?lt c t) ?cs = filter (\<lambda>c. \<not> ?lt c t) ?cs"
  proof (rule dropWhile_sorted [of ?lt])
    show "sorted_wrt ?lt ?cs" using assms(2) by (simp add: cands_wf_def)
    fix a b
    assume a: "a \<in> set ?cs" "b \<in> set ?cs" "?lt a b" "?lt b t"
    obtain x y where "st_mapBlockIndex st a = Some x" "st_mapBlockIndex st b = Some y" using e a(1,2) by blast
    then show "?lt a t" using a(3,4) assms(4) by (simp add: less_at_key [OF assms(1)])
  qed
  moreover have "\<not> ?lt t t" using less_at_key [OF assms(1,4,4)] by simp
  then have "filter (\<lambda>c. \<not> ?lt c t) ?cs \<noteq> []" using assms(5) by (auto simp: filter_empty_conv)
  ultimately show ?thesis using assms(3) by (simp add: PruneBlockIndexCandidates_def)
qed

text \<open>Reconsidering only ever clears failure marks.\<close>

definition cleared :: "BlockMap \<Rightarrow> BlockMap \<Rightarrow> bool" where
  "cleared idx idx' \<longleftrightarrow> (\<forall>q. idx' q = idx q \<or> idx' q = map_option clear_failed (idx q))"

definition not_failed :: "BlockMap \<Rightarrow> u256 \<Rightarrow> bool" where
  "not_failed idx q \<longleftrightarrow> (\<forall>bq. idx q = Some bq \<longrightarrow> bi_nStatus bq AND BLOCK_FAILED_MASK = 0)"

lemma clear_failed_mask: "bi_nStatus (clear_failed bi) AND BLOCK_FAILED_MASK = 0"
  by (simp add: clear_failed_def and.assoc)

lemma clear_failed_idem: "clear_failed (clear_failed bi) = clear_failed bi"
  by (simp add: clear_failed_def and.assoc)

lemma cleared_refl: "cleared idx idx"
  by (simp add: cleared_def)

lemma cleared_trans: "cleared a b \<Longrightarrow> cleared b c \<Longrightarrow> cleared a c"
proof -
  have "map_option clear_failed (map_option clear_failed x) = map_option clear_failed x" for x
    by (simp add: option.map_comp o_def clear_failed_idem)
  then show "cleared a b \<Longrightarrow> cleared b c \<Longrightarrow> cleared a c" unfolding cleared_def by metis
qed

lemma cleared_upd: "idx p = Some bi \<Longrightarrow> cleared idx (idx(p \<mapsto> clear_failed bi))"
  by (simp add: cleared_def)

lemma cleared_links: "cleared idx idx' \<Longrightarrow> same_links idx idx'"
proof -
  have "map_option links (map_option clear_failed x) = map_option links x" for x by (simp add: option.map_comp o_def)
  then show "cleared idx idx' \<Longrightarrow> same_links idx idx'" unfolding cleared_def same_links_def by metis
qed

lemma cleared_not_failed: "cleared idx idx' \<Longrightarrow> not_failed idx q \<Longrightarrow> not_failed idx' q"
  unfolding cleared_def not_failed_def using clear_failed_mask by (metis map_option_eq_Some)

lemma reconsider_entry_ok:
  "cleared (st_mapBlockIndex st) (st_mapBlockIndex (reconsider_entry addr p h e st)) \<and>
   (GetAncestor (st_mapBlockIndex st) e h = Some p \<longrightarrow> not_failed (st_mapBlockIndex (reconsider_entry addr p h e st)) e)"
  by (auto simp: reconsider_entry_def Let_def cleared_refl cleared_upd not_failed_def index_IsValid_def
      split: option.splits if_splits simp del: fun_upd_apply) (auto simp: clear_failed_mask)

lemma reconsider_entries_ok:
  assumes "index_wf (st_mapBlockIndex st)"
  shows "cleared (st_mapBlockIndex st) (st_mapBlockIndex (fold (reconsider_entry addr p h) es st)) \<and>
    (\<forall>e \<in> set es. GetAncestor (st_mapBlockIndex st) e h = Some p \<longrightarrow>
       not_failed (st_mapBlockIndex (fold (reconsider_entry addr p h) es st)) e)"
  using assms
proof (induction es arbitrary: st)
  case (Cons e es)
  let ?st = "reconsider_entry addr p h e st"
  have c: "cleared (st_mapBlockIndex st) (st_mapBlockIndex ?st)" using reconsider_entry_ok by blast
  have w: "index_wf (st_mapBlockIndex ?st)" using index_wf_same_links [OF Cons.prems cleared_links [OF c]] .
  have anc: "GetAncestor (st_mapBlockIndex ?st) r h = GetAncestor (st_mapBlockIndex st) r h" for r
  proof (cases "st_mapBlockIndex st r")
    case None
    then show ?thesis using same_links_None [OF cleared_links [OF c], of r] by (simp add: GetAncestor_def)
  next
    case (Some br)
    then obtain br' where "st_mapBlockIndex ?st r = Some br'" "links br' = links br"
      using same_links_Some [OF cleared_links [OF c]] by blast
    then show ?thesis
      using GetAncestor_walk [OF w] GetAncestor_walk [OF Cons.prems Some] walk_same_links [OF cleared_links [OF c]]
      by (simp add: links_def)
  qed
  note IH = Cons.IH [OF w]
  have "cleared (st_mapBlockIndex st) (st_mapBlockIndex (fold (reconsider_entry addr p h) es ?st))"
    using cleared_trans [OF c] IH by blast
  moreover have "not_failed (st_mapBlockIndex (fold (reconsider_entry addr p h) es ?st)) e"
    if "GetAncestor (st_mapBlockIndex st) e h = Some p"
    using cleared_not_failed [OF conjunct1 [OF IH]] reconsider_entry_ok that by blast
  ultimately show ?case using IH by (simp add: anc)
qed (simp add: cleared_refl)

lemma reconsider_ancestors_ok:
  assumes "index_wf (st_mapBlockIndex st)" "st_mapBlockIndex st p = Some bi" "bi_nHeight bi < fuel"
  shows "cleared (st_mapBlockIndex st) (st_mapBlockIndex (reconsider_ancestors fuel (Some p) st)) \<and>
    (\<forall>k q. walk (st_mapBlockIndex st) k p = Some q \<longrightarrow> not_failed (st_mapBlockIndex (reconsider_ancestors fuel (Some p) st)) q)"
  using assms
proof (induction fuel arbitrary: p bi st)
  case (Suc fuel)
  define st1 where "st1 = (if bi_nStatus bi AND BLOCK_FAILED_MASK \<noteq> 0
     then st\<lparr>st_mapBlockIndex := (st_mapBlockIndex st)(p \<mapsto> clear_failed bi), st_setDirtyBlockIndex := insert p (st_setDirtyBlockIndex st)\<rparr>
     else st)"
  have r: "reconsider_ancestors (Suc fuel) (Some p) st = reconsider_ancestors fuel (bi_pprev bi) st1"
    using Suc.prems(2) by (simp add: st1_def)
  have c: "cleared (st_mapBlockIndex st) (st_mapBlockIndex st1)" "not_failed (st_mapBlockIndex st1) p"
    using Suc.prems(2) cleared_upd [of "st_mapBlockIndex st" p bi]
    by (auto simp: st1_def cleared_refl not_failed_def clear_failed_mask)
  have w: "index_wf (st_mapBlockIndex st1)" using index_wf_same_links [OF Suc.prems(1) cleared_links [OF c(1)]] .
  show ?case
  proof (cases "bi_pprev bi")
    case None
    have "walk (st_mapBlockIndex st) (Suc i) p = None" for i
      using Suc.prems(2) None by (induction i) (simp_all add: walk_Suc deref_def)
    then have "q = p" if "walk (st_mapBlockIndex st) k p = Some q" for k q using that by (cases k) auto
    moreover have "reconsider_ancestors fuel None st1 = st1" by (cases fuel) simp_all
    ultimately show ?thesis using r c None by auto
  next
    case (Some q)
    then obtain bq where bq: "st_mapBlockIndex st q = Some bq" "bi_nHeight bi = bi_nHeight bq + 1"
      using Suc.prems(1,2) by (fastforce simp: index_wf_def entry_wf_def)
    obtain bq' where bq': "st_mapBlockIndex st1 q = Some bq'" "links bq' = links bq"
      using same_links_Some [OF cleared_links [OF c(1)] bq(1)] by blast
    have IH: "cleared (st_mapBlockIndex st1) (st_mapBlockIndex (reconsider_ancestors fuel (Some q) st1))"
      "\<And>k x. walk (st_mapBlockIndex st1) k q = Some x \<Longrightarrow> not_failed (st_mapBlockIndex (reconsider_ancestors fuel (Some q) st1)) x"
      using Suc.IH [OF w bq'(1)] bq(2) bq'(2) Suc.prems(3) by (auto simp: links_def)
    have "not_failed (st_mapBlockIndex (reconsider_ancestors fuel (Some q) st1)) x" if "walk (st_mapBlockIndex st) k p = Some x" for k x
    proof (cases k)
      case 0
      then show ?thesis using that cleared_not_failed [OF IH(1) c(2)] by simp
    next
      case (Suc j)
      then have "walk (st_mapBlockIndex st) j q = Some x"
        using that walk_Suc' [of "st_mapBlockIndex st" p bi q j, OF Suc.prems(2) Some] by simp
      then show ?thesis using IH(2) walk_same_links [OF cleared_links [OF c(1)]] by simp
    qed
    then show ?thesis using r Some cleared_trans [OF c(1) IH(1)] by simp
  qed
qed simp

lemma ReconsiderBlock_ok:
  assumes "index_wf (st_mapBlockIndex st)" "st_mapBlockIndex st p = Some bi"
  shows "cleared (st_mapBlockIndex st) (st_mapBlockIndex (ReconsiderBlock addr entries p st)) \<and>
    (\<forall>k q. walk (st_mapBlockIndex st) k p = Some q \<longrightarrow> not_failed (st_mapBlockIndex (ReconsiderBlock addr entries p st)) q) \<and>
    (\<forall>e \<in> set entries. GetAncestor (st_mapBlockIndex st) e (int (bi_nHeight bi)) = Some p \<longrightarrow>
       not_failed (st_mapBlockIndex (ReconsiderBlock addr entries p st)) e)"
proof -
  define st1 where "st1 = fold (reconsider_entry addr p (int (bi_nHeight bi))) entries st"
  have e: "ReconsiderBlock addr entries p st = reconsider_ancestors (bi_nHeight bi + 1) (Some p) st1"
    using assms(2) by (simp add: ReconsiderBlock_def st1_def del: reconsider_ancestors.simps)
  have 1: "cleared (st_mapBlockIndex st) (st_mapBlockIndex st1)"
    "\<forall>e \<in> set entries. GetAncestor (st_mapBlockIndex st) e (int (bi_nHeight bi)) = Some p \<longrightarrow> not_failed (st_mapBlockIndex st1) e"
    using reconsider_entries_ok [OF assms(1)] by (simp_all add: st1_def)
  have w: "index_wf (st_mapBlockIndex st1)" using index_wf_same_links [OF assms(1) cleared_links [OF 1(1)]] .
  obtain b where b: "st_mapBlockIndex st1 p = Some b" "links b = links bi"
    using same_links_Some [OF cleared_links [OF 1(1)] assms(2)] by blast
  have 2: "cleared (st_mapBlockIndex st1) (st_mapBlockIndex (ReconsiderBlock addr entries p st)) \<and>
    (\<forall>k q. walk (st_mapBlockIndex st1) k p = Some q \<longrightarrow> not_failed (st_mapBlockIndex (ReconsiderBlock addr entries p st)) q)"
    unfolding e by (rule reconsider_ancestors_ok [OF w b(1)]) (use b(2) in \<open>simp add: links_def\<close>)
  show ?thesis
    using 1 2 cleared_trans cleared_not_failed walk_same_links [OF cleared_links [OF 1(1)]] by metis
qed

section \<open>Properties\<close>

text \<open>
  C19: \<^verbatim>\<open>AddToBlockIndex\<close> keeps the index a tree: the new entry has the height and the skip pointer
  that its predecessor demands, its work is that of the predecessor plus its own, and no other
  entry changes but for the pointer to its successor. No step fails.
\<close>

theorem add_block_keeps_tree:
  assumes "tree_wf (st_mapBlockIndex st)" "st_mapBlockIndex st hash = None" "hdr_hashPrevBlock block \<noteq> hash"
  shows "\<exists>st' b w. AddToBlockIndex env hash block st = Some (hash, st') \<and> tree_wf (st_mapBlockIndex st') \<and>
    st_mapBlockIndex st' hash = Some b \<and> GetBlockProof (hdr_nBits block) = Some w \<and>
    bi_pprev b = (if st_mapBlockIndex st (hdr_hashPrevBlock block) = None then None else Some (hdr_hashPrevBlock block)) \<and>
    uval (bi_nChainWork b) =
      ((case st_mapBlockIndex st (hdr_hashPrevBlock block) of None \<Rightarrow> 0 | Some bq \<Rightarrow> uval (bi_nChainWork bq)) + uval w) mod 2 ^ 256 \<and>
    (\<forall>p. p \<noteq> hash \<longrightarrow> map_option (\<lambda>bi. bi\<lparr>bi_pnext := None\<rparr>) (st_mapBlockIndex st' p) =
      map_option (\<lambda>bi. bi\<lparr>bi_pnext := None\<rparr>) (st_mapBlockIndex st p))"
  using assms by (rule AddToBlockIndex_ok)

text \<open>An index in which block 12 has arrived before its predecessor 11.\<close>

definition waiting_index :: BlockMap where
  "waiting_index = [10 \<mapsto> sample_entry None None 0 100,
     11 \<mapsto> (sample_entry (Some 10) (Some 10) 1 200)\<lparr>bi_nTx := 0, bi_nChainTx := 0\<rparr>,
     12 \<mapsto> (sample_entry (Some 11) (Some 10) 2 300)\<lparr>bi_nChainTx := 0\<rparr>]"

definition waiting_state :: index_state where
  "waiting_state = \<lparr>st_mapBlockIndex = waiting_index, st_chainActive = [Some 10], st_setBlockIndexCandidates = [10],
     st_mapBlocksUnlinked = [(Some 11, 12)], st_nBlockSequenceId = 1, st_pindexBestHeader = Some 12,
     st_pindexBestInvalid = None, st_setDirtyBlockIndex = {}, st_setStakeSeen = {}, st_mapProofOfStake = Map.empty\<rparr>"

lemma waiting_lookup:
  "waiting_index 10 = Some (sample_entry None None 0 100)"
  "waiting_index 11 = Some ((sample_entry (Some 10) (Some 10) 1 200)\<lparr>bi_nTx := 0, bi_nChainTx := 0\<rparr>)"
  "waiting_index 12 = Some ((sample_entry (Some 11) (Some 10) 2 300)\<lparr>bi_nChainTx := 0\<rparr>)"
  by (simp_all add: waiting_index_def)

lemma waiting_cases: "waiting_index p = Some bi \<Longrightarrow> p = 10 \<or> p = 11 \<or> p = 12"
  by (auto simp: waiting_index_def split: if_splits)

lemma waiting_walk:
  "walk waiting_index 1 11 = Some 10" "walk waiting_index 1 12 = Some 11" "walk waiting_index 2 12 = Some 10"
  by (simp_all add: walk_2) (simp_all add: walk_def deref_def waiting_lookup sample_heights)

lemma waiting_tree: "tree_wf waiting_index"
proof -
  have "index_wf waiting_index"
    unfolding index_wf_def
    using waiting_cases
    by (fastforce simp: waiting_lookup entry_wf_def sample_heights sample_skip [simplified] waiting_walk [simplified])
  moreover have "length (bi_nChainWork bi) = WIDTH" if "waiting_index p = Some bi" for p bi
    using waiting_cases [OF that] that by (auto simp: waiting_lookup sample_entry_def)
  ultimately show ?thesis by (simp add: tree_wf_def)
qed

lemma waiting_data:
  "linked waiting_index p \<longleftrightarrow> p = 10" "has_data waiting_index p \<longleftrightarrow> p = 10 \<or> p = 12"
  "prev_of waiting_index 10 = None" "prev_of waiting_index 11 = Some 10" "prev_of waiting_index 12 = Some 11"
  using waiting_cases [of p]
  by (auto simp: linked_def has_data_def prev_of_def waiting_lookup sample_heights) (auto simp: waiting_lookup sample_entry_def)

lemma waiting_total:
  "tx_total waiting_index 10 = 1" "tx_total waiting_index 11 = 1" "tx_total waiting_index 12 = 2"
  by (simp_all add: tx_total_def waiting_lookup sample_heights eval_nat_numeral) (simp_all add: sample_entry_def)

lemma waiting_inv: "link_inv [] waiting_index [(Some 11, 12)]"
  unfolding link_inv_def
  by (auto simp: waiting_data prev_linked_def waiting_lookup waiting_total sample_heights sample_entry_def)

theorem add_block_keeps_tree_witness:
  "\<exists>st'. AddToBlockIndex sample_kernel_env 13 (kernel_block\<lparr>hdr_hashPrevBlock := 12\<rparr>) waiting_state = Some (13, st') \<and>
     tree_wf (st_mapBlockIndex st')"
proof -
  have "tree_wf (st_mapBlockIndex waiting_state)" "st_mapBlockIndex waiting_state 13 = None"
    "hdr_hashPrevBlock (kernel_block\<lparr>hdr_hashPrevBlock := 12\<rparr>) \<noteq> 13"
    by (simp_all add: waiting_state_def waiting_tree) (simp add: waiting_index_def)
  from add_block_keeps_tree [OF this] show ?thesis by blast
qed

text \<open>
  C18: When the transactions of a block arrive, exactly those blocks are linked all of whose
  ancestors have theirs: the block itself releases every descendant that waited for it, and the
  index, the waiting blocks and the order of the candidates stay consistent.
\<close>

theorem receive_links_descendants:
  assumes "inj addr" "tree_wf (st_mapBlockIndex st)" "link_inv [] (st_mapBlockIndex st) (st_mapBlocksUnlinked st)"
    and "cands_wf addr (st_mapBlockIndex st) (st_setBlockIndexCandidates st)"
    and "st_mapBlockIndex st p = Some bi" "bi_nTx bi = 0" "blk_vtx block \<noteq> []"
    and "\<forall>r. tx_total (st_mapBlockIndex st) r + length (blk_vtx block) < 2 ^ 32"
    and "\<forall>q bq. bi_pprev bi = Some q \<longrightarrow> st_mapBlockIndex st q = Some bq \<longrightarrow> index_IsValid BLOCK_VALID_TREE bq"
  shows "\<exists>st'. ReceivedBlockTransactions addr block p pos st = Some st' \<and>
    tree_wf (st_mapBlockIndex st') \<and> link_inv [] (st_mapBlockIndex st') (st_mapBlocksUnlinked st') \<and>
    cands_wf addr (st_mapBlockIndex st') (st_setBlockIndexCandidates st') \<and>
    (\<forall>r. has_data (st_mapBlockIndex st') r \<longleftrightarrow> r = p \<or> has_data (st_mapBlockIndex st) r) \<and>
    (\<forall>r. st_mapBlockIndex st' r \<noteq> None \<longrightarrow> linked (st_mapBlockIndex st') r =
       (\<forall>k q. walk (st_mapBlockIndex st') k r = Some q \<longrightarrow> has_data (st_mapBlockIndex st') q))"
proof -
  obtain st' where st': "ReceivedBlockTransactions addr block p pos st = Some st'" "tree_wf (st_mapBlockIndex st')"
    "link_inv [] (st_mapBlockIndex st') (st_mapBlocksUnlinked st')"
    "\<forall>r. has_data (st_mapBlockIndex st') r \<longleftrightarrow> r = p \<or> has_data (st_mapBlockIndex st) r"
    "cands_wf addr (st_mapBlockIndex st') (st_setBlockIndexCandidates st')"
    using ReceivedBlockTransactions_ok [OF assms(2,3,5-9), of addr pos] assms(1,4) by blast
  have "linked (st_mapBlockIndex st') r = (\<forall>k q. walk (st_mapBlockIndex st') k r = Some q \<longrightarrow> has_data (st_mapBlockIndex st') q)"
    if "st_mapBlockIndex st' r \<noteq> None" for r
    using linked_iff [OF _ st'(3)] st'(2) that by (auto simp: tree_wf_def)
  then show ?thesis using st' by blast
qed

theorem receive_links_descendants_witness:
  "\<exists>st'. ReceivedBlockTransactions unat kernel_block 11 (0, 0) waiting_state = Some st' \<and>
     has_data (st_mapBlockIndex st') 11 \<and> tree_wf (st_mapBlockIndex st')"
proof -
  define bi where "bi = (sample_entry (Some 10) (Some 10) 1 200)\<lparr>bi_nTx := 0, bi_nChainTx := 0\<rparr>"
  have m: "st_mapBlockIndex waiting_state = waiting_index" "st_mapBlocksUnlinked waiting_state = [(Some 11, 12)]"
    "st_setBlockIndexCandidates waiting_state = [10]" by (simp_all add: waiting_state_def)
  have i: "inj (unat :: u256 \<Rightarrow> nat)" by (simp add: inj_def word_unat_eq_iff)
  have w: "cands_wf unat waiting_index [10]" by (auto simp: cands_wf_def waiting_data prev_linked_def)
  have v: "length (blk_vtx kernel_block) = 2" "blk_vtx kernel_block \<noteq> []"
    by (simp_all add: kernel_block_def sample_stake_block_def CBlockHeader.extend_def CBlockHeader_null_def)
  have t: "tx_total waiting_index r + 2 < 2 ^ 32" for r
    using waiting_cases [of r] waiting_total by (cases "waiting_index r") (auto simp: tx_total_def)
  have b: "waiting_index 11 = Some bi" "bi_nTx bi = 0" "bi_pprev bi = Some 10"
    by (simp_all add: bi_def waiting_lookup sample_heights)
  have g: "index_IsValid BLOCK_VALID_TREE (sample_entry None None 0 100)" by (simp add: index_IsValid_def sample_entry_def)
  show ?thesis
    using receive_links_descendants [of unat waiting_state 11 bi kernel_block "(0, 0)", unfolded m v,
        OF i waiting_tree waiting_inv w b(1,2) v(2)] t b(3) g waiting_lookup(1) by auto
qed

text \<open>
  C17: \<^verbatim>\<open>FindMostWorkChain\<close> ends without a failed assertion and returns the best candidate, in the
  order of work, arrival and address, among those whose blocks down to the active chain all have
  data and have not failed; it returns null exactly when there is none.
\<close>

theorem most_work_chain_is_best:
  assumes "tree_wf (st_mapBlockIndex st)" "cands_wf addr (st_mapBlockIndex st) (st_setBlockIndexCandidates st)"
  shows "\<exists>r st'. FindMostWorkChain st = Some (r, st') \<and>
    best_of (path_ok (st_mapBlockIndex st) (st_chainActive st)) (less_at addr (st_mapBlockIndex st))
      (set (st_setBlockIndexCandidates st)) r"
  using assms by (rule FindMostWorkChain_ok)

theorem most_work_chain_is_best_witness:
  "\<exists>r st'. FindMostWorkChain waiting_state = Some (r, st') \<and>
    best_of (path_ok waiting_index [Some 10]) (less_at unat waiting_index) {10} r"
  using most_work_chain_is_best [of waiting_state unat] waiting_tree
  by (auto simp: waiting_state_def cands_wf_def waiting_data prev_linked_def)

end
