(* ===== verification/Mempool.thy ===== *)
theory Mempool
  imports TxCheck
begin

unbundle bit_operations_syntax

text \<open>
  The memory pool (txmempool.cpp, txmempool.h) and \<^verbatim>\<open>AcceptToMemoryPool\<close> of main.cpp. The maps are
  association lists. \<^verbatim>\<open>mapNextTx\<close> holds pointers to transactions inside \<^verbatim>\<open>mapTx\<close>; such a pointer is
  the key of the entry it points into, and following a pointer whose entry is gone is the error
  \<open>None\<close>. The identifier of a transaction is an argument \<open>txid\<close>. Priorities are floating-point
  numbers; only their bit patterns are stored.
\<close>

section \<open>Data\<close>

record CTxMemPoolEntry =
  mpe_tx :: CTransaction
  mpe_nFee :: int
  mpe_nTxSize :: nat
  mpe_nModSize :: nat
  mpe_nTime :: int
  mpe_dPriority :: u64
  mpe_nHeight :: u32

definition CTxMemPoolEntry_new :: "CTransaction \<Rightarrow> int \<Rightarrow> int \<Rightarrow> u64 \<Rightarrow> u32 \<Rightarrow> CTxMemPoolEntry" where
  "CTxMemPoolEntry_new tx nFee nTime dPriority nHeight =
     (let nTxSize = length (ser_CTransaction tx)
      in \<lparr>mpe_tx = tx, mpe_nFee = nFee, mpe_nTxSize = nTxSize, mpe_nModSize = CalculateModifiedSize tx nTxSize,
          mpe_nTime = nTime, mpe_dPriority = dPriority, mpe_nHeight = nHeight\<rparr>)"

record CInPoint =
  inp_ptx :: u256
  inp_n :: nat

text \<open>The pool has static storage, so its counters start at zero.\<close>

record CTxMemPool =
  mp_nTransactionsUpdated :: u32
  mp_totalTxSize :: u64
  mp_mapTx :: "(u256 \<times> CTxMemPoolEntry) list"
  mp_mapNextTx :: "(COutPoint \<times> CInPoint) list"
  mp_mapDeltas :: "(u256 \<times> u64 \<times> int) list"

definition CTxMemPool_empty :: CTxMemPool where
  "CTxMemPool_empty = \<lparr>mp_nTransactionsUpdated = 0, mp_totalTxSize = 0, mp_mapTx = [], mp_mapNextTx = [], mp_mapDeltas = []\<rparr>"

definition pool_exists :: "CTxMemPool \<Rightarrow> u256 \<Rightarrow> bool" where
  "pool_exists mp hash \<longleftrightarrow> map_of (mp_mapTx mp) hash \<noteq> None"

definition pool_lookup :: "CTxMemPool \<Rightarrow> u256 \<Rightarrow> CTransaction option" where
  "pool_lookup mp hash = map_option mpe_tx (map_of (mp_mapTx mp) hash)"

definition AddTransactionsUpdated :: "u32 \<Rightarrow> CTxMemPool \<Rightarrow> CTxMemPool" where
  "AddTransactionsUpdated n mp = mp\<lparr>mp_nTransactionsUpdated := mp_nTransactionsUpdated mp + n\<rparr>"

definition queryHashes :: "CTxMemPool \<Rightarrow> u256 list" where
  "queryHashes mp = sort (map fst (mp_mapTx mp))"

definition ClearPrioritisation :: "u256 \<Rightarrow> CTxMemPool \<Rightarrow> CTxMemPool" where
  "ClearPrioritisation hash mp = mp\<lparr>mp_mapDeltas := AList.delete hash (mp_mapDeltas mp)\<rparr>"

definition pool_clear :: "CTxMemPool \<Rightarrow> CTxMemPool" where
  "pool_clear mp = mp\<lparr>mp_mapTx := [], mp_mapNextTx := [], mp_totalTxSize := 0,
     mp_nTransactionsUpdated := mp_nTransactionsUpdated mp + 1\<rparr>"

section \<open>Adding and removing\<close>

definition addUnchecked :: "u256 \<Rightarrow> CTxMemPoolEntry \<Rightarrow> CTxMemPool \<Rightarrow> CTxMemPool" where
  "addUnchecked hash entry mp =
     (let vin = tx_vin (mpe_tx entry) in
      mp\<lparr>mp_mapTx := AList.update hash entry (mp_mapTx mp),
         mp_mapNextTx := fold (\<lambda>i. AList.update (txin_prevout (vin ! i)) \<lparr>inp_ptx = hash, inp_n = i\<rparr>) [0..<length vin] (mp_mapNextTx mp),
         mp_nTransactionsUpdated := mp_nTransactionsUpdated mp + 1,
         mp_totalTxSize := mp_totalTxSize mp + word_of_nat (mpe_nTxSize entry)\<rparr>)"

text \<open>The transactions in the pool that spend the outputs \<open>is\<close> of the transaction \<open>hash\<close>, by identifier.\<close>

fun spenders :: "(CTransaction \<Rightarrow> u256) \<Rightarrow> CTxMemPool \<Rightarrow> u256 \<Rightarrow> nat list \<Rightarrow> u256 list option" where
  "spenders txid mp hash [] = Some []"
| "spenders txid mp hash (i # is) =
     (case map_of (mp_mapNextTx mp) \<lparr>outpoint_hash = hash, outpoint_n = word_of_nat i\<rparr> of
        None \<Rightarrow> spenders txid mp hash is
      | Some inp \<Rightarrow>
          (case pool_lookup mp (inp_ptx inp) of
             None \<Rightarrow> None
           | Some tx \<Rightarrow> map_option (Cons (txid tx)) (spenders txid mp hash is)))"

text \<open>Taking one entry out of the maps.\<close>

definition erase_entry :: "u256 \<Rightarrow> CTxMemPoolEntry \<Rightarrow> CTxMemPool \<Rightarrow> CTxMemPool" where
  "erase_entry hash e mp =
     mp\<lparr>mp_mapNextTx := fold (\<lambda>txin. AList.delete (txin_prevout txin)) (tx_vin (mpe_tx e)) (mp_mapNextTx mp),
        mp_totalTxSize := mp_totalTxSize mp - word_of_nat (mpe_nTxSize e),
        mp_mapTx := AList.delete hash (mp_mapTx mp),
        mp_nTransactionsUpdated := mp_nTransactionsUpdated mp + 1\<rparr>"

lemma length_AList_delete: "map_of xs k = Some v \<Longrightarrow> length (AList.delete k xs) < length xs"
proof -
  assume "map_of xs k = Some v"
  then have "(k, v) \<in> set xs" by (rule map_of_SomeD)
  then show ?thesis unfolding AList.delete_eq by (intro length_filter_less [of "(k, v)"]) auto
qed

text \<open>The loop over the queue; \<open>removed\<close> collects the transactions taken out.\<close>

function remove_loop ::
    "(CTransaction \<Rightarrow> u256) \<Rightarrow> bool \<Rightarrow> u256 list \<Rightarrow> CTxMemPool \<Rightarrow> CTransaction list \<Rightarrow> (CTxMemPool \<times> CTransaction list) option" where
  "remove_loop txid fRecursive [] mp removed = Some (mp, removed)"
| "remove_loop txid fRecursive (hash # txToRemove) mp removed =
     (case map_of (mp_mapTx mp) hash of
        None \<Rightarrow> remove_loop txid fRecursive txToRemove mp removed
      | Some e \<Rightarrow>
          (case (if fRecursive then spenders txid mp hash [0..<length (tx_vout (mpe_tx e))] else Some []) of
             None \<Rightarrow> None
           | Some cs \<Rightarrow> remove_loop txid fRecursive (txToRemove @ cs) (erase_entry hash e mp) (removed @ [mpe_tx e])))"
  by pat_completeness auto
termination
  by (relation "measures [\<lambda>(txid, r, q, mp, removed). length (mp_mapTx mp), \<lambda>(txid, r, q, mp, removed). length q]")
    (auto simp: erase_entry_def length_AList_delete)

definition pool_remove ::
    "(CTransaction \<Rightarrow> u256) \<Rightarrow> CTransaction \<Rightarrow> bool \<Rightarrow> CTxMemPool \<Rightarrow> (CTxMemPool \<times> CTransaction list) option" where
  "pool_remove txid origTx fRecursive mp =
     (case (if fRecursive \<and> map_of (mp_mapTx mp) (txid origTx) = None
            then spenders txid mp (txid origTx) [0..<length (tx_vout origTx)] else Some []) of
        None \<Rightarrow> None
      | Some cs \<Rightarrow> remove_loop txid fRecursive (txid origTx # cs) mp [])"

text \<open>\<^verbatim>\<open>removeConflicts\<close>; transactions are compared by their identifiers.\<close>

fun removeConflicts_loop ::
    "(CTransaction \<Rightarrow> u256) \<Rightarrow> CTransaction \<Rightarrow> CTxIn list \<Rightarrow> CTxMemPool \<Rightarrow> (CTxMemPool \<times> CTransaction list) option" where
  "removeConflicts_loop txid tx [] mp = Some (mp, [])"
| "removeConflicts_loop txid tx (txin # vin) mp =
     (case map_of (mp_mapNextTx mp) (txin_prevout txin) of
        None \<Rightarrow> removeConflicts_loop txid tx vin mp
      | Some inp \<Rightarrow>
          (case pool_lookup mp (inp_ptx inp) of
             None \<Rightarrow> None
           | Some txConflict \<Rightarrow>
               if txid txConflict \<noteq> txid tx then
                 (case pool_remove txid txConflict True mp of
                    None \<Rightarrow> None
                  | Some (mp', rs) \<Rightarrow> map_option (\<lambda>(mp'', rs'). (mp'', rs @ rs')) (removeConflicts_loop txid tx vin mp'))
               else removeConflicts_loop txid tx vin mp))"

definition removeConflicts :: "(CTransaction \<Rightarrow> u256) \<Rightarrow> CTransaction \<Rightarrow> CTxMemPool \<Rightarrow> (CTxMemPool \<times> CTransaction list) option" where
  "removeConflicts txid tx mp = removeConflicts_loop txid tx (tx_vin tx) mp"

text \<open>\<^verbatim>\<open>removeForBlock\<close>, without the fee estimator.\<close>

fun removeForBlock :: "(CTransaction \<Rightarrow> u256) \<Rightarrow> CTransaction list \<Rightarrow> CTxMemPool \<Rightarrow> (CTxMemPool \<times> CTransaction list) option" where
  "removeForBlock txid [] mp = Some (mp, [])"
| "removeForBlock txid (tx # vtx) mp =
     (case pool_remove txid tx False mp of
        None \<Rightarrow> None
      | Some (mp1, _) \<Rightarrow>
          (case removeConflicts txid tx mp1 of
             None \<Rightarrow> None
           | Some (mp2, rs) \<Rightarrow>
               map_option (\<lambda>(mp', rs'). (mp', rs @ rs')) (removeForBlock txid vtx (ClearPrioritisation (txid tx) mp2))))"

text \<open>
  \<^verbatim>\<open>removeCoinbaseSpends\<close>: the test for one transaction, with the cache of the tip passed along.
  The difference of the heights is unsigned. The assertion \<^verbatim>\<open>if (fSanityCheck) assert(coins)\<close>, which does nothing unless
  \<^verbatim>\<open>-checkmempool\<close> is on (by default only in regression tests), is left out; without it missing coins count as immature.
\<close>

fun spends_immature ::
    "CChainParams \<Rightarrow> 'b getter \<Rightarrow> CTxMemPool \<Rightarrow> u32 \<Rightarrow> CTxIn list \<Rightarrow> 'b CCoinsViewCache \<Rightarrow> bool \<times> 'b CCoinsViewCache" where
  "spends_immature params bGet mp nMemPoolHeight [] c = (False, c)"
| "spends_immature params bGet mp nMemPoolHeight (txin # vin) c =
     (if pool_exists mp (outpoint_hash (txin_prevout txin)) then spends_immature params bGet mp nMemPoolHeight vin c
      else
        (case FetchCoins bGet c (outpoint_hash (txin_prevout txin)) of
           (None, c') \<Rightarrow> (True, c')
         | (Some coins, c') \<Rightarrow>
             if (coins_fCoinBase coins \<or> coins_fCoinStake coins) \<and>
               int (unat (nMemPoolHeight - word_of_int (coins_nHeight coins))) < par_COINBASE_MATURITY params
             then (True, c')
             else spends_immature params bGet mp nMemPoolHeight vin c'))"

fun immature_loop ::
    "CChainParams \<Rightarrow> 'b getter \<Rightarrow> CTxMemPool \<Rightarrow> u32 \<Rightarrow> CTransaction list \<Rightarrow> 'b CCoinsViewCache \<Rightarrow> CTransaction list \<times> 'b CCoinsViewCache" where
  "immature_loop params bGet mp nMemPoolHeight [] c = ([], c)"
| "immature_loop params bGet mp nMemPoolHeight (tx # txs) c =
     (case spends_immature params bGet mp nMemPoolHeight (tx_vin tx) c of
        (b, c') \<Rightarrow>
          (case immature_loop params bGet mp nMemPoolHeight txs c' of
             (rs, c'') \<Rightarrow> (if b then tx # rs else rs, c'')))"

fun remove_all :: "(CTransaction \<Rightarrow> u256) \<Rightarrow> CTransaction list \<Rightarrow> CTxMemPool \<Rightarrow> CTxMemPool option" where
  "remove_all txid [] mp = Some mp"
| "remove_all txid (tx # txs) mp =
     (case pool_remove txid tx True mp of None \<Rightarrow> None | Some (mp', _) \<Rightarrow> remove_all txid txs mp')"

definition removeCoinbaseSpends ::
    "(CTransaction \<Rightarrow> u256) \<Rightarrow> CChainParams \<Rightarrow> 'b getter \<Rightarrow> u32 \<Rightarrow> 'b CCoinsViewCache \<Rightarrow> CTxMemPool \<Rightarrow>
      (CTxMemPool \<times> 'b CCoinsViewCache) option" where
  "removeCoinbaseSpends txid params bGet nMemPoolHeight c mp =
     (case immature_loop params bGet mp nMemPoolHeight (map (\<lambda>h. mpe_tx (the (map_of (mp_mapTx mp) h))) (queryHashes mp)) c of
        (txs, c') \<Rightarrow> map_option (\<lambda>mp'. (mp', c')) (remove_all txid txs mp))"

text \<open>\<^verbatim>\<open>pruneSpent\<close>: every output of the transaction that the pool spends is spent in the record.\<close>

definition pruneSpent :: "u256 \<Rightarrow> CTxMemPool \<Rightarrow> CCoins \<Rightarrow> CCoins" where
  "pruneSpent hashTx mp coins =
     fold (\<lambda>n coins. case Spend coins n of None \<Rightarrow> coins | Some (coins', _) \<Rightarrow> coins')
       (sort (map (\<lambda>(op, _). unat (outpoint_n op)) (filter (\<lambda>(op, _). outpoint_hash op = hashTx) (mp_mapNextTx mp)))) coins"

section \<open>Coins of the chain and the pool\<close>

abbreviation (input) MEMPOOL_HEIGHT :: int where "MEMPOOL_HEIGHT \<equiv> 0x7FFFFFFF"

text \<open>\<^verbatim>\<open>CCoinsViewMemPool\<close> over a view with the lookup \<open>bGet\<close>; its state is the pool and that view.\<close>

definition mempool_GetCoins :: "'b getter \<Rightarrow> (CTxMemPool \<times> 'b) getter" where
  "mempool_GetCoins bGet = (\<lambda>(mp, b) txid.
     (case pool_lookup mp txid of
        Some tx \<Rightarrow> (Some (FromTx tx MEMPOOL_HEIGHT), mp, b)
      | None \<Rightarrow>
          (case bGet b txid of
             (None, b') \<Rightarrow> (None, mp, b')
           | (Some coins, b') \<Rightarrow> (if IsPruned coins then None else Some coins, mp, b'))))"

definition mempool_HaveCoins :: "('b \<Rightarrow> u256 \<Rightarrow> bool) \<Rightarrow> CTxMemPool \<Rightarrow> 'b \<Rightarrow> u256 \<Rightarrow> bool" where
  "mempool_HaveCoins bHave mp b txid \<longleftrightarrow> pool_exists mp txid \<or> bHave b txid"

text \<open>The view without coins, and \<^verbatim>\<open>SetBackend\<close> with it.\<close>

definition dummy_GetCoins :: "unit getter" where
  "dummy_GetCoins b txid = (None, b)"

definition SetBackend :: "'c \<Rightarrow> 'b CCoinsViewCache \<Rightarrow> 'c CCoinsViewCache" where
  "SetBackend b c = \<lparr>cache_base = b, cache_hashBlock = cache_hashBlock c, cache_coins = cache_coins c\<rparr>"

section \<open>Accepting a transaction\<close>

text \<open>A double is positive: the sign is clear and it is neither zero nor a NaN.\<close>

definition double_positive :: "u64 \<Rightarrow> bool" where
  "double_positive d \<longleftrightarrow> 0 < d \<and> d \<le> 0x7FF0000000000000"

definition ApplyDeltas :: "u256 \<Rightarrow> CTxMemPool \<Rightarrow> u64 \<times> int" where
  "ApplyDeltas hash mp = (case map_of (mp_mapDeltas mp) hash of None \<Rightarrow> (0, 0) | Some d \<Rightarrow> d)"

definition GetMinRelayFee :: "CChainParams \<Rightarrow> int \<Rightarrow> u256 \<Rightarrow> CTxMemPool \<Rightarrow> nat \<Rightarrow> bool \<Rightarrow> int" where
  "GetMinRelayFee params minRelayTxFee hash mp nBytes fAllowFree =
     (case ApplyDeltas hash mp of (dPriorityDelta, nFeeDelta) \<Rightarrow>
        if double_positive dPriorityDelta \<or> nFeeDelta > 0 then 0
        else
          let nMinFee = (if fAllowFree \<and> nBytes < 50000 - 1000 then 0 else GetFee minRelayTxFee nBytes)
          in if \<not> MoneyRange params nMinFee then par_MaxMoneyOut params else nMinFee)"

text \<open>
  What \<^verbatim>\<open>AcceptToMemoryPool\<close> reads of its surroundings. The comparisons of floating-point numbers,
  the priority of the transaction and the decaying counter of free transactions, are arguments:
  \<open>acc_AllowFree\<close> and \<open>acc_rateLimited\<close>.
\<close>

record accept_env =
  acc_params :: CChainParams
  acc_crypto :: crypto
  acc_fRequireStandard :: bool
  acc_policy :: policy
  acc_nHeight :: int
  acc_prevHeight :: int
  acc_adjustedTime :: int
  acc_now :: int
  acc_mapLockedInputs :: "COutPoint \<rightharpoonup> u256"
  acc_relaypriority :: bool
  acc_AllowFree :: bool
  acc_rateLimited :: bool
  acc_dPriority :: u64

text \<open>A refusal: with a reason, without one, or because inputs are missing.\<close>

datatype accept_error = Refused tx_error | Silent | MissingInputs

text \<open>The checks before the coins are looked up.\<close>

definition accept_precheck :: "accept_env \<Rightarrow> (CTransaction \<Rightarrow> u256) \<Rightarrow> CTransaction \<Rightarrow> CTxMemPool \<Rightarrow> accept_error + unit" where
  "accept_precheck env txid tx mp =
     (case CheckTransaction (acc_params env) tx of
        Inl e \<Rightarrow> Inl (Refused e)
      | Inr _ \<Rightarrow>
          if IsCoinBase tx then Inl (Refused (Reject 100 ''coinbase''))
          else if IsCoinStake tx then Inl (Refused (Reject 100 ''coinstake''))
          else
            (case (if acc_fRequireStandard env
                   then IsStandardTx (acc_policy env) (acc_nHeight env) (acc_adjustedTime env) tx else None) of
               Some reason \<Rightarrow> Inl (Refused (Reject 0 reason))
             | None \<Rightarrow>
                 if pool_exists mp (txid tx) then Inl Silent
                 else if list_ex (\<lambda>txin. case acc_mapLockedInputs env (txin_prevout txin) of
                        None \<Rightarrow> False | Some h \<Rightarrow> h \<noteq> txid tx) (tx_vin tx)
                 then Inl (Refused (Reject 0 ''tx-lock-conflict''))
                 else if list_ex (\<lambda>txin. map_of (mp_mapNextTx mp) (txin_prevout txin) \<noteq> None) (tx_vin tx) then Inl Silent
                 else Inr ()))"

text \<open>The inputs exist and are unspent; the result is their value and the filled cache.\<close>

fun all_have_coins :: "'b getter \<Rightarrow> CTxIn list \<Rightarrow> 'b CCoinsViewCache \<Rightarrow> bool \<times> 'b CCoinsViewCache" where
  "all_have_coins bGet [] c = (True, c)"
| "all_have_coins bGet (txin # vin) c =
     (case cache_HaveCoins bGet c (outpoint_hash (txin_prevout txin)) of
        (False, c') \<Rightarrow> (False, c')
      | (True, c') \<Rightarrow> all_have_coins bGet vin c')"

definition accept_inputs ::
    "'b getter \<Rightarrow> u256 \<Rightarrow> CTransaction \<Rightarrow> 'b CCoinsViewCache \<Rightarrow> (accept_error + int) \<times> 'b CCoinsViewCache" where
  "accept_inputs bGet hash tx view =
     (case cache_HaveCoins bGet view hash of
        (True, v1) \<Rightarrow> (Inl Silent, v1)
      | (False, v1) \<Rightarrow>
          (case all_have_coins bGet (tx_vin tx) v1 of
             (False, v2) \<Rightarrow> (Inl MissingInputs, v2)
           | (True, v2) \<Rightarrow>
               (case HaveInputs bGet v2 tx of
                  (False, v3) \<Rightarrow> (Inl (Refused (Reject 0 ''bad-txns-inputs-spent'')), v3)
                | (True, v3) \<Rightarrow>
                    (case GetValueIn bGet v3 tx of
                       (None, v4) \<Rightarrow> (Inl (Refused Aborted), v4)
                     | (Some nValueIn, v4) \<Rightarrow> (Inr nValueIn, v4)))))"

text \<open>The fee rules; \<open>None\<close> lets the transaction pass.\<close>

definition accept_fees :: "accept_env \<Rightarrow> u256 \<Rightarrow> CTxMemPool \<Rightarrow> bool \<Rightarrow> bool \<Rightarrow> bool \<Rightarrow> int \<Rightarrow> nat \<Rightarrow> accept_error option" where
  "accept_fees env hash mp fLimitFree fRejectInsaneFee ignoreFees nFees nSize =
     (let relay = GetFee (pol_minRelayTxFee (acc_policy env)) nSize in
      if \<not> ignoreFees \<and> fLimitFree \<and>
        nFees < GetMinRelayFee (acc_params env) (pol_minRelayTxFee (acc_policy env)) hash mp nSize True
      then Some (Refused (Reject 0 ''insufficient fee''))
      else if \<not> ignoreFees \<and> acc_relaypriority env \<and> nFees < relay \<and> \<not> acc_AllowFree env
      then Some (Refused (Reject 0 ''insufficient priority''))
      else if \<not> ignoreFees \<and> fLimitFree \<and> nFees < relay \<and> acc_rateLimited env
      then Some (Refused (Reject 0 ''rate limited free transaction''))
      else if fRejectInsaneFee \<and> nFees > swrap 64 (relay * 10000) then Some Silent
      else None)"

abbreviation (input) MAX_TX_SIGOPS :: nat where "MAX_TX_SIGOPS \<equiv> MAX_BLOCK_SIGOPS div 5"

text \<open>The checks on the cached inputs, without a view below.\<close>

definition accept_scripts ::
    "accept_env \<Rightarrow> u256 \<Rightarrow> CTxMemPool \<Rightarrow> bool \<Rightarrow> bool \<Rightarrow> bool \<Rightarrow> CTransaction \<Rightarrow> int \<Rightarrow> unit CCoinsViewCache \<Rightarrow>
      accept_error + CTxMemPoolEntry" where
  "accept_scripts env hash mp fLimitFree fRejectInsaneFee ignoreFees tx nValueIn view =
     (case (if acc_fRequireStandard env then AreInputsStandard (acc_crypto env) dummy_GetCoins tx view else (Some True, view)) of
        (None, _) \<Rightarrow> Inl (Refused Aborted)
      | (Some False, _) \<Rightarrow> Inl Silent
      | (Some True, v1) \<Rightarrow>
          (case GetP2SHSigOpCount dummy_GetCoins tx v1 of
             (None, _) \<Rightarrow> Inl (Refused Aborted)
           | (Some n, v2) \<Rightarrow>
               if GetLegacySigOpCount tx + n > MAX_TX_SIGOPS then Inl (Refused (Reject 0 ''bad-txns-too-many-sigops''))
               else
                 (case GetValueOut tx of
                    Inl _ \<Rightarrow> Inl (Refused Aborted)
                  | Inr nValueOut \<Rightarrow>
                      let nFees = swrap 64 (nValueIn - nValueOut);
                          entry = CTxMemPoolEntry_new tx nFees (acc_now env) (acc_dPriority env) (word_of_int (acc_nHeight env))
                      in (case accept_fees env hash mp fLimitFree fRejectInsaneFee ignoreFees nFees (mpe_nTxSize entry) of
                            Some e \<Rightarrow> Inl e
                          | None \<Rightarrow>
                              (case CheckInputs (acc_crypto env) (acc_params env) dummy_GetCoins (acc_prevHeight env) True
                                      STANDARD_SCRIPT_VERIFY_FLAGS tx v2 of
                                 (Inl e, _) \<Rightarrow> Inl (Refused e)
                               | (Inr _, v3) \<Rightarrow>
                                   (case CheckInputs (acc_crypto env) (acc_params env) dummy_GetCoins (acc_prevHeight env) True
                                           SCRIPT_VERIFY_P2SH tx v3 of
                                      (Inl e, _) \<Rightarrow> Inl (Refused e)
                                    | (Inr _, _) \<Rightarrow> Inr entry))))))"

text \<open>\<^verbatim>\<open>AcceptToMemoryPool\<close>: the outcome, the pool and the view of the tip, whose cache may be filled.\<close>

definition AcceptToMemoryPool ::
    "accept_env \<Rightarrow> (CTransaction \<Rightarrow> u256) \<Rightarrow> 'b getter \<Rightarrow> CTransaction \<Rightarrow> bool \<Rightarrow> bool \<Rightarrow> bool \<Rightarrow> CTxMemPool \<Rightarrow> 'b \<Rightarrow>
      (accept_error + unit) \<times> CTxMemPool \<times> 'b" where
  "AcceptToMemoryPool env txid tipGet tx fLimitFree fRejectInsaneFee ignoreFees mp tip =
     (case accept_precheck env txid tx mp of
        Inl e \<Rightarrow> (Inl e, mp, tip)
      | Inr _ \<Rightarrow>
          (case accept_inputs (mempool_GetCoins tipGet) (txid tx) tx (cache_new (mp, tip)) of
             (Inl e, v) \<Rightarrow> (Inl e, mp, snd (cache_base v))
           | (Inr nValueIn, v) \<Rightarrow>
               (case accept_scripts env (txid tx) mp fLimitFree fRejectInsaneFee ignoreFees tx nValueIn (SetBackend () v) of
                  Inl e \<Rightarrow> (Inl e, mp, snd (cache_base v))
                | Inr entry \<Rightarrow> (Inr (), addUnchecked (txid tx) entry mp, snd (cache_base v)))))"

section \<open>The invariant of the pool\<close>

text \<open>
  What \<^verbatim>\<open>CTxMemPool::check\<close> asserts of the two maps and the size: transactions are stored under
  their identifiers, every input of every transaction is in \<^verbatim>\<open>mapNextTx\<close> with this transaction and
  its position, and \<^verbatim>\<open>mapNextTx\<close> holds nothing else. In particular no two transactions of the pool
  spend the same output.
\<close>

definition total_size :: "(u256 \<times> CTxMemPoolEntry) list \<Rightarrow> nat" where
  "total_size m = sum_list (map (\<lambda>(h, e). mpe_nTxSize e) m)"

definition pool_inv :: "(CTransaction \<Rightarrow> u256) \<Rightarrow> CTxMemPool \<Rightarrow> bool" where
  "pool_inv txid mp \<longleftrightarrow>
     distinct (map fst (mp_mapTx mp)) \<and> mp_totalTxSize mp = word_of_nat (total_size (mp_mapTx mp)) \<and>
     (\<forall>h e. map_of (mp_mapTx mp) h = Some e \<longrightarrow> txid (mpe_tx e) = h) \<and>
     (\<forall>op inp. map_of (mp_mapNextTx mp) op = Some inp \<longrightarrow>
        (\<exists>e. map_of (mp_mapTx mp) (inp_ptx inp) = Some e \<and> inp_n inp < length (tx_vin (mpe_tx e)) \<and>
           txin_prevout (tx_vin (mpe_tx e) ! inp_n inp) = op)) \<and>
     (\<forall>h e i. map_of (mp_mapTx mp) h = Some e \<longrightarrow> i < length (tx_vin (mpe_tx e)) \<longrightarrow>
        map_of (mp_mapNextTx mp) (txin_prevout (tx_vin (mpe_tx e) ! i)) = Some \<lparr>inp_ptx = h, inp_n = i\<rparr>)"

lemma pool_invD:
  assumes "pool_inv txid mp"
  shows "distinct (map fst (mp_mapTx mp))" "mp_totalTxSize mp = word_of_nat (total_size (mp_mapTx mp))"
    "map_of (mp_mapTx mp) h = Some e \<Longrightarrow> txid (mpe_tx e) = h"
    "map_of (mp_mapNextTx mp) op = Some inp \<Longrightarrow> \<exists>e. map_of (mp_mapTx mp) (inp_ptx inp) = Some e \<and>
       inp_n inp < length (tx_vin (mpe_tx e)) \<and> txin_prevout (tx_vin (mpe_tx e) ! inp_n inp) = op"
    "map_of (mp_mapTx mp) h = Some e \<Longrightarrow> i < length (tx_vin (mpe_tx e)) \<Longrightarrow>
       map_of (mp_mapNextTx mp) (txin_prevout (tx_vin (mpe_tx e) ! i)) = Some \<lparr>inp_ptx = h, inp_n = i\<rparr>"
  using assms by (auto simp: pool_inv_def)

lemma map_of_delete: "map_of (AList.delete k m) x = (if x = k then None else map_of m x)"
  by (simp add: delete_conv')

lemma map_of_update: "map_of (AList.update k v m) x = (if x = k then Some v else map_of m x)"
  by (simp add: update_conv')

lemma map_of_delete_prevouts:
  "map_of (fold (\<lambda>txin. AList.delete (txin_prevout txin)) vin m) op =
     (if op \<in> txin_prevout ` set vin then None else map_of m op)"
  by (induction vin arbitrary: m) (auto simp: map_of_delete)

lemma map_of_update_prevouts:
  assumes "distinct (map txin_prevout vin)" "n \<le> length vin"
  shows "map_of (fold (\<lambda>i. AList.update (txin_prevout (vin ! i)) \<lparr>inp_ptx = h, inp_n = i\<rparr>) [0..<n] m) op = Some inp \<longleftrightarrow>
    (\<exists>i < n. op = txin_prevout (vin ! i) \<and> inp = \<lparr>inp_ptx = h, inp_n = i\<rparr>) \<or>
    (\<forall>i < n. op \<noteq> txin_prevout (vin ! i)) \<and> map_of m op = Some inp"
  using assms(2)
proof (induction n)
  case (Suc n)
  have d: "txin_prevout (vin ! i) \<noteq> txin_prevout (vin ! n)" if "i < n" for i
    using assms(1) Suc.prems that by (simp add: distinct_conv_nth)
  show ?case using Suc d by (auto simp: map_of_update less_Suc_eq)
qed simp

lemma total_size_delete:
  "distinct (map fst m) \<Longrightarrow> map_of m k = Some e \<Longrightarrow> total_size (AList.delete k m) + mpe_nTxSize e = total_size m"
proof (induction m)
  case (Cons x m)
  obtain k' e' where x: "x = (k', e')" by (cases x)
  show ?case
  proof (cases "k' = k")
    case True
    then have "AList.delete k (x # m) = m" using Cons.prems x by (force simp: AList.delete_eq filter_id_conv)
    then show ?thesis using True Cons.prems x by (simp add: total_size_def)
  next
    case False
    then show ?thesis using Cons x by (simp add: total_size_def)
  qed
qed simp

lemma total_size_update: "k \<notin> fst ` set m \<Longrightarrow> total_size (AList.update k e m) = total_size m + mpe_nTxSize e"
  by (induction m) (auto simp: total_size_def)

lemma erase_entry_maps:
  "map_of (mp_mapTx (erase_entry hash e mp)) h = (if h = hash then None else map_of (mp_mapTx mp) h)"
  "map_of (mp_mapNextTx (erase_entry hash e mp)) op =
     (if op \<in> txin_prevout ` set (tx_vin (mpe_tx e)) then None else map_of (mp_mapNextTx mp) op)"
  by (simp_all add: erase_entry_def map_of_delete map_of_delete_prevouts)

text \<open>The outputs that an entry spends are those whose inpoint leads to it.\<close>

lemma spent_by_iff:
  assumes "pool_inv txid mp" "map_of (mp_mapTx mp) hash = Some e" "map_of (mp_mapNextTx mp) op = Some inp"
  shows "op \<in> txin_prevout ` set (tx_vin (mpe_tx e)) \<longleftrightarrow> inp_ptx inp = hash"
proof
  assume "op \<in> txin_prevout ` set (tx_vin (mpe_tx e))"
  then obtain i where "i < length (tx_vin (mpe_tx e))" "op = txin_prevout (tx_vin (mpe_tx e) ! i)"
    by (auto simp: in_set_conv_nth)
  then show "inp_ptx inp = hash" using pool_invD(5) [OF assms(1,2)] assms(3) by auto
next
  assume "inp_ptx inp = hash"
  then show "op \<in> txin_prevout ` set (tx_vin (mpe_tx e))" using pool_invD(4) [OF assms(1,3)] assms(2) by auto
qed

lemma erase_entry_inv:
  assumes "pool_inv txid mp" "map_of (mp_mapTx mp) hash = Some e"
  shows "pool_inv txid (erase_entry hash e mp)"
  unfolding pool_inv_def
proof (intro conjI allI impI)
  show "distinct (map fst (mp_mapTx (erase_entry hash e mp)))"
    using pool_invD(1) [OF assms(1)] by (simp add: erase_entry_def distinct_delete)
  have t: "total_size (AList.delete hash (mp_mapTx mp)) + mpe_nTxSize e = total_size (mp_mapTx mp)"
    by (rule total_size_delete [OF pool_invD(1) [OF assms(1)] assms(2)])
  show "mp_totalTxSize (erase_entry hash e mp) = word_of_nat (total_size (mp_mapTx (erase_entry hash e mp)))"
    using pool_invD(2) [OF assms(1)] by (simp add: erase_entry_def flip: t)
next
  fix h e'
  assume "map_of (mp_mapTx (erase_entry hash e mp)) h = Some e'"
  then show "txid (mpe_tx e') = h" using pool_invD(3) [OF assms(1)] by (auto simp: erase_entry_maps split: if_splits)
next
  fix op inp
  assume "map_of (mp_mapNextTx (erase_entry hash e mp)) op = Some inp"
  then have o: "op \<notin> txin_prevout ` set (tx_vin (mpe_tx e))" "map_of (mp_mapNextTx mp) op = Some inp"
    by (auto simp: erase_entry_maps split: if_splits)
  then have "inp_ptx inp \<noteq> hash" using spent_by_iff [OF assms o(2)] by simp
  then show "\<exists>e'. map_of (mp_mapTx (erase_entry hash e mp)) (inp_ptx inp) = Some e' \<and>
      inp_n inp < length (tx_vin (mpe_tx e')) \<and> txin_prevout (tx_vin (mpe_tx e') ! inp_n inp) = op"
    using pool_invD(4) [OF assms(1) o(2)] by (auto simp: erase_entry_maps)
next
  fix h e' i
  assume a: "map_of (mp_mapTx (erase_entry hash e mp)) h = Some e'" "i < length (tx_vin (mpe_tx e'))"
  then have h: "h \<noteq> hash" "map_of (mp_mapTx mp) h = Some e'" by (auto simp: erase_entry_maps split: if_splits)
  let ?op = "txin_prevout (tx_vin (mpe_tx e') ! i)"
  have n: "map_of (mp_mapNextTx mp) ?op = Some \<lparr>inp_ptx = h, inp_n = i\<rparr>" using pool_invD(5) [OF assms(1) h(2) a(2)] .
  then have "?op \<notin> txin_prevout ` set (tx_vin (mpe_tx e))" using spent_by_iff [OF assms n] h(1) by simp
  then show "map_of (mp_mapNextTx (erase_entry hash e mp)) ?op = Some \<lparr>inp_ptx = h, inp_n = i\<rparr>"
    using n by (simp add: erase_entry_maps)
qed

lemma addUnchecked_inv:
  assumes "pool_inv txid mp" "hash = txid (mpe_tx e)" "map_of (mp_mapTx mp) hash = None"
    and "distinct (map txin_prevout (tx_vin (mpe_tx e)))"
    and "\<forall>txin \<in> set (tx_vin (mpe_tx e)). map_of (mp_mapNextTx mp) (txin_prevout txin) = None"
  shows "pool_inv txid (addUnchecked hash e mp)"
proof -
  let ?vin = "tx_vin (mpe_tx e)"
  define mp' where "mp' = addUnchecked hash e mp"
  have tx: "map_of (mp_mapTx mp') h = (if h = hash then Some e else map_of (mp_mapTx mp) h)" for h
    by (simp add: mp'_def addUnchecked_def Let_def map_of_update)
  have fresh: "map_of (mp_mapNextTx mp) (txin_prevout (?vin ! i)) = None" if "i < length ?vin" for i
    using assms(5) that by simp
  have nx: "map_of (mp_mapNextTx mp') op = Some inp \<longleftrightarrow>
      (\<exists>i < length ?vin. op = txin_prevout (?vin ! i) \<and> inp = \<lparr>inp_ptx = hash, inp_n = i\<rparr>) \<or> map_of (mp_mapNextTx mp) op = Some inp" for op inp
    using map_of_update_prevouts [OF assms(4) order_refl, of hash "mp_mapNextTx mp" op inp] fresh
    by (auto simp: mp'_def addUnchecked_def Let_def)
  have k: "hash \<notin> fst ` set (mp_mapTx mp)" using assms(3) by (simp add: map_of_eq_None_iff)
  have "distinct (map fst (mp_mapTx mp'))" "mp_totalTxSize mp' = word_of_nat (total_size (mp_mapTx mp'))"
    using pool_invD(1,2) [OF assms(1)]
    by (simp_all add: mp'_def addUnchecked_def Let_def distinct_update total_size_update [OF k])
  moreover have "txid (mpe_tx e') = h" if "map_of (mp_mapTx mp') h = Some e'" for h e'
    using that pool_invD(3) [OF assms(1)] assms(2) by (auto simp: tx split: if_splits)
  moreover have "\<exists>e'. map_of (mp_mapTx mp') (inp_ptx inp) = Some e' \<and> inp_n inp < length (tx_vin (mpe_tx e')) \<and>
      txin_prevout (tx_vin (mpe_tx e') ! inp_n inp) = op" if "map_of (mp_mapNextTx mp') op = Some inp" for op inp
  proof (cases "map_of (mp_mapNextTx mp) op = Some inp")
    case True
    then show ?thesis using pool_invD(4) [OF assms(1) True] assms(3) by (auto simp: tx)
  next
    case False
    then show ?thesis using that by (auto simp: nx tx)
  qed
  moreover have "map_of (mp_mapNextTx mp') (txin_prevout (tx_vin (mpe_tx e') ! i)) = Some \<lparr>inp_ptx = h, inp_n = i\<rparr>"
    if "map_of (mp_mapTx mp') h = Some e'" "i < length (tx_vin (mpe_tx e'))" for h e' i
    using that pool_invD(5) [OF assms(1)] by (auto simp: tx nx split: if_splits)
  ultimately show ?thesis unfolding mp'_def [symmetric] pool_inv_def by blast
qed

section \<open>Removing\<close>

text \<open>Transaction \<open>c\<close> of the pool spends an output of transaction \<open>h\<close> of the pool.\<close>

definition spends_output :: "CTxMemPool \<Rightarrow> u256 \<Rightarrow> nat \<Rightarrow> u256 \<Rightarrow> bool" where
  "spends_output mp h n c \<longleftrightarrow>
     (\<exists>i inp. i < n \<and> map_of (mp_mapNextTx mp) \<lparr>outpoint_hash = h, outpoint_n = word_of_nat i\<rparr> = Some inp \<and> inp_ptx inp = c)"

definition spends :: "CTxMemPool \<Rightarrow> (u256 \<times> u256) set" where
  "spends mp = {(h, c). \<exists>e. map_of (mp_mapTx mp) h = Some e \<and> spends_output mp h (length (tx_vout (mpe_tx e))) c}"

lemma spenders_ok:
  assumes "pool_inv txid mp"
  shows "\<exists>cs. spenders txid mp h is = Some cs \<and>
    (\<forall>c. c \<in> set cs \<longleftrightarrow> (\<exists>i \<in> set is. \<exists>inp. map_of (mp_mapNextTx mp) \<lparr>outpoint_hash = h, outpoint_n = word_of_nat i\<rparr> = Some inp \<and> inp_ptx inp = c))"
proof (induction "is")
  case (Cons i "is")
  then obtain cs where cs: "spenders txid mp h is = Some cs"
    "\<forall>c. c \<in> set cs \<longleftrightarrow> (\<exists>i \<in> set is. \<exists>inp. map_of (mp_mapNextTx mp) \<lparr>outpoint_hash = h, outpoint_n = word_of_nat i\<rparr> = Some inp \<and> inp_ptx inp = c)"
    by blast
  show ?case
  proof (cases "map_of (mp_mapNextTx mp) \<lparr>outpoint_hash = h, outpoint_n = word_of_nat i\<rparr>")
    case None
    then show ?thesis using cs by simp
  next
    case (Some inp)
    then obtain e where e: "map_of (mp_mapTx mp) (inp_ptx inp) = Some e" using pool_invD(4) [OF assms] by blast
    then have "txid (mpe_tx e) = inp_ptx inp" using pool_invD(3) [OF assms] by blast
    then show ?thesis using cs Some e by (auto simp: pool_lookup_def)
  qed
qed simp

lemma spenders_upt:
  assumes "pool_inv txid mp"
  obtains cs where "spenders txid mp h [0..<n] = Some cs" "\<And>c. c \<in> set cs \<longleftrightarrow> spends_output mp h n c"
  using spenders_ok [OF assms, of h "[0..<n]"] unfolding spends_output_def by (auto simp: Bex_def)

text \<open>Paths that avoid one node.\<close>

lemma rtrancl_avoid:
  assumes "(x, v) \<in> R\<^sup>*" "v \<noteq> a"
  shows "x \<noteq> a \<and> (x, v) \<in> {(y, z). (y, z) \<in> R \<and> y \<noteq> a \<and> z \<noteq> a}\<^sup>* \<or>
    (\<exists>c. (a, c) \<in> R \<and> c \<noteq> a \<and> (c, v) \<in> {(y, z). (y, z) \<in> R \<and> y \<noteq> a \<and> z \<noteq> a}\<^sup>*)"
  using assms
proof (induction rule: converse_rtrancl_induct)
  case (step y z)
  then consider "z \<noteq> a" "(z, v) \<in> {(y, z). (y, z) \<in> R \<and> y \<noteq> a \<and> z \<noteq> a}\<^sup>*"
    | "\<exists>c. (a, c) \<in> R \<and> c \<noteq> a \<and> (c, v) \<in> {(y, z). (y, z) \<in> R \<and> y \<noteq> a \<and> z \<noteq> a}\<^sup>*" by blast
  then show ?case
  proof cases
    case 1
    show ?thesis
    proof (cases "y = a")
      case True
      then show ?thesis using 1 step.hyps(1) by blast
    next
      case False
      then have "(y, z) \<in> {(y, z). (y, z) \<in> R \<and> y \<noteq> a \<and> z \<noteq> a}" using 1 step.hyps(1) by blast
      then show ?thesis using 1(2) False by (meson converse_rtrancl_into_rtrancl)
    qed
  qed blast
qed blast

lemma spends_erase:
  assumes "pool_inv txid mp" "map_of (mp_mapTx mp) hash = Some e"
  shows "spends (erase_entry hash e mp) = {(y, z). (y, z) \<in> spends mp \<and> y \<noteq> hash \<and> z \<noteq> hash}"
proof -
  have "spends_output (erase_entry hash e mp) h n c \<longleftrightarrow> spends_output mp h n c \<and> c \<noteq> hash" (is "?l = ?r") for h n c
  proof
    assume ?l
    then show ?r using spent_by_iff [OF assms] by (auto simp: spends_output_def erase_entry_maps split: if_splits)
  next
    assume ?r
    then obtain i inp where i: "i < n" "map_of (mp_mapNextTx mp) \<lparr>outpoint_hash = h, outpoint_n = word_of_nat i\<rparr> = Some inp"
      "inp_ptx inp = c" "c \<noteq> hash" by (auto simp: spends_output_def)
    then have "\<lparr>outpoint_hash = h, outpoint_n = word_of_nat i\<rparr> \<notin> txin_prevout ` set (tx_vin (mpe_tx e))"
      using spent_by_iff [OF assms i(2)] by simp
    then show ?l using i by (auto simp: spends_output_def erase_entry_maps)
  qed
  then show ?thesis by (auto simp: spends_def erase_entry_maps split: if_splits)
qed

text \<open>The transactions reached from a queue.\<close>

definition reach :: "CTxMemPool \<Rightarrow> u256 list \<Rightarrow> u256 set" where
  "reach mp q = {v. \<exists>x \<in> set q. (x, v) \<in> (spends mp)\<^sup>*}"

lemma reach_skip:
  assumes "map_of (mp_mapTx mp) h = None"
  shows "reach mp (h # q) = insert h (reach mp q)"
proof -
  have "(h, c) \<notin> spends mp" for c using assms by (simp add: spends_def)
  then have "(h, v) \<in> (spends mp)\<^sup>* \<longleftrightarrow> v = h" for v by (auto elim: converse_rtranclE)
  then show ?thesis by (auto simp: reach_def)
qed

lemma reach_erase:
  assumes "pool_inv txid mp" "map_of (mp_mapTx mp) hash = Some e"
    and "\<And>c. c \<in> set cs \<longleftrightarrow> (hash, c) \<in> spends mp" "v \<noteq> hash"
  shows "v \<in> reach mp (hash # q) \<longleftrightarrow> v \<in> reach (erase_entry hash e mp) (q @ cs)"
proof
  let ?R = "{(y, z). (y, z) \<in> spends mp \<and> y \<noteq> hash \<and> z \<noteq> hash}"
  have R: "spends (erase_entry hash e mp) = ?R" by (rule spends_erase [OF assms(1,2)])
  {
    assume "v \<in> reach mp (hash # q)"
    then obtain x where x: "x \<in> set (hash # q)" "(x, v) \<in> (spends mp)\<^sup>*" by (auto simp: reach_def)
    from rtrancl_avoid [OF x(2) assms(4)] x(1) assms(3) show "v \<in> reach (erase_entry hash e mp) (q @ cs)"
      by (auto simp: reach_def R)
  next
    assume "v \<in> reach (erase_entry hash e mp) (q @ cs)"
    then obtain x where x: "x \<in> set q \<or> (hash, x) \<in> spends mp" "(x, v) \<in> ?R\<^sup>*" using assms(3) by (auto simp: reach_def R)
    have "(x, v) \<in> (spends mp)\<^sup>*" by (rule rtrancl_mono [THEN subsetD, OF _ x(2)]) auto
    then show "v \<in> reach mp (hash # q)" using x(1) by (auto simp: reach_def intro: converse_rtrancl_into_rtrancl)
  }
qed

lemma remove_loop_recursive:
  assumes "pool_inv txid mp"
  shows "\<exists>mp' rs. remove_loop txid True q mp removed = Some (mp', rs) \<and> pool_inv txid mp' \<and>
    (\<forall>h. map_of (mp_mapTx mp') h = (if h \<in> reach mp q then None else map_of (mp_mapTx mp) h))"
  using assms
proof (induction txid "True" q mp removed rule: remove_loop.induct)
  case (2 txid hash q mp removed)
  show ?case
  proof (cases "map_of (mp_mapTx mp) hash")
    case None
    then show ?thesis using 2(1) [OF None 2(3)] reach_skip [OF None, of q] by auto
  next
    case (Some e)
    obtain cs where cs: "spenders txid mp hash [0..<length (tx_vout (mpe_tx e))] = Some cs"
      "\<And>c. c \<in> set cs \<longleftrightarrow> spends_output mp hash (length (tx_vout (mpe_tx e))) c"
      using spenders_upt [OF 2(3)] by blast
    have sp: "c \<in> set cs \<longleftrightarrow> (hash, c) \<in> spends mp" for c using cs(2) Some by (simp add: spends_def)
    have IH: "\<exists>mp' rs. remove_loop txid True (q @ cs) (erase_entry hash e mp) (removed @ [mpe_tx e]) = Some (mp', rs) \<and>
        pool_inv txid mp' \<and>
        (\<forall>h. map_of (mp_mapTx mp') h =
          (if h \<in> reach (erase_entry hash e mp) (q @ cs) then None else map_of (mp_mapTx (erase_entry hash e mp)) h))"
      by (rule 2(2) [OF Some _ erase_entry_inv [OF 2(3) Some]]) (simp add: cs(1))
    have h: "hash \<in> reach mp (hash # q)" by (auto simp: reach_def)
    have "(if v \<in> reach (erase_entry hash e mp) (q @ cs) then None else map_of (mp_mapTx (erase_entry hash e mp)) v) =
        (if v \<in> reach mp (hash # q) then None else map_of (mp_mapTx mp) v)" for v
      using reach_erase [OF 2(3) Some sp, of v q] h by (cases "v = hash") (auto simp: erase_entry_maps)
    then show ?thesis using IH Some cs(1) by simp
  qed
qed (auto simp: reach_def)

lemma remove_loop_single:
  assumes "pool_inv txid mp"
  shows "\<exists>mp' rs. remove_loop txid False [h] mp removed = Some (mp', rs) \<and> pool_inv txid mp' \<and>
    (\<forall>x. map_of (mp_mapTx mp') x = (if x = h then None else map_of (mp_mapTx mp) x))"
  using assms erase_entry_inv [OF assms] by (cases "map_of (mp_mapTx mp) h") (auto simp: erase_entry_maps)

text \<open>What a recursive removal takes out.\<close>

definition doomed :: "(CTransaction \<Rightarrow> u256) \<Rightarrow> CTxMemPool \<Rightarrow> CTransaction \<Rightarrow> u256 set" where
  "doomed txid mp tx =
     {v. (txid tx, v) \<in> (spends mp)\<^sup>* \<or>
        map_of (mp_mapTx mp) (txid tx) = None \<and> (\<exists>c. spends_output mp (txid tx) (length (tx_vout tx)) c \<and> (c, v) \<in> (spends mp)\<^sup>*)}"

lemma remove_recursive:
  assumes "pool_inv txid mp"
  shows "\<exists>mp' rs. pool_remove txid tx True mp = Some (mp', rs) \<and> pool_inv txid mp' \<and>
    (\<forall>h. map_of (mp_mapTx mp') h = (if h \<in> doomed txid mp tx then None else map_of (mp_mapTx mp) h))"
proof (cases "map_of (mp_mapTx mp) (txid tx)")
  case None
  obtain cs where cs: "spenders txid mp (txid tx) [0..<length (tx_vout tx)] = Some cs"
    "\<And>c. c \<in> set cs \<longleftrightarrow> spends_output mp (txid tx) (length (tx_vout tx)) c" using spenders_upt [OF assms] by blast
  have "reach mp (txid tx # cs) = doomed txid mp tx" using None cs(2) by (auto simp: reach_def doomed_def)
  then show ?thesis
    using remove_loop_recursive [OF assms, of "txid tx # cs" "[]"] None cs(1)
    by (simp add: pool_remove_def del: remove_loop.simps)
next
  case (Some e)
  have "reach mp [txid tx] = doomed txid mp tx" using Some by (auto simp: reach_def doomed_def)
  then show ?thesis
    using remove_loop_recursive [OF assms, of "[txid tx]" "[]"] Some by (simp add: pool_remove_def del: remove_loop.simps)
qed

lemma remove_single:
  assumes "pool_inv txid mp"
  shows "\<exists>mp' rs. pool_remove txid tx False mp = Some (mp', rs) \<and> pool_inv txid mp' \<and>
    (\<forall>h. map_of (mp_mapTx mp') h = (if h = txid tx then None else map_of (mp_mapTx mp) h))"
  using remove_loop_single [OF assms, of "txid tx" "[]"] by (simp add: pool_remove_def del: remove_loop.simps)

section \<open>Conflicts and blocks\<close>

definition sub_pool :: "CTxMemPool \<Rightarrow> CTxMemPool \<Rightarrow> bool" where
  "sub_pool mp' mp \<longleftrightarrow> (\<forall>h e. map_of (mp_mapTx mp') h = Some e \<longrightarrow> map_of (mp_mapTx mp) h = Some e)"

lemma sub_pool_refl: "sub_pool mp mp"
  by (simp add: sub_pool_def)

lemma sub_pool_trans: "sub_pool a b \<Longrightarrow> sub_pool b c \<Longrightarrow> sub_pool a c"
  by (simp add: sub_pool_def)

lemma sub_pool_next:
  assumes "pool_inv txid mp" "pool_inv txid mp'" "sub_pool mp' mp" "map_of (mp_mapNextTx mp') op = Some inp"
  shows "map_of (mp_mapNextTx mp) op = Some inp"
proof -
  obtain e where e: "map_of (mp_mapTx mp') (inp_ptx inp) = Some e" "inp_n inp < length (tx_vin (mpe_tx e))"
    "txin_prevout (tx_vin (mpe_tx e) ! inp_n inp) = op" using pool_invD(4) [OF assms(2,4)] by blast
  then have "map_of (mp_mapTx mp) (inp_ptx inp) = Some e" using assms(3) by (simp add: sub_pool_def)
  from pool_invD(5) [OF assms(1) this e(2)] e(3) show ?thesis by simp
qed

lemma removeConflicts_loop_ok:
  assumes "pool_inv txid mp"
  shows "\<exists>mp' rs. removeConflicts_loop txid tx vin mp = Some (mp', rs) \<and> pool_inv txid mp' \<and> sub_pool mp' mp \<and>
    (\<forall>txin \<in> set vin. \<forall>inp. map_of (mp_mapNextTx mp') (txin_prevout txin) = Some inp \<longrightarrow> inp_ptx inp = txid tx)"
  using assms
proof (induction vin arbitrary: mp)
  case (Cons txin vin)
  let ?op = "txin_prevout txin"
  have go: ?case if m1: "pool_inv txid mp1" "sub_pool mp1 mp"
      "\<And>inp. map_of (mp_mapNextTx mp1) ?op = Some inp \<Longrightarrow> inp_ptx inp = txid tx"
      "\<And>mp' rs. removeConflicts_loop txid tx vin mp1 = Some (mp', rs) \<Longrightarrow> \<exists>rs. removeConflicts_loop txid tx (txin # vin) mp = Some (mp', rs)" for mp1
  proof -
    obtain mp' rs where m: "removeConflicts_loop txid tx vin mp1 = Some (mp', rs)" "pool_inv txid mp'" "sub_pool mp' mp1"
      "\<forall>txin \<in> set vin. \<forall>inp. map_of (mp_mapNextTx mp') (txin_prevout txin) = Some inp \<longrightarrow> inp_ptx inp = txid tx"
      using Cons.IH [OF m1(1)] by blast
    have "inp_ptx inp = txid tx" if "map_of (mp_mapNextTx mp') ?op = Some inp" for inp
      using m1(3) sub_pool_next [OF m1(1) m(2,3) that] by blast
    then show ?thesis using m1(4) [OF m(1)] m(2,4) sub_pool_trans [OF m(3) m1(2)] by auto
  qed
  show ?case
  proof (cases "map_of (mp_mapNextTx mp) ?op")
    case None
    show ?thesis by (rule go [OF Cons.prems sub_pool_refl]) (simp_all add: None)
  next
    case (Some inp)
    obtain e where e: "map_of (mp_mapTx mp) (inp_ptx inp) = Some e" using pool_invD(4) [OF Cons.prems Some] by blast
    have id: "txid (mpe_tx e) = inp_ptx inp" using pool_invD(3) [OF Cons.prems e] .
    show ?thesis
    proof (cases "inp_ptx inp = txid tx")
      case True
      show ?thesis by (rule go [OF Cons.prems sub_pool_refl]) (use Some e id True in \<open>simp_all add: pool_lookup_def\<close>)
    next
      case False
      obtain mp1 rs1 where r: "pool_remove txid (mpe_tx e) True mp = Some (mp1, rs1)" "pool_inv txid mp1"
        "\<forall>h. map_of (mp_mapTx mp1) h = (if h \<in> doomed txid mp (mpe_tx e) then None else map_of (mp_mapTx mp) h)"
        using remove_recursive [OF Cons.prems] by blast
      have sub: "sub_pool mp1 mp" using r(3) by (simp add: sub_pool_def)
      have "inp_ptx inp \<in> doomed txid mp (mpe_tx e)" using id by (simp add: doomed_def)
      then have gone: "map_of (mp_mapTx mp1) (inp_ptx inp) = None" using r(3) by simp
      have "map_of (mp_mapNextTx mp1) ?op \<noteq> Some inp'" for inp'
        using sub_pool_next [OF Cons.prems r(2) sub, of ?op inp'] pool_invD(4) [OF r(2), of ?op inp'] Some gone by auto
      then show ?thesis
        by (intro go [OF r(2) sub]) (use Some e id False r(1) in \<open>auto simp: pool_lookup_def\<close>)
    qed
  qed
qed (simp add: sub_pool_refl)

lemma clear_prioritisation_inv [simp]: "pool_inv txid (ClearPrioritisation h mp) = pool_inv txid mp"
  "mp_mapTx (ClearPrioritisation h mp) = mp_mapTx mp" "mp_mapNextTx (ClearPrioritisation h mp) = mp_mapNextTx mp"
  by (simp_all add: pool_inv_def ClearPrioritisation_def)

lemma removeForBlock_ok:
  assumes "pool_inv txid mp"
  shows "\<exists>mp' rs. removeForBlock txid vtx mp = Some (mp', rs) \<and> pool_inv txid mp' \<and> sub_pool mp' mp \<and>
    (\<forall>tx \<in> set vtx. map_of (mp_mapTx mp') (txid tx) = None \<and>
       (\<forall>txin \<in> set (tx_vin tx). map_of (mp_mapNextTx mp') (txin_prevout txin) = None))"
  using assms
proof (induction vtx arbitrary: mp)
  case (Cons tx vtx)
  obtain mp1 rs1 where r1: "pool_remove txid tx False mp = Some (mp1, rs1)" "pool_inv txid mp1"
    "\<forall>h. map_of (mp_mapTx mp1) h = (if h = txid tx then None else map_of (mp_mapTx mp) h)"
    using remove_single [OF Cons.prems] by blast
  obtain mp2 rs2 where r2: "removeConflicts txid tx mp1 = Some (mp2, rs2)" "pool_inv txid mp2" "sub_pool mp2 mp1"
    "\<forall>txin \<in> set (tx_vin tx). \<forall>inp. map_of (mp_mapNextTx mp2) (txin_prevout txin) = Some inp \<longrightarrow> inp_ptx inp = txid tx"
    using removeConflicts_loop_ok [OF r1(2), of tx "tx_vin tx"] unfolding removeConflicts_def by blast
  let ?mp3 = "ClearPrioritisation (txid tx) mp2"
  obtain mp' rs where m: "removeForBlock txid vtx ?mp3 = Some (mp', rs)" "pool_inv txid mp'" "sub_pool mp' ?mp3"
    "\<forall>tx \<in> set vtx. map_of (mp_mapTx mp') (txid tx) = None \<and>
       (\<forall>txin \<in> set (tx_vin tx). map_of (mp_mapNextTx mp') (txin_prevout txin) = None)"
    using Cons.IH [of ?mp3] r2(2) by auto
  have s2: "sub_pool mp' mp2" using m(3) by (simp add: sub_pool_def)
  have s: "sub_pool mp' mp1" using sub_pool_trans [OF s2 r2(3)] .
  have gone: "map_of (mp_mapTx mp') (txid tx) = None"
  proof (rule ccontr)
    assume "map_of (mp_mapTx mp') (txid tx) \<noteq> None"
    then obtain e where "map_of (mp_mapTx mp') (txid tx) = Some e" by blast
    then have "map_of (mp_mapTx mp1) (txid tx) = Some e" using s by (simp add: sub_pool_def)
    then show False using r1(3) by simp
  qed
  have "map_of (mp_mapNextTx mp') (txin_prevout txin) = None" if "txin \<in> set (tx_vin tx)" for txin
  proof (rule ccontr)
    assume "map_of (mp_mapNextTx mp') (txin_prevout txin) \<noteq> None"
    then obtain inp where i: "map_of (mp_mapNextTx mp') (txin_prevout txin) = Some inp" by blast
    then have "inp_ptx inp = txid tx" using r2(4) that sub_pool_next [OF r2(2) m(2) s2] by blast
    then show False using pool_invD(4) [OF m(2) i] gone by auto
  qed
  moreover have "sub_pool mp1 mp" using r1(3) by (simp add: sub_pool_def)
  then have "sub_pool mp' mp" by (rule sub_pool_trans [OF s])
  ultimately show ?case using r1(1) r2(1) m gone by auto
qed (simp add: sub_pool_refl)

lemma remove_all_ok:
  assumes "pool_inv txid mp"
  shows "\<exists>mp'. remove_all txid txs mp = Some mp' \<and> pool_inv txid mp' \<and> sub_pool mp' mp \<and>
    (\<forall>tx \<in> set txs. map_of (mp_mapTx mp') (txid tx) = None)"
  using assms
proof (induction txs arbitrary: mp)
  case (Cons tx txs)
  obtain mp1 rs where r: "pool_remove txid tx True mp = Some (mp1, rs)" "pool_inv txid mp1"
    "\<forall>h. map_of (mp_mapTx mp1) h = (if h \<in> doomed txid mp tx then None else map_of (mp_mapTx mp) h)"
    using remove_recursive [OF Cons.prems] by blast
  obtain mp' where m: "remove_all txid txs mp1 = Some mp'" "pool_inv txid mp'" "sub_pool mp' mp1"
    "\<forall>tx \<in> set txs. map_of (mp_mapTx mp') (txid tx) = None" using Cons.IH [OF r(2)] by blast
  have "txid tx \<in> doomed txid mp tx" by (simp add: doomed_def)
  then have "map_of (mp_mapTx mp') (txid tx) = None"
    using r(3) m(3) by (cases "map_of (mp_mapTx mp') (txid tx)") (auto simp: sub_pool_def split: if_splits)
  moreover have "sub_pool mp1 mp" using r(3) by (simp add: sub_pool_def)
  then have "sub_pool mp' mp" by (rule sub_pool_trans [OF m(3)])
  ultimately show ?case using r(1) m by simp
qed (simp add: sub_pool_refl)

section \<open>Accepted transactions\<close>

lemma accept_precheck_ok:
  assumes "accept_precheck env txid tx mp = Inr ()" "0 \<le> par_MaxMoneyOut (acc_params env)" "par_MaxMoneyOut (acc_params env) < 2 ^ 62"
  shows "tx_well_formed (acc_params env) tx" "\<not> IsCoinBase tx" "\<not> IsCoinStake tx" "map_of (mp_mapTx mp) (txid tx) = None"
    "\<forall>txin \<in> set (tx_vin tx). map_of (mp_mapNextTx mp) (txin_prevout txin) = None"
proof -
  have "CheckTransaction (acc_params env) tx = Inr ()"
    using assms(1) by (cases "CheckTransaction (acc_params env) tx") (auto simp: accept_precheck_def)
  then show "tx_well_formed (acc_params env) tx" using CheckTransaction_iff [OF assms(2,3)] by simp
  show "\<not> IsCoinBase tx" "\<not> IsCoinStake tx" "map_of (mp_mapTx mp) (txid tx) = None"
    "\<forall>txin \<in> set (tx_vin tx). map_of (mp_mapNextTx mp) (txin_prevout txin) = None"
    using assms(1)
    by (auto simp: accept_precheck_def pool_exists_def list_ex_iff split: sum.splits if_splits option.splits)
qed

lemma accept_scripts_entry:
  "accept_scripts env hash mp l r i tx v view = Inr e \<Longrightarrow> mpe_tx e = tx"
  by (auto simp: accept_scripts_def Let_def CTxMemPoolEntry_new_def split: prod.splits option.splits bool.splits sum.splits if_splits)

text \<open>What an attempt to accept a transaction does to the pool.\<close>

lemma accept_result:
  assumes "pool_inv txid mp" "0 \<le> par_MaxMoneyOut (acc_params env)" "par_MaxMoneyOut (acc_params env) < 2 ^ 62"
    and "AcceptToMemoryPool env txid tipGet tx fLimitFree fRejectInsaneFee ignoreFees mp tip = (r, mp', tip')"
  shows "pool_inv txid mp' \<and>
    (case r of
       Inl _ \<Rightarrow> mp' = mp
     | Inr _ \<Rightarrow> tx_well_formed (acc_params env) tx \<and> \<not> IsCoinBase tx \<and> \<not> IsCoinStake tx \<and>
         map_of (mp_mapTx mp) (txid tx) = None \<and>
         (\<forall>txin \<in> set (tx_vin tx). map_of (mp_mapNextTx mp) (txin_prevout txin) = None) \<and>
         (\<exists>e. mpe_tx e = tx \<and> map_of (mp_mapTx mp') = (map_of (mp_mapTx mp))(txid tx \<mapsto> e)))"
proof (cases r)
  case (Inl e)
  then have "mp' = mp" using assms(4) by (auto simp: AcceptToMemoryPool_def split: sum.splits prod.splits)
  then show ?thesis using Inl assms(1) by simp
next
  case (Inr u)
  then obtain v nValueIn entry where a: "accept_precheck env txid tx mp = Inr ()"
    "accept_scripts env (txid tx) mp fLimitFree fRejectInsaneFee ignoreFees tx nValueIn (SetBackend () v) = Inr entry"
    "mp' = addUnchecked (txid tx) entry mp"
    "accept_inputs (mempool_GetCoins tipGet) (txid tx) tx (cache_new (mp, tip)) = (Inr nValueIn, v)"
    using assms(4) by (auto simp: AcceptToMemoryPool_def split: sum.splits prod.splits)
  note p = accept_precheck_ok [OF a(1) assms(2,3)]
  have e: "mpe_tx entry = tx" using accept_scripts_entry [OF a(2)] .
  have "pool_inv txid mp'"
    unfolding a(3) by (rule addUnchecked_inv [OF assms(1)]) (use e p in \<open>simp_all add: tx_well_formed_def\<close>)
  moreover have "map_of (mp_mapTx mp') = (map_of (mp_mapTx mp))(txid tx \<mapsto> entry)"
    by (simp add: a(3) addUnchecked_def Let_def update_conv')
  ultimately show ?thesis using Inr p e by auto
qed

section \<open>Properties\<close>

text \<open>
  C20: \<^verbatim>\<open>AcceptToMemoryPool\<close> keeps the pool consistent. A transaction that is refused leaves the pool as
  it was; one that is accepted is well formed, neither coinbase nor coinstake, was not in the pool,
  spends no output that a transaction of the pool spends, and is the only thing that is added.
\<close>

theorem accept_keeps_pool:
  assumes "pool_inv txid mp" "0 \<le> par_MaxMoneyOut (acc_params env)" "par_MaxMoneyOut (acc_params env) < 2 ^ 62"
    and "AcceptToMemoryPool env txid tipGet tx fLimitFree fRejectInsaneFee ignoreFees mp tip = (r, mp', tip')"
  shows "pool_inv txid mp' \<and>
    (case r of
       Inl _ \<Rightarrow> mp' = mp
     | Inr _ \<Rightarrow> tx_well_formed (acc_params env) tx \<and> \<not> IsCoinBase tx \<and> \<not> IsCoinStake tx \<and>
         map_of (mp_mapTx mp) (txid tx) = None \<and>
         (\<forall>txin \<in> set (tx_vin tx). map_of (mp_mapNextTx mp) (txin_prevout txin) = None) \<and>
         (\<exists>e. mpe_tx e = tx \<and> map_of (mp_mapTx mp') = (map_of (mp_mapTx mp))(txid tx \<mapsto> e)))"
  using assms by (rule accept_result)

definition sample_accept :: accept_env where
  "sample_accept = \<lparr>acc_params = CMainParams, acc_crypto = sample_crypto, acc_fRequireStandard = False,
     acc_policy = \<lparr>pol_datacarrier = True, pol_nMaxDatacarrierBytes = 83, pol_fIsBareMultisigStd = True, pol_minRelayTxFee = 0\<rparr>,
     acc_nHeight = 270000, acc_prevHeight = 270000, acc_adjustedTime = 0, acc_now = 0, acc_mapLockedInputs = Map.empty,
     acc_relaypriority = False, acc_AllowFree = True, acc_rateLimited = False, acc_dPriority = 0\<rparr>"

lemma empty_pool_inv: "pool_inv txid CTxMemPool_empty"
  by (simp add: pool_inv_def CTxMemPool_empty_def total_size_def)

theorem accept_keeps_pool_witness:
  "pool_inv (\<lambda>_. 9) (fst (snd (AcceptToMemoryPool sample_accept (\<lambda>_. 9) tip_get sample_tx True True False CTxMemPool_empty
     (cache_new sample_db))))"
proof -
  have b: "0 \<le> par_MaxMoneyOut (acc_params sample_accept)" "par_MaxMoneyOut (acc_params sample_accept) < 2 ^ 62"
    by (simp_all add: sample_accept_def CMainParams_def)
  show ?thesis
    using accept_keeps_pool [OF empty_pool_inv b, of _ tip_get sample_tx True True False "cache_new sample_db"]
    by (metis prod.collapse)
qed

text \<open>
  C21: A recursive removal takes out exactly the transaction and those of the pool that depend on it
  through spent outputs, however long the dependency; the pool stays consistent and no dangling
  pointer is followed.
\<close>

theorem remove_takes_descendants:
  assumes "pool_inv txid mp"
  shows "\<exists>mp' rs. pool_remove txid tx True mp = Some (mp', rs) \<and> pool_inv txid mp' \<and>
    (\<forall>h. map_of (mp_mapTx mp') h = (if h \<in> doomed txid mp tx then None else map_of (mp_mapTx mp) h))"
  using assms by (rule remove_recursive)

definition sample_child :: CTransaction where
  "sample_child =
     \<lparr>tx_nVersion = 1,
      tx_vin = [\<lparr>txin_prevout = \<lparr>outpoint_hash = 9, outpoint_n = 1\<rparr>, txin_scriptSig = [], txin_nSequence = 5\<rparr>],
      tx_vout = [\<lparr>txout_nValue = 1, txout_scriptPubKey = [OP_1]\<rparr>], tx_nLockTime = 0\<rparr>"

definition pool_txid :: "CTransaction \<Rightarrow> u256" where
  "pool_txid tx = (if length (tx_vout tx) = 2 then 9 else 10)"

definition pool_with_parent :: CTxMemPool where
  "pool_with_parent = addUnchecked 9 (CTxMemPoolEntry_new sample_tx 8 0 0 5) CTxMemPool_empty"

definition pool_with_child :: CTxMemPool where
  "pool_with_child = addUnchecked 10 (CTxMemPoolEntry_new sample_child 1 0 0 5) pool_with_parent"

lemma pool_with_child_inv: "pool_inv pool_txid pool_with_child"
proof -
  have p: "pool_inv pool_txid pool_with_parent"
    unfolding pool_with_parent_def
    by (rule addUnchecked_inv [OF empty_pool_inv])
      (simp_all add: CTxMemPoolEntry_new_def pool_txid_def sample_tx_def CTxMemPool_empty_def Let_def)
  have m: "map_of (mp_mapTx pool_with_parent) 10 = None"
    "map_of (mp_mapNextTx pool_with_parent) \<lparr>outpoint_hash = 9, outpoint_n = 1\<rparr> = None"
    by (simp_all add: pool_with_parent_def addUnchecked_def CTxMemPool_empty_def CTxMemPoolEntry_new_def sample_tx_def Let_def)
  show ?thesis
    unfolding pool_with_child_def
    by (rule addUnchecked_inv [OF p]) (use m in \<open>simp_all add: CTxMemPoolEntry_new_def pool_txid_def sample_child_def Let_def\<close>)
qed

lemma child_spends_parent: "(9, 10) \<in> spends pool_with_child"
  unfolding spends_def spends_output_def
  by (simp add: pool_with_child_def pool_with_parent_def addUnchecked_def CTxMemPool_empty_def CTxMemPoolEntry_new_def
      sample_tx_def sample_child_def Let_def map_of_update)
    (rule exI [of _ 1], simp)

theorem remove_takes_descendants_witness:
  "\<exists>mp' rs. pool_remove pool_txid sample_tx True pool_with_child = Some (mp', rs) \<and> pool_inv pool_txid mp' \<and>
     map_of (mp_mapTx pool_with_child) 10 \<noteq> None \<and> map_of (mp_mapTx mp') 10 = None"
proof -
  have "10 \<in> doomed pool_txid pool_with_child sample_tx"
    using child_spends_parent by (auto simp: doomed_def pool_txid_def sample_tx_def)
  moreover have "map_of (mp_mapTx pool_with_child) 10 \<noteq> None" 
    by (simp add: pool_with_child_def addUnchecked_def Let_def map_of_update)
  ultimately show ?thesis
    using remove_takes_descendants [OF pool_with_child_inv, of sample_tx] by auto
qed

text \<open>
  C22: After \<^verbatim>\<open>removeForBlock\<close> the pool holds no transaction of the block and none that spends an output
  that the block spends; what remains was there before, and the pool is consistent.
\<close>

theorem block_leaves_no_conflict:
  assumes "pool_inv txid mp"
  shows "\<exists>mp' rs. removeForBlock txid vtx mp = Some (mp', rs) \<and> pool_inv txid mp' \<and> sub_pool mp' mp \<and>
    (\<forall>tx \<in> set vtx. map_of (mp_mapTx mp') (txid tx) = None \<and>
       (\<forall>txin \<in> set (tx_vin tx). map_of (mp_mapNextTx mp') (txin_prevout txin) = None))"
  using assms by (rule removeForBlock_ok)

theorem block_leaves_no_conflict_witness:
  "\<exists>mp' rs. removeForBlock pool_txid [sample_tx] pool_with_child = Some (mp', rs) \<and> pool_inv pool_txid mp' \<and>
     map_of (mp_mapTx mp') 9 = None"
  using block_leaves_no_conflict [OF pool_with_child_inv, of "[sample_tx]"] by (auto simp: pool_txid_def sample_tx_def)

end
