(* ===== verification/BlockFiles.thy ===== *)
theory BlockFiles
  imports BlockTree CoinsSer
begin

unbundle bit_operations_syntax

text \<open>
  The files that hold blocks and undo data (\<^verbatim>\<open>FindBlockPos\<close>, \<^verbatim>\<open>FindUndoPos\<close>, \<^verbatim>\<open>FlushBlockFile\<close>,
  \<^verbatim>\<open>WriteBlockToDisk\<close>, \<^verbatim>\<open>ReadBlockFromDisk\<close> and the disk form of \<^verbatim>\<open>CBlockUndo\<close>, all of main.cpp, and
  \<^verbatim>\<open>CBlockFileInfo\<close> of main.h). A file is the list of its bytes. Sizes and positions are 32 bits
  wide and wrap. Opening, seeking and writing a file succeed; the free space on the disk is an
  argument. \<^verbatim>\<open>AllocateFileRange\<close> is its version for Linux.
\<close>

section \<open>Files\<close>

text \<open>Writing at a position, past the end too; setting the size; and growing with zeros.\<close>

definition write_at :: "nat \<Rightarrow> byte list \<Rightarrow> byte list \<Rightarrow> byte list" where
  "write_at pos bs f = take pos f @ replicate (pos - length f) 0 @ bs @ drop (pos + length bs) f"

definition TruncateFile :: "nat \<Rightarrow> byte list \<Rightarrow> byte list" where
  "TruncateFile n f = take n f @ replicate (n - length f) 0"

definition AllocateFileRange :: "nat \<Rightarrow> nat \<Rightarrow> byte list \<Rightarrow> byte list" where
  "AllocateFileRange offset len f = f @ replicate (offset + len - length f) 0"

record CDiskBlockPos =
  dbp_nFile :: int
  dbp_nPos :: u32

definition CDiskBlockPos_null :: CDiskBlockPos where
  "CDiskBlockPos_null = \<lparr>dbp_nFile = - 1, dbp_nPos = 0\<rparr>"

definition CDiskBlockPos_IsNull :: "CDiskBlockPos \<Rightarrow> bool" where
  "CDiskBlockPos_IsNull pos \<longleftrightarrow> dbp_nFile pos = - 1"

record CBlockFileInfo =
  bfi_nBlocks :: u32
  bfi_nSize :: u32
  bfi_nUndoSize :: u32
  bfi_nHeightFirst :: u32
  bfi_nHeightLast :: u32
  bfi_nTimeFirst :: u64
  bfi_nTimeLast :: u64

definition CBlockFileInfo_null :: CBlockFileInfo where
  "CBlockFileInfo_null = \<lparr>bfi_nBlocks = 0, bfi_nSize = 0, bfi_nUndoSize = 0, bfi_nHeightFirst = 0, bfi_nHeightLast = 0,
     bfi_nTimeFirst = 0, bfi_nTimeLast = 0\<rparr>"

definition AddBlock :: "u32 \<Rightarrow> u64 \<Rightarrow> CBlockFileInfo \<Rightarrow> CBlockFileInfo" where
  "AddBlock nHeightIn nTimeIn i =
     i\<lparr>bfi_nHeightFirst := (if bfi_nBlocks i = 0 \<or> bfi_nHeightFirst i > nHeightIn then nHeightIn else bfi_nHeightFirst i),
       bfi_nTimeFirst := (if bfi_nBlocks i = 0 \<or> bfi_nTimeFirst i > nTimeIn then nTimeIn else bfi_nTimeFirst i),
       bfi_nBlocks := bfi_nBlocks i + 1,
       bfi_nHeightLast := (if nHeightIn > bfi_nHeightLast i then nHeightIn else bfi_nHeightLast i),
       bfi_nTimeLast := (if nTimeIn > bfi_nTimeLast i then nTimeIn else bfi_nTimeLast i)\<rparr>"

text \<open>
  The globals \<^verbatim>\<open>vinfoBlockFile\<close>, \<^verbatim>\<open>nLastBlockFile\<close> and \<^verbatim>\<open>setDirtyFileInfo\<close>, and the files \<^verbatim>\<open>blk*.dat\<close> and
  \<^verbatim>\<open>rev*.dat\<close> that exist.
\<close>

record file_state =
  fs_vinfoBlockFile :: "CBlockFileInfo list"
  fs_nLastBlockFile :: nat
  fs_setDirtyFileInfo :: "nat set"
  fs_blk :: "nat \<rightharpoonup> byte list"
  fs_rev :: "nat \<rightharpoonup> byte list"

abbreviation (input) MAX_BLOCKFILE_SIZE :: u32 where "MAX_BLOCKFILE_SIZE \<equiv> 0x8000000"
abbreviation (input) BLOCKFILE_CHUNK_SIZE :: u32 where "BLOCKFILE_CHUNK_SIZE \<equiv> 0x1000000"
abbreviation (input) UNDOFILE_CHUNK_SIZE :: u32 where "UNDOFILE_CHUNK_SIZE \<equiv> 0x100000"

text \<open>A file opened for writing is created when it does not exist.\<close>

definition open_file :: "(nat \<rightharpoonup> byte list) \<Rightarrow> nat \<Rightarrow> byte list" where
  "open_file files n = (case files n of None \<Rightarrow> [] | Some f \<Rightarrow> f)"

definition info_at :: "file_state \<Rightarrow> nat \<Rightarrow> CBlockFileInfo" where
  "info_at fs n = (if n < length (fs_vinfoBlockFile fs) then fs_vinfoBlockFile fs ! n else CBlockFileInfo_null)"

text \<open>\<^verbatim>\<open>FlushBlockFile(true)\<close> cuts the files of \<^verbatim>\<open>nLastBlockFile\<close> to their used sizes.\<close>

definition FlushBlockFile :: "bool \<Rightarrow> file_state \<Rightarrow> file_state" where
  "FlushBlockFile fFinalize fs =
     (let n = fs_nLastBlockFile fs;
          cut = (\<lambda>size f. if fFinalize then TruncateFile (unat size) f else f)
      in fs\<lparr>fs_blk := (fs_blk fs)(n \<mapsto> cut (bfi_nSize (info_at fs n)) (open_file (fs_blk fs) n)),
            fs_rev := (fs_rev fs)(n \<mapsto> cut (bfi_nUndoSize (info_at fs n)) (open_file (fs_rev fs) n))\<rparr>)"

definition CheckDiskSpace :: "u64 \<Rightarrow> u64 \<Rightarrow> bool" where
  "CheckDiskSpace nFreeBytesAvailable nAdditionalBytes \<longleftrightarrow> \<not> nFreeBytesAvailable < 52428800 + nAdditionalBytes"

section \<open>Finding a place\<close>

text \<open>
  The loop of \<^verbatim>\<open>FindBlockPos\<close> over the files. \<^verbatim>\<open>vinfoBlockFile.resize\<close> appends empty entries. The
  loop does not end for a block that is larger than a file may be; running out of fuel is \<open>None\<close>.
\<close>

definition resize_info :: "nat \<Rightarrow> file_state \<Rightarrow> file_state" where
  "resize_info nFile fs =
     (if length (fs_vinfoBlockFile fs) \<le> nFile
      then fs\<lparr>fs_vinfoBlockFile := fs_vinfoBlockFile fs @
                replicate (nFile + 1 - length (fs_vinfoBlockFile fs)) CBlockFileInfo_null\<rparr>
      else fs)"

fun next_file :: "nat \<Rightarrow> u32 \<Rightarrow> nat \<Rightarrow> file_state \<Rightarrow> (nat \<times> file_state) option" where
  "next_file 0 nAddSize nFile fs = None"
| "next_file (Suc fuel) nAddSize nFile fs =
     (if bfi_nSize (info_at fs nFile) + nAddSize \<ge> MAX_BLOCKFILE_SIZE
      then next_file fuel nAddSize (nFile + 1) (resize_info (nFile + 1) (FlushBlockFile True fs))
      else Some (nFile, fs))"

text \<open>
  The preallocation in chunks, for a file that grew from \<open>pos\<close> to \<open>nSize\<close>; \<open>None\<close> is the error
  that the disk is full.
\<close>

definition preallocate :: "u64 \<Rightarrow> u32 \<Rightarrow> u32 \<Rightarrow> u32 \<Rightarrow> byte list option \<Rightarrow> byte list option option" where
  "preallocate nFreeBytesAvailable chunk pos nSize file =
     (let nOldChunks = (pos + chunk - 1) div chunk; nNewChunks = (nSize + chunk - 1) div chunk in
      if nNewChunks > nOldChunks then
        if CheckDiskSpace nFreeBytesAvailable (ucast (nNewChunks * chunk - pos))
        then Some (Some (AllocateFileRange (unat pos) (unat (nNewChunks * chunk - pos)) (case file of None \<Rightarrow> [] | Some f \<Rightarrow> f)))
        else None
      else Some file)"

definition FindBlockPos ::
    "u64 \<Rightarrow> CDiskBlockPos \<Rightarrow> u32 \<Rightarrow> u32 \<Rightarrow> u64 \<Rightarrow> bool \<Rightarrow> file_state \<Rightarrow> (bool \<times> CDiskBlockPos \<times> file_state) option" where
  "FindBlockPos nFree pos nAddSize nHeight nTime fKnown fs =
     (let nFile = (if fKnown then nat (dbp_nFile pos) else fs_nLastBlockFile fs);
          fs = resize_info nFile fs
      in (case (if fKnown then Some (nFile, fs) else next_file (length (fs_vinfoBlockFile fs) + 1) nAddSize nFile fs) of
            None \<Rightarrow> None
          | Some (nFile, fs) \<Rightarrow>
              let pos = (if fKnown then pos else \<lparr>dbp_nFile = int nFile, dbp_nPos = bfi_nSize (info_at fs nFile)\<rparr>);
                  info = AddBlock nHeight nTime (info_at fs nFile);
                  info = info\<lparr>bfi_nSize := (if fKnown then max (dbp_nPos pos + nAddSize) (bfi_nSize info) else bfi_nSize info + nAddSize)\<rparr>;
                  fs = fs\<lparr>fs_nLastBlockFile := nFile, fs_vinfoBlockFile := (fs_vinfoBlockFile fs)[nFile := info]\<rparr>
              in (case (if fKnown then Some (fs_blk fs nFile)
                        else preallocate nFree BLOCKFILE_CHUNK_SIZE (dbp_nPos pos) (bfi_nSize info) (fs_blk fs nFile)) of
                    None \<Rightarrow> Some (False, pos, fs)
                  | Some file \<Rightarrow>
                      Some (True, pos, fs\<lparr>fs_blk := (fs_blk fs)(nFile := file),
                                          fs_setDirtyFileInfo := insert nFile (fs_setDirtyFileInfo fs)\<rparr>))))"

definition FindUndoPos :: "u64 \<Rightarrow> nat \<Rightarrow> u32 \<Rightarrow> file_state \<Rightarrow> bool \<times> CDiskBlockPos \<times> file_state" where
  "FindUndoPos nFree nFile nAddSize fs =
     (let info = info_at fs nFile;
          pos = \<lparr>dbp_nFile = int nFile, dbp_nPos = bfi_nUndoSize info\<rparr>;
          nNewSize = bfi_nUndoSize info + nAddSize;
          fs = fs\<lparr>fs_vinfoBlockFile := (fs_vinfoBlockFile fs)[nFile := info\<lparr>bfi_nUndoSize := nNewSize\<rparr>],
                  fs_setDirtyFileInfo := insert nFile (fs_setDirtyFileInfo fs)\<rparr>
      in (case preallocate nFree UNDOFILE_CHUNK_SIZE (dbp_nPos pos) nNewSize (fs_rev fs nFile) of
            None \<Rightarrow> (False, pos, fs)
          | Some file \<Rightarrow> (True, pos, fs\<lparr>fs_rev := (fs_rev fs)(nFile := file)\<rparr>)))"

section \<open>Blocks and undo data on disk\<close>

text \<open>
  \<^verbatim>\<open>WriteBlockToDisk\<close> with the network's \<^verbatim>\<open>MessageStart\<close>; the result is the position of the block
  behind the eight bytes of its header. \<open>None\<close> is a failure to open the file.
\<close>

definition WriteBlockToDisk :: "byte list \<Rightarrow> CBlock \<Rightarrow> CDiskBlockPos \<Rightarrow> file_state \<Rightarrow> (CDiskBlockPos \<times> file_state) option" where
  "WriteBlockToDisk MessageStart block pos fs =
     (if CDiskBlockPos_IsNull pos then None
      else
        let n = nat (dbp_nFile pos); bs = ser_CBlock block;
            hdr = MessageStart @ ser_word (word_of_nat (length bs) :: u32)
        in Some (pos\<lparr>dbp_nPos := dbp_nPos pos + word_of_nat (length hdr)\<rparr>,
                 fs\<lparr>fs_blk := (fs_blk fs)(n \<mapsto> write_at (unat (dbp_nPos pos)) (hdr @ bs) (open_file (fs_blk fs) n))\<rparr>))"

definition ReadBlockFromDisk_pos :: "sph \<Rightarrow> CPowParams \<Rightarrow> file_state \<Rightarrow> CDiskBlockPos \<Rightarrow> CBlock option" where
  "ReadBlockFromDisk_pos f params fs pos =
     (if CDiskBlockPos_IsNull pos then None
      else
        (case fs_blk fs (nat (dbp_nFile pos)) of
           None \<Rightarrow> None
         | Some file \<Rightarrow>
             (case unser_CBlock (drop (unat (dbp_nPos pos)) file) of
                Inl _ \<Rightarrow> None
              | Inr (block, _) \<Rightarrow>
                  if \<not> block_IsProofOfStake block \<and> \<not> CheckProofOfWork params (block_GetHash f block) (hdr_nBits block)
                  then None else Some block)))"

definition GetBlockPos :: "CBlockIndex \<Rightarrow> CDiskBlockPos" where
  "GetBlockPos bi =
     (if bi_nStatus bi AND BLOCK_HAVE_DATA \<noteq> 0 then \<lparr>dbp_nFile = bi_nFile bi, dbp_nPos = bi_nDataPos bi\<rparr>
      else CDiskBlockPos_null)"

definition GetUndoPos :: "CBlockIndex \<Rightarrow> CDiskBlockPos" where
  "GetUndoPos bi =
     (if bi_nStatus bi AND BLOCK_HAVE_UNDO \<noteq> 0 then \<lparr>dbp_nFile = bi_nFile bi, dbp_nPos = bi_nUndoPos bi\<rparr>
      else CDiskBlockPos_null)"

text \<open>The version for an entry of the index, with the hash that the entry is stored under.\<close>

definition ReadBlockFromDisk :: "sph \<Rightarrow> CPowParams \<Rightarrow> file_state \<Rightarrow> u256 \<Rightarrow> CBlockIndex \<Rightarrow> CBlock option" where
  "ReadBlockFromDisk f params fs hash bi =
     (case ReadBlockFromDisk_pos f params fs (GetBlockPos bi) of
        None \<Rightarrow> None
      | Some block \<Rightarrow> if block_GetHash f block \<noteq> hash then None else Some block)"

definition undo_checksum :: "(valtype \<Rightarrow> valtype) \<Rightarrow> (valtype \<Rightarrow> bool) \<Rightarrow> u256 \<Rightarrow> CTxUndo list \<Rightarrow> u256" where
  "undo_checksum sha256 fully_valid hashBlock vtxundo = Hash sha256 (ser_word hashBlock @ ser_CBlockUndo fully_valid vtxundo)"

definition undo_WriteToDisk ::
    "(valtype \<Rightarrow> valtype) \<Rightarrow> (valtype \<Rightarrow> bool) \<Rightarrow> byte list \<Rightarrow> CTxUndo list \<Rightarrow> CDiskBlockPos \<Rightarrow> u256 \<Rightarrow> file_state \<Rightarrow>
      (CDiskBlockPos \<times> file_state) option" where
  "undo_WriteToDisk sha256 fully_valid MessageStart vtxundo pos hashBlock fs =
     (if CDiskBlockPos_IsNull pos then None
      else
        let n = nat (dbp_nFile pos); bs = ser_CBlockUndo fully_valid vtxundo;
            hdr = MessageStart @ ser_word (word_of_nat (length bs) :: u32)
        in Some (pos\<lparr>dbp_nPos := dbp_nPos pos + word_of_nat (length hdr)\<rparr>,
                 fs\<lparr>fs_rev := (fs_rev fs)(n \<mapsto>
                   write_at (unat (dbp_nPos pos)) (hdr @ bs @ ser_word (undo_checksum sha256 fully_valid hashBlock vtxundo))
                     (open_file (fs_rev fs) n))\<rparr>))"

definition undo_ReadFromDisk ::
    "(valtype \<Rightarrow> valtype) \<Rightarrow> (valtype \<Rightarrow> bool) \<Rightarrow> (valtype \<Rightarrow> valtype option) \<Rightarrow> file_state \<Rightarrow> CDiskBlockPos \<Rightarrow> u256 \<Rightarrow>
      CTxUndo list option" where
  "undo_ReadFromDisk sha256 fully_valid decompress fs pos hashBlock =
     (if CDiskBlockPos_IsNull pos then None
      else
        (case fs_rev fs (nat (dbp_nFile pos)) of
           None \<Rightarrow> None
         | Some file \<Rightarrow>
             (case rbind (unser_CBlockUndo decompress) (\<lambda>vtxundo. rbind unser_word (\<lambda>hashChecksum. rreturn (vtxundo, hashChecksum :: u256)))
                     (drop (unat (dbp_nPos pos)) file) of
                Inl _ \<Rightarrow> None
              | Inr ((vtxundo, hashChecksum), _) \<Rightarrow>
                  if hashChecksum \<noteq> undo_checksum sha256 fully_valid hashBlock vtxundo then None else Some vtxundo)))"

section \<open>What is written stays\<close>

text \<open>The first \<open>n\<close> bytes of a file are kept.\<close>

definition keeps :: "nat \<Rightarrow> byte list \<Rightarrow> byte list \<Rightarrow> bool" where
  "keeps n f f' \<longleftrightarrow> prefix (take n f) f'"

lemma keeps_refl [simp]: "keeps n f f"
  by (simp add: keeps_def take_is_prefix)

lemma keeps_trans: "keeps n f f' \<Longrightarrow> keeps m f' f'' \<Longrightarrow> n \<le> m \<Longrightarrow> keeps n f f''"
  unfolding keeps_def
proof -
  assume a: "prefix (take n f) f'" "prefix (take m f') f''" "n \<le> m"
  then have "take n f = take (length (take n f)) f'" by (metis append_eq_conv_conj prefix_def)
  moreover have "take (length (take n f)) f' = take (length (take n f)) (take m f')" using a(3) by (simp add: min_def)
  ultimately have "prefix (take n f) (take m f')" by (metis take_is_prefix)
  from this a(2) show "prefix (take n f) f''" by (rule prefix_order.trans)
qed

lemma keeps_write_at: "n \<le> p \<Longrightarrow> keeps n f (write_at p bs f)"
  unfolding keeps_def write_at_def
  by (metis append_take_drop_id min.absorb1 prefix_append prefix_order.refl take_is_prefix take_take)

lemma keeps_TruncateFile: "keeps n f (TruncateFile n f)"
  by (simp add: keeps_def TruncateFile_def)

lemma keeps_AllocateFileRange: "keeps n f (AllocateFileRange p l f)"
  by (simp add: keeps_def AllocateFileRange_def) (metis prefix_append take_is_prefix)

lemma keeps_read:
  assumes "keeps n f f'" "prefix bs (drop p f)" "p + length bs \<le> n"
  shows "prefix bs (drop p f')"
proof -
  obtain r where r: "f' = take n f @ r" using assms(1) by (auto simp: keeps_def prefix_def)
  obtain t where t: "drop p f = bs @ t" using assms(2) by (auto simp: prefix_def)
  have "drop p (take n f) = bs @ take (n - p - length bs) t"
    using t assms(3) by (simp add: drop_take)
  moreover have "p \<le> length (take n f) \<or> bs = []"
    using t assms(3) by (cases "p \<le> length f") auto
  ultimately show ?thesis by (auto simp: r prefix_def)
qed

lemma write_at_read: "prefix bs (drop p (write_at p bs f))"
  by (cases "p \<le> length f") (simp_all add: write_at_def)

text \<open>Nothing below the used size of a file changes from one state to the next, and sizes only grow.\<close>

definition files_keep :: "file_state \<Rightarrow> file_state \<Rightarrow> bool" where
  "files_keep fs fs' \<longleftrightarrow>
     (\<forall>n. unat (bfi_nSize (info_at fs n)) \<le> unat (bfi_nSize (info_at fs' n)) \<and>
          unat (bfi_nUndoSize (info_at fs n)) \<le> unat (bfi_nUndoSize (info_at fs' n)) \<and>
          (\<forall>f. fs_blk fs n = Some f \<longrightarrow> (\<exists>f'. fs_blk fs' n = Some f' \<and> keeps (unat (bfi_nSize (info_at fs n))) f f')) \<and>
          (\<forall>f. fs_rev fs n = Some f \<longrightarrow> (\<exists>f'. fs_rev fs' n = Some f' \<and> keeps (unat (bfi_nUndoSize (info_at fs n))) f f')))"

lemma files_keep_refl [simp]: "files_keep fs fs"
  by (simp add: files_keep_def)

lemma files_keep_trans:
  assumes "files_keep fs fs1" "files_keep fs1 fs2"
  shows "files_keep fs fs2"
  unfolding files_keep_def
proof (intro allI conjI impI)
  fix n
  show "unat (bfi_nSize (info_at fs n)) \<le> unat (bfi_nSize (info_at fs2 n))"
    "unat (bfi_nUndoSize (info_at fs n)) \<le> unat (bfi_nUndoSize (info_at fs2 n))"
    using assms unfolding files_keep_def by (meson order_trans)+
  fix f
  {
    assume "fs_blk fs n = Some f"
    then show "\<exists>f'. fs_blk fs2 n = Some f' \<and> keeps (unat (bfi_nSize (info_at fs n))) f f'"
      using assms unfolding files_keep_def by (meson keeps_trans)
  next
    assume "fs_rev fs n = Some f"
    then show "\<exists>f'. fs_rev fs2 n = Some f' \<and> keeps (unat (bfi_nUndoSize (info_at fs n))) f f'"
      using assms unfolding files_keep_def by (meson keeps_trans)
  }
qed

lemma info_at_resize [simp]: "info_at (resize_info n fs) k = info_at fs k"
  by (auto simp: info_at_def resize_info_def nth_append)

lemma resize_info_files [simp]:
  "fs_blk (resize_info n fs) = fs_blk fs" "fs_rev (resize_info n fs) = fs_rev fs"
  "fs_nLastBlockFile (resize_info n fs) = fs_nLastBlockFile fs"
  by (simp_all add: resize_info_def)

lemma resize_info_length: "n < length (fs_vinfoBlockFile (resize_info n fs))"
  by (simp add: resize_info_def)

lemma files_keep_resize [simp]: "files_keep fs (resize_info n fs)"
  by (simp add: files_keep_def)

lemma info_at_Flush [simp]: "info_at (FlushBlockFile b fs) k = info_at fs k"
  by (simp add: FlushBlockFile_def Let_def info_at_def)

lemma files_keep_Flush [simp]: "files_keep fs (FlushBlockFile b fs)"
  by (auto simp: files_keep_def FlushBlockFile_def Let_def info_at_def open_file_def keeps_TruncateFile)

text \<open>The loop ends at a file with room, if the block fits into an empty one.\<close>

lemma next_file_ok:
  assumes "unat nAddSize < 0x8000000" "nFile < length (fs_vinfoBlockFile fs)"
    and "length (fs_vinfoBlockFile fs) < nFile + fuel"
  shows "\<exists>n fs'. next_file fuel nAddSize nFile fs = Some (n, fs') \<and> files_keep fs fs' \<and>
    n < length (fs_vinfoBlockFile fs') \<and> bfi_nSize (info_at fs n) + nAddSize < MAX_BLOCKFILE_SIZE \<and>
    (\<forall>k. info_at fs' k = info_at fs k)"
  using assms(2,3)
proof (induction fuel arbitrary: nFile fs)
  case (Suc fuel)
  let ?fs = "resize_info (nFile + 1) (FlushBlockFile True fs)"
  show ?case
  proof (cases "bfi_nSize (info_at fs nFile) + nAddSize \<ge> MAX_BLOCKFILE_SIZE")
    case False
    then show ?thesis using Suc.prems by (intro exI [of _ nFile] exI [of _ fs]) simp
  next
    case True
    have len: "length (fs_vinfoBlockFile (FlushBlockFile True fs)) = length (fs_vinfoBlockFile fs)"
      by (simp add: FlushBlockFile_def Let_def)
    show ?thesis
    proof (cases "length (fs_vinfoBlockFile fs) = nFile + 1")
      case False
      then have "length (fs_vinfoBlockFile ?fs) = length (fs_vinfoBlockFile fs)"
        using Suc.prems len by (simp add: resize_info_def)
      then obtain n fs' where "next_file fuel nAddSize (nFile + 1) ?fs = Some (n, fs')" "files_keep ?fs fs'"
        "n < length (fs_vinfoBlockFile fs')" "bfi_nSize (info_at fs n) + nAddSize < MAX_BLOCKFILE_SIZE"
        "\<forall>k. info_at fs' k = info_at fs k"
        using Suc.IH [of "nFile + 1" ?fs] Suc.prems False by auto
      then show ?thesis using True files_keep_trans [of fs ?fs fs'] files_keep_trans [of fs "FlushBlockFile True fs" ?fs]
        by auto
    next
      case last: True
      then obtain fuel' where f: "fuel = Suc fuel'" using Suc.prems by (cases fuel) auto
      have null: "info_at fs (nFile + 1) = CBlockFileInfo_null" using last by (simp add: info_at_def)
      have "nAddSize < MAX_BLOCKFILE_SIZE" using assms(1) by (simp add: word_less_nat_alt)
      then have "next_file fuel nAddSize (nFile + 1) ?fs = Some (nFile + 1, ?fs)"
        "bfi_nSize (info_at fs (nFile + 1)) + nAddSize < MAX_BLOCKFILE_SIZE"
        using null by (simp_all add: f CBlockFileInfo_null_def linorder_not_le [symmetric])
      then show ?thesis using True files_keep_trans [of fs "FlushBlockFile True fs" ?fs] resize_info_length
        by (intro exI [of _ "nFile + 1"] exI [of _ ?fs]) simp
    qed
  qed
qed simp

text \<open>The sizes of files stay below the limit, so that positions do not wrap.\<close>

definition sizes_ok :: "file_state \<Rightarrow> bool" where
  "sizes_ok fs \<longleftrightarrow> (\<forall>n. unat (bfi_nSize (info_at fs n)) < 0x8000000)"

lemma preallocate_keeps:
  assumes "preallocate nFree chunk pos nSize file = Some file'"
  shows "\<forall>f. file = Some f \<longrightarrow> (\<exists>f'. file' = Some f' \<and> keeps n f f')"
  using assms by (auto simp: preallocate_def Let_def keeps_AllocateFileRange split: if_splits)

lemma AddBlock_sizes [simp]:
  "bfi_nSize (AddBlock h t i) = bfi_nSize i" "bfi_nUndoSize (AddBlock h t i) = bfi_nUndoSize i"
  by (simp_all add: AddBlock_def)

lemma unat_plus_less:
  assumes "unat (a :: u32) < 0x8000000" "unat b < 0x8000000"
  shows "unat (a + b) = unat a + unat b"
  using assms by (subst unat_add_lem [symmetric]) simp

lemma FindBlockPos_ok:
  assumes "sizes_ok fs" "unat nAddSize < 0x8000000"
  shows "\<exists>ok n fs'. FindBlockPos nFree pos nAddSize h t False fs =
      Some (ok, \<lparr>dbp_nFile = int n, dbp_nPos = bfi_nSize (info_at fs n)\<rparr>, fs') \<and>
    files_keep fs fs' \<and> sizes_ok fs' \<and> bfi_nSize (info_at fs' n) = bfi_nSize (info_at fs n) + nAddSize \<and>
    unat (bfi_nSize (info_at fs n)) + unat nAddSize < 0x8000000"
proof -
  let ?fs = "resize_info (fs_nLastBlockFile fs) fs"
  obtain n fs1 where n: "next_file (length (fs_vinfoBlockFile ?fs) + 1) nAddSize (fs_nLastBlockFile fs) ?fs = Some (n, fs1)"
    "files_keep ?fs fs1" "n < length (fs_vinfoBlockFile fs1)" "bfi_nSize (info_at fs n) + nAddSize < MAX_BLOCKFILE_SIZE"
    "\<forall>k. info_at fs1 k = info_at fs k"
    using next_file_ok [OF assms(2) resize_info_length, of "fs_nLastBlockFile fs" fs "length (fs_vinfoBlockFile ?fs) + 1"] by auto
  have room: "unat (bfi_nSize (info_at fs n)) + unat nAddSize < 0x8000000"
    "unat (bfi_nSize (info_at fs n) + nAddSize) = unat (bfi_nSize (info_at fs n)) + unat nAddSize"
    using unat_plus_less [of "bfi_nSize (info_at fs n)" nAddSize] assms n(4) by (auto simp: sizes_ok_def word_less_nat_alt)
  define info where "info = (AddBlock h t (info_at fs n))\<lparr>bfi_nSize := bfi_nSize (info_at fs n) + nAddSize\<rparr>"
  define fs2 where "fs2 = fs1\<lparr>fs_nLastBlockFile := n, fs_vinfoBlockFile := (fs_vinfoBlockFile fs1)[n := info]\<rparr>"
  have i2: "info_at fs2 k = (if k = n then info else info_at fs k)" for k
    unfolding n(5) [rule_format, symmetric] using n(3) by (auto simp: fs2_def info_at_def)
  have k2: "files_keep fs fs2"
    using files_keep_trans [OF files_keep_resize n(2)] room
    by (auto simp: files_keep_def i2 info_def n(5)) (simp_all add: fs2_def)
  have s2: "sizes_ok fs2" using assms(1) room by (simp add: sizes_ok_def i2 info_def)
  define pre where "pre = preallocate nFree BLOCKFILE_CHUNK_SIZE (bfi_nSize (info_at fs n)) (bfi_nSize info) (fs_blk fs2 n)"
  define fs3 where "fs3 = fs2\<lparr>fs_blk := (fs_blk fs2)(n := the pre), fs_setDirtyFileInfo := insert n (fs_setDirtyFileInfo fs2)\<rparr>"
  have i3: "info_at fs3 k = info_at fs2 k" for k by (simp add: fs3_def info_at_def)
  have n1: "next_file (Suc (length (fs_vinfoBlockFile ?fs))) nAddSize (fs_nLastBlockFile fs) ?fs = Some (n, fs1)"
    using n(1) by (simp del: next_file.simps)
  have eq: "FindBlockPos nFree pos nAddSize h t False fs =
      Some (case pre of None \<Rightarrow> (False, \<lparr>dbp_nFile = int n, dbp_nPos = bfi_nSize (info_at fs n)\<rparr>, fs2)
            | Some _ \<Rightarrow> (True, \<lparr>dbp_nFile = int n, dbp_nPos = bfi_nSize (info_at fs n)\<rparr>, fs3))"
    unfolding FindBlockPos_def Let_def
    by (simp add: n1 n(5) info_def fs2_def pre_def fs3_def del: next_file.simps split: option.split)
  show ?thesis
  proof (cases pre)
    case None
    then show ?thesis using eq k2 s2 room(1) i2 by (intro exI [of _ False] exI [of _ n] exI [of _ fs2]) (simp add: info_def)
  next
    case (Some fl)
    have "files_keep fs2 fs3"
      using preallocate_keeps [of nFree BLOCKFILE_CHUNK_SIZE _ _ "fs_blk fs2 n" fl] Some
      by (auto simp: files_keep_def i3 pre_def) (auto simp: fs3_def pre_def)
    then show ?thesis
      using eq Some files_keep_trans [OF k2] s2 room(1) i2 i3
      by (intro exI [of _ True] exI [of _ n] exI [of _ fs3]) (simp add: info_def sizes_ok_def)
  qed
qed

section \<open>Blocks and undo data in the files\<close>

definition block_at :: "file_state \<Rightarrow> CDiskBlockPos \<Rightarrow> CBlock \<Rightarrow> bool" where
  "block_at fs pos b \<longleftrightarrow>
     \<not> CDiskBlockPos_IsNull pos \<and>
     (\<exists>f. fs_blk fs (nat (dbp_nFile pos)) = Some f \<and> prefix (ser_CBlock b) (drop (unat (dbp_nPos pos)) f)) \<and>
     unat (dbp_nPos pos) + length (ser_CBlock b) \<le> unat (bfi_nSize (info_at fs (nat (dbp_nFile pos))))"

definition undo_at :: "(valtype \<Rightarrow> valtype) \<Rightarrow> (valtype \<Rightarrow> bool) \<Rightarrow> file_state \<Rightarrow> CDiskBlockPos \<Rightarrow> u256 \<Rightarrow> CTxUndo list \<Rightarrow> bool" where
  "undo_at sha256 fully_valid fs pos hashBlock us \<longleftrightarrow>
     (let bs = ser_CBlockUndo fully_valid us @ ser_word (undo_checksum sha256 fully_valid hashBlock us) in
      \<not> CDiskBlockPos_IsNull pos \<and>
      (\<exists>f. fs_rev fs (nat (dbp_nFile pos)) = Some f \<and> prefix bs (drop (unat (dbp_nPos pos)) f)) \<and>
      unat (dbp_nPos pos) + length bs \<le> unat (bfi_nUndoSize (info_at fs (nat (dbp_nFile pos)))))"

lemma block_at_keep: "block_at fs pos b \<Longrightarrow> files_keep fs fs' \<Longrightarrow> block_at fs' pos b"
  unfolding block_at_def files_keep_def by (meson keeps_read order_trans)

lemma undo_at_keep: "undo_at sha fv fs pos h us \<Longrightarrow> files_keep fs fs' \<Longrightarrow> undo_at sha fv fs' pos h us"
  unfolding undo_at_def files_keep_def Let_def by (meson keeps_read order_trans)

text \<open>The check of \<^verbatim>\<open>ReadBlockFromDisk\<close> on the block itself.\<close>

definition block_readable :: "sph \<Rightarrow> CPowParams \<Rightarrow> CBlock \<Rightarrow> bool" where
  "block_readable f params b \<longleftrightarrow>
     valid_CBlock b \<and> (block_IsProofOfStake b \<or> CheckProofOfWork params (block_GetHash f b) (hdr_nBits b))"

lemma read_block_at:
  assumes "block_at fs pos b" "block_readable f params b"
  shows "ReadBlockFromDisk_pos f params fs pos = Some b"
proof -
  obtain fl r where f: "fs_blk fs (nat (dbp_nFile pos)) = Some fl" "drop (unat (dbp_nPos pos)) fl = ser_CBlock b @ r"
    using assms(1) by (auto simp: block_at_def prefix_def)
  have "unser_CBlock (ser_CBlock b @ r) = Inr (b, r)" using assms(2) by (intro block.unser_ser) (simp add: block_readable_def)
  then show ?thesis using assms f by (auto simp: ReadBlockFromDisk_pos_def block_at_def block_readable_def)
qed

lemma read_undo_at:
  assumes "undo_at sha256 fully_valid fs pos hashBlock us" "key_compression fully_valid decompress" "valid_CBlockUndo us"
  shows "undo_ReadFromDisk sha256 fully_valid decompress fs pos hashBlock = Some us"
proof -
  let ?c = "undo_checksum sha256 fully_valid hashBlock us"
  obtain fl r where f: "fs_rev fs (nat (dbp_nFile pos)) = Some fl"
    "drop (unat (dbp_nPos pos)) fl = ser_CBlockUndo fully_valid us @ ser_word ?c @ r"
    using assms(1) by (auto simp: undo_at_def Let_def prefix_def)
  have "unser_CBlockUndo decompress (drop (unat (dbp_nPos pos)) fl) = Inr (us, ser_word ?c @ r)"
    unfolding f(2) by (rule unser_ser_CBlockUndo [OF assms(2,3)])
  then show ?thesis using assms(1) f(1)
    by (auto simp: undo_ReadFromDisk_def undo_at_def Let_def rbind_def rreturn_def u256.unser_ser)
qed

lemma ser_u32_length [simp]: "length (ser_word (w :: u32)) = 4"
  by (simp add: ser_word_def)

lemma ser_u256_length [simp]: "length (ser_word (w :: u256)) = 32"
  by (simp add: ser_word_def)

text \<open>Writing above the used size of a file, within the size that was reserved.\<close>

lemma write_block_keep:
  assumes "files_keep fs fs1" "fs2 = fs1\<lparr>fs_blk := (fs_blk fs1)(n \<mapsto> write_at p bs (open_file (fs_blk fs1) n))\<rparr>"
    and "unat (bfi_nSize (info_at fs n)) \<le> p"
  shows "files_keep fs fs2"
proof -
  have i: "info_at fs2 k = info_at fs1 k" for k by (simp add: assms(2) info_at_def)
  have "keeps (unat (bfi_nSize (info_at fs n))) f (write_at p bs (open_file (fs_blk fs1) n))" if "fs_blk fs n = Some f" for f
    using assms(1) that keeps_trans [OF _ keeps_write_at [OF assms(3)], of _ f]
    by (auto simp: files_keep_def open_file_def dest!: spec [of _ n])
  then show ?thesis
    using assms(1) unfolding files_keep_def i by (simp add: assms(2))
qed

lemma write_undo_keep:
  assumes "files_keep fs fs1" "fs2 = fs1\<lparr>fs_rev := (fs_rev fs1)(n \<mapsto> write_at p bs (open_file (fs_rev fs1) n))\<rparr>"
    and "unat (bfi_nUndoSize (info_at fs n)) \<le> p"
  shows "files_keep fs fs2"
proof -
  have i: "info_at fs2 k = info_at fs1 k" for k by (simp add: assms(2) info_at_def)
  have "keeps (unat (bfi_nUndoSize (info_at fs n))) f (write_at p bs (open_file (fs_rev fs1) n))" if "fs_rev fs n = Some f" for f
    using assms(1) that keeps_trans [OF _ keeps_write_at [OF assms(3)], of _ f]
    by (auto simp: files_keep_def open_file_def dest!: spec [of _ n])
  then show ?thesis
    using assms(1) unfolding files_keep_def i by (simp add: assms(2))
qed

lemma prefix_skip: "prefix (xs @ ys) zs \<Longrightarrow> prefix ys (drop (length xs) zs)"
  by (auto simp: prefix_def)

lemma store_block:
  assumes "sizes_ok fs" "length MessageStart = 4" "length (ser_CBlock b) + 8 < 0x8000000"
  shows "\<exists>ok pos fs1. FindBlockPos nFree CDiskBlockPos_null (word_of_nat (length (ser_CBlock b) + 8)) h t False fs = Some (ok, pos, fs1) \<and>
    files_keep fs fs1 \<and> sizes_ok fs1 \<and>
    (\<exists>pos' fs2. WriteBlockToDisk MessageStart b pos fs1 = Some (pos', fs2) \<and> files_keep fs fs2 \<and> sizes_ok fs2 \<and> block_at fs2 pos' b)"
proof -
  let ?n = "word_of_nat (length (ser_CBlock b) + 8) :: u32"
  have n: "unat ?n = length (ser_CBlock b) + 8" using assms(3) by (simp add: unat_of_nat take_bit_nat_eq_self del: of_nat_add)
  obtain ok k fs1 where f: "FindBlockPos nFree CDiskBlockPos_null ?n h t False fs =
      Some (ok, \<lparr>dbp_nFile = int k, dbp_nPos = bfi_nSize (info_at fs k)\<rparr>, fs1)"
    "files_keep fs fs1" "sizes_ok fs1" "bfi_nSize (info_at fs1 k) = bfi_nSize (info_at fs k) + ?n"
    "unat (bfi_nSize (info_at fs k)) + unat ?n < 0x8000000"
    using FindBlockPos_ok [OF assms(1), of ?n nFree CDiskBlockPos_null h t] assms(3) n by auto
  define p where "p = bfi_nSize (info_at fs k)"
  define hdr where "hdr = MessageStart @ ser_word (word_of_nat (length (ser_CBlock b)) :: u32)"
  define fs2 where "fs2 = fs1\<lparr>fs_blk := (fs_blk fs1)(k \<mapsto> write_at (unat p) (hdr @ ser_CBlock b) (open_file (fs_blk fs1) k))\<rparr>"
  have hdr: "length hdr = 8" using assms(2) by (simp add: hdr_def)
  have w: "WriteBlockToDisk MessageStart b \<lparr>dbp_nFile = int k, dbp_nPos = p\<rparr> fs1 = Some (\<lparr>dbp_nFile = int k, dbp_nPos = p + 8\<rparr>, fs2)"
    unfolding WriteBlockToDisk_def Let_def hdr_def [symmetric] hdr CDiskBlockPos.select_convs nat_int fs2_def
    by (simp add: CDiskBlockPos_IsNull_def)
  have i: "info_at fs2 j = info_at fs1 j" for j by (simp add: fs2_def info_at_def)
  have p8: "unat (p + 8) = unat p + 8" using f(5) n unat_plus_less [of p 8] by (simp add: p_def)
  have sz: "unat (bfi_nSize (info_at fs1 k)) = unat p + (length (ser_CBlock b) + 8)"
    unfolding f(4) using f(5) n unat_plus_less [of p ?n] by (simp add: p_def)
  have "prefix (ser_CBlock b) (drop (unat p + 8) (write_at (unat p) (hdr @ ser_CBlock b) (open_file (fs_blk fs1) k)))"
    using prefix_skip [OF write_at_read [of "hdr @ ser_CBlock b" "unat p" "open_file (fs_blk fs1) k"]]
    by (simp add: hdr add.commute)
  then have "block_at fs2 \<lparr>dbp_nFile = int k, dbp_nPos = p + 8\<rparr> b"
    using sz by (simp add: block_at_def CDiskBlockPos_IsNull_def i p8) (simp add: fs2_def)
  moreover have "files_keep fs fs2" by (rule write_block_keep [OF f(2) fs2_def]) (simp add: p_def)
  moreover have "sizes_ok fs2" using f(3) by (simp add: sizes_ok_def i)
  ultimately show ?thesis using f(1-3) w by (auto simp: p_def)
qed

lemma store_undo:
  assumes "length MessageStart = 4" "k < length (fs_vinfoBlockFile fs)"
    and "unat (bfi_nUndoSize (info_at fs k)) + length (ser_CBlockUndo fv us) + 40 < 2 ^ 32"
    and "FindUndoPos nFree k (word_of_nat (length (ser_CBlockUndo fv us) + 40)) fs = (ok, pos, fs1)"
  shows "files_keep fs fs1 \<and>
    (\<exists>pos' fs2. undo_WriteToDisk sha fv MessageStart us pos hashBlock fs1 = Some (pos', fs2) \<and> files_keep fs fs2 \<and>
       dbp_nFile pos' = int k \<and> undo_at sha fv fs2 pos' hashBlock us)"
proof -
  define bs where "bs = ser_CBlockUndo fv us @ ser_word (undo_checksum sha fv hashBlock us)"
  define p where "p = bfi_nUndoSize (info_at fs k)"
  let ?n = "word_of_nat (length (ser_CBlockUndo fv us) + 40) :: u32"
  have n: "unat ?n = length bs + 8" using assms(3) by (simp add: bs_def unat_of_nat take_bit_nat_eq_self del: of_nat_add)
  have s: "unat (p + ?n) = unat p + (length bs + 8)"
    using assms(3) n by (subst unat_add_lem [THEN iffD1]) (simp_all add: p_def bs_def)
  have p8: "unat (p + 8) = unat p + 8"
    using assms(3) by (subst unat_add_lem [THEN iffD1]) (simp_all add: p_def)
  define info where "info = (info_at fs k)\<lparr>bfi_nUndoSize := p + ?n\<rparr>"
  define fs0 where "fs0 = fs\<lparr>fs_vinfoBlockFile := (fs_vinfoBlockFile fs)[k := info], fs_setDirtyFileInfo := insert k (fs_setDirtyFileInfo fs)\<rparr>"
  have i0: "info_at fs0 j = (if j = k then info else info_at fs j)" for j
    using assms(2) by (auto simp: fs0_def info_at_def)
  have k0: "files_keep fs fs0"
    using s by (auto simp: files_keep_def i0 info_def p_def) (simp_all add: fs0_def)
  define pre where "pre = preallocate nFree UNDOFILE_CHUNK_SIZE p (p + ?n) (fs_rev fs0 k)"
  have r: "(ok, pos, fs1) = (case pre of None \<Rightarrow> (False, \<lparr>dbp_nFile = int k, dbp_nPos = p\<rparr>, fs0)
      | Some fl \<Rightarrow> (True, \<lparr>dbp_nFile = int k, dbp_nPos = p\<rparr>, fs0\<lparr>fs_rev := (fs_rev fs0)(k := fl)\<rparr>))"
    using assms(4)
    unfolding FindUndoPos_def Let_def p_def [symmetric] CDiskBlockPos.select_convs info_def [symmetric] fs0_def [symmetric] pre_def [symmetric]
    by simp
  have pos: "pos = \<lparr>dbp_nFile = int k, dbp_nPos = p\<rparr>" using r by (auto split: option.splits)
  have i1: "info_at fs1 j = info_at fs0 j" for j using r by (auto simp: info_at_def split: option.splits)
  have k1: "files_keep fs fs1"
  proof (rule files_keep_trans [OF k0])
    show "files_keep fs0 fs1"
      using r preallocate_keeps [of nFree UNDOFILE_CHUNK_SIZE p "p + ?n" "fs_rev fs0 k"]
      by (auto simp: files_keep_def i1 pre_def split: option.splits)
  qed
  define hdr where "hdr = MessageStart @ ser_word (word_of_nat (length (ser_CBlockUndo fv us)) :: u32)"
  define fs2 where "fs2 = fs1\<lparr>fs_rev := (fs_rev fs1)(k \<mapsto> write_at (unat p) (hdr @ bs) (open_file (fs_rev fs1) k))\<rparr>"
  have hdr: "length hdr = 8" using assms(1) by (simp add: hdr_def)
  have w: "undo_WriteToDisk sha fv MessageStart us pos hashBlock fs1 = Some (\<lparr>dbp_nFile = int k, dbp_nPos = p + 8\<rparr>, fs2)"
    unfolding undo_WriteToDisk_def Let_def pos hdr_def [symmetric] bs_def [symmetric] hdr CDiskBlockPos.select_convs nat_int fs2_def
    by (simp add: CDiskBlockPos_IsNull_def)
  have i: "info_at fs2 j = info_at fs1 j" for j by (simp add: fs2_def info_at_def)
  have "prefix bs (drop (unat p + 8) (write_at (unat p) (hdr @ bs) (open_file (fs_rev fs1) k)))"
    using prefix_skip [OF write_at_read [of "hdr @ bs" "unat p" "open_file (fs_rev fs1) k"]]
    by (simp add: hdr add.commute)
  then have "undo_at sha fv fs2 \<lparr>dbp_nFile = int k, dbp_nPos = p + 8\<rparr> hashBlock us"
    unfolding undo_at_def bs_def [symmetric] Let_def
    using s by (simp add: CDiskBlockPos_IsNull_def i i1 i0 p8 info_def) (simp add: fs2_def)
  moreover have "files_keep fs fs2" by (rule write_undo_keep [OF k1 fs2_def]) (simp add: p_def)
  ultimately show ?thesis using k1 w by auto
qed

section \<open>Properties\<close>

text \<open>
  C28: Finding a place for a block always ends; the block that is then written is read back from the
  position that the index keeps, and so are every block and all undo data that were in the files before, whether
  a new file was begun, the old ones cut to their sizes or space allocated in advance.
\<close>

theorem blocks_stay_readable:
  assumes "sizes_ok fs" "length MessageStart = 4" "length (ser_CBlock b) + 8 < 0x8000000" "block_readable f params b"
  shows "\<exists>ok pos fs1 pos' fs2.
    FindBlockPos nFree CDiskBlockPos_null (word_of_nat (length (ser_CBlock b) + 8)) h t False fs = Some (ok, pos, fs1) \<and>
    WriteBlockToDisk MessageStart b pos fs1 = Some (pos', fs2) \<and> sizes_ok fs2 \<and>
    ReadBlockFromDisk_pos f params fs2 pos' = Some b \<and> block_at fs2 pos' b \<and>
    (\<forall>p c. block_at fs p c \<longrightarrow> block_at fs2 p c) \<and>
    (\<forall>p c. block_at fs p c \<and> block_readable f params c \<longrightarrow> ReadBlockFromDisk_pos f params fs2 p = Some c) \<and>
    (\<forall>sha fv p hb vs. undo_at sha fv fs p hb vs \<longrightarrow> undo_at sha fv fs2 p hb vs) \<and>
    (\<forall>sha fv decompress p hb vs. key_compression fv decompress \<and> undo_at sha fv fs p hb vs \<and> valid_CBlockUndo vs \<longrightarrow>
       undo_ReadFromDisk sha fv decompress fs2 p hb = Some vs)"
proof -
  obtain ok pos fs1 pos' fs2 where w:
    "FindBlockPos nFree CDiskBlockPos_null (word_of_nat (length (ser_CBlock b) + 8)) h t False fs = Some (ok, pos, fs1)"
    "WriteBlockToDisk MessageStart b pos fs1 = Some (pos', fs2)" "files_keep fs fs2" "sizes_ok fs2" "block_at fs2 pos' b"
    using store_block [OF assms(1-3), of nFree h t] by blast
  show ?thesis
  proof (intro exI conjI, rule w(1), rule w(2), rule w(4), rule read_block_at [OF w(5) assms(4)], rule w(5))
    show "\<forall>p c. block_at fs p c \<longrightarrow> block_at fs2 p c" using block_at_keep [OF _ w(3)] by blast
    then show "\<forall>p c. block_at fs p c \<and> block_readable f params c \<longrightarrow> ReadBlockFromDisk_pos f params fs2 p = Some c"
      using read_block_at by blast
    show u: "\<forall>sha fv p hb vs. undo_at sha fv fs p hb vs \<longrightarrow> undo_at sha fv fs2 p hb vs"
      by (intro allI impI) (rule undo_at_keep [OF _ w(3)])
    show "\<forall>sha fv decompress p hb vs. key_compression fv decompress \<and> undo_at sha fv fs p hb vs \<and> valid_CBlockUndo vs \<longrightarrow>
       undo_ReadFromDisk sha fv decompress fs2 p hb = Some vs"
      by (intro allI impI, elim conjE) (rule read_undo_at, use u in simp_all)
  qed
qed

definition stored_block :: CBlock where
  "stored_block = CBlockHeader.extend CBlockHeader_null \<lparr>blk_vtx = [sample_tx], blk_vchBlockSig = []\<rparr>"

definition no_files :: file_state where
  "no_files = \<lparr>fs_vinfoBlockFile = [CBlockFileInfo_null], fs_nLastBlockFile = 0, fs_setDirtyFileInfo = {}, fs_blk = Map.empty, fs_rev = Map.empty\<rparr>"

lemma no_files_sizes: "sizes_ok no_files"
  by (simp add: sizes_ok_def info_at_def no_files_def CBlockFileInfo_null_def)

theorem blocks_stay_readable_witness:
  "\<exists>ok pos fs1 pos' fs2.
     FindBlockPos 0 CDiskBlockPos_null (word_of_nat (length (ser_CBlock stored_block) + 8)) 1 2 False no_files = Some (ok, pos, fs1) \<and>
     WriteBlockToDisk [0xF8, 0xBA, 0xB3, 0xD8] stored_block pos fs1 = Some (pos', fs2) \<and>
     ReadBlockFromDisk_pos sample_sph pow_CMainParams fs2 pos' = Some stored_block"
proof -
  have "length (ser_CBlock stored_block) + 8 < 0x8000000"
    using sample_tx_well_formed
    by (simp add: ser_CBlock_def stored_block_def length_ser_CBlockHeader CBlockHeader.extend_def ser_vector_def tx_well_formed_def
        length_WriteCompactSize GetSizeOfCompactSize_def)
  moreover have "block_readable sample_sph pow_CMainParams stored_block"
    by (simp add: block_readable_def valid_CBlock_def valid_CBlockHeader_def valid_vector_def stored_block_def CBlockHeader_null_def
        CBlockHeader.extend_def in_sint_def block_IsProofOfStake_def CheckProofOfWork_def pow_CMainParams_def CChainParams.extend_def
        CMainParams_def valid_CTransaction_def sample_tx_def valid_CTxIn_def valid_CTxOut_def valid_bytes_def)
  ultimately show ?thesis
    using blocks_stay_readable [OF no_files_sizes, of "[0xF8, 0xBA, 0xB3, 0xD8]" stored_block sample_sph pow_CMainParams 0 1 2] by auto
qed

text \<open>
  C29: The undo data of a block, once written to the undo file that belongs to the file of the block, is
  read back with the checksum over the hash of the previous block; undo data and blocks that were in
  the files before stay. The undo file must stay below four gigabytes: its size is not limited.
\<close>

theorem undo_stays_readable:
  assumes "length MessageStart = 4" "k < length (fs_vinfoBlockFile fs)"
    and "unat (bfi_nUndoSize (info_at fs k)) + length (ser_CBlockUndo fv us) + 40 < 2 ^ 32"
    and "key_compression fv decompress" "valid_CBlockUndo us"
    and "FindUndoPos nFree k (word_of_nat (length (ser_CBlockUndo fv us) + 40)) fs = (ok, pos, fs1)"
  shows "\<exists>pos' fs2. undo_WriteToDisk sha fv MessageStart us pos hashBlock fs1 = Some (pos', fs2) \<and>
    undo_ReadFromDisk sha fv decompress fs2 pos' hashBlock = Some us \<and>
    (\<forall>p h vs. undo_at sha fv fs p h vs \<longrightarrow> undo_at sha fv fs2 p h vs) \<and>
    (\<forall>p c. block_at fs p c \<longrightarrow> block_at fs2 p c) \<and>
    (\<forall>p h vs. undo_at sha fv fs p h vs \<and> valid_CBlockUndo vs \<longrightarrow> undo_ReadFromDisk sha fv decompress fs2 p h = Some vs)"
  using store_undo [OF assms(1-3,6), of sha hashBlock] read_undo_at [OF _ assms(4)] assms(5) undo_at_keep block_at_keep by blast

theorem undo_stays_readable_witness:
  "\<exists>pos' fs2. undo_WriteToDisk (\<lambda>_. []) (\<lambda>k. k = sample_key) [0xF8, 0xBA, 0xB3, 0xD8] [[sample_undo]]
       (fst (snd (FindUndoPos 0 0 (word_of_nat (length (ser_CBlockUndo (\<lambda>k. k = sample_key) [[sample_undo]]) + 40)) no_files))) 3
       (snd (snd (FindUndoPos 0 0 (word_of_nat (length (ser_CBlockUndo (\<lambda>k. k = sample_key) [[sample_undo]]) + 40)) no_files))) = Some (pos', fs2) \<and>
     undo_ReadFromDisk (\<lambda>_. []) (\<lambda>k. k = sample_key) sample_decompress fs2 pos' 3 = Some [[sample_undo]]"
proof -
  let ?F = "FindUndoPos 0 0 (word_of_nat (length (ser_CBlockUndo (\<lambda>k. k = sample_key) [[sample_undo]]) + 40)) no_files"
  have "length (ser_CBlockUndo (\<lambda>k. k = sample_key) [[sample_undo]]) + 40 < 2 ^ 32"
    by (simp add: ser_CBlockUndo_def ser_vector_def ser_CTxInUndo_def undo_code_def sample_undo_def ser_CTxOutCompressor_def
        WriteVarInt_int_def WriteVarInt_def varint_tmp.simps CompressAmount_def CompressAmount_loop.simps length_WriteCompactSize
        GetSizeOfCompactSize_def ser_script_compressed_def Compress_def IsToKeyID_def IsToScriptID_def IsToPubKey_def)
  then have s: "unat (bfi_nUndoSize (info_at no_files 0)) + length (ser_CBlockUndo (\<lambda>k. k = sample_key) [[sample_undo]]) + 40 < 2 ^ 32"
    by (simp add: no_files_def info_at_def CBlockFileInfo_null_def)
  have v: "valid_CBlockUndo [[sample_undo]]"
    by (simp add: valid_CBlockUndo_def valid_vector_def valid_CTxInUndo_def valid_out_def sample_undo_def)
  have "?F = (fst ?F, fst (snd ?F), snd (snd ?F))" by simp
  from undo_stays_readable [OF _ _ s sample_key_compression v this, of "[0xF8, 0xBA, 0xB3, 0xD8]" "\<lambda>_. []" 3]
  show ?thesis by (simp add: no_files_def) blast
qed

end
