(* ===== verification/BlockCheck.thy ===== *)
theory BlockCheck
  imports BlockTree Merkle
begin

unbundle bit_operations_syntax

text \<open>
  The checks of a block before it is connected: \<^verbatim>\<open>CheckBlock\<close> without context, the contextual checks of
  the header and of the block, \<^verbatim>\<open>CheckWork\<close> and \<^verbatim>\<open>AcceptBlockHeader\<close> of main.cpp, the tests of
  checkpoints.cpp and \<^verbatim>\<open>CValidationState\<close> of main.h. The outer option of a check is an access outside
  of a vector or a failed assertion. The reject code, which is only sent to peers, is left out.
\<close>

section \<open>Validation state\<close>

datatype mode_state = MODE_VALID | MODE_INVALID | MODE_ERROR

record CValidationState =
  vs_mode :: mode_state
  vs_nDoS :: int
  vs_strRejectReason :: string
  vs_corruptionPossible :: bool

definition CValidationState_new :: CValidationState where
  "CValidationState_new = \<lparr>vs_mode = MODE_VALID, vs_nDoS = 0, vs_strRejectReason = '''', vs_corruptionPossible = False\<rparr>"

definition state_DoS :: "nat \<Rightarrow> string \<Rightarrow> bool \<Rightarrow> CValidationState \<Rightarrow> CValidationState" where
  "state_DoS level reason corruption st =
     (let st = st\<lparr>vs_strRejectReason := reason, vs_corruptionPossible := corruption\<rparr> in
      if vs_mode st = MODE_ERROR then st else st\<lparr>vs_nDoS := vs_nDoS st + int level, vs_mode := MODE_INVALID\<rparr>)"

definition state_Invalid :: "string \<Rightarrow> CValidationState \<Rightarrow> CValidationState" where
  "state_Invalid reason st = state_DoS 0 reason False st"

definition state_Error :: "string \<Rightarrow> CValidationState \<Rightarrow> CValidationState" where
  "state_Error reason st =
     (if vs_mode st = MODE_VALID then st\<lparr>vs_strRejectReason := reason, vs_mode := MODE_ERROR\<rparr> else st\<lparr>vs_mode := MODE_ERROR\<rparr>)"

definition IsInvalid :: "CValidationState \<Rightarrow> bool" where
  "IsInvalid st \<longleftrightarrow> vs_mode st = MODE_INVALID"

section \<open>Checkpoints\<close>

text \<open>\<^verbatim>\<open>mapCheckpoints\<close> is the list of its pairs in ascending order of the heights; it is not empty.\<close>

definition Checkpoints_CheckBlock :: "bool \<Rightarrow> (int \<times> u256) list \<Rightarrow> int \<Rightarrow> u256 \<Rightarrow> bool \<Rightarrow> bool" where
  "Checkpoints_CheckBlock fEnabled checkpoints nHeight hash fMatchesCheckpoint =
     (if \<not> fEnabled then True
      else (case map_of checkpoints nHeight of None \<Rightarrow> \<not> fMatchesCheckpoint | Some h \<Rightarrow> hash = h))"

definition GetTotalBlocksEstimate :: "bool \<Rightarrow> (int \<times> u256) list \<Rightarrow> int" where
  "GetTotalBlocksEstimate fEnabled checkpoints = (if \<not> fEnabled then 0 else fst (last checkpoints))"

definition GetLastCheckpoint :: "bool \<Rightarrow> (int \<times> u256) list \<Rightarrow> BlockMap \<Rightarrow> bptr" where
  "GetLastCheckpoint fEnabled checkpoints idx =
     (if \<not> fEnabled then None else map_option snd (List.find (\<lambda>(_, hash). idx hash \<noteq> None) (rev checkpoints)))"

definition main_mapCheckpoints :: "(int \<times> u256) list" where
  "main_mapCheckpoints = [(4100, 0x375c1813ae84e8871d5ff9e734ddbd3b8d125bd697662a784125a603bd7d8945)]"

section \<open>What the checks read of their surroundings\<close>

text \<open>
  \<open>be_maxreorg\<close> is the value of the option with its default, \<open>be_DifficultyClose\<close> the comparison of the
  two difficulties as floating-point numbers in \<^verbatim>\<open>CheckWork\<close>, and \<open>be_IsBlockPayeeValid\<close> the check of
  masternode payments; reading transactions and blocks is an argument as in the kernel.
\<close>

record block_env =
  be_params :: CPowParams
  be_HashGenesisBlock :: u256
  be_MaxReorganizationDepth :: int
  be_maxreorg :: int
  be_EnforceBlockUpgradeMajority :: nat
  be_fEnabled :: bool
  be_mapCheckpoints :: "(int \<times> u256) list"
  be_kernel :: kernel_env
  be_crypto :: crypto
  be_sph :: sph
  be_adjustedTime :: int
  be_now :: int
  be_fSwiftTXFiltering :: bool
  be_mapLockedInputs :: "COutPoint \<rightharpoonup> u256"
  be_IsInitialBlockDownload :: bool
  be_IsBlockPayeeValid :: "CBlock \<Rightarrow> int \<Rightarrow> bool option"
  be_DifficultyClose :: "u32 \<Rightarrow> u32 \<Rightarrow> bool"
  be_GetTransaction :: "u256 \<Rightarrow> (CTransaction \<times> u256) option"
  be_ReadBlock :: "CBlockIndex \<Rightarrow> CBlock option"

abbreviation be_chain :: "block_env \<Rightarrow> CChainParams" where
  "be_chain env \<equiv> CChainParams.truncate (be_params env)"

abbreviation be_hash :: "block_env \<Rightarrow> CBlock \<Rightarrow> u256" where
  "be_hash env block \<equiv> block_GetHash (be_sph env) block"

abbreviation be_txid :: "block_env \<Rightarrow> CTransaction \<Rightarrow> u256" where
  "be_txid env tx \<equiv> GetHash (crypto_sha256 (be_crypto env)) tx"

section \<open>Checks without context\<close>

definition CheckBlockHeader :: "block_env \<Rightarrow> CBlock \<Rightarrow> bool \<Rightarrow> CValidationState \<Rightarrow> bool \<times> CValidationState" where
  "CheckBlockHeader env block fCheckPOW state =
     (if fCheckPOW \<and> \<not> CheckProofOfWork (be_params env) (be_hash env block) (hdr_nBits block)
      then (False, state_DoS 50 ''high-hash'' False state) else (True, state))"

text \<open>The time stamp and the Merkle root; the result is the level and reason of a refusal.\<close>

definition CheckBlock_time :: "block_env \<Rightarrow> CBlock \<Rightarrow> bool" where
  "CheckBlock_time env block \<longleftrightarrow>
     \<not> int (unat (hdr_nTime block)) > be_adjustedTime env + (if block_IsProofOfStake block then 180 else 7200)"

definition CheckBlock_merkle :: "block_env \<Rightarrow> CBlock \<Rightarrow> string option" where
  "CheckBlock_merkle env block =
     (case BuildMerkleTree (crypto_sha256 (be_crypto env)) block of
        (_, hashMerkleRoot2, mutated) \<Rightarrow>
          if hdr_hashMerkleRoot block \<noteq> hashMerkleRoot2 then Some ''bad-txnmrklroot''
          else if mutated then Some ''bad-txns-duplicate''
          else None)"

text \<open>Sizes, the coinbase and the coinstake.\<close>

definition CheckBlock_structure :: "CBlock \<Rightarrow> string option" where
  "CheckBlock_structure block =
     (let vtx = blk_vtx block in
      if vtx = [] \<or> length vtx > MAX_BLOCK_SIZE \<or> length (ser_CBlock block) > MAX_BLOCK_SIZE then Some ''bad-blk-length''
      else if vtx = [] \<or> \<not> IsCoinBase (vtx ! 0) then Some ''bad-cb-missing''
      else if list_ex IsCoinBase (drop 1 vtx) then Some ''bad-cb-multiple''
      else if block_IsProofOfStake block then
        if length (tx_vout (vtx ! 0)) \<noteq> 1 \<or> \<not> CTxOut_IsEmpty (tx_vout (vtx ! 0) ! 0) then Some ''''
        else if vtx = [] \<or> \<not> IsCoinStake (vtx ! 1) then Some ''''
        else if list_ex IsCoinStake (drop 2 vtx) then Some ''''
        else None
      else None)"

text \<open>A transaction that spends an output which a transaction lock gives to another one.\<close>

definition lock_conflict :: "block_env \<Rightarrow> CBlock \<Rightarrow> bool" where
  "lock_conflict env block \<longleftrightarrow>
     be_fSwiftTXFiltering env \<and>
     list_ex (\<lambda>tx. \<not> IsCoinBase tx \<and>
       list_ex (\<lambda>txin. case be_mapLockedInputs env (txin_prevout txin) of None \<Rightarrow> False | Some h \<Rightarrow> h \<noteq> be_txid env tx) (tx_vin tx))
       (blk_vtx block)"

text \<open>The height for the masternode payments, zero when the previous block is unknown.\<close>

definition CheckBlock_height :: "BlockMap \<Rightarrow> CChain \<Rightarrow> CBlock \<Rightarrow> int" where
  "CheckBlock_height idx chain block =
     (case chain_tip chain of
        None \<Rightarrow> 0
      | Some tip \<Rightarrow>
          if tip = hdr_hashPrevBlock block then (case idx tip of None \<Rightarrow> 0 | Some bi \<Rightarrow> int (bi_nHeight bi) + 1)
          else (case idx (hdr_hashPrevBlock block) of None \<Rightarrow> 0 | Some bi \<Rightarrow> int (bi_nHeight bi) + 1))"

fun CheckBlock_txs :: "CChainParams \<Rightarrow> CTransaction list \<Rightarrow> CValidationState \<Rightarrow> (bool \<times> CValidationState) option" where
  "CheckBlock_txs params [] state = Some (True, state)"
| "CheckBlock_txs params (tx # vtx) state =
     (case CheckTransaction params tx of
        Inl Aborted \<Rightarrow> None
      | Inl (Reject level reason) \<Rightarrow> Some (False, state_DoS level reason False state)
      | Inr _ \<Rightarrow> CheckBlock_txs params vtx state)"

text \<open>\<^verbatim>\<open>map::insert\<close> keeps an entry that is present.\<close>

definition map_insert :: "'a \<Rightarrow> 'b \<Rightarrow> ('a \<rightharpoonup> 'b) \<Rightarrow> ('a \<rightharpoonup> 'b)" where
  "map_insert k v m = (case m k of None \<Rightarrow> m(k \<mapsto> v) | Some _ \<Rightarrow> m)"

text \<open>
  \<^verbatim>\<open>CheckBlock\<close>, with \<^verbatim>\<open>mapRejectedBlocks\<close> passed along. Its arguments \<^verbatim>\<open>fCheckPOW\<close> and \<^verbatim>\<open>fCheckSig\<close> are
  not used by the source.
\<close>

definition CheckBlock ::
    "block_env \<Rightarrow> BlockMap \<Rightarrow> CChain \<Rightarrow> bool \<Rightarrow> CBlock \<Rightarrow> CValidationState \<Rightarrow> (u256 \<rightharpoonup> int) \<Rightarrow>
      (bool \<times> CValidationState \<times> (u256 \<rightharpoonup> int)) option" where
  "CheckBlock env idx chain fCheckMerkleRoot block state rejected =
     (case CheckBlockHeader env block (\<not> block_IsProofOfStake block) state of
        (False, state) \<Rightarrow> Some (False, state_DoS 100 ''bad-header'' True state, rejected)
      | (True, state) \<Rightarrow>
          if \<not> CheckBlock_time env block then Some (False, state_Invalid ''time-too-new'' state, rejected)
          else
            (case (if fCheckMerkleRoot then CheckBlock_merkle env block else None) of
               Some reason \<Rightarrow> Some (False, state_DoS 100 reason True state, rejected)
             | None \<Rightarrow>
                 (case CheckBlock_structure block of
                    Some reason \<Rightarrow> Some (False, state_DoS 100 reason False state, rejected)
                  | None \<Rightarrow>
                      if lock_conflict env block
                      then Some (False, state_DoS 0 ''conflicting-tx-ix'' False state, map_insert (be_hash env block) (be_now env) rejected)
                      else
                        (case (if CheckBlock_height idx chain block \<noteq> 0 \<and> \<not> be_IsInitialBlockDownload env
                               then be_IsBlockPayeeValid env block (CheckBlock_height idx chain block) else Some True) of
                           None \<Rightarrow> None
                         | Some False \<Rightarrow>
                             Some (False, state_DoS 0 ''bad-cb-payee'' False state, map_insert (be_hash env block) (be_now env) rejected)
                         | Some True \<Rightarrow>
                             (case CheckBlock_txs (be_chain env) (blk_vtx block) state of
                                None \<Rightarrow> None
                              | Some (False, state) \<Rightarrow> Some (False, state, rejected)
                              | Some (True, state) \<Rightarrow>
                                  if sum_list (map GetLegacySigOpCount (blk_vtx block)) > MAX_BLOCK_SIGOPS
                                  then Some (False, state_DoS 100 ''bad-blk-sigops'' True state, rejected)
                                  else Some (True, state, rejected))))))"

section \<open>Work\<close>

text \<open>\<^verbatim>\<open>CheckWork\<close>, with \<^verbatim>\<open>mapProofOfStake\<close> passed along.\<close>

definition CheckWork :: "block_env \<Rightarrow> BlockMap \<Rightarrow> CChain \<Rightarrow> CBlock \<Rightarrow> bptr \<Rightarrow> (u256 \<rightharpoonup> u256) \<Rightarrow> (bool \<times> (u256 \<rightharpoonup> u256)) option" where
  "CheckWork env idx chain block pindexPrev proofs =
     (case Option.bind pindexPrev idx of
        None \<Rightarrow> Some (False, proofs)
      | Some bp \<Rightarrow>
          (case GetNextWorkRequired (be_params env) idx pindexPrev of
             None \<Rightarrow> None
           | Some nBitsRequired \<Rightarrow>
               if \<not> block_IsProofOfStake block \<and> int (bi_nHeight bp) + 1 \<le> par_LAST_POW_BLOCK (be_params env)
               then Some (be_DifficultyClose env (hdr_nBits block) nBitsRequired, proofs)
               else if hdr_nBits block \<noteq> nBitsRequired then Some (False, proofs)
               else if block_IsProofOfStake block then
                 (case CheckProofOfStake (be_kernel env) (be_crypto env) (be_sph env) (word_of_int (be_now env))
                         (be_GetTransaction env) (be_ReadBlock env) idx chain block 0 of
                    None \<Rightarrow> None
                  | Some (False, _) \<Rightarrow> Some (False, proofs)
                  | Some (True, hashProofOfStake) \<Rightarrow> Some (True, map_insert (be_hash env block) hashProofOfStake proofs))
               else Some (True, proofs)))"

section \<open>Checks with context\<close>

definition ContextualCheckBlockHeader ::
    "block_env \<Rightarrow> BlockMap \<Rightarrow> CChain \<Rightarrow> CBlock \<Rightarrow> bptr \<Rightarrow> CValidationState \<Rightarrow> (bool \<times> CValidationState) option" where
  "ContextualCheckBlockHeader env idx chain block pindexPrev state =
     (if be_hash env block = be_HashGenesisBlock env then Some (True, state)
      else
        (case pindexPrev of
           None \<Rightarrow> None
         | Some q \<Rightarrow>
             (case idx q of
                None \<Rightarrow> None
              | Some bp \<Rightarrow>
                  let nHeight = int (bi_nHeight bp) + 1;
                      nToCheck = par_nToCheckBlockUpgradeMajority (be_params env);
                      nRequired = par_nRejectBlockOutdatedMajority (be_params env)
                  in if chain_Height chain - nHeight \<ge> be_maxreorg env then Some (False, state_DoS 1 '''' False state)
                     else if int (unat (hdr_nTime block)) \<le> GetMedianTimePast idx q
                     then Some (False, state_Invalid ''time-too-old'' state)
                     else if \<not> Checkpoints_CheckBlock (be_fEnabled env) (be_mapCheckpoints env) nHeight (be_hash env block) False
                     then Some (False, state_DoS 100 ''checkpoint mismatch'' False state)
                     else if (case Option.bind (GetLastCheckpoint (be_fEnabled env) (be_mapCheckpoints env) idx) idx of
                                None \<Rightarrow> False | Some bc \<Rightarrow> nHeight < int (bi_nHeight bc))
                     then Some (False, state_DoS 0 '''' False state)
                     else if hdr_nVersion block < 2 \<and> IsSuperMajority nToCheck idx 2 pindexPrev nRequired
                     then Some (False, state_Invalid ''bad-version'' state)
                     else if hdr_nVersion block < 3 \<and> IsSuperMajority nToCheck idx 3 pindexPrev nRequired
                     then Some (False, state_Invalid ''bad-version'' state)
                     else Some (True, state))))"

text \<open>\<^verbatim>\<open>block.vtx[0].vin[0]\<close> is present in a block that passed \<^verbatim>\<open>CheckBlock\<close>; otherwise the result is \<open>None\<close>.\<close>

definition ContextualCheckBlock ::
    "block_env \<Rightarrow> BlockMap \<Rightarrow> CChain \<Rightarrow> CBlock \<Rightarrow> bptr \<Rightarrow> CValidationState \<Rightarrow> (bool \<times> CValidationState) option" where
  "ContextualCheckBlock env idx chain block pindexPrev state =
     (let nHeight = (case Option.bind pindexPrev idx of None \<Rightarrow> 0 | Some bp \<Rightarrow> int (bi_nHeight bp) + 1) in
      if list_ex (\<lambda>tx. \<not> IsFinalTx (chain_Height chain) (be_adjustedTime env) tx nHeight (int (unat (hdr_nTime block)))) (blk_vtx block)
      then Some (False, state_DoS 10 ''bad-txns-nonfinal'' False state)
      else if hdr_nVersion block \<ge> 2 \<and>
        IsSuperMajority (par_nToCheckBlockUpgradeMajority (be_params env)) idx 2 pindexPrev (be_EnforceBlockUpgradeMajority env)
      then
        (case blk_vtx block of
           [] \<Rightarrow> None
         | tx # _ \<Rightarrow>
             (case tx_vin tx of
                [] \<Rightarrow> None
              | txin # _ \<Rightarrow>
                  let expect = push_int64 nHeight in
                  if length (txin_scriptSig txin) < length expect \<or> take (length expect) (txin_scriptSig txin) \<noteq> expect
                  then Some (False, state_DoS 100 ''bad-cb-height'' False state)
                  else Some (True, state)))
      else Some (True, state))"

text \<open>
  \<^verbatim>\<open>AcceptBlockHeader\<close>; the last component is \<^verbatim>\<open>*ppindex\<close> where it is set. The branch that reconsiders
  a failed predecessor tests \<^verbatim>\<open>pindex\<close>, which is still null there, and is never taken.
\<close>

definition AcceptBlockHeader ::
    "block_env \<Rightarrow> CBlock \<Rightarrow> CValidationState \<Rightarrow> index_state \<Rightarrow> (bool \<times> CValidationState \<times> index_state \<times> bptr) option" where
  "AcceptBlockHeader env block state st =
     (let hash = be_hash env block; idx = st_mapBlockIndex st in
      case idx hash of
        Some bi \<Rightarrow>
          if bi_nStatus bi AND BLOCK_FAILED_MASK \<noteq> 0 then Some (False, state_Invalid ''duplicate'' state, st, Some hash)
          else Some (True, state, st, Some hash)
      | None \<Rightarrow>
          (case CheckBlockHeader env block False state of
             (False, state) \<Rightarrow> Some (False, state, st, None)
           | (True, state) \<Rightarrow>
               (case (if hash = be_HashGenesisBlock env then Inr None
                      else
                        (case idx (hdr_hashPrevBlock block) of
                           None \<Rightarrow> Inl (state_DoS 0 ''bad-prevblk'' False state)
                         | Some bp \<Rightarrow>
                             if bi_nStatus bp AND BLOCK_FAILED_MASK \<noteq> 0 then Inl (state_DoS 100 ''bad-prevblk'' False state)
                             else Inr (Some (hdr_hashPrevBlock block)))) of
                  Inl state \<Rightarrow> Some (False, state, st, None)
                | Inr pindexPrev \<Rightarrow>
                    (case ContextualCheckBlockHeader env idx (st_chainActive st) block pindexPrev state of
                       None \<Rightarrow> None
                     | Some (False, state) \<Rightarrow> Some (False, state, st, None)
                     | Some (True, state) \<Rightarrow>
                         map_option (\<lambda>(p, st). (True, state, st, Some p)) (AddToBlockIndex (be_kernel env) hash block st)))))"

section \<open>Blocks that pass\<close>

text \<open>The rules that \<^verbatim>\<open>CheckBlock\<close> enforces on the block alone.\<close>

definition block_well_formed :: "block_env \<Rightarrow> bool \<Rightarrow> CBlock \<Rightarrow> bool" where
  "block_well_formed env fCheckMerkleRoot block \<longleftrightarrow>
     (let vtx = blk_vtx block; ids = map (be_txid env) vtx; H = Hash2 (crypto_sha256 (be_crypto env)) in
      (block_IsProofOfStake block \<or> CheckProofOfWork (be_params env) (be_hash env block) (hdr_nBits block)) \<and>
      int (unat (hdr_nTime block)) \<le> be_adjustedTime env + (if block_IsProofOfStake block then 180 else 7200) \<and>
      (fCheckMerkleRoot \<longrightarrow> hdr_hashMerkleRoot block = merkle_root H ids \<and> \<not> merkle_mutated H ids) \<and>
      length (ser_CBlock block) \<le> MAX_BLOCK_SIZE \<and>
      vtx \<noteq> [] \<and> IsCoinBase (hd vtx) \<and> (\<forall>tx \<in> set (tl vtx). \<not> IsCoinBase tx) \<and>
      (block_IsProofOfStake block \<longrightarrow>
         (\<exists>out. tx_vout (hd vtx) = [out] \<and> CTxOut_IsEmpty out) \<and> (\<forall>tx \<in> set (drop 2 vtx). \<not> IsCoinStake tx)) \<and>
      \<not> lock_conflict env block \<and>
      (\<forall>tx \<in> set vtx. tx_well_formed (be_chain env) tx) \<and>
      sum_list (map GetLegacySigOpCount vtx) \<le> MAX_BLOCK_SIGOPS)"

lemma length_concat_ge: "(\<And>x. x \<in> set xs \<Longrightarrow> 1 \<le> length (f x)) \<Longrightarrow> length xs \<le> length (concat (map f xs))"
proof (induction xs)
  case (Cons a xs)
  then have "length xs \<le> length (concat (map f xs))" "1 \<le> length (f a)" by simp_all
  then show ?case by simp
qed simp

lemma ser_CTransaction_nonempty: "1 \<le> length (ser_CTransaction tx)"
  by (simp add: ser_CTransaction_def ser_int_def)

lemma length_vtx_le: "length (blk_vtx block) \<le> length (ser_CBlock block)"
  using length_concat_ge [of "blk_vtx block" ser_CTransaction] ser_CTransaction_nonempty
  by (simp add: ser_CBlock_def ser_vector_def trans_le_add2)

lemma CheckBlock_structure_None:
  "CheckBlock_structure block = None \<longleftrightarrow>
     length (ser_CBlock block) \<le> MAX_BLOCK_SIZE \<and> blk_vtx block \<noteq> [] \<and> IsCoinBase (hd (blk_vtx block)) \<and>
     (\<forall>tx \<in> set (tl (blk_vtx block)). \<not> IsCoinBase tx) \<and>
     (block_IsProofOfStake block \<longrightarrow>
        (\<exists>out. tx_vout (hd (blk_vtx block)) = [out] \<and> CTxOut_IsEmpty out) \<and> (\<forall>tx \<in> set (drop 2 (blk_vtx block)). \<not> IsCoinStake tx))"
proof -
  have l: "length (ser_CBlock block) \<le> MAX_BLOCK_SIZE \<Longrightarrow> length (blk_vtx block) \<le> MAX_BLOCK_SIZE"
    using length_vtx_le by (rule order_trans)
  have v: "length (tx_vout tx) = 1 \<and> CTxOut_IsEmpty (tx_vout tx ! 0) \<longleftrightarrow> (\<exists>out. tx_vout tx = [out] \<and> CTxOut_IsEmpty out)" for tx
    by (auto simp: length_Suc_conv)
  show ?thesis
    unfolding CheckBlock_structure_def Let_def
    using l v [of "hd (blk_vtx block)"]
    by (auto simp: not_less list_ex_iff hd_conv_nth drop_Suc tl_drop block_IsProofOfStake_def split: if_splits)
qed

lemma CheckBlock_txs_iff:
  assumes "0 \<le> par_MaxMoneyOut params" "par_MaxMoneyOut params < 2 ^ 62"
  shows "CheckBlock_txs params vtx state = Some (True, state') \<longleftrightarrow> state' = state \<and> (\<forall>tx \<in> set vtx. tx_well_formed params tx)"
  by (induction vtx) (auto simp: CheckTransaction_iff [OF assms, symmetric] split: sum.splits tx_error.splits)

text \<open>The check of the masternode payment is asked for or passes.\<close>

definition payee_ok :: "block_env \<Rightarrow> BlockMap \<Rightarrow> CChain \<Rightarrow> CBlock \<Rightarrow> bool" where
  "payee_ok env idx chain block \<longleftrightarrow>
     (CheckBlock_height idx chain block \<noteq> 0 \<and> \<not> be_IsInitialBlockDownload env \<longrightarrow>
        be_IsBlockPayeeValid env block (CheckBlock_height idx chain block) = Some True)"

lemma par_truncate [simp]:
  "par_MaxMoneyOut (CChainParams.truncate p) = par_MaxMoneyOut p" "par_COINBASE_MATURITY (CChainParams.truncate p) = par_COINBASE_MATURITY p"
  "par_LAST_POW_BLOCK (CChainParams.truncate p) = par_LAST_POW_BLOCK p" "par_testnet (CChainParams.truncate p) = par_testnet p"
  by (simp_all add: CChainParams.truncate_def)

lemma CheckBlock_merkle_None:
  "CheckBlock_merkle env block = None \<longleftrightarrow>
     hdr_hashMerkleRoot block = merkle_root (Hash2 (crypto_sha256 (be_crypto env))) (map (be_txid env) (blk_vtx block)) \<and>
     \<not> merkle_mutated (Hash2 (crypto_sha256 (be_crypto env))) (map (be_txid env) (blk_vtx block))"
  by (simp add: CheckBlock_merkle_def BuildMerkleTree_def BuildMerkleTree_ids_eq)

lemma CheckBlock_True:
  assumes "0 \<le> par_MaxMoneyOut (be_params env)" "par_MaxMoneyOut (be_params env) < 2 ^ 62"
  shows "CheckBlock env idx chain fCheckMerkleRoot block state rejected = Some (True, state', rejected') \<longleftrightarrow>
    state' = state \<and> rejected' = rejected \<and> block_well_formed env fCheckMerkleRoot block \<and> payee_ok env idx chain block"
proof -
  have t: "CheckBlock_txs (be_chain env) vtx s = Some (True, s') \<longleftrightarrow> s' = s \<and> (\<forall>tx \<in> set vtx. tx_well_formed (be_chain env) tx)" for vtx s s'
    using CheckBlock_txs_iff [of "be_chain env"] assms by simp
  have "CheckBlock env idx chain fCheckMerkleRoot block state rejected = Some (True, state', rejected') \<longleftrightarrow>
    (block_IsProofOfStake block \<or> CheckProofOfWork (be_params env) (be_hash env block) (hdr_nBits block)) \<and>
    CheckBlock_time env block \<and> (fCheckMerkleRoot \<longrightarrow> CheckBlock_merkle env block = None) \<and> CheckBlock_structure block = None \<and>
    \<not> lock_conflict env block \<and> payee_ok env idx chain block \<and>
    CheckBlock_txs (be_chain env) (blk_vtx block) state = Some (True, state') \<and>
    sum_list (map GetLegacySigOpCount (blk_vtx block)) \<le> MAX_BLOCK_SIGOPS \<and> rejected' = rejected"
    by (auto simp: CheckBlock_def CheckBlockHeader_def payee_ok_def not_less split: option.splits if_splits bool.splits)
  then show ?thesis
    unfolding t CheckBlock_merkle_None CheckBlock_structure_None block_well_formed_def Let_def CheckBlock_time_def by (simp add: not_less) blast
qed

section \<open>Refusals\<close>

lemma state_DoS_mode [simp]: "vs_mode (state_DoS n r c st) = (if vs_mode st = MODE_ERROR then MODE_ERROR else MODE_INVALID)"
  by (simp add: state_DoS_def Let_def)

lemma state_DoS_corruption [simp]: "vs_corruptionPossible (state_DoS n r c st) = c" "vs_strRejectReason (state_DoS n r c st) = r"
  by (simp_all add: state_DoS_def Let_def)

lemma state_Invalid_mode [simp]:
  "vs_mode (state_Invalid r st) = (if vs_mode st = MODE_ERROR then MODE_ERROR else MODE_INVALID)"
  "\<not> vs_corruptionPossible (state_Invalid r st)"
  by (simp_all add: state_Invalid_def)

lemma CheckBlock_txs_False:
  "CheckBlock_txs params vtx state = Some (False, state') \<Longrightarrow> vs_mode state \<noteq> MODE_ERROR \<Longrightarrow>
     IsInvalid state' \<and> \<not> vs_corruptionPossible state'"
  by (induction vtx) (auto simp: IsInvalid_def split: sum.splits tx_error.splits)

lemma CheckBlock_False:
  assumes "CheckBlock env idx chain m block state rejected = Some (False, state', rejected')" "vs_mode state = MODE_VALID"
  shows "IsInvalid state' \<and>
    (vs_corruptionPossible state' \<longrightarrow>
       vs_strRejectReason state' \<in> {''bad-header'', ''bad-txnmrklroot'', ''bad-txns-duplicate'', ''bad-blk-sigops''})"
proof -
  have t: "CheckBlock_txs (be_chain env) (blk_vtx block) state = Some (True, s) \<Longrightarrow> vs_mode s = MODE_VALID" for s
  proof -
    have "CheckBlock_txs params vtx st = Some (True, s) \<Longrightarrow> s = st" for params vtx st
      by (induction vtx) (auto split: sum.splits tx_error.splits)
    then show "CheckBlock_txs (be_chain env) (blk_vtx block) state = Some (True, s) \<Longrightarrow> vs_mode s = MODE_VALID" using assms(2) by blast
  qed
  show ?thesis
    using assms t CheckBlock_txs_False [of "be_chain env" "blk_vtx block" state state']
    by (auto simp: CheckBlock_def CheckBlockHeader_def CheckBlock_merkle_def IsInvalid_def split: option.splits if_splits bool.splits prod.splits)
qed

section \<open>Accepted headers\<close>

text \<open>What the contextual checks establish of a new header over the entry \<open>bp\<close>.\<close>

definition header_in_context :: "block_env \<Rightarrow> BlockMap \<Rightarrow> CChain \<Rightarrow> CBlock \<Rightarrow> CBlockIndex \<Rightarrow> bool" where
  "header_in_context env idx chain block bp \<longleftrightarrow>
     chain_Height chain - (int (bi_nHeight bp) + 1) < be_maxreorg env \<and>
     int (unat (hdr_nTime block)) > GetMedianTimePast idx (hdr_hashPrevBlock block) \<and>
     (be_fEnabled env \<longrightarrow> map_of (be_mapCheckpoints env) (int (bi_nHeight bp) + 1) \<in> {None, Some (be_hash env block)}) \<and>
     (\<forall>c bc. GetLastCheckpoint (be_fEnabled env) (be_mapCheckpoints env) idx = Some c \<longrightarrow> idx c = Some bc \<longrightarrow>
        bi_nHeight bc \<le> bi_nHeight bp + 1) \<and>
     (\<forall>v \<in> {2, 3}. hdr_nVersion block < v \<longrightarrow>
        \<not> IsSuperMajority (par_nToCheckBlockUpgradeMajority (be_params env)) idx v (Some (hdr_hashPrevBlock block))
            (par_nRejectBlockOutdatedMajority (be_params env)))"

lemma ContextualCheckBlockHeader_True:
  assumes "ContextualCheckBlockHeader env idx chain block (Some (hdr_hashPrevBlock block)) state = Some (True, state')"
    and "be_hash env block \<noteq> be_HashGenesisBlock env" "idx (hdr_hashPrevBlock block) = Some bp"
  shows "header_in_context env idx chain block bp"
  using assms
  by (auto simp: ContextualCheckBlockHeader_def Let_def header_in_context_def Checkpoints_CheckBlock_def not_le not_less
      split: if_splits option.splits)

lemma ContextualCheckBlockHeader_total:
  assumes "idx q = Some bp"
  shows "\<exists>ok state'. ContextualCheckBlockHeader env idx chain block (Some q) state = Some (ok, state')"
  using assms by (auto simp: ContextualCheckBlockHeader_def Let_def)

lemma AcceptBlockHeader_ok:
  assumes "tree_wf (st_mapBlockIndex st)" "hdr_hashPrevBlock block \<noteq> be_hash env block"
  shows "\<exists>ok state' st' pp. AcceptBlockHeader env block state st = Some (ok, state', st', pp) \<and>
    tree_wf (st_mapBlockIndex st') \<and> (\<not> ok \<longrightarrow> st' = st) \<and> (ok \<longrightarrow> pp = Some (be_hash env block)) \<and>
    (ok \<and> st_mapBlockIndex st (be_hash env block) = None \<and> be_hash env block \<noteq> be_HashGenesisBlock env \<longrightarrow>
       (\<exists>bp b. st_mapBlockIndex st (hdr_hashPrevBlock block) = Some bp \<and> bi_nStatus bp AND BLOCK_FAILED_MASK = 0 \<and>
          header_in_context env (st_mapBlockIndex st) (st_chainActive st) block bp \<and>
          st_mapBlockIndex st' (be_hash env block) = Some b \<and> bi_pprev b = Some (hdr_hashPrevBlock block)))"
proof (cases "st_mapBlockIndex st (be_hash env block)")
  case (Some bi)
  then show ?thesis using assms(1) by (auto simp: AcceptBlockHeader_def Let_def)
next
  case None
  obtain st' b where a: "AddToBlockIndex (be_kernel env) (be_hash env block) block st = Some (be_hash env block, st')"
    "tree_wf (st_mapBlockIndex st')" "st_mapBlockIndex st' (be_hash env block) = Some b"
    "bi_pprev b = (if st_mapBlockIndex st (hdr_hashPrevBlock block) = None then None else Some (hdr_hashPrevBlock block))"
    using AddToBlockIndex_ok [OF assms(1) None assms(2), of "be_kernel env"] by blast
  have h: "CheckBlockHeader env block False state = (True, state)" by (simp add: CheckBlockHeader_def)
  show ?thesis
  proof (cases "be_hash env block = be_HashGenesisBlock env")
    case True
    then have c: "ContextualCheckBlockHeader env (st_mapBlockIndex st) (st_chainActive st) block None state = Some (True, state)"
      by (simp add: ContextualCheckBlockHeader_def)
    show ?thesis unfolding AcceptBlockHeader_def Let_def None h using True c a assms(1) by auto
  next
    case ng: False
    show ?thesis
    proof (cases "st_mapBlockIndex st (hdr_hashPrevBlock block)")
      case none: None
      show ?thesis unfolding AcceptBlockHeader_def Let_def None h using ng none assms(1) by auto
    next
      case (Some bp)
      show ?thesis
      proof (cases "bi_nStatus bp AND BLOCK_FAILED_MASK = 0")
        case False
        then show ?thesis unfolding AcceptBlockHeader_def Let_def None h using ng Some assms(1) by auto
      next
        case True
        obtain ok state' where c: "ContextualCheckBlockHeader env (st_mapBlockIndex st) (st_chainActive st) block
            (Some (hdr_hashPrevBlock block)) state = Some (ok, state')"
          using ContextualCheckBlockHeader_total [of "st_mapBlockIndex st" "hdr_hashPrevBlock block" bp, OF Some] by blast
        show ?thesis
        proof (cases ok)
          case False
          then show ?thesis unfolding AcceptBlockHeader_def Let_def None h using ng Some True assms(1) c by auto
        next
          case ok: True
          then have x: "header_in_context env (st_mapBlockIndex st) (st_chainActive st) block bp"
            using ContextualCheckBlockHeader_True [of env "st_mapBlockIndex st" _ block state state' bp, OF _ ng Some] c by simp
          show ?thesis unfolding AcceptBlockHeader_def Let_def None h using ng Some True assms(1) c ok a x by auto
        qed
      qed
    qed
  qed
qed

section \<open>Properties\<close>

text \<open>
  C25: \<^verbatim>\<open>CheckBlock\<close> accepts exactly the blocks with a valid proof of work or a coinstake, a time not too
  far ahead, an unambiguous Merkle root of their transactions, a size within the limit, a coinbase
  in front and nowhere else, at most one coinstake behind it, well-formed transactions and few enough
  signature operations, without lock conflicts and with the payee that is asked for; and then it
  changes nothing.
\<close>

theorem check_block_iff:
  assumes "0 \<le> par_MaxMoneyOut (be_params env)" "par_MaxMoneyOut (be_params env) < 2 ^ 62"
  shows "CheckBlock env idx chain fCheckMerkleRoot block state rejected = Some (True, state', rejected') \<longleftrightarrow>
    state' = state \<and> rejected' = rejected \<and> block_well_formed env fCheckMerkleRoot block \<and> payee_ok env idx chain block"
  using assms by (rule CheckBlock_True)

definition sample_block_env :: block_env where
  "sample_block_env = \<lparr>be_params = pow_CMainParams, be_HashGenesisBlock = 1, be_MaxReorganizationDepth = 100, be_maxreorg = 100,
     be_EnforceBlockUpgradeMajority = 555, be_fEnabled = True, be_mapCheckpoints = main_mapCheckpoints, be_kernel = sample_kernel_env,
     be_crypto = sample_crypto, be_sph = kernel_sph, be_adjustedTime = 1000, be_now = 1000, be_fSwiftTXFiltering = False,
     be_mapLockedInputs = Map.empty, be_IsInitialBlockDownload = False, be_IsBlockPayeeValid = (\<lambda>_ _. Some True),
     be_DifficultyClose = (\<lambda>_ _. True), be_GetTransaction = (\<lambda>_. None), be_ReadBlock = (\<lambda>_. None)\<rparr>"

definition pow_block :: CBlock where
  "pow_block = CBlockHeader.extend (CBlockHeader_null\<lparr>hdr_hashMerkleRoot := GetHash (\<lambda>x. x) sample_coinbase, hdr_hashPrevBlock := 12, hdr_nTime := 500\<rparr>)
     \<lparr>blk_vtx = [sample_coinbase], blk_vchBlockSig = []\<rparr>"

lemma pow_block_simps [simp]:
  "blk_vtx pow_block = [sample_coinbase]" "hdr_hashMerkleRoot pow_block = GetHash (\<lambda>x. x) sample_coinbase"
  "hdr_nTime pow_block = 500" "hdr_hashPrevBlock pow_block = 12" "\<not> block_IsProofOfStake pow_block"
  by (simp_all add: pow_block_def CBlockHeader.extend_def CBlockHeader_null_def block_IsProofOfStake_def)

lemma sample_env_params:
  "0 \<le> par_MaxMoneyOut (be_params sample_block_env)" "par_MaxMoneyOut (be_params sample_block_env) < 2 ^ 62"
  by (simp_all add: sample_block_env_def pow_CMainParams_def CMainParams_def CChainParams.extend_def)

lemma sample_coinbase_well_formed: "tx_well_formed (CChainParams.truncate pow_CMainParams) sample_coinbase"
  by (simp add: tx_well_formed_def sample_coinbase_def ser_CTransaction_def ser_vector_def ser_CTxIn_def ser_CTxOut_def ser_COutPoint_def
      ser_int_def ser_word_def ser_bytes_def length_WriteCompactSize GetSizeOfCompactSize_def IsCoinBase_def COutPoint_IsNull_def
      pow_CMainParams_def CMainParams_def CChainParams.extend_def)

lemma pow_block_well_formed: "block_well_formed sample_block_env True pow_block"
proof -
  have "length (ser_CTransaction sample_coinbase) \<le> 1000" 
    by (simp add: sample_coinbase_def ser_CTransaction_def ser_vector_def ser_CTxIn_def ser_CTxOut_def ser_COutPoint_def
      ser_int_def ser_word_def ser_bytes_def length_WriteCompactSize GetSizeOfCompactSize_def)
  then have l: "length (ser_CBlock pow_block) \<le> MAX_BLOCK_SIZE"
    by (simp add: ser_CBlock_def length_ser_CBlockHeader ser_vector_def length_WriteCompactSize GetSizeOfCompactSize_def)
  have g: "GetLegacySigOpCount sample_coinbase = 0"
    by (simp add: GetLegacySigOpCount_def sample_coinbase_def GetSigOpCount_def GetSigOpCount_loop.simps GetOp2_data_def)
  show ?thesis
    using l g sample_coinbase_well_formed
    by (simp add: block_well_formed_def Let_def sample_block_env_def CheckProofOfWork_def lock_conflict_def
      merkle_root_def merkle_mutated_def merkle_levels.simps sample_crypto_def)
    (simp add: pow_CMainParams_def CChainParams.extend_def CMainParams_def)
qed

theorem check_block_iff_witness:
  "CheckBlock sample_block_env Map.empty [] True pow_block CValidationState_new Map.empty = Some (True, CValidationState_new, Map.empty)"
  using check_block_iff [OF sample_env_params, of Map.empty "[]" True pow_block CValidationState_new Map.empty] pow_block_well_formed
  by (simp add: payee_ok_def CheckBlock_height_def chain_tip_def)

text \<open>
  C27: When \<^verbatim>\<open>CheckBlock\<close> refuses a block the state says that it is invalid, never that there was a
  system error; and only a failed header check, a wrong or ambiguous Merkle root or too many
  signature operations leave the possibility that the block was damaged on its way.
\<close>

theorem check_block_verdict:
  assumes "CheckBlock env idx chain m block state rejected = Some (False, state', rejected')" "vs_mode state = MODE_VALID"
  shows "IsInvalid state' \<and>
    (vs_corruptionPossible state' \<longrightarrow>
       vs_strRejectReason state' \<in> {''bad-header'', ''bad-txnmrklroot'', ''bad-txns-duplicate'', ''bad-blk-sigops''})"
  using assms by (rule CheckBlock_False)

theorem check_block_verdict_witness:
  "\<exists>st. CheckBlock sample_block_env Map.empty [] True (pow_block\<lparr>hdr_nTime := 9000\<rparr>) CValidationState_new Map.empty =
     Some (False, st, Map.empty) \<and> IsInvalid st"
proof -
  have "CheckBlock sample_block_env Map.empty [] True (pow_block\<lparr>hdr_nTime := 9000\<rparr>) CValidationState_new Map.empty =
      Some (False, state_Invalid ''time-too-new'' CValidationState_new, Map.empty)"
    by (simp add: CheckBlock_def CheckBlockHeader_def CheckBlock_time_def sample_block_env_def CheckProofOfWork_def pow_CMainParams_def
        CChainParams.extend_def CMainParams_def block_IsProofOfStake_def)
  with check_block_verdict [OF this] show ?thesis by (simp add: CValidationState_new_def)
qed

text \<open>
  C26: \<^verbatim>\<open>AcceptBlockHeader\<close> never fails an assertion and keeps the index a tree. A new header that it accepts
  extends a block that has not failed, with a time after the median of its ancestors, in agreement
  with the checkpoints and not below the last of them, not deeper than a reorganization may go, and of a
  version that the majority of the last blocks has not left behind; when it refuses, the index is unchanged.
\<close>

theorem accept_header_sound:
  assumes "tree_wf (st_mapBlockIndex st)" "hdr_hashPrevBlock block \<noteq> be_hash env block"
  shows "\<exists>ok state' st' pp. AcceptBlockHeader env block state st = Some (ok, state', st', pp) \<and>
    tree_wf (st_mapBlockIndex st') \<and> (\<not> ok \<longrightarrow> st' = st) \<and> (ok \<longrightarrow> pp = Some (be_hash env block)) \<and>
    (ok \<and> st_mapBlockIndex st (be_hash env block) = None \<and> be_hash env block \<noteq> be_HashGenesisBlock env \<longrightarrow>
       (\<exists>bp b. st_mapBlockIndex st (hdr_hashPrevBlock block) = Some bp \<and> bi_nStatus bp AND BLOCK_FAILED_MASK = 0 \<and>
          header_in_context env (st_mapBlockIndex st) (st_chainActive st) block bp \<and>
          st_mapBlockIndex st' (be_hash env block) = Some b \<and> bi_pprev b = Some (hdr_hashPrevBlock block)))"
  using assms by (rule AcceptBlockHeader_ok)

theorem accept_header_sound_witness:
  "\<exists>ok state' st' pp. AcceptBlockHeader sample_block_env pow_block CValidationState_new waiting_state = Some (ok, state', st', pp) \<and>
     tree_wf (st_mapBlockIndex st')"
proof -
  have "tree_wf (st_mapBlockIndex waiting_state)" by (simp add: waiting_state_def waiting_tree)
  moreover have "hdr_hashPrevBlock pow_block \<noteq> be_hash sample_block_env pow_block" 
    by (simp add: sample_block_env_def kernel_hash)
  ultimately show ?thesis using accept_header_sound [of waiting_state pow_block sample_block_env CValidationState_new] by blast
qed

end
