(* ===== verification/ConnectBlock.thy ===== *)
theory ConnectBlock
  imports BlockFiles BlockCheck Supply
begin

unbundle bit_operations_syntax

text \<open>
  \<^verbatim>\<open>ConnectBlock\<close> of main.cpp: the transactions of a block are checked against the set of unspent
  outputs and applied to it one after the other, the minted amount is compared with what the block may
  create, and the undo data goes to disk. \<^verbatim>\<open>IsBlockValueValid\<close> is that of masternode-payments.cpp.
  Scripts are checked in line, as with \<^verbatim>\<open>nScriptCheckThreads\<close> zero; writing to the databases succeeds.
\<close>

section \<open>The value of a block\<close>

text \<open>
  \<^verbatim>\<open>IsBlockValueValid\<close>; whether the masternode data is in sync, the spork for superblocks and the budget's
  test for a payment block are arguments.
\<close>

definition GetBudgetPaymentCycleBlocks :: "bool \<Rightarrow> int" where
  "GetBudgetPaymentCycleBlocks fMain = (if fMain then 43200 else 144)"

definition IsBlockValueValid ::
    "bool \<Rightarrow> bool \<Rightarrow> bool \<Rightarrow> (int \<Rightarrow> bool) \<Rightarrow> BlockMap \<Rightarrow> CChain \<Rightarrow> CBlock \<Rightarrow> int \<Rightarrow> int \<Rightarrow> bool" where
  "IsBlockValueValid fMain fSynced fSuperblocks IsBudgetPaymentBlock idx chain block nExpectedValue nMinted =
     (if chain_tip chain = None then True
      else
        let nHeight = CheckBlock_height idx chain block in
        if \<not> fSynced then
          if nHeight mod GetBudgetPaymentCycleBlocks fMain < 100 then True else \<not> nMinted > nExpectedValue
        else if \<not> fSuperblocks then nMinted \<le> nExpectedValue
        else if IsBudgetPaymentBlock nHeight then True
        else \<not> nMinted > nExpectedValue)"

section \<open>The transactions\<close>

record CDiskTxPos = CDiskBlockPos +
  dtp_nTxOffset :: u32

text \<open>The variables of the loop.\<close>

record connect_acc =
  ca_nFees :: int
  ca_nValueIn :: int
  ca_nValueOut :: int
  ca_nSigOps :: nat
  ca_pos :: CDiskTxPos
  ca_vPos :: "(u256 \<times> CDiskTxPos) list"
  ca_vtxundo :: "CTxUndo list"

text \<open>The checks of BIP 30, for entries without a hash.\<close>

fun BIP30_loop :: "'b getter \<Rightarrow> (CTransaction \<Rightarrow> u256) \<Rightarrow> CTransaction list \<Rightarrow> 'b CCoinsViewCache \<Rightarrow> bool \<times> 'b CCoinsViewCache" where
  "BIP30_loop bGet txid [] c = (True, c)"
| "BIP30_loop bGet txid (tx # vtx) c =
     (case FetchCoins bGet c (txid tx) of
        (Some coins, c') \<Rightarrow> if \<not> IsPruned coins then (False, c') else BIP30_loop bGet txid vtx c'
      | (None, c') \<Rightarrow> BIP30_loop bGet txid vtx c')"

text \<open>
  The part of the loop body for a transaction with inputs: the outcome carries the new counts of
  signature operations, fees and input values.
\<close>

definition connect_inputs ::
    "block_env \<Rightarrow> 'b getter \<Rightarrow> bool \<Rightarrow> bool \<Rightarrow> u32 \<Rightarrow> int \<Rightarrow> CTransaction \<Rightarrow> connect_acc \<Rightarrow> 'b CCoinsViewCache \<Rightarrow>
      (tx_error + connect_acc) \<times> 'b CCoinsViewCache" where
  "connect_inputs env bGet fStrictPayToScriptHash fScriptChecks flags prevHeight tx acc c =
     (case HaveInputs bGet c tx of
        (False, c1) \<Rightarrow> (Inl (Reject 100 ''bad-txns-inputs-missingorspent''), c1)
      | (True, c1) \<Rightarrow>
          (case (if fStrictPayToScriptHash then GetP2SHSigOpCount bGet tx c1 else (Some 0, c1)) of
             (None, c2) \<Rightarrow> (Inl Aborted, c2)
           | (Some n, c2) \<Rightarrow>
               if fStrictPayToScriptHash \<and> ca_nSigOps acc + n > MAX_BLOCK_SIGOPS then (Inl (Reject 100 ''bad-blk-sigops''), c2)
               else
                 (case GetValueIn bGet c2 tx of
                    (None, c3) \<Rightarrow> (Inl Aborted, c3)
                  | (Some nIn, c3) \<Rightarrow>
                      (case (if IsCoinStake tx then Inr 0 else GetValueOut tx) of
                         Inl _ \<Rightarrow> (Inl Aborted, c3)
                       | Inr nOut \<Rightarrow>
                           let acc = acc\<lparr>ca_nSigOps := ca_nSigOps acc + n,
                                 ca_nFees := (if IsCoinStake tx then ca_nFees acc else swrap 64 (ca_nFees acc + swrap 64 (nIn - nOut))),
                                 ca_nValueIn := swrap 64 (ca_nValueIn acc + nIn)\<rparr>
                           in (case CheckInputs (be_crypto env) (be_chain env) bGet prevHeight fScriptChecks flags tx c3 of
                                 (Inl e, c4) \<Rightarrow> (Inl e, c4)
                               | (Inr _, c4) \<Rightarrow> (Inr acc, c4))))))"

definition connect_tx ::
    "block_env \<Rightarrow> 'b getter \<Rightarrow> bool \<Rightarrow> bool \<Rightarrow> u32 \<Rightarrow> int \<Rightarrow> int \<Rightarrow> bool \<Rightarrow> CTransaction \<Rightarrow> connect_acc \<Rightarrow> 'b CCoinsViewCache \<Rightarrow>
      (tx_error + connect_acc) \<times> 'b CCoinsViewCache" where
  "connect_tx env bGet fStrictPayToScriptHash fScriptChecks flags prevHeight nHeight first tx acc c =
     (let acc = acc\<lparr>ca_nSigOps := ca_nSigOps acc + GetLegacySigOpCount tx\<rparr> in
      if ca_nSigOps acc > MAX_BLOCK_SIGOPS then (Inl (Reject 100 ''bad-blk-sigops''), c)
      else
        (case (if \<not> IsCoinBase tx then connect_inputs env bGet fStrictPayToScriptHash fScriptChecks flags prevHeight tx acc c
               else (Inr acc, c)) of
           (Inl e, c1) \<Rightarrow> (Inl e, c1)
         | (Inr acc, c1) \<Rightarrow>
             (case GetValueOut tx of
                Inl _ \<Rightarrow> (Inl Aborted, c1)
              | Inr nOut \<Rightarrow>
                  (case UpdateCoins bGet (be_txid env) tx nHeight c1 of
                     None \<Rightarrow> (Inl Aborted, c1)
                   | Some (undo, c2) \<Rightarrow>
                       (Inr (acc\<lparr>ca_nValueOut := swrap 64 (ca_nValueOut acc + nOut),
                               ca_vtxundo := (if first then ca_vtxundo acc else ca_vtxundo acc @ [undo]),
                               ca_vPos := ca_vPos acc @ [(be_txid env tx, ca_pos acc)],
                               ca_pos := (ca_pos acc)\<lparr>dtp_nTxOffset :=
                                 dtp_nTxOffset (ca_pos acc) + word_of_nat (length (ser_CTransaction tx))\<rparr>\<rparr>), c2)))))"

fun connect_txs ::
    "block_env \<Rightarrow> 'b getter \<Rightarrow> bool \<Rightarrow> bool \<Rightarrow> u32 \<Rightarrow> int \<Rightarrow> int \<Rightarrow> bool \<Rightarrow> CTransaction list \<Rightarrow> connect_acc \<Rightarrow> 'b CCoinsViewCache \<Rightarrow>
      (tx_error + connect_acc) \<times> 'b CCoinsViewCache" where
  "connect_txs env bGet strict scripts flags prevHeight nHeight first [] acc c = (Inr acc, c)"
| "connect_txs env bGet strict scripts flags prevHeight nHeight first (tx # vtx) acc c =
     (case connect_tx env bGet strict scripts flags prevHeight nHeight first tx acc c of
        (Inl e, c') \<Rightarrow> (Inl e, c')
      | (Inr acc', c') \<Rightarrow> connect_txs env bGet strict scripts flags prevHeight nHeight False vtx acc' c')"

section \<open>Connecting a block\<close>

text \<open>
  Further surroundings: the checks above, the free disk space, the network's magic bytes, key
  compression for the undo data and whether there is a transaction index.
\<close>

record connect_env = block_env +
  ce_IsBlockValueValid :: "BlockMap \<Rightarrow> CChain \<Rightarrow> CBlock \<Rightarrow> int \<Rightarrow> int \<Rightarrow> bool"
  ce_nFree :: u64
  ce_MessageStart :: "byte list"
  ce_fully_valid :: "valtype \<Rightarrow> bool"
  ce_decompress :: "valtype \<Rightarrow> valtype option"
  ce_fTxIndex :: bool

text \<open>
  The parts of the node's state that connecting a block changes besides the view and the entry of
  the block: the files, what the block database holds, and two maps in memory.
\<close>

record chain_store =
  cs_files :: file_state
  cs_blocktree :: "u256 \<rightharpoonup> CBlockIndex"
  cs_txindex :: "u256 \<rightharpoonup> CDiskTxPos"
  cs_mapStakeSpent :: "COutPoint \<rightharpoonup> int"
  cs_mapRejectedBlocks :: "u256 \<rightharpoonup> int"

text \<open>The maintenance of \<^verbatim>\<open>mapStakeSpent\<close>.\<close>

definition stake_spent_add :: "int \<Rightarrow> CTransaction list \<Rightarrow> (COutPoint \<rightharpoonup> int) \<Rightarrow> (COutPoint \<rightharpoonup> int)" where
  "stake_spent_add nHeight vtx m =
     fold (\<lambda>tx m. if IsCoinBase tx then m else fold (\<lambda>txin. map_insert (txin_prevout txin) nHeight) (tx_vin tx) m) vtx m"

definition stake_spent_expire :: "int \<Rightarrow> (COutPoint \<rightharpoonup> int) \<Rightarrow> (COutPoint \<rightharpoonup> int)" where
  "stake_spent_expire limit m = (\<lambda>p. case m p of None \<Rightarrow> None | Some h \<Rightarrow> if h < limit then None else Some h)"

text \<open>
  The undo data is written unless the entry has a position for it; the result is the entry and the
  files, \<open>Inl\<close> the state of a failure.
\<close>

definition write_undo ::
    "connect_env \<Rightarrow> CTxUndo list \<Rightarrow> u256 \<Rightarrow> CBlockIndex \<Rightarrow> CValidationState \<Rightarrow> file_state \<Rightarrow>
      (CValidationState \<times> file_state) + (CBlockIndex \<times> file_state)" where
  "write_undo env vtxundo hashPrev bi state fs =
     (if CDiskBlockPos_IsNull (GetUndoPos bi) then
        (case FindUndoPos (ce_nFree env) (nat (bi_nFile bi)) (word_of_nat (length (ser_CBlockUndo (ce_fully_valid env) vtxundo) + 40)) fs of
           (False, _, fs) \<Rightarrow> Inl (state_Error ''out of disk space'' state, fs)
         | (True, pos, fs) \<Rightarrow>
             (case undo_WriteToDisk (crypto_sha256 (be_crypto env)) (ce_fully_valid env) (ce_MessageStart env) vtxundo pos hashPrev fs of
                None \<Rightarrow> Inl (state_Error ''Failed to write undo data'' state, fs)
              | Some (pos, fs) \<Rightarrow> Inr (bi\<lparr>bi_nUndoPos := dbp_nPos pos, bi_nStatus := bi_nStatus bi OR BLOCK_HAVE_UNDO\<rparr>, fs)))
      else Inr (bi, fs))"

text \<open>The state after a failed check of transactions; \<open>None\<close> is an assertion or exception.\<close>

definition reject_state :: "tx_error \<Rightarrow> CValidationState \<Rightarrow> CValidationState option" where
  "reject_state e state = (case e of Aborted \<Rightarrow> None | Reject level reason \<Rightarrow> Some (state_DoS level reason False state))"

text \<open>The amount that the block may create; a block with proof of work may also collect the fees.\<close>

definition expected_mint :: "CChainParams \<Rightarrow> CBlock \<Rightarrow> CBlockIndex \<Rightarrow> CBlockIndex \<Rightarrow> int \<Rightarrow> int" where
  "expected_mint params block tip bp nFees =
     (let nExpectedMint = GetBlockValue params (bi_nMoneySupply tip) (int (bi_nHeight bp)) in
      if \<not> block_IsProofOfStake block then swrap 64 (nExpectedMint + nFees) else nExpectedMint)"

text \<open>
  What follows the loop over the transactions. The result is the verdict, the state, the entry of the
  block, whether the entry was marked dirty, the store and the view.
\<close>

type_synonym 'b connect_result = "bool \<times> CValidationState \<times> CBlockIndex \<times> bool \<times> chain_store \<times> 'b CCoinsViewCache"

definition ConnectBlock_finish ::
    "connect_env \<Rightarrow> bool \<Rightarrow> CBlock \<Rightarrow> u256 option \<Rightarrow> CBlockIndex \<Rightarrow> u256 \<Rightarrow> CBlockIndex \<Rightarrow> connect_acc \<Rightarrow>
      CValidationState \<Rightarrow> index_state \<Rightarrow> chain_store \<Rightarrow> 'b CCoinsViewCache \<Rightarrow> 'b connect_result option" where
  "ConnectBlock_finish env fJustCheck block hash bi hashPrev bp acc state st cs view =
     (let idx = st_mapBlockIndex st; chain = st_chainActive st;
          bi = bi\<lparr>bi_nMoneySupply := swrap 64 (bi_nMoneySupply bp + ca_nValueOut acc - ca_nValueIn acc)\<rparr>;
          bi = bi\<lparr>bi_nMint := swrap 64 (bi_nMoneySupply bi - bi_nMoneySupply bp + ca_nFees acc)\<rparr>;
          cs = cs\<lparr>cs_blocktree := (cs_blocktree cs)(be_hash (block_env.truncate env) block \<mapsto> bi)\<rparr>
      in case Option.bind (chain_tip chain) idx of
           None \<Rightarrow> None
         | Some tip \<Rightarrow>
             if \<not> ce_IsBlockValueValid env idx chain block (expected_mint (be_chain (block_env.truncate env)) block tip bp (ca_nFees acc)) (bi_nMint bi)
                then Some (False, state_DoS 100 ''bad-cb-amount'' False state, bi, False, cs, view)
                else if fJustCheck then Some (True, state, bi, False, cs, view)
                else
                  let fWrite = CDiskBlockPos_IsNull (GetUndoPos bi) \<or> \<not> index_IsValid BLOCK_VALID_SCRIPTS bi in
                  (case write_undo env (ca_vtxundo acc) hashPrev bi state (cs_files cs) of
                     Inl (state, fs) \<Rightarrow> Some (False, state, bi, False, cs\<lparr>cs_files := fs\<rparr>, view)
                   | Inr (bi, fs) \<Rightarrow>
                       let bi = (if fWrite then snd (RaiseValidity BLOCK_VALID_SCRIPTS bi) else bi);
                           cs = cs\<lparr>cs_files := fs,
                             cs_txindex := (if ce_fTxIndex env then cs_txindex cs ++ map_of (rev (ca_vPos acc)) else cs_txindex cs),
                             cs_mapStakeSpent := stake_spent_expire (int (bi_nHeight bi) - be_MaxReorganizationDepth env)
                               (stake_spent_add (int (bi_nHeight bi)) (blk_vtx block) (cs_mapStakeSpent cs))\<rparr>
                       in (case hash of
                             None \<Rightarrow> None
                           | Some h \<Rightarrow> Some (True, state, bi, fWrite, cs, SetBestBlock h view))))"

text \<open>
  Whether scripts are checked, which is not done below the last checkpoint, whether BIP 16 is enforced,
  and the flags of the interpreter.
\<close>

definition script_checks :: "block_env \<Rightarrow> CBlockIndex \<Rightarrow> bool" where
  "script_checks env bi \<longleftrightarrow> int (bi_nHeight bi) \<ge> GetTotalBlocksEstimate (be_fEnabled env) (be_mapCheckpoints env)"

definition strict_p2sh :: "CBlockIndex \<Rightarrow> bool" where
  "strict_p2sh bi \<longleftrightarrow> block_time bi \<ge> 1333238400"

definition script_flags :: "block_env \<Rightarrow> BlockMap \<Rightarrow> CBlock \<Rightarrow> CBlockIndex \<Rightarrow> u256 \<Rightarrow> u32" where
  "script_flags env idx block bi q =
     (let flags = (if strict_p2sh bi then SCRIPT_VERIFY_P2SH else 0) in
      if hdr_nVersion block \<ge> 3 \<and>
         IsSuperMajority (par_nToCheckBlockUpgradeMajority (be_params env)) idx 3 (Some q) (be_EnforceBlockUpgradeMajority env)
      then flags OR SCRIPT_VERIFY_DERSIG else flags)"

text \<open>
  \<^verbatim>\<open>ConnectBlock\<close> for the entry \<open>bi\<close>, whose hash is \<open>hash\<close>; \<open>None\<close> there is the null pointer of an entry
  that is not in the index. The height that \<^verbatim>\<open>CheckInputs\<close> uses is that of the block at which the view is,
  the predecessor.
\<close>

definition ConnectBlock ::
    "connect_env \<Rightarrow> 'b getter \<Rightarrow> ('b \<Rightarrow> u256) \<Rightarrow> CBlock \<Rightarrow> u256 option \<Rightarrow> CBlockIndex \<Rightarrow> bool \<Rightarrow> bool \<Rightarrow> CValidationState \<Rightarrow>
      index_state \<Rightarrow> chain_store \<Rightarrow> 'b CCoinsViewCache \<Rightarrow> 'b connect_result option" where
  "ConnectBlock env bGet bBest block hash bi fJustCheck fAlreadyChecked state st cs view =
     (let benv = block_env.truncate env; idx = st_mapBlockIndex st; chain = st_chainActive st in
      case (if fAlreadyChecked then Some (True, state, cs_mapRejectedBlocks cs)
            else CheckBlock benv idx chain (\<not> fJustCheck) block state (cs_mapRejectedBlocks cs)) of
        None \<Rightarrow> None
      | Some (ok, state, rejected) \<Rightarrow>
          let cs = cs\<lparr>cs_mapRejectedBlocks := rejected\<rparr> in
          if \<not> ok then Some (False, state, bi, False, cs, view)
          else if (case bi_pprev bi of None \<Rightarrow> 0 | Some q \<Rightarrow> q) \<noteq> cache_GetBestBlock bBest view then None
          else if be_hash benv block = be_HashGenesisBlock env
          then (case hash of None \<Rightarrow> None | Some h \<Rightarrow> Some (True, state, bi, False, cs, SetBestBlock h view))
          else if int (bi_nHeight bi) \<le> par_LAST_POW_BLOCK (be_params env) \<and> block_IsProofOfStake block
          then Some (False, state_DoS 100 ''PoS-early'' False state, bi, False, cs, view)
          else if int (bi_nHeight bi) > par_LAST_POW_BLOCK (be_params env) \<and> \<not> block_IsProofOfStake block
          then Some (False, state_DoS 100 ''PoW-ended'' False state, bi, False, cs, view)
          else
            (case (if hash = None then BIP30_loop bGet (be_txid benv) (blk_vtx block) view else (True, view)) of
               (False, view) \<Rightarrow> Some (False, state_DoS 100 ''bad-txns-BIP30'' False state, bi, False, cs, view)
             | (True, view) \<Rightarrow>
                 (case bi_pprev bi of
                    None \<Rightarrow> None
                  | Some q \<Rightarrow>
                      (case idx q of
                         None \<Rightarrow> None
                       | Some bp \<Rightarrow>
                           let fScriptChecks = script_checks benv bi;
                               fStrict = strict_p2sh bi;
                               flags = script_flags benv idx block bi q;
                               pos = CDiskBlockPos.extend (GetBlockPos bi) \<lparr>dtp_nTxOffset = word_of_nat (GetSizeOfCompactSize (length (blk_vtx block)))\<rparr>;
                               acc = \<lparr>ca_nFees = 0, ca_nValueIn = 0, ca_nValueOut = 0, ca_nSigOps = 0, ca_pos = pos, ca_vPos = [], ca_vtxundo = []\<rparr>
                           in (case connect_txs benv bGet fStrict fScriptChecks flags (int (bi_nHeight bp)) (int (bi_nHeight bi)) True (blk_vtx block) acc view of
                                 (Inl e, view) \<Rightarrow> map_option (\<lambda>state. (False, state, bi, False, cs, view)) (reject_state e state)
                               | (Inr acc, view) \<Rightarrow> ConnectBlock_finish env fJustCheck block hash bi q bp acc state st cs view)))))"


section \<open>Sums modulo the width\<close>

declare swrap_simps [simp]

lemma GetValueOut_loop_wraps:
  "GetValueOut_loop n outs = Inr v \<Longrightarrow> in_sint 64 n \<Longrightarrow>
     v = swrap 64 (n + sum_list (map txout_nValue outs)) \<and> (\<forall>out \<in> set outs. 0 \<le> txout_nValue out)"
proof (induction outs arbitrary: n)
  case (Cons out outs)
  from Cons.prems have l: "GetValueOut_loop (swrap 64 (n + txout_nValue out)) outs = Inr v" "0 \<le> txout_nValue out"
    by (auto split: if_splits)
  from Cons.IH [OF l(1)] l(2) show ?case by (simp add: in_sint_swrap add.assoc)
qed (simp add: swrap_id)

lemma GetValueOut_wraps:
  "GetValueOut tx = Inr v \<Longrightarrow> v = swrap 64 (tx_out tx) \<and> (\<forall>out \<in> set (tx_vout tx). 0 \<le> txout_nValue out)"
  using GetValueOut_loop_wraps [of 0 "tx_vout tx" v] by (simp add: GetValueOut_def tx_out_def in_sint_def)

section \<open>What the loop establishes\<close>

text \<open>
  A transaction at the set of coins that it finds: its inputs are unspent, and from the activation
  height on they are mature, cover the outputs unless the transaction is a coinstake, and are
  authorised by their scripts.
\<close>

definition tx_valid_at :: "block_env \<Rightarrow> bool \<Rightarrow> u32 \<Rightarrow> int \<Rightarrow> CTransaction \<Rightarrow> utxo \<Rightarrow> bool" where
  "tx_valid_at env scripts flags prevHeight tx A \<longleftrightarrow>
     (\<forall>out \<in> set (tx_vout tx). 0 \<le> txout_nValue out) \<and>
     (\<not> IsCoinBase tx \<longrightarrow>
        (\<forall>txin \<in> set (tx_vin tx). unspent A (txin_prevout txin) \<noteq> None) \<and>
        (270000 \<le> prevHeight \<longrightarrow>
           (\<forall>txin \<in> set (tx_vin tx). input_spendable (be_chain env) (prevHeight + 1) A txin) \<and>
           MoneyRange (be_chain env) (value_in A (tx_vin tx)) \<and>
           (\<not> IsCoinStake tx \<longrightarrow> (\<exists>vo. GetValueOut tx = Inr vo \<and> vo \<le> value_in A (tx_vin tx))) \<and>
           (scripts \<longrightarrow> (\<forall>i < length (tx_vin tx). CScriptCheck (be_crypto env) tx i flags
              (txout_scriptPubKey (the (unspent A (txin_prevout (tx_vin tx ! i)))))))))"

text \<open>A property of each transaction at the set that it finds.\<close>

fun block_all :: "(CTransaction \<Rightarrow> utxo \<Rightarrow> bool) \<Rightarrow> (CTransaction \<Rightarrow> u256) \<Rightarrow> int \<Rightarrow> CTransaction list \<Rightarrow> utxo \<Rightarrow> bool" where
  "block_all P txid h [] A \<longleftrightarrow> True"
| "block_all P txid h (tx # vtx) A \<longleftrightarrow>
     P tx A \<and> (case abs_update txid tx h A of None \<Rightarrow> False | Some (us, A') \<Rightarrow> block_all P txid h vtx A')"

definition tx_fee :: "utxo \<Rightarrow> CTransaction \<Rightarrow> int" where
  "tx_fee A tx = (if IsCoinBase tx \<or> IsCoinStake tx then 0 else tx_in A tx - tx_out tx)"

context coins_view
begin

lemma spend_sound:
  assumes "cinv c" "ModifyCoins get c (outpoint_hash p) (spend_modify (unat (outpoint_n p))) = (Some u, c')"
  shows "cinv c'" "abs_spend p (cabs c) = Some (u, cabs c')"
proof -
  show "cinv c'" by (rule modify_correct(1) [OF assms])
  obtain x y where x: "coins_opt (Some x) = cabs c (outpoint_hash p)" "spend_modify (unat (outpoint_n p)) x = (Some u, y)"
      "cabs c' = (cabs c)(outpoint_hash p := coins_opt (Some (Cleanup y)))"
    using modify_correct(2) [OF assms] by blast
  have s: "Spend x (unat (outpoint_n p)) = Some (y, u)" using x(2) by (auto simp: spend_modify_def split: option.splits)
  then have "IsAvailable x (unat (outpoint_n p))" using Spend_Some_iff by blast
  then have "coins_opt (Some x) = Some x" using IsPruned_iff_available by (auto simp: coins_opt_def)
  then show "abs_spend p (cabs c) = Some (u, cabs c')"
    using x(1,3) s Spend_Cleanup [OF s] by (simp add: abs_spend_def)
qed

lemma spends_sound:
  "cinv c \<Longrightarrow> spend_inputs get vin c = Some (us, c') \<Longrightarrow> cinv c' \<and> abs_spends vin (cabs c) = Some (us, cabs c')"
proof (induction vin arbitrary: c us)
  case (Cons txin vin)
  from Cons.prems(2) obtain u c1 us1 where m: "ModifyCoins get c (outpoint_hash (txin_prevout txin))
        (spend_modify (unat (outpoint_n (txin_prevout txin)))) = (Some u, c1)"
      "spend_inputs get vin c1 = Some (us1, c')" "us = u # us1"
    by (auto split: option.splits prod.splits)
  note s = spend_sound [OF Cons.prems(1) m(1)]
  from Cons.IH [OF s(1) m(2)] s(2) m(3) show ?case by simp
qed simp

lemma update_sound:
  assumes "cinv c" "UpdateCoins get txid tx h c = Some (us, c')"
  shows "cinv c'" "abs_update txid tx h (cabs c) = Some (us, cabs c')"
proof -
  from assms(2) obtain c1 where c1: "(if \<not> IsCoinBase tx then spend_inputs get (tx_vin tx) c else Some ([], c)) = Some (us, c1)"
      "c' = snd (ModifyCoins get c1 (txid tx) (\<lambda>_. ((), FromTx tx h)))"
    by (auto simp: UpdateCoins_def split: option.splits)
  have a: "cinv c1" "(if \<not> IsCoinBase tx then abs_spends (tx_vin tx) (cabs c) else Some ([], cabs c)) = Some (us, cabs c1)"
    using c1(1) assms(1) spends_sound [OF assms(1), of "tx_vin tx" us c1] by (auto split: if_splits)
  have m: "ModifyCoins get c1 (txid tx) (\<lambda>_. ((), FromTx tx h)) = ((), c')" using c1(2) by (simp add: prod_eq_iff)
  show "cinv c'" by (rule modify_correct(1) [OF a(1) m])
  have "cabs c' = (cabs c1)(txid tx := coins_opt (Some (FromTx tx h)))" using modify_correct(2) [OF a(1) m] by auto
  then show "abs_update txid tx h (cabs c) = Some (us, cabs c')" using a(2) by (simp add: abs_update_def split: if_splits)
qed

lemma update_loop_abs:
  "cinv c \<Longrightarrow> update_coins_loop get txid h vtx c = Some (us, c') \<Longrightarrow> abs_block txid h vtx (cabs c) = Some (us, cabs c')"
proof (induction vtx arbitrary: c us)
  case (Cons tx vtx)
  from Cons.prems(2) obtain u c1 us1 where u: "UpdateCoins get txid tx h c = Some (u, c1)"
      "update_coins_loop get txid h vtx c1 = Some (us1, c')" "us = u # us1"
    by (auto split: option.splits)
  note s = update_sound [OF Cons.prems(1) u(1)]
  from Cons.IH [OF s(1) u(2)] s(2) u(3) show ?case by simp
qed simp

lemma value_in_loop_wraps:
  "cinv c \<Longrightarrow> GetValueIn_loop get c vin n = (Some v, c') \<Longrightarrow> in_sint 64 n \<Longrightarrow>
     cinv c' \<and> cabs c' = cabs c \<and> v = swrap 64 (n + value_in (cabs c) vin)"
proof (induction vin arbitrary: c n)
  case (Cons txin vin)
  obtain r c1 where g: "GetOutputFor get c txin = (r, c1)" by (cases "GetOutputFor get c txin")
  note oc = output_for_correct [OF Cons.prems(1) g]
  from Cons.prems(2) g obtain out where out: "r = Some out" "GetValueIn_loop get c1 vin (swrap 64 (n + txout_nValue out)) = (Some v, c')"
    by (cases r) auto
  from Cons.IH [OF oc(1) out(2)] oc(2) oc(3) [symmetric] out(1) show ?case by (simp add: in_sint_swrap value_in_def add.assoc)
qed (auto simp: value_in_def swrap_id)

lemma p2sh_sigops_view:
  "cinv c \<Longrightarrow> GetP2SHSigOpCount_loop get vin n c = (r, c') \<Longrightarrow> cinv c' \<and> cabs c' = cabs c"
proof (induction vin arbitrary: c n)
  case (Cons txin vin)
  obtain q c1 where g: "GetOutputFor get c txin = (q, c1)" by (cases "GetOutputFor get c txin")
  note oc = output_for_correct [OF Cons.prems(1) g]
  show ?case using Cons.IH [OF oc(1)] oc(1,2) Cons.prems(2) g by (cases q) auto
qed simp

end

text \<open>The limit on amounts leaves room for the sum of two of them.\<close>

definition money_ok :: "CChainParams \<Rightarrow> bool" where
  "money_ok params \<longleftrightarrow> 0 \<le> par_MaxMoneyOut params \<and> par_MaxMoneyOut params < 2 ^ 62"

context coins_view
begin

lemma check_inputs_view:
  assumes "cinv c" "CheckInputs cr params get prevHeight scripts flags tx c = (Inr (), c')" "money_ok params" "\<not> IsCoinBase tx"
  shows "cinv c'" "cabs c' = cabs c"
  using assms check_inputs_sound(1,2) [OF assms(1,2,4)] CheckInputs_early [of prevHeight cr params get scripts flags tx c]
  by (cases "prevHeight < 270000"; simp add: money_ok_def)+

lemma connect_inputs_sound:
  assumes c: "cinv c" and m: "money_ok (be_chain env)" and t: "\<not> IsCoinBase tx"
    and r: "connect_inputs env get strict scripts flags prevHeight tx acc c = (Inr acc', c')"
  shows "cinv c'" "cabs c' = cabs c"
    "\<forall>txin \<in> set (tx_vin tx). unspent (cabs c) (txin_prevout txin) \<noteq> None"
    "270000 \<le> prevHeight \<Longrightarrow> \<exists>d d'. cinv d \<and> cabs d = cabs c \<and>
       CheckInputs (be_crypto env) (be_chain env) get prevHeight scripts flags tx d = (Inr (), d')"
    "ca_nFees acc' = (if IsCoinStake tx then ca_nFees acc else swrap 64 (ca_nFees acc + (tx_in (cabs c) tx - tx_out tx)))"
    "ca_nValueIn acc' = swrap 64 (ca_nValueIn acc + tx_in (cabs c) tx)"
    "ca_nValueOut acc' = ca_nValueOut acc" "ca_vtxundo acc' = ca_vtxundo acc"
proof -
  obtain b c1 where h: "HaveInputs get c tx = (b, c1)" by (cases "HaveInputs get c tx")
  note hi = have_inputs_correct [OF c h]
  have b: "b" using r h by (cases b) (auto simp: connect_inputs_def)
  obtain so c2 where s: "(if strict then GetP2SHSigOpCount get tx c1 else (Some 0, c1)) = (so, c2)"
    by (cases "if strict then GetP2SHSigOpCount get tx c1 else (Some 0, c1)")
  have c2: "cinv c2" "cabs c2 = cabs c"
    using s hi(1,2) t p2sh_sigops_view [of c1 "tx_vin tx" 0 so c2] by (auto simp: GetP2SHSigOpCount_def split: if_splits)
  obtain n where n: "so = Some n" using r h b s by (cases so) (auto simp: connect_inputs_def)
  obtain vi c3 where v: "GetValueIn get c2 tx = (vi, c3)" by (cases "GetValueIn get c2 tx")
  obtain nIn where nIn: "vi = Some nIn" using r h b s n v by (cases vi) (auto simp: connect_inputs_def split: if_splits)
  have c3: "cinv c3" "cabs c3 = cabs c" "nIn = swrap 64 (tx_in (cabs c) tx)"
    using value_in_loop_wraps [OF c2(1), of "tx_vin tx" 0 nIn c3] v nIn t c2(2)
    by (auto simp: GetValueIn_def tx_in_def in_sint_def)
  obtain nOut where o: "(if IsCoinStake tx then Inr 0 else GetValueOut tx) = Inr nOut"
    using r h b s n v nIn
    by (cases "if IsCoinStake tx then Inr 0 else GetValueOut tx") (auto simp: connect_inputs_def split: if_splits)
  obtain rc c4 where ci: "CheckInputs (be_crypto env) (be_chain env) get prevHeight scripts flags tx c3 = (rc, c4)"
    by (cases "CheckInputs (be_crypto env) (be_chain env) get prevHeight scripts flags tx c3")
  have res: "rc = Inr () \<and> c' = c4 \<and> acc' = acc\<lparr>ca_nSigOps := ca_nSigOps acc + n,
      ca_nFees := (if IsCoinStake tx then ca_nFees acc else swrap 64 (ca_nFees acc + swrap 64 (nIn - nOut))),
      ca_nValueIn := swrap 64 (ca_nValueIn acc + nIn)\<rparr>"
    using r h b s n v nIn o ci
    by (simp add: connect_inputs_def Let_def split: if_splits sum.splits)
  have out: "nOut = swrap 64 (tx_out tx)" if "\<not> IsCoinStake tx" using o that GetValueOut_wraps [of tx nOut] by simp
  note ci = ci [folded res [THEN conjunct2, THEN conjunct1]]
  have ci: "CheckInputs (be_crypto env) (be_chain env) get prevHeight scripts flags tx c3 = (Inr (), c')" using ci res by simp
  show "cinv c'" "cabs c' = cabs c" using check_inputs_view [OF c3(1) ci m t] c3(2) by auto
  show "\<forall>txin \<in> set (tx_vin tx). unspent (cabs c) (txin_prevout txin) \<noteq> None" using hi(3) b t by simp
  show "\<exists>d d'. cinv d \<and> cabs d = cabs c \<and> CheckInputs (be_crypto env) (be_chain env) get prevHeight scripts flags tx d = (Inr (), d')"
    using ci c3(1,2) by blast
  show "ca_nFees acc' = (if IsCoinStake tx then ca_nFees acc else swrap 64 (ca_nFees acc + (tx_in (cabs c) tx - tx_out tx)))"
    using res out c3(3) by simp
  show "ca_nValueIn acc' = swrap 64 (ca_nValueIn acc + tx_in (cabs c) tx)" using res c3(3) by simp
  show "ca_nValueOut acc' = ca_nValueOut acc" "ca_vtxundo acc' = ca_vtxundo acc" using res by simp_all
qed

lemma connect_inputs_valid:
  assumes c: "cinv c" and m: "money_ok (be_chain env)" and t: "\<not> IsCoinBase tx"
    and r: "connect_inputs env get strict scripts flags prevHeight tx acc c = (Inr acc', c')"
    and o: "\<forall>out \<in> set (tx_vout tx). 0 \<le> txout_nValue out"
  shows "tx_valid_at env scripts flags prevHeight tx (cabs c)"
proof (cases "270000 \<le> prevHeight")
  case True
  note s = connect_inputs_sound [OF c m t r]
  from s(4) [OF True] obtain d d' where d: "cinv d" "cabs d = cabs c"
    "CheckInputs (be_crypto env) (be_chain env) get prevHeight scripts flags tx d = (Inr (), d')" by blast
  note k = check_inputs_sound [OF d(1,3) t True m [unfolded money_ok_def, THEN conjunct1] m [unfolded money_ok_def, THEN conjunct2]]
  show ?thesis unfolding tx_valid_at_def using s(3) k(3-6) d(2) o by auto
next
  case False
  then show ?thesis unfolding tx_valid_at_def using connect_inputs_sound(3) [OF c m t r] o by auto
qed

lemma connect_tx_sound:
  assumes c: "cinv c" and m: "money_ok (be_chain env)" and i: "in_sint 64 (ca_nFees acc)" "in_sint 64 (ca_nValueIn acc)"
    and r: "connect_tx env get strict scripts flags prevHeight h first tx acc c = (Inr acc', c')"
  obtains us where "cinv c'" "abs_update (be_txid env) tx h (cabs c) = Some (us, cabs c')"
    "tx_valid_at env scripts flags prevHeight tx (cabs c)"
    "ca_vtxundo acc' = ca_vtxundo acc @ (if first then [] else [us])"
    "ca_nFees acc' = swrap 64 (ca_nFees acc + tx_fee (cabs c) tx)"
    "ca_nValueIn acc' = swrap 64 (ca_nValueIn acc + tx_in (cabs c) tx)"
    "ca_nValueOut acc' = swrap 64 (ca_nValueOut acc + tx_out tx)"
proof -
  let ?acc = "acc\<lparr>ca_nSigOps := ca_nSigOps acc + GetLegacySigOpCount tx\<rparr>"
  let ?in = "if \<not> IsCoinBase tx then connect_inputs env get strict scripts flags prevHeight tx ?acc c else (Inr ?acc, c)"
  obtain r1 c1 where i1: "?in = (r1, c1)" by (cases ?in)
  obtain acc1 where a1: "r1 = Inr acc1" using r i1 by (cases r1) (auto simp: connect_tx_def Let_def split: if_splits)
  obtain nOut where o: "GetValueOut tx = Inr nOut"
    using r i1 a1 by (cases "GetValueOut tx") (auto simp: connect_tx_def Let_def split: if_splits)
  obtain us where u: "UpdateCoins get (be_txid env) tx h c1 = Some (us, c')"
    using r i1 a1 o
    by (cases "UpdateCoins get (be_txid env) tx h c1") (auto simp: connect_tx_def Let_def split: if_splits)
  have res: "ca_nFees acc' = ca_nFees acc1" "ca_nValueIn acc' = ca_nValueIn acc1" "ca_nValueOut acc' = swrap 64 (ca_nValueOut acc1 + nOut)"
      "ca_vtxundo acc' = (if first then ca_vtxundo acc1 else ca_vtxundo acc1 @ [us])"
    using r i1 a1 o u by (auto simp: connect_tx_def Let_def split: if_splits)
  note out = GetValueOut_wraps [OF o]
  have s: "cinv c1 \<and> cabs c1 = cabs c \<and> tx_valid_at env scripts flags prevHeight tx (cabs c) \<and>
      ca_nFees acc1 = swrap 64 (ca_nFees acc + tx_fee (cabs c) tx) \<and> ca_nValueIn acc1 = swrap 64 (ca_nValueIn acc + tx_in (cabs c) tx) \<and>
      ca_nValueOut acc1 = ca_nValueOut acc \<and> ca_vtxundo acc1 = ca_vtxundo acc"
  proof (cases "IsCoinBase tx")
    case True
    then show ?thesis using i1 a1 c i out by (auto simp: tx_valid_at_def tx_fee_def tx_in_def swrap_id)
  next
    case False
    then have ci: "connect_inputs env get strict scripts flags prevHeight tx ?acc c = (Inr acc1, c1)" using i1 a1 by simp
    note k = connect_inputs_sound [OF c m False ci]
    show ?thesis
      using k(1,2,5-8) connect_inputs_valid [OF c m False ci out [THEN conjunct2]] i False
      by (auto simp: tx_fee_def swrap_id)
  qed
  note us = update_sound [OF s [THEN conjunct1] u]
  show thesis by (rule that [of us]) (use s us res out in auto)
qed

lemma connect_txs_sound:
  "cinv c \<Longrightarrow> money_ok (be_chain env) \<Longrightarrow> in_sint 64 (ca_nFees acc) \<Longrightarrow> in_sint 64 (ca_nValueIn acc) \<Longrightarrow> in_sint 64 (ca_nValueOut acc) \<Longrightarrow>
   connect_txs env get strict scripts flags prevHeight h first vtx acc c = (Inr acc', c') \<Longrightarrow>
   \<exists>us. cinv c' \<and> abs_block (be_txid env) h vtx (cabs c) = Some (us, cabs c') \<and>
     block_all (tx_valid_at env scripts flags prevHeight) (be_txid env) h vtx (cabs c) \<and>
     ca_vtxundo acc' = ca_vtxundo acc @ (if first then tl us else us) \<and>
     ca_nFees acc' = swrap 64 (ca_nFees acc + block_sum tx_fee (be_txid env) h vtx (cabs c)) \<and>
     ca_nValueIn acc' = swrap 64 (ca_nValueIn acc + block_sum tx_in (be_txid env) h vtx (cabs c)) \<and>
     ca_nValueOut acc' = swrap 64 (ca_nValueOut acc + block_sum (\<lambda>A. tx_out) (be_txid env) h vtx (cabs c))"
proof (induction vtx arbitrary: c acc first)
  case Nil
  then show ?case by (auto simp: swrap_id)
next
  case (Cons tx vtx)
  from Cons.prems(6) obtain acc1 c1 where t: "connect_tx env get strict scripts flags prevHeight h first tx acc c = (Inr acc1, c1)"
      "connect_txs env get strict scripts flags prevHeight h False vtx acc1 c1 = (Inr acc', c')"
    by (auto split: prod.splits sum.splits)
  from connect_tx_sound [OF Cons.prems(1-4) t(1)] obtain u where
    u: "cinv c1" "abs_update (be_txid env) tx h (cabs c) = Some (u, cabs c1)" "tx_valid_at env scripts flags prevHeight tx (cabs c)"
      "ca_vtxundo acc1 = ca_vtxundo acc @ (if first then [] else [u])"
      "ca_nFees acc1 = swrap 64 (ca_nFees acc + tx_fee (cabs c) tx)"
      "ca_nValueIn acc1 = swrap 64 (ca_nValueIn acc + tx_in (cabs c) tx)"
      "ca_nValueOut acc1 = swrap 64 (ca_nValueOut acc + tx_out tx)" by blast
  have "in_sint 64 (ca_nFees acc1)" "in_sint 64 (ca_nValueIn acc1)" "in_sint 64 (ca_nValueOut acc1)"
    using u by (simp_all add: in_sint_swrap)
  from Cons.IH [OF u(1) Cons.prems(2) this t(2)] obtain us where
    "cinv c'" "abs_block (be_txid env) h vtx (cabs c1) = Some (us, cabs c')"
      "block_all (tx_valid_at env scripts flags prevHeight) (be_txid env) h vtx (cabs c1)"
      "ca_vtxundo acc' = ca_vtxundo acc1 @ us"
      "ca_nFees acc' = swrap 64 (ca_nFees acc1 + block_sum tx_fee (be_txid env) h vtx (cabs c1))"
      "ca_nValueIn acc' = swrap 64 (ca_nValueIn acc1 + block_sum tx_in (be_txid env) h vtx (cabs c1))"
      "ca_nValueOut acc' = swrap 64 (ca_nValueOut acc1 + block_sum (\<lambda>A. tx_out) (be_txid env) h vtx (cabs c1))" by auto
  then show ?case using u by (intro exI [of _ "u # us"]) (simp add: add.assoc)
qed

end

section \<open>The end of the connection\<close>

lemma GetUndoPos_RaiseValidity [simp]: "GetUndoPos (snd (RaiseValidity 5 bi)) = GetUndoPos bi"
proof -
  have "(bi_nStatus bi AND NOT 7 OR 5) AND 16 = bi_nStatus bi AND (16 :: u32)"
    by (simp add: bit.conj_disj_distrib2 and.assoc)
  then show ?thesis by (simp add: RaiseValidity_def GetUndoPos_def)
qed

lemma RaiseValidity_simps [simp]:
  "bi_nMint (snd (RaiseValidity n bi)) = bi_nMint bi" "bi_nMoneySupply (snd (RaiseValidity n bi)) = bi_nMoneySupply bi"
  "bi_pprev (snd (RaiseValidity n bi)) = bi_pprev bi" "bi_nHeight (snd (RaiseValidity n bi)) = bi_nHeight bi"
  by (simp_all add: RaiseValidity_def)

text \<open>The undo file of the block has room, and the block's file is known.\<close>

definition undo_room :: "connect_env \<Rightarrow> CTxUndo list \<Rightarrow> CBlockIndex \<Rightarrow> file_state \<Rightarrow> bool" where
  "undo_room env us bi fs \<longleftrightarrow>
     length (ce_MessageStart env) = 4 \<and> 0 \<le> bi_nFile bi \<and> nat (bi_nFile bi) < length (fs_vinfoBlockFile fs) \<and>
     unat (bfi_nUndoSize (info_at fs (nat (bi_nFile bi)))) + length (ser_CBlockUndo (ce_fully_valid env) us) + 40 < 2 ^ 32"

lemma write_undo_stores:
  assumes "write_undo env us q bi state fs = Inr (bi', fs')" "CDiskBlockPos_IsNull (GetUndoPos bi)" "undo_room env us bi fs"
  shows "undo_at (crypto_sha256 (be_crypto env)) (ce_fully_valid env) fs' (GetUndoPos bi') q us" "files_keep fs fs'"
proof -
  let ?k = "nat (bi_nFile bi)" and ?sha = "crypto_sha256 (be_crypto env)" and ?fv = "ce_fully_valid env"
  obtain ok pos fs1 where f: "FindUndoPos (ce_nFree env) ?k (word_of_nat (length (ser_CBlockUndo ?fv us) + 40)) fs = (ok, pos, fs1)"
    by (metis prod_cases3)
  from store_undo [OF _ _ _ f, of "ce_MessageStart env" ?sha q] assms(3) obtain pos' fs2 where
    w: "undo_WriteToDisk ?sha ?fv (ce_MessageStart env) us pos q fs1 = Some (pos', fs2)" "files_keep fs fs2"
       "dbp_nFile pos' = int ?k" "undo_at ?sha ?fv fs2 pos' q us"
    by (auto simp: undo_room_def)
  have r: "fs' = fs2" "bi' = bi\<lparr>bi_nUndoPos := dbp_nPos pos', bi_nStatus := bi_nStatus bi OR BLOCK_HAVE_UNDO\<rparr>"
    using assms(1,2) f w(1) by (auto simp: write_undo_def split: bool.splits)
  have "(bi_nStatus bi OR 16) AND 16 = (16 :: u32)"
    by (simp add: bit_eq_iff bit_simps)
  then have "GetUndoPos bi' = pos'" using w(3) assms(3) by (simp add: GetUndoPos_def r(2) undo_room_def)
  with w r show "undo_at ?sha ?fv fs' (GetUndoPos bi') q us" "files_keep fs fs'" by simp_all
qed

lemma write_undo_keeps:
  "write_undo env us q bi state fs = Inr (bi', fs') \<Longrightarrow>
     bi_nMint bi' = bi_nMint bi \<and> bi_nMoneySupply bi' = bi_nMoneySupply bi \<and> bi_pprev bi' = bi_pprev bi \<and> bi_nHeight bi' = bi_nHeight bi"
  by (auto simp: write_undo_def split: if_splits prod.splits bool.splits option.splits)

lemma ConnectBlock_finish_sound:
  assumes "ConnectBlock_finish env False block (Some h) bi q bp acc state st cs view = Some (True, state', bi', dirty, cs', view')"
  shows "bi_nMoneySupply bi' = swrap 64 (bi_nMoneySupply bp + ca_nValueOut acc - ca_nValueIn acc)"
    "bi_nMint bi' = swrap 64 (ca_nValueOut acc - ca_nValueIn acc + ca_nFees acc)"
    "view' = SetBestBlock h view"
    "CDiskBlockPos_IsNull (GetUndoPos bi) \<Longrightarrow> undo_room env (ca_vtxundo acc) bi (cs_files cs) \<Longrightarrow>
       undo_at (crypto_sha256 (be_crypto env)) (ce_fully_valid env) (cs_files cs') (GetUndoPos bi') q (ca_vtxundo acc) \<and>
       files_keep (cs_files cs) (cs_files cs')"
    "bi_pprev bi' = bi_pprev bi" "bi_nHeight bi' = bi_nHeight bi"
    "\<exists>tip. Option.bind (chain_tip (st_chainActive st)) (st_mapBlockIndex st) = Some tip \<and>
       ce_IsBlockValueValid env (st_mapBlockIndex st) (st_chainActive st) block
         (expected_mint (be_chain (block_env.truncate env)) block tip bp (ca_nFees acc)) (bi_nMint bi')"
proof -
  let ?idx = "st_mapBlockIndex st" and ?chain = "st_chainActive st"
  define b1 where "b1 = bi\<lparr>bi_nMoneySupply := swrap 64 (bi_nMoneySupply bp + ca_nValueOut acc - ca_nValueIn acc)\<rparr>"
  define b2 where "b2 = b1\<lparr>bi_nMint := swrap 64 (bi_nMoneySupply b1 - bi_nMoneySupply bp + ca_nFees acc)\<rparr>"
  define cs1 where "cs1 = cs\<lparr>cs_blocktree := (cs_blocktree cs)(be_hash (block_env.truncate env) block \<mapsto> b2)\<rparr>"
  note r = assms [unfolded ConnectBlock_finish_def Let_def b1_def [symmetric] b2_def [symmetric] cs1_def [symmetric]]
  from r obtain tip where tip: "Option.bind (chain_tip ?chain) ?idx = Some tip" by (auto split: option.splits)
  from r tip have v: "ce_IsBlockValueValid env ?idx ?chain block (expected_mint (be_chain (block_env.truncate env)) block tip bp (ca_nFees acc)) (bi_nMint b2)"
    by (auto split: if_splits)
  from r tip v obtain b3 fs where w: "write_undo env (ca_vtxundo acc) q b2 state (cs_files cs1) = Inr (b3, fs)"
    by (cases "write_undo env (ca_vtxundo acc) q b2 state (cs_files cs1)") auto
  have res: "bi' = b3 \<or> bi' = snd (RaiseValidity BLOCK_VALID_SCRIPTS b3)" "view' = SetBestBlock h view" "cs_files cs' = fs"
    using r tip v w by (auto split: if_splits)
  note k = write_undo_keeps [OF w]
  have b2: "bi_nMoneySupply b2 = swrap 64 (bi_nMoneySupply bp + ca_nValueOut acc - ca_nValueIn acc)"
    "bi_nMint b2 = swrap 64 (ca_nValueOut acc - ca_nValueIn acc + ca_nFees acc)" "bi_pprev b2 = bi_pprev bi" "bi_nHeight b2 = bi_nHeight bi"
    using swrap_add_left [of 64 "bi_nMoneySupply bp + ca_nValueOut acc - ca_nValueIn acc" "ca_nFees acc - bi_nMoneySupply bp"]
    by (simp_all add: b2_def b1_def algebra_simps)
  show "bi_nMoneySupply bi' = swrap 64 (bi_nMoneySupply bp + ca_nValueOut acc - ca_nValueIn acc)"
    "bi_nMint bi' = swrap 64 (ca_nValueOut acc - ca_nValueIn acc + ca_nFees acc)" "bi_pprev bi' = bi_pprev bi" "bi_nHeight bi' = bi_nHeight bi"
    using res(1) k b2 by auto
  show "view' = SetBestBlock h view" by (rule res)
  show "\<exists>tip. Option.bind (chain_tip ?chain) ?idx = Some tip \<and> ce_IsBlockValueValid env ?idx ?chain block
         (expected_mint (be_chain (block_env.truncate env)) block tip bp (ca_nFees acc)) (bi_nMint bi')"
    using tip v res(1) k by auto
  have u: "GetUndoPos b2 = GetUndoPos bi" "undo_room env (ca_vtxundo acc) b2 (cs_files cs1) = undo_room env (ca_vtxundo acc) bi (cs_files cs)"
    "cs_files cs1 = cs_files cs" by (simp_all add: b2_def b1_def cs1_def GetUndoPos_def undo_room_def)
  show "undo_at (crypto_sha256 (be_crypto env)) (ce_fully_valid env) (cs_files cs') (GetUndoPos bi') q (ca_vtxundo acc) \<and>
       files_keep (cs_files cs) (cs_files cs')"
    if "CDiskBlockPos_IsNull (GetUndoPos bi)" "undo_room env (ca_vtxundo acc) bi (cs_files cs)"
    using write_undo_stores [OF w] that u res(1,3) by auto
qed

section \<open>Connecting a block on the abstract set\<close>

lemma block_sum_lin:
  assumes "abs_block txid h vtx A \<noteq> None" "\<And>A tx. f A tx = g A tx - k A tx"
  shows "block_sum f txid h vtx A = block_sum g txid h vtx A - block_sum k txid h vtx A"
  using assms(1)
proof (induction vtx arbitrary: A)
  case (Cons tx vtx)
  then show ?case using assms(2) by (auto split: option.splits)
qed simp

lemma block_all_mono: "block_all P txid h vtx A \<Longrightarrow> (\<And>tx A. P tx A \<Longrightarrow> Q tx) \<Longrightarrow> \<forall>tx \<in> set vtx. Q tx"
  by (induction vtx arbitrary: A) (auto split: option.splits)

context coins_view
begin

text \<open>A block that is not the genesis block and is connected went through the loop and the rest.\<close>

lemma connect_block_cases:
  assumes "ConnectBlock env get best block (Some hash) bi False already state st cs view = Some (True, state', bi', dirty, cs', view')"
    and "be_hash (block_env.truncate env) block \<noteq> be_HashGenesisBlock env"
  obtains q bp acc0 acc view1 state1 cs1 where "bi_pprev bi = Some q" "st_mapBlockIndex st q = Some bp" "cache_GetBestBlock best view = q"
    "ca_nFees acc0 = 0" "ca_nValueIn acc0 = 0" "ca_nValueOut acc0 = 0" "ca_vtxundo acc0 = []" "cs_files cs1 = cs_files cs"
    "connect_txs (block_env.truncate env) get (strict_p2sh bi) (script_checks (block_env.truncate env) bi)
       (script_flags (block_env.truncate env) (st_mapBlockIndex st) block bi q) (int (bi_nHeight bp)) (int (bi_nHeight bi)) True
       (blk_vtx block) acc0 view = (Inr acc, view1)"
    "ConnectBlock_finish env False block (Some hash) bi q bp acc state1 st cs1 view1 = Some (True, state', bi', dirty, cs', view')"
proof -
  let ?benv = "block_env.truncate env"
  define acc0 where "acc0 = \<lparr>ca_nFees = 0, ca_nValueIn = 0, ca_nValueOut = 0, ca_nSigOps = 0,
     ca_pos = CDiskBlockPos.extend (GetBlockPos bi) \<lparr>dtp_nTxOffset = word_of_nat (GetSizeOfCompactSize (length (blk_vtx block)))\<rparr>,
     ca_vPos = [], ca_vtxundo = []\<rparr>"
  define K where "K = (if already then Some (True, state, cs_mapRejectedBlocks cs)
        else CheckBlock ?benv (st_mapBlockIndex st) (st_chainActive st) (\<not> False) block state (cs_mapRejectedBlocks cs))"
  note r = assms(1) [unfolded ConnectBlock_def Let_def K_def [symmetric]]
  from r obtain state1 rej where chk: "K = Some (True, state1, rej)" by (auto split: option.splits if_splits)
  let ?cs = "cs\<lparr>cs_mapRejectedBlocks := rej\<rparr>"
  note r = r [unfolded chk option.case prod.case]
  from r assms(2) obtain q bp where q: "bi_pprev bi = Some q" "st_mapBlockIndex st q = Some bp"
    by (auto split: option.splits if_splits)
  note r = r [unfolded q option.case]
  have b: "cache_GetBestBlock best view = q" using r q by (auto split: if_splits)
  obtain ra view1 where t: "connect_txs ?benv get (strict_p2sh bi) (script_checks ?benv bi)
       (script_flags ?benv (st_mapBlockIndex st) block bi q) (int (bi_nHeight bp)) (int (bi_nHeight bi)) True
       (blk_vtx block) acc0 view = (ra, view1)"
    by (metis surj_pair)
  note r = r [folded acc0_def]
  have "\<exists>acc. ra = Inr acc \<and> ConnectBlock_finish env False block (Some hash) bi q bp acc state1 st ?cs view1 = Some (True, state', bi', dirty, cs', view')"
    using r t assms(2) b by (auto split: if_splits sum.splits)
  then show thesis using that [of q bp acc0 ?cs _ view1 state1] q b t by (auto simp: acc0_def)
qed

end

context coins_view
begin

lemma connect_block_sound:
  assumes c: "cinv view" and m: "money_ok (be_chain (block_env.truncate env))"
    and r: "ConnectBlock env get best block (Some hash) bi False already state st cs view = Some (True, state', bi', dirty, cs', view')"
    and g: "be_hash (block_env.truncate env) block \<noteq> be_HashGenesisBlock env"
  obtains q bp us fees where "bi_pprev bi = Some q" "st_mapBlockIndex st q = Some bp" "cache_GetBestBlock best view = q"
    "abs_block (be_txid (block_env.truncate env)) (int (bi_nHeight bi)) (blk_vtx block) (cabs view) = Some (us, cabs view')"
    "cinv view'" "cache_hashBlock view' = hash"
    "block_all (tx_valid_at (block_env.truncate env) (script_checks (block_env.truncate env) bi)
       (script_flags (block_env.truncate env) (st_mapBlockIndex st) block bi q) (int (bi_nHeight bp)))
       (be_txid (block_env.truncate env)) (int (bi_nHeight bi)) (blk_vtx block) (cabs view)"
    "bi_nMoneySupply bi' = swrap 64 (bi_nMoneySupply bp +
       block_sum (\<lambda>A tx. tx_out tx - tx_in A tx) (be_txid (block_env.truncate env)) (int (bi_nHeight bi)) (blk_vtx block) (cabs view))"
    "bi_nMint bi' = swrap 64 (block_sum tx_mint (be_txid (block_env.truncate env)) (int (bi_nHeight bi)) (blk_vtx block) (cabs view))"
    "fees = swrap 64 (block_sum tx_fee (be_txid (block_env.truncate env)) (int (bi_nHeight bi)) (blk_vtx block) (cabs view))"
    "\<exists>tip. Option.bind (chain_tip (st_chainActive st)) (st_mapBlockIndex st) = Some tip \<and>
       ce_IsBlockValueValid env (st_mapBlockIndex st) (st_chainActive st) block
         (expected_mint (be_chain (block_env.truncate env)) block tip bp fees) (bi_nMint bi')"
    "CDiskBlockPos_IsNull (GetUndoPos bi) \<Longrightarrow> undo_room env (tl us) bi (cs_files cs) \<Longrightarrow>
       undo_at (crypto_sha256 (be_crypto env)) (ce_fully_valid env) (cs_files cs') (GetUndoPos bi') q (tl us) \<and>
       files_keep (cs_files cs) (cs_files cs')"
proof -
  let ?benv = "block_env.truncate env"
  let ?tx = "be_txid ?benv" and ?h = "int (bi_nHeight bi)" and ?vtx = "blk_vtx block" and ?A = "cabs view"
  obtain q bp acc0 acc view1 state1 cs1 where k:
    "bi_pprev bi = Some q" "st_mapBlockIndex st q = Some bp" "cache_GetBestBlock best view = q"
    "ca_nFees acc0 = 0" "ca_nValueIn acc0 = 0" "ca_nValueOut acc0 = 0" "ca_vtxundo acc0 = []" "cs_files cs1 = cs_files cs"
    "connect_txs ?benv get (strict_p2sh bi) (script_checks ?benv bi) (script_flags ?benv (st_mapBlockIndex st) block bi q)
       (int (bi_nHeight bp)) ?h True ?vtx acc0 view = (Inr acc, view1)"
    "ConnectBlock_finish env False block (Some hash) bi q bp acc state1 st cs1 view1 = Some (True, state', bi', dirty, cs', view')"
    by (rule connect_block_cases [OF r g])
  have z: "in_sint 64 (ca_nFees acc0)" "in_sint 64 (ca_nValueIn acc0)" "in_sint 64 (ca_nValueOut acc0)"
    using k(4-6) by (simp_all add: in_sint_def)
  from connect_txs_sound [OF c m z k(9)] k(4-7) obtain us where u:
    "cinv view1" "abs_block ?tx ?h ?vtx ?A = Some (us, cabs view1)"
    "block_all (tx_valid_at ?benv (script_checks ?benv bi) (script_flags ?benv (st_mapBlockIndex st) block bi q) (int (bi_nHeight bp))) ?tx ?h ?vtx ?A"
    "ca_vtxundo acc = tl us" "ca_nFees acc = swrap 64 (block_sum tx_fee ?tx ?h ?vtx ?A)"
    "ca_nValueIn acc = swrap 64 (block_sum tx_in ?tx ?h ?vtx ?A)" "ca_nValueOut acc = swrap 64 (block_sum (\<lambda>A. tx_out) ?tx ?h ?vtx ?A)"
    by auto
  note f = ConnectBlock_finish_sound [OF k(10)]
  have ne: "abs_block ?tx ?h ?vtx ?A \<noteq> None" using u(2) by simp
  let ?D = "block_sum (\<lambda>A tx. tx_out tx - tx_in A tx) ?tx ?h ?vtx ?A"
  have D: "?D = block_sum (\<lambda>A. tx_out) ?tx ?h ?vtx ?A - block_sum tx_in ?tx ?h ?vtx ?A"
    by (rule block_sum_lin [OF ne]) simp
  have M: "?D = block_sum tx_mint ?tx ?h ?vtx ?A - block_sum tx_fee ?tx ?h ?vtx ?A"
    by (rule block_sum_lin [OF ne]) (simp add: tx_mint_def tx_fee_def tx_in_def)
  have sup: "bi_nMoneySupply bi' = swrap 64 (bi_nMoneySupply bp + ?D)"
    unfolding f(1) u(6,7) swrap_sum_diff D ..
  have "bi_nMint bi' = swrap 64 (?D + block_sum tx_fee ?tx ?h ?vtx ?A)"
    unfolding f(2) u(5-7) swrap_diff_sum D ..
  then have mint: "bi_nMint bi' = swrap 64 (block_sum tx_mint ?tx ?h ?vtx ?A)" using M by simp
  show thesis
    by (rule that [of q bp us "ca_nFees acc"])
      (use k u f sup mint in \<open>auto simp: SetBestBlock_hash\<close>)
qed

end

context coins_view
begin

text \<open>Any view of the set after a block, with the undo data of the block, leads back to the set before it.\<close>

lemma disconnect_after:
  assumes c: "cinv c" and b: "block_ok txid h vtx (cabs c)" and a: "abs_block txid h vtx (cabs c) = Some (us, cabs d)"
    and d: "cinv d" "cache_GetBestBlock best d = hashBlock" and v: "vtx \<noteq> []" "IsCoinBase (hd vtx)"
  shows "\<exists>c'. DisconnectBlock get best txid vtx (Some (tl us)) hashBlock hashPrev h d = Inr (True, c') \<and>
    cinv c' \<and> cabs c' = cabs c \<and> cache_hashBlock c' = hashPrev"
proof -
  from connect_disconnect [OF c b] obtain us' c1 where
    u: "update_coins_loop get txid h vtx c = Some (us', c1)" "cinv c1" "length us' = length vtx"
      "\<And>d. cinv d \<Longrightarrow> cabs d = cabs c1 \<Longrightarrow>
        \<exists>c2. disconnect_txs get txid h (rev (zip vtx us')) True d = Inr (True, c2) \<and> cinv c2 \<and> cabs c2 = cabs c"
    by blast
  have "abs_block txid h vtx (cabs c) = Some (us', cabs c1)" using c u(1) by (rule update_loop_abs)
  with a have e: "us' = us" "cabs d = cabs c1" by simp_all
  from u(4) [OF d(1) e(2)] obtain c2 where
    c2: "disconnect_txs get txid h (rev (zip vtx us)) True d = Inr (True, c2)" "cinv c2" "cabs c2 = cabs c" using e by blast
  obtain tx vtx' where tx: "vtx = tx # vtx'" using v(1) by (cases vtx) auto
  obtain u0 us0 where us: "us = u0 # us0" using u(3) e tx by (cases us) auto
  have "u0 = []" using a tx us v(2) by (auto simp: abs_update_def split: option.splits)
  then have "DisconnectBlock get best txid vtx (Some (tl us)) hashBlock hashPrev h d = Inr (True, SetBestBlock hashPrev c2)"
    using c2(1) us tx u(3) e d(2) by (simp add: DisconnectBlock_def)
  with c2 show ?thesis by (auto simp: SetBestBlock_hash)
qed

end

section \<open>A sample block\<close>

text \<open>
  A block with two transactions above the height at which \<^verbatim>\<open>CheckInputs\<close> starts to look at them, so that maturity, values
  and scripts are all checked; the hash of a transaction is its length. Proof-of-work blocks are allowed up to
  height 300000 there.
\<close>

definition length_hash :: "valtype \<Rightarrow> valtype" where
  "length_hash x = (if length x = 1 then x else [word_of_nat (length x)])"

definition sample_connect_env :: connect_env where
  "sample_connect_env = block_env.extend (sample_block_env\<lparr>be_crypto := sample_crypto\<lparr>crypto_sha256 := length_hash\<rparr>\<rparr>)
     \<lparr>ce_IsBlockValueValid = (\<lambda>_ _ _ expected mint. mint \<le> expected),
      ce_nFree = 1000000000, ce_MessageStart = [1, 2, 3, 4], ce_fully_valid = (\<lambda>k. k = sample_key), ce_decompress = sample_decompress, ce_fTxIndex = True\<rparr>"

definition late_params :: CPowParams where
  "late_params = pow_CMainParams\<lparr>par_LAST_POW_BLOCK := 300000\<rparr>"

definition late_env :: connect_env where
  "late_env = sample_connect_env\<lparr>be_params := late_params\<rparr>"

definition connect_block :: CBlock where
  "connect_block = pow_block\<lparr>blk_vtx := [sample_coinbase, sample_tx]\<rparr>"

definition connect_prev :: CBlockIndex where
  "connect_prev = (sample_entry None None 270000 100)\<lparr>bi_nMoneySupply := 50\<rparr>"

definition connect_entry :: CBlockIndex where
  "connect_entry = (sample_entry (Some 3) None 270001 101)\<lparr>bi_nStatus := 11\<rparr>"

definition connect_index :: index_state where
  "connect_index = \<lparr>st_mapBlockIndex = [3 \<mapsto> connect_prev], st_chainActive = [Some 3], st_setBlockIndexCandidates = [],
     st_mapBlocksUnlinked = [], st_nBlockSequenceId = 1, st_pindexBestHeader = None, st_pindexBestInvalid = None, st_setDirtyBlockIndex = {},
     st_setStakeSeen = {}, st_mapProofOfStake = Map.empty\<rparr>"

definition empty_store :: chain_store where
  "empty_store = \<lparr>cs_files = no_files, cs_blocktree = Map.empty, cs_txindex = Map.empty, cs_mapStakeSpent = Map.empty, cs_mapRejectedBlocks = Map.empty\<rparr>"

lemma sample_txids:
  "GetHash length_hash sample_coinbase = 63" "GetHash length_hash sample_tx = 70"
  by (simp_all add: GetHash_def Hash_def length_hash_def sample_coinbase_def sample_tx_def ser_CTransaction_def ser_vector_def ser_CTxIn_def ser_CTxOut_def ser_COutPoint_def
      ser_int_def ser_word_def ser_bytes_def GetSizeOfCompactSize_def length_WriteCompactSize)

lemma sample_update_coinbase:
  "abs_update (GetHash length_hash) sample_coinbase 270001 A = Some ([], A(63 \<mapsto> FromTx sample_coinbase 270001))"
  by (simp add: abs_update_def sample_txids coins_opt_def) (simp add: FromTx_def sample_coinbase_def ClearUnspendable_def Cleanup_def Cleanup_vout_def IsPruned_def CTxOut_IsNull_def IsUnspendable_def)

lemma connect_env_simps [simp]:
  "block_env.truncate sample_connect_env = sample_block_env\<lparr>be_crypto := sample_crypto\<lparr>crypto_sha256 := length_hash\<rparr>\<rparr>"
  "crypto_sha256 (be_crypto sample_connect_env) = length_hash"
  "be_HashGenesisBlock sample_connect_env = 1" "be_params sample_connect_env = pow_CMainParams"
  by (simp_all add: sample_connect_env_def block_env.extend_def block_env.truncate_def sample_block_env_def)

lemma connect_simps [simp]:
  "block_env.truncate late_env = sample_block_env\<lparr>be_crypto := sample_crypto\<lparr>crypto_sha256 := length_hash\<rparr>, be_params := late_params\<rparr>"
  "crypto_sha256 (be_crypto late_env) = length_hash" "blk_vtx connect_block = [sample_coinbase, sample_tx]"
  "bi_pprev connect_entry = Some 3" "bi_nHeight connect_entry = 270001" "bi_nHeight connect_prev = 270000" "bi_nMoneySupply connect_prev = 50"
  "be_HashGenesisBlock late_env = 1" "be_params late_env = late_params"
  "\<not> block_IsProofOfStake connect_block"
  by (simp_all add: late_env_def sample_connect_env_def connect_block_def connect_entry_def connect_prev_def sample_entry_def block_env.extend_def block_env.truncate_def sample_block_env_def
      pow_block_def CBlockHeader.extend_def CBlockHeader_null_def block_IsProofOfStake_def sample_tx_simps)

text \<open>The second transaction passes all the checks of its inputs.\<close>

lemma sample_tx_script: "CScriptCheck cr sample_tx 0 flags [OP_1]"
proof -
  have "CScriptNum_serialize 1 = [1]" by (simp add: CScriptNum_serialize_def scriptnum_bytes.simps)
  then show ?thesis
    by (simp add: CScriptCheck_def VerifyScript_def sample_tx_def tx_env_def EvalScript_def init_state_def
        eval_loop_op is_disabled_def fExec_def exec_opcode_def exec_push_num_def count_op_def has_flag_def
        fRequireMinimal_def IsPayToScriptHash_def)
qed

lemma sample_fetch_in:
  assumes "view_inv c" "view_abs c 7 = Some sample_coins"
  obtains c' where "FetchCoins tip_get c 7 = (Some sample_coins, c')" "view_inv c'" "view_abs c' = view_abs c"
proof -
  obtain r c' where f: "FetchCoins tip_get c 7 = (r, c')" by (cases "FetchCoins tip_get c 7")
  note k = db.cache.fetch_correct(1-3) [OF assms(1) f]
  have "r = Some sample_coins" using k(3) assms(2) by (auto simp: coins_opt_def split: option.splits if_splits)
  with f k(1,2) that show ?thesis by blast
qed

lemma sample_tx_inputs:
  assumes "view_inv c" "view_abs c 7 = Some sample_coins" "50 \<le> par_MaxMoneyOut params"
  shows "\<exists>c'. CheckInputs cr params tip_get 270000 scripts flags sample_tx c = (Inr (), c') \<and> view_inv c' \<and> view_abs c' = view_abs c"
proof -
  have x: "coins_vout sample_coins = [\<lparr>txout_nValue = 50, txout_scriptPubKey = [OP_1]\<rparr>]"
    "\<not> coins_fCoinBase sample_coins" "\<not> coins_fCoinStake sample_coins" "IsAvailable sample_coins 0"
    by (simp_all add: sample_coins_def IsAvailable_def CTxOut_IsNull_def)
  obtain c1 where c1: "FetchCoins tip_get c 7 = (Some sample_coins, c1)" "view_inv c1" "view_abs c1 = view_abs c"
    using sample_fetch_in [OF assms(1,2)] .
  obtain c2 where c2: "FetchCoins tip_get c1 7 = (Some sample_coins, c2)" "view_inv c2" "view_abs c2 = view_abs c"
    using sample_fetch_in [OF c1(2)] assms(2) c1(3) by metis
  obtain c3 where c3: "FetchCoins tip_get c2 7 = (Some sample_coins, c3)" "view_inv c3" "view_abs c3 = view_abs c"
    using sample_fetch_in [OF c2(2)] assms(2) c2(3) by metis
  have "HaveInputs tip_get c sample_tx = (True, c1)"
    using c1(1) x(4) by (simp add: HaveInputs_def sample_tx_simps)
  moreover have "CheckInputs_values params tip_get 270001 (tx_vin sample_tx) 0 c1 = (Inr 50, c2)"
    using c2(1) x assms(3) by (simp add: sample_tx_simps MoneyRange_def swrap_def)
  moreover have "CheckInputs_fees params sample_tx 50 = Inr ()"
    using assms(3) by (simp add: CheckInputs_fees_def sample_tx_simps swrap_def MoneyRange_def)
  moreover have "CheckInputs_scripts cr tip_get flags sample_tx 0 c2 = (Inr (), c3)"
    using c3(1) x sample_tx_script by (simp add: CheckInputs_scripts.simps sample_tx_simps)
  ultimately show ?thesis using c2(2,3) c3(2,3) by (cases scripts) (simp_all add: CheckInputs_def sample_tx_simps(3))
qed

lemma connect_loop:
  assumes "ca_nSigOps acc = 0" "ca_nFees acc = 0" "ca_nValueIn acc = 0" "ca_nValueOut acc = 0" "ca_vtxundo acc = []"
  shows "\<exists>acc' v us. connect_txs (sample_block_env\<lparr>be_crypto := sample_crypto\<lparr>crypto_sha256 := length_hash\<rparr>, be_params := late_params\<rparr>) tip_get False scripts flags 270000 270001 True
      [sample_coinbase, sample_tx] acc sample_view = (Inr acc', v) \<and>
    ca_nFees acc' = 8 \<and> ca_nValueIn acc' = 50 \<and> ca_nValueOut acc' = 50 \<and> abs_spends (tx_vin sample_tx) [7 \<mapsto> sample_coins] = Some (us, Map.empty) \<and> ca_vtxundo acc' = [us]"
proof -
  let ?env = "sample_block_env\<lparr>be_crypto := sample_crypto\<lparr>crypto_sha256 := length_hash\<rparr>, be_params := late_params\<rparr>"
  let ?id = "GetHash length_hash"
  have tx: "be_txid ?env = ?id" by simp
  obtain v1 where v1: "UpdateCoins tip_get ?id sample_coinbase 270001 sample_view = Some ([], v1)" "view_inv v1"
      "view_abs v1 = [7 \<mapsto> sample_coins, 63 \<mapsto> FromTx sample_coinbase 270001]"
    using db.cache.update_refines [OF sample_view_inv, of ?id sample_coinbase 270001] sample_update_coinbase [of "[7 \<mapsto> sample_coins]"] by auto
  have un: "unspent (view_abs v1) \<lparr>outpoint_hash = 7, outpoint_n = 0\<rparr> = Some \<lparr>txout_nValue = 50, txout_scriptPubKey = [OP_1]\<rparr>"
    by (simp add: v1(3) unspent_def sample_coins_def IsAvailable_def CTxOut_IsNull_def)
  obtain b v2 where h: "HaveInputs tip_get v1 sample_tx = (b, v2)" by (cases "HaveInputs tip_get v1 sample_tx")
  note hi = db.cache.have_inputs_correct [OF v1(2) h]
  have b: "b" using hi(3) un by (simp add: sample_tx_simps)
  obtain v3 where v3: "GetValueIn tip_get v2 sample_tx = (Some 50, v3)" "view_inv v3" "view_abs v3 = view_abs v1"
    using db.cache.value_in_loop_correct [OF hi(1), of "tx_vin sample_tx" 0] un hi(2) by (auto simp: GetValueIn_def sample_tx_simps)
  obtain us A where us: "abs_spends (tx_vin sample_tx) (view_abs v1) = Some (us, A)" "abs_spends (tx_vin sample_tx) [7 \<mapsto> sample_coins] = Some (us, Map.empty)"
    using sample_spend [of "[63 \<mapsto> FromTx sample_coinbase 270001]"] sample_spend [of Map.empty] v1(3) by (auto simp: fun_upd_twist)
  have m: "50 \<le> par_MaxMoneyOut (be_chain ?env)"
    by (simp add: late_params_def pow_CMainParams_def CMainParams_def CChainParams.extend_def CChainParams.truncate_def)
  obtain v5 where v5: "CheckInputs (be_crypto ?env) (be_chain ?env) tip_get 270000 scripts flags sample_tx v3 = (Inr (), v5)"
      "view_inv v5" "view_abs v5 = view_abs v1"
    using sample_tx_inputs [OF v3(2) _ m, of "be_crypto ?env" scripts flags] v1(3) v3(3) by auto
  obtain v4 where v4: "UpdateCoins tip_get ?id sample_tx 270001 v5 = Some (us, v4)"
    using db.cache.update_refines [OF v5(2), of ?id sample_tx 270001] us v5(3) by (auto simp: abs_update_def)
  have so: "GetLegacySigOpCount sample_coinbase = 0" "GetLegacySigOpCount sample_tx = 0"
    by (simp_all add: GetLegacySigOpCount_def sample_coinbase_def sample_tx_def GetSigOpCount_def GetSigOpCount_loop.simps GetOp2_data_def)
  have vo: "GetValueOut sample_coinbase = Inr 8" by (simp add: GetValueOut_def sample_coinbase_def swrap_def)
  show ?thesis
    using assms v1(1) v4 h b v3(1) us(2) v5(1)
    by (simp add: connect_tx_def Let_def so vo tx connect_inputs_def sample_tx_simps swrap_def)
qed

lemma connect_undo_length: "length (ser_CBlockUndo (\<lambda>k. k = sample_key) [fst (the (abs_spends (tx_vin sample_tx) [7 \<mapsto> sample_coins]))]) = 7"
  using sample_spend [of Map.empty]
  by (simp add: ser_CBlockUndo_def ser_vector_def ser_CTxInUndo_def undo_code_def ser_CTxOutCompressor_def
      WriteVarInt_int_def WriteVarInt_def varint_tmp.simps CompressAmount_def CompressAmount_loop.simps length_WriteCompactSize
      GetSizeOfCompactSize_def ser_script_compressed_def Compress_def IsToKeyID_def IsToScriptID_def IsToPubKey_def)

lemma connect_undo_room: "undo_room late_env [fst (the (abs_spends (tx_vin sample_tx) [7 \<mapsto> sample_coins]))] connect_entry no_files"
  using connect_undo_length
  by (simp add: undo_room_def connect_entry_def sample_entry_def late_env_def sample_connect_env_def block_env.extend_def no_files_def info_at_def CBlockFileInfo_null_def)

lemma connect_write_undo:
  assumes "undo_room late_env us bi fs" "preallocate 1000000000 UNDOFILE_CHUNK_SIZE (bfi_nUndoSize (info_at fs (nat (bi_nFile bi))))
      (bfi_nUndoSize (info_at fs (nat (bi_nFile bi))) + word_of_nat (length (ser_CBlockUndo (\<lambda>k. k = sample_key) us) + 40)) (fs_rev fs (nat (bi_nFile bi))) \<noteq> None"
  shows "\<exists>bi' fs'. write_undo late_env us q bi state fs = Inr (bi', fs')"
proof -
  let ?k = "nat (bi_nFile bi)"
  have fv: "ce_fully_valid late_env = (\<lambda>k. k = sample_key)" "ce_nFree late_env = 1000000000"
    by (simp_all add: late_env_def sample_connect_env_def block_env.extend_def)
  obtain ok pos fs1 where f: "FindUndoPos 1000000000 ?k (word_of_nat (length (ser_CBlockUndo (\<lambda>k. k = sample_key) us) + 40)) fs = (ok, pos, fs1)"
    by (metis prod_cases3)
  have "ok" using f assms(2) by (auto simp: FindUndoPos_def Let_def split: option.splits)
  moreover obtain pos' fs2 where "undo_WriteToDisk length_hash (\<lambda>k. k = sample_key) (ce_MessageStart late_env) us pos q fs1 = Some (pos', fs2)"
    using store_undo [OF _ _ _ f, of "ce_MessageStart late_env" length_hash q] assms(1) fv by (auto simp: undo_room_def)
  ultimately show ?thesis using f fv by (auto simp: write_undo_def)
qed

lemma connect_hash: "block_GetHash (be_sph sample_block_env) connect_block = 0"
  by (simp add: block_GetHash_def HashQuark_def sample_block_env_def kernel_sph_def Let_def quark_bit_def trim256_def)

lemma ConnectBlock_finish_intro:
  assumes "Option.bind (chain_tip (st_chainActive st)) (st_mapBlockIndex st) = Some tip"
    and "b2 = bi\<lparr>bi_nMoneySupply := swrap 64 (bi_nMoneySupply bp + ca_nValueOut acc - ca_nValueIn acc),
           bi_nMint := swrap 64 (swrap 64 (bi_nMoneySupply bp + ca_nValueOut acc - ca_nValueIn acc) - bi_nMoneySupply bp + ca_nFees acc)\<rparr>"
    and "ce_IsBlockValueValid env (st_mapBlockIndex st) (st_chainActive st) block
           (expected_mint (be_chain (block_env.truncate env)) block tip bp (ca_nFees acc)) (bi_nMint b2)"
    and "write_undo env (ca_vtxundo acc) q b2 state (cs_files cs) = Inr (b3, fs)"
  shows "\<exists>state' bi' dirty cs' view'. ConnectBlock_finish env False block (Some h) bi q bp acc state st cs view = Some (True, state', bi', dirty, cs', view')"
proof -
  let ?s = "swrap 64 (bi_nMoneySupply bp + ca_nValueOut acc - ca_nValueIn acc)"
  have e: "bi\<lparr>bi_nMoneySupply := ?s, bi_nMint := swrap 64 (bi_nMoneySupply (bi\<lparr>bi_nMoneySupply := ?s\<rparr>) - bi_nMoneySupply bp + ca_nFees acc)\<rparr> = b2"
    using assms(2) by simp
  show ?thesis unfolding ConnectBlock_finish_def Let_def e using assms(1,3,4) by simp
qed

lemma sample_connect:
  "\<exists>state' bi' dirty cs' view'. ConnectBlock late_env tip_get (cache_GetBestBlock DB_GetBestBlock) connect_block (Some 40) connect_entry False True
     CValidationState_new connect_index empty_store sample_view = Some (True, state', bi', dirty, cs', view')"
proof -
  define acc where "acc = \<lparr>ca_nFees = 0, ca_nValueIn = 0, ca_nValueOut = 0, ca_nSigOps = 0,
     ca_pos = CDiskBlockPos.extend (GetBlockPos connect_entry) \<lparr>dtp_nTxOffset = word_of_nat (GetSizeOfCompactSize (length (blk_vtx connect_block)))\<rparr>,
     ca_vPos = [], ca_vtxundo = []\<rparr>"
  let ?env = "sample_block_env\<lparr>be_crypto := sample_crypto\<lparr>crypto_sha256 := length_hash\<rparr>, be_params := late_params\<rparr>"
  have acc0: "ca_nSigOps acc = 0" "ca_nFees acc = 0" "ca_nValueIn acc = 0" "ca_nValueOut acc = 0" "ca_vtxundo acc = []" by (simp_all add: acc_def)
  obtain acc' v us where l: "connect_txs ?env tip_get False (script_checks ?env connect_entry) (script_flags ?env [3 \<mapsto> connect_prev] connect_block connect_entry 3)
      270000 270001 True [sample_coinbase, sample_tx] acc sample_view = (Inr acc', v)" "ca_nFees acc' = 8" "ca_nValueIn acc' = 50" "ca_nValueOut acc' = 50"
    "ca_vtxundo acc' = [us]" "abs_spends (tx_vin sample_tx) [7 \<mapsto> sample_coins] = Some (us, Map.empty)"
    using connect_loop [of acc "script_checks ?env connect_entry" "script_flags ?env [3 \<mapsto> connect_prev] connect_block connect_entry 3"] acc0 by blast
  have strict: "strict_p2sh connect_entry = False" by (simp add: strict_p2sh_def connect_entry_def sample_entry_def block_time_def)
  have best: "cache_GetBestBlock (cache_GetBestBlock DB_GetBestBlock) sample_view = 3"
    by (simp add: cache_GetBestBlock_def sample_view_def cache_new_def DB_GetBestBlock_def sample_db_def)

  have idx: "st_mapBlockIndex connect_index = [3 \<mapsto> connect_prev]" "st_chainActive connect_index = [Some 3]" by (simp_all add: connect_index_def)
  have rej: "empty_store\<lparr>cs_mapRejectedBlocks := cs_mapRejectedBlocks empty_store\<rparr> = empty_store" by (simp add: empty_store_def)
  have e: "ConnectBlock late_env tip_get (cache_GetBestBlock DB_GetBestBlock) connect_block (Some 40) connect_entry False True
     CValidationState_new connect_index empty_store sample_view =
     ConnectBlock_finish late_env False connect_block (Some 40) connect_entry 3 connect_prev acc' CValidationState_new connect_index empty_store v"
    using l(1) unfolding acc_def
    by (simp add: ConnectBlock_def Let_def best connect_hash strict late_params_def pow_CMainParams_def CMainParams_def CChainParams.extend_def idx rej del: connect_txs.simps)
  have w: "\<exists>bi' fs'. write_undo late_env [us] 3 bi CValidationState_new no_files = Inr (bi', fs')" if "bi_nFile bi = 0" for bi
  proof (rule connect_write_undo)
    show "undo_room late_env [us] bi no_files"
      using connect_undo_room l(6) that by (simp add: undo_room_def connect_entry_def sample_entry_def)
    show "preallocate 1000000000 UNDOFILE_CHUNK_SIZE (bfi_nUndoSize (info_at no_files (nat (bi_nFile bi))))
      (bfi_nUndoSize (info_at no_files (nat (bi_nFile bi))) + word_of_nat (length (ser_CBlockUndo (\<lambda>k. k = sample_key) [us]) + 40)) (fs_rev no_files (nat (bi_nFile bi))) \<noteq> None"
      using l(6) connect_undo_length that by (simp add: no_files_def info_at_def CBlockFileInfo_null_def preallocate_def CheckDiskSpace_def Let_def)
  qed
  define b2 where "b2 = connect_entry\<lparr>bi_nMoneySupply := 50, bi_nMint := 8\<rparr>"
  obtain b3 fs where b3: "write_undo late_env [us] 3 b2 CValidationState_new no_files = Inr (b3, fs)"
    using w [of b2] by (auto simp: b2_def connect_entry_def sample_entry_def)
  have m: "ce_IsBlockValueValid late_env [3 \<mapsto> connect_prev] [Some 3] connect_block
      (expected_mint (CChainParams.truncate late_params) connect_block connect_prev connect_prev 8) 8"
    by (simp add: late_env_def sample_connect_env_def block_env.extend_def expected_mint_def Let_def late_params_def pow_CMainParams_def CMainParams_def CChainParams.truncate_def
        CChainParams.extend_def GetBlockValue_def base_subsidy_def swrap_def)
  show ?thesis unfolding e
  proof (rule ConnectBlock_finish_intro)
    show "Option.bind (chain_tip (st_chainActive connect_index)) (st_mapBlockIndex connect_index) = Some connect_prev"
      by (simp add: idx chain_tip_def)
    show "b2 = connect_entry\<lparr>bi_nMoneySupply := swrap 64 (bi_nMoneySupply connect_prev + ca_nValueOut acc' - ca_nValueIn acc'),
        bi_nMint := swrap 64 (swrap 64 (bi_nMoneySupply connect_prev + ca_nValueOut acc' - ca_nValueIn acc') - bi_nMoneySupply connect_prev + ca_nFees acc')\<rparr>"
      by (simp add: b2_def l swrap_def)
    show "write_undo late_env (ca_vtxundo acc') 3 b2 CValidationState_new (cs_files empty_store) = Inr (b3, fs)"
      using b3 by (simp add: l empty_store_def)
  qed (use m in \<open>simp add: idx l b2_def sample_block_env_def\<close>)
qed

lemma connect_abs:
  "abs_block (GetHash length_hash) 270001 [sample_coinbase, sample_tx] [7 \<mapsto> sample_coins] =
     Some ([[], fst (the (abs_spends (tx_vin sample_tx) [7 \<mapsto> sample_coins]))], [63 \<mapsto> FromTx sample_coinbase 270001, 70 \<mapsto> FromTx sample_tx 270001])"
proof -
  have "\<not> IsPruned (FromTx sample_tx 270001)"
    by (simp add: FromTx_def sample_tx_def ClearUnspendable_def Cleanup_def Cleanup_vout_def IsPruned_def CTxOut_IsNull_def IsUnspendable_def)
  then have "abs_update (GetHash length_hash) sample_tx 270001 [7 \<mapsto> sample_coins, 63 \<mapsto> FromTx sample_coinbase 270001] =
      Some (fst (the (abs_spends (tx_vin sample_tx) [7 \<mapsto> sample_coins])), [63 \<mapsto> FromTx sample_coinbase 270001, 70 \<mapsto> FromTx sample_tx 270001])"
    using sample_spend [of "[63 \<mapsto> FromTx sample_coinbase 270001]"] sample_spend [of Map.empty]
    by (auto simp: abs_update_def sample_txids coins_opt_def fun_upd_twist [of "7 :: u256" 63])
  then show ?thesis by (simp add: sample_update_coinbase)
qed

lemma connect_money: "money_ok (be_chain (block_env.truncate late_env))"
  by (simp add: money_ok_def sample_block_env_def late_params_def pow_CMainParams_def CMainParams_def CChainParams.extend_def CChainParams.truncate_def)

section \<open>Properties\<close>

text \<open>
  C5: A block that \<^verbatim>\<open>ConnectBlock\<close> accepts extends the block at which the view is; the view afterwards
  represents exactly the set of unspent outputs that the transactions of the block, applied one after
  the other, make of the set before, and stands at the new block. Every input was unspent when its
  transaction was reached; with a predecessor at height 270000 or more it was mature, the inputs covered the outputs unless
  the transaction is a coinstake, and from the last checkpoint on its script succeeded.
\<close>

theorem connect_block_refines:
  assumes "view_inv view" "money_ok (be_chain (block_env.truncate env))"
    and "ConnectBlock env tip_get best block (Some hash) bi False already state st cs view = Some (True, state', bi', dirty, cs', view')"
    and "be_hash (block_env.truncate env) block \<noteq> be_HashGenesisBlock env"
  shows "\<exists>q bp us. bi_pprev bi = Some q \<and> st_mapBlockIndex st q = Some bp \<and> cache_GetBestBlock best view = q \<and>
    abs_block (be_txid (block_env.truncate env)) (int (bi_nHeight bi)) (blk_vtx block) (view_abs view) = Some (us, view_abs view') \<and>
    view_inv view' \<and> cache_hashBlock view' = hash \<and>
    block_all (tx_valid_at (block_env.truncate env) (script_checks (block_env.truncate env) bi)
       (script_flags (block_env.truncate env) (st_mapBlockIndex st) block bi q) (int (bi_nHeight bp)))
       (be_txid (block_env.truncate env)) (int (bi_nHeight bi)) (blk_vtx block) (view_abs view)"
  by (rule db.cache.connect_block_sound [OF assms]) blast

theorem connect_block_refines_witness:
  "\<exists>state' bi' dirty cs' view'. ConnectBlock late_env tip_get (cache_GetBestBlock DB_GetBestBlock) connect_block (Some 40)
     connect_entry False True CValidationState_new connect_index empty_store sample_view = Some (True, state', bi', dirty, cs', view') \<and>
   view_abs view' = [63 \<mapsto> FromTx sample_coinbase 270001, 70 \<mapsto> FromTx sample_tx 270001] \<and> cache_hashBlock view' = 40 \<and>
   input_spendable (CChainParams.truncate late_params) 270001 [7 \<mapsto> sample_coins, 63 \<mapsto> FromTx sample_coinbase 270001] (hd (tx_vin sample_tx))"
proof -
  obtain state' bi' dirty cs' view' where r: "ConnectBlock late_env tip_get (cache_GetBestBlock DB_GetBestBlock) connect_block (Some 40)
     connect_entry False True CValidationState_new connect_index empty_store sample_view = Some (True, state', bi', dirty, cs', view')"
    using sample_connect by blast
  from connect_block_refines [OF sample_view_inv connect_money r] connect_abs
  have "view_abs view' = [63 \<mapsto> FromTx sample_coinbase 270001, 70 \<mapsto> FromTx sample_tx 270001] \<and> cache_hashBlock view' = 40 \<and>
      input_spendable (CChainParams.truncate late_params) 270001 [7 \<mapsto> sample_coins, 63 \<mapsto> FromTx sample_coinbase 270001] (hd (tx_vin sample_tx))"
    by (auto simp: connect_hash connect_index_def sample_update_coinbase tx_valid_at_def sample_tx_simps split: option.splits)
  with r show ?thesis by blast
qed

text \<open>
  C8: What a connected block creates, the outputs of its coinbase and what its coinstakes pay beyond
  their inputs, is recorded as its mint, which was compared with the block's allowance; and the
  recorded money supply bounds the value of all unspent outputs, if it did so at the previous block
  and does not overflow.
\<close>

theorem money_supply_bounds_coins:
  assumes "view_inv view" "money_ok (be_chain (block_env.truncate env))"
    and "ConnectBlock env tip_get best block (Some hash) bi False already state st cs view = Some (True, state', bi', dirty, cs', view')"
    and "be_hash (block_env.truncate env) block \<noteq> be_HashGenesisBlock env"
    and "bi_pprev bi = Some q" "st_mapBlockIndex st q = Some bp"
    and "utxo_nonneg (view_abs view)" "total_value (view_abs view) \<le> bi_nMoneySupply bp"
    and "in_sint 64 (bi_nMoneySupply bp + block_sum (\<lambda>A tx. tx_out tx - tx_in A tx)
           (be_txid (block_env.truncate env)) (int (bi_nHeight bi)) (blk_vtx block) (view_abs view))"
  shows "utxo_nonneg (view_abs view') \<and> total_value (view_abs view') \<le> bi_nMoneySupply bi' \<and>
    bi_nMint bi' = swrap 64 (block_sum tx_mint (be_txid (block_env.truncate env)) (int (bi_nHeight bi)) (blk_vtx block) (view_abs view)) \<and>
    (\<exists>tip. Option.bind (chain_tip (st_chainActive st)) (st_mapBlockIndex st) = Some tip \<and>
       ce_IsBlockValueValid env (st_mapBlockIndex st) (st_chainActive st) block
         (expected_mint (be_chain (block_env.truncate env)) block tip bp
           (swrap 64 (block_sum tx_fee (be_txid (block_env.truncate env)) (int (bi_nHeight bi)) (blk_vtx block) (view_abs view))))
         (bi_nMint bi'))"
proof (rule db.cache.connect_block_sound [OF assms(1-4)])
  fix q' bp' us fees
  let ?D = "block_sum (\<lambda>A tx. tx_out tx - tx_in A tx) (be_txid (block_env.truncate env)) (int (bi_nHeight bi)) (blk_vtx block) (view_abs view)"
  assume k: "bi_pprev bi = Some q'" "st_mapBlockIndex st q' = Some bp'"
    "abs_block (be_txid (block_env.truncate env)) (int (bi_nHeight bi)) (blk_vtx block) (view_abs view) = Some (us, view_abs view')"
    "block_all (tx_valid_at (block_env.truncate env) (script_checks (block_env.truncate env) bi)
       (script_flags (block_env.truncate env) (st_mapBlockIndex st) block bi q') (int (bi_nHeight bp')))
       (be_txid (block_env.truncate env)) (int (bi_nHeight bi)) (blk_vtx block) (view_abs view)"
    "bi_nMoneySupply bi' = swrap 64 (bi_nMoneySupply bp' + ?D)"
  assume r: "bi_nMint bi' = swrap 64 (block_sum tx_mint (be_txid (block_env.truncate env)) (int (bi_nHeight bi)) (blk_vtx block) (view_abs view))"
    "fees = swrap 64 (block_sum tx_fee (be_txid (block_env.truncate env)) (int (bi_nHeight bi)) (blk_vtx block) (view_abs view))"
    "\<exists>tip. Option.bind (chain_tip (st_chainActive st)) (st_mapBlockIndex st) = Some tip \<and>
       ce_IsBlockValueValid env (st_mapBlockIndex st) (st_chainActive st) block
         (expected_mint (be_chain (block_env.truncate env)) block tip bp' fees) (bi_nMint bi')"
  have p: "bp' = bp" using k(1,2) assms(5,6) by simp
  have s: "bi_nMoneySupply bi' = bi_nMoneySupply bp + ?D" using k(5) p swrap_id [OF _ assms(9)] by simp
  have "\<forall>tx \<in> set (blk_vtx block). \<forall>out \<in> set (tx_vout tx). 0 \<le> txout_nValue out"
    by (rule block_all_mono [OF k(4)]) (simp add: tx_valid_at_def)
  from abs_block_value [OF k(3) assms(7) this] assms(8) s r p show ?thesis by auto
qed

theorem money_supply_bounds_coins_witness:
  "\<exists>state' bi' dirty cs' view'. ConnectBlock late_env tip_get (cache_GetBestBlock DB_GetBestBlock) connect_block (Some 40)
     connect_entry False True CValidationState_new connect_index empty_store sample_view = Some (True, state', bi', dirty, cs', view') \<and>
   total_value (view_abs view') \<le> bi_nMoneySupply bi' \<and> bi_nMint bi' = 8"
proof -
  obtain state' bi' dirty cs' view' where r: "ConnectBlock late_env tip_get (cache_GetBestBlock DB_GetBestBlock) connect_block (Some 40)
     connect_entry False True CValidationState_new connect_index empty_store sample_view = Some (True, state', bi', dirty, cs', view')"
    using sample_connect by blast
  have nn: "utxo_nonneg [7 \<mapsto> sample_coins]"
    by (simp add: utxo_nonneg_def coins_nonneg_def sample_coins_def out_value_def)
  have "total_value (Map.empty :: utxo) = 0" by (simp add: total_value_def opt_value_def)
  then have tv: "total_value [7 \<mapsto> sample_coins] = 50"
    unfolding total_value_upd by (simp add: opt_value_def coins_value_def sample_coins_def out_value_def CTxOut_IsNull_def)
  have un: "unspent (A(7 \<mapsto> sample_coins)) \<lparr>outpoint_hash = 7, outpoint_n = 0\<rparr> = Some \<lparr>txout_nValue = 50, txout_scriptPubKey = [OP_1]\<rparr>" for A
    by (simp add: unspent_def sample_coins_def IsAvailable_def CTxOut_IsNull_def)
  have upd: "\<exists>us A. abs_update (GetHash length_hash) sample_tx 270001 [7 \<mapsto> sample_coins, 63 \<mapsto> FromTx sample_coinbase 270001] = Some (us, A)"
    using connect_abs by (auto simp: sample_update_coinbase split: option.splits)
  have in50: "tx_in [7 \<mapsto> sample_coins, 63 \<mapsto> FromTx sample_coinbase 270001] sample_tx = 50"
    using un [of "[63 \<mapsto> FromTx sample_coinbase 270001]"] by (simp add: tx_in_def value_in_def sample_tx_simps fun_upd_twist [of "7 :: u256" 63])
  have out: "tx_out sample_tx = 42" "tx_out sample_coinbase = 8" by (simp_all add: tx_out_def sample_tx_def sample_coinbase_def)
  have sums: "block_sum (\<lambda>A tx. tx_out tx - tx_in A tx) (GetHash length_hash) 270001 [sample_coinbase, sample_tx] [7 \<mapsto> sample_coins] = 0"
    "block_sum tx_mint (GetHash length_hash) 270001 [sample_coinbase, sample_tx] [7 \<mapsto> sample_coins] = 8"
    using upd in50 out by (auto simp: sample_update_coinbase tx_mint_def sample_tx_simps) (simp_all add: tx_in_def)
  have "total_value (view_abs view') \<le> bi_nMoneySupply bi' \<and> bi_nMint bi' = 8"
    using money_supply_bounds_coins [OF sample_view_inv connect_money r, of 3 connect_prev] nn tv sums
    by (simp add: connect_hash connect_index_def in_sint_def swrap_def)
  with r show ?thesis by blast
qed

text \<open>
  C7: A connected block that begins with a coinbase, repeats no id with unspent outputs, does not take the last output
  of a coinstake's record (\<open>block_ok\<close>) and whose undo data can be serialized and has room can be taken back: the undo data that \<^verbatim>\<open>ConnectBlock\<close> wrote is read from the
  position in the block's entry, and \<^verbatim>\<open>DisconnectBlock\<close> with it is clean and restores the set of unspent
  outputs from before. The blocks and undo data that were in the files are still there.
\<close>

theorem connected_block_disconnects:
  assumes "view_inv view" "money_ok (be_chain (block_env.truncate env))"
    and "ConnectBlock env tip_get best block (Some hash) bi False already state st cs view = Some (True, state', bi', dirty, cs', view')"
    and "be_hash (block_env.truncate env) block \<noteq> be_HashGenesisBlock env"
    and "bi_pprev bi = Some q"
    and "block_ok (be_txid (block_env.truncate env)) (int (bi_nHeight bi)) (blk_vtx block) (view_abs view)"
    and "blk_vtx block \<noteq> []" "IsCoinBase (hd (blk_vtx block))" "hash \<noteq> 0"
    and "abs_block (be_txid (block_env.truncate env)) (int (bi_nHeight bi)) (blk_vtx block) (view_abs view) = Some (us, A)"
    and "valid_CBlockUndo (tl us)" "key_compression (ce_fully_valid env) (ce_decompress env)"
    and "CDiskBlockPos_IsNull (GetUndoPos bi)" "undo_room env (tl us) bi (cs_files cs)"
  shows "\<exists>view''. DisconnectBlock tip_get best (be_txid (block_env.truncate env)) (blk_vtx block)
      (undo_ReadFromDisk (crypto_sha256 (be_crypto env)) (ce_fully_valid env) (ce_decompress env) (cs_files cs') (GetUndoPos bi') q)
      hash q (int (bi_nHeight bi)) view' = Inr (True, view'') \<and>
    view_inv view'' \<and> view_abs view'' = view_abs view \<and> cache_hashBlock view'' = q \<and> files_keep (cs_files cs) (cs_files cs')"
proof (rule db.cache.connect_block_sound [OF assms(1-4)])
  fix q' us' 
  assume k: "bi_pprev bi = Some q'"
    "abs_block (be_txid (block_env.truncate env)) (int (bi_nHeight bi)) (blk_vtx block) (view_abs view) = Some (us', view_abs view')"
    "view_inv view'" "cache_hashBlock view' = hash"
  assume d: "CDiskBlockPos_IsNull (GetUndoPos bi) \<Longrightarrow> undo_room env (tl us') bi (cs_files cs) \<Longrightarrow>
       undo_at (crypto_sha256 (be_crypto env)) (ce_fully_valid env) (cs_files cs') (GetUndoPos bi') q' (tl us') \<and>
       files_keep (cs_files cs) (cs_files cs')"
  have e: "q' = q" "us' = us" using k(1,2) assms(5,10) by simp_all
  have u: "undo_at (crypto_sha256 (be_crypto env)) (ce_fully_valid env) (cs_files cs') (GetUndoPos bi') q (tl us)"
      "files_keep (cs_files cs) (cs_files cs')"
    using d assms(13,14) e by simp_all
  have b: "cache_GetBestBlock best view' = hash" using k(4) assms(9) by (simp add: cache_GetBestBlock_def)
  from db.cache.disconnect_after [OF assms(1,6) k(2) k(3) b assms(7,8), of q] e u(2) read_undo_at [OF u(1) assms(12,11)]
  show ?thesis by simp
qed

theorem connected_block_disconnects_witness:
  "\<exists>state' bi' dirty cs' view' view''. ConnectBlock late_env tip_get (cache_GetBestBlock DB_GetBestBlock) connect_block (Some 40)
     connect_entry False True CValidationState_new connect_index empty_store sample_view = Some (True, state', bi', dirty, cs', view') \<and>
   DisconnectBlock tip_get (cache_GetBestBlock DB_GetBestBlock) (GetHash length_hash) [sample_coinbase, sample_tx]
     (undo_ReadFromDisk length_hash (\<lambda>k. k = sample_key) sample_decompress (cs_files cs') (GetUndoPos bi') 3) 40 3 270001 view' = Inr (True, view'') \<and>
   view_abs view'' = [7 \<mapsto> sample_coins]"
proof -
  obtain state' bi' dirty cs' view' where r: "ConnectBlock late_env tip_get (cache_GetBestBlock DB_GetBestBlock) connect_block (Some 40)
     connect_entry False True CValidationState_new connect_index empty_store sample_view = Some (True, state', bi', dirty, cs', view')"
    using sample_connect by blast
  have e: "ce_fully_valid late_env = (\<lambda>k. k = sample_key)" "ce_decompress late_env = sample_decompress"
    by (simp_all add: late_env_def sample_connect_env_def block_env.extend_def)
  have "inputs_ok (tx_vin sample_tx) (A(7 \<mapsto> sample_coins))" for A
    using sample_spend [of A] sample_coin_ok by (auto simp: sample_tx_def split: option.splits)
  then have ok: "block_ok (GetHash length_hash) 270001 [sample_coinbase, sample_tx] [7 \<mapsto> sample_coins]"
    using connect_abs by (auto simp: sample_txids sample_update_coinbase fun_upd_twist [of "7 :: u256" 63] split: option.splits)
  have v: "valid_CBlockUndo [fst (the (abs_spends (tx_vin sample_tx) [7 \<mapsto> sample_coins]))]"
    using sample_spend [of Map.empty] by (simp add: valid_CBlockUndo_def valid_vector_def valid_CTxInUndo_def valid_out_def)
  have n: "CDiskBlockPos_IsNull (GetUndoPos connect_entry)"
    by (simp add: connect_entry_def sample_entry_def GetUndoPos_def CDiskBlockPos_IsNull_def CDiskBlockPos_null_def)
  have "cs_files empty_store = no_files" by (simp add: empty_store_def)
  then show ?thesis
    using connected_block_disconnects [OF sample_view_inv connect_money r, of 3] connect_abs ok v n connect_undo_room r e sample_key_compression
    by (auto simp: connect_hash)
qed

end
