(* ===== verification/Reads.thy ===== *)
theory Reads
  imports ConnectBlock Mempool
begin

text \<open>
  Looking coins up through a cache may fill the caches below it, and nothing else: what the base
  keeps under single reads it keeps under every operation that works on a cache above it.
\<close>

section \<open>What reads keep of the base\<close>

locale base_reads =
  fixes bGet :: "'b getter" and ok :: "'b \<Rightarrow> bool"
  assumes read_keeps: "ok b \<Longrightarrow> bGet b t = (r, b') \<Longrightarrow> ok b'"
begin

lemma FetchCoins_keeps: "ok (cache_base c) \<Longrightarrow> FetchCoins bGet c t = (r, c') \<Longrightarrow> ok (cache_base c')"
  by (auto simp: FetchCoins_def dest: read_keeps split: option.splits prod.splits)

lemma HaveCoins_keeps: "ok (cache_base c) \<Longrightarrow> cache_HaveCoins bGet c t = (r, c') \<Longrightarrow> ok (cache_base c')"
  by (auto simp: cache_HaveCoins_def dest: FetchCoins_keeps split: prod.splits option.splits)

lemma GetOutputFor_keeps: "ok (cache_base c) \<Longrightarrow> GetOutputFor bGet c txin = (r, c') \<Longrightarrow> ok (cache_base c')"
  by (auto simp: GetOutputFor_def dest: FetchCoins_keeps split: prod.splits option.splits if_splits)

lemma HaveInputs_loop_keeps: "ok (cache_base c) \<Longrightarrow> HaveInputs_loop bGet c vin = (r, c') \<Longrightarrow> ok (cache_base c')"
  by (induction vin arbitrary: c) (auto dest: FetchCoins_keeps split: prod.splits option.splits if_splits)

lemma HaveInputs_keeps: "ok (cache_base c) \<Longrightarrow> HaveInputs bGet c tx = (r, c') \<Longrightarrow> ok (cache_base c')"
  by (auto simp: HaveInputs_def dest: HaveInputs_loop_keeps split: if_splits)

lemma GetValueIn_loop_keeps: "ok (cache_base c) \<Longrightarrow> GetValueIn_loop bGet c vin n = (r, c') \<Longrightarrow> ok (cache_base c')"
  by (induction vin arbitrary: c n) (auto dest: GetOutputFor_keeps split: prod.splits option.splits)

lemma GetValueIn_keeps: "ok (cache_base c) \<Longrightarrow> GetValueIn bGet c tx = (r, c') \<Longrightarrow> ok (cache_base c')"
  by (auto simp: GetValueIn_def dest: GetValueIn_loop_keeps split: if_splits)

lemma P2SH_loop_keeps: "ok (cache_base c) \<Longrightarrow> GetP2SHSigOpCount_loop bGet vin n c = (r, c') \<Longrightarrow> ok (cache_base c')"
  by (induction vin arbitrary: c n) (auto dest: GetOutputFor_keeps split: prod.splits option.splits)

lemma P2SH_keeps: "ok (cache_base c) \<Longrightarrow> GetP2SHSigOpCount bGet tx c = (r, c') \<Longrightarrow> ok (cache_base c')"
  by (auto simp: GetP2SHSigOpCount_def dest: P2SH_loop_keeps split: if_splits)

lemma CheckInputs_values_keeps: "ok (cache_base c) \<Longrightarrow> CheckInputs_values params bGet h vin n c = (r, c') \<Longrightarrow> ok (cache_base c')"
  by (induction vin arbitrary: c n) (auto simp: Let_def dest: FetchCoins_keeps split: prod.splits option.splits if_splits)

lemma CheckInputs_scripts_keeps:
  "ok (cache_base c) \<Longrightarrow> CheckInputs_scripts cr bGet flags tx i c = (r, c') \<Longrightarrow> ok (cache_base c')"
proof (induction "length (tx_vin tx) - i" arbitrary: i c rule: less_induct)
  case less
  show ?case
  proof (cases "i < length (tx_vin tx)")
    case True
    let ?p = "txin_prevout (tx_vin tx ! i)"
    obtain q c1 where f: "FetchCoins bGet c (outpoint_hash ?p) = (q, c1)" by (cases "FetchCoins bGet c (outpoint_hash ?p)")
    have k: "ok (cache_base c1)" by (rule FetchCoins_keeps [OF less.prems(1) f])
    have "c' = c1 \<or> CheckInputs_scripts cr bGet flags tx (i + 1) c1 = (r, c')"
      using less.prems(2) True f by (subst (asm) CheckInputs_scripts.simps) (auto simp: Let_def split: option.splits if_splits)
    then show ?thesis using k less.hyps [of "i + 1" c1] True by auto
  qed (use less.prems in \<open>simp add: CheckInputs_scripts.simps\<close>)
qed

lemma CheckInputs_keeps:
  assumes "ok (cache_base c)" "CheckInputs cr params bGet h s flags tx c = (r, c')"
  shows "ok (cache_base c')"
proof -
  obtain b c1 where i: "HaveInputs bGet c tx = (b, c1)" by (cases "HaveInputs bGet c tx")
  have k1: "ok (cache_base c1)" by (rule HaveInputs_keeps [OF assms(1) i])
  obtain v c2 where v: "CheckInputs_values params bGet (h + 1) (tx_vin tx) 0 c1 = (v, c2)"
    by (cases "CheckInputs_values params bGet (h + 1) (tx_vin tx) 0 c1")
  have k2: "ok (cache_base c2)" by (rule CheckInputs_values_keeps [OF k1 v])
  have "c' \<in> {c, c1, c2} \<or> CheckInputs_scripts cr bGet flags tx 0 c2 = (r, c')"
    using assms(2) i v by (cases v) (auto simp: CheckInputs_def split: if_splits sum.splits)
  then show ?thesis using assms(1) k1 k2 CheckInputs_scripts_keeps by auto
qed

lemma modify_entry_keeps: "ok (cache_base c) \<Longrightarrow> modify_entry bGet c t = (e, c') \<Longrightarrow> ok (cache_base c')"
  by (auto simp: modify_entry_def dest: read_keeps split: prod.splits option.splits)

lemma ModifyCoins_keeps: "ok (cache_base c) \<Longrightarrow> ModifyCoins bGet c t f = (r, c') \<Longrightarrow> ok (cache_base c')"
  by (auto simp: ModifyCoins_def release_entry_def Let_def dest: modify_entry_keeps split: prod.splits if_splits)

lemma spend_inputs_keeps: "ok (cache_base c) \<Longrightarrow> spend_inputs bGet vin c = Some (us, c') \<Longrightarrow> ok (cache_base c')"
  by (induction vin arbitrary: c us) (auto dest: ModifyCoins_keeps split: prod.splits option.splits)

lemma UpdateCoins_keeps:
  assumes "ok (cache_base c)" "UpdateCoins bGet txid tx h c = Some (us, c')"
  shows "ok (cache_base c')"
proof -
  obtain c1 where c1: "ok (cache_base c1)" "c' = snd (ModifyCoins bGet c1 (txid tx) (\<lambda>_. ((), FromTx tx h)))"
    using assms spend_inputs_keeps [OF assms(1)] by (auto simp: UpdateCoins_def split: option.splits if_splits)
  show ?thesis using ModifyCoins_keeps [OF c1(1), of "txid tx" "\<lambda>_. ((), FromTx tx h)" "()" c'] c1(2) by (simp add: prod_eq_iff)
qed

lemma connect_inputs_keeps:
  assumes "ok (cache_base c)" "connect_inputs env bGet strict scripts flags h tx acc c = (r, c')"
  shows "ok (cache_base c')"
proof -
  obtain b c1 where h: "HaveInputs bGet c tx = (b, c1)" by (cases "HaveInputs bGet c tx")
  have k1: "ok (cache_base c1)" by (rule HaveInputs_keeps [OF assms(1) h])
  obtain n c2 where p: "(if strict then GetP2SHSigOpCount bGet tx c1 else (Some 0, c1)) = (n, c2)"
    by (cases "if strict then GetP2SHSigOpCount bGet tx c1 else (Some 0, c1)")
  have k2: "ok (cache_base c2)" using p k1 P2SH_keeps by (auto split: if_splits)
  obtain v c3 where v: "GetValueIn bGet c2 tx = (v, c3)" by (cases "GetValueIn bGet c2 tx")
  have k3: "ok (cache_base c3)" by (rule GetValueIn_keeps [OF k2 v])
  obtain q c4 where i: "CheckInputs (be_crypto env) (be_chain env) bGet h scripts flags tx c3 = (q, c4)"
    by (cases "CheckInputs (be_crypto env) (be_chain env) bGet h scripts flags tx c3")
  have k4: "ok (cache_base c4)" by (rule CheckInputs_keeps [OF k3 i])
  have "c' \<in> {c1, c2, c3, c4}"
    using assms(2) h p v i
    by (cases b; cases n; cases v; cases q) (auto simp: connect_inputs_def Let_def split: if_splits sum.splits)
  then show ?thesis using k1 k2 k3 k4 by auto
qed

lemma connect_tx_keeps:
  assumes "ok (cache_base c)" "connect_tx env bGet strict scripts flags ph h first tx acc c = (r, c')"
  shows "ok (cache_base c')"
proof -
  let ?acc = "acc\<lparr>ca_nSigOps := ca_nSigOps acc + GetLegacySigOpCount tx\<rparr>"
  obtain q c1 where i: "(if \<not> IsCoinBase tx then connect_inputs env bGet strict scripts flags ph tx ?acc c else (Inr ?acc, c)) = (q, c1)"
    by (cases "if \<not> IsCoinBase tx then connect_inputs env bGet strict scripts flags ph tx ?acc c else (Inr ?acc, c)")
  have k: "ok (cache_base c1)" using i assms(1) connect_inputs_keeps by (auto split: if_splits)
  have "c' \<in> {c, c1} \<or> (\<exists>us. UpdateCoins bGet (be_txid env) tx h c1 = Some (us, c'))"
    using assms(2) i by (cases q) (auto simp: connect_tx_def Let_def split: if_splits sum.splits option.splits)
  then show ?thesis using assms(1) k UpdateCoins_keeps by auto
qed

lemma connect_txs_keeps:
  "ok (cache_base c) \<Longrightarrow> connect_txs env bGet strict scripts flags ph h first vtx acc c = (r, c') \<Longrightarrow> ok (cache_base c')"
  by (induction vtx arbitrary: first acc c) (auto dest: connect_tx_keeps split: prod.splits sum.splits)

lemma all_have_coins_keeps: "ok (cache_base c) \<Longrightarrow> all_have_coins bGet vin c = (r, c') \<Longrightarrow> ok (cache_base c')"
  by (induction vin arbitrary: c) (auto dest: HaveCoins_keeps split: prod.splits bool.splits)

lemma accept_inputs_keeps:
  assumes "ok (cache_base c)" "accept_inputs bGet h tx c = (r, c')"
  shows "ok (cache_base c')"
proof -
  obtain b1 c1 where h: "cache_HaveCoins bGet c h = (b1, c1)" by (cases "cache_HaveCoins bGet c h")
  have k1: "ok (cache_base c1)" by (rule HaveCoins_keeps [OF assms(1) h])
  obtain b2 c2 where a: "all_have_coins bGet (tx_vin tx) c1 = (b2, c2)" by (cases "all_have_coins bGet (tx_vin tx) c1")
  have k2: "ok (cache_base c2)" by (rule all_have_coins_keeps [OF k1 a])
  obtain b3 c3 where i: "HaveInputs bGet c2 tx = (b3, c3)" by (cases "HaveInputs bGet c2 tx")
  have k3: "ok (cache_base c3)" by (rule HaveInputs_keeps [OF k2 i])
  obtain v c4 where v: "GetValueIn bGet c3 tx = (v, c4)" by (cases "GetValueIn bGet c3 tx")
  have k4: "ok (cache_base c4)" by (rule GetValueIn_keeps [OF k3 v])
  have "c' \<in> {c1, c2, c3, c4}"
    using assms(2) h a i v by (cases b1; cases b2; cases b3; cases v) (auto simp: accept_inputs_def)
  then show ?thesis using k1 k2 k3 k4 by auto
qed

lemma spends_immature_keeps:
  "ok (cache_base c) \<Longrightarrow> spends_immature params bGet mp h vin c = (r, c') \<Longrightarrow> ok (cache_base c')"
  by (induction vin arbitrary: c) (auto dest: FetchCoins_keeps split: prod.splits option.splits if_splits)

lemma immature_loop_keeps:
  "ok (cache_base c) \<Longrightarrow> immature_loop params bGet mp h txs c = (r, c') \<Longrightarrow> ok (cache_base c')"
  by (induction txs arbitrary: c r) (auto dest: spends_immature_keeps split: prod.splits)

end

section \<open>The tip\<close>

text \<open>The set that the tip represents and the block at which it is.\<close>

definition tip_at :: "utxo \<Rightarrow> u256 \<Rightarrow> CoinsTip \<Rightarrow> bool" where
  "tip_at A h c \<longleftrightarrow> tip_inv c \<and> tip_abs c = A \<and> cache_GetBestBlock DB_GetBestBlock c = h"

lemma FetchCoins_best:
  "FetchCoins DB_GetCoins c t = (r, c') \<Longrightarrow> cache_GetBestBlock DB_GetBestBlock c' = cache_GetBestBlock DB_GetBestBlock c"
  by (auto simp: FetchCoins_def DB_GetCoins_def cache_GetBestBlock_def split: option.splits)

lemma tip_at_fetch: "tip_at A h c \<Longrightarrow> FetchCoins DB_GetCoins c t = (r, c') \<Longrightarrow> tip_at A h c'"
  using db.fetch_correct(1,2) [of c t r c'] FetchCoins_best [of c t r c'] by (auto simp: tip_at_def)

interpretation tip_reads: base_reads tip_get "tip_at A h" for A h
  by unfold_locales (auto simp: cache_GetCoins_def intro: tip_at_fetch)

interpretation pool_reads: base_reads "mempool_GetCoins tip_get" "\<lambda>(mp', c). mp' = mp \<and> tip_at A h c" for mp A h
  by unfold_locales
    (auto simp: mempool_GetCoins_def cache_GetCoins_def intro: tip_at_fetch split: prod.splits option.splits if_splits)

text \<open>Accepting a transaction keeps the pool consistent and only reads the tip.\<close>

lemma accept_pool:
  assumes "pool_inv txid mp" "0 \<le> par_MaxMoneyOut (acc_params env)" "par_MaxMoneyOut (acc_params env) < 2 ^ 62"
    and "AcceptToMemoryPool env txid tipGet tx fLimitFree fRejectInsaneFee ignoreFees mp tip = (r, mp', tip')"
  shows "pool_inv txid mp'"
  using accept_result [OF assms] by simp

lemma accept_tip:
  assumes "tip_at A h tip" "AcceptToMemoryPool env txid tip_get tx l i f mp tip = (r, mp', tip')"
  shows "tip_at A h tip'"
proof (cases "accept_precheck env txid tx mp")
  case (Inr u)
  obtain q v where v: "accept_inputs (mempool_GetCoins tip_get) (txid tx) tx (cache_new (mp, tip)) = (q, v)"
    by (cases "accept_inputs (mempool_GetCoins tip_get) (txid tx) tx (cache_new (mp, tip))")
  have "fst (cache_base v) = mp \<and> tip_at A h (snd (cache_base v))"
    using pool_reads.accept_inputs_keeps [OF _ v, of mp A h] assms(1) by (auto simp: cache_new_def split: prod.splits)
  moreover have "tip' = snd (cache_base v)"
    using assms(2) Inr v by (auto simp: AcceptToMemoryPool_def split: sum.splits)
  ultimately show ?thesis by simp
qed (use assms in \<open>auto simp: AcceptToMemoryPool_def\<close>)

text \<open>Writing the tip through to the database, and a view through to the tip.\<close>

lemma flush_tip:
  assumes "tip_at A h c"
  obtains c' where "Flush DB_BatchWrite c = Some c'" "tip_at A h c'"
proof -
  have i: "tip_inv c" using assms by (simp add: tip_at_def)
  from db.flush_correct [OF i] obtain c' where c': "Flush DB_BatchWrite c = Some c'" "tip_inv c'" "tip_abs c' = tip_abs c" by blast
  have "cache_GetBestBlock DB_GetBestBlock c' = cache_GetBestBlock DB_GetBestBlock c"
    using c'(1) by (auto simp: Flush_def DB_BatchWrite_def cache_GetBestBlock_def DB_GetBestBlock_def Let_def)
  then show thesis using that [of c'] c' assms by (simp add: tip_at_def)
qed

lemma flush_view:
  assumes "view_inv v" "cache_hashBlock v \<noteq> 0"
  obtains v' where "Flush cache_BatchWrite v = Some v'" "tip_at (view_abs v) (cache_hashBlock v) (cache_base v')"
proof -
  from db.cache.flush_correct [OF assms(1)] obtain v' where
    v': "Flush cache_BatchWrite v = Some v'" "view_inv v'" "view_abs v' = view_abs v" "tip_abs (cache_base v') = view_abs v" by blast
  have "cache_hashBlock (cache_base v') = cache_hashBlock v"
    using v'(1) by (cases v) (auto simp: Flush_def cache_BatchWrite_def split: option.splits)
  then have "tip_at (view_abs v) (cache_hashBlock v) (cache_base v')"
    using v' assms(2) by (simp add: tip_at_def cache_GetBestBlock_def cache_inv_def)
  then show thesis using that v'(1) by blast
qed

lemma view_new:
  assumes "tip_at A h c"
  shows "view_inv (cache_new c)" "view_abs (cache_new c) = A"
    "cache_GetBestBlock (cache_GetBestBlock DB_GetBestBlock) (cache_new c) = h"
  using assms db.cache.cache_new_inv db.cache.cache_new_abs by (auto simp: tip_at_def cache_GetBestBlock_def cache_new_def)

end
