(* ===== verification/Activation.thy ===== *)
theory Activation
  imports Reads
begin

unbundle bit_operations_syntax

text \<open>
  Moving the active chain (main.cpp): flushing the state to disk, taking back the tip, connecting a
  block on top of it, and the loops that bring the best chain into force, down to
  \<^verbatim>\<open>ActivateBestChain\<close>. The signals to the wallet, the peers' bookkeeping, the warnings and the
  log output are left out. Writing to the databases succeeds.
\<close>

section \<open>State\<close>

text \<open>
  The globals: the index and the active chain, the files and maps of \<open>chain_store\<close>, \<^verbatim>\<open>pcoinsTip\<close>, the pool, the
  file records in the block database with the number of the last file, and the static \<^verbatim>\<open>nLastWrite\<close>.
\<close>

record node =
  nd_index :: index_state
  nd_store :: chain_store
  nd_coins :: CoinsTip
  nd_pool :: CTxMemPool
  nd_dbFiles :: "nat \<rightharpoonup> CBlockFileInfo"
  nd_dbLastFile :: nat
  nd_nLastWrite :: int

text \<open>
  Further surroundings: the limit on cached coins, the clock in microseconds, the addresses of the
  entries, and what \<^verbatim>\<open>AcceptToMemoryPool\<close> reads for a transaction at the current state of the index.
\<close>

record node_env = connect_env +
  ne_nCoinCacheSize :: nat
  ne_nowMicros :: int
  ne_addr :: "u256 \<Rightarrow> nat"
  ne_accept :: "index_state \<Rightarrow> CTransaction \<Rightarrow> accept_env"

abbreviation ne_block :: "node_env \<Rightarrow> block_env" where
  "ne_block env \<equiv> block_env.truncate env"

abbreviation ne_connect :: "node_env \<Rightarrow> connect_env" where
  "ne_connect env \<equiv> connect_env.truncate env"

abbreviation ne_txid :: "node_env \<Rightarrow> CTransaction \<Rightarrow> u256" where
  "ne_txid env \<equiv> GetHash (crypto_sha256 (be_crypto env))"

abbreviation nd_idx :: "node \<Rightarrow> BlockMap" where
  "nd_idx nd \<equiv> st_mapBlockIndex (nd_index nd)"

abbreviation nd_chain :: "node \<Rightarrow> CChain" where
  "nd_chain nd \<equiv> st_chainActive (nd_index nd)"

abbreviation nd_tip :: "node \<Rightarrow> bptr" where
  "nd_tip nd \<equiv> chain_tip (nd_chain nd)"

abbreviation nd_files :: "node \<Rightarrow> file_state" where
  "nd_files nd \<equiv> cs_files (nd_store nd)"

section \<open>Flushing\<close>

datatype FlushStateMode = FLUSH_STATE_IF_NEEDED | FLUSH_STATE_PERIODIC | FLUSH_STATE_ALWAYS

abbreviation (input) DATABASE_WRITE_INTERVAL :: int where "DATABASE_WRITE_INTERVAL \<equiv> 3600"

definition flush_due :: "node_env \<Rightarrow> FlushStateMode \<Rightarrow> node \<Rightarrow> bool" where
  "flush_due env mode nd \<longleftrightarrow>
     mode = FLUSH_STATE_ALWAYS \<or>
     (mode = FLUSH_STATE_PERIODIC \<or> mode = FLUSH_STATE_IF_NEEDED) \<and> GetCacheSize (nd_coins nd) > ne_nCoinCacheSize env \<or>
     mode = FLUSH_STATE_PERIODIC \<and> ne_nowMicros env > nd_nLastWrite nd + DATABASE_WRITE_INTERVAL * 1000000"

text \<open>The records of the dirty files and the dirty entries go to the block database.\<close>

definition write_dirty :: "node \<Rightarrow> node" where
  "write_dirty nd =
     (let fs = nd_files nd; st = nd_index nd; dirty = fs_setDirtyFileInfo fs in
      nd\<lparr>nd_dbFiles := (\<lambda>k. if k \<in> dirty then Some (info_at fs k) else nd_dbFiles nd k),
         nd_dbLastFile := (if dirty \<noteq> {} then fs_nLastBlockFile fs else nd_dbLastFile nd),
         nd_store := (nd_store nd)\<lparr>cs_files := fs\<lparr>fs_setDirtyFileInfo := {}\<rparr>,
           cs_blocktree := (\<lambda>h. if h \<in> st_setDirtyBlockIndex st then st_mapBlockIndex st h else cs_blocktree (nd_store nd) h)\<rparr>,
         nd_index := st\<lparr>st_setDirtyBlockIndex := {}\<rparr>\<rparr>)"

definition FlushStateToDisk :: "node_env \<Rightarrow> CValidationState \<Rightarrow> FlushStateMode \<Rightarrow> node \<Rightarrow> bool \<times> CValidationState \<times> node" where
  "FlushStateToDisk env state mode nd =
     (if flush_due env mode nd then
        if \<not> CheckDiskSpace (ce_nFree env) (word_of_nat (100 * 2 * 2 * GetCacheSize (nd_coins nd)))
        then (False, state_Error ''out of disk space'' state, nd)
        else
          let nd = write_dirty (nd\<lparr>nd_store := (nd_store nd)\<lparr>cs_files := FlushBlockFile False (nd_files nd)\<rparr>\<rparr>) in
          (case Flush DB_BatchWrite (nd_coins nd) of
             None \<Rightarrow> (False, state_Error ''Failed to write to coin database'' state, nd)
           | Some coins \<Rightarrow> (True, state, nd\<lparr>nd_coins := coins, nd_nLastWrite := ne_nowMicros env\<rparr>))
      else (True, state, nd))"

text \<open>\<^verbatim>\<open>UpdateTip\<close>; \<open>None\<close> is a null pointer.\<close>

definition UpdateTip :: "bptr \<Rightarrow> node \<Rightarrow> node option" where
  "UpdateTip pindexNew nd =
     (case pindexNew of
        None \<Rightarrow> None
      | Some p \<Rightarrow>
          map_option (\<lambda>chain. nd\<lparr>nd_index := (nd_index nd)\<lparr>st_chainActive := chain\<rparr>, nd_pool := AddTransactionsUpdated 1 (nd_pool nd)\<rparr>)
            (SetTip (nd_idx nd) (nd_chain nd) pindexNew))"

section \<open>Taking back the tip\<close>

text \<open>
  The erasures from \<^verbatim>\<open>mapStakeSpent\<close> in \<^verbatim>\<open>DisconnectBlock\<close>, over the transactions and their undo data in reverse order.
\<close>

fun stake_spent_erase :: "(CTransaction \<times> CTxUndo) list \<Rightarrow> (COutPoint \<rightharpoonup> int) \<Rightarrow> (COutPoint \<rightharpoonup> int)" where
  "stake_spent_erase [] m = m"
| "stake_spent_erase ((tx, undo) # ps) m =
     (if IsCoinBase tx then stake_spent_erase ps m
      else if length undo \<noteq> length (tx_vin tx) then m
      else stake_spent_erase ps (m |` (- set (map txin_prevout (tx_vin tx)))))"

text \<open>The transactions of the block go back to the pool, or out of it with all that depends on them.\<close>

fun resurrect :: "node_env \<Rightarrow> index_state \<Rightarrow> CTransaction list \<Rightarrow> CTxMemPool \<Rightarrow> CoinsTip \<Rightarrow> (CTxMemPool \<times> CoinsTip) option" where
  "resurrect env st [] mp coins = Some (mp, coins)"
| "resurrect env st (tx # vtx) mp coins =
     (case (if IsCoinBase tx \<or> IsCoinStake tx then (Inl Silent, mp, coins)
            else AcceptToMemoryPool (ne_accept env st tx) (ne_txid env) tip_get tx False False False mp coins) of
        (Inr _, mp', coins') \<Rightarrow> resurrect env st vtx mp' coins'
      | (Inl _, mp', coins') \<Rightarrow>
          (case pool_remove (ne_txid env) tx True mp' of
             None \<Rightarrow> None
           | Some (mp'', _) \<Rightarrow> resurrect env st vtx mp'' coins'))"

text \<open>
  \<^verbatim>\<open>DisconnectTip\<close>: the verdict, the state and the node; \<open>None\<close> is a failed assertion or a null pointer. A failed
  \<^verbatim>\<open>DisconnectBlock\<close> discards its view; what that view has read into the cache of the tip is not recorded.
  The two calls of the debug check \<^verbatim>\<open>mempool.check(pcoinsTip)\<close>, which does nothing unless \<^verbatim>\<open>-checkmempool\<close> is on (by default only in regression tests), are left out.
\<close>

definition DisconnectTip :: "node_env \<Rightarrow> CValidationState \<Rightarrow> node \<Rightarrow> (bool \<times> CValidationState \<times> node) option" where
  "DisconnectTip env state nd =
     (case nd_tip nd of
        None \<Rightarrow> None
      | Some t \<Rightarrow>
          (case nd_idx nd t of
             None \<Rightarrow> None
           | Some bi \<Rightarrow>
               (case ReadBlockFromDisk (be_sph env) (be_params env) (nd_files nd) t bi of
                  None \<Rightarrow> Some (False, state_Error ''Failed to read block'' state, nd)
                | Some block \<Rightarrow>
                    let q = (case bi_pprev bi of None \<Rightarrow> 0 | Some q \<Rightarrow> q);
                        undo = (if CDiskBlockPos_IsNull (GetUndoPos bi) then None
                                else undo_ReadFromDisk (crypto_sha256 (be_crypto env)) (ce_fully_valid env) (ce_decompress env)
                                  (nd_files nd) (GetUndoPos bi) q);
                        erased = (case undo of
                                    None \<Rightarrow> cs_mapStakeSpent (nd_store nd)
                                  | Some us \<Rightarrow> if length us + 1 \<noteq> length (blk_vtx block) then cs_mapStakeSpent (nd_store nd)
                                      else stake_spent_erase (rev (zip (blk_vtx block) ([] # us))) (cs_mapStakeSpent (nd_store nd)))
                    in if \<not> CDiskBlockPos_IsNull (GetUndoPos bi) \<and> bi_pprev bi = None then None
                       else
                         (case DisconnectBlock tip_get (cache_GetBestBlock DB_GetBestBlock) (ne_txid env) (blk_vtx block) undo t q
                                 (int (bi_nHeight bi)) (cache_new (nd_coins nd)) of
                            Inl NotBestBlock \<Rightarrow> None
                          | Inl _ \<Rightarrow> Some (False, state, nd\<lparr>nd_store := (nd_store nd)\<lparr>cs_mapStakeSpent := erased\<rparr>\<rparr>)
                          | Inr (False, view) \<Rightarrow>
                              Some (False, state, nd\<lparr>nd_store := (nd_store nd)\<lparr>cs_mapStakeSpent := erased\<rparr>, nd_coins := cache_base view\<rparr>)
                          | Inr (True, view) \<Rightarrow>
                              (case Flush cache_BatchWrite view of
                                 None \<Rightarrow> None
                               | Some view \<Rightarrow>
                                   (case FlushStateToDisk env state FLUSH_STATE_ALWAYS
                                           (nd\<lparr>nd_store := (nd_store nd)\<lparr>cs_mapStakeSpent := erased\<rparr>, nd_coins := cache_base view\<rparr>) of
                                      (False, state, nd) \<Rightarrow> Some (False, state, nd)
                                    | (True, state, nd) \<Rightarrow>
                                        (case resurrect env (nd_index nd) (blk_vtx block) (nd_pool nd) (nd_coins nd) of
                                           None \<Rightarrow> None
                                         | Some (mp, coins) \<Rightarrow>
                                             (case removeCoinbaseSpends (ne_txid env) (be_chain (ne_block env)) DB_GetCoins
                                                     (word_of_nat (bi_nHeight bi)) coins mp of
                                                None \<Rightarrow> None
                                              | Some (mp, coins) \<Rightarrow>
                                                  map_option (\<lambda>nd. (True, state, nd))
                                                    (UpdateTip (bi_pprev bi) (nd\<lparr>nd_pool := mp, nd_coins := coins\<rparr>))))))))))"

section \<open>Connecting a block on top\<close>

definition flush_mode :: "BlockMap \<Rightarrow> CBlockIndex \<Rightarrow> FlushStateMode" where
  "flush_mode idx bi =
     (case Option.bind (bi_pprev bi) idx of
        None \<Rightarrow> FLUSH_STATE_IF_NEEDED
      | Some bp \<Rightarrow> if dbp_nFile (GetBlockPos bi) \<noteq> dbp_nFile (GetBlockPos bp) then FLUSH_STATE_ALWAYS else FLUSH_STATE_IF_NEEDED)"

definition ConnectTip ::
    "node_env \<Rightarrow> CValidationState \<Rightarrow> u256 \<Rightarrow> CBlock option \<Rightarrow> bool \<Rightarrow> node \<Rightarrow> (bool \<times> CValidationState \<times> node) option" where
  "ConnectTip env state p pblock fAlreadyChecked nd =
     (case nd_idx nd p of
        None \<Rightarrow> None
      | Some bi \<Rightarrow>
          if bi_pprev bi \<noteq> nd_tip nd then None
          else
            let fAlreadyChecked = (if pblock = None then False else fAlreadyChecked) in
            (case (case pblock of None \<Rightarrow> ReadBlockFromDisk (be_sph env) (be_params env) (nd_files nd) p bi | Some b \<Rightarrow> Some b) of
               None \<Rightarrow> Some (False, state_Error ''Failed to read block'' state, nd)
             | Some block \<Rightarrow>
                 (case ConnectBlock (ne_connect env) tip_get (cache_GetBestBlock DB_GetBestBlock) block (Some p) bi False fAlreadyChecked
                         state (nd_index nd) (nd_store nd) (cache_new (nd_coins nd)) of
                    None \<Rightarrow> None
                  | Some (rv, state, bi, dirty, cs, view) \<Rightarrow>
                      let st = (nd_index nd)\<lparr>st_mapBlockIndex := (nd_idx nd)(p \<mapsto> bi),
                             st_setDirtyBlockIndex := (if dirty then insert p (st_setDirtyBlockIndex (nd_index nd)) else st_setDirtyBlockIndex (nd_index nd))\<rparr>
                      in if \<not> rv then
                           Some (False, state, nd\<lparr>nd_store := cs, nd_coins := cache_base view,
                             nd_index := (if IsInvalid state then InvalidBlockFound (vs_corruptionPossible state) p st else st)\<rparr>)
                         else
                           (case Flush cache_BatchWrite view of
                              None \<Rightarrow> None
                            | Some view \<Rightarrow>
                                (case FlushStateToDisk env state (flush_mode (st_mapBlockIndex st) bi)
                                        (nd\<lparr>nd_index := st, nd_store := cs, nd_coins := cache_base view\<rparr>) of
                                   (False, state, nd) \<Rightarrow> Some (False, state, nd)
                                 | (True, state, nd) \<Rightarrow>
                                     (case removeForBlock (ne_txid env) (blk_vtx block) (nd_pool nd) of
                                        None \<Rightarrow> None
                                      | Some (mp, _) \<Rightarrow> map_option (\<lambda>nd. (True, state, nd)) (UpdateTip (Some p) (nd\<lparr>nd_pool := mp\<rparr>))))))))"

section \<open>Activating the best chain\<close>

text \<open>The loop that takes back blocks until the fork is the tip; \<open>fuel\<close> is the length of the chain.\<close>

fun disconnect_loop :: "nat \<Rightarrow> node_env \<Rightarrow> bptr \<Rightarrow> CValidationState \<Rightarrow> node \<Rightarrow> (bool \<times> CValidationState \<times> node) option" where
  "disconnect_loop fuel env fork state nd =
     (if nd_tip nd = None \<or> nd_tip nd = fork then Some (True, state, nd)
      else
        (case fuel of
           0 \<Rightarrow> None
         | Suc fuel \<Rightarrow>
             (case DisconnectTip env state nd of
                None \<Rightarrow> None
              | Some (False, state, nd) \<Rightarrow> Some (False, state, nd)
              | Some (True, state, nd) \<Rightarrow> disconnect_loop fuel env fork state nd)))"

declare disconnect_loop.simps [simp del]

text \<open>The ancestors of an entry above a height, the lowest first.\<close>

fun ancestors_above :: "nat \<Rightarrow> BlockMap \<Rightarrow> int \<Rightarrow> bptr \<Rightarrow> u256 list" where
  "ancestors_above 0 idx nHeight pindex = []"
| "ancestors_above (Suc fuel) idx nHeight pindex =
     (case pindex of
        None \<Rightarrow> []
      | Some p \<Rightarrow>
          (case idx p of
             None \<Rightarrow> []
           | Some bi \<Rightarrow> if int (bi_nHeight bi) = nHeight then [] else ancestors_above fuel idx nHeight (bi_pprev bi) @ [p]))"

text \<open>How the loop over the blocks of a batch ends: all are connected, it stops, or there is a system error.\<close>

datatype batch_end = BatchDone | BatchStop | BatchFail

definition chain_work :: "BlockMap \<Rightarrow> bptr \<Rightarrow> base_uint" where
  "chain_work idx p = (case Option.bind p idx of None \<Rightarrow> uint_of_int 0 | Some bi \<Rightarrow> bi_nChainWork bi)"

fun connect_blocks ::
    "node_env \<Rightarrow> u256 \<Rightarrow> CBlock option \<Rightarrow> bool \<Rightarrow> bptr \<Rightarrow> u256 \<Rightarrow> u256 list \<Rightarrow> CValidationState \<Rightarrow> node \<Rightarrow>
      (batch_end \<times> CValidationState \<times> node) option" where
  "connect_blocks env most pblock checked old first [] state nd = Some (BatchDone, state, nd)"
| "connect_blocks env most pblock checked old first (p # ps) state nd =
     (case ConnectTip env state p (if p = most then pblock else None) checked nd of
        None \<Rightarrow> None
      | Some (False, state, nd) \<Rightarrow>
          if IsInvalid state then
            Some (BatchStop, CValidationState_new,
              if vs_corruptionPossible state then nd else nd\<lparr>nd_index := InvalidChainFound first (nd_index nd)\<rparr>)
          else Some (BatchFail, state, nd)
      | Some (True, state, nd) \<Rightarrow>
          (case PruneBlockIndexCandidates (ne_addr env) (nd_index nd) of
             None \<Rightarrow> None
           | Some st \<Rightarrow>
               let nd = nd\<lparr>nd_index := st\<rparr> in
               if old = None \<or> CompareTo (chain_work (nd_idx nd) (nd_tip nd)) (chain_work (nd_idx nd) old) > 0
               then Some (BatchStop, state, nd)
               else connect_blocks env most pblock checked old first ps state nd))"

fun connect_batches ::
    "nat \<Rightarrow> node_env \<Rightarrow> u256 \<Rightarrow> CBlockIndex \<Rightarrow> CBlock option \<Rightarrow> bool \<Rightarrow> bptr \<Rightarrow> int \<Rightarrow> CValidationState \<Rightarrow> node \<Rightarrow>
      (bool \<times> CValidationState \<times> node) option" where
  "connect_batches 0 env most bm pblock checked old nHeight state nd = None"
| "connect_batches (Suc fuel) env most bm pblock checked old nHeight state nd =
     (if nHeight = int (bi_nHeight bm) then Some (True, state, nd)
      else
        let nTargetHeight = min (nHeight + 32) (int (bi_nHeight bm));
            vpindexToConnect = ancestors_above 33 (nd_idx nd) nHeight (GetAncestor (nd_idx nd) most nTargetHeight)
        in (case connect_blocks env most pblock checked old (hd vpindexToConnect) vpindexToConnect state nd of
              None \<Rightarrow> None
            | Some (BatchFail, state, nd) \<Rightarrow> Some (False, state, nd)
            | Some (BatchStop, state, nd) \<Rightarrow> Some (True, state, nd)
            | Some (BatchDone, state, nd) \<Rightarrow> connect_batches fuel env most bm pblock checked old nTargetHeight state nd))"

definition ActivateBestChainStep ::
    "node_env \<Rightarrow> CValidationState \<Rightarrow> u256 \<Rightarrow> CBlock option \<Rightarrow> bool \<Rightarrow> node \<Rightarrow> (bool \<times> CValidationState \<times> node) option" where
  "ActivateBestChainStep env state most pblock fAlreadyChecked nd =
     (let fAlreadyChecked = (if pblock = None then False else fAlreadyChecked); old = nd_tip nd in
      case (nd_idx nd most, FindFork (nd_idx nd) (nd_chain nd) most) of
        (Some bm, Some fork) \<Rightarrow>
          (case disconnect_loop (length (nd_chain nd)) env fork state nd of
             None \<Rightarrow> None
           | Some (False, state, nd) \<Rightarrow> Some (False, state, nd)
           | Some (True, state, nd) \<Rightarrow>
               connect_batches (bi_nHeight bm + 2) env most bm pblock fAlreadyChecked old
                 (case Option.bind fork (nd_idx nd) of None \<Rightarrow> - 1 | Some bf \<Rightarrow> int (bi_nHeight bf)) state nd)
      | _ \<Rightarrow> None)"

text \<open>\<^verbatim>\<open>ActivateBestChain\<close>; a run that never ends is \<open>None\<close>, too.\<close>

partial_function (option) activate_loop ::
    "node_env \<Rightarrow> CBlock option \<Rightarrow> bool \<Rightarrow> CValidationState \<Rightarrow> node \<Rightarrow> (bool \<times> bool \<times> CValidationState \<times> node) option" where
  "activate_loop env pblock fAlreadyChecked state nd =
     (case FindMostWorkChain (nd_index nd) of
        None \<Rightarrow> None
      | Some (most, st) \<Rightarrow>
          let nd = nd\<lparr>nd_index := st\<rparr> in
          if most = None \<or> most = nd_tip nd then Some (True, True, state, nd)
          else
            (case ActivateBestChainStep env state (the most)
                    (case pblock of None \<Rightarrow> None | Some b \<Rightarrow> if be_hash (ne_block env) b = the most then Some b else None) fAlreadyChecked nd of
               None \<Rightarrow> None
             | Some (ok, state, nd) \<Rightarrow>
                 if \<not> ok then Some (False, False, state, nd)
                 else if most \<noteq> nd_tip nd then activate_loop env pblock fAlreadyChecked state nd
                 else Some (True, False, state, nd)))"

definition ActivateBestChain ::
    "node_env \<Rightarrow> CBlock option \<Rightarrow> bool \<Rightarrow> CValidationState \<Rightarrow> node \<Rightarrow> (bool \<times> CValidationState \<times> node) option" where
  "ActivateBestChain env pblock fAlreadyChecked state nd =
     (case activate_loop env pblock fAlreadyChecked state nd of
        None \<Rightarrow> None
      | Some (ok, idle, state, nd) \<Rightarrow>
          if \<not> ok then Some (False, state, nd)
          else if idle then Some (True, state, nd)
          else Some (FlushStateToDisk env state FLUSH_STATE_PERIODIC nd))"

end
