(* ===== verification/NodeState.thy ===== *)
theory NodeState
  imports Activation
begin

unbundle bit_operations_syntax

text \<open>
  The invariant of the node and what keeps it: what the coins of a branch of the block tree are, that the
  cache of the tip represents those of the active chain, and that taking back the tip, connecting a
  block and a step of the activation keep this together with the tree, the files and the pool.
\<close>

section \<open>What connecting a block changes\<close>

text \<open>The members of an entry that stay: its place in the tree, its work and the place of its block.\<close>

definition entry_kept :: "CBlockIndex \<Rightarrow> CBlockIndex \<Rightarrow> bool" where
  "entry_kept bi bi' \<longleftrightarrow>
     links bi' = links bi \<and> GetBlockPos bi' = GetBlockPos bi \<and> bi_nFile bi' = bi_nFile bi \<and> bi_nChainWork bi' = bi_nChainWork bi"

lemma entry_kept_refl [simp]: "entry_kept bi bi"
  by (simp add: entry_kept_def)

lemma entry_kept_trans: "entry_kept a b \<Longrightarrow> entry_kept b c \<Longrightarrow> entry_kept a c"
  by (simp add: entry_kept_def)

lemma entry_kept_amounts: "entry_kept bi (bi\<lparr>bi_nMoneySupply := m, bi_nMint := n\<rparr>)"
  by (simp add: entry_kept_def links_def GetBlockPos_def)

lemma entry_kept_status:
  assumes "s AND 8 = bi_nStatus bi AND (8 :: u32)"
  shows "entry_kept bi (bi\<lparr>bi_nStatus := s\<rparr>)" "entry_kept bi (bi\<lparr>bi_nUndoPos := u, bi_nStatus := s\<rparr>)"
  using assms by (simp_all add: entry_kept_def links_def GetBlockPos_def)

lemma status_bits [simp]:
  "(s OR 16) AND 8 = s AND (8 :: u32)" "(s OR 32) AND 8 = s AND (8 :: u32)" "(s OR 64) AND 8 = s AND (8 :: u32)"
  "(s OR 32) AND 16 = s AND (16 :: u32)" "(s OR 64) AND 16 = s AND (16 :: u32)" "(s AND - 8 OR 5) AND 8 = s AND (8 :: u32)"
  by (simp_all add: bit.conj_disj_distrib2 and.assoc)

lemma entry_kept_RaiseValidity: "entry_kept bi (snd (RaiseValidity 5 bi))"
  by (auto simp: RaiseValidity_def intro!: entry_kept_status)

lemma write_undo_entry:
  assumes "write_undo env us q bi state fs = Inr (bi', fs')"
  shows "entry_kept bi bi'" "\<not> CDiskBlockPos_IsNull (GetUndoPos bi) \<Longrightarrow> bi' = bi \<and> fs' = fs"
  using assms
  by (auto simp: write_undo_def intro!: entry_kept_status split: if_splits prod.splits bool.splits option.splits)

lemma write_undo_state: "write_undo env us q bi state fs = Inl (state', fs') \<Longrightarrow> vs_mode state' = MODE_ERROR"
  by (auto simp: write_undo_def state_Error_def split: if_splits prod.splits bool.splits option.splits)

lemma SetBestBlock_base [simp]: "cache_base (SetBestBlock h v) = cache_base v"
  by (simp add: SetBestBlock_def)

lemma ConnectBlock_finish_effect:
  assumes "ConnectBlock_finish env False block (Some h) bi q bp acc state st cs view = Some (rv, state', bi', dirty, cs', view')"
  shows "entry_kept bi bi'" "\<not> rv \<Longrightarrow> GetUndoPos bi' = GetUndoPos bi \<and> view' = view"
    "\<not> rv \<Longrightarrow> vs_mode state' \<noteq> MODE_ERROR \<Longrightarrow> cs_files cs' = cs_files cs"
    "rv \<Longrightarrow> \<not> CDiskBlockPos_IsNull (GetUndoPos bi) \<Longrightarrow> GetUndoPos bi' = GetUndoPos bi \<and> cs_files cs' = cs_files cs"
    "rv \<Longrightarrow> \<exists>b2 b3. write_undo env (ca_vtxundo acc) q b2 state (cs_files cs) = Inr (b3, cs_files cs') \<and> bi_nFile b2 = bi_nFile bi"
proof -
  let ?idx = "st_mapBlockIndex st" and ?chain = "st_chainActive st"
  define b1 where "b1 = bi\<lparr>bi_nMoneySupply := swrap 64 (bi_nMoneySupply bp + ca_nValueOut acc - ca_nValueIn acc)\<rparr>"
  define b2 where "b2 = b1\<lparr>bi_nMint := swrap 64 (bi_nMoneySupply b1 - bi_nMoneySupply bp + ca_nFees acc)\<rparr>"
  define cs1 where "cs1 = cs\<lparr>cs_blocktree := (cs_blocktree cs)(be_hash (block_env.truncate env) block \<mapsto> b2)\<rparr>"
  note r = assms [unfolded ConnectBlock_finish_def Let_def b1_def [symmetric] b2_def [symmetric] cs1_def [symmetric]]
  have e: "entry_kept bi b2" "GetUndoPos b2 = GetUndoPos bi" "cs_files cs1 = cs_files cs" "bi_nFile b2 = bi_nFile bi"
    by (simp_all add: b2_def b1_def entry_kept_amounts GetUndoPos_def cs1_def)
  let ?w = "write_undo env (ca_vtxundo acc) q b2 state (cs_files cs1)"
  have c: "(\<not> rv \<and> bi' = b2 \<and> view' = view \<and> (cs' = cs1 \<or> (\<exists>fs. ?w = Inl (state', fs)))) \<or>
      (rv \<and> (\<exists>b3 fs. ?w = Inr (b3, fs) \<and> cs_files cs' = fs \<and> (bi' = b3 \<or> bi' = snd (RaiseValidity 5 b3))))"
    using r by (cases ?w) (auto split: option.splits if_splits)
  show "entry_kept bi bi'"
    using c e(1) write_undo_entry(1) entry_kept_RaiseValidity by (meson entry_kept_trans)
  show "GetUndoPos bi' = GetUndoPos bi \<and> view' = view" if "\<not> rv" using c that e(2) by auto
  show "cs_files cs' = cs_files cs" if "\<not> rv" "vs_mode state' \<noteq> MODE_ERROR" using c that e(3) write_undo_state by auto
  show "GetUndoPos bi' = GetUndoPos bi \<and> cs_files cs' = cs_files cs" if "rv" "\<not> CDiskBlockPos_IsNull (GetUndoPos bi)"
    using c that e write_undo_entry(2) [of env "ca_vtxundo acc" q b2 state "cs_files cs1"] by auto
  show "\<exists>b2 b3. write_undo env (ca_vtxundo acc) q b2 state (cs_files cs) = Inr (b3, cs_files cs') \<and> bi_nFile b2 = bi_nFile bi" if rv
    using c that e by auto
qed

lemma ConnectBlock_effect:
  assumes r: "ConnectBlock env tip_get best block (Some h) bi False already state st cs view = Some (rv, state', bi', dirty, cs', view')"
  shows "entry_kept bi bi'" "\<not> rv \<Longrightarrow> GetUndoPos bi' = GetUndoPos bi"
    "\<not> rv \<Longrightarrow> tip_at A b (cache_base view) \<Longrightarrow> tip_at A b (cache_base view')"
    "\<not> rv \<Longrightarrow> vs_mode state' \<noteq> MODE_ERROR \<Longrightarrow> cs_files cs' = cs_files cs"
    "rv \<Longrightarrow> \<not> CDiskBlockPos_IsNull (GetUndoPos bi) \<Longrightarrow> GetUndoPos bi' = GetUndoPos bi \<and> cs_files cs' = cs_files cs"
    "rv \<Longrightarrow> cs_files cs' = cs_files cs \<or>
       (\<exists>us q b2 b3 s. write_undo env us q b2 s (cs_files cs) = Inr (b3, cs_files cs') \<and> bi_nFile b2 = bi_nFile bi)"
proof -
  let ?benv = "block_env.truncate env"
  define K where "K = (if already then Some (True, state, cs_mapRejectedBlocks cs)
        else CheckBlock ?benv (st_mapBlockIndex st) (st_chainActive st) (\<not> False) block state (cs_mapRejectedBlocks cs))"
  note r = r [unfolded ConnectBlock_def Let_def K_def [symmetric]]
  from r obtain ok state1 rej where K: "K = Some (ok, state1, rej)" by (cases K) auto
  let ?cs = "cs\<lparr>cs_mapRejectedBlocks := rej\<rparr>"
  note r = r [unfolded K option.case prod.case]
  have "(bi' = bi \<and> cs_files cs' = cs_files cs \<and> cache_base view' = cache_base view) \<or>
    (\<exists>fl sc flags ph hh acc0 e. \<not> rv \<and> bi' = bi \<and> cs_files cs' = cs_files cs \<and>
       connect_txs ?benv tip_get fl sc flags ph hh True (blk_vtx block) acc0 view = (Inl e, view')) \<or>
    (\<exists>q bp fl sc flags ph hh acc0 acc view1.
       connect_txs ?benv tip_get fl sc flags ph hh True (blk_vtx block) acc0 view = (Inr acc, view1) \<and>
       ConnectBlock_finish env False block (Some h) bi q bp acc state1 st ?cs view1 = Some (rv, state', bi', dirty, cs', view'))"
    using r by (auto split: option.splits if_splits prod.splits sum.splits)
  then consider (same) "bi' = bi" "cs_files cs' = cs_files cs" "cache_base view' = cache_base view"
    | (loop) fl sc flags ph hh acc0 e where "\<not> rv" "bi' = bi" "cs_files cs' = cs_files cs"
       "connect_txs ?benv tip_get fl sc flags ph hh True (blk_vtx block) acc0 view = (Inl e, view')"
    | (fin) q bp fl sc flags ph hh acc0 acc view1 where
       "connect_txs ?benv tip_get fl sc flags ph hh True (blk_vtx block) acc0 view = (Inr acc, view1)"
       "ConnectBlock_finish env False block (Some h) bi q bp acc state1 st ?cs view1 = Some (rv, state', bi', dirty, cs', view')"
    by (elim disjE exE conjE) blast+
  then have "entry_kept bi bi' \<and> (\<not> rv \<longrightarrow> GetUndoPos bi' = GetUndoPos bi) \<and>
    (\<not> rv \<longrightarrow> tip_at A b (cache_base view) \<longrightarrow> tip_at A b (cache_base view')) \<and>
    (\<not> rv \<longrightarrow> vs_mode state' \<noteq> MODE_ERROR \<longrightarrow> cs_files cs' = cs_files cs) \<and>
    (rv \<longrightarrow> \<not> CDiskBlockPos_IsNull (GetUndoPos bi) \<longrightarrow> GetUndoPos bi' = GetUndoPos bi \<and> cs_files cs' = cs_files cs) \<and>
    (rv \<longrightarrow> cs_files cs' = cs_files cs \<or>
       (\<exists>us q b2 b3 s. write_undo env us q b2 s (cs_files cs) = Inr (b3, cs_files cs') \<and> bi_nFile b2 = bi_nFile bi))"
  proof cases
    case same
    then show ?thesis by simp
  next
    case loop
    then show ?thesis using tip_reads.connect_txs_keeps by auto
  next
    case fin
    note f = ConnectBlock_finish_effect [OF fin(2)]
    have "cs_files ?cs = cs_files cs" by simp
    then show ?thesis using f tip_reads.connect_txs_keeps [OF _ fin(1)] by metis
  qed
  then show "entry_kept bi bi'" "\<not> rv \<Longrightarrow> GetUndoPos bi' = GetUndoPos bi"
    "\<not> rv \<Longrightarrow> tip_at A b (cache_base view) \<Longrightarrow> tip_at A b (cache_base view')"
    "\<not> rv \<Longrightarrow> vs_mode state' \<noteq> MODE_ERROR \<Longrightarrow> cs_files cs' = cs_files cs"
    "rv \<Longrightarrow> \<not> CDiskBlockPos_IsNull (GetUndoPos bi) \<Longrightarrow> GetUndoPos bi' = GetUndoPos bi \<and> cs_files cs' = cs_files cs"
    "rv \<Longrightarrow> cs_files cs' = cs_files cs \<or>
       (\<exists>us q b2 b3 s. write_undo env us q b2 s (cs_files cs) = Inr (b3, cs_files cs') \<and> bi_nFile b2 = bi_nFile bi)"
    by blast+
qed

section \<open>The set of coins of a branch\<close>

text \<open>
  What a branch of the tree means: the blocks above the root, read from disk, applied one after the
  other to the empty set. The result carries the undo data of each block.
\<close>

fun replay ::
    "(u256 \<Rightarrow> CBlock option) \<Rightarrow> (CTransaction \<Rightarrow> u256) \<Rightarrow> nat \<Rightarrow> u256 list \<Rightarrow> utxo \<Rightarrow> (CTxUndo list list \<times> utxo) option" where
  "replay rd txid h [] A = Some ([], A)"
| "replay rd txid h (p # ps) A =
     (case rd p of
        None \<Rightarrow> None
      | Some b \<Rightarrow>
          (case abs_block txid (int h) (blk_vtx b) A of
             None \<Rightarrow> None
           | Some (us, A') \<Rightarrow> map_option (\<lambda>(uss, A''). (us # uss, A'')) (replay rd txid (Suc h) ps A')))"

definition branch :: "BlockMap \<Rightarrow> u256 \<Rightarrow> u256 list" where
  "branch idx p = (case idx p of None \<Rightarrow> [] | Some bi \<Rightarrow> map (\<lambda>k. the (walk idx (bi_nHeight bi - k) p)) [1..<bi_nHeight bi + 1])"

definition disk_block :: "node_env \<Rightarrow> BlockMap \<Rightarrow> file_state \<Rightarrow> u256 \<Rightarrow> CBlock option" where
  "disk_block env idx fs p = Option.bind (idx p) (ReadBlockFromDisk (be_sph env) (be_params env) fs p)"

definition branch_coins :: "node_env \<Rightarrow> BlockMap \<Rightarrow> file_state \<Rightarrow> u256 \<Rightarrow> (CTxUndo list list \<times> utxo) option" where
  "branch_coins env idx fs p = replay (disk_block env idx fs) (ne_txid env) 1 (branch idx p) Map.empty"

lemma replay_snoc:
  "replay rd txid h (ps @ [p]) A =
     (case replay rd txid h ps A of
        None \<Rightarrow> None
      | Some (uss, A') \<Rightarrow>
          (case rd p of
             None \<Rightarrow> None
           | Some b \<Rightarrow> map_option (\<lambda>(us, A''). (uss @ [us], A'')) (abs_block txid (int (h + length ps)) (blk_vtx b) A')))"
proof (induction ps arbitrary: h A)
  case (Cons q ps)
  then show ?case
    by (cases "rd q") (auto simp: option.map_comp comp_def case_prod_unfold split: option.splits)
qed (auto split: option.splits)

lemma branch_root: "index_wf idx \<Longrightarrow> idx p = Some bi \<Longrightarrow> bi_pprev bi = None \<Longrightarrow> branch idx p = []"
  using index_wf_root by (fastforce simp: branch_def index_wf_def entry_wf_def)

lemma branch_child:
  assumes "index_wf idx" "idx p = Some bi" "bi_pprev bi = Some q" "idx q = Some bq"
  shows "branch idx p = branch idx q @ [p]" "bi_nHeight bi = length (branch idx p)" "bi_nHeight bq = length (branch idx q)"
proof -
  have h: "bi_nHeight bi = bi_nHeight bq + 1" 
  proof -
    have "entry_wf idx p bi" using assms(1,2) by (simp add: index_wf_def)
    then show ?thesis using assms(3,4) by (simp add: entry_wf_def)
  qed
  have w: "walk idx (bi_nHeight bi - k) p = walk idx (bi_nHeight bq - k) q" if "k \<le> bi_nHeight bq" for k
    using walk_Suc' [of idx p bi q "bi_nHeight bq - k", OF assms(2,3)] h that by (simp add: Suc_diff_le)
  have "branch idx p = map (\<lambda>k. the (walk idx (bi_nHeight bi - k) p)) ([1..<bi_nHeight bq + 1] @ [bi_nHeight bq + 1])"
    using assms(2) h by (simp add: branch_def)
  moreover have "map (\<lambda>k. the (walk idx (bi_nHeight bi - k) p)) [1..<bi_nHeight bq + 1] = branch idx q"
    unfolding branch_def assms(4) option.case by (intro map_cong refl arg_cong [of _ _ the] w) auto
  then have "map (\<lambda>k. the (walk idx (bi_nHeight bi - k) p)) ([1..<bi_nHeight bq + 1] @ [bi_nHeight bq + 1]) = branch idx q @ [p]"
    using h by simp
  ultimately show "branch idx p = branch idx q @ [p]" by simp
  show "bi_nHeight bi = length (branch idx p)" "bi_nHeight bq = length (branch idx q)" using assms(2,4) by (simp_all add: branch_def)
qed

lemma branch_coins_root: "index_wf idx \<Longrightarrow> idx p = Some bi \<Longrightarrow> bi_pprev bi = None \<Longrightarrow> branch_coins env idx fs p = Some ([], Map.empty)"
  by (simp add: branch_coins_def branch_root)

lemma branch_coins_child:
  assumes "index_wf idx" "idx p = Some bi" "bi_pprev bi = Some q" "idx q = Some bq"
  shows "branch_coins env idx fs p =
    (case branch_coins env idx fs q of
       None \<Rightarrow> None
     | Some (uss, A) \<Rightarrow>
         (case disk_block env idx fs p of
            None \<Rightarrow> None
          | Some b \<Rightarrow> map_option (\<lambda>(us, A'). (uss @ [us], A')) (abs_block (ne_txid env) (int (bi_nHeight bi)) (blk_vtx b) A)))"
proof -
  note b = branch_child [OF assms]
  have h: "1 + length (branch idx q) = bi_nHeight bi" using b by simp
  show ?thesis unfolding branch_coins_def b(1) replay_snoc h ..
qed

section \<open>The invariant of the node\<close>

text \<open>The stored blocks: whatever has a position in a block file is there, under the right hash.\<close>

definition data_ok :: "node_env \<Rightarrow> BlockMap \<Rightarrow> file_state \<Rightarrow> bool" where
  "data_ok env idx fs \<longleftrightarrow>
     (\<forall>p bi. idx p = Some bi \<longrightarrow> \<not> CDiskBlockPos_IsNull (GetBlockPos bi) \<longrightarrow>
        0 \<le> bi_nFile bi \<and>
        (\<exists>b. block_at fs (GetBlockPos bi) b \<and> block_readable (be_sph env) (be_params env) b \<and> be_hash (ne_block env) b = p))"

text \<open>The stored undo data: it is that of the block on its own branch.\<close>

definition undo_ok :: "node_env \<Rightarrow> BlockMap \<Rightarrow> file_state \<Rightarrow> bool" where
  "undo_ok env idx fs \<longleftrightarrow>
     (\<forall>p bi q. idx p = Some bi \<longrightarrow> bi_pprev bi = Some q \<longrightarrow> \<not> CDiskBlockPos_IsNull (GetUndoPos bi) \<longrightarrow>
        (\<exists>uss us A. branch_coins env idx fs p = Some (uss @ [us], A) \<and>
           undo_at (crypto_sha256 (be_crypto env)) (ce_fully_valid env) fs (GetUndoPos bi) q (tl us)))"

text \<open>
  The tip represents the coins of the active branch, all of whose blocks have undo data; with no
  active block it is empty.
\<close>

definition coins_ok :: "node_env \<Rightarrow> node \<Rightarrow> bool" where
  "coins_ok env nd \<longleftrightarrow>
     (case nd_tip nd of
        None \<Rightarrow> tip_at Map.empty 0 (nd_coins nd)
      | Some t \<Rightarrow>
          (\<exists>uss A. branch_coins env (nd_idx nd) (nd_files nd) t = Some (uss, A) \<and> tip_at A t (nd_coins nd)) \<and>
          (\<forall>p \<in> set (branch (nd_idx nd) t). \<exists>bi. nd_idx nd p = Some bi \<and> \<not> CDiskBlockPos_IsNull (GetUndoPos bi)))"

text \<open>The root of the tree is the genesis block, and no block has the null hash.\<close>

definition roots_ok :: "node_env \<Rightarrow> BlockMap \<Rightarrow> bool" where
  "roots_ok env idx \<longleftrightarrow> idx 0 = None \<and> (\<forall>p bi. idx p = Some bi \<longrightarrow> (bi_pprev bi = None \<longleftrightarrow> p = be_HashGenesisBlock env))"

definition node_ok :: "node_env \<Rightarrow> node \<Rightarrow> bool" where
  "node_ok env nd \<longleftrightarrow>
     tree_wf (nd_idx nd) \<and> chain_wf (nd_idx nd) (nd_chain nd) \<and> roots_ok env (nd_idx nd) \<and>
     data_ok env (nd_idx nd) (nd_files nd) \<and> undo_ok env (nd_idx nd) (nd_files nd) \<and>
     coins_ok env nd \<and> pool_inv (ne_txid env) (nd_pool nd)"

text \<open>
  The undo data of every stored block that applies to the coins of its branch has a serialization of at
  most \<open>M\<close> bytes with its frame.
\<close>

definition undo_small :: "nat \<Rightarrow> node_env \<Rightarrow> BlockMap \<Rightarrow> file_state \<Rightarrow> bool" where
  "undo_small M env idx fs \<longleftrightarrow>
     (\<forall>p bi q b uss us A A'. idx p = Some bi \<longrightarrow> bi_pprev bi = Some q \<longrightarrow> disk_block env idx fs p = Some b \<longrightarrow>
        branch_coins env idx fs q = Some (uss, A) \<longrightarrow> abs_block (ne_txid env) (int (bi_nHeight bi)) (blk_vtx b) A = Some (us, A') \<longrightarrow>
        length (ser_CBlockUndo (ce_fully_valid env) (tl us)) + 40 \<le> M)"

text \<open>
  Stored blocks that can be taken back exactly, if they apply to the coins of their branch: they begin
  with a coinbase, no transaction has the id of a record that is still there, no input takes the last
  output of a coinstake's record (\<open>inputs_ok\<close>), and the undo data can be serialized, in at most \<open>M\<close>
  bytes with its frame. Outputs of coinstakes may be spent; it is the last one, which for a coinstake is in
  practice the empty output at its start, whose undo data loses the mark.
\<close>

definition undoable :: "nat \<Rightarrow> node_env \<Rightarrow> BlockMap \<Rightarrow> file_state \<Rightarrow> bool" where
  "undoable M env idx fs \<longleftrightarrow>
     (\<forall>p bi q b uss us A A'. idx p = Some bi \<longrightarrow> bi_pprev bi = Some q \<longrightarrow> disk_block env idx fs p = Some b \<longrightarrow>
        branch_coins env idx fs q = Some (uss, A) \<longrightarrow> abs_block (ne_txid env) (int (bi_nHeight bi)) (blk_vtx b) A = Some (us, A') \<longrightarrow>
        block_ok (ne_txid env) (int (bi_nHeight bi)) (blk_vtx b) A \<and> blk_vtx b \<noteq> [] \<and> IsCoinBase (hd (blk_vtx b)) \<and>
        valid_CBlockUndo (tl us) \<and> length (ser_CBlockUndo (ce_fully_valid env) (tl us)) + 40 \<le> M)"

lemma undoable_small: "undoable M env idx fs \<Longrightarrow> undo_small M env idx fs"
  unfolding undoable_def undo_small_def by metis

text \<open>The undo files have room for \<open>n\<close> more blocks.\<close>

definition undo_rooms :: "nat \<Rightarrow> nat \<Rightarrow> file_state \<Rightarrow> bool" where
  "undo_rooms M n fs \<longleftrightarrow> (\<forall>k. unat (bfi_nUndoSize (info_at fs k)) + n * M < 2 ^ 32)"

section \<open>Changes that keep the invariant\<close>

definition places_kept :: "BlockMap \<Rightarrow> BlockMap \<Rightarrow> bool" where
  "places_kept idx idx' \<longleftrightarrow>
     (\<forall>p. (idx p = None \<longleftrightarrow> idx' p = None) \<and> (\<forall>bi bi'. idx p = Some bi \<longrightarrow> idx' p = Some bi' \<longrightarrow> entry_kept bi bi'))"

lemma places_kept_refl [simp]: "places_kept idx idx"
  by (simp add: places_kept_def)

lemma places_kept_Some:
  assumes "places_kept idx idx'"
  shows "idx' p = Some bi' \<Longrightarrow> \<exists>bi. idx p = Some bi \<and> entry_kept bi bi'" "idx p = Some bi \<Longrightarrow> \<exists>bi'. idx' p = Some bi' \<and> entry_kept bi bi'"
  using assms by (auto simp: places_kept_def dest!: spec [of _ p])

lemma places_kept_None: "places_kept idx idx' \<Longrightarrow> idx p = None \<longleftrightarrow> idx' p = None"
  by (simp add: places_kept_def)

lemma places_kept_trans: "places_kept a b \<Longrightarrow> places_kept b c \<Longrightarrow> places_kept a c"
  by (auto simp: places_kept_def) (metis entry_kept_trans not_Some_eq)

lemma places_kept_upd: "idx p = Some bi \<Longrightarrow> entry_kept bi bi' \<Longrightarrow> places_kept idx (idx(p \<mapsto> bi'))"
  by (simp add: places_kept_def)

lemma places_kept_links: "places_kept idx idx' \<Longrightarrow> same_links idx idx'"
  unfolding same_links_def
proof
  fix p assume k: "places_kept idx idx'"
  show "map_option links (idx p) = map_option links (idx' p)"
    using places_kept_None [OF k, of p] places_kept_Some(2) [OF k, of p] by (cases "idx p") (auto simp: entry_kept_def)
qed

definition undo_kept :: "BlockMap \<Rightarrow> BlockMap \<Rightarrow> bool" where
  "undo_kept idx idx' \<longleftrightarrow> (\<forall>p bi bi'. idx p = Some bi \<longrightarrow> idx' p = Some bi' \<longrightarrow> GetUndoPos bi' = GetUndoPos bi)"

lemma undo_kept_refl [simp]: "undo_kept idx idx"
  by (simp add: undo_kept_def)

lemma undo_kept_upd: "idx p = Some bi \<Longrightarrow> GetUndoPos bi' = GetUndoPos bi \<Longrightarrow> undo_kept idx (idx(p \<mapsto> bi'))"
  by (simp add: undo_kept_def)

lemma walk_places: "places_kept idx idx' \<Longrightarrow> walk idx' n p = walk idx n p"
  using walk_same_links [OF places_kept_links] by metis

lemma branch_places: "places_kept idx idx' \<Longrightarrow> branch idx' p = branch idx p"
proof -
  assume k: "places_kept idx idx'"
  show ?thesis
  proof (cases "idx p")
    case None
    then show ?thesis using places_kept_None [OF k, of p] by (simp add: branch_def)
  next
    case (Some bi)
    then obtain bi' where "idx' p = Some bi'" "entry_kept bi bi'" using places_kept_Some(2) [OF k] by blast
    then show ?thesis using Some walk_places [OF k] by (simp add: branch_def entry_kept_def links_def)
  qed
qed

lemma data_ok_read:
  assumes "data_ok env idx fs" "idx p = Some bi"
  shows "ReadBlockFromDisk (be_sph env) (be_params env) fs p bi = Some b \<longleftrightarrow>
    block_at fs (GetBlockPos bi) b \<and> block_readable (be_sph env) (be_params env) b \<and> be_hash (ne_block env) b = p"
proof (cases "CDiskBlockPos_IsNull (GetBlockPos bi)")
  case True
  then show ?thesis by (simp add: ReadBlockFromDisk_def ReadBlockFromDisk_pos_def block_at_def)
next
  case False
  then obtain c where c: "block_at fs (GetBlockPos bi) c" "block_readable (be_sph env) (be_params env) c" "be_hash (ne_block env) c = p"
    using assms by (auto simp: data_ok_def)
  have h: "block_GetHash (be_sph env) b = be_hash (ne_block env) b" for b by (simp add: block_env.truncate_def)
  show ?thesis
    using read_block_at [OF c(1,2)] read_block_at [of fs "GetBlockPos bi" b] c h
    by (auto simp: ReadBlockFromDisk_def)
qed

lemma disk_block_places:
  assumes "data_ok env idx fs" "places_kept idx idx'" "files_keep fs fs'"
  shows "data_ok env idx' fs'" "disk_block env idx' fs' = disk_block env idx fs"
proof -
  show d: "data_ok env idx' fs'"
    unfolding data_ok_def
  proof (intro allI impI)
    fix p bi' assume "idx' p = Some bi'" "\<not> CDiskBlockPos_IsNull (GetBlockPos bi')"
    moreover obtain bi where "idx p = Some bi" "entry_kept bi bi'" using places_kept_Some(1) [OF assms(2)] calculation(1) by blast
    ultimately show "0 \<le> bi_nFile bi' \<and>
        (\<exists>b. block_at fs' (GetBlockPos bi') b \<and> block_readable (be_sph env) (be_params env) b \<and> be_hash (ne_block env) b = p)"
      using assms(1) block_at_keep [OF _ assms(3)] by (fastforce simp: data_ok_def entry_kept_def)
  qed
  show "disk_block env idx' fs' = disk_block env idx fs"
  proof
    fix p
    show "disk_block env idx' fs' p = disk_block env idx fs p"
    proof (cases "idx p")
      case None
      then show ?thesis using places_kept_None [OF assms(2), of p] by (simp add: disk_block_def)
    next
      case (Some bi)
      then obtain bi' where bi': "idx' p = Some bi'" "GetBlockPos bi' = GetBlockPos bi"
        using places_kept_Some(2) [OF assms(2)] by (auto simp: entry_kept_def)
      have "ReadBlockFromDisk (be_sph env) (be_params env) fs' p bi' = ReadBlockFromDisk (be_sph env) (be_params env) fs p bi"
      proof (cases "CDiskBlockPos_IsNull (GetBlockPos bi)")
        case True
        then show ?thesis using bi'(2) by (simp add: ReadBlockFromDisk_def ReadBlockFromDisk_pos_def)
      next
        case False
        then obtain b where b: "ReadBlockFromDisk (be_sph env) (be_params env) fs p bi = Some b"
          using assms(1) Some data_ok_read [OF assms(1) Some] by (fastforce simp: data_ok_def)
        then have "ReadBlockFromDisk (be_sph env) (be_params env) fs' p bi' = Some b"
          unfolding data_ok_read [OF assms(1) Some] data_ok_read [OF d bi'(1)] using block_at_keep [OF _ assms(3)] bi'(2) by metis
        then show ?thesis using b by simp
      qed
      then show ?thesis using Some bi'(1) by (simp add: disk_block_def)
    qed
  qed
qed

lemma branch_coins_places:
  assumes "data_ok env idx fs" "places_kept idx idx'" "files_keep fs fs'"
  shows "branch_coins env idx' fs' = branch_coins env idx fs"
  using disk_block_places(2) [OF assms] branch_places [OF assms(2)] by (intro ext) (simp add: branch_coins_def)

lemma tree_wf_places: "places_kept idx idx' \<Longrightarrow> tree_wf idx \<Longrightarrow> tree_wf idx'"
  using index_wf_same_links [OF _ places_kept_links, of idx idx'] places_kept_Some(1) [of idx idx']
  unfolding tree_wf_def entry_kept_def by metis

lemma chain_wf_places:
  assumes "places_kept idx idx'" "chain_wf idx v"
  shows "chain_wf idx' v"
proof (cases "v = []")
  case False
  then obtain p bi where p: "idx p = Some bi" "v = chain_path idx p bi" using assms(2) by (auto simp: chain_wf_def)
  then obtain bi' where "idx' p = Some bi'" "bi_nHeight bi' = bi_nHeight bi"
    using places_kept_Some(2) [OF assms(1)] by (auto simp: entry_kept_def links_def)
  then show ?thesis using p walk_places [OF assms(1)] by (auto simp: chain_wf_def chain_path_def)
qed (simp add: chain_wf_def)

lemma roots_ok_places: "places_kept idx idx' \<Longrightarrow> roots_ok env idx \<Longrightarrow> roots_ok env idx'"
  using places_kept_None [of idx idx' 0] places_kept_Some(1) [of idx idx']
  unfolding roots_ok_def entry_kept_def links_def by (metis Pair_inject)

lemma undoable_places:
  assumes "undoable M env idx fs" "data_ok env idx fs" "places_kept idx idx'" "files_keep fs fs'"
  shows "undoable M env idx' fs'"
  unfolding undoable_def
proof (intro allI impI, goal_cases)
  case (1 p bi' q b uss us A A')
  obtain bi where "idx p = Some bi" "entry_kept bi bi'" using places_kept_Some(1) [OF assms(3) 1(1)] by blast
  then show ?case
    using assms(1) 1 disk_block_places(2) [OF assms(2-4)] branch_coins_places [OF assms(2-4)]
    unfolding undoable_def entry_kept_def links_def by (metis Pair_inject)
qed

lemma undo_ok_places:
  assumes "undo_ok env idx fs" "data_ok env idx fs" "places_kept idx idx'" "undo_kept idx idx'" "files_keep fs fs'"
  shows "undo_ok env idx' fs'"
  unfolding undo_ok_def
proof (intro allI impI, goal_cases)
  case (1 p bi' q)
  obtain bi where b: "idx p = Some bi" "entry_kept bi bi'" using places_kept_Some(1) [OF assms(3) 1(1)] by blast
  have u: "GetUndoPos bi' = GetUndoPos bi" using assms(4) b(1) 1(1) by (simp add: undo_kept_def)
  show ?case
    using assms(1) b 1 u branch_coins_places [OF assms(2,3,5)] undo_at_keep [OF _ assms(5)]
    unfolding undo_ok_def entry_kept_def links_def by (metis Pair_inject)
qed

text \<open>
  A change of the node that leaves the active chain, the places of all blocks and the undo data alone,
  and only reads the tip, keeps the invariant.
\<close>

lemma node_ok_frame:
  assumes ok: "node_ok env nd" and p: "places_kept (nd_idx nd) (nd_idx nd')" "undo_kept (nd_idx nd) (nd_idx nd')"
    and c: "nd_chain nd' = nd_chain nd" and f: "files_keep (nd_files nd) (nd_files nd')"
    and t: "\<And>A h. tip_at A h (nd_coins nd) \<Longrightarrow> tip_at A h (nd_coins nd')" and mp: "pool_inv (ne_txid env) (nd_pool nd')"
  shows "node_ok env nd'"
proof -
  have d: "data_ok env (nd_idx nd) (nd_files nd)" using ok by (simp add: node_ok_def)
  have "coins_ok env nd'"
  proof (cases "nd_tip nd")
    case None
    then show ?thesis using ok t c by (simp add: node_ok_def coins_ok_def)
  next
    case (Some q)
    have "\<exists>bi. nd_idx nd' r = Some bi \<and> \<not> CDiskBlockPos_IsNull (GetUndoPos bi)" if r: "r \<in> set (branch (nd_idx nd) q)" for r
    proof -
      obtain bi where b: "nd_idx nd r = Some bi" "\<not> CDiskBlockPos_IsNull (GetUndoPos bi)"
        using ok Some r by (auto simp: node_ok_def coins_ok_def)
      then show ?thesis using places_kept_Some(2) [OF p(1) b(1)] p(2) by (auto simp: undo_kept_def)
    qed
    moreover have "\<exists>uss A. branch_coins env (nd_idx nd) (nd_files nd) q = Some (uss, A) \<and> tip_at A q (nd_coins nd)"
      using ok Some by (simp add: node_ok_def coins_ok_def)
    ultimately show ?thesis
      using Some c t branch_coins_places [OF d p(1) f] branch_places [OF p(1)] by (auto simp: coins_ok_def)
  qed
  then show ?thesis
    using ok mp c tree_wf_places [OF p(1)] chain_wf_places [OF p(1)] roots_ok_places [OF p(1)] disk_block_places(1) [OF d p(1) f]
      undo_ok_places [OF _ d p f] by (simp add: node_ok_def)
qed

section \<open>Flushing and the pool\<close>

lemma FlushStateToDisk_frame:
  assumes "FlushStateToDisk env state mode nd = (ok, state', nd')" "tip_at A h (nd_coins nd)"
  shows "ok \<Longrightarrow> (\<exists>D. nd_index nd' = (nd_index nd)\<lparr>st_setDirtyBlockIndex := D\<rparr>) \<and> files_keep (nd_files nd) (nd_files nd') \<and>
      (\<forall>k. info_at (nd_files nd') k = info_at (nd_files nd) k) \<and> nd_pool nd' = nd_pool nd \<and> tip_at A h (nd_coins nd') \<and> state' = state"
    "\<not> ok \<Longrightarrow> vs_mode state' = MODE_ERROR"
proof -
  let ?nd = "nd\<lparr>nd_store := (nd_store nd)\<lparr>cs_files := FlushBlockFile False (nd_files nd)\<rparr>\<rparr>"
  obtain c where c: "Flush DB_BatchWrite (nd_coins nd) = Some c" "tip_at A h c" using flush_tip [OF assms(2)] by blast
  have w: "nd_coins (write_dirty ?nd) = nd_coins nd" "nd_pool (write_dirty ?nd) = nd_pool nd"
      "nd_index (write_dirty ?nd) = (nd_index nd)\<lparr>st_setDirtyBlockIndex := {}\<rparr>"
      "nd_files (write_dirty ?nd) = (FlushBlockFile False (nd_files nd))\<lparr>fs_setDirtyFileInfo := {}\<rparr>"
    by (simp_all add: write_dirty_def Let_def)
  have i: "info_at (fs\<lparr>fs_setDirtyFileInfo := D\<rparr>) k = info_at fs k" for fs D k by (simp add: info_at_def)
  have k: "files_keep (nd_files nd) (nd_files (write_dirty ?nd))"
    unfolding w(4) using files_keep_Flush [of "nd_files nd" False] by (simp add: files_keep_def i)
  have s: "(nd_index nd)\<lparr>st_setDirtyBlockIndex := st_setDirtyBlockIndex (nd_index nd)\<rparr> = nd_index nd" by simp
  consider (due) "flush_due env mode nd" "ok" "state' = state" "nd' = (write_dirty ?nd)\<lparr>nd_coins := c, nd_nLastWrite := ne_nowMicros env\<rparr>"
    | (full) "\<not> ok" "vs_mode state' = MODE_ERROR" | (none) "ok" "state' = state" "nd' = nd"
    using assms(1) c(1) w(1) by (auto simp: FlushStateToDisk_def state_Error_def Let_def split: if_splits)
  note cs = this
  show "(\<exists>D. nd_index nd' = (nd_index nd)\<lparr>st_setDirtyBlockIndex := D\<rparr>) \<and> files_keep (nd_files nd) (nd_files nd') \<and>
      (\<forall>k. info_at (nd_files nd') k = info_at (nd_files nd) k) \<and> nd_pool nd' = nd_pool nd \<and> tip_at A h (nd_coins nd') \<and> state' = state"
    if o: ok
    using cs
  proof cases
    case due
    then show ?thesis using w k c(2) by (auto simp: i)
  next
    case none
    then show ?thesis using assms(2) s by (metis files_keep_refl)
  qed (use o in simp)
  show "vs_mode state' = MODE_ERROR" if "\<not> ok" using cs that by cases auto
qed

lemma resurrect_ok:
  assumes "\<And>tx. money_ok (acc_params (ne_accept env st tx))" "pool_inv (ne_txid env) mp" "tip_at A h coins"
  shows "\<exists>mp' coins'. resurrect env st vtx mp coins = Some (mp', coins') \<and> pool_inv (ne_txid env) mp' \<and> tip_at A h coins'"
  using assms(2,3)
proof (induction vtx arbitrary: mp coins)
  case (Cons tx vtx)
  let ?acc = "if IsCoinBase tx \<or> IsCoinStake tx then (Inl Silent, mp, coins)
            else AcceptToMemoryPool (ne_accept env st tx) (ne_txid env) tip_get tx False False False mp coins"
  obtain r mp1 c1 where a: "?acc = (r, mp1, c1)" by (metis prod_cases3)
  have k: "pool_inv (ne_txid env) mp1" "tip_at A h c1"
    using a Cons.prems accept_pool [OF Cons.prems(1), of "ne_accept env st tx"] accept_tip [OF Cons.prems(2)] assms(1)
    by (auto simp: money_ok_def split: if_splits)
  show ?case
  proof (cases r)
    case (Inl e)
    obtain mp2 rs where "pool_remove (ne_txid env) tx True mp1 = Some (mp2, rs)" "pool_inv (ne_txid env) mp2"
      using remove_recursive [OF k(1)] by blast
    then show ?thesis using a Inl Cons.IH [OF _ k(2)] by simp
  next
    case (Inr u)
    then show ?thesis using a Cons.IH [OF k] by simp
  qed
qed simp

lemma immature_tip:
  "tip_at A h c \<Longrightarrow> spends_immature params DB_GetCoins mp n vin c = (b, c') \<Longrightarrow> tip_at A h c'"
  by (induction vin arbitrary: c) (auto dest: tip_at_fetch split: prod.splits option.splits if_splits)

lemma immature_loop_tip:
  "tip_at A h c \<Longrightarrow> immature_loop params DB_GetCoins mp n txs c = (b, c') \<Longrightarrow> tip_at A h c'"
  by (induction txs arbitrary: c b) (auto dest: immature_tip split: prod.splits)

lemma removeCoinbaseSpends_ok:
  assumes "pool_inv txid mp" "tip_at A h c"
  shows "\<exists>mp' c'. removeCoinbaseSpends txid params DB_GetCoins n c mp = Some (mp', c') \<and> pool_inv txid mp' \<and> tip_at A h c'"
proof -
  obtain txs c' where i: "immature_loop params DB_GetCoins mp n (map (\<lambda>h. mpe_tx (the (map_of (mp_mapTx mp) h))) (queryHashes mp)) c = (txs, c')"
    by (metis surj_pair)
  then show ?thesis using remove_all_ok [OF assms(1), of txs] immature_loop_tip [OF assms(2) i] by (auto simp: removeCoinbaseSpends_def)
qed

lemma chain_tip_path: "chain_tip (chain_path idx p bi) = Some p"
  by (simp add: chain_tip_def nth_chain_path)

lemma chain_wf_tip:
  assumes "chain_wf idx v" "chain_tip v = Some t"
  obtains bi where "idx t = Some bi" "v = chain_path idx t bi"
proof -
  have "v \<noteq> []" using assms(2) by (auto simp: chain_tip_def)
  then obtain p bi where p: "idx p = Some bi" "v = chain_path idx p bi" using assms(1) by (auto simp: chain_wf_def)
  then have "p = t" using assms(2) chain_tip_path by simp
  with p show thesis using that by blast
qed

lemma UpdateTip_ok:
  assumes "index_wf (nd_idx nd)" "chain_wf (nd_idx nd) (nd_chain nd)" "nd_idx nd p = Some bi"
  shows "UpdateTip (Some p) nd = Some (nd\<lparr>nd_index := (nd_index nd)\<lparr>st_chainActive := chain_path (nd_idx nd) p bi\<rparr>,
    nd_pool := AddTransactionsUpdated 1 (nd_pool nd)\<rparr>)"
  using SetTip_path [OF assms] by (simp add: UpdateTip_def)

lemma pool_inv_updated [simp]: "pool_inv txid (AddTransactionsUpdated n mp) = pool_inv txid mp"
  by (simp add: pool_inv_def AddTransactionsUpdated_def)

context coins_view
begin

lemma disconnect_txs_abs:
  "block_ok txid h vtx A \<Longrightarrow> abs_block txid h vtx A = Some (us, cabs d) \<Longrightarrow> cinv d \<Longrightarrow>
     \<exists>c. disconnect_txs get txid h (rev (zip vtx us)) True d = Inr (True, c) \<and> cinv c \<and> cabs c = A \<and> length us = length vtx"
proof (induction vtx arbitrary: A us)
  case (Cons tx vtx)
  from Cons.prems obtain u A1 us1 where a: "abs_update txid tx h A = Some (u, A1)" "abs_block txid h vtx A1 = Some (us1, cabs d)"
      "us = u # us1" "A (txid tx) = None" "IsCoinBase tx \<or> inputs_ok (tx_vin tx) A" "block_ok txid h vtx A1"
    by (auto split: option.splits)
  from Cons.IH [OF a(6,2) Cons.prems(3)] obtain c1 where
    c1: "disconnect_txs get txid h (rev (zip vtx us1)) True d = Inr (True, c1)" "cinv c1" "cabs c1 = A1" "length us1 = length vtx" by blast
  from disconnect_tx_refines [OF c1(2), of txid tx h A u] a c1(3) show ?case
    using c1(1,4) by (auto simp: disconnect_txs_append)
qed simp

lemma disconnect_block_abs:
  assumes "block_ok txid h vtx A" "abs_block txid h vtx A = Some (us, cabs d)" "cinv d" "cache_GetBestBlock best d = hashBlock"
    "vtx \<noteq> []" "IsCoinBase (hd vtx)"
  shows "\<exists>c. DisconnectBlock get best txid vtx (Some (tl us)) hashBlock hashPrev h d = Inr (True, c) \<and>
    cinv c \<and> cabs c = A \<and> cache_hashBlock c = hashPrev"
proof -
  from disconnect_txs_abs [OF assms(1-3)] obtain c where
    c: "disconnect_txs get txid h (rev (zip vtx us)) True d = Inr (True, c)" "cinv c" "cabs c = A" "length us = length vtx" by blast
  obtain tx vtx' u us' where x: "vtx = tx # vtx'" "us = u # us'" using assms(5) c(4) by (cases vtx; cases us) auto
  have "u = []" using assms(2,6) x by (auto simp: abs_update_def split: option.splits)
  then have "DisconnectBlock get best txid vtx (Some (tl us)) hashBlock hashPrev h d = Inr (True, SetBestBlock hashPrev c)"
    using c(1,4) x assms(4) by (simp add: DisconnectBlock_def)
  with c show ?thesis by (auto simp: SetBestBlock_hash)
qed

end

section \<open>Taking back the tip keeps the invariant\<close>

lemma node_ok_move:
  assumes ok: "node_ok env nd" and p: "places_kept (nd_idx nd) (nd_idx nd')" and f: "files_keep (nd_files nd) (nd_files nd')"
    and u: "undo_ok env (nd_idx nd') (nd_files nd')" and mp: "pool_inv (ne_txid env) (nd_pool nd')"
    and q: "nd_idx nd' q = Some bq" "nd_chain nd' = chain_path (nd_idx nd') q bq"
    and c: "branch_coins env (nd_idx nd) (nd_files nd) q = Some (uss, A)" "tip_at A q (nd_coins nd')"
    and s: "\<And>r. r \<in> set (branch (nd_idx nd) q) \<Longrightarrow> \<exists>bi. nd_idx nd' r = Some bi \<and> \<not> CDiskBlockPos_IsNull (GetUndoPos bi)"
  shows "node_ok env nd'" "nd_tip nd' = Some q"
proof -
  have d: "data_ok env (nd_idx nd) (nd_files nd)" using ok by (simp add: node_ok_def)
  show t: "nd_tip nd' = Some q" using q(2) chain_tip_path by simp
  have "coins_ok env nd'"
    using t c s branch_coins_places [OF d p f] branch_places [OF p] by (auto simp: coins_ok_def)
  moreover have "chain_wf (nd_idx nd') (nd_chain nd')" using q by (auto simp: chain_wf_def)
  ultimately show "node_ok env nd'"
    using ok mp u tree_wf_places [OF p] roots_ok_places [OF p] disk_block_places(1) [OF d p f] by (simp add: node_ok_def)
qed

lemma tip_unfolds:
  assumes "node_ok env nd" "nd_tip nd = Some t" "t \<noteq> be_HashGenesisBlock env"
  obtains bi q bq b uss us A A' where "nd_idx nd t = Some bi" "bi_pprev bi = Some q" "nd_idx nd q = Some bq" "q \<noteq> 0"
    "branch (nd_idx nd) t = branch (nd_idx nd) q @ [t]" "\<not> CDiskBlockPos_IsNull (GetUndoPos bi)"
    "ReadBlockFromDisk (be_sph env) (be_params env) (nd_files nd) t bi = Some b" "disk_block env (nd_idx nd) (nd_files nd) t = Some b"
    "branch_coins env (nd_idx nd) (nd_files nd) q = Some (uss, A)"
    "abs_block (ne_txid env) (int (bi_nHeight bi)) (blk_vtx b) A = Some (us, A')" "tip_at A' t (nd_coins nd)"
    "undo_at (crypto_sha256 (be_crypto env)) (ce_fully_valid env) (nd_files nd) (GetUndoPos bi) q (tl us)"
proof -
  let ?idx = "nd_idx nd" and ?fs = "nd_files nd"
  have w: "index_wf ?idx" "chain_wf ?idx (nd_chain nd)" using assms(1) by (simp_all add: node_ok_def tree_wf_def)
  obtain bi where bi: "?idx t = Some bi" using chain_wf_tip [OF w(2) assms(2)] by blast
  then have "bi_pprev bi \<noteq> None" using assms(1,3) by (simp add: node_ok_def roots_ok_def)
  then obtain q where q: "bi_pprev bi = Some q" by blast
  obtain bq where bq: "?idx q = Some bq" using w(1) bi q by (fastforce simp: index_wf_def entry_wf_def)
  have "q \<noteq> 0" using bq assms(1) by (auto simp: node_ok_def roots_ok_def)
  note b = branch_child(1) [OF w(1) bi q bq]
  obtain uss0 A' where c: "branch_coins env ?idx ?fs t = Some (uss0, A')" "tip_at A' t (nd_coins nd)"
    "\<And>p. p \<in> set (branch ?idx t) \<Longrightarrow> \<exists>bi. ?idx p = Some bi \<and> \<not> CDiskBlockPos_IsNull (GetUndoPos bi)"
    using assms(1,2) by (auto simp: node_ok_def coins_ok_def)
  obtain uss A blk us where d: "branch_coins env ?idx ?fs q = Some (uss, A)" "disk_block env ?idx ?fs t = Some blk"
    "abs_block (ne_txid env) (int (bi_nHeight bi)) (blk_vtx blk) A = Some (us, A')" "uss0 = uss @ [us]"
    using c(1) unfolding branch_coins_child [OF w(1) bi q bq] by (auto split: option.splits)
  have n: "\<not> CDiskBlockPos_IsNull (GetUndoPos bi)" using c(3) [of t] b bi by auto
  have "undo_at (crypto_sha256 (be_crypto env)) (ce_fully_valid env) ?fs (GetUndoPos bi) q (tl us)"
  proof -
    have "undo_ok env ?idx ?fs" using assms(1) by (simp add: node_ok_def)
    then obtain uss1 us1 A1 where "branch_coins env ?idx ?fs t = Some (uss1 @ [us1], A1)"
      "undo_at (crypto_sha256 (be_crypto env)) (ce_fully_valid env) ?fs (GetUndoPos bi) q (tl us1)"
      using bi q n unfolding undo_ok_def by blast
    then show ?thesis using c(1) d(4) by simp
  qed
  then show thesis using that bi q bq \<open>q \<noteq> 0\<close> b n d(1-3) c(2) by (simp add: disk_block_def)
qed

lemma DisconnectTip_ok:
  assumes ok: "node_ok env nd" and u: "undoable M env (nd_idx nd) (nd_files nd)"
    and k: "key_compression (ce_fully_valid env) (ce_decompress env)" and m: "\<And>st tx. money_ok (acc_params (ne_accept env st tx))"
    and t: "nd_tip nd = Some t" "t \<noteq> be_HashGenesisBlock env"
  obtains r state' nd' where "DisconnectTip env state nd = Some (r, state', nd')" "\<not> r \<Longrightarrow> vs_mode state' = MODE_ERROR"
    "r \<Longrightarrow> node_ok env nd' \<and> state' = state \<and> nd_idx nd' = nd_idx nd \<and> nd_tip nd' = Option.bind (nd_idx nd t) bi_pprev \<and>
       files_keep (nd_files nd) (nd_files nd') \<and> (\<forall>k. info_at (nd_files nd') k = info_at (nd_files nd) k)"
proof -
  obtain bi q bq b uss us A A' where x: "nd_idx nd t = Some bi" "bi_pprev bi = Some q" "nd_idx nd q = Some bq" "q \<noteq> 0"
    "branch (nd_idx nd) t = branch (nd_idx nd) q @ [t]" "\<not> CDiskBlockPos_IsNull (GetUndoPos bi)"
    "ReadBlockFromDisk (be_sph env) (be_params env) (nd_files nd) t bi = Some b" "disk_block env (nd_idx nd) (nd_files nd) t = Some b"
    "branch_coins env (nd_idx nd) (nd_files nd) q = Some (uss, A)"
    "abs_block (ne_txid env) (int (bi_nHeight bi)) (blk_vtx b) A = Some (us, A')" "tip_at A' t (nd_coins nd)"
    "undo_at (crypto_sha256 (be_crypto env)) (ce_fully_valid env) (nd_files nd) (GetUndoPos bi) q (tl us)"
    using tip_unfolds [OF ok t] .
  have v: "block_ok (ne_txid env) (int (bi_nHeight bi)) (blk_vtx b) A" "blk_vtx b \<noteq> []" "IsCoinBase (hd (blk_vtx b))" "valid_CBlockUndo (tl us)"
    using u x(1,2,8,9,10) unfolding undoable_def by metis+
  have rd: "undo_ReadFromDisk (crypto_sha256 (be_crypto env)) (ce_fully_valid env) (ce_decompress env) (nd_files nd) (GetUndoPos bi) q = Some (tl us)"
    by (rule read_undo_at [OF x(12) k v(4)])
  note n = view_new [OF x(11)]
  obtain c where c: "DisconnectBlock tip_get (cache_GetBestBlock DB_GetBestBlock) (ne_txid env) (blk_vtx b) (Some (tl us)) t q
      (int (bi_nHeight bi)) (cache_new (nd_coins nd)) = Inr (True, c)" "view_inv c" "view_abs c = A" "cache_hashBlock c = q"
    using db.cache.disconnect_block_abs [OF v(1) _ n(1,3) v(2,3), of us q] x(10) n(2) by auto
  obtain c' where c': "Flush cache_BatchWrite c = Some c'" "tip_at A q (cache_base c')"
    using flush_view [OF c(2)] c(3,4) x(4) by auto
  define erased where "erased = (if length (tl us) + 1 \<noteq> length (blk_vtx b) then cs_mapStakeSpent (nd_store nd)
    else stake_spent_erase (rev (zip (blk_vtx b) ([] # tl us))) (cs_mapStakeSpent (nd_store nd)))"
  define nd1 where "nd1 = nd\<lparr>nd_store := (nd_store nd)\<lparr>cs_mapStakeSpent := erased\<rparr>, nd_coins := cache_base c'\<rparr>"
  have nd1: "nd_coins nd1 = cache_base c'" "nd_index nd1 = nd_index nd" "nd_files nd1 = nd_files nd" "nd_pool nd1 = nd_pool nd"
    by (simp_all add: nd1_def)
  obtain r state' nd2 where f: "FlushStateToDisk env state FLUSH_STATE_ALWAYS nd1 = (r, state', nd2)" by (metis prod_cases3)
  have fr: "r \<Longrightarrow> (\<exists>D. nd_index nd2 = (nd_index nd)\<lparr>st_setDirtyBlockIndex := D\<rparr>) \<and> files_keep (nd_files nd) (nd_files nd2) \<and>
      (\<forall>k. info_at (nd_files nd2) k = info_at (nd_files nd) k) \<and> nd_pool nd2 = nd_pool nd \<and> tip_at A q (nd_coins nd2) \<and> state' = state"
    "\<not> r \<Longrightarrow> vs_mode state' = MODE_ERROR"
    using FlushStateToDisk_frame [OF f, of A q] c'(2) nd1 by simp_all
  have D: "DisconnectTip env state nd = (if \<not> r then Some (False, state', nd2) else
      (case resurrect env (nd_index nd2) (blk_vtx b) (nd_pool nd2) (nd_coins nd2) of
         None \<Rightarrow> None
       | Some (mp, coins) \<Rightarrow>
           (case removeCoinbaseSpends (ne_txid env) (be_chain (ne_block env)) DB_GetCoins (word_of_nat (bi_nHeight bi)) coins mp of
              None \<Rightarrow> None
            | Some (mp, coins) \<Rightarrow> map_option (\<lambda>nd. (True, state', nd)) (UpdateTip (bi_pprev bi) (nd2\<lparr>nd_pool := mp, nd_coins := coins\<rparr>)))))"
    using t(1) x(1,2,6,7) rd c(1) c'(1) f unfolding nd1_def erased_def by (simp add: DisconnectTip_def Let_def)
  show thesis
  proof (cases r)
    case False
    then show thesis using that [of False state' nd2] D fr(2) by simp
  next
    case True
    from fr(1) [OF True] obtain D where g: "nd_index nd2 = (nd_index nd)\<lparr>st_setDirtyBlockIndex := D\<rparr>" "files_keep (nd_files nd) (nd_files nd2)"
      "\<And>k. info_at (nd_files nd2) k = info_at (nd_files nd) k" "nd_pool nd2 = nd_pool nd" "tip_at A q (nd_coins nd2)" "state' = state" by blast
    have pi: "pool_inv (ne_txid env) (nd_pool nd2)" using ok g(4) by (simp add: node_ok_def)
    obtain mp1 c1 where r1: "resurrect env (nd_index nd2) (blk_vtx b) (nd_pool nd2) (nd_coins nd2) = Some (mp1, c1)"
      "pool_inv (ne_txid env) mp1" "tip_at A q c1" using resurrect_ok [OF m pi g(5)] by blast
    obtain mp2 c2 where r2: "removeCoinbaseSpends (ne_txid env) (be_chain (ne_block env)) DB_GetCoins (word_of_nat (bi_nHeight bi)) c1 mp1 = Some (mp2, c2)"
      "pool_inv (ne_txid env) mp2" "tip_at A q c2" using removeCoinbaseSpends_ok [OF r1(2,3)] by blast
    let ?nd3 = "nd2\<lparr>nd_pool := mp2, nd_coins := c2\<rparr>"
    let ?nd4 = "?nd3\<lparr>nd_index := (nd_index ?nd3)\<lparr>st_chainActive := chain_path (nd_idx ?nd3) q bq\<rparr>, nd_pool := AddTransactionsUpdated 1 (nd_pool ?nd3)\<rparr>"
    have w: "index_wf (nd_idx nd)" "chain_wf (nd_idx nd) (nd_chain nd)" "data_ok env (nd_idx nd) (nd_files nd)" "undo_ok env (nd_idx nd) (nd_files nd)"
      using ok by (simp_all add: node_ok_def tree_wf_def)
    have e: "DisconnectTip env state nd = Some (True, state', ?nd4)"
      using D True r1(1) r2(1) x(2) UpdateTip_ok [of ?nd3 q bq] w(1,2) x(3) g(1) by simp
    have s: "\<exists>bi. nd_idx nd r = Some bi \<and> \<not> CDiskBlockPos_IsNull (GetUndoPos bi)" if "r \<in> set (branch (nd_idx nd) q)" for r
      using ok t(1) x(5) that by (auto simp: node_ok_def coins_ok_def)
    have "node_ok env ?nd4 \<and> nd_tip ?nd4 = Some q"
      using node_ok_move [OF ok, of ?nd4 q bq uss A] undo_ok_places [OF w(4,3) _ _ g(2)] g r2(2,3) x(3,9) s by simp
    then show thesis using that [OF e] g x(1,2) by simp
  qed
qed

section \<open>Connecting a block keeps the invariant\<close>

lemma write_undo_room:
  assumes "write_undo env us q bi state fs = Inr (bi', fs')"
  shows "unat (bfi_nUndoSize (info_at fs' k)) \<le> unat (bfi_nUndoSize (info_at fs k)) + (length (ser_CBlockUndo (ce_fully_valid env) us) + 40)"
proof -
  let ?n = "length (ser_CBlockUndo (ce_fully_valid env) us) + 40"
  have "unat (w + word_of_nat ?n) \<le> unat w + ?n" for w :: u32
    unfolding unat_word_ariths unat_of_nat by (meson add_left_mono le_trans mod_less_eq_dividend)
  then show ?thesis
    using assms
    by (auto simp: write_undo_def FindUndoPos_def undo_WriteToDisk_def info_at_def nth_list_update Let_def
        split: if_splits prod.splits bool.splits option.splits)
qed

lemma truncate_connect [simp]:
  "block_env.truncate (connect_env.truncate env) = block_env.truncate (env :: node_env)"
  "be_HashGenesisBlock (connect_env.truncate env) = be_HashGenesisBlock env" "be_crypto (connect_env.truncate env) = be_crypto env"
  "ce_fully_valid (connect_env.truncate env) = ce_fully_valid env" "ce_MessageStart (connect_env.truncate env) = ce_MessageStart env"
  by (simp_all add: connect_env.truncate_def block_env.truncate_def)

lemma ConnectBlock_room:
  assumes v: "view_inv view" and m: "money_ok (be_chain (block_env.truncate env))"
    and r: "ConnectBlock env tip_get best block (Some hash) bi False already state st cs view = Some (True, state', bi', dirty, cs', view')"
    and g: "be_hash (block_env.truncate env) block \<noteq> be_HashGenesisBlock env"
    and a: "abs_block (be_txid (block_env.truncate env)) (int (bi_nHeight bi)) (blk_vtx block) (view_abs view) = Some (us, A')"
  shows "unat (bfi_nUndoSize (info_at (cs_files cs') k)) \<le>
    unat (bfi_nUndoSize (info_at (cs_files cs) k)) + (length (ser_CBlockUndo (ce_fully_valid env) (tl us)) + 40)"
proof -
  let ?benv = "block_env.truncate env"
  obtain q bp acc0 acc view1 state1 cs1 where k:
    "ca_nFees acc0 = 0" "ca_nValueIn acc0 = 0" "ca_nValueOut acc0 = 0" "ca_vtxundo acc0 = []" "cs_files cs1 = cs_files cs"
    "connect_txs ?benv tip_get (strict_p2sh bi) (script_checks ?benv bi) (script_flags ?benv (st_mapBlockIndex st) block bi q)
       (int (bi_nHeight bp)) (int (bi_nHeight bi)) True (blk_vtx block) acc0 view = (Inr acc, view1)"
    "ConnectBlock_finish env False block (Some hash) bi q bp acc state1 st cs1 view1 = Some (True, state', bi', dirty, cs', view')"
    by (rule db.cache.connect_block_cases [OF r g])
  have z: "in_sint 64 (ca_nFees acc0)" "in_sint 64 (ca_nValueIn acc0)" "in_sint 64 (ca_nValueOut acc0)"
    using k(1-3) by (simp_all add: in_sint_def)
  have "ca_vtxundo acc = tl us"
    using db.cache.connect_txs_sound [OF v m z k(6)] k(4) a by auto
  then obtain b2 b3 where "write_undo env (tl us) q b2 state1 (cs_files cs) = Inr (b3, cs_files cs')"
    using ConnectBlock_finish_effect(5) [OF k(7)] k(5) by auto
  then show ?thesis by (rule write_undo_room)
qed

lemma data_ok_file:
  assumes "data_ok env idx fs" "idx p = Some bi" "\<not> CDiskBlockPos_IsNull (GetBlockPos bi)"
  shows "0 \<le> bi_nFile bi" "nat (bi_nFile bi) < length (fs_vinfoBlockFile fs)"
proof -
  obtain b where b: "0 \<le> bi_nFile bi" "block_at fs (GetBlockPos bi) b" using assms by (auto simp: data_ok_def)
  then show "0 \<le> bi_nFile bi" by simp
  have "dbp_nFile (GetBlockPos bi) = bi_nFile bi"
    using assms(3) by (simp add: GetBlockPos_def CDiskBlockPos_IsNull_def CDiskBlockPos_null_def split: if_splits)
  moreover have "0 < length (ser_CBlock b)" by (simp add: ser_CBlock_def ser_CBlockHeader_def)
  ultimately show "nat (bi_nFile bi) < length (fs_vinfoBlockFile fs)"
    using b by (auto simp: block_at_def info_at_def CBlockFileInfo_null_def split: if_splits)
qed

lemma undo_rooms_less: "undo_rooms M (Suc n) fs \<Longrightarrow> (\<And>k. unat (bfi_nUndoSize (info_at fs' k)) \<le> unat (bfi_nUndoSize (info_at fs k)) + M) \<Longrightarrow>
  undo_rooms M n fs'"
  unfolding undo_rooms_def by (metis (no_types, lifting) add.assoc add_le_mono1 le_less_trans mult_Suc)

lemma undo_rooms_same: "undo_rooms M (Suc n) fs \<Longrightarrow> (\<And>k. info_at fs' k = info_at fs k) \<Longrightarrow> undo_rooms M n fs'"
  using undo_rooms_less [of M n fs fs'] by simp

text \<open>What connecting a block makes of the coins, the files and the entry.\<close>

definition connected_to :: "nat \<Rightarrow> nat \<Rightarrow> node_env \<Rightarrow> node \<Rightarrow> u256 \<Rightarrow> CBlockIndex \<Rightarrow> chain_store \<Rightarrow> BlockView \<Rightarrow> bool" where
  "connected_to M n env nd p bi cs view \<longleftrightarrow>
     (\<exists>uss. branch_coins env (nd_idx nd) (nd_files nd) p = Some (uss, view_abs view)) \<and> view_inv view \<and> cache_hashBlock view = p \<and>
     undo_ok env ((nd_idx nd)(p \<mapsto> bi)) (cs_files cs) \<and> files_keep (nd_files nd) (cs_files cs) \<and> undo_rooms M n (cs_files cs) \<and>
     (\<forall>r \<in> set (branch (nd_idx nd) p). \<exists>b. ((nd_idx nd)(p \<mapsto> bi)) r = Some b \<and> \<not> CDiskBlockPos_IsNull (GetUndoPos b))"

lemma undo_ok_extend:
  assumes u: "undo_ok env idx fs" and d: "data_ok env idx fs" and k: "files_keep fs fs'"
    and p: "idx p = Some bi" "bi_pprev bi = Some q" "entry_kept bi bi'" "branch_coins env idx fs p = Some (uss @ [us], A)"
    and a: "undo_at (crypto_sha256 (be_crypto env)) (ce_fully_valid env) fs' (GetUndoPos bi') q (tl us)"
  shows "undo_ok env (idx(p \<mapsto> bi')) fs'"
  unfolding undo_ok_def
proof (intro allI impI, goal_cases)
  case (1 r b q')
  note c = branch_coins_places [OF d places_kept_upd [of idx p bi bi', OF p(1,3)] k]
  show ?case
  proof (cases "r = p")
    case True
    then have "b = bi'" "q' = q" using 1 p(2,3) by (auto simp: entry_kept_def links_def)
    then show ?thesis using True c p(4) a by auto
  next
    case False
    then obtain uss' us' A' where "branch_coins env idx fs r = Some (uss' @ [us'], A')"
      "undo_at (crypto_sha256 (be_crypto env)) (ce_fully_valid env) fs (GetUndoPos b) q' (tl us')"
      using u 1 unfolding undo_ok_def by (metis fun_upd_other)
    then show ?thesis using c undo_at_keep [OF _ k] by auto
  qed
qed

lemma connect_child:
  assumes ok: "node_ok env nd" and u: "undo_small M env (nd_idx nd) (nd_files nd)" and m: "money_ok (be_chain (ne_block env))"
    and s: "length (ce_MessageStart env) = 4" and rooms: "undo_rooms M (Suc n) (nd_files nd)"
    and p: "nd_idx nd p = Some bi" "bi_pprev bi = Some q" "nd_tip nd = Some q" and b: "disk_block env (nd_idx nd) (nd_files nd) p = Some block"
    and r: "ConnectBlock (ne_connect env) tip_get (cache_GetBestBlock DB_GetBestBlock) block (Some p) bi False already
       state (nd_index nd) (nd_store nd) (cache_new (nd_coins nd)) = Some (True, state', bi', dirty, cs, view)"
  shows "connected_to M n env nd p bi' cs view"
proof -
  let ?idx = "nd_idx nd" and ?fs = "nd_files nd" and ?h = "int (bi_nHeight bi)" and ?vtx = "blk_vtx block"
  have w: "index_wf ?idx" "data_ok env ?idx ?fs" "undo_ok env ?idx ?fs" using ok by (simp_all add: node_ok_def tree_wf_def)
  obtain bq where bq: "?idx q = Some bq" using w(1) p(1,2) by (fastforce simp: index_wf_def entry_wf_def)
  note e = ConnectBlock_effect [OF r]
  have rd: "block_at ?fs (GetBlockPos bi) block" "be_hash (ne_block env) block = p"
    using b p(1) data_ok_read [OF w(2) p(1)] by (simp_all add: disk_block_def)
  have g: "be_hash (block_env.truncate (ne_connect env)) block \<noteq> be_HashGenesisBlock (ne_connect env)"
    using rd(2) ok p(1,2) by (simp add: node_ok_def roots_ok_def) (metis option.discI)
  obtain uss A where c: "branch_coins env ?idx ?fs q = Some (uss, A)" "tip_at A q (nd_coins nd)"
    "\<And>r. r \<in> set (branch ?idx q) \<Longrightarrow> \<exists>b. ?idx r = Some b \<and> \<not> CDiskBlockPos_IsNull (GetUndoPos b)"
    using ok p(3) by (auto simp: node_ok_def coins_ok_def)
  note v = view_new [OF c(2)]
  have m': "money_ok (be_chain (block_env.truncate (ne_connect env)))" using m by simp
  obtain us where a: "abs_block (ne_txid env) ?h ?vtx A = Some (us, view_abs view)" "view_inv view" "cache_hashBlock view = p"
    "CDiskBlockPos_IsNull (GetUndoPos bi) \<Longrightarrow> undo_room (ne_connect env) (tl us) bi ?fs \<Longrightarrow>
       undo_at (crypto_sha256 (be_crypto env)) (ce_fully_valid env) (cs_files cs) (GetUndoPos bi') q (tl us) \<and> files_keep ?fs (cs_files cs)"
    by (rule db.cache.connect_block_sound [OF v(1) m' r g]) (use v(2) p(2) in \<open>auto simp: block_env.truncate_def\<close>)
  have bc: "branch_coins env ?idx ?fs p = Some (uss @ [us], view_abs view)"
    using branch_coins_child [OF w(1) p(1,2) bq] c(1) b a(1) by simp
  have len: "length (ser_CBlockUndo (ce_fully_valid env) (tl us)) + 40 \<le> M"
    using u p(1,2) b c(1) a(1) unfolding undo_small_def by metis
  have f: "0 \<le> bi_nFile bi" "nat (bi_nFile bi) < length (fs_vinfoBlockFile ?fs)"
    using data_ok_file [OF w(2) p(1)] rd(1) by (simp_all add: block_at_def)
  have room: "undo_room (ne_connect env) (tl us) bi ?fs"
    using f s len rooms [unfolded undo_rooms_def, rule_format, of "nat (bi_nFile bi)"] by (simp add: undo_room_def)
  have at: "undo_at (crypto_sha256 (be_crypto env)) (ce_fully_valid env) (cs_files cs) (GetUndoPos bi') q (tl us) \<and> files_keep ?fs (cs_files cs)"
  proof (cases "CDiskBlockPos_IsNull (GetUndoPos bi)")
    case False
    then obtain uss' us' A' where "branch_coins env ?idx ?fs p = Some (uss' @ [us'], A')"
      "undo_at (crypto_sha256 (be_crypto env)) (ce_fully_valid env) ?fs (GetUndoPos bi) q (tl us')"
      using w(3) p(1,2) unfolding undo_ok_def by metis
    then show ?thesis using e(5) [OF _ False] bc by simp
  qed (use a(4) room in simp)
  have "unat (bfi_nUndoSize (info_at (cs_files cs) k)) \<le> unat (bfi_nUndoSize (info_at ?fs k)) + M" for k
    using ConnectBlock_room [OF v(1) m' r g, of us "view_abs view" k] a(1) v(2) len by (simp add: block_env.truncate_def)
  then have "undo_rooms M n (cs_files cs)" by (rule undo_rooms_less [OF rooms])
  moreover have "undo_ok env (?idx(p \<mapsto> bi')) (cs_files cs)"
    using undo_ok_extend [OF w(3,2) _ p(1,2) e(1) bc] at by blast
  moreover have "\<not> CDiskBlockPos_IsNull (GetUndoPos bi')" using at by (simp add: undo_at_def Let_def)
  moreover have "branch ?idx p = branch ?idx q @ [p]" using branch_child(1) [OF w(1) p(1,2) bq] .
  ultimately show ?thesis using bc a(2,3) at c(3) by (auto simp: connected_to_def)
qed

lemma connect_root:
  assumes ok: "node_ok env nd" and rooms: "undo_rooms M (Suc n) (nd_files nd)"
    and p: "nd_idx nd p = Some bi" "bi_pprev bi = None" "nd_tip nd = None" and b: "disk_block env (nd_idx nd) (nd_files nd) p = Some block"
    and r: "ConnectBlock (ne_connect env) tip_get (cache_GetBestBlock DB_GetBestBlock) block (Some p) bi False already
       state (nd_index nd) (nd_store nd) (cache_new (nd_coins nd)) = Some (True, state', bi', dirty, cs, view)"
  shows "connected_to M n env nd p bi' cs view"
proof -
  let ?idx = "nd_idx nd" and ?fs = "nd_files nd"
  have w: "index_wf ?idx" "data_ok env ?idx ?fs" "undo_ok env ?idx ?fs" using ok by (simp_all add: node_ok_def tree_wf_def)
  have "be_hash (ne_block env) block = p" using b p(1) data_ok_read [OF w(2) p(1)] by (simp add: disk_block_def)
  then have g: "be_hash (block_env.truncate (ne_connect env)) block = be_HashGenesisBlock (ne_connect env)"
    using ok p(1,2) by (simp add: node_ok_def roots_ok_def)
  have res: "bi' = bi" "cs_files cs = ?fs" "view = SetBestBlock p (cache_new (nd_coins nd))"
    using r g by (auto simp: ConnectBlock_def Let_def split: option.splits if_splits)
  have v: "view_inv (cache_new (nd_coins nd))" "view_abs (cache_new (nd_coins nd)) = Map.empty"
    using ok p(3) view_new [of Map.empty 0 "nd_coins nd"] by (auto simp: node_ok_def coins_ok_def)
  have "?idx(p \<mapsto> bi) = ?idx" using p(1) by auto
  then show ?thesis
    using res v w p branch_root [OF w(1) p(1,2)] branch_coins_root [OF w(1) p(1,2)] undo_rooms_same [OF rooms]
    by (simp add: connected_to_def db.cache.SetBestBlock_hash)
qed

lemma InvalidChainFound_frame [simp]:
  "st_mapBlockIndex (InvalidChainFound p st) = st_mapBlockIndex st" "st_chainActive (InvalidChainFound p st) = st_chainActive st"
  by (auto simp: InvalidChainFound_def split: option.splits)

lemma InvalidBlockFound_frame:
  "places_kept (st_mapBlockIndex st) (st_mapBlockIndex (InvalidBlockFound c p st))"
  "undo_kept (st_mapBlockIndex st) (st_mapBlockIndex (InvalidBlockFound c p st))"
  "st_chainActive (InvalidBlockFound c p st) = st_chainActive st"
  by (auto simp: InvalidBlockFound_def GetUndoPos_def intro!: places_kept_upd undo_kept_upd entry_kept_status split: option.splits)

lemma undo_kept_trans: "places_kept a b \<Longrightarrow> undo_kept a b \<Longrightarrow> undo_kept b c \<Longrightarrow> undo_kept a c"
  unfolding undo_kept_def by (metis places_kept_Some(2))

lemma tip_at_ex:
  assumes "node_ok env nd"
  obtains A h where "tip_at A h (nd_coins nd)"
  using assms by (cases "nd_tip nd") (auto simp: node_ok_def coins_ok_def)

text \<open>The block that \<^verbatim>\<open>ConnectTip\<close> works on is the one on disk.\<close>

lemma ConnectTip_cases:
  assumes r: "ConnectTip env state p pblock already nd = Some (rv, state', nd')" "rv \<or> vs_mode state' \<noteq> MODE_ERROR"
    and pb: "\<And>b. pblock = Some b \<Longrightarrow> disk_block env (nd_idx nd) (nd_files nd) p = Some b"
  obtains bi block chk ok state1 bi' dirty cs view where "nd_idx nd p = Some bi" "bi_pprev bi = nd_tip nd"
    "disk_block env (nd_idx nd) (nd_files nd) p = Some block"
    "ConnectBlock (ne_connect env) tip_get (cache_GetBestBlock DB_GetBestBlock) block (Some p) bi False chk
       state (nd_index nd) (nd_store nd) (cache_new (nd_coins nd)) = Some (ok, state1, bi', dirty, cs, view)"
    "\<not> ok \<longrightarrow> \<not> rv \<and> state' = state1 \<and> (\<exists>st D. nd' = nd\<lparr>nd_store := cs, nd_coins := cache_base view, nd_index := st\<rparr> \<and>
       (let st0 = (nd_index nd)\<lparr>st_mapBlockIndex := (nd_idx nd)(p \<mapsto> bi'), st_setDirtyBlockIndex := D\<rparr> in
        st = st0 \<or> (\<exists>c. st = InvalidBlockFound c p st0)))"
    "ok \<longrightarrow> (\<exists>D mode view1. Flush cache_BatchWrite view = Some view1 \<and>
       (\<exists>ok1 state2 nd1. FlushStateToDisk env state1 mode (nd\<lparr>nd_index := (nd_index nd)\<lparr>st_mapBlockIndex := (nd_idx nd)(p \<mapsto> bi'),
           st_setDirtyBlockIndex := D\<rparr>, nd_store := cs, nd_coins := cache_base view1\<rparr>) = (ok1, state2, nd1) \<and> state' = state2 \<and>
         (rv \<longrightarrow> ok1) \<and> (ok1 \<longrightarrow> rv \<and> (\<exists>mp rs. removeForBlock (ne_txid env) (blk_vtx block) (nd_pool nd1) = Some (mp, rs) \<and>
           UpdateTip (Some p) (nd1\<lparr>nd_pool := mp\<rparr>) = Some nd'))))"
proof -
  from r(1) obtain bi where bi: "nd_idx nd p = Some bi" "bi_pprev bi = nd_tip nd"
    by (auto simp: ConnectTip_def split: option.splits if_splits)
  let ?rd = "case pblock of None \<Rightarrow> ReadBlockFromDisk (be_sph env) (be_params env) (nd_files nd) p bi | Some b \<Rightarrow> Some b"
  have "?rd \<noteq> None"
  proof
    assume n: "?rd = None"
    show False using r unfolding ConnectTip_def Let_def bi(1) option.case n by (auto simp: bi(2) state_Error_def split: if_splits)
  qed
  then obtain block where b: "?rd = Some block" by blast
  then have d: "disk_block env (nd_idx nd) (nd_files nd) p = Some block"
    using pb bi(1) by (auto simp: disk_block_def split: option.splits)
  define chk where "chk = (if pblock = None then False else already)"
  define C where "C = ConnectBlock (ne_connect env) tip_get (cache_GetBestBlock DB_GetBestBlock) block (Some p) bi False chk
       state (nd_index nd) (nd_store nd) (cache_new (nd_coins nd))"
  note r1 = r(1) [unfolded ConnectTip_def Let_def bi(1) option.case b chk_def [symmetric] C_def [symmetric]]
  from r1 bi(2) obtain ok state1 bi' dirty cs view where c: "C = Some (ok, state1, bi', dirty, cs, view)" by (cases C) auto
  let ?D = "if dirty then insert p (st_setDirtyBlockIndex (nd_index nd)) else st_setDirtyBlockIndex (nd_index nd)"
  note r2 = r1 [unfolded c option.case prod.case]
  show thesis
  proof (rule that [OF bi d, of chk ok state1 bi' dirty cs view])
    show "ConnectBlock (ne_connect env) tip_get (cache_GetBestBlock DB_GetBestBlock) block (Some p) bi False chk
       state (nd_index nd) (nd_store nd) (cache_new (nd_coins nd)) = Some (ok, state1, bi', dirty, cs, view)"
      using c by (simp add: C_def)
    show "\<not> ok \<longrightarrow> \<not> rv \<and> state' = state1 \<and> (\<exists>st D. nd' = nd\<lparr>nd_store := cs, nd_coins := cache_base view, nd_index := st\<rparr> \<and>
       (let st0 = (nd_index nd)\<lparr>st_mapBlockIndex := (nd_idx nd)(p \<mapsto> bi'), st_setDirtyBlockIndex := D\<rparr> in
        st = st0 \<or> (\<exists>c. st = InvalidBlockFound c p st0)))"
    proof
      assume n: "\<not> ok"
      let ?st0 = "(nd_index nd)\<lparr>st_mapBlockIndex := (nd_idx nd)(p \<mapsto> bi'), st_setDirtyBlockIndex := ?D\<rparr>"
      let ?st = "if IsInvalid state1 then InvalidBlockFound (vs_corruptionPossible state1) p ?st0 else ?st0"
      have y: "\<not> rv \<and> state' = state1 \<and> nd' = nd\<lparr>nd_store := cs, nd_coins := cache_base view, nd_index := ?st\<rparr>"
        using r2 n bi(2) by (auto split del: if_split)
      show "\<not> rv \<and> state' = state1 \<and> (\<exists>st D. nd' = nd\<lparr>nd_store := cs, nd_coins := cache_base view, nd_index := st\<rparr> \<and>
       (let st0 = (nd_index nd)\<lparr>st_mapBlockIndex := (nd_idx nd)(p \<mapsto> bi'), st_setDirtyBlockIndex := D\<rparr> in
        st = st0 \<or> (\<exists>c. st = InvalidBlockFound c p st0)))"
        unfolding Let_def by (rule conjI, use y in simp, rule conjI, use y in simp, rule exI [of _ ?st], rule exI [of _ ?D]) (use y in auto)
    qed
    show "ok \<longrightarrow> (\<exists>D mode view1. Flush cache_BatchWrite view = Some view1 \<and>
       (\<exists>ok1 state2 nd1. FlushStateToDisk env state1 mode (nd\<lparr>nd_index := (nd_index nd)\<lparr>st_mapBlockIndex := (nd_idx nd)(p \<mapsto> bi'),
           st_setDirtyBlockIndex := D\<rparr>, nd_store := cs, nd_coins := cache_base view1\<rparr>) = (ok1, state2, nd1) \<and> state' = state2 \<and>
         (rv \<longrightarrow> ok1) \<and> (ok1 \<longrightarrow> rv \<and> (\<exists>mp rs. removeForBlock (ne_txid env) (blk_vtx block) (nd_pool nd1) = Some (mp, rs) \<and>
           UpdateTip (Some p) (nd1\<lparr>nd_pool := mp\<rparr>) = Some nd'))))"
    proof
      assume o: ok
      obtain view1 where f: "Flush cache_BatchWrite view = Some view1" using r2 o bi(2) by (auto split: option.splits)
      let ?mode = "flush_mode ((nd_idx nd)(p \<mapsto> bi')) bi'"
      let ?nd = "nd\<lparr>nd_index := (nd_index nd)\<lparr>st_mapBlockIndex := (nd_idx nd)(p \<mapsto> bi'), st_setDirtyBlockIndex := ?D\<rparr>, nd_store := cs, nd_coins := cache_base view1\<rparr>"
      obtain ok1 state2 nd1 where fl: "FlushStateToDisk env state1 ?mode ?nd = (ok1, state2, nd1)" by (metis prod_cases3)
      have "state' = state2 \<and> (rv \<longrightarrow> ok1) \<and> (ok1 \<longrightarrow> rv \<and> (\<exists>mp rs. removeForBlock (ne_txid env) (blk_vtx block) (nd_pool nd1) = Some (mp, rs) \<and>
           UpdateTip (Some p) (nd1\<lparr>nd_pool := mp\<rparr>) = Some nd'))"
        using r2 o bi(2) f fl by (auto split: option.splits bool.splits)
      then show "\<exists>D mode view1. Flush cache_BatchWrite view = Some view1 \<and>
       (\<exists>ok1 state2 nd1. FlushStateToDisk env state1 mode (nd\<lparr>nd_index := (nd_index nd)\<lparr>st_mapBlockIndex := (nd_idx nd)(p \<mapsto> bi'),
           st_setDirtyBlockIndex := D\<rparr>, nd_store := cs, nd_coins := cache_base view1\<rparr>) = (ok1, state2, nd1) \<and> state' = state2 \<and>
         (rv \<longrightarrow> ok1) \<and> (ok1 \<longrightarrow> rv \<and> (\<exists>mp rs. removeForBlock (ne_txid env) (blk_vtx block) (nd_pool nd1) = Some (mp, rs) \<and>
           UpdateTip (Some p) (nd1\<lparr>nd_pool := mp\<rparr>) = Some nd')))"
        using f fl by blast
    qed
  qed
qed

lemma undo_rooms_Suc: "undo_rooms M (Suc n) fs \<Longrightarrow> undo_rooms M n fs"
  using undo_rooms_same [of M n fs fs] by simp

lemma ConnectTip_ok:
  assumes ok: "node_ok env nd" and u: "undo_small M env (nd_idx nd) (nd_files nd)" and m: "money_ok (be_chain (ne_block env))"
    and s: "length (ce_MessageStart env) = 4" and rooms: "undo_rooms M (Suc n) (nd_files nd)"
    and pb: "\<And>b. pblock = Some b \<Longrightarrow> disk_block env (nd_idx nd) (nd_files nd) p = Some b"
    and r: "ConnectTip env state p pblock already nd = Some (rv, state', nd')" "rv \<or> vs_mode state' \<noteq> MODE_ERROR"
  shows "node_ok env nd' \<and> places_kept (nd_idx nd) (nd_idx nd') \<and> files_keep (nd_files nd) (nd_files nd') \<and> undo_rooms M n (nd_files nd') \<and>
    (if rv then nd_tip nd' = Some p else nd_chain nd' = nd_chain nd)"
proof -
  let ?idx = "nd_idx nd" and ?fs = "nd_files nd"
  obtain bi block chk rb state1 bi' dirty cs view where x: "?idx p = Some bi" "bi_pprev bi = nd_tip nd"
    "disk_block env ?idx ?fs p = Some block"
    "ConnectBlock (ne_connect env) tip_get (cache_GetBestBlock DB_GetBestBlock) block (Some p) bi False chk
       state (nd_index nd) (nd_store nd) (cache_new (nd_coins nd)) = Some (rb, state1, bi', dirty, cs, view)"
    "\<not> rb \<longrightarrow> \<not> rv \<and> state' = state1 \<and> (\<exists>st D. nd' = nd\<lparr>nd_store := cs, nd_coins := cache_base view, nd_index := st\<rparr> \<and>
       (let st0 = (nd_index nd)\<lparr>st_mapBlockIndex := ?idx(p \<mapsto> bi'), st_setDirtyBlockIndex := D\<rparr> in
        st = st0 \<or> (\<exists>c. st = InvalidBlockFound c p st0)))"
    "rb \<longrightarrow> (\<exists>D mode view1. Flush cache_BatchWrite view = Some view1 \<and>
       (\<exists>ok1 state2 nd1. FlushStateToDisk env state1 mode (nd\<lparr>nd_index := (nd_index nd)\<lparr>st_mapBlockIndex := ?idx(p \<mapsto> bi'),
           st_setDirtyBlockIndex := D\<rparr>, nd_store := cs, nd_coins := cache_base view1\<rparr>) = (ok1, state2, nd1) \<and> state' = state2 \<and>
         (rv \<longrightarrow> ok1) \<and> (ok1 \<longrightarrow> rv \<and> (\<exists>mp rs. removeForBlock (ne_txid env) (blk_vtx block) (nd_pool nd1) = Some (mp, rs) \<and>
           UpdateTip (Some p) (nd1\<lparr>nd_pool := mp\<rparr>) = Some nd'))))"
    by (rule ConnectTip_cases [OF r pb])
  note e = ConnectBlock_effect [OF x(4)]
  have pk: "places_kept ?idx (?idx(p \<mapsto> bi'))" by (rule places_kept_upd [of ?idx p bi, OF x(1) e(1)])
  have w: "index_wf ?idx" "chain_wf ?idx (nd_chain nd)" "pool_inv (ne_txid env) (nd_pool nd)"
    using ok by (simp_all add: node_ok_def tree_wf_def)
  show ?thesis
  proof (cases rb)
    case False
    from x(5) [rule_format, OF False] obtain st D where y: "\<not> rv" "state' = state1" "nd' = nd\<lparr>nd_store := cs, nd_coins := cache_base view, nd_index := st\<rparr>"
      "let st0 = (nd_index nd)\<lparr>st_mapBlockIndex := ?idx(p \<mapsto> bi'), st_setDirtyBlockIndex := D\<rparr> in st = st0 \<or> (\<exists>c. st = InvalidBlockFound c p st0)" by blast
    let ?st0 = "(nd_index nd)\<lparr>st_mapBlockIndex := ?idx(p \<mapsto> bi'), st_setDirtyBlockIndex := D\<rparr>"
    have uk: "undo_kept ?idx (?idx(p \<mapsto> bi'))" by (rule undo_kept_upd [of ?idx p bi, OF x(1) e(2) [OF False]])
    have k: "places_kept ?idx (st_mapBlockIndex st)" "undo_kept ?idx (st_mapBlockIndex st)" "st_chainActive st = nd_chain nd"
      using y(4) pk uk InvalidBlockFound_frame [where st = ?st0 and p = p] places_kept_trans [OF pk] undo_kept_trans [OF pk uk] by (auto simp: Let_def)
    have f: "cs_files cs = ?fs" using e(4) [OF False] r(2) y(1,2) by simp
    have t: "tip_at A h (cache_base view)" if "tip_at A h (nd_coins nd)" for A h
      using e(3) [OF False] that by (simp add: cache_new_def)
    have "node_ok env nd'" by (rule node_ok_frame [OF ok]) (use y k f t w in simp_all)
    then show ?thesis using y k f undo_rooms_Suc [OF rooms] by simp
  next
    case True
    then have x4: "ConnectBlock (ne_connect env) tip_get (cache_GetBestBlock DB_GetBestBlock) block (Some p) bi False chk
       state (nd_index nd) (nd_store nd) (cache_new (nd_coins nd)) = Some (True, state1, bi', dirty, cs, view)" using x(4) by simp
    have ct: "connected_to M n env nd p bi' cs view"
    proof (cases "nd_tip nd")
      case None
      then show ?thesis using connect_root [OF ok rooms x(1) _ _ x(3) x4] x(2) by simp
    next
      case (Some q)
      then show ?thesis using connect_child [OF ok u m s rooms x(1) _ _ x(3) x4] x(2) by simp
    qed
    then obtain uss where c: "branch_coins env ?idx ?fs p = Some (uss, view_abs view)" "view_inv view" "cache_hashBlock view = p"
      "undo_ok env (?idx(p \<mapsto> bi')) (cs_files cs)" "files_keep ?fs (cs_files cs)" "undo_rooms M n (cs_files cs)"
      "\<And>r. r \<in> set (branch ?idx p) \<Longrightarrow> \<exists>b. (?idx(p \<mapsto> bi')) r = Some b \<and> \<not> CDiskBlockPos_IsNull (GetUndoPos b)"
      by (auto simp: connected_to_def)
    have "p \<noteq> 0" using x(1) ok by (auto simp: node_ok_def roots_ok_def)
    then obtain view2 where fv: "Flush cache_BatchWrite view = Some view2" "tip_at (view_abs view) p (cache_base view2)"
      using flush_view [OF c(2)] c(3) by auto
    from x(6) [rule_format, OF True] fv(1) obtain D mode ok1 nd1 where y:
      "FlushStateToDisk env state1 mode (nd\<lparr>nd_index := (nd_index nd)\<lparr>st_mapBlockIndex := ?idx(p \<mapsto> bi'),
           st_setDirtyBlockIndex := D\<rparr>, nd_store := cs, nd_coins := cache_base view2\<rparr>) = (ok1, state', nd1)"
      "rv \<Longrightarrow> ok1" "ok1 \<Longrightarrow> rv \<and> (\<exists>mp rs. removeForBlock (ne_txid env) (blk_vtx block) (nd_pool nd1) = Some (mp, rs) \<and>
           UpdateTip (Some p) (nd1\<lparr>nd_pool := mp\<rparr>) = Some nd')" by auto
    note fr = FlushStateToDisk_frame [OF y(1), of "view_abs view" p, simplified, OF fv(2)]
    have "ok1" using fr(2) r(2) y(2) by blast
    then obtain D' where g: "nd_index nd1 = (nd_index nd)\<lparr>st_mapBlockIndex := ?idx(p \<mapsto> bi'), st_setDirtyBlockIndex := D'\<rparr>"
      "files_keep (cs_files cs) (nd_files nd1)" "\<And>k. info_at (nd_files nd1) k = info_at (cs_files cs) k" "nd_pool nd1 = nd_pool nd"
      "tip_at (view_abs view) p (nd_coins nd1)" using fr(1) by auto
    obtain mp rs where mp: "rv" "removeForBlock (ne_txid env) (blk_vtx block) (nd_pool nd1) = Some (mp, rs)"
      "UpdateTip (Some p) (nd1\<lparr>nd_pool := mp\<rparr>) = Some nd'" using y(3) [OF \<open>ok1\<close>] by blast
    have pi: "pool_inv (ne_txid env) mp" using removeForBlock_ok [of "ne_txid env" "nd_pool nd1" "blk_vtx block"] mp(2) g(4) w(3) by auto
    have ui: "UpdateTip (Some p) (nd1\<lparr>nd_pool := mp\<rparr>) = Some (nd1\<lparr>nd_index := (nd_index nd1)\<lparr>st_chainActive := chain_path (?idx(p \<mapsto> bi')) p bi'\<rparr>,
        nd_pool := AddTransactionsUpdated 1 mp\<rparr>)"
      using UpdateTip_ok [of "nd1\<lparr>nd_pool := mp\<rparr>" p bi'] index_wf_same_links [OF w(1) places_kept_links [OF pk]] chain_wf_places [OF pk w(2)] g(1) by simp
    then have nd': "nd_idx nd' = ?idx(p \<mapsto> bi')" "nd_chain nd' = chain_path (?idx(p \<mapsto> bi')) p bi'" "nd_files nd' = nd_files nd1"
      "nd_coins nd' = nd_coins nd1" "nd_pool nd' = AddTransactionsUpdated 1 mp" using mp(3) g(1) by auto
    have fk: "files_keep ?fs (nd_files nd1)" using files_keep_trans [OF c(5) g(2)] .
    have do: "data_ok env (?idx(p \<mapsto> bi')) (cs_files cs)" using disk_block_places(1) [OF _ pk c(5)] ok by (simp add: node_ok_def)
    have "node_ok env nd' \<and> nd_tip nd' = Some p"
      using node_ok_move [OF ok, of nd' p bi' uss "view_abs view"] undo_ok_places [OF c(4) do places_kept_refl undo_kept_refl g(2)]
        pk fk pi c(1,7) g(5) by (simp add: nd')
    moreover have "undo_rooms M n (nd_files nd')" using c(6) g(3) by (simp add: undo_rooms_def nd')
    ultimately show ?thesis using mp(1) pk fk by (simp add: nd')
  qed
qed

section \<open>The loops of the activation\<close>

text \<open>What the steps of the activation leave in place.\<close>

definition step_keeps :: "node \<Rightarrow> node \<Rightarrow> bool" where
  "step_keeps nd nd' \<longleftrightarrow> places_kept (nd_idx nd) (nd_idx nd') \<and> files_keep (nd_files nd) (nd_files nd')"

lemma step_keeps_refl [simp]: "step_keeps nd nd"
  by (simp add: step_keeps_def)

lemma step_keeps_trans: "step_keeps a b \<Longrightarrow> step_keeps b c \<Longrightarrow> step_keeps a c"
  using places_kept_trans files_keep_trans unfolding step_keeps_def by blast

lemma step_keeps_disk:
  assumes "step_keeps nd nd'" "node_ok env nd"
  shows "disk_block env (nd_idx nd') (nd_files nd') = disk_block env (nd_idx nd) (nd_files nd)"
    "undoable M env (nd_idx nd) (nd_files nd) \<Longrightarrow> undoable M env (nd_idx nd') (nd_files nd')"
proof -
  have k: "data_ok env (nd_idx nd) (nd_files nd)" "places_kept (nd_idx nd) (nd_idx nd')" "files_keep (nd_files nd) (nd_files nd')"
    using assms by (simp_all add: step_keeps_def node_ok_def)
  show "disk_block env (nd_idx nd') (nd_files nd') = disk_block env (nd_idx nd) (nd_files nd)"
    by (rule disk_block_places(2) [OF k])
  show "undoable M env (nd_idx nd) (nd_files nd) \<Longrightarrow> undoable M env (nd_idx nd') (nd_files nd')"
    by (rule undoable_places [OF _ k])
qed

lemma disconnect_loop_ok:
  assumes "node_ok env nd" "undoable M env (nd_idx nd) (nd_files nd)"
    and k: "key_compression (ce_fully_valid env) (ce_decompress env)" and m: "\<And>st tx. money_ok (acc_params (ne_accept env st tx))"
    and "nd_tip nd = Some t" "walk (nd_idx nd) n t = Some f" "n \<le> fuel"
  shows "\<exists>r state' nd'. disconnect_loop fuel env (Some f) state nd = Some (r, state', nd') \<and> (\<not> r \<longrightarrow> vs_mode state' = MODE_ERROR) \<and>
    (r \<longrightarrow> node_ok env nd' \<and> state' = state \<and> nd_tip nd' = Some f \<and> nd_idx nd' = nd_idx nd \<and> step_keeps nd nd' \<and>
       (\<forall>k. info_at (nd_files nd') k = info_at (nd_files nd) k))"
  using assms(1,2,5-7)
proof (induction n arbitrary: fuel nd t)
  case 0
  then show ?case by (intro exI [of _ True] exI [of _ state] exI [of _ nd]) (simp add: disconnect_loop.simps)
next
  case (Suc n)
  show ?case
  proof (cases "t = f")
    case True
    then show ?thesis using Suc.prems by (intro exI [of _ True] exI [of _ state] exI [of _ nd]) (simp add: disconnect_loop.simps)
  next
    case False
    obtain fuel' where fuel: "fuel = Suc fuel'" using Suc.prems(5) by (cases fuel) auto
    have "chain_wf (nd_idx nd) (nd_chain nd)" using Suc.prems(1) by (simp add: node_ok_def)
    then obtain bi where bi: "nd_idx nd t = Some bi" using chain_wf_tip [OF _ Suc.prems(3)] by blast
    have w: "index_wf (nd_idx nd)" using Suc.prems(1) by (simp add: node_ok_def tree_wf_def)
    then have "entry_wf (nd_idx nd) t bi" using bi by (simp add: index_wf_def)
    then have "bi_pprev bi \<noteq> None" using walk_le_height [OF w bi Suc.prems(4)] by (cases "bi_pprev bi") (simp_all add: entry_wf_def)
    then obtain q where q: "bi_pprev bi = Some q" by blast
    have "t \<noteq> be_HashGenesisBlock env" using Suc.prems(1) bi q by (simp add: node_ok_def roots_ok_def) (metis option.discI)
    then obtain r state' nd1 where d: "DisconnectTip env state nd = Some (r, state', nd1)" "\<not> r \<Longrightarrow> vs_mode state' = MODE_ERROR"
      "r \<Longrightarrow> node_ok env nd1 \<and> state' = state \<and> nd_idx nd1 = nd_idx nd \<and> nd_tip nd1 = Option.bind (nd_idx nd t) bi_pprev \<and>
       files_keep (nd_files nd) (nd_files nd1) \<and> (\<forall>k. info_at (nd_files nd1) k = info_at (nd_files nd) k)"
      using DisconnectTip_ok [OF Suc.prems(1,2) k m Suc.prems(3)] by blast
    have l: "disconnect_loop fuel env (Some f) state nd = (if r then disconnect_loop fuel' env (Some f) state' nd1 else Some (False, state', nd1))"
      unfolding fuel by (subst disconnect_loop.simps) (use d(1) Suc.prems(3) False in \<open>simp split: bool.split\<close>)
    show ?thesis
    proof (cases r)
      case True
      from d(3) [OF True] have g: "node_ok env nd1" "state' = state" "nd_idx nd1 = nd_idx nd" "nd_tip nd1 = Some q" "step_keeps nd nd1"
        "\<And>k. info_at (nd_files nd1) k = info_at (nd_files nd) k" using bi q by (auto simp: step_keeps_def)
      have "walk (nd_idx nd1) n q = Some f" using walk_Suc' [of "nd_idx nd" t bi q n, OF bi q] Suc.prems(4) g(3) by simp
      then show ?thesis
        using Suc.IH [OF g(1) step_keeps_disk(2) [OF g(5) Suc.prems(1,2)] g(4), of fuel'] Suc.prems(5) fuel l True g step_keeps_trans [OF g(5)] by auto
    next
      case False
      then show ?thesis using l d(2) by (intro exI [of _ False] exI [of _ state'] exI [of _ nd1]) simp
    qed
  qed
qed

lemma connect_blocks_ok:
  assumes m: "money_ok (be_chain (ne_block env))" and s: "length (ce_MessageStart env) = 4"
    and "node_ok env nd" "undoable M env (nd_idx nd) (nd_files nd)" "undo_rooms M (n + length ps) (nd_files nd)"
    and "\<And>b. pblock = Some b \<Longrightarrow> disk_block env (nd_idx nd) (nd_files nd) most = Some b"
    and "connect_blocks env most pblock checked old first ps state nd = Some (e, state', nd')" "e \<noteq> BatchFail \<or> vs_mode state' \<noteq> MODE_ERROR"
  shows "node_ok env nd' \<and> step_keeps nd nd' \<and> undo_rooms M n (nd_files nd') \<and>
    (e = BatchDone \<longrightarrow> nd_tip nd' = (if ps = [] then nd_tip nd else Some (last ps)))"
  using assms(3-)
proof (induction ps arbitrary: nd state)
  case (Cons p ps)
  let ?pb = "if p = most then pblock else None"
  obtain rv state1 nd1 where c: "ConnectTip env state p ?pb checked nd = Some (rv, state1, nd1)"
    using Cons.prems(5) by (auto split: option.splits)
  have pb: "\<And>b. ?pb = Some b \<Longrightarrow> disk_block env (nd_idx nd) (nd_files nd) p = Some b" using Cons.prems(4) by (auto split: if_splits)
  have rooms: "undo_rooms M (Suc (n + length ps)) (nd_files nd)" using Cons.prems(3) by simp
  note ok = ConnectTip_ok [OF Cons.prems(1) undoable_small [OF Cons.prems(2)] m s rooms pb c]
  show ?case
  proof (cases rv)
    case False
    have e: "state1 = state' \<and> e = BatchFail \<and> nd' = nd1 \<or> IsInvalid state1 \<and> e = BatchStop \<and>
        nd_idx nd' = nd_idx nd1 \<and> nd_chain nd' = nd_chain nd1 \<and> nd_store nd' = nd_store nd1 \<and> nd_coins nd' = nd_coins nd1 \<and> nd_pool nd' = nd_pool nd1"
      using Cons.prems(5) c False by (auto split: if_splits)
    then have "vs_mode state1 \<noteq> MODE_ERROR" using Cons.prems(6) by (auto simp: IsInvalid_def)
    with ok have g: "node_ok env nd1" "step_keeps nd nd1" "undo_rooms M (n + length ps) (nd_files nd1)" by (auto simp: step_keeps_def)
    have "node_ok env nd'"
      using e g(1) node_ok_frame [OF g(1), of nd'] by (auto simp: node_ok_def)
    moreover have "undo_rooms M n (nd_files nd1)" using g(3) unfolding undo_rooms_def by (metis add_lessD1 distrib_right add.assoc)
    ultimately show ?thesis using e g by (auto simp: step_keeps_def)
  next
    case True
    with ok have g: "node_ok env nd1" "step_keeps nd nd1" "undo_rooms M (n + length ps) (nd_files nd1)" "nd_tip nd1 = Some p" by (auto simp: step_keeps_def)
    obtain st where st: "PruneBlockIndexCandidates (ne_addr env) (nd_index nd1) = Some st"
      using Cons.prems(5) c True by (auto split: option.splits)
    let ?nd = "nd1\<lparr>nd_index := st\<rparr>"
    have i: "st_mapBlockIndex st = nd_idx nd1" "st_chainActive st = nd_chain nd1"
      using st by (auto simp: PruneBlockIndexCandidates_def Let_def split: if_splits)
    have nk: "node_ok env ?nd" by (rule node_ok_frame [OF g(1)]) (use i g(1) in \<open>simp_all add: node_ok_def\<close>)
    have sk: "step_keeps nd ?nd" using g(2) i by (simp add: step_keeps_def)
    note sd = step_keeps_disk [OF sk Cons.prems(1)]
    consider (stop) "e = BatchStop" "nd' = ?nd" | (go) "connect_blocks env most pblock checked old first ps state1 ?nd = Some (e, state', nd')"
      using Cons.prems(5) c True st by (auto simp: Let_def split: if_splits)
    then show ?thesis
    proof cases
      case stop
      moreover have "undo_rooms M n (nd_files nd1)" using g(3) unfolding undo_rooms_def by (metis add_lessD1 distrib_right add.assoc)
      ultimately show ?thesis using nk sk by simp
    next
      case go
      have "node_ok env nd' \<and> step_keeps ?nd nd' \<and> undo_rooms M n (nd_files nd') \<and>
        (e = BatchDone \<longrightarrow> nd_tip nd' = (if ps = [] then nd_tip ?nd else Some (last ps)))"
        using Cons.IH [OF nk sd(2) [OF Cons.prems(2)] _ _ go Cons.prems(6)] g(3) sd(1) Cons.prems(4) by simp
      then show ?thesis using step_keeps_trans [OF sk] g(4) i by auto
    qed
  qed
qed simp

lemma ancestors_above_length:
  assumes "index_wf idx" "idx p = Some bi" "int (bi_nHeight bi) = nHeight + int k" "- 1 \<le> nHeight" "k < fuel"
  shows "length (ancestors_above fuel idx nHeight (Some p)) = k" "0 < k \<Longrightarrow> last (ancestors_above fuel idx nHeight (Some p)) = p"
proof -
  have "length (ancestors_above fuel idx nHeight (Some p)) = k \<and> (0 < k \<longrightarrow> last (ancestors_above fuel idx nHeight (Some p)) = p)"
    using assms(2,3,5)
  proof (induction k arbitrary: fuel p bi)
    case 0
    then show ?case by (cases fuel) auto
  next
    case (Suc k)
    obtain f where fuel: "fuel = Suc f" using Suc.prems(3) by (cases fuel) auto
    have e: "entry_wf idx p bi" using assms(1) Suc.prems(1) by (simp add: index_wf_def)
    show ?case
    proof (cases "bi_pprev bi")
      case None
      then have "k = 0" using e Suc.prems(2) assms(4) by (simp add: entry_wf_def)
      then show ?thesis using None Suc.prems fuel by (cases f) auto
    next
      case (Some q)
      then obtain bq where q: "idx q = Some bq" "bi_nHeight bi = bi_nHeight bq + 1" using e by (auto simp: entry_wf_def)
      have "length (ancestors_above f idx nHeight (Some q)) = k" using Suc.IH [OF q(1), of f] q(2) Suc.prems(2,3) fuel by simp
      then show ?thesis using Some Suc.prems(1,2) fuel by simp
    qed
  qed
  then show "length (ancestors_above fuel idx nHeight (Some p)) = k" "0 < k \<Longrightarrow> last (ancestors_above fuel idx nHeight (Some p)) = p" by auto
qed

lemma connect_batches_ok:
  assumes m: "money_ok (be_chain (ne_block env))" and s: "length (ce_MessageStart env) = 4"
    and "node_ok env nd" "undoable M env (nd_idx nd) (nd_files nd)" "undo_rooms M n (nd_files nd)"
    and "\<And>b. pblock = Some b \<Longrightarrow> disk_block env (nd_idx nd) (nd_files nd) most = Some b"
    and "nd_idx nd most = Some b0" "bi_nHeight b0 = bi_nHeight bm" "- 1 \<le> nHeight" "nHeight + int n = int (bi_nHeight bm)"
    and "connect_batches fuel env most bm pblock checked old nHeight state nd = Some (r, state', nd')" "r \<or> vs_mode state' \<noteq> MODE_ERROR"
  shows "node_ok env nd' \<and> step_keeps nd nd'"
  using assms(3-)
proof (induction fuel arbitrary: nd state nHeight n b0)
  case (Suc fuel)
  show ?case
  proof (cases "n = 0")
    case True
    then show ?thesis using Suc.prems by simp
  next
    case False
    define T where "T = min (nHeight + 32) (int (bi_nHeight bm))"
    define ps where "ps = ancestors_above 33 (nd_idx nd) nHeight (GetAncestor (nd_idx nd) most T)"
    define k where "k = min 32 n"
    have T: "T = nHeight + int k" "0 \<le> T" "T \<le> int (bi_nHeight b0)" "0 < k" "k \<le> n" "k < 33"
      using Suc.prems(6-8) False by (auto simp: T_def k_def)
    have w: "index_wf (nd_idx nd)" using Suc.prems(1) by (simp add: node_ok_def tree_wf_def)
    obtain a ba where a: "GetAncestor (nd_idx nd) most T = Some a" "nd_idx nd a = Some ba" "int (bi_nHeight ba) = T"
      using GetAncestor_walk [OF w Suc.prems(5), of T] walk_height [OF w Suc.prems(5), of "bi_nHeight b0 - nat T"] T(2,3) by auto
    have len: "length ps = k"
      unfolding ps_def a(1) by (rule ancestors_above_length(1) [OF w a(2)]) (use a(3) T Suc.prems(7) in auto)
    obtain e state1 nd1 where c: "connect_blocks env most pblock checked old (hd ps) ps state nd = Some (e, state1, nd1)"
      using Suc.prems(8,9) False unfolding connect_batches.simps Let_def T_def [symmetric] ps_def [symmetric]
      by (auto split: option.splits if_splits)
    have rest: "if e = BatchFail then r = False \<and> state' = state1 \<and> nd' = nd1
      else if e = BatchStop then nd' = nd1 else connect_batches fuel env most bm pblock checked old T state1 nd1 = Some (r, state', nd')"
      using Suc.prems(8,9) False c unfolding connect_batches.simps Let_def T_def [symmetric] ps_def [symmetric]
      by (cases e) (auto split: if_splits)
    have "e \<noteq> BatchFail \<or> vs_mode state1 \<noteq> MODE_ERROR" using rest Suc.prems(10) by (auto split: if_splits)
    then have g: "node_ok env nd1" "step_keeps nd nd1" "undo_rooms M (n - k) (nd_files nd1)"
      using connect_blocks_ok [OF m s Suc.prems(1,2) _ Suc.prems(4) c, of "n - k"] Suc.prems(3) len T(5) by simp_all
    show ?thesis
    proof (cases "e = BatchDone")
      case True
      note sd = step_keeps_disk [OF g(2) Suc.prems(1)]
      obtain b1 where b1: "nd_idx nd1 most = Some b1" "bi_nHeight b1 = bi_nHeight bm"
        using places_kept_Some(2) [of "nd_idx nd" "nd_idx nd1" most b0] g(2) Suc.prems(5,6) by (auto simp: step_keeps_def entry_kept_def links_def)
      have "node_ok env nd' \<and> step_keeps nd1 nd'"
        using Suc.IH [OF g(1) sd(2) [OF Suc.prems(2)] g(3) _ b1, of T state1] rest True Suc.prems(4,8,10) T sd(1) by simp
      then show ?thesis using step_keeps_trans [OF g(2)] by blast
    next
      case False
      then show ?thesis using rest g by (cases e) auto
    qed
  qed
qed simp

lemma Contains_walk:
  assumes "index_wf idx" "idx t = Some bt" "Contains idx (chain_path idx t bt) f"
  obtains n where "walk idx n t = Some f" "n \<le> bi_nHeight bt"
proof -
  obtain bf where f: "idx f = Some bf" "chain_at (chain_path idx t bt) (int (bi_nHeight bf)) = Some f"
    using assms(3) by (auto simp: Contains_def split: option.splits)
  then have h: "bi_nHeight bf \<le> bi_nHeight bt" by (auto simp: chain_at_def split: if_splits)
  then have "walk idx (bi_nHeight bt - bi_nHeight bf) t = Some f" using f(2) by (auto simp: chain_at_def nth_chain_path split: if_splits)
  then show thesis using that [of "bi_nHeight bt - bi_nHeight bf"] by simp
qed

text \<open>The fork of an entry and the active chain is on the chain, or the chain is empty.\<close>

lemma fork_on_chain:
  assumes ok: "node_ok env nd" and p: "nd_idx nd p = Some bp" and f: "FindFork (nd_idx nd) (nd_chain nd) p = Some fork"
  shows "(nd_tip nd = None \<and> fork = None) \<or>
    (\<exists>t q n m. nd_tip nd = Some t \<and> fork = Some q \<and> walk (nd_idx nd) n t = Some q \<and> n \<le> length (nd_chain nd) \<and> walk (nd_idx nd) m p = Some q)"
proof -
  let ?idx = "nd_idx nd" and ?v = "nd_chain nd"
  have w: "index_wf ?idx" "chain_wf ?idx ?v" "roots_ok env ?idx" using ok by (simp_all add: node_ok_def tree_wf_def)
  have fp: "fork_point ?idx ?v p fork" using FindFork_ok [OF w(1,2) p] f by auto
  have root: "\<exists>n. walk ?idx n q = Some (be_HashGenesisBlock env) \<and> n = bi_nHeight b" if b: "?idx q = Some b" for q b
  proof -
    obtain g bg where g: "walk ?idx (bi_nHeight b) q = Some g" "?idx g = Some bg" "bi_nHeight bg = 0"
      using walk_height [OF w(1) b, of "bi_nHeight b"] by auto
    then have "g = be_HashGenesisBlock env" using index_wf_root [OF w(1) g(2,3)] w(3) g(2) by (simp add: roots_ok_def)
    then show ?thesis using g(1) by blast
  qed
  show ?thesis
  proof (cases "nd_tip nd")
    case None
    then have "?v = []" using w(2) chain_tip_path by (auto simp: chain_wf_def)
    then have "\<not> Contains ?idx ?v q" for q by (simp add: Contains_def chain_at_def split: option.split)
    then show ?thesis using fp None by (auto simp: fork_point_def split: option.splits)
  next
    case (Some t)
    obtain bt where t: "?idx t = Some bt" "?v = chain_path ?idx t bt" using chain_wf_tip [OF w(2) Some] by blast
    have len: "length ?v = bi_nHeight bt + 1" using t(2) by simp
    show ?thesis
    proof (cases fork)
      case (Some q)
      then obtain m where "Contains ?idx ?v q" "walk ?idx m p = Some q" using fp by (auto simp: fork_point_def)
      moreover from this(1) obtain n where "walk ?idx n t = Some q" "n \<le> bi_nHeight bt"
        using Contains_walk [OF w(1) t(1), of q] unfolding t(2) by blast
      ultimately show ?thesis using len Some \<open>nd_tip nd = Some t\<close> by (intro disjI2 exI [of _ t] exI [of _ q] exI [of _ n] exI [of _ m]) simp
    next
      case None
      obtain m where m: "walk ?idx m p = Some (be_HashGenesisBlock env)" using root [OF p] by blast
      obtain bg where bg: "?idx (be_HashGenesisBlock env) = Some bg" using walk_dom [OF w(1) p m] by blast
      have "bi_nHeight bg = 0" using w(1,3) bg by (fastforce simp: roots_ok_def index_wf_def entry_wf_def)
      then have "Contains ?idx ?v (be_HashGenesisBlock env)"
        using bg root [OF t(1)] t(2) nth_chain_path [of 0 bt ?idx t] by (simp add: Contains_def chain_at_def)
      then show ?thesis using fp None m by (auto simp: fork_point_def)
    qed
  qed
qed

lemma undo_rooms_mono: "undo_rooms M n fs \<Longrightarrow> m \<le> n \<Longrightarrow> undo_rooms M m fs"
  unfolding undo_rooms_def by (meson add_le_mono le_less_trans mult_le_mono1 order_refl)

lemma ActivateBestChainStep_ok:
  assumes ok: "node_ok env nd" and u: "undoable M env (nd_idx nd) (nd_files nd)"
    and k: "key_compression (ce_fully_valid env) (ce_decompress env)" and m: "\<And>st tx. money_ok (acc_params (ne_accept env st tx))"
    and m': "money_ok (be_chain (ne_block env))" and s: "length (ce_MessageStart env) = 4"
    and p: "nd_idx nd most = Some bm" and rooms: "undo_rooms M (bi_nHeight bm + 1) (nd_files nd)"
    and pb: "\<And>b. pblock = Some b \<Longrightarrow> disk_block env (nd_idx nd) (nd_files nd) most = Some b"
    and r: "ActivateBestChainStep env state most pblock checked nd = Some (rv, state', nd')" "rv \<or> vs_mode state' \<noteq> MODE_ERROR"
  shows "node_ok env nd' \<and> step_keeps nd nd'"
proof -
  let ?idx = "nd_idx nd" and ?chk = "if pblock = None then False else checked"
  have w: "index_wf ?idx" "chain_wf ?idx (nd_chain nd)" using ok by (simp_all add: node_ok_def tree_wf_def)
  obtain fork where f: "FindFork ?idx (nd_chain nd) most = Some fork" using FindFork_ok [OF w p] by blast
  obtain rv1 state1 nd1 where d: "disconnect_loop (length (nd_chain nd)) env fork state nd = Some (rv1, state1, nd1)"
    using r(1) p f by (auto simp: ActivateBestChainStep_def Let_def split: option.splits)
  have D: "(\<not> rv1 \<longrightarrow> vs_mode state1 = MODE_ERROR) \<and>
      (rv1 \<longrightarrow> node_ok env nd1 \<and> nd_idx nd1 = ?idx \<and> step_keeps nd nd1 \<and> (\<forall>k. info_at (nd_files nd1) k = info_at (nd_files nd) k))"
    and h: "\<exists>n \<le> bi_nHeight bm + 1. (case Option.bind fork ?idx of None \<Rightarrow> - 1 | Some bf \<Rightarrow> int (bi_nHeight bf)) + int n = int (bi_nHeight bm)"
  proof -
    consider "nd_tip nd = None" "fork = None" | t q n j where "nd_tip nd = Some t" "fork = Some q" "walk ?idx n t = Some q" "n \<le> length (nd_chain nd)" "walk ?idx j most = Some q"
      using fork_on_chain [OF ok p f] by (elim disjE exE conjE) simp_all
    note cs = this
    show "(\<not> rv1 \<longrightarrow> vs_mode state1 = MODE_ERROR) \<and>
      (rv1 \<longrightarrow> node_ok env nd1 \<and> nd_idx nd1 = ?idx \<and> step_keeps nd nd1 \<and> (\<forall>k. info_at (nd_files nd1) k = info_at (nd_files nd) k))"
      using cs
    proof cases
      case 1
      then show ?thesis using d ok by (simp add: disconnect_loop.simps)
    next
      case 2
      then show ?thesis using disconnect_loop_ok [OF ok u k m 2(1,3,4), of state] d by auto
    qed
    show "\<exists>n \<le> bi_nHeight bm + 1. (case Option.bind fork ?idx of None \<Rightarrow> - 1 | Some bf \<Rightarrow> int (bi_nHeight bf)) + int n = int (bi_nHeight bm)"
      using cs
    proof cases
      case 1
      then show ?thesis by (intro exI [of _ "bi_nHeight bm + 1"]) simp
    next
      case 2
      have "j \<le> bi_nHeight bm" by (rule walk_le_height [OF w(1) p 2(5)])
      then show ?thesis using walk_height [OF w(1) p, of j] 2(2,5) by (intro exI [of _ j]) auto
    qed
  qed
  show ?thesis
  proof (cases rv1)
    case False
    then show ?thesis using r p f d D by (simp add: ActivateBestChainStep_def Let_def)
  next
    case True
    with D have g: "node_ok env nd1" "nd_idx nd1 = ?idx" "step_keeps nd nd1" "\<And>k. info_at (nd_files nd1) k = info_at (nd_files nd) k" by auto
    obtain n where n: "n \<le> bi_nHeight bm + 1"
      "(case Option.bind fork ?idx of None \<Rightarrow> - 1 | Some bf \<Rightarrow> int (bi_nHeight bf)) + int n = int (bi_nHeight bm)" using h by blast
    have rm: "undo_rooms M n (nd_files nd1)" using undo_rooms_mono [OF rooms n(1)] g(4) by (simp add: undo_rooms_def)
    have c: "connect_batches (bi_nHeight bm + 2) env most bm pblock ?chk (nd_tip nd)
        (case Option.bind fork ?idx of None \<Rightarrow> - 1 | Some bf \<Rightarrow> int (bi_nHeight bf)) state1 nd1 = Some (rv, state', nd')"
      using r(1) p f d True g(2) unfolding ActivateBestChainStep_def Let_def by (simp del: connect_batches.simps split del: if_split)
    note sd = step_keeps_disk [OF g(3) ok]
    have pb1: "\<And>b. pblock = Some b \<Longrightarrow> disk_block env (nd_idx nd1) (nd_files nd1) most = Some b" using pb sd(1) by simp
    have "node_ok env nd' \<and> step_keeps nd1 nd'"
      by (rule connect_batches_ok [OF m' s g(1) sd(2) [OF u] rm pb1 _ _ _ n(2) c r(2)]) (use p g(2) in \<open>auto split: option.split\<close>)
    then show ?thesis using step_keeps_trans [OF g(3)] by blast
  qed
qed

section \<open>A sample node\<close>

text \<open>Two stored blocks, of which the first is the genesis block and active; the hash of a block is its version.\<close>

definition version_sph :: sph where
  "version_sph = \<lparr>sph_blake512 = (\<lambda>x. [hd x]), sph_bmw512 = (\<lambda>x. x), sph_groestl512 = (\<lambda>x. x), sph_jh512 = (\<lambda>x. x),
     sph_keccak512 = (\<lambda>x. x), sph_skein512 = (\<lambda>x. x)\<rparr>"

definition node_block :: "int \<Rightarrow> CBlock" where
  "node_block v = pow_block\<lparr>hdr_nVersion := v\<rparr>"

definition sample_node_env :: node_env where
  "sample_node_env = connect_env.extend (sample_connect_env\<lparr>be_sph := version_sph\<rparr>)
     \<lparr>ne_nCoinCacheSize = 5000, ne_nowMicros = 0, ne_addr = unat, ne_accept = (\<lambda>_ _. sample_accept)\<rparr>"

definition node_file :: CBlockFileInfo where
  "node_file = CBlockFileInfo_null\<lparr>bfi_nSize := 1000\<rparr>"

definition node_files :: file_state where
  "node_files = \<lparr>fs_vinfoBlockFile = [node_file, node_file], fs_nLastBlockFile = 1, fs_setDirtyFileInfo = {},
     fs_blk = [0 \<mapsto> ser_CBlock (node_block 1), 1 \<mapsto> ser_CBlock (node_block 2)], fs_rev = Map.empty\<rparr>"

definition node_entry :: "nat \<Rightarrow> CBlockIndex" where
  "node_entry h = (sample_entry (if h = 0 then None else Some 1) (if h = 0 then None else Some 1) h 100)\<lparr>bi_nFile := int h, bi_nStatus := 11\<rparr>"

definition node_index :: index_state where
  "node_index = \<lparr>st_mapBlockIndex = [1 \<mapsto> node_entry 0, 2 \<mapsto> node_entry 1], st_chainActive = [Some 1], st_setBlockIndexCandidates = [2],
     st_mapBlocksUnlinked = [], st_nBlockSequenceId = 1, st_pindexBestHeader = None, st_pindexBestInvalid = None, st_setDirtyBlockIndex = {},
     st_setStakeSeen = {}, st_mapProofOfStake = Map.empty\<rparr>"

definition sample_node :: node where
  "sample_node = \<lparr>nd_index = node_index, nd_store = empty_store\<lparr>cs_files := node_files\<rparr>, nd_coins = cache_new \<lparr>db_coins = [], db_best = 1\<rparr>,
     nd_pool = CTxMemPool_empty, nd_dbFiles = Map.empty, nd_dbLastFile = 0, nd_nLastWrite = 0\<rparr>"

lemma node_env_simps [simp]:
  "be_sph sample_node_env = version_sph" "be_params sample_node_env = pow_CMainParams" "be_HashGenesisBlock sample_node_env = 1"
  "be_crypto sample_node_env = sample_crypto\<lparr>crypto_sha256 := length_hash\<rparr>"
  "ce_fully_valid sample_node_env = (\<lambda>k. k = sample_key)" "ce_decompress sample_node_env = sample_decompress"
  "ce_MessageStart sample_node_env = [1, 2, 3, 4]" "ce_nFree sample_node_env = 1000000000" "ne_accept sample_node_env st tx = sample_accept"
  "ne_addr sample_node_env = unat" "ne_nCoinCacheSize sample_node_env = 5000"
  "connect_env.truncate sample_node_env = sample_connect_env\<lparr>be_sph := version_sph\<rparr>"
  "block_env.truncate sample_node_env = sample_block_env\<lparr>be_crypto := sample_crypto\<lparr>crypto_sha256 := length_hash\<rparr>, be_sph := version_sph\<rparr>"
  by (simp_all add: sample_node_env_def sample_connect_env_def sample_block_env_def connect_env.extend_def connect_env.truncate_def
      block_env.extend_def block_env.truncate_def)

lemma node_simps [simp]:
  "nd_idx sample_node = [1 \<mapsto> node_entry 0, 2 \<mapsto> node_entry 1]" "nd_chain sample_node = [Some 1]" "nd_files sample_node = node_files"
  "nd_pool sample_node = CTxMemPool_empty" "nd_tip sample_node = Some 1" "st_setBlockIndexCandidates (nd_index sample_node) = [2]"
  "bi_nHeight (node_entry h) = h" "bi_nFile (node_entry h) = int h" "bi_pprev (node_entry 0) = None" "bi_pprev (node_entry (Suc 0)) = Some 1"
  "bi_pskip (node_entry (Suc 0)) = Some 1" "length (bi_nChainWork (node_entry h)) = WIDTH" "GetUndoPos (node_entry h) = CDiskBlockPos_null"
  "GetBlockPos (node_entry h) = \<lparr>dbp_nFile = int h, dbp_nPos = 0\<rparr>" "bi_nMoneySupply (node_entry h) = 0"
  by (simp_all add: sample_node_def node_index_def chain_tip_def node_entry_def sample_entry_def GetUndoPos_def GetBlockPos_def)

lemma chain_tip_single [simp]: "chain_tip [x] = x"
  by (simp add: chain_tip_def)

lemma node_block_simps [simp]: "blk_vtx (node_block v) = [sample_coinbase]" "\<not> block_IsProofOfStake (node_block v)" "hdr_nVersion (node_block v) = v"
  by (simp_all add: node_block_def block_IsProofOfStake_def)

lemma header_first: "hd (ser_CBlockHeader h) = hd (ser_int 4 (hdr_nVersion h))"
proof -
  have "length (ser_int 4 (hdr_nVersion h)) = 4" by (simp add: ser_int_def)
  then have "ser_int 4 (hdr_nVersion h) \<noteq> []" by fastforce
  then show ?thesis by (simp add: ser_CBlockHeader_def)
qed

lemma node_first: "hd (ser_int 4 1) = (1 :: byte)" "hd (ser_int 4 2) = (2 :: byte)"
  by code_simp+

lemma node_hash: "block_GetHash version_sph (node_block 1) = 1" "block_GetHash version_sph (node_block 2) = 2"
  by (simp_all add: block_GetHash_def HashQuark_def version_sph_def header_first node_first Let_def quark_bit_def trim256_def)

lemma node_readable: "in_sint 32 v \<Longrightarrow> block_readable version_sph pow_CMainParams (node_block v)"
  by (simp add: block_readable_def valid_CBlock_def valid_CBlockHeader_def valid_vector_def node_block_def pow_block_def CBlockHeader_null_def
      CBlockHeader.extend_def in_sint_def CheckProofOfWork_def pow_CMainParams_def CChainParams.extend_def
      CMainParams_def valid_CTransaction_def sample_coinbase_def valid_CTxIn_def valid_CTxOut_def valid_bytes_def block_IsProofOfStake_def)

lemma node_block_length: "length (ser_CBlock (node_block v)) = 144"
  by (simp add: ser_CBlock_def length_ser_CBlockHeader sample_coinbase_def ser_CTransaction_def ser_vector_def ser_CTxIn_def ser_CTxOut_def ser_COutPoint_def
      ser_int_def ser_word_def ser_bytes_def length_WriteCompactSize GetSizeOfCompactSize_def)

lemma node_block_at: "block_at node_files \<lparr>dbp_nFile = 0, dbp_nPos = 0\<rparr> (node_block 1)" "block_at node_files \<lparr>dbp_nFile = 1, dbp_nPos = 0\<rparr> (node_block 2)"
  by (simp_all add: block_at_def node_files_def node_file_def CDiskBlockPos_IsNull_def info_at_def node_block_length)


lemma node_lookup:
  assumes "([1 \<mapsto> node_entry 0, 2 \<mapsto> node_entry 1] :: BlockMap) p = Some bi"
  shows "p = 1 \<and> bi = node_entry 0 \<or> p = 2 \<and> bi = node_entry 1"
  using assms by (auto split: if_splits)

lemma node_index_wf: "index_wf [1 \<mapsto> node_entry 0, 2 \<mapsto> node_entry 1]"
  unfolding index_wf_def
proof (intro allI impI)
  fix p bi assume "([1 \<mapsto> node_entry 0, 2 \<mapsto> node_entry 1] :: BlockMap) p = Some bi"
  from node_lookup [OF this] show "entry_wf [1 \<mapsto> node_entry 0, 2 \<mapsto> node_entry 1] p bi"
    by (elim disjE conjE) (simp_all add: entry_wf_def GetSkipHeight_def walk_def deref_def)
qed

lemma node_data: "data_ok sample_node_env [1 \<mapsto> node_entry 0, 2 \<mapsto> node_entry 1] node_files"
  unfolding data_ok_def
proof (intro allI impI)
  fix p bi assume "([1 \<mapsto> node_entry 0, 2 \<mapsto> node_entry 1] :: BlockMap) p = Some bi"
  from node_lookup [OF this] show "0 \<le> bi_nFile bi \<and> (\<exists>b. block_at node_files (GetBlockPos bi) b \<and>
      block_readable (be_sph sample_node_env) (be_params sample_node_env) b \<and> be_hash (ne_block sample_node_env) b = p)"
    using node_block_at node_hash node_readable [of 1] node_readable [of 2]
    by (elim disjE conjE) (auto simp: in_sint_def)
qed

lemma node_disk: "disk_block sample_node_env [1 \<mapsto> node_entry 0, 2 \<mapsto> node_entry 1] node_files 2 = Some (node_block 2)"
  using data_ok_read [OF node_data, of 2 "node_entry 1" "node_block 2"] node_block_at(2) node_hash(2) node_readable [of 2]
  by (simp add: disk_block_def in_sint_def)

lemma node_root: "branch_coins sample_node_env [1 \<mapsto> node_entry 0, 2 \<mapsto> node_entry 1] node_files 1 = Some ([], Map.empty)"
  by (rule branch_coins_root [OF node_index_wf, of 1 "node_entry 0"]) simp_all

lemma node_tip: "tip_at Map.empty 1 (nd_coins sample_node)"
  using db.cache_new_inv [of "\<lparr>db_coins = [], db_best = 1\<rparr>"] db.cache_new_abs [of "\<lparr>db_coins = [], db_best = 1\<rparr>"]
  by (simp add: tip_at_def sample_node_def DB_inv_def DB_abs_def cache_GetBestBlock_def cache_new_def DB_GetBestBlock_def fun_eq_iff)

lemma sample_node_ok: "node_ok sample_node_env sample_node"
proof -
  let ?idx = "[1 \<mapsto> node_entry 0, 2 \<mapsto> node_entry 1] :: BlockMap"
  have "tree_wf ?idx" using node_index_wf node_lookup by (fastforce simp: tree_wf_def)
  moreover have "chain_wf ?idx [Some 1]"
    unfolding chain_wf_def by (intro disjI2 exI [of _ 1] exI [of _ "node_entry 0"]) (simp add: chain_path_def)
  moreover have "roots_ok sample_node_env ?idx" using node_lookup by (fastforce simp: roots_ok_def)
  moreover have "undo_ok sample_node_env ?idx node_files"
    unfolding undo_ok_def using node_lookup by (fastforce simp: CDiskBlockPos_IsNull_def CDiskBlockPos_null_def)
  moreover have "coins_ok sample_node_env sample_node"
    using node_root node_tip branch_root [OF node_index_wf, of 1 "node_entry 0"] by (simp add: coins_ok_def chain_tip_def)
  ultimately show ?thesis using node_data by (simp add: node_ok_def empty_pool_inv)
qed

lemma node_abs: "abs_block (GetHash length_hash) 1 [sample_coinbase] Map.empty = Some ([[]], [63 \<mapsto> FromTx sample_coinbase 1])"
  by (simp add: abs_update_def sample_txids coins_opt_def)
    (simp add: FromTx_def sample_coinbase_def ClearUnspendable_def Cleanup_def Cleanup_vout_def IsPruned_def CTxOut_IsNull_def IsUnspendable_def)

lemma sample_undoable: "undoable 50 sample_node_env (nd_idx sample_node) (nd_files sample_node)"
  unfolding undoable_def
proof (intro allI impI, goal_cases)
  case (1 p bi q b uss us A A')
  then have p: "p = 2" "bi = node_entry 1" "q = 1" using node_lookup [of p bi] by auto
  then have x: "b = node_block 2" "A = Map.empty" using 1(3,4) node_disk node_root by simp_all
  then have "us = [[]]" using 1(5) p node_abs by simp
  moreover have "length (ser_CBlockUndo (\<lambda>k. k = sample_key) []) = 1"
    by (simp add: ser_CBlockUndo_def ser_vector_def length_WriteCompactSize GetSizeOfCompactSize_def)
  ultimately show ?case using x p node_abs by (simp add: valid_CBlockUndo_def valid_vector_def split: option.splits)
qed

lemma sample_money: "money_ok (be_chain (ne_block sample_node_env))" "money_ok (acc_params (ne_accept sample_node_env st tx))"
  by (simp_all add: money_ok_def sample_block_env_def pow_CMainParams_def CMainParams_def CChainParams.extend_def CChainParams.truncate_def sample_accept_def)

lemma sample_rooms: "undo_rooms 50 1000 (nd_files sample_node)"
  by (simp add: undo_rooms_def node_files_def info_at_def node_file_def CBlockFileInfo_null_def nth_Cons')


lemma node_write_undo:
  assumes "bi_nFile bi = 1"
  shows "\<exists>bi' fs'. write_undo (sample_connect_env\<lparr>be_sph := version_sph\<rparr>) [] q bi state node_files = Inr (bi', fs')"
proof -
  have l: "length (ser_CBlockUndo (\<lambda>k. k = sample_key) []) = 1"
    by (simp add: ser_CBlockUndo_def ser_vector_def length_WriteCompactSize GetSizeOfCompactSize_def)
  have "preallocate 1000000000 UNDOFILE_CHUNK_SIZE 0 41 None \<noteq> None"
    by (simp add: preallocate_def CheckDiskSpace_def Let_def)
  then show ?thesis
    using assms l
    by (auto simp: write_undo_def FindUndoPos_def undo_WriteToDisk_def node_files_def info_at_def node_file_def CBlockFileInfo_null_def
        CDiskBlockPos_IsNull_def Let_def sample_connect_env_def block_env.extend_def split: option.split)
qed

lemma SetBestBlock_coins: "cache_coins (SetBestBlock h v) = cache_coins v"
  by (simp add: SetBestBlock_def)

lemma node_update:
  "\<exists>v1. UpdateCoins tip_get (GetHash length_hash) sample_coinbase 1 (cache_new (nd_coins sample_node)) = Some ([], v1) \<and>
     length (cache_coins (cache_base v1)) = 0 \<and> length (cache_coins v1) = 1"
proof -
  have "\<not> IsPruned (Cleanup (FromTx sample_coinbase 1))"
    by (simp add: FromTx_def sample_coinbase_def ClearUnspendable_def Cleanup_def Cleanup_vout_def IsPruned_def CTxOut_IsNull_def IsUnspendable_def)
  then show ?thesis
    by (simp add: UpdateCoins_def ModifyCoins_def modify_entry_def release_entry_def sample_node_def cache_new_def cache_GetCoins_def FetchCoins_def
        DB_GetCoins_def sample_txids Let_def)
qed

lemma node_connect:
  "\<exists>state' bi' dirty cs' view'. ConnectBlock (sample_connect_env\<lparr>be_sph := version_sph\<rparr>) tip_get (cache_GetBestBlock DB_GetBestBlock) (node_block 2) (Some 2)
     (node_entry 1) False True CValidationState_new node_index (nd_store sample_node) (cache_new (nd_coins sample_node)) = Some (True, state', bi', dirty, cs', view') \<and>
     length (cache_coins (cache_base view')) = 0 \<and> length (cache_coins view') = 1"
proof -
  let ?env = "sample_block_env\<lparr>be_crypto := sample_crypto\<lparr>crypto_sha256 := length_hash\<rparr>, be_sph := version_sph\<rparr>"
  let ?cenv = "sample_connect_env\<lparr>be_sph := version_sph\<rparr>"
  define acc where "acc = \<lparr>ca_nFees = 0, ca_nValueIn = 0, ca_nValueOut = 0, ca_nSigOps = 0,
     ca_pos = CDiskBlockPos.extend (GetBlockPos (node_entry 1)) \<lparr>dtp_nTxOffset = word_of_nat (GetSizeOfCompactSize (length (blk_vtx (node_block 2))))\<rparr>,
     ca_vPos = [], ca_vtxundo = []\<rparr>"
  have env: "block_env.truncate ?cenv = ?env" "be_HashGenesisBlock ?cenv = 1" "be_params ?cenv = pow_CMainParams"
    by (simp_all add: sample_connect_env_def sample_block_env_def block_env.extend_def block_env.truncate_def)
  note v = view_new [OF node_tip]
  obtain v1 where v1: "UpdateCoins tip_get (GetHash length_hash) sample_coinbase 1 (cache_new (nd_coins sample_node)) = Some ([], v1)"
      "length (cache_coins (cache_base v1)) = 0" "length (cache_coins v1) = 1"
    using node_update by blast
  have so: "GetLegacySigOpCount sample_coinbase = 0"
    by (simp add: GetLegacySigOpCount_def sample_coinbase_def GetSigOpCount_def GetSigOpCount_loop.simps GetOp2_data_def)
  have vo: "GetValueOut sample_coinbase = Inr 8" by (simp add: GetValueOut_def sample_coinbase_def swrap_def)
  obtain acc' where l: "connect_txs ?env tip_get strict scripts flags 0 1 True [sample_coinbase] acc (cache_new (nd_coins sample_node)) = (Inr acc', v1)"
    "ca_nFees acc' = 0" "ca_nValueIn acc' = 0" "ca_nValueOut acc' = 8" "ca_vtxundo acc' = []" for strict scripts flags
    using v1(1) by (simp add: acc_def connect_tx_def Let_def so vo swrap_def)
  have idx: "st_mapBlockIndex node_index = [1 \<mapsto> node_entry 0, 2 \<mapsto> node_entry 1]" "st_chainActive node_index = [Some 1]" by (simp_all add: node_index_def)
  let ?cs = "(nd_store sample_node)\<lparr>cs_mapRejectedBlocks := cs_mapRejectedBlocks (nd_store sample_node)\<rparr>"
  have e: "ConnectBlock ?cenv tip_get (cache_GetBestBlock DB_GetBestBlock) (node_block 2) (Some 2) (node_entry 1) False True
     CValidationState_new node_index (nd_store sample_node) (cache_new (nd_coins sample_node)) =
     ConnectBlock_finish ?cenv False (node_block 2) (Some 2) (node_entry 1) 1 (node_entry 0) acc' CValidationState_new node_index ?cs v1"
    using l(1) unfolding acc_def
    by (simp add: ConnectBlock_def Let_def v(3) env node_hash pow_CMainParams_def CMainParams_def CChainParams.extend_def idx del: connect_txs.simps)
  define b2 where "b2 = (node_entry 1)\<lparr>bi_nMoneySupply := 8, bi_nMint := 8\<rparr>"
  obtain b3 fs where b3: "write_undo ?cenv [] 1 b2 CValidationState_new node_files = Inr (b3, fs)"
    using node_write_undo [of b2 1 CValidationState_new] by (auto simp: b2_def)
  have m: "ce_IsBlockValueValid ?cenv I C b (expected_mint (CChainParams.truncate pow_CMainParams) (node_block 2) (node_entry 0) (node_entry 0) 0) 8" for I C b
    by (simp add: sample_connect_env_def block_env.extend_def expected_mint_def Let_def pow_CMainParams_def CMainParams_def CChainParams.truncate_def
        CChainParams.extend_def GetBlockValue_def base_subsidy_def swrap_def)
  have f: "\<exists>state' bi' dirty cs' view'. ConnectBlock_finish ?cenv False (node_block 2) (Some 2) (node_entry 1) 1 (node_entry 0) acc' CValidationState_new node_index ?cs v1 =
      Some (True, state', bi', dirty, cs', view')"
  proof (rule ConnectBlock_finish_intro)
    show "Option.bind (chain_tip (st_chainActive node_index)) (st_mapBlockIndex node_index) = Some (node_entry 0)"
      by (simp add: idx chain_tip_def)
    show "b2 = (node_entry 1)\<lparr>bi_nMoneySupply := swrap 64 (bi_nMoneySupply (node_entry 0) + ca_nValueOut acc' - ca_nValueIn acc'),
        bi_nMint := swrap 64 (swrap 64 (bi_nMoneySupply (node_entry 0) + ca_nValueOut acc' - ca_nValueIn acc') - bi_nMoneySupply (node_entry 0) + ca_nFees acc')\<rparr>"
      by (simp add: b2_def l swrap_def node_entry_def sample_entry_def)
    show "write_undo ?cenv (ca_vtxundo acc') 1 b2 CValidationState_new (cs_files ?cs) = Inr (b3, fs)"
      using b3 node_simps(3) by (simp add: l)
  qed (use m in \<open>simp add: idx l b2_def env sample_block_env_def\<close>)
  then obtain state' bi' dirty cs' view' where g: "ConnectBlock_finish ?cenv False (node_block 2) (Some 2) (node_entry 1) 1 (node_entry 0) acc' CValidationState_new node_index ?cs v1 =
      Some (True, state', bi', dirty, cs', view')" by blast
  have "view' = SetBestBlock 2 v1" by (rule ConnectBlock_finish_sound(3) [OF g])
  then show ?thesis using e g v1(2,3) by (auto simp: SetBestBlock_coins)
qed


lemma update_length: "length (AList.update k v m) \<le> Suc (length m)"
  by (induction m) auto

lemma batch_loop_length: "batch_loop cs m = Some m' \<Longrightarrow> length m' \<le> length cs + length m"
proof (induction cs arbitrary: m)
  case (Cons kv cs)
  obtain k e where kv: "kv = (k, e)" by (cases kv)
  obtain m1 where m1: "batch_entry k e m = Some m1" "batch_loop cs m1 = Some m'" using Cons.prems by (auto simp: kv split: option.splits)
  have "length m1 \<le> Suc (length m)"
    using m1(1) update_length [of k _ m] length_delete_le [of k m]
    by (auto simp: batch_entry_def split: if_splits option.splits intro: le_SucI)
  then show ?case using Cons.IH [OF m1(2)] by simp
qed simp

lemma Flush_length:
  assumes "Flush cache_BatchWrite v = Some v'"
  shows "length (cache_coins (cache_base v')) \<le> length (cache_coins v) + length (cache_coins (cache_base v))"
  using assms batch_loop_length by (cases v) (auto simp: Flush_def cache_BatchWrite_def split: option.splits)

lemma FlushStateToDisk_succeeds:
  assumes "tip_at A h (nd_coins nd)" "length (cache_coins (nd_coins nd)) \<le> 1" "ce_nFree env = 1000000000"
  shows "\<exists>nd'. FlushStateToDisk env state mode nd = (True, state, nd')"
proof -
  obtain c where c: "Flush DB_BatchWrite (nd_coins nd) = Some c" using flush_tip [OF assms(1)] by blast
  have "GetCacheSize (nd_coins nd) = 0 \<or> GetCacheSize (nd_coins nd) = 1" using assms(2) unfolding GetCacheSize_def by linarith
  then have "CheckDiskSpace (ce_nFree env) (word_of_nat (100 * 2 * 2 * GetCacheSize (nd_coins nd)))"
    using assms(3) by (auto simp: CheckDiskSpace_def)
  moreover have "nd_coins (write_dirty (nd\<lparr>nd_store := s\<rparr>)) = nd_coins nd" for s by (simp add: write_dirty_def Let_def)
  ultimately show ?thesis using c by (simp add: FlushStateToDisk_def Let_def)
qed

lemma node_connect_tip:
  "\<exists>state' nd'. ConnectTip sample_node_env CValidationState_new 2 (Some (node_block 2)) True sample_node = Some (True, state', nd') \<and>
     st_setBlockIndexCandidates (nd_index nd') = [2]"
proof -
  let ?env = sample_node_env and ?nd = sample_node
  obtain state' bi' dirty cs view where c: "ConnectBlock (ne_connect ?env) tip_get (cache_GetBestBlock DB_GetBestBlock) (node_block 2) (Some 2)
     (node_entry 1) False True CValidationState_new (nd_index ?nd) (nd_store ?nd) (cache_new (nd_coins ?nd)) = Some (True, state', bi', dirty, cs, view)"
     "length (cache_coins (cache_base view)) = 0" "length (cache_coins view) = 1"
    using node_connect by (auto simp: sample_node_def)
  have "connected_to 50 999 ?env ?nd 2 bi' cs view"
    using connect_child [OF sample_node_ok undoable_small [OF sample_undoable] sample_money(1) _ _ _ _ _ _ c(1), of 999 1] sample_rooms node_disk by simp
  then have v: "view_inv view" "cache_hashBlock view = 2" by (simp_all add: connected_to_def)
  obtain view2 where f: "Flush cache_BatchWrite view = Some view2" "tip_at (view_abs view) 2 (cache_base view2)"
    using flush_view [OF v(1)] v(2) by auto
  have "length (cache_coins (cache_base view2)) \<le> 1" using Flush_length [OF f(1)] c(2,3) by simp
  let ?st = "(nd_index ?nd)\<lparr>st_mapBlockIndex := (nd_idx ?nd)(2 \<mapsto> bi'),
      st_setDirtyBlockIndex := (if dirty then insert 2 (st_setDirtyBlockIndex (nd_index ?nd)) else st_setDirtyBlockIndex (nd_index ?nd))\<rparr>"
  let ?nd1 = "?nd\<lparr>nd_index := ?st, nd_store := cs, nd_coins := cache_base view2\<rparr>" and ?mode = "flush_mode (st_mapBlockIndex ?st) bi'"
  obtain nd2 where n: "FlushStateToDisk ?env state' ?mode ?nd1 = (True, state', nd2)"
    using FlushStateToDisk_succeeds [of "view_abs view" 2 ?nd1 ?env state' ?mode] f(2) \<open>length (cache_coins (cache_base view2)) \<le> 1\<close> by auto
  from FlushStateToDisk_frame(1) [OF n, of "view_abs view" 2] f(2) obtain D where
    i: "nd_index nd2 = ?st\<lparr>st_setDirtyBlockIndex := D\<rparr>" "nd_pool nd2 = CTxMemPool_empty" by auto
  obtain mp rs where mp: "removeForBlock (ne_txid ?env) [sample_coinbase] (nd_pool nd2) = Some (mp, rs)"
    using removeForBlock_ok [of "ne_txid ?env" "nd_pool nd2" "[sample_coinbase]"] empty_pool_inv i(2) by auto
  have pk: "places_kept (nd_idx ?nd) ((nd_idx ?nd)(2 \<mapsto> bi'))"
    by (rule places_kept_upd [of _ _ "node_entry 1"]) (use ConnectBlock_effect(1) [OF c(1)] in simp_all)
  have "index_wf (nd_idx (nd2\<lparr>nd_pool := mp\<rparr>))" "chain_wf (nd_idx (nd2\<lparr>nd_pool := mp\<rparr>)) (nd_chain (nd2\<lparr>nd_pool := mp\<rparr>))"
    using index_wf_same_links [OF _ places_kept_links [OF pk]] chain_wf_places [OF pk] sample_node_ok i(1) by (simp_all add: node_ok_def tree_wf_def)
  then have "\<exists>nd'. UpdateTip (Some 2) (nd2\<lparr>nd_pool := mp\<rparr>) = Some nd' \<and> st_setBlockIndexCandidates (nd_index nd') = [2]"
    using UpdateTip_ok [of "nd2\<lparr>nd_pool := mp\<rparr>" 2 bi'] i(1) by auto
  then show ?thesis
    using c(1) f(1) n mp unfolding ConnectTip_def Let_def by (auto simp: chain_tip_def)
qed


lemma sample_fork: "FindFork (nd_idx sample_node) (nd_chain sample_node) 2 = Some (Some 1)"
proof -
  have w: "index_wf (nd_idx sample_node)" "chain_wf (nd_idx sample_node) (nd_chain sample_node)"
    using sample_node_ok by (simp_all add: node_ok_def tree_wf_def)
  have "nd_idx sample_node 2 = Some (node_entry 1)" by simp
  from FindFork_ok [OF w this] obtain fork where f: "FindFork (nd_idx sample_node) (nd_chain sample_node) 2 = Some fork" by blast
  from fork_on_chain [OF sample_node_ok _ this] obtain q n where q: "fork = Some q" "walk (nd_idx sample_node) n 1 = Some q" by auto
  have "n = 0" using walk_le_height [OF w(1) _ q(2), of "node_entry 0"] by simp
  then show ?thesis using f q by simp
qed

lemma sample_step:
  "\<exists>state' nd'. ActivateBestChainStep sample_node_env CValidationState_new 2 (Some (node_block 2)) True sample_node = Some (True, state', nd')"
proof -
  let ?env = sample_node_env and ?idx = "nd_idx sample_node"
  have w: "index_wf ?idx" using sample_node_ok by (simp add: node_ok_def tree_wf_def)
  have e: "?idx 2 = Some (node_entry 1)" by simp
  have a: "GetAncestor ?idx 2 1 = Some 2" unfolding GetAncestor_walk [OF w e] by (simp del: node_simps(1))
  have "length (ancestors_above 33 ?idx 0 (Some 2)) = 1" "last (ancestors_above 33 ?idx 0 (Some 2)) = 2"
    using ancestors_above_length [OF w e, of 0 1 33] by (simp_all del: node_simps(1))
  then have l: "ancestors_above 33 ?idx 0 (Some 2) = [2]" by (cases "ancestors_above 33 ?idx 0 (Some 2)") auto
  obtain state1 nd1 where c: "ConnectTip ?env CValidationState_new 2 (Some (node_block 2)) True sample_node = Some (True, state1, nd1)"
    "st_setBlockIndexCandidates (nd_index nd1) = [2]" using node_connect_tip by blast
  have k: "nd_tip nd1 = Some 2 \<and> places_kept ?idx (nd_idx nd1) \<and> node_ok ?env nd1"
    using ConnectTip_ok [OF sample_node_ok undoable_small [OF sample_undoable] sample_money(1) _ _ _ c(1), of 999] sample_rooms node_disk by simp
  obtain b1 where "nd_idx nd1 2 = Some b1" using places_kept_Some(2) [of ?idx "nd_idx nd1" 2 "node_entry 1"] k by auto
  then have "\<not> less_at (ne_addr ?env) (nd_idx nd1) 2 2"
    using less_at_key [of "nd_idx nd1" 2 b1 2 b1 "ne_addr ?env"] k by (simp add: node_ok_def)
  then have "\<exists>st. PruneBlockIndexCandidates (ne_addr ?env) (nd_index nd1) = Some st"
    using c(2) k by (simp add: PruneBlockIndexCandidates_def)
  then have "\<exists>e state2 nd2. connect_blocks ?env 2 (Some (node_block 2)) True (Some 1) 2 [2] CValidationState_new sample_node = Some (e, state2, nd2) \<and>
      e \<noteq> BatchFail" using c(1) by (auto simp: Let_def)
  then obtain e state2 nd2 where "connect_blocks ?env 2 (Some (node_block 2)) True (Some 1) 2 [2] CValidationState_new sample_node = Some (e, state2, nd2)"
    "e \<noteq> BatchFail" by blast
  then have "\<exists>state' nd'. connect_batches (Suc (Suc (Suc 0))) ?env 2 (node_entry 1) (Some (node_block 2)) True (Some 1) 0 CValidationState_new sample_node = Some (True, state', nd')"
    using a l by (cases e) (auto simp: Let_def simp del: connect_blocks.simps node_simps(1))
  then show ?thesis
    using sample_fork by (auto simp: ActivateBestChainStep_def disconnect_loop.simps simp del: connect_batches.simps)
qed


section \<open>Properties\<close>

text \<open>
  C1: A step of the activation of the best chain, with its disconnections, connections and failures, keeps
  the node consistent: the tree and the active chain are well formed, the cache of the tip represents
  exactly the coins that the blocks of the active chain, read from disk and applied one after the
  other, produce, the undo data of each block is in its file, and the pool is consistent. This holds for every
  outcome but a system error. It needs stored blocks that can be taken back exactly (\<open>undoable\<close>: they begin with a
  coinbase, repeat no id with unspent outputs, never take the last output of a coinstake's record, and have undo data
  that can be serialized in \<open>M\<close> bytes), room in the undo files, and that a block passed along is the one stored for the target.
\<close>

theorem activation_step_keeps_node:
  assumes "node_ok env nd" "undoable M env (nd_idx nd) (nd_files nd)"
    and "key_compression (ce_fully_valid env) (ce_decompress env)" "\<And>st tx. money_ok (acc_params (ne_accept env st tx))"
    and "money_ok (be_chain (ne_block env))" "length (ce_MessageStart env) = 4"
    and "nd_idx nd most = Some bm" "undo_rooms M (bi_nHeight bm + 1) (nd_files nd)"
    and "\<And>b. pblock = Some b \<Longrightarrow> disk_block env (nd_idx nd) (nd_files nd) most = Some b"
    and "ActivateBestChainStep env state most pblock checked nd = Some (rv, state', nd')" "rv \<or> vs_mode state' \<noteq> MODE_ERROR"
  shows "node_ok env nd' \<and> undoable M env (nd_idx nd') (nd_files nd')"
  using ActivateBestChainStep_ok [OF assms] step_keeps_disk(2) [OF _ assms(1,2)] by blast

theorem activation_step_keeps_node_witness:
  "\<exists>state' nd'. ActivateBestChainStep sample_node_env CValidationState_new 2 (Some (node_block 2)) True sample_node = Some (True, state', nd') \<and>
     node_ok sample_node_env nd'"
proof -
  obtain state' nd' where s: "ActivateBestChainStep sample_node_env CValidationState_new 2 (Some (node_block 2)) True sample_node = Some (True, state', nd')"
    using sample_step by blast
  have "node_ok sample_node_env nd' \<and> undoable 50 sample_node_env (nd_idx nd') (nd_files nd')"
    by (rule activation_step_keeps_node [OF sample_node_ok sample_undoable _ sample_money(2,1) _ _ _ _ s, of "node_entry 1"])
      (use sample_key_compression node_disk undo_rooms_mono [OF sample_rooms, of "Suc (Suc 0)"] in simp_all)
  then show ?thesis using s by blast
qed

text \<open>
  C2: Taking back the tip of a consistent node whose stored blocks are \<open>undoable\<close> (in particular they never take the last
  output of a coinstake's record) and whose tip is not the genesis block trips no assertion of the model, which leaves out the
  debug checks \<^verbatim>\<open>mempool.check\<close>, and fails only with a system
  error. When it succeeds the tip is the predecessor, the cache of the tip represents the coins of the
  branch up to it, no stored block or undo data is lost and the pool stays consistent.
\<close>

theorem disconnect_tip_restores:
  assumes "node_ok env nd" "undoable M env (nd_idx nd) (nd_files nd)"
    and "key_compression (ce_fully_valid env) (ce_decompress env)" "\<And>st tx. money_ok (acc_params (ne_accept env st tx))"
    and "nd_tip nd = Some t" "t \<noteq> be_HashGenesisBlock env"
  shows "\<exists>r state' nd'. DisconnectTip env state nd = Some (r, state', nd') \<and> (\<not> r \<longrightarrow> vs_mode state' = MODE_ERROR) \<and>
    (r \<longrightarrow> node_ok env nd' \<and> nd_idx nd' = nd_idx nd \<and> files_keep (nd_files nd) (nd_files nd') \<and>
       (\<exists>bi q uss A. nd_idx nd t = Some bi \<and> bi_pprev bi = Some q \<and> nd_tip nd' = Some q \<and>
          branch_coins env (nd_idx nd) (nd_files nd) q = Some (uss, A) \<and> tip_at A q (nd_coins nd')))"
proof -
  obtain r state' nd' where d: "DisconnectTip env state nd = Some (r, state', nd')" "\<not> r \<Longrightarrow> vs_mode state' = MODE_ERROR"
    "r \<Longrightarrow> node_ok env nd' \<and> state' = state \<and> nd_idx nd' = nd_idx nd \<and> nd_tip nd' = Option.bind (nd_idx nd t) bi_pprev \<and>
       files_keep (nd_files nd) (nd_files nd') \<and> (\<forall>k. info_at (nd_files nd') k = info_at (nd_files nd) k)"
    using DisconnectTip_ok [OF assms] by blast
  obtain bi q where q: "nd_idx nd t = Some bi" "bi_pprev bi = Some q" using tip_unfolds [OF assms(1,5,6)] by blast
  have "\<exists>uss A. branch_coins env (nd_idx nd) (nd_files nd) q = Some (uss, A) \<and> tip_at A q (nd_coins nd')" if r: r
  proof -
    have "branch_coins env (nd_idx nd') (nd_files nd') = branch_coins env (nd_idx nd) (nd_files nd)"
      using branch_coins_places [of env "nd_idx nd" "nd_files nd" "nd_idx nd'" "nd_files nd'"] assms(1) d(3) [OF r] by (simp add: node_ok_def)
    then show ?thesis using d(3) [OF r] q by (auto simp: node_ok_def coins_ok_def)
  qed
  then show ?thesis using d q by (intro exI [of _ r] exI [of _ state'] exI [of _ nd']) auto
qed

theorem disconnect_tip_restores_witness:
  "\<exists>state nd r state' nd'. ConnectTip sample_node_env CValidationState_new 2 (Some (node_block 2)) True sample_node = Some (True, state, nd) \<and>
     DisconnectTip sample_node_env CValidationState_new nd = Some (r, state', nd') \<and> (r \<longrightarrow> nd_tip nd' = Some 1)"
proof -
  obtain state nd where c: "ConnectTip sample_node_env CValidationState_new 2 (Some (node_block 2)) True sample_node = Some (True, state, nd)"
    using node_connect_tip by blast
  have k: "node_ok sample_node_env nd" "step_keeps sample_node nd" "nd_tip nd = Some 2"
    using ConnectTip_ok [OF sample_node_ok undoable_small [OF sample_undoable] sample_money(1) _ _ _ c, of 999] sample_rooms node_disk by (simp_all add: step_keeps_def)
  obtain b1 where b1: "nd_idx nd 2 = Some b1" "bi_pprev b1 = Some 1"
    using places_kept_Some(2) [of "nd_idx sample_node" "nd_idx nd" 2 "node_entry 1"] k(2) by (auto simp: step_keeps_def entry_kept_def links_def)
  have kc: "key_compression (ce_fully_valid sample_node_env) (ce_decompress sample_node_env)" using sample_key_compression by simp
  from disconnect_tip_restores [OF k(1) step_keeps_disk(2) [OF k(2) sample_node_ok sample_undoable] kc sample_money(2) k(3), of CValidationState_new]
  obtain r state' nd' where "DisconnectTip sample_node_env CValidationState_new nd = Some (r, state', nd')" "r \<longrightarrow> nd_tip nd' = Some 1"
    using b1 by auto
  then show ?thesis using c by blast
qed

text \<open>
  C6: Connecting a stored block to the tip of a consistent node keeps it consistent unless there is a system
  error: after a success the new block is the tip and the cache represents its coins, after a failure the chain is what it was.
  The undo data of the stored blocks has a bounded size, for which the undo files have room.
\<close>

theorem connect_tip_extends:
  assumes "node_ok env nd" "undo_small M env (nd_idx nd) (nd_files nd)" "money_ok (be_chain (ne_block env))"
    and "length (ce_MessageStart env) = 4" "undo_rooms M (Suc n) (nd_files nd)"
    and "\<And>b. pblock = Some b \<Longrightarrow> disk_block env (nd_idx nd) (nd_files nd) p = Some b"
    and "ConnectTip env state p pblock already nd = Some (rv, state', nd')" "rv \<or> vs_mode state' \<noteq> MODE_ERROR"
  shows "node_ok env nd' \<and> undo_rooms M n (nd_files nd') \<and> files_keep (nd_files nd) (nd_files nd') \<and>
    (if rv then nd_tip nd' = Some p \<and> (\<exists>uss A. branch_coins env (nd_idx nd) (nd_files nd) p = Some (uss, A) \<and> tip_at A p (nd_coins nd'))
     else nd_chain nd' = nd_chain nd)"
proof -
  note k = ConnectTip_ok [OF assms]
  have d: "data_ok env (nd_idx nd) (nd_files nd)" using assms(1) by (simp add: node_ok_def)
  have "branch_coins env (nd_idx nd') (nd_files nd') = branch_coins env (nd_idx nd) (nd_files nd)"
    by (rule branch_coins_places [OF d]) (use k in simp_all)
  moreover have "\<exists>uss A. branch_coins env (nd_idx nd') (nd_files nd') p = Some (uss, A) \<and> tip_at A p (nd_coins nd')" if rv
    using k that by (auto simp: node_ok_def coins_ok_def)
  ultimately show ?thesis using k by auto
qed

theorem connect_tip_extends_witness:
  "\<exists>state nd. ConnectTip sample_node_env CValidationState_new 2 (Some (node_block 2)) True sample_node = Some (True, state, nd) \<and>
     nd_tip nd = Some 2 \<and> node_ok sample_node_env nd"
proof -
  obtain state nd where c: "ConnectTip sample_node_env CValidationState_new 2 (Some (node_block 2)) True sample_node = Some (True, state, nd)"
    using node_connect_tip by blast
  have "nd_tip nd = Some 2 \<and> node_ok sample_node_env nd"
    using connect_tip_extends [OF sample_node_ok undoable_small [OF sample_undoable] sample_money(1) _ _ _ c, of 999] sample_rooms node_disk by simp
  then show ?thesis using c by blast
qed

end
