(* ===== verification/ProcessBlock.thy ===== *)
theory ProcessBlock
  imports NodeState
begin

unbundle bit_operations_syntax

text \<open>
  The entry points of main.cpp that take in or give up blocks: \<^verbatim>\<open>InvalidateBlock\<close>,
  \<^verbatim>\<open>DisconnectBlocksAndReprocess\<close>, \<^verbatim>\<open>DisconnectBlockAndInputs\<close>, \<^verbatim>\<open>AcceptBlock\<close>, \<^verbatim>\<open>ProcessNewBlock\<close> and
  \<^verbatim>\<open>TestBlockValidity\<close>, and that they keep the invariant of the node. The peer that sent a block
  matters only in that there is one; the bookkeeping for peers, masternodes and the wallet is left out.
\<close>

section \<open>Giving up blocks\<close>

text \<open>Marking an entry in \<^verbatim>\<open>InvalidateBlock\<close>.\<close>

definition invalidate_entry :: "u32 \<Rightarrow> u256 \<Rightarrow> index_state \<Rightarrow> index_state" where
  "invalidate_entry flag p st =
     st\<lparr>st_mapBlockIndex := (st_mapBlockIndex st)(p := map_option (\<lambda>bi. bi\<lparr>bi_nStatus := bi_nStatus bi OR flag\<rparr>) (st_mapBlockIndex st p)),
        st_setDirtyBlockIndex := insert p (st_setDirtyBlockIndex st),
        st_setBlockIndexCandidates := set_erase p (st_setBlockIndexCandidates st)\<rparr>"

text \<open>The loop that disconnects down to the block; \<open>fuel\<close> is the length of the chain.\<close>

fun invalidate_loop :: "nat \<Rightarrow> node_env \<Rightarrow> u256 \<Rightarrow> CValidationState \<Rightarrow> node \<Rightarrow> (bool \<times> CValidationState \<times> node) option" where
  "invalidate_loop fuel env p state nd =
     (if \<not> Contains (nd_idx nd) (nd_chain nd) p then Some (True, state, nd)
      else
        (case (fuel, nd_tip nd) of
           (Suc fuel, Some t) \<Rightarrow>
             (case DisconnectTip env state (nd\<lparr>nd_index := invalidate_entry BLOCK_FAILED_CHILD t (nd_index nd)\<rparr>) of
                None \<Rightarrow> None
              | Some (False, state, nd) \<Rightarrow> Some (False, state, nd)
              | Some (True, state, nd) \<Rightarrow> invalidate_loop fuel env p state nd)
         | _ \<Rightarrow> None))"

declare invalidate_loop.simps [simp del]

text \<open>The entries that become candidates again, in the order \<open>entries\<close> of the map; \<open>None\<close> is a null tip.\<close>

fun readd_candidates :: "(u256 \<Rightarrow> nat) \<Rightarrow> BlockMap \<Rightarrow> bptr \<Rightarrow> u256 list \<Rightarrow> u256 list \<Rightarrow> u256 list option" where
  "readd_candidates addr idx tip [] cands = Some cands"
| "readd_candidates addr idx tip (e # entries) cands =
     (case idx e of
        None \<Rightarrow> readd_candidates addr idx tip entries cands
      | Some be \<Rightarrow>
          if index_IsValid BLOCK_VALID_TRANSACTIONS be \<and> bi_nChainTx be \<noteq> 0 then
            (case tip of
               None \<Rightarrow> None
             | Some t \<Rightarrow>
                 readd_candidates addr idx tip entries
                   (if \<not> less_at addr idx e t then set_insert (less_at addr idx) e cands else cands))
          else readd_candidates addr idx tip entries cands)"

definition InvalidateBlock ::
    "node_env \<Rightarrow> u256 list \<Rightarrow> CValidationState \<Rightarrow> u256 \<Rightarrow> node \<Rightarrow> (bool \<times> CValidationState \<times> node) option" where
  "InvalidateBlock env entries state p nd =
     (case invalidate_loop (length (nd_chain nd)) env p state (nd\<lparr>nd_index := invalidate_entry BLOCK_FAILED_VALID p (nd_index nd)\<rparr>) of
        None \<Rightarrow> None
      | Some (False, state, nd) \<Rightarrow> Some (False, state, nd)
      | Some (True, state, nd) \<Rightarrow>
          map_option
            (\<lambda>cands. (True, state, nd\<lparr>nd_index := InvalidChainFound p ((nd_index nd)\<lparr>st_setBlockIndexCandidates := cands\<rparr>)\<rparr>))
            (readd_candidates (ne_addr env) (nd_idx nd) (nd_tip nd) entries (st_setBlockIndexCandidates (nd_index nd))))"

text \<open>\<^verbatim>\<open>DisconnectBlocksAndReprocess\<close> disconnects one block more than it is asked for, and ignores failures.\<close>

fun disconnect_times :: "nat \<Rightarrow> node_env \<Rightarrow> CValidationState \<Rightarrow> node \<Rightarrow> (CValidationState \<times> node) option" where
  "disconnect_times 0 env state nd = Some (state, nd)"
| "disconnect_times (Suc n) env state nd =
     (case DisconnectTip env state nd of
        None \<Rightarrow> None
      | Some (_, state, nd) \<Rightarrow> disconnect_times n env state nd)"

definition DisconnectBlocksAndReprocess :: "node_env \<Rightarrow> int \<Rightarrow> node \<Rightarrow> (bool \<times> node) option" where
  "DisconnectBlocksAndReprocess env blocks nd =
     map_option (\<lambda>(_, nd). (True, nd)) (disconnect_times (nat (blocks + 1)) env CValidationState_new nd)"

text \<open>
  The search of \<^verbatim>\<open>DisconnectBlockAndInputs\<close> through the last five blocks for one that spends an input of the locked
  transaction. The result is whether it was found and how many blocks are to be disconnected; \<open>Inl\<close> is a failure to read.
\<close>

definition spends_same :: "CTransaction \<Rightarrow> CTransaction \<Rightarrow> bool" where
  "spends_same txLock tx \<longleftrightarrow>
     (\<exists>in1 \<in> set (tx_vin txLock). \<exists>in2 \<in> set (tx_vin tx). txin_prevout in1 = txin_prevout in2)"

fun conflict_search :: "nat \<Rightarrow> node_env \<Rightarrow> CTransaction \<Rightarrow> node \<Rightarrow> bptr \<Rightarrow> nat \<Rightarrow> unit + (bool \<times> nat)" where
  "conflict_search 0 env txLock nd BlockReading n = Inr (False, n)"
| "conflict_search (Suc i) env txLock nd BlockReading n =
     (case BlockReading of
        None \<Rightarrow> Inr (False, n)
      | Some p \<Rightarrow>
          (case nd_idx nd p of
             None \<Rightarrow> Inr (False, n)
           | Some bi \<Rightarrow>
               if bi_nHeight bi = 0 then Inr (False, n)
               else
                 (case ReadBlockFromDisk (be_sph env) (be_params env) (nd_files nd) p bi of
                    None \<Rightarrow> Inl ()
                  | Some block \<Rightarrow>
                      if list_ex (\<lambda>tx. \<not> IsCoinBase tx \<and> spends_same txLock tx) (blk_vtx block) then Inr (True, n + 1)
                      else if bi_pprev bi = None then Inr (False, n + 1)
                      else conflict_search i env txLock nd (bi_pprev bi) (n + 1))))"

definition DisconnectBlockAndInputs ::
    "node_env \<Rightarrow> CValidationState \<Rightarrow> CTransaction \<Rightarrow> node \<Rightarrow> (bool \<times> CValidationState \<times> node) option" where
  "DisconnectBlockAndInputs env state txLock nd =
     (case removeConflicts (ne_txid env) txLock (nd_pool nd) of
        None \<Rightarrow> None
      | Some (mp, _) \<Rightarrow>
          let nd = nd\<lparr>nd_pool := mp\<rparr> in
          (case conflict_search 5 env txLock nd (nd_tip nd) 0 of
             Inl _ \<Rightarrow> Some (False, state_Error ''Failed to read block'' state, nd)
           | Inr (False, _) \<Rightarrow> Some (False, state, nd)
           | Inr (True, n) \<Rightarrow> map_option (\<lambda>(state, nd). (True, state, nd)) (disconnect_times n env state nd)))"

section \<open>Taking in blocks\<close>

text \<open>
  The check of \<^verbatim>\<open>AcceptBlock\<close> that the inputs of a coinstake that are spent at the tip were spent recently;
  \<open>h\<close> is the height of the predecessor.
\<close>

definition stake_recent :: "(COutPoint \<rightharpoonup> int) \<Rightarrow> int \<Rightarrow> CTxIn list \<Rightarrow> bool" where
  "stake_recent spent h vin \<longleftrightarrow> list_all (\<lambda>txin. case spent (txin_prevout txin) of None \<Rightarrow> False | Some n \<Rightarrow> \<not> n < h) vin"

text \<open>
  Whether a block of the branch from \<open>pindex\<close> down to the active chain spends an input of the coinstake; \<open>None\<close> is a null
  pointer. A block that cannot be read counts as empty.
\<close>

fun fork_spends :: "nat \<Rightarrow> node_env \<Rightarrow> node \<Rightarrow> CTransaction \<Rightarrow> bptr \<Rightarrow> bool option" where
  "fork_spends 0 env nd stake pindex = None"
| "fork_spends (Suc fuel) env nd stake pindex =
     (case pindex of
        None \<Rightarrow> None
      | Some p \<Rightarrow>
          if Contains (nd_idx nd) (nd_chain nd) p then Some False
          else
            (case nd_idx nd p of
               None \<Rightarrow> None
             | Some bi \<Rightarrow>
                 let vtx = (case ReadBlockFromDisk (be_sph env) (be_params env) (nd_files nd) p bi of None \<Rightarrow> [] | Some b \<Rightarrow> blk_vtx b)
                 in if list_ex (spends_same stake) vtx then Some True else fork_spends fuel env nd stake (bi_pprev bi)))"

text \<open>The checks on a proof of stake, which read the tip through a view; \<open>None\<close> is a null pointer.\<close>

definition accept_stake :: "node_env \<Rightarrow> CBlock \<Rightarrow> bptr \<Rightarrow> node \<Rightarrow> (bool \<times> node) option" where
  "accept_stake env block pindexPrev nd =
     (if \<not> block_IsProofOfStake block then Some (True, nd)
      else
        let stake = blk_vtx block ! 1; (have, view) = HaveInputs tip_get (cache_new (nd_coins nd)) stake;
            nd = nd\<lparr>nd_coins := cache_base view\<rparr>
        in (case Option.bind pindexPrev (nd_idx nd) of
              None \<Rightarrow> None
            | Some bp \<Rightarrow>
                if \<not> have \<and> \<not> stake_recent (cs_mapStakeSpent (nd_store nd)) (int (bi_nHeight bp)) (tx_vin stake) then Some (False, nd)
                else map_option (\<lambda>bad. (\<not> bad, nd)) (fork_spends (bi_nHeight bp + 2) env nd stake pindexPrev)))"

text \<open>Writing the block to its file, or recording where it is when \<open>dbp\<close> says so.\<close>

definition store_new_block ::
    "node_env \<Rightarrow> CBlock \<Rightarrow> CDiskBlockPos option \<Rightarrow> u256 \<Rightarrow> CBlockIndex \<Rightarrow> CValidationState \<Rightarrow> node \<Rightarrow> (bool \<times> CValidationState \<times> node) option" where
  "store_new_block env block dbp p bi state nd =
     (let blockPos = (case dbp of None \<Rightarrow> CDiskBlockPos_null | Some pos \<Rightarrow> pos) in
      case FindBlockPos (ce_nFree env) blockPos (word_of_nat (length (ser_CBlock block) + 8)) (word_of_nat (bi_nHeight bi))
             (word_of_nat (unat (hdr_nTime block))) (dbp \<noteq> None) (nd_files nd) of
        None \<Rightarrow> None
      | Some (ok, blockPos, fs) \<Rightarrow>
          let nd = nd\<lparr>nd_store := (nd_store nd)\<lparr>cs_files := fs\<rparr>\<rparr> in
          if \<not> ok then Some (False, state_Error ''out of disk space'' state, nd)
          else
            (case (if dbp = None then WriteBlockToDisk (ce_MessageStart env) block blockPos fs else Some (blockPos, fs)) of
               None \<Rightarrow> Some (False, state_Error ''Failed to write block'' state, nd)
             | Some (blockPos, fs) \<Rightarrow>
                 map_option (\<lambda>st. (True, state, nd\<lparr>nd_store := (nd_store nd)\<lparr>cs_files := fs\<rparr>, nd_index := st\<rparr>))
                   (ReceivedBlockTransactions (ne_addr env) block p (dbp_nFile blockPos, dbp_nPos blockPos) (nd_index nd))))"

text \<open>The predecessor: \<open>Inl\<close> is the early return with its verdict.\<close>

definition accept_prev ::
    "node_env \<Rightarrow> u256 list \<Rightarrow> CBlock \<Rightarrow> CValidationState \<Rightarrow> node \<Rightarrow> ((bool \<times> CValidationState \<times> node) + bptr) option" where
  "accept_prev env entries block state nd =
     (if be_hash (ne_block env) block = be_HashGenesisBlock env then Some (Inr None)
      else
        (case nd_idx nd (hdr_hashPrevBlock block) of
           None \<Rightarrow> Some (Inl (False, state_DoS 0 ''bad-prevblk'' False state, nd))
         | Some bp \<Rightarrow>
             if bi_nStatus bp AND BLOCK_FAILED_MASK \<noteq> 0 then
               if Checkpoints_CheckBlock (be_fEnabled env) (be_mapCheckpoints env) (int (bi_nHeight bp)) (hdr_hashPrevBlock block) True
               then map_option (\<lambda>(_, _, nd). Inl (True, state, nd))
                 (ActivateBestChain env None False CValidationState_new
                    (nd\<lparr>nd_index := ReconsiderBlock (ne_addr env) entries (hdr_hashPrevBlock block) (nd_index nd)\<rparr>))
               else Some (Inl (False, state_DoS 100 ''bad-prevblk'' False state, nd))
             else Some (Inr (Some (hdr_hashPrevBlock block)))))"

text \<open>What follows for a block whose data is not there yet: the checks, and storing it.\<close>

definition accept_data ::
    "node_env \<Rightarrow> CBlock \<Rightarrow> CDiskBlockPos option \<Rightarrow> bool \<Rightarrow> bptr \<Rightarrow> u256 \<Rightarrow> CBlockIndex \<Rightarrow> CValidationState \<Rightarrow> node \<Rightarrow>
      (bool \<times> CValidationState \<times> node) option" where
  "accept_data env block dbp fAlreadyCheckedBlock pindexPrev p bi state nd =
     (case (if fAlreadyCheckedBlock then Some (True, state, cs_mapRejectedBlocks (nd_store nd))
            else CheckBlock (ne_block env) (nd_idx nd) (nd_chain nd) True block state (cs_mapRejectedBlocks (nd_store nd))) of
        None \<Rightarrow> None
      | Some (ok, state, rejected) \<Rightarrow>
          let nd = nd\<lparr>nd_store := (nd_store nd)\<lparr>cs_mapRejectedBlocks := rejected\<rparr>\<rparr> in
          (case (if \<not> ok then Some (False, state)
                 else ContextualCheckBlock (ne_block env) (nd_idx nd) (nd_chain nd) block (bi_pprev bi) state) of
             None \<Rightarrow> None
           | Some (False, state) \<Rightarrow>
               Some (False, state,
                 if IsInvalid state \<and> \<not> vs_corruptionPossible state
                 then nd\<lparr>nd_index := (nd_index nd)\<lparr>
                   st_mapBlockIndex := (nd_idx nd)(p \<mapsto> bi\<lparr>bi_nStatus := bi_nStatus bi OR BLOCK_FAILED_VALID\<rparr>),
                   st_setDirtyBlockIndex := insert p (st_setDirtyBlockIndex (nd_index nd))\<rparr>\<rparr>
                 else nd)
           | Some (True, state) \<Rightarrow>
               (case accept_stake env block pindexPrev nd of
                  None \<Rightarrow> None
                | Some (False, nd) \<Rightarrow> Some (False, state, nd)
                | Some (True, nd) \<Rightarrow> store_new_block env block dbp p bi state nd)))"

definition AcceptBlock ::
    "node_env \<Rightarrow> u256 list \<Rightarrow> CBlock \<Rightarrow> CDiskBlockPos option \<Rightarrow> bool \<Rightarrow> CValidationState \<Rightarrow> node \<Rightarrow>
      (bool \<times> CValidationState \<times> node) option" where
  "AcceptBlock env entries block dbp fAlreadyCheckedBlock state nd =
     (case accept_prev env entries block state nd of
        None \<Rightarrow> None
      | Some (Inl r) \<Rightarrow> Some r
      | Some (Inr pindexPrev) \<Rightarrow>
          (case (if be_hash (ne_block env) block = be_HashGenesisBlock env then Some (True, st_mapProofOfStake (nd_index nd))
                 else CheckWork (ne_block env) (nd_idx nd) (nd_chain nd) block pindexPrev (st_mapProofOfStake (nd_index nd))) of
             None \<Rightarrow> None
           | Some (False, proofs) \<Rightarrow> Some (False, state, nd\<lparr>nd_index := (nd_index nd)\<lparr>st_mapProofOfStake := proofs\<rparr>\<rparr>)
           | Some (True, proofs) \<Rightarrow>
               (case AcceptBlockHeader (ne_block env) block state ((nd_index nd)\<lparr>st_mapProofOfStake := proofs\<rparr>) of
                  None \<Rightarrow> None
                | Some (False, state, st, _) \<Rightarrow> Some (False, state, nd\<lparr>nd_index := st\<rparr>)
                | Some (True, state, st, None) \<Rightarrow> None
                | Some (True, state, st, Some p) \<Rightarrow>
                    let nd = nd\<lparr>nd_index := st\<rparr> in
                    (case nd_idx nd p of
                       None \<Rightarrow> None
                     | Some bi \<Rightarrow>
                         if bi_nStatus bi AND BLOCK_HAVE_DATA \<noteq> 0 then Some (True, state, nd)
                         else accept_data env block dbp fAlreadyCheckedBlock pindexPrev p bi state nd))))"

text \<open>
  \<^verbatim>\<open>ProcessNewBlock\<close>; \<open>pfrom\<close> says whether the block came from a peer.
\<close>

definition ProcessNewBlock ::
    "node_env \<Rightarrow> u256 list \<Rightarrow> bool \<Rightarrow> CBlock \<Rightarrow> CDiskBlockPos option \<Rightarrow>
      CValidationState \<Rightarrow> node \<Rightarrow> (bool \<times> CValidationState \<times> node) option" where
  "ProcessNewBlock env entries pfrom block dbp state nd =
     (case CheckBlock (ne_block env) (nd_idx nd) (nd_chain nd) True block state (cs_mapRejectedBlocks (nd_store nd)) of
        None \<Rightarrow> None
      | Some (checked, state, rejected) \<Rightarrow>
          let nd = nd\<lparr>nd_store := (nd_store nd)\<lparr>cs_mapRejectedBlocks := rejected\<rparr>\<rparr> in
          if \<not> CheckBlockSignature (be_sph env) (crypto_verify (be_crypto env)) block then Some (False, state, nd)
          else if be_hash (ne_block env) block \<noteq> be_HashGenesisBlock env \<and> pfrom \<and> nd_idx nd (hdr_hashPrevBlock block) = None
          then Some (False, state, nd)
          else if \<not> checked then Some (False, state, nd)
          else
            (case AcceptBlock env entries block dbp checked state nd of
               None \<Rightarrow> None
             | Some (False, state, nd) \<Rightarrow> Some (False, state, nd)
             | Some (True, state, nd) \<Rightarrow> ActivateBestChain env (Some block) checked state nd))"

text \<open>
  \<^verbatim>\<open>TestBlockValidity\<close> for a block on top of the tip. \<^verbatim>\<open>fCheckPOW\<close> has no effect in \<^verbatim>\<open>CheckBlock\<close>.
\<close>

definition TestBlockValidity ::
    "node_env \<Rightarrow> CBlock \<Rightarrow> bptr \<Rightarrow> bool \<Rightarrow> CValidationState \<Rightarrow> node \<Rightarrow> (bool \<times> CValidationState \<times> node) option" where
  "TestBlockValidity env block pindexPrev fCheckMerkleRoot state nd =
     (if pindexPrev \<noteq> nd_tip nd then None
      else
        (case Option.bind pindexPrev (nd_idx nd) of
           None \<Rightarrow> None
         | Some bp \<Rightarrow>
             let indexDummy = (CBlockIndex_new block)\<lparr>bi_pprev := pindexPrev, bi_nHeight := bi_nHeight bp + 1\<rparr> in
             (case ContextualCheckBlockHeader (ne_block env) (nd_idx nd) (nd_chain nd) block pindexPrev state of
                None \<Rightarrow> None
              | Some (False, state) \<Rightarrow> Some (False, state, nd)
              | Some (True, state) \<Rightarrow>
                  (case CheckBlock (ne_block env) (nd_idx nd) (nd_chain nd) fCheckMerkleRoot block state (cs_mapRejectedBlocks (nd_store nd)) of
                     None \<Rightarrow> None
                   | Some (ok, state, rejected) \<Rightarrow>
                       let nd = nd\<lparr>nd_store := (nd_store nd)\<lparr>cs_mapRejectedBlocks := rejected\<rparr>\<rparr> in
                       if \<not> ok then Some (False, state, nd)
                       else
                         (case ContextualCheckBlock (ne_block env) (nd_idx nd) (nd_chain nd) block pindexPrev state of
                            None \<Rightarrow> None
                          | Some (False, state) \<Rightarrow> Some (False, state, nd)
                          | Some (True, state) \<Rightarrow>
                              (case ConnectBlock (ne_connect env) tip_get (cache_GetBestBlock DB_GetBestBlock) block None indexDummy True False
                                      state (nd_index nd) (nd_store nd) (cache_new (nd_coins nd)) of
                                 None \<Rightarrow> None
                               | Some (rv, state, _, _, cs, view) \<Rightarrow>
                                   let nd = nd\<lparr>nd_store := cs, nd_coins := cache_base view\<rparr> in
                                   if \<not> rv then Some (False, state, nd)
                                   else if vs_mode state \<noteq> MODE_VALID then None
                                   else Some (True, state, nd)))))))"


section \<open>Giving up blocks keeps the invariant\<close>

lemma invalidate_frame:
  assumes "flag \<in> {32, 64}"
  shows "places_kept (st_mapBlockIndex st) (st_mapBlockIndex (invalidate_entry flag p st))"
    "undo_kept (st_mapBlockIndex st) (st_mapBlockIndex (invalidate_entry flag p st))"
    "st_chainActive (invalidate_entry flag p st) = st_chainActive st"
  using assms
  by (cases "st_mapBlockIndex st p";
      auto simp: invalidate_entry_def GetUndoPos_def fun_upd_idem intro!: places_kept_upd undo_kept_upd entry_kept_status)+

lemma invalidate_node:
  fixes p :: u256
  assumes "node_ok env nd" "flag \<in> {32, 64}"
  defines "nd' \<equiv> nd\<lparr>nd_index := invalidate_entry flag p (nd_index nd)\<rparr>"
  shows "node_ok env nd'" "step_keeps nd nd'" "nd_chain nd' = nd_chain nd"
proof -
  note f = invalidate_frame [OF assms(2), where st = "nd_index nd" and p = p]
  show "node_ok env nd'"
    by (rule node_ok_frame [OF assms(1)]) (use f assms(1) in \<open>simp_all add: nd'_def node_ok_def\<close>)
  show "step_keeps nd nd'" "nd_chain nd' = nd_chain nd" using f by (simp_all add: nd'_def step_keeps_def)
qed

definition marked :: "BlockMap \<Rightarrow> u256 \<Rightarrow> bool" where
  "marked idx p \<longleftrightarrow> (\<exists>bi. idx p = Some bi \<and> bi_nStatus bi AND BLOCK_FAILED_VALID \<noteq> 0)"

lemma failed_bit: "(s :: u32) AND 32 \<noteq> 0 \<Longrightarrow> (s OR f) AND 32 \<noteq> 0" "(s OR 32) AND 32 = (32 :: u32)"
  by (simp_all add: bit.conj_disj_distrib2 or_eq_0_iff)

lemma marked_invalidate:
  "marked (st_mapBlockIndex st) p \<Longrightarrow> marked (st_mapBlockIndex (invalidate_entry flag q st)) p"
  "st_mapBlockIndex st p = Some bi \<Longrightarrow> marked (st_mapBlockIndex (invalidate_entry 32 p st)) p"
  using failed_bit by (auto simp: marked_def invalidate_entry_def)

lemma Contains_places: "places_kept idx idx' \<Longrightarrow> Contains idx' v p = Contains idx v p"
  using places_kept_None [of idx idx' p] places_kept_Some(2) [of idx idx' p]
  by (cases "idx p") (auto simp: Contains_def entry_kept_def links_def)

lemma not_below:
  assumes "index_wf idx" "idx p = Some bi" "bi_pprev bi = Some q" "idx q = Some bq"
  shows "\<not> Contains idx (chain_path idx q bq) p"
proof -
  have "entry_wf idx p bi" using assms(1,2) by (simp add: index_wf_def)
  then have "bi_nHeight bi = bi_nHeight bq + 1" using assms(3,4) by (auto simp: entry_wf_def)
  then show ?thesis using assms(2) by (simp add: Contains_def chain_at_def)
qed

lemma invalidate_loop_ok:
  assumes k: "key_compression (ce_fully_valid env) (ce_decompress env)" and m: "\<And>st tx. money_ok (acc_params (ne_accept env st tx))"
    and g: "p \<noteq> be_HashGenesisBlock env"
    and "node_ok env nd" "undoable M env (nd_idx nd) (nd_files nd)" "nd_tip nd = Some t" "marked (nd_idx nd) p"
      "length (nd_chain nd) \<le> fuel"
  shows "\<exists>r state' nd'. invalidate_loop fuel env p state nd = Some (r, state', nd') \<and> (\<not> r \<longrightarrow> vs_mode state' = MODE_ERROR) \<and>
    (r \<longrightarrow> node_ok env nd' \<and> step_keeps nd nd' \<and> \<not> Contains (nd_idx nd') (nd_chain nd') p \<and> marked (nd_idx nd') p \<and> nd_tip nd' \<noteq> None)"
  using assms(4-)
proof (induction fuel arbitrary: nd t)
  case 0
  then show ?case by (simp add: chain_tip_def)
next
  case (Suc fuel)
  show ?case
  proof (cases "Contains (nd_idx nd) (nd_chain nd) p")
    case False
    then show ?thesis using Suc.prems by (intro exI [of _ True] exI [of _ state] exI [of _ nd]) (simp add: invalidate_loop.simps)
  next
    case True
    let ?nd = "nd\<lparr>nd_index := invalidate_entry 64 t (nd_index nd)\<rparr>"
    note i = invalidate_node [OF Suc.prems(1), of 64 t, simplified]
    have w: "index_wf (nd_idx nd)" "chain_wf (nd_idx nd) (nd_chain nd)" "roots_ok env (nd_idx nd)"
      using Suc.prems(1) by (simp_all add: node_ok_def tree_wf_def)
    obtain bt where bt: "nd_idx nd t = Some bt" "nd_chain nd = chain_path (nd_idx nd) t bt" using chain_wf_tip [OF w(2) Suc.prems(3)] by blast
    obtain n where n: "walk (nd_idx nd) n t = Some p" using Contains_walk [OF w(1) bt(1), of p] True bt(2) by auto
    have tg: "t \<noteq> be_HashGenesisBlock env"
    proof
      assume e: "t = be_HashGenesisBlock env"
      then have "bi_pprev bt = None" using w(3) bt(1) by (simp add: roots_ok_def)
      then have "bi_nHeight bt = 0" using w(1) bt(1) by (fastforce simp: index_wf_def entry_wf_def)
      then have "n = 0" using walk_le_height [OF w(1) bt(1) n] by simp
      then show False using n e g by simp
    qed
    have ti: "nd_tip ?nd = Some t" using i(3) Suc.prems(3) by simp
    obtain r state' nd1 where d: "DisconnectTip env state ?nd = Some (r, state', nd1)" "\<not> r \<Longrightarrow> vs_mode state' = MODE_ERROR"
      "r \<Longrightarrow> node_ok env nd1 \<and> state' = state \<and> nd_idx nd1 = nd_idx ?nd \<and> nd_tip nd1 = Option.bind (nd_idx ?nd t) bi_pprev \<and>
       files_keep (nd_files ?nd) (nd_files nd1) \<and> (\<forall>k. info_at (nd_files nd1) k = info_at (nd_files ?nd) k)"
      using DisconnectTip_ok [OF i(1) step_keeps_disk(2) [OF i(2) Suc.prems(1,2)] k m ti tg] by blast
    have l: "invalidate_loop (Suc fuel) env p state nd = (if r then invalidate_loop fuel env p state' nd1 else Some (False, state', nd1))"
      by (subst invalidate_loop.simps) (use d(1) Suc.prems(3) True in \<open>simp split: bool.split\<close>)
    show ?thesis
    proof (cases r)
      case False
      then show ?thesis using l d(2) by (intro exI [of _ False] exI [of _ state'] exI [of _ nd1]) simp
    next
      case r: True
      have d3: "node_ok env nd1" "state' = state" "nd_idx nd1 = nd_idx ?nd" "nd_tip nd1 = Option.bind (nd_idx ?nd t) bi_pprev"
        "files_keep (nd_files ?nd) (nd_files nd1)" using d(3) [OF r] by blast+
      have sk: "step_keeps ?nd nd1" using d3 by (simp add: step_keeps_def)
      have sk': "step_keeps nd nd1" by (rule step_keeps_trans [OF i(2) sk])
      obtain q where q: "bi_pprev bt = Some q" using w(3) bt(1) tg by (fastforce simp: roots_ok_def)
      have mk: "marked (nd_idx nd1) p" using marked_invalidate(1) [OF Suc.prems(4)] d3 by simp
      have t1: "nd_tip nd1 = Some q"
        using d3 bt(1) q by (auto simp: invalidate_entry_def)
      have len: "length (nd_chain nd1) \<le> fuel"
      proof -
        have w1: "index_wf (nd_idx nd1)" "chain_wf (nd_idx nd1) (nd_chain nd1)" using d3(1) by (simp_all add: node_ok_def tree_wf_def)
        obtain b1 where b1: "nd_idx nd1 q = Some b1" "nd_chain nd1 = chain_path (nd_idx nd1) q b1" using chain_wf_tip [OF w1(2) t1] by blast
        obtain bt1 where "nd_idx nd1 t = Some bt1" "entry_kept bt bt1" using sk' bt(1) places_kept_Some(2) unfolding step_keeps_def by blast
        then have "bi_nHeight bt = bi_nHeight b1 + 1"
          using w1(1) b1(1) q by (fastforce simp: index_wf_def entry_wf_def entry_kept_def links_def)
        then show ?thesis using Suc.prems(5) bt(2) b1(2) by simp
      qed
      show ?thesis
        using Suc.IH [of nd1 q] d3 step_keeps_disk(2) [OF sk' Suc.prems(1,2)] t1 mk len l r step_keeps_trans [OF sk'] by auto
    qed
  qed
qed


lemma readd_candidates_ok: "\<exists>cs. readd_candidates addr idx (Some t) entries cands = Some cs"
  by (induction entries arbitrary: cands) (auto split: option.split)

lemma InvalidateBlock_ok:
  assumes k: "key_compression (ce_fully_valid env) (ce_decompress env)" and m: "\<And>st tx. money_ok (acc_params (ne_accept env st tx))"
    and ok: "node_ok env nd" "undoable M env (nd_idx nd) (nd_files nd)" and t: "nd_tip nd = Some t"
    and p: "nd_idx nd p = Some bi" "p \<noteq> be_HashGenesisBlock env"
  shows "\<exists>r state' nd'. InvalidateBlock env entries state p nd = Some (r, state', nd') \<and> (\<not> r \<longrightarrow> vs_mode state' = MODE_ERROR) \<and>
    (r \<longrightarrow> node_ok env nd' \<and> step_keeps nd nd' \<and> \<not> Contains (nd_idx nd') (nd_chain nd') p \<and> marked (nd_idx nd') p)"
proof -
  let ?nd = "nd\<lparr>nd_index := invalidate_entry 32 p (nd_index nd)\<rparr>"
  note i = invalidate_node [OF ok(1), of 32 p, simplified]
  have "marked (nd_idx ?nd) p" using marked_invalidate(2) [OF p(1)] by simp
  moreover have "nd_tip ?nd = Some t" "length (nd_chain ?nd) \<le> length (nd_chain nd)" using i(3) t by simp_all
  ultimately obtain r state' nd1 where l: "invalidate_loop (length (nd_chain nd)) env p state ?nd = Some (r, state', nd1)"
    "\<not> r \<longrightarrow> vs_mode state' = MODE_ERROR" "r \<longrightarrow> node_ok env nd1 \<and> step_keeps ?nd nd1 \<and> \<not> Contains (nd_idx nd1) (nd_chain nd1) p \<and>
      marked (nd_idx nd1) p \<and> nd_tip nd1 \<noteq> None"
    using invalidate_loop_ok [OF k m p(2) i(1) step_keeps_disk(2) [OF i(2) ok]] by blast
  show ?thesis
  proof (cases r)
    case False
    then show ?thesis using l by (intro exI [of _ False] exI [of _ state'] exI [of _ nd1]) (simp add: InvalidateBlock_def)
  next
    case True
    then obtain t1 where t1: "nd_tip nd1 = Some t1" using l(3) by blast
    obtain cs where cs: "readd_candidates (ne_addr env) (nd_idx nd1) (Some t1) entries (st_setBlockIndexCandidates (nd_index nd1)) = Some cs"
      using readd_candidates_ok by blast
    let ?nd2 = "nd1\<lparr>nd_index := InvalidChainFound p ((nd_index nd1)\<lparr>st_setBlockIndexCandidates := cs\<rparr>)\<rparr>"
    have "node_ok env nd1" using l(3) True by blast
    then have "node_ok env ?nd2" by (rule node_ok_frame) (use l(3) True in \<open>simp_all add: node_ok_def\<close>)
    moreover have "step_keeps nd ?nd2" using step_keeps_trans [OF i(2)] l(3) True by (simp add: step_keeps_def)
    ultimately show ?thesis
      using l True t1 cs by (intro exI [of _ True] exI [of _ state'] exI [of _ ?nd2]) (simp add: InvalidateBlock_def)
  qed
qed

section \<open>New entries and new data keep the invariant\<close>

lemma replay_mono:
  assumes "\<And>q b. q \<in> set ps \<Longrightarrow> rd q = Some b \<Longrightarrow> rd' q = Some b"
  shows "replay rd txid h ps A = Some x \<Longrightarrow> replay rd' txid h ps A = Some x"
  using assms
proof (induction ps arbitrary: h A x)
  case (Cons q ps)
  from Cons.prems(1) obtain b us A' y where b: "rd q = Some b" "abs_block txid (int h) (blk_vtx b) A = Some (us, A')"
    "replay rd txid (Suc h) ps A' = Some y" "x = (case y of (uss, A'') \<Rightarrow> (us # uss, A''))"
    by (auto split: option.splits)
  have "rd' q = Some b" "replay rd' txid (Suc h) ps A' = Some y" using Cons.prems(2) b(1) Cons.IH [OF b(3)] by simp_all
  then show ?case using b by simp
qed simp

lemma branch_dom:
  assumes "index_wf idx" "r \<in> set (branch idx p)"
  shows "\<exists>br. idx r = Some br"
proof (cases "idx p")
  case (Some bi)
  then obtain k where k: "1 \<le> k" "k \<le> bi_nHeight bi" "r = the (walk idx (bi_nHeight bi - k) p)"
    using assms(2) by (auto simp: branch_def)
  then show ?thesis using walk_height [OF assms(1) Some, of "bi_nHeight bi - k"] by auto
qed (use assms(2) in \<open>simp add: branch_def\<close>)

lemma branch_coins_mono:
  assumes "index_wf idx" "branch idx' p = branch idx p"
    and "\<And>q b. idx q \<noteq> None \<Longrightarrow> disk_block env idx fs q = Some b \<Longrightarrow> disk_block env idx' fs' q = Some b"
    and "branch_coins env idx fs p = Some x"
  shows "branch_coins env idx' fs' p = Some x"
  using assms(4) unfolding branch_coins_def assms(2)
  by (rule replay_mono [rotated]) (use branch_dom [OF assms(1)] assms(3) in fastforce)

text \<open>
  The invariant carries over to an index with the same links that has more, and to files that keep what
  they had, as long as the coins of the branches with undo data stay.
\<close>

lemma node_ok_grow:
  assumes ok: "node_ok env nd" and tw: "tree_wf (nd_idx nd')" and ro: "roots_ok env (nd_idx nd')" and da: "data_ok env (nd_idx nd') (nd_files nd')"
    and f: "files_keep (nd_files nd) (nd_files nd')" and c: "nd_chain nd' = nd_chain nd"
    and b: "\<And>p. nd_idx nd p \<noteq> None \<Longrightarrow> branch (nd_idx nd') p = branch (nd_idx nd) p"
    and pa: "\<And>p bi. nd_idx nd p = Some bi \<Longrightarrow> \<exists>bi'. nd_idx nd' p = Some bi' \<and> links bi' = links bi \<and> GetUndoPos bi' = GetUndoPos bi \<and>
      chain_path (nd_idx nd') p bi' = chain_path (nd_idx nd) p bi"
    and dm: "\<And>q b. nd_idx nd q \<noteq> None \<Longrightarrow> disk_block env (nd_idx nd) (nd_files nd) q = Some b \<Longrightarrow> disk_block env (nd_idx nd') (nd_files nd') q = Some b"
    and new: "\<And>p bi. nd_idx nd p = None \<Longrightarrow> nd_idx nd' p = Some bi \<Longrightarrow> CDiskBlockPos_IsNull (GetUndoPos bi)"
    and t: "\<And>A h. tip_at A h (nd_coins nd) \<Longrightarrow> tip_at A h (nd_coins nd')" and mp: "nd_pool nd' = nd_pool nd"
  shows "node_ok env nd'"
proof -
  let ?idx = "nd_idx nd" and ?idx' = "nd_idx nd'" and ?fs = "nd_files nd" and ?fs' = "nd_files nd'"
  have w: "index_wf ?idx" "chain_wf ?idx (nd_chain nd)" "undo_ok env ?idx ?fs" "coins_ok env nd" using ok by (simp_all add: node_ok_def tree_wf_def)
  have bm: "branch_coins env ?idx' ?fs' p = Some x" if "?idx p \<noteq> None" "branch_coins env ?idx ?fs p = Some x" for p x
    by (rule branch_coins_mono [OF w(1) b [OF that(1)] dm that(2)])
  have "chain_wf ?idx' (nd_chain nd)"
  proof (cases "nd_chain nd = []")
    case False
    then obtain p bi where p: "?idx p = Some bi" "nd_chain nd = chain_path ?idx p bi" using w(2) by (auto simp: chain_wf_def)
    obtain bi' where "?idx' p = Some bi'" "chain_path ?idx' p bi' = chain_path ?idx p bi" using pa [OF p(1)] by blast
    then show ?thesis using p(2) unfolding chain_wf_def by metis
  qed (simp add: chain_wf_def)
  moreover have "undo_ok env ?idx' ?fs'"
    unfolding undo_ok_def
  proof (intro allI impI, goal_cases)
    case (1 p bi' q)
    obtain bi where bi: "?idx p = Some bi" using new 1 by (cases "?idx p") auto
    then have k: "bi_pprev bi = Some q" "GetUndoPos bi' = GetUndoPos bi" using pa [OF bi] 1 by (auto simp: links_def)
    then obtain uss us A where "branch_coins env ?idx ?fs p = Some (uss @ [us], A)"
      "undo_at (crypto_sha256 (be_crypto env)) (ce_fully_valid env) ?fs (GetUndoPos bi) q (tl us)"
      using w(3) bi 1(3) unfolding undo_ok_def by metis
    then show ?case using bm [of p] bi undo_at_keep [OF _ f] k(2) by auto
  qed
  moreover have "coins_ok env nd'"
  proof (cases "nd_tip nd")
    case None
    then show ?thesis using w(4) t c by (simp add: coins_ok_def)
  next
    case (Some q)
    then obtain bq where q: "?idx q = Some bq" using chain_wf_tip [OF w(2)] by blast
    obtain uss A where A: "branch_coins env ?idx ?fs q = Some (uss, A)" "tip_at A q (nd_coins nd)"
      "\<And>r. r \<in> set (branch ?idx q) \<Longrightarrow> \<exists>bi. ?idx r = Some bi \<and> \<not> CDiskBlockPos_IsNull (GetUndoPos bi)"
      using w(4) Some by (auto simp: coins_ok_def)
    have "\<exists>bi. ?idx' r = Some bi \<and> \<not> CDiskBlockPos_IsNull (GetUndoPos bi)" if "r \<in> set (branch ?idx q)" for r
      using A(3) [OF that] pa [of r] by auto
    then show ?thesis using A(1,2) bm [of q] q t b [of q] Some c by (auto simp: coins_ok_def)
  qed
  ultimately show ?thesis using ok tw ro da c mp by (simp add: node_ok_def)
qed

lemma node_ok_new_entry:
  assumes ok: "node_ok env nd" and h: "nd_idx nd hash = None" "hash \<noteq> 0"
    and b: "bi_pprev b = None \<longleftrightarrow> hash = be_HashGenesisBlock env" "bi_nStatus b AND 8 = 0" "bi_nStatus b AND 16 = 0"
    and i: "nd_index nd' = (nd_index nd)\<lparr>st_mapBlockIndex := (nd_idx nd)(hash \<mapsto> b)\<rparr>" "tree_wf (nd_idx nd')"
    and e: "nd_store nd' = nd_store nd" "nd_coins nd' = nd_coins nd" "nd_pool nd' = nd_pool nd"
  shows "node_ok env nd'"
proof -
  let ?idx = "nd_idx nd" and ?idx' = "nd_idx nd'"
  have w: "index_wf ?idx" using ok by (simp add: node_ok_def tree_wf_def)
  have x: "?idx' = ?idx(hash \<mapsto> b)" "nd_chain nd' = nd_chain nd" using i(1) by simp_all
  have nh: "q \<noteq> hash" if "?idx q \<noteq> None" for q using that h(1) by auto
  have wk: "walk ?idx' n p = walk ?idx n p" if "?idx p = Some bi" for n p bi
    by (rule walk_extend [OF w h(1) that]) (simp add: x)
  have null: "CDiskBlockPos_IsNull (GetBlockPos b)" "CDiskBlockPos_IsNull (GetUndoPos b)"
    using b(2,3) by (simp_all add: GetBlockPos_def GetUndoPos_def CDiskBlockPos_IsNull_def CDiskBlockPos_null_def)
  show ?thesis
  proof (rule node_ok_grow [OF ok i(2)])
    show "roots_ok env ?idx'" using ok h b(1) by (auto simp: x node_ok_def roots_ok_def split: if_splits)
    show "data_ok env ?idx' (nd_files nd')" using ok null(1) by (auto simp: x e node_ok_def data_ok_def split: if_splits)
    show "branch ?idx' p = branch ?idx p" if "?idx p \<noteq> None" for p
      using wk that nh [OF that] by (auto simp: branch_def x)
    show "\<exists>bi'. ?idx' p = Some bi' \<and> links bi' = links bi \<and> GetUndoPos bi' = GetUndoPos bi \<and> chain_path ?idx' p bi' = chain_path ?idx p bi"
      if "?idx p = Some bi" for p bi
      using wk [OF that] that nh [of p] by (auto simp: x chain_path_def)
    show "disk_block env ?idx' (nd_files nd') q = Some blk" if "?idx q \<noteq> None" "disk_block env ?idx (nd_files nd) q = Some blk" for q blk
      using that nh [of q] by (simp add: disk_block_def x e)
    show "CDiskBlockPos_IsNull (GetUndoPos bi)" if "?idx p = None" "?idx' p = Some bi" for p bi
      using that null(2) by (auto simp: x split: if_splits)
  qed (simp_all add: x e)
qed

lemma node_ok_new_data:
  assumes ok: "node_ok env nd" and p: "nd_idx nd p = Some bi" "CDiskBlockPos_IsNull (GetBlockPos bi)"
    and b: "links b = links bi" "bi_nChainWork b = bi_nChainWork bi" "GetUndoPos b = GetUndoPos bi" "0 \<le> bi_nFile b"
      "block_at (nd_files nd') (GetBlockPos b) block" "block_readable (be_sph env) (be_params env) block" "be_hash (ne_block env) block = p"
    and i: "nd_idx nd' = (nd_idx nd)(p \<mapsto> b)" "nd_chain nd' = nd_chain nd" and f: "files_keep (nd_files nd) (nd_files nd')"
    and e: "\<And>A h. tip_at A h (nd_coins nd) \<Longrightarrow> tip_at A h (nd_coins nd')" "nd_pool nd' = nd_pool nd"
  shows "node_ok env nd'" "disk_block env (nd_idx nd') (nd_files nd') p = Some block"
proof -
  let ?idx = "nd_idx nd" and ?idx' = "nd_idx nd'"
  have w: "tree_wf ?idx" "roots_ok env ?idx" "data_ok env ?idx (nd_files nd)" using ok by (simp_all add: node_ok_def)
  have sl: "same_links ?idx ?idx'" unfolding i(1) by (rule same_links_upd [of ?idx p bi, OF p(1) b(1)])
  have wk: "walk ?idx' n q = walk ?idx n q" for n q using walk_same_links [OF sl] by metis
  have hb: "bi_nHeight b = bi_nHeight bi" "bi_pprev b = bi_pprev bi" using b(1) by (simp_all add: links_def)
  have da: "data_ok env ?idx' (nd_files nd')"
    unfolding data_ok_def
  proof (intro allI impI, goal_cases)
    case (1 q bq)
    show ?case
    proof (cases "q = p")
      case True
      then show ?thesis using 1(1) i(1) b(4-7) by auto
    next
      case False
      then have "?idx q = Some bq" using 1(1) i(1) by simp
      then show ?thesis using w(3) 1(2) block_at_keep [OF _ f] unfolding data_ok_def by blast
    qed
  qed
  have none: "disk_block env ?idx (nd_files nd) p = None"
    using p by (simp add: disk_block_def ReadBlockFromDisk_def ReadBlockFromDisk_pos_def)
  show "disk_block env ?idx' (nd_files nd') p = Some block"
    using data_ok_read [OF da, of p b block] i(1) b(5-7) by (simp add: disk_block_def)
  show "node_ok env nd'"
  proof (rule node_ok_grow [OF ok _ _ da f i(2)])
    show "tree_wf ?idx'" unfolding i(1) by (rule tree_wf_upd [OF w(1) p(1) b(1,2)])
    show "roots_ok env ?idx'" using w(2) p(1) hb(2) by (auto simp: i(1) roots_ok_def)
    show "branch ?idx' q = branch ?idx q" if n: "?idx q \<noteq> None" for q
    proof -
      obtain bq where bq: "?idx q = Some bq" using n by blast
      then obtain bq' where "?idx' q = Some bq'" "bi_nHeight bq' = bi_nHeight bq" using hb(1) p(1) i(1) by (cases "q = p") auto
      then show ?thesis using bq wk by (simp add: branch_def)
    qed
    show "\<exists>bi'. ?idx' q = Some bi' \<and> links bi' = links bq \<and> GetUndoPos bi' = GetUndoPos bq \<and> chain_path ?idx' q bi' = chain_path ?idx q bq"
      if "?idx q = Some bq" for q bq
      by (intro exI [of _ "if q = p then b else bq"]) (use that p(1) b(1,3) hb(1) wk in \<open>auto simp: chain_path_def\<close>, simp_all add: i(1))
    show "disk_block env ?idx' (nd_files nd') q = Some blk" if n: "?idx q \<noteq> None" "disk_block env ?idx (nd_files nd) q = Some blk" for q blk
    proof -
      have q: "q \<noteq> p" using n(2) none by auto
      obtain bq where bq: "?idx q = Some bq" using n(1) by blast
      then have bq': "?idx' q = Some bq" using q i(1) by simp
      show ?thesis
        using n(2) data_ok_read [OF w(3) bq] data_ok_read [OF da bq'] block_at_keep [OF _ f] by (simp add: disk_block_def bq bq')
    qed
  qed (use p(1) e i(1) in \<open>auto split: if_splits\<close>)
qed

lemma link_loop_frame:
  "places_kept (st_mapBlockIndex st) (st_mapBlockIndex (link_loop addr queue st)) \<and>
   undo_kept (st_mapBlockIndex st) (st_mapBlockIndex (link_loop addr queue st)) \<and>
   st_chainActive (link_loop addr queue st) = st_chainActive st"
proof (induction addr queue st rule: link_loop.induct)
  case (2 addr p queue st)
  show ?case
  proof (cases "st_mapBlockIndex st p")
    case (Some bi)
    let ?st = "link_block addr p bi st"
    have k: "places_kept (st_mapBlockIndex st) (st_mapBlockIndex ?st)" "undo_kept (st_mapBlockIndex st) (st_mapBlockIndex ?st)"
      "st_chainActive ?st = st_chainActive st"
      using Some
      by (auto simp: link_block_def Let_def entry_kept_def links_def GetBlockPos_def GetUndoPos_def intro!: places_kept_upd undo_kept_upd)
    then show ?thesis
      using 2 [OF Some] Some places_kept_trans [OF k(1)] undo_kept_trans [OF k(1,2)] by (simp del: unlinked_link_block)
  qed simp
qed simp

lemma status_raise: "(s AND - 8 OR 3) AND 8 = s AND (8 :: u32)" "(s AND - 8 OR 3) AND 16 = s AND (16 :: u32)"
  "(s AND - 8 OR 2) AND 8 = s AND (8 :: u32)" "(s AND - 8 OR 2) AND 16 = s AND (16 :: u32)" "(s OR 8) AND 16 = s AND (16 :: u32)"
  "(s OR 8) AND 8 = (8 :: u32)"
  by (simp_all add: bit.conj_disj_distrib2 and.assoc)

lemma ReceivedBlockTransactions_frame:
  assumes "ReceivedBlockTransactions addr block p (f, d) st = Some st'" "st_mapBlockIndex st p = Some bi" "bi_nStatus bi AND 16 = 0"
  obtains b where "links b = links bi" "bi_nChainWork b = bi_nChainWork bi" "GetUndoPos b = GetUndoPos bi" "bi_nFile b = f"
    "GetBlockPos b = \<lparr>dbp_nFile = f, dbp_nPos = d\<rparr>" "places_kept ((st_mapBlockIndex st)(p \<mapsto> b)) (st_mapBlockIndex st')"
    "undo_kept ((st_mapBlockIndex st)(p \<mapsto> b)) (st_mapBlockIndex st')" "st_chainActive st' = st_chainActive st"
proof -
  define b0 where "b0 = (if block_IsProofOfStake block then SetProofOfStake bi else bi)"
  define b where "b = snd (RaiseValidity BLOCK_VALID_TRANSACTIONS (b0\<lparr>bi_nTx := word_of_nat (length (blk_vtx block)), bi_nChainTx := 0, bi_nFile := f,
     bi_nDataPos := d, bi_nUndoPos := 0, bi_nStatus := bi_nStatus b0 OR BLOCK_HAVE_DATA\<rparr>))"
  have s0: "bi_nStatus b0 = bi_nStatus bi" by (simp add: b0_def SetProofOfStake_def)
  have s: "bi_nStatus b AND 8 \<noteq> 0" "bi_nStatus b AND 16 = 0"
    using assms(3) by (auto simp: b_def RaiseValidity_def s0 status_raise)
  have b: "links b = links bi" "bi_nChainWork b = bi_nChainWork bi" "bi_nFile b = f" "bi_nDataPos b = d"
    by (simp_all add: b_def b0_def links_def RaiseValidity_def SetProofOfStake_def)
  have pos: "GetUndoPos b = GetUndoPos bi" "GetBlockPos b = \<lparr>dbp_nFile = f, dbp_nPos = d\<rparr>"
    using s assms(3) b by (simp_all add: GetUndoPos_def GetBlockPos_def)
  let ?st1 = "st\<lparr>st_mapBlockIndex := (st_mapBlockIndex st)(p \<mapsto> b), st_setDirtyBlockIndex := insert p (st_setDirtyBlockIndex st)\<rparr>"
  have "st' = link_loop addr [p] ?st1 \<or> (\<exists>u. st' = ?st1\<lparr>st_mapBlocksUnlinked := u\<rparr>) \<or> st' = ?st1"
    using assms(1) unfolding ReceivedBlockTransactions_def assms(2) option.case Let_def fst_conv snd_conv b0_def [symmetric] b_def [symmetric]
    by (auto simp del: link_loop.simps split: option.splits if_splits)
  then have "places_kept (st_mapBlockIndex ?st1) (st_mapBlockIndex st') \<and> undo_kept (st_mapBlockIndex ?st1) (st_mapBlockIndex st') \<and>
      st_chainActive st' = st_chainActive st"
    using link_loop_frame [of ?st1 addr "[p]"] by (auto simp del: link_loop.simps)
  then show thesis using that b pos by simp
qed

lemma link_prev_status: "link_prev env idx pr hash q bq bi = Some bi' \<Longrightarrow> bi_nStatus bi' = bi_nStatus bi"
  by (auto simp: link_prev_def BuildSkip_def SetStakeEntropyBit_def SetStakeModifier_def Let_def split: option.splits if_splits prod.splits)


lemma AddToBlockIndex_frame:
  assumes "AddToBlockIndex env hash block st = Some (h, st')" "st_mapBlockIndex st hash = None" "st_mapBlockIndex st' hash = Some b"
  shows "bi_nStatus b AND 8 = 0" "bi_nStatus b AND 16 = 0" "st_chainActive st' = st_chainActive st"
proof -
  define idx1 where "idx1 = (st_mapBlockIndex st)(hash \<mapsto> CBlockIndex_new block)"
  let ?L = "case idx1 (hdr_hashPrevBlock block) of None \<Rightarrow> Some (CBlockIndex_new block)
    | Some bq \<Rightarrow> link_prev env idx1 (st_mapProofOfStake st hash) hash (hdr_hashPrevBlock block) bq (CBlockIndex_new block)"
  have n: "bi_nStatus (CBlockIndex_new block) = 0" by (simp add: CBlockIndex_new_def CBlockIndex_null_def SetProofOfStake_def Let_def)
  note a = assms(1) [unfolded AddToBlockIndex_def Let_def idx1_def [symmetric]]
  from a assms(2) obtain b1 where b1: "?L = Some b1" by (cases ?L) auto
  then have s1: "bi_nStatus b1 = 0" using link_prev_status n by (auto split: option.splits)
  from a assms(2) b1 obtain w where w: "GetBlockProof (bi_nBits b1) = Some w" by (cases "GetBlockProof (bi_nBits b1)") auto
  have "\<exists>k. b = snd (RaiseValidity BLOCK_VALID_TREE (b1\<lparr>bi_nChainWork := k\<rparr>)) \<and> st_chainActive st' = st_chainActive st"
    using a assms(2,3) b1 w by (auto split: if_splits)
  then show "bi_nStatus b AND 8 = 0" "bi_nStatus b AND 16 = 0" "st_chainActive st' = st_chainActive st"
    using s1 by (auto simp: RaiseValidity_def)
qed

text \<open>A header that is accepted.\<close>

lemma accept_header_node:
  assumes ok: "node_ok env nd" and r: "AcceptBlockHeader (ne_block env) block state (nd_index nd) = Some (rv, state', st, pi)"
    and h: "be_hash (ne_block env) block \<noteq> 0" "hdr_hashPrevBlock block \<noteq> be_hash (ne_block env) block"
      "be_hash (ne_block env) block = be_HashGenesisBlock env \<longrightarrow> nd_idx nd (hdr_hashPrevBlock block) = None"
    and u: "\<forall>bi. nd_idx nd (be_hash (ne_block env) block) = Some bi \<longrightarrow> bi_nStatus bi AND 8 = 0 \<longrightarrow> bi_nStatus bi AND 16 = 0"
  shows "node_ok env (nd\<lparr>nd_index := st\<rparr>)" "rv \<Longrightarrow> pi = Some (be_hash (ne_block env) block)"
    "\<And>bi. st_mapBlockIndex st (be_hash (ne_block env) block) = Some bi \<Longrightarrow> bi_nStatus bi AND 8 = 0 \<Longrightarrow> bi_nStatus bi AND 16 = 0"
    "\<And>bi. nd_idx nd (be_hash (ne_block env) block) = None \<Longrightarrow> st_mapBlockIndex st (be_hash (ne_block env) block) = Some bi \<Longrightarrow> bi_nStatus bi AND 8 = 0"
proof -
  let ?h = "be_hash (ne_block env) block" and ?idx = "nd_idx nd" and ?q = "hdr_hashPrevBlock block"
  have same: "nd\<lparr>nd_index := nd_index nd\<rparr> = nd" by simp
  have "node_ok env (nd\<lparr>nd_index := st\<rparr>) \<and> (rv \<longrightarrow> pi = Some ?h) \<and>
    (\<forall>bi. st_mapBlockIndex st ?h = Some bi \<longrightarrow> bi_nStatus bi AND 8 = 0 \<longrightarrow> bi_nStatus bi AND 16 = 0) \<and>
    (\<forall>bi. ?idx ?h = None \<longrightarrow> st_mapBlockIndex st ?h = Some bi \<longrightarrow> bi_nStatus bi AND 8 = 0)"
  proof (cases "st = nd_index nd \<and> (rv \<longrightarrow> ?idx ?h \<noteq> None)")
    case True
    then have "pi = Some ?h" if rv
      using r that by (auto simp: AcceptBlockHeader_def Let_def split: option.splits if_splits prod.splits bool.splits sum.splits)
    then show ?thesis using True ok u same by auto
  next
    case False
    then have n: "?idx ?h = None" using r by (auto simp: AcceptBlockHeader_def Let_def split: option.splits if_splits)
    then have a: "\<exists>p. AddToBlockIndex (be_kernel (ne_block env)) ?h block (nd_index nd) = Some (p, st) \<and> pi = Some p \<and>
        (?h = be_HashGenesisBlock env \<or> ?idx ?q \<noteq> None)"
    proof -
      note r1 = r [unfolded AcceptBlockHeader_def Let_def n option.case]
      obtain c s1 where c: "CheckBlockHeader (ne_block env) block False state = (c, s1)" by (metis surj_pair)
      have "c" using r1 c False n by (cases c) auto
      then have c1: "CheckBlockHeader (ne_block env) block False state = (True, s1)" using c by simp
      define P where "P = (if ?h = be_HashGenesisBlock (ne_block env) then Inr None
        else (case ?idx ?q of None \<Rightarrow> Inl (state_DoS 0 ''bad-prevblk'' False s1)
          | Some bp \<Rightarrow> if bi_nStatus bp AND BLOCK_FAILED_MASK \<noteq> 0 then Inl (state_DoS 100 ''bad-prevblk'' False s1) else Inr (Some ?q)))"
      note r2 = r1 [unfolded c1 prod.case bool.case, folded P_def]
      obtain q where q: "P = Inr q" using r2 False n by (cases P) auto
      have qi: "?h = be_HashGenesisBlock env \<or> ?idx ?q \<noteq> None"
        using q by (auto simp: P_def block_env.truncate_def split: if_splits option.splits)
      let ?C = "ContextualCheckBlockHeader (ne_block env) ?idx (nd_chain nd) block q s1"
      note r3 = r2 [unfolded q sum.case]
      have "?C \<noteq> None"
      proof
        assume z: "?C = None"
        show False using r3 unfolding z option.case by (rule option.distinct(1) [THEN notE])
      qed
      then obtain d s2 where d: "?C = Some (d, s2)" by (metis option.exhaust surj_pair)
      note r4 = r3 [unfolded d option.case prod.case]
      show ?thesis
      proof (cases d)
        case True
        then show ?thesis using r4 qi by auto
      next
        case False
        then show ?thesis using r4 \<open>\<not> (st = nd_index nd \<and> (rv \<longrightarrow> ?idx ?h \<noteq> None))\<close> by auto
      qed
    qed
    have tw: "tree_wf ?idx" using ok by (simp add: node_ok_def)
    from a obtain p where p: "AddToBlockIndex (be_kernel (ne_block env)) ?h block (nd_index nd) = Some (p, st)" "pi = Some p"
      "?h = be_HashGenesisBlock env \<or> ?idx ?q \<noteq> None" by blast
    from AddToBlockIndex_ok [OF tw n h(2), of "be_kernel (ne_block env)"] obtain st1 b where
      b1: "AddToBlockIndex (be_kernel (ne_block env)) ?h block (nd_index nd) = Some (?h, st1)" "tree_wf (st_mapBlockIndex st1)"
        "st_mapBlockIndex st1 ?h = Some b" "bi_pprev b = (if ?idx ?q = None then None else Some ?q)"
        "\<forall>p. p \<noteq> ?h \<longrightarrow> map_option (\<lambda>bi. bi\<lparr>bi_pnext := None\<rparr>) (st_mapBlockIndex st1 p) = map_option (\<lambda>bi. bi\<lparr>bi_pnext := None\<rparr>) (?idx p)"
      by blast
    have e: "st1 = st" "p = ?h" using p(1) b1(1) by simp_all
    note b = b1(1-4) [unfolded e] p(2) [unfolded e] b1(5) [unfolded e, rule_format]
    note s = AddToBlockIndex_frame [OF b(1) n b(3)]
    let ?nd1 = "nd\<lparr>nd_index := st\<lparr>st_mapBlockIndex := (st_mapBlockIndex st)(?h := None)\<rparr>\<rparr>"
    have old: "\<exists>bi'. st_mapBlockIndex st p = Some bi' \<and> entry_kept bi bi' \<and> GetUndoPos bi' = GetUndoPos bi" if p: "?idx p = Some bi" for p bi
    proof -
      have "p \<noteq> ?h" using p n by auto
      then obtain bi' where bi': "st_mapBlockIndex st p = Some bi'" "bi'\<lparr>bi_pnext := None\<rparr> = bi\<lparr>bi_pnext := None\<rparr>"
        using b(6) [of p] p by auto
      then show ?thesis by (cases bi; cases bi') (auto simp: entry_kept_def links_def GetBlockPos_def GetUndoPos_def)
    qed
    have none: "(((st_mapBlockIndex st)(?h := None)) p = None) = (?idx p = None)" for p
      using b(6) [of p] n by (cases "p = ?h") auto
    have pk: "places_kept ?idx (nd_idx ?nd1)" "undo_kept ?idx (nd_idx ?nd1)"
      using old none n by (fastforce simp: places_kept_def undo_kept_def split: if_splits)+
    have n1: "node_ok env ?nd1"
      by (rule node_ok_frame [OF ok pk]) (use s(3) ok in \<open>simp_all add: node_ok_def\<close>)
    have "node_ok env (nd\<lparr>nd_index := st\<rparr>)"
    proof (rule node_ok_new_entry [OF n1, of ?h b])
      show "bi_pprev b = None \<longleftrightarrow> ?h = be_HashGenesisBlock env" using b(4) p(3) h(3) by auto
      show "nd_index (nd\<lparr>nd_index := st\<rparr>) = (nd_index ?nd1)\<lparr>st_mapBlockIndex := (nd_idx ?nd1)(?h \<mapsto> b)\<rparr>"
        using b(3) by (simp add: fun_upd_idem)
    qed (use h(1) s b(2) in simp_all)
    then show ?thesis using s b(3,5) by simp
  qed
  then show "node_ok env (nd\<lparr>nd_index := st\<rparr>)" "rv \<Longrightarrow> pi = Some ?h"
    "\<And>bi. st_mapBlockIndex st ?h = Some bi \<Longrightarrow> bi_nStatus bi AND 8 = 0 \<Longrightarrow> bi_nStatus bi AND 16 = 0"
    "\<And>bi. ?idx ?h = None \<Longrightarrow> st_mapBlockIndex st ?h = Some bi \<Longrightarrow> bi_nStatus bi AND 8 = 0" by auto
qed

lemma accept_stake_node:
  assumes "accept_stake env block q nd = Some (r, nd')"
  shows "nd_index nd' = nd_index nd" "nd_store nd' = nd_store nd" "nd_pool nd' = nd_pool nd"
    "tip_at A h (nd_coins nd) \<Longrightarrow> tip_at A h (nd_coins nd')"
proof -
  obtain hv view where v: "HaveInputs tip_get (cache_new (nd_coins nd)) (blk_vtx block ! 1) = (hv, view)" by (metis surj_pair)
  have n: "nd' = nd \<or> nd' = nd\<lparr>nd_coins := cache_base view\<rparr>"
    using assms v by (auto simp: accept_stake_def Let_def split: if_splits option.splits)
  then show "nd_index nd' = nd_index nd" "nd_store nd' = nd_store nd" "nd_pool nd' = nd_pool nd" by auto
  show "tip_at A h (nd_coins nd')" if "tip_at A h (nd_coins nd)"
    using n that tip_reads.HaveInputs_keeps [OF _ v, of A h] by (auto simp: cache_new_def)
qed

lemma store_new_block_node:
  assumes ok: "node_ok env nd" and r: "store_new_block env block None p bi state nd = Some (rv, state', nd')"
    and p: "nd_idx nd p = Some bi" "bi_nStatus bi AND 8 = 0" "bi_nStatus bi AND 16 = 0" "p = be_hash (ne_block env) block"
    and s: "sizes_ok (nd_files nd)" "length (ce_MessageStart env) = 4" "length (ser_CBlock block) + 8 < 0x8000000"
    and b: "block_readable (be_sph env) (be_params env) block"
  shows "node_ok env nd'" "rv \<Longrightarrow> disk_block env (nd_idx nd') (nd_files nd') p = Some block" "sizes_ok (nd_files nd')"
proof -
  let ?n = "word_of_nat (length (ser_CBlock block) + 8) :: u32"
  obtain w pos fs1 pos' fs2 where f:
    "FindBlockPos (ce_nFree env) CDiskBlockPos_null ?n (word_of_nat (bi_nHeight bi)) (word_of_nat (unat (hdr_nTime block))) False (nd_files nd) = Some (w, pos, fs1)"
    "files_keep (nd_files nd) fs1" "sizes_ok fs1" "WriteBlockToDisk (ce_MessageStart env) block pos fs1 = Some (pos', fs2)"
    "files_keep (nd_files nd) fs2" "sizes_ok fs2" "block_at fs2 pos' block"
    using store_block [OF s, of "ce_nFree env" "word_of_nat (bi_nHeight bi)" "word_of_nat (unat (hdr_nTime block))"] by blast
  have pos: "dbp_nFile pos' = dbp_nFile pos" "0 \<le> dbp_nFile pos"
    using f(1,4) by (auto simp: WriteBlockToDisk_def FindBlockPos_def Let_def split: if_splits option.splits prod.splits)
  let ?nd1 = "nd\<lparr>nd_store := (nd_store nd)\<lparr>cs_files := fs1\<rparr>\<rparr>"
  have res: "if \<not> w then rv = False \<and> nd' = ?nd1
    else rv \<and> (\<exists>st. ReceivedBlockTransactions (ne_addr env) block p (dbp_nFile pos', dbp_nPos pos') (nd_index nd) = Some st \<and>
      nd' = ?nd1\<lparr>nd_store := (nd_store ?nd1)\<lparr>cs_files := fs2\<rparr>, nd_index := st\<rparr>)"
    using r f(1,4) by (auto simp: store_new_block_def Let_def split: if_splits)
  have "node_ok env nd' \<and> (rv \<longrightarrow> disk_block env (nd_idx nd') (nd_files nd') p = Some block) \<and> sizes_ok (nd_files nd')"
  proof (cases w)
    case False
    then have "nd' = ?nd1" "\<not> rv" using res by simp_all
    moreover have "node_ok env ?nd1" by (rule node_ok_frame [OF ok]) (use f(2) ok in \<open>simp_all add: node_ok_def\<close>)
    ultimately show ?thesis using f(3) by simp
  next
    case True
    then obtain st where st: "ReceivedBlockTransactions (ne_addr env) block p (dbp_nFile pos', dbp_nPos pos') (nd_index nd) = Some st"
      "nd' = ?nd1\<lparr>nd_store := (nd_store ?nd1)\<lparr>cs_files := fs2\<rparr>, nd_index := st\<rparr>" using res by auto
    obtain b' where b': "links b' = links bi" "bi_nChainWork b' = bi_nChainWork bi" "GetUndoPos b' = GetUndoPos bi" "bi_nFile b' = dbp_nFile pos'"
      "GetBlockPos b' = \<lparr>dbp_nFile = dbp_nFile pos', dbp_nPos = dbp_nPos pos'\<rparr>" "places_kept ((nd_idx nd)(p \<mapsto> b')) (st_mapBlockIndex st)"
      "undo_kept ((nd_idx nd)(p \<mapsto> b')) (st_mapBlockIndex st)" "st_chainActive st = nd_chain nd"
      using ReceivedBlockTransactions_frame [OF st(1) p(1,3)] by blast
    let ?nd2 = "nd'\<lparr>nd_index := (nd_index nd)\<lparr>st_mapBlockIndex := (nd_idx nd)(p \<mapsto> b')\<rparr>\<rparr>"
    have at: "block_at fs2 (GetBlockPos b') block" using f(7) b'(5) by (cases pos') simp
    have nn: "CDiskBlockPos_IsNull (GetBlockPos bi)" using p(2) by (simp add: GetBlockPos_def CDiskBlockPos_IsNull_def CDiskBlockPos_null_def)
    have nf: "nd_files nd' = fs2" "nd_coins nd' = nd_coins nd" "nd_pool nd' = nd_pool nd" "nd_index nd' = st" using st(2) by simp_all
    have n2: "node_ok env ?nd2" "disk_block env (nd_idx ?nd2) (nd_files ?nd2) p = Some block"
      by (rule node_ok_new_data [OF ok p(1) nn b'(1-3)]; use at b'(4) pos b p(4) [symmetric] f(5) in \<open>simp add: nf\<close>)+
    have pk: "places_kept (nd_idx ?nd2) (nd_idx nd')" "undo_kept (nd_idx ?nd2) (nd_idx nd')" using b'(6,7) nf by simp_all
    have "node_ok env nd'"
      by (rule node_ok_frame [OF n2(1) pk]) (use b'(8) nf ok in \<open>simp_all add: node_ok_def\<close>)
    moreover have "step_keeps ?nd2 nd'" using pk by (simp add: step_keeps_def)
    then have "disk_block env (nd_idx nd') (nd_files nd') p = Some block" using step_keeps_disk(1) [OF _ n2(1)] n2(2) by metis
    ultimately show ?thesis using f(6) nf(1) by simp
  qed
  then show "node_ok env nd'" "rv \<Longrightarrow> disk_block env (nd_idx nd') (nd_files nd') p = Some block" "sizes_ok (nd_files nd')" by auto
qed


lemma disk_block_data: "disk_block env idx fs p = Some b \<Longrightarrow> \<exists>bi. idx p = Some bi \<and> bi_nStatus bi AND 8 \<noteq> 0"
  by (cases "idx p")
    (auto simp: disk_block_def ReadBlockFromDisk_def ReadBlockFromDisk_pos_def GetBlockPos_def CDiskBlockPos_IsNull_def CDiskBlockPos_null_def split: if_splits)

lemma accept_prev_cases:
  assumes "accept_prev env entries block state nd = Some z"
    and "\<forall>bp. nd_idx nd (hdr_hashPrevBlock block) = Some bp \<longrightarrow> bi_nStatus bp AND BLOCK_FAILED_MASK \<noteq> 0 \<longrightarrow>
      \<not> Checkpoints_CheckBlock (be_fEnabled env) (be_mapCheckpoints env) (int (bi_nHeight bp)) (hdr_hashPrevBlock block) True"
  shows "(\<exists>s. z = Inl (False, s, nd)) \<or> (\<exists>q. z = Inr q)"
  using assms by (auto simp: accept_prev_def split: if_splits option.splits)

lemma accept_data_node:
  assumes ok: "node_ok env nd" and r: "accept_data env block None already q (be_hash (ne_block env) block) bi state nd = Some (rv, state', nd')"
    and p: "nd_idx nd (be_hash (ne_block env) block) = Some bi" "bi_nStatus bi AND 8 = 0" "bi_nStatus bi AND 16 = 0"
    and s: "sizes_ok (nd_files nd)" "length (ce_MessageStart env) = 4" "length (ser_CBlock block) + 8 < 0x8000000"
    and b: "block_readable (be_sph env) (be_params env) block"
  shows "node_ok env nd' \<and> (rv \<longrightarrow> disk_block env (nd_idx nd') (nd_files nd') (be_hash (ne_block env) block) = Some block) \<and> sizes_ok (nd_files nd')"
proof -
  let ?h = "be_hash (ne_block env) block"
  define K where "K = (if already then Some (True, state, cs_mapRejectedBlocks (nd_store nd))
    else CheckBlock (ne_block env) (nd_idx nd) (nd_chain nd) True block state (cs_mapRejectedBlocks (nd_store nd)))"
  note r1 = r [unfolded accept_data_def K_def [symmetric]]
  obtain ck s1 rej where K: "K = Some (ck, s1, rej)" using r1 by (cases K) auto
  define nd1 where "nd1 = nd\<lparr>nd_store := (nd_store nd)\<lparr>cs_mapRejectedBlocks := rej\<rparr>\<rparr>"
  have i1: "nd_index nd1 = nd_index nd" "nd_files nd1 = nd_files nd" by (simp_all add: nd1_def)
  have n1: "node_ok env nd1" by (rule node_ok_frame [OF ok]) (use ok in \<open>simp_all add: nd1_def node_ok_def\<close>)
  define C where "C = (if \<not> ck then Some (False, s1) else ContextualCheckBlock (ne_block env) (nd_idx nd1) (nd_chain nd1) block (bi_pprev bi) s1)"
  note r2 = r1 [unfolded K option.case prod.case, folded nd1_def, unfolded Let_def, folded C_def]
  obtain cc s2 where C: "C = Some (cc, s2)" using r2 by (cases C) auto
  show ?thesis
  proof (cases cc)
    case False
    let ?nd2 = "nd1\<lparr>nd_index := (nd_index nd1)\<lparr>
         st_mapBlockIndex := (nd_idx nd1)(?h \<mapsto> bi\<lparr>bi_nStatus := bi_nStatus bi OR BLOCK_FAILED_VALID\<rparr>),
         st_setDirtyBlockIndex := insert ?h (st_setDirtyBlockIndex (nd_index nd1))\<rparr>\<rparr>"
    have e: "\<not> rv \<and> (nd' = nd1 \<or> nd' = ?nd2)" using r2 C False by (auto split: if_splits)
    have "places_kept (nd_idx nd1) (nd_idx ?nd2)" "undo_kept (nd_idx nd1) (nd_idx ?nd2)"
      using p(1) i1 by (auto simp: GetUndoPos_def intro!: places_kept_upd undo_kept_upd entry_kept_status)
    then have "node_ok env ?nd2" by (rule node_ok_frame [OF n1]) (use n1 in \<open>simp_all add: node_ok_def\<close>)
    then show ?thesis using e n1 i1 s(1) by auto
  next
    case True
    define S where "S = accept_stake env block q nd1"
    have C1: "C = Some (True, s2)" using C True by simp
    note r3 = r2 [unfolded C1 option.case prod.case bool.case S_def [symmetric]]
    obtain sv nd2 where S: "S = Some (sv, nd2)" using r3 by (cases S) auto
    note st = accept_stake_node [OF S [unfolded S_def]]
    have n2: "node_ok env nd2" by (rule node_ok_frame [OF n1]) (use st n1 in \<open>simp_all add: node_ok_def\<close>)
    have i2: "nd_idx nd2 ?h = Some bi" "nd_files nd2 = nd_files nd" using st(1,2) i1 p(1) by simp_all
    show ?thesis
    proof (cases sv)
      case False
      then show ?thesis using r3 S n2 i2 s(1) by simp
    next
      case True
      then have "store_new_block env block None ?h bi s2 nd2 = Some (rv, state', nd')" using r3 S by simp
      from store_new_block_node [OF n2 this i2(1) p(2,3) refl _ s(2,3) b] i2(2) s(1) show ?thesis by simp
    qed
  qed
qed

lemma AcceptBlock_node:
  assumes ok: "node_ok env nd" and r: "AcceptBlock env entries block None already state nd = Some (rv, state', nd')"
    and nc: "\<forall>bp. nd_idx nd (hdr_hashPrevBlock block) = Some bp \<longrightarrow> bi_nStatus bp AND BLOCK_FAILED_MASK \<noteq> 0 \<longrightarrow>
      \<not> Checkpoints_CheckBlock (be_fEnabled env) (be_mapCheckpoints env) (int (bi_nHeight bp)) (hdr_hashPrevBlock block) True"
    and h: "be_hash (ne_block env) block \<noteq> 0" "hdr_hashPrevBlock block \<noteq> be_hash (ne_block env) block"
      "be_hash (ne_block env) block = be_HashGenesisBlock env \<longrightarrow> nd_idx nd (hdr_hashPrevBlock block) = None"
    and u: "\<forall>bi. nd_idx nd (be_hash (ne_block env) block) = Some bi \<longrightarrow> bi_nStatus bi AND 8 = 0 \<longrightarrow> bi_nStatus bi AND 16 = 0"
    and s: "sizes_ok (nd_files nd)" "length (ce_MessageStart env) = 4" "length (ser_CBlock block) + 8 < 0x8000000"
    and b: "block_readable (be_sph env) (be_params env) block"
  shows "node_ok env nd'" "sizes_ok (nd_files nd')"
    "rv \<Longrightarrow> \<exists>bi. nd_idx nd' (be_hash (ne_block env) block) = Some bi \<and> bi_nStatus bi AND 8 \<noteq> 0"
    "rv \<Longrightarrow> nd_idx nd (be_hash (ne_block env) block) = None \<Longrightarrow> disk_block env (nd_idx nd') (nd_files nd') (be_hash (ne_block env) block) = Some block"
proof -
  let ?h = "be_hash (ne_block env) block" and ?idx = "nd_idx nd" and ?q = "hdr_hashPrevBlock block"
  have "node_ok env nd' \<and> sizes_ok (nd_files nd') \<and> (rv \<longrightarrow> (\<exists>bi. nd_idx nd' ?h = Some bi \<and> bi_nStatus bi AND 8 \<noteq> 0)) \<and>
    (rv \<and> ?idx ?h = None \<longrightarrow> disk_block env (nd_idx nd') (nd_files nd') ?h = Some block)"
  proof -
    obtain z where z: "accept_prev env entries block state nd = Some z"
      using r by (cases "accept_prev env entries block state nd") (simp_all add: AcceptBlock_def)
    from accept_prev_cases [OF z nc] consider (out) s0 where "z = Inl (False, s0, nd)" | (q) q where "z = Inr q" by blast
    then show ?thesis
    proof cases
      case out
      then show ?thesis using r z ok s(1) by (simp add: AcceptBlock_def)
    next
      case q
      define W where "W = (if ?h = be_HashGenesisBlock env then Some (True, st_mapProofOfStake (nd_index nd))
        else CheckWork (ne_block env) ?idx (nd_chain nd) block q (st_mapProofOfStake (nd_index nd)))"
      note r1 = r [unfolded AcceptBlock_def z q option.case sum.case W_def [symmetric]]
      obtain wk proofs where W: "W = Some (wk, proofs)" using r1 by (cases W) auto
      define nd1 where "nd1 = nd\<lparr>nd_index := (nd_index nd)\<lparr>st_mapProofOfStake := proofs\<rparr>\<rparr>"
      have i1: "nd_index nd1 = (nd_index nd)\<lparr>st_mapProofOfStake := proofs\<rparr>" "nd_store nd1 = nd_store nd" by (simp_all add: nd1_def)
      have n1: "node_ok env nd1" by (rule node_ok_frame [OF ok]) (use ok in \<open>simp_all add: nd1_def node_ok_def\<close>)
      note r2 = r1 [unfolded W option.case prod.case i1(1) [symmetric]]
      show ?thesis
      proof (cases wk)
        case False
        then show ?thesis using r2 n1 s(1) i1(2) by (simp add: nd1_def)
      next
        case wk: True
        then have W1: "W = Some (True, proofs)" using W by simp
        define H where "H = AcceptBlockHeader (ne_block env) block state (nd_index nd1)"
        note r3 = r1 [unfolded W1 option.case prod.case bool.case i1(1) [symmetric] H_def [symmetric]]
        obtain hv s1 st pi where H: "H = Some (hv, s1, st, pi)" using r3 by (cases H) auto
        have e1: "nd_idx nd1 = ?idx" by (simp add: i1)
        note hn = accept_header_node [OF n1 H [unfolded H_def] h(1,2) h(3) [folded e1] u [folded e1]]
        define nd2 where "nd2 = nd\<lparr>nd_index := st\<rparr>"
        have e2: "nd1\<lparr>nd_index := st\<rparr> = nd2" unfolding nd1_def nd2_def by simp
        have n2: "node_ok env nd2" using hn(1) unfolding e2 .
        have f2: "nd_files nd2 = nd_files nd" "nd_index nd2 = st" by (simp_all add: nd2_def)
        note r4 = r3 [unfolded H option.case prod.case, folded nd2_def]
        show ?thesis
        proof (cases hv)
          case False
          then show ?thesis using r4 n2 f2 s(1) by simp
        next
          case hv: True
          obtain bi where bi: "nd_idx nd2 ?h = Some bi" using r4 hv hn(2) [OF hv] by (cases "nd_idx nd2 ?h") (simp_all add: Let_def)
          have H1: "H = Some (True, s1, st, Some ?h)" using H hv hn(2) by simp
          note r5 = r3 [unfolded H1 option.case prod.case bool.case, folded nd2_def, unfolded Let_def bi option.case]
          have new: "bi_nStatus bi AND 8 = 0" if "?idx ?h = None"
            using accept_header_node(4) [OF n1 H [unfolded H_def] h(1,2) h(3) [folded e1] u [folded e1], of bi] that bi f2(2) e1 by simp
          show ?thesis
          proof (cases "bi_nStatus bi AND 8 = 0")
            case False
            have "rv" "nd' = nd2" using r5 False by simp_all
            then show ?thesis using n2 f2(1) s(1) bi False new by auto
          next
            case nodata: True
            have r6: "accept_data env block None already q ?h bi s1 nd2 = Some (rv, state', nd')" using r5 nodata by simp
            have s2: "sizes_ok (nd_files nd2)" using s(1) f2(1) by simp
            have i2: "nd_idx nd2 ?h = Some bi" "bi_nStatus bi AND 16 = 0" using bi hn(3) [of bi] nodata f2(2) by simp_all
            note a = accept_data_node [OF n2 r6 i2(1) nodata i2(2) s2 s(2,3) b]
            then show ?thesis using disk_block_data by blast
          qed
        qed
      qed
    qed
  qed
  then show "node_ok env nd'" "sizes_ok (nd_files nd')"
    "rv \<Longrightarrow> \<exists>bi. nd_idx nd' ?h = Some bi \<and> bi_nStatus bi AND 8 \<noteq> 0"
    "rv \<Longrightarrow> ?idx ?h = None \<Longrightarrow> disk_block env (nd_idx nd') (nd_files nd') ?h = Some block" by auto
qed

text \<open>Storing a block comes to an end.\<close>

lemma ReceivedBlockTransactions_total:
  assumes "index_wf (st_mapBlockIndex st)" "st_mapBlockIndex st p = Some bi"
  shows "\<exists>st'. ReceivedBlockTransactions addr block p pos st = Some st'"
proof -
  have e: "entry_wf (st_mapBlockIndex st) p bi" using assms by (simp add: index_wf_def)
  define b0 where "b0 = (if block_IsProofOfStake block then SetProofOfStake bi else bi)"
  define b where "b = snd (RaiseValidity BLOCK_VALID_TRANSACTIONS (b0\<lparr>bi_nTx := word_of_nat (length (blk_vtx block)), bi_nChainTx := 0, bi_nFile := fst pos,
     bi_nDataPos := snd pos, bi_nUndoPos := 0, bi_nStatus := bi_nStatus b0 OR BLOCK_HAVE_DATA\<rparr>))"
  have l: "bi_pprev b = bi_pprev bi" by (simp add: b_def b0_def RaiseValidity_def SetProofOfStake_def)
  have "\<exists>bq. ((st_mapBlockIndex st)(p \<mapsto> b)) q = Some bq" if "bi_pprev bi = Some q" for q
    using e that by (auto simp: entry_wf_def)
  then show ?thesis
    unfolding ReceivedBlockTransactions_def assms(2) option.case Let_def b0_def [symmetric] b_def [symmetric]
    using l by (auto simp del: link_loop.simps split: option.split)
qed

lemma store_new_block_returns:
  assumes "sizes_ok (nd_files nd)" "length (ce_MessageStart env) = 4" "length (ser_CBlock block) + 8 < 0x8000000"
    and "index_wf (nd_idx nd)" "nd_idx nd p = Some bi"
  shows "\<exists>r. store_new_block env block None p bi state nd = Some r"
proof -
  obtain w pos fs1 pos' fs2 where f:
    "FindBlockPos (ce_nFree env) CDiskBlockPos_null (word_of_nat (length (ser_CBlock block) + 8)) (word_of_nat (bi_nHeight bi))
       (word_of_nat (unat (hdr_nTime block))) False (nd_files nd) = Some (w, pos, fs1)"
    "WriteBlockToDisk (ce_MessageStart env) block pos fs1 = Some (pos', fs2)"
    using store_block [OF assms(1-3), of "ce_nFree env" "word_of_nat (bi_nHeight bi)" "word_of_nat (unat (hdr_nTime block))"] by blast
  then show ?thesis
    using ReceivedBlockTransactions_total [OF assms(4,5), of "ne_addr env" block "(dbp_nFile pos', dbp_nPos pos')"]
    by (auto simp: store_new_block_def Let_def)
qed

section \<open>A third block for the sample node\<close>

definition third_block :: CBlock where
  "third_block = (node_block 3)\<lparr>hdr_hashPrevBlock := 1\<rparr>"

lemma third_simps [simp]: "blk_vtx third_block = [sample_coinbase]" "hdr_hashPrevBlock third_block = 1" "\<not> block_IsProofOfStake third_block"
  "hdr_nVersion third_block = 3"
  by (simp_all add: third_block_def node_block_def block_IsProofOfStake_def)

lemma third_hash: "block_GetHash version_sph third_block = 3"
proof -
  have "hd (ser_int 4 3) = (3 :: byte)" by code_simp
  then show ?thesis
    by (simp add: block_GetHash_def HashQuark_def version_sph_def header_first Let_def quark_bit_def trim256_def)
qed

lemma third_readable: "block_readable version_sph pow_CMainParams third_block"
  by (simp add: block_readable_def valid_CBlock_def valid_CBlockHeader_def valid_vector_def third_block_def node_block_def pow_block_def CBlockHeader_null_def
      CBlockHeader.extend_def in_sint_def CheckProofOfWork_def pow_CMainParams_def CChainParams.extend_def
      CMainParams_def valid_CTransaction_def sample_coinbase_def valid_CTxIn_def valid_CTxOut_def valid_bytes_def block_IsProofOfStake_def)

lemma third_length: "length (ser_CBlock third_block) = 144"
  by (simp add: ser_CBlock_def length_ser_CBlockHeader sample_coinbase_def ser_CTransaction_def ser_vector_def ser_CTxIn_def ser_CTxOut_def ser_COutPoint_def
      ser_int_def ser_word_def ser_bytes_def length_WriteCompactSize GetSizeOfCompactSize_def)

lemma node_sizes: "sizes_ok node_files"
  by (simp add: sizes_ok_def node_files_def info_at_def node_file_def CBlockFileInfo_null_def nth_Cons')

lemma node_status: "bi_nStatus (node_entry h) = 11"
  by (simp add: node_entry_def)

lemma third_accepts: "\<exists>r state' nd'. AcceptBlock sample_node_env [] third_block None True CValidationState_new sample_node = Some (r, state', nd')"
proof -
  let ?env = sample_node_env and ?nd = sample_node
  let ?benv = "ne_block ?env"
  have prev: "accept_prev ?env [] third_block CValidationState_new ?nd = Some (Inr (Some 1))"
    by (simp add: accept_prev_def third_hash node_status)
  have "\<exists>n. GetCompact (par_bnProofOfWorkLimit pow_CMainParams) False = Some n"
    by (rule GetCompact_rep [of "par_bnProofOfWorkLimit pow_CMainParams"]) (auto simp: pow_CMainParams_def CChainParams.extend_def)
  then have work: "CheckWork ?benv (nd_idx ?nd) (nd_chain ?nd) third_block (Some 1) (st_mapProofOfStake (nd_index ?nd)) = Some (True, st_mapProofOfStake (nd_index ?nd))"
    by (auto simp: CheckWork_def GetNextWorkRequired_def sample_block_env_def pow_CMainParams_def CMainParams_def CChainParams.extend_def)
  let ?st = "(nd_index ?nd)\<lparr>st_mapProofOfStake := st_mapProofOfStake (nd_index ?nd)\<rparr>"
  have tw: "tree_wf (st_mapBlockIndex ?st)" using sample_node_ok by (simp add: node_ok_def)
  have ne: "hdr_hashPrevBlock third_block \<noteq> be_hash ?benv third_block" by (simp add: third_hash)
  obtain hv s1 st pi where h: "AcceptBlockHeader ?benv third_block CValidationState_new ?st = Some (hv, s1, st, pi)"
      "tree_wf (st_mapBlockIndex st)" "hv \<longrightarrow> pi = Some 3"
    using AcceptBlockHeader_ok [OF tw ne, of CValidationState_new] by (auto simp: third_hash)
  have i3: "\<exists>bi. st_mapBlockIndex st 3 = Some bi" if hv
  proof -
    have "st_mapBlockIndex ?st 3 = None" "be_HashGenesisBlock sample_block_env \<noteq> 3" by (simp_all add: sample_block_env_def)
    then show ?thesis using AcceptBlockHeader_ok [OF tw ne, of CValidationState_new] h(1) that by (auto simp: third_hash)
  qed
  let ?nd1 = "?nd\<lparr>nd_index := st\<rparr>"
  have "\<exists>r. AcceptBlock ?env [] third_block None True CValidationState_new ?nd = Some r"
  proof (cases hv)
    case False
    then show ?thesis using prev work h(1) by (auto simp: AcceptBlock_def third_hash)
  next
    case True
    then obtain bi where bi: "st_mapBlockIndex st 3 = Some bi" using i3 by blast
    have c: "\<exists>d s2. ContextualCheckBlock ?benv (nd_idx ?nd1) (nd_chain ?nd1) third_block (bi_pprev bi) s1 = Some (d, s2)"
      by (auto simp: ContextualCheckBlock_def Let_def sample_coinbase_def)
    have "\<exists>r. accept_data ?env third_block None True (Some 1) 3 bi s1 ?nd1 = Some r"
    proof -
      let ?nd2 = "?nd1\<lparr>nd_store := (nd_store ?nd1)\<lparr>cs_mapRejectedBlocks := cs_mapRejectedBlocks (nd_store ?nd1)\<rparr>\<rparr>"
      have iw: "index_wf (nd_idx ?nd2)" using h(2) by (simp add: tree_wf_def)
      have "\<exists>r. store_new_block ?env third_block None 3 bi s2 ?nd2 = Some r" for s2
        by (rule store_new_block_returns [OF _ _ _ iw]) (use node_sizes third_length bi in simp_all)
      then show ?thesis using c by (auto simp: accept_data_def accept_stake_def Let_def split: bool.split)
    qed
    then show ?thesis using prev work h(1,3) True bi by (auto simp: AcceptBlock_def third_hash Let_def)
  qed
  then show ?thesis by (metis prod_cases3)
qed


section \<open>Properties\<close>

text \<open>
  C3: \<^verbatim>\<open>AcceptBlock\<close> on a block that comes without a place on disk (\<^verbatim>\<open>dbp\<close> null), whatever its verdict, keeps the node
  consistent: a new header becomes a leaf of the tree and the block is stored where its entry says. A new block
  that is accepted can be read back from disk. The block has less than 128 MB and fields that serialize; its hash is neither
  null nor that of its predecessor; an entry for it without data has no undo data either; and its predecessor is not
  a failed block that matches a checkpoint, which \<^verbatim>\<open>AcceptBlock\<close> reconsiders instead, returning true without storing the new block.
\<close>

theorem accept_block_keeps_node:
  assumes "node_ok env nd" "AcceptBlock env entries block None already state nd = Some (rv, state', nd')"
    and "\<forall>bp. nd_idx nd (hdr_hashPrevBlock block) = Some bp \<longrightarrow> bi_nStatus bp AND BLOCK_FAILED_MASK \<noteq> 0 \<longrightarrow>
      \<not> Checkpoints_CheckBlock (be_fEnabled env) (be_mapCheckpoints env) (int (bi_nHeight bp)) (hdr_hashPrevBlock block) True"
    and "be_hash (ne_block env) block \<noteq> 0" "hdr_hashPrevBlock block \<noteq> be_hash (ne_block env) block"
      "be_hash (ne_block env) block = be_HashGenesisBlock env \<longrightarrow> nd_idx nd (hdr_hashPrevBlock block) = None"
    and "\<forall>bi. nd_idx nd (be_hash (ne_block env) block) = Some bi \<longrightarrow> bi_nStatus bi AND BLOCK_HAVE_DATA = 0 \<longrightarrow> bi_nStatus bi AND BLOCK_HAVE_UNDO = 0"
    and "sizes_ok (nd_files nd)" "length (ce_MessageStart env) = 4" "length (ser_CBlock block) + 8 < 0x8000000"
    and "block_readable (be_sph env) (be_params env) block"
  shows "node_ok env nd' \<and> sizes_ok (nd_files nd') \<and>
    (rv \<longrightarrow> (\<exists>bi. nd_idx nd' (be_hash (ne_block env) block) = Some bi \<and> bi_nStatus bi AND BLOCK_HAVE_DATA \<noteq> 0)) \<and>
    (rv \<and> nd_idx nd (be_hash (ne_block env) block) = None \<longrightarrow>
       disk_block env (nd_idx nd') (nd_files nd') (be_hash (ne_block env) block) = Some block)"
  using AcceptBlock_node [OF assms] by blast

theorem accept_block_keeps_node_witness:
  "\<exists>r state' nd'. AcceptBlock sample_node_env [] third_block None True CValidationState_new sample_node = Some (r, state', nd') \<and> node_ok sample_node_env nd'"
proof -
  obtain r state' nd' where a: "AcceptBlock sample_node_env [] third_block None True CValidationState_new sample_node = Some (r, state', nd')"
    using third_accepts by blast
  have "node_ok sample_node_env nd'"
    using accept_block_keeps_node [OF sample_node_ok a] third_readable third_length node_sizes by (simp add: third_hash node_status)
  then show ?thesis using a by blast
qed

text \<open>
  C4: \<^verbatim>\<open>InvalidateBlock\<close> on a known block other than the genesis block, at a consistent node whose stored blocks are
  \<open>undoable\<close> (in particular they never take the last output of a coinstake's record), comes to an end without a failed
  assertion, and fails only with a system error. When it succeeds the block is marked as failed and no longer on the active
  chain, and the node is consistent at the new tip.
\<close>

theorem invalidated_block_leaves_chain:
  assumes "key_compression (ce_fully_valid env) (ce_decompress env)" "\<And>st tx. money_ok (acc_params (ne_accept env st tx))"
    and "node_ok env nd" "undoable M env (nd_idx nd) (nd_files nd)" "nd_tip nd = Some t"
    and "nd_idx nd p = Some bi" "p \<noteq> be_HashGenesisBlock env"
  shows "\<exists>r state' nd'. InvalidateBlock env entries state p nd = Some (r, state', nd') \<and> (\<not> r \<longrightarrow> vs_mode state' = MODE_ERROR) \<and>
    (r \<longrightarrow> node_ok env nd' \<and> files_keep (nd_files nd) (nd_files nd') \<and> \<not> Contains (nd_idx nd') (nd_chain nd') p \<and>
       (\<exists>bi'. nd_idx nd' p = Some bi' \<and> bi_nStatus bi' AND BLOCK_FAILED_VALID \<noteq> 0))"
  using InvalidateBlock_ok [OF assms, of entries state] unfolding step_keeps_def marked_def by blast

theorem invalidated_block_leaves_chain_witness:
  "\<exists>state nd r state' nd'. ConnectTip sample_node_env CValidationState_new 2 (Some (node_block 2)) True sample_node = Some (True, state, nd) \<and>
     nd_tip nd = Some 2 \<and> InvalidateBlock sample_node_env [1, 2] CValidationState_new 2 nd = Some (r, state', nd') \<and>
     (r \<longrightarrow> node_ok sample_node_env nd' \<and> \<not> Contains (nd_idx nd') (nd_chain nd') 2)"
proof -
  obtain state nd where c: "ConnectTip sample_node_env CValidationState_new 2 (Some (node_block 2)) True sample_node = Some (True, state, nd)"
    using node_connect_tip by blast
  have k: "node_ok sample_node_env nd" "step_keeps sample_node nd" "nd_tip nd = Some 2"
    using ConnectTip_ok [OF sample_node_ok undoable_small [OF sample_undoable] sample_money(1) _ _ _ c, of 999] sample_rooms node_disk by (simp_all add: step_keeps_def)
  obtain b1 where b1: "nd_idx nd 2 = Some b1"
    using places_kept_Some(2) [of "nd_idx sample_node" "nd_idx nd" 2 "node_entry 1"] k(2) by (auto simp: step_keeps_def entry_kept_def links_def)
  have kc: "key_compression (ce_fully_valid sample_node_env) (ce_decompress sample_node_env)" using sample_key_compression by simp
  from invalidated_block_leaves_chain [OF kc sample_money(2) k(1) step_keeps_disk(2) [OF k(2) sample_node_ok sample_undoable] k(3) b1, of "[1, 2]" CValidationState_new]
  show ?thesis using c k(3) by auto
qed

end
