(* ===== verification/Spec2Isabelle.thy ===== *)
theory Spec2Isabelle
  imports Prelude Uint256 Script Sigencoding Interpreter Standard Serialize Transaction Compressor Coins
    CoinsSer CoinsUpdate TxCheck Supply Block Merkle Chain Pow Kernel BlockTree Mempool BlockFiles BlockCheck ConnectBlock
    Reads Activation NodeState ProcessBlock
begin

text \<open>
  A verification development for the consensus core of the Cent node, a proof-of-stake coin written in
  C++. The development covers what decides whether a block or a transaction is valid, how the node stores
  it, and how the node moves from one chain to another. File names below are relative to \<^verbatim>\<open>src/src/\<close>.

  \<^bold>\<open>The program.\<close> A block arrives at \<^verbatim>\<open>ProcessNewBlock\<close> (main.cpp). It is checked by itself
  (\<^verbatim>\<open>CheckBlock\<close>), against its predecessor (\<^verbatim>\<open>CheckWork\<close>, \<^verbatim>\<open>AcceptBlockHeader\<close>,
  \<^verbatim>\<open>ContextualCheckBlock\<close>), written to a block file and linked into the tree \<^verbatim>\<open>mapBlockIndex\<close>
  (\<^verbatim>\<open>AcceptBlock\<close>, \<^verbatim>\<open>ReceivedBlockTransactions\<close>). \<^verbatim>\<open>ActivateBestChain\<close> then asks
  \<^verbatim>\<open>FindMostWorkChain\<close> for the best candidate, disconnects the tip down to the fork and connects blocks
  up to the candidate. Connecting a block checks every input against the set of unspent outputs, a
  stack of caches over a database (coins.cpp, txdb.cpp), runs the scripts (script/interpreter.cpp), writes
  undo data to an undo file and bounds the minted value; disconnecting reads the undo data back. The memory
  pool (txmempool.cpp) holds loose transactions: it gives up what a connected block confirms or
  contradicts and takes back what a disconnected block releases.

  \<^bold>\<open>Values and encodings.\<close>
  \<^item> \<open>Prelude\<close>: types of bytes and words, little- and big-endian byte strings, wrap-around of signed
    integers, flags, lists, and the collections of facts that the proofs below use.
  \<^item> \<open>Uint256\<close> (uint256.h, uint256.cpp): \<^verbatim>\<open>base_uint\<close> as a list of 32-bit limbs with the loops of its
    operators, and the compact form of targets. The limb loops compute arithmetic modulo the width; the
    compact form is a truncation.
  \<^item> \<open>Serialize\<close> (serialize.h, streams.h): compact sizes, variable-length integers, vectors. The locales
    \<open>decoder\<close> and \<open>codec\<close> state what a serializable type promises; \<open>vector_codec\<close> derives it for
    vectors. They are interpreted for integers, outpoints, inputs, outputs, transactions, headers,
    blocks, hashes and undo data.
  \<^item> \<open>Compressor\<close> (compressor.cpp) and \<open>CoinsSer\<close> (coins.h, undo.h): compressed amounts and outputs, and
    the stored forms of coins records and undo data, which are read back.
  \<^item> \<open>Transaction\<close> and \<open>Block\<close> (primitives/): data, serialization, signature hashes, the Quark hash chain
    of the header and the block signature. \<open>Merkle\<close> (primitives/block.cpp, merkleblock.cpp): trees, branches
    and partial trees; two unmutated lists with one root show a collision or an id that is an inner
    node, and a partial tree proves only ids and nodes of the block's tree.

  \<^bold>\<open>Scripts.\<close> \<open>Script\<close> (script/script.h), \<open>Sigencoding\<close> and \<open>Interpreter\<close> (script/interpreter.cpp),
  \<open>Standard\<close> (script/standard.cpp). The machine is a function from scripts, flags and a signature checker
  to a stack or an error, one definition per family of opcodes; every reachable state keeps the limits of
  stack, element and operation counts, strict DER is characterised declaratively, multisignature checks are
  subsequence matching, and the standard forms are spent exactly as intended.

  \<^bold>\<open>Coins.\<close> \<open>Coins\<close> (coins.cpp, txdb.cpp): records, the cache with dirty and fresh entries, and the database.
  The locale \<open>coins_view\<close> is the contract of a view; \<open>cached_view\<close> shows that a cache over a view is a
  view again, and is interpreted for the database and for the cache of the tip. \<open>CoinsUpdate\<close> (main.cpp):
  \<^verbatim>\<open>UpdateCoins\<close> and \<^verbatim>\<open>DisconnectBlock\<close> refine an abstract set of outputs and are inverse to each
  other. \<open>Supply\<close>: that abstract effect for a whole block and the value of a set of outputs. \<open>TxCheck\<close>
  (main.cpp, amount.cpp): the checks of a transaction alone and of its inputs, standardness, fees and the
  reward schedule. \<open>Reads\<close>: the locale \<open>base_reads\<close> shows that operations on a cache change what lies
  below it by lookups only, for the tip and for the view over the pool.

  \<^bold>\<open>Chains and targets.\<close> \<open>Chain\<close> (chain.cpp): index entries as records under their hash, a pointer being the
  hash, skip pointers, the vector of the active chain, forks and locators. \<open>Pow\<close> (pow.cpp): the two
  retargeting rules, the proof-of-work check, the work of a block. \<open>Kernel\<close> (kernel.cpp): stake
  modifiers, the kernel hash and \<^verbatim>\<open>CheckProofOfStake\<close>. \<open>BlockTree\<close> (main.cpp): the index with its
  candidates, links and failed blocks. Its invariant \<open>tree_wf\<close> is kept by every operation, and the chosen
  candidate is the best one.

  \<^bold>\<open>Blocks.\<close> \<open>BlockFiles\<close> (main.cpp): the files as lists of bytes, finding a place, writing and reading;
  what is written is read back and nothing written before is lost. \<open>BlockCheck\<close> (main.cpp,
  checkpoints.cpp): checks without and with context, and \<^verbatim>\<open>CValidationState\<close>. \<open>ConnectBlock\<close> (main.cpp):
  \<^verbatim>\<open>ConnectBlock\<close> with every check and effect; it refines the abstract block of \<open>Supply\<close>, the undo
  data it writes takes it back, and the value of all outputs stays below the recorded supply.
  \<open>Mempool\<close> (txmempool.cpp, main.cpp): the pool and \<^verbatim>\<open>AcceptToMemoryPool\<close>, with the invariant
  \<open>pool_inv\<close>.

  \<^bold>\<open>The node.\<close> \<open>Activation\<close> (main.cpp): the record \<open>node\<close> holds the globals, and
  \<^verbatim>\<open>FlushStateToDisk\<close>, \<^verbatim>\<open>UpdateTip\<close>, \<^verbatim>\<open>DisconnectTip\<close>, \<^verbatim>\<open>ConnectTip\<close>,
  \<^verbatim>\<open>ActivateBestChainStep\<close> and \<^verbatim>\<open>ActivateBestChain\<close> are functions on it. \<open>NodeState\<close>: the invariant
  \<open>node_ok\<close> says that the index is a tree rooted in the genesis block, that the active chain is a path in
  it, that every entry with a position has its block there under its own hash, that its undo data is that of the
  block on its branch, that the cache of the tip represents exactly the outputs which replaying the
  stored blocks of the active branch leaves unspent, and that the pool is consistent. Taking back the tip,
  connecting a block and a step of the activation keep it. \<open>ProcessBlock\<close> (main.cpp): \<^verbatim>\<open>AcceptBlock\<close>,
  \<^verbatim>\<open>ProcessNewBlock\<close>, \<^verbatim>\<open>InvalidateBlock\<close>, \<^verbatim>\<open>TestBlockValidity\<close> and the two functions that
  disconnect blocks on request; accepting and invalidating blocks keep the invariant.

  \<^bold>\<open>Conventions.\<close> A null pointer that is dereferenced, a failed assertion and an index out of range are
  the value \<open>None\<close>; a refusal is a value with the reason the code gives. Integers are words of their
  width, or integers with \<open>swrap\<close> where the sum of signed values matters. Maps are functions or, where the
  order of a container matters, lists. A loop is structural recursion, or takes fuel. The fuel is enough: a walk
  over the tree gets the height plus two, \<open>disconnect_loop\<close> and \<open>invalidate_loop\<close> the length of the chain,
  \<open>connect_batches\<close> the height of the target plus two, \<open>ancestors_above\<close> the 32 blocks of a batch and one,
  \<open>conflict_search\<close> the five blocks the code inspects, and the lemmas on each loop show that the fuel is not
  used up on a well-formed state. \<open>activate_loop\<close>, which ends only when no better chain turns up, is a partial
  function whose value is \<open>None\<close> when it runs forever.

  \<^bold>\<open>Parameters.\<close> Digests (SHA-256, RIPEMD-160 and those of sphlib), signature verification and the
  decompression of keys by libsecp256k1, the wall clock, the free disk space, sporks and the payee rules of the
  masternodes are arguments of the definitions, collected in the records \<open>crypto\<close>, \<open>block_env\<close>,
  \<open>connect_env\<close> and \<open>node_env\<close>. The hypotheses on them are few: \<open>key_compression\<close>, that a full
  key is what the compressed form of it decompresses to, and \<open>money_ok\<close>, that the maximal money fits. Collisions of the hash
  are a case of the conclusion, or are excluded by \<open>no_collision\<close> between two sets of hashed pairs that the theorem names;
  nothing is assumed of the hash elsewhere.
  Theorems on the node assume further \<open>undoable\<close>: a stored block that applies to the coins of its branch begins with a
  coinbase, repeats no id that still has unspent outputs, never takes the last output of a record that a coinstake made, and has undo
  data that serializes in a bounded number of bytes. The clause on coinstakes is there because \<^verbatim>\<open>DisconnectBlock\<close> restores a
  fully spent record without its mark (\<open>undo_drops_coinstake_mark\<close>), after which the block that made the record cannot be
  disconnected cleanly; spending outputs of a coinstake is otherwise allowed. Connecting a block needs only the bound
  on the size, \<open>undo_small\<close>. \<open>undo_rooms\<close> and \<open>sizes_ok\<close> say that the 32-bit counters of the files do not overflow.

  \<^bold>\<open>Not modelled.\<close> The wallet, the network layer with its messages and peers, the RPC server and the user
  interface are input and output around this core. Masternodes, budgets, sporks and SwiftTX act on
  signed network messages and on time; what the core asks of them is an argument. The sphlib digests, libsecp256k1
  and leveldb are vendored. Signals, fork warnings, log output, timing counters, the debug checks
  \<^verbatim>\<open>mempool.check\<close> and \<^verbatim>\<open>CheckBlockIndex\<close>, and code with floating-point numbers (priorities, the fee
  estimator, progress estimates) are left out; where a comparison of such numbers decides something, its outcome
  is an argument. A write of the operating system or of a database does not fail. Of \<^verbatim>\<open>-checkmempool\<close> the assertion in
  \<^verbatim>\<open>removeCoinbaseSpends\<close> is left out as well. The database of coins keeps records, not bytes: the byte form and which
  records it preserves are in \<open>CoinsSer\<close>. A cache does not memoize the best block of the view below it, which gives the same answers.
\<close>

end
